(* ===== verification/Prelude.thy ===== *)
theory Prelude
  imports Main "HOL-Library.Word"
begin

text \<open>
  Prelude of the development: the machine types of the firmware (\<^verbatim>\<open>u8_t\<close>, \<^verbatim>\<open>u16_t\<close>,
  \<^verbatim>\<open>u32_t\<close> of \<^verbatim>\<open>arch/cc.h\<close>), the error codes of \<^verbatim>\<open>lwip/err.h\<close>, and the generic
  facts on words, bytes and lists that the component theories share.  The Cortex-M4 is
  little endian: a 16 or 32 bit load takes its least significant byte first.
\<close>

unbundle bit_operations_syntax

type_synonym u8 = "8 word"
type_synonym u16 = "16 word"
type_synonym u32 = "32 word"

named_theorems word_nat \<open>values of word expressions as natural numbers\<close>
named_theorems frame \<open>fields an operation leaves unchanged\<close>
named_theorems inv_intro \<open>operations that keep a component's invariant\<close>

datatype err_t =
    ERR_OK | ERR_MEM | ERR_BUF | ERR_TIMEOUT | ERR_RTE | ERR_INPROGRESS | ERR_VAL
  | ERR_WOULDBLOCK | ERR_USE | ERR_ISCONN | ERR_ABRT | ERR_RST | ERR_CLSD | ERR_CONN
  | ERR_ARG | ERR_IF

text \<open>Numeric values of the error codes, as \<^verbatim>\<open>s8_t\<close>.\<close>

fun err_code :: "err_t \<Rightarrow> int" where
  "err_code ERR_OK = 0"
| "err_code ERR_MEM = -1"
| "err_code ERR_BUF = -2"
| "err_code ERR_TIMEOUT = -3"
| "err_code ERR_RTE = -4"
| "err_code ERR_INPROGRESS = -5"
| "err_code ERR_VAL = -6"
| "err_code ERR_WOULDBLOCK = -7"
| "err_code ERR_USE = -8"
| "err_code ERR_ISCONN = -9"
| "err_code ERR_ABRT = -10"
| "err_code ERR_RST = -11"
| "err_code ERR_CLSD = -12"
| "err_code ERR_CONN = -13"
| "err_code ERR_ARG = -14"
| "err_code ERR_IF = -15"

subsection \<open>Bounds of the machine types\<close>

lemma u8_lt [simp]: "unat (b :: u8) < 256"
  using unsigned_less [where ?'a = nat, of b] by simp

lemma u8_le: "unat (b :: u8) \<le> 255"
  using u8_lt [of b] by linarith

lemma u16_lt [simp]: "unat (w :: u16) < 65536"
  using unsigned_less [where ?'a = nat, of w] by simp

lemma u32_lt [simp]: "unat (w :: u32) < 4294967296"
  using unsigned_less [where ?'a = nat, of w] by simp

lemma u16_le [simp]: "unat (w :: u16) \<le> 65535"
  using u16_lt [of w] by linarith

lemma unat_of_nat_u8 [word_nat]: "unat (of_nat n :: u8) = n mod 256"
  by (simp add: unat_of_nat)

lemma unat_of_nat_u16 [word_nat]: "unat (of_nat n :: u16) = n mod 65536"
  by (simp add: unat_of_nat)

lemma unat_of_nat_u32 [word_nat]: "unat (of_nat n :: u32) = n mod 4294967296"
  by (simp add: unat_of_nat)

lemma unat_add_u32 [word_nat]:
  "unat ((a :: u32) + b) = (unat a + unat b) mod 4294967296"
  by (simp add: unat_word_ariths)

lemma unat_add_u16 [word_nat]:
  "unat ((a :: u16) + b) = (unat a + unat b) mod 65536"
  by (simp add: unat_word_ariths)

lemma unat_ucast_8_16 [word_nat]: "unat (ucast (b :: u8) :: u16) = unat b"
  by (simp add: unsigned_ucast_eq take_bit_nat_eq_self_iff order_less_trans [OF u8_lt])

lemma unat_ucast_8_32 [word_nat]: "unat (ucast (b :: u8) :: u32) = unat b"
  by (simp add: unsigned_ucast_eq take_bit_nat_eq_self_iff order_less_trans [OF u8_lt])

lemma unat_ucast_16_32 [word_nat]: "unat (ucast (w :: u16) :: u32) = unat w"
  by (simp add: unsigned_ucast_eq take_bit_nat_eq_self_iff order_less_trans [OF u16_lt])

lemma unat_ucast_32_16 [word_nat]: "unat (ucast (w :: u32) :: u16) = unat w mod 65536"
  by (simp add: unsigned_ucast_eq take_bit_eq_mod)

lemma unat_ucast_16_8 [word_nat]: "unat (ucast (w :: u16) :: u8) = unat w mod 256"
  by (simp add: unsigned_ucast_eq take_bit_eq_mod)

lemma unat_ucast_32_8 [word_nat]: "unat (ucast (w :: u32) :: u8) = unat w mod 256"
  by (simp add: unsigned_ucast_eq take_bit_eq_mod)

subsection \<open>Masks, shifts and byte composition\<close>

lemma nat_and_mask: "(n :: nat) AND (2 ^ k - 1) = n mod 2 ^ k"
  by (simp only: mask_eq_exp_minus_1 [symmetric] take_bit_eq_mask [symmetric] take_bit_eq_mod)

lemma unat_and_ff_u16 [word_nat]: "unat ((w :: u16) AND 0xff) = unat w mod 256"
  using nat_and_mask [of "unat w" 8] by (simp add: unsigned_and_eq)

lemma unat_and_ff_u32 [word_nat]: "unat ((w :: u32) AND 0xff) = unat w mod 256"
  using nat_and_mask [of "unat w" 8] by (simp add: unsigned_and_eq)

lemma unat_and_ffff_u32 [word_nat]: "unat ((w :: u32) AND 0xffff) = unat w mod 65536"
  using nat_and_mask [of "unat w" 16] by (simp add: unsigned_and_eq)

lemma unat_drop_bit_word [word_nat]: "unat (drop_bit k (w :: 'a::len word)) = unat w div 2 ^ k"
  by (metis unat_drop_bit_eq drop_bit_eq_div)

lemma unat_push_bit_u16 [word_nat]:
  "unat (push_bit k (w :: u16)) = (unat w * 2 ^ k) mod 65536"
  by (simp only: unsigned_push_bit_eq) (simp add: push_bit_eq_mult take_bit_eq_mod)

lemma unat_push_bit_u32 [word_nat]:
  "unat (push_bit k (w :: u32)) = (unat w * 2 ^ k) mod 4294967296"
  by (simp only: unsigned_push_bit_eq) (simp add: push_bit_eq_mult take_bit_eq_mod)

text \<open>An OR of a multiple of \<open>2 ^ k\<close> and a value below \<open>2 ^ k\<close> is their sum.\<close>

lemma nat_or_disjoint:
  fixes a b :: nat
  assumes "b < 2 ^ k"
  shows "(a * 2 ^ k) OR b = a * 2 ^ k + b"
proof -
  have "\<not> bit (a * 2 ^ k) n \<or> \<not> bit b n" for n
  proof (cases "n < k")
    case True
    then show ?thesis
      by (simp add: bit_push_bit_iff flip: push_bit_eq_mult)
  next
    case False
    have "b = take_bit k b" using assms by (simp add: take_bit_nat_eq_self)
    with False show ?thesis by (metis bit_take_bit_iff)
  qed
  then have "(a * 2 ^ k) AND b = 0"
    by (auto simp: bit_eq_iff bit_and_iff)
  then show ?thesis by (rule disjunctive_add_eq_or [symmetric])
qed

text \<open>Four bytes put together with shifts and ORs.\<close>

lemma or_bytes:
  fixes a b c d :: nat
  assumes "b < 256" and "c < 256" and "d < 256"
  shows "((a * 16777216 OR b * 65536) OR c * 256) OR d = a * 16777216 + b * 65536 + c * 256 + d"
proof -
  have "a * 16777216 OR b * 65536 = (a * 256 + b) * 65536"
    using nat_or_disjoint [of "b * 65536" 24 a] assms by (simp add: algebra_simps)
  moreover have "(a * 256 + b) * 65536 OR c * 256 = ((a * 256 + b) * 256 + c) * 256"
    using nat_or_disjoint [of "c * 256" 16 "a * 256 + b"] assms by (simp add: algebra_simps)
  moreover have "((a * 256 + b) * 256 + c) * 256 OR d = ((a * 256 + b) * 256 + c) * 256 + d"
    using nat_or_disjoint [of d 8 "(a * 256 + b) * 256 + c"] assms by simp
  ultimately show ?thesis by (simp add: algebra_simps)
qed

lemma unat_push_byte:
  assumes "unat (w :: u32) < 256"
  shows "unat (push_bit 24 w) = unat w * 16777216" and "unat (push_bit 16 w) = unat w * 65536"
    and "unat (push_bit 8 w) = unat w * 256"
  using assms by (simp_all add: unat_push_bit_u32)

text \<open>Two bytes as the halfword a little-endian load sees.\<close>

definition le16 :: "u8 \<Rightarrow> u8 \<Rightarrow> u16" where
  "le16 lo hi = of_nat (unat lo + 256 * unat hi)"

lemma unat_le16 [word_nat]: "unat (le16 lo hi) = unat lo + 256 * unat hi"
proof -
  have "unat lo + 256 * unat hi < 65536"
    using u8_lt [of lo] u8_lt [of hi] by linarith
  then show ?thesis by (simp only: le16_def unat_of_nat_u16 mod_less)
qed

definition le32 :: "u8 \<Rightarrow> u8 \<Rightarrow> u8 \<Rightarrow> u8 \<Rightarrow> u32" where
  "le32 b0 b1 b2 b3 = of_nat (unat (le16 b0 b1) + 65536 * unat (le16 b2 b3))"

lemma unat_le32 [word_nat]:
  "unat (le32 b0 b1 b2 b3) = unat (le16 b0 b1) + 65536 * unat (le16 b2 b3)"
proof -
  have "unat (le16 b0 b1) + 65536 * unat (le16 b2 b3) < 4294967296"
    using u16_lt [of "le16 b0 b1"] u16_lt [of "le16 b2 b3"] by linarith
  then show ?thesis by (simp only: le32_def unat_of_nat_u32 mod_less)
qed

end
