(* ===== verification/Chksum.thy ===== *)
theory Chksum
  imports Prelude
begin

text \<open>
  \<^verbatim>\<open>lwip/src/core/def.c\<close> (byte order) and \<^verbatim>\<open>lwip/src/core/ipv4/inet_chksum.c\<close> (the
  Internet checksum): the byte swapping functions, the three selectable implementations of
  \<^verbatim>\<open>lwip_standard_chksum\<close>, and the checksums over a buffer and over pbuf chains, which are
  parameterised by the implementation as the macro \<^verbatim>\<open>LWIP_CHKSUM\<close> does.  A buffer is the
  list of its bytes; where an implementation looks at the address of the buffer, the address
  is an argument.  A pbuf chain is the list of the payload addresses and payload bytes of its
  pbufs, in order.

  The specification is the one's complement sum of RFC 1071: \<open>oc\<close> of the sum of the
  little-endian halfwords.  The locale \<open>chksum_alg\<close> states what the code relies on of
  \<^verbatim>\<open>LWIP_CHKSUM\<close>; all three implementations satisfy it.
\<close>

section \<open>Byte order\<close>

definition lwip_htons :: "u16 \<Rightarrow> u16" where
  "lwip_htons n = push_bit 8 (n AND 0xff) OR drop_bit 8 (n AND 0xff00)"

definition lwip_ntohs :: "u16 \<Rightarrow> u16" where
  "lwip_ntohs n = lwip_htons n"

definition lwip_htonl :: "u32 \<Rightarrow> u32" where
  "lwip_htonl n =
     push_bit 24 (n AND 0xff) OR push_bit 8 (n AND 0xff00) OR
     drop_bit 8 (n AND 0xff0000) OR drop_bit 24 (n AND 0xff000000)"

definition lwip_ntohl :: "u32 \<Rightarrow> u32" where
  "lwip_ntohl n = lwip_htonl n"

section \<open>The three checksum implementations\<close>

text \<open>The macros \<^verbatim>\<open>FOLD_U32T\<close> and \<^verbatim>\<open>SWAP_BYTES_IN_WORD\<close> (on a \<^verbatim>\<open>u32_t\<close>) of \<^verbatim>\<open>inet_chksum.h\<close>.\<close>

definition FOLD_U32T :: "u32 \<Rightarrow> u32" where
  "FOLD_U32T u = drop_bit 16 u + (u AND 0xffff)"

definition SWAP_BYTES_IN_WORD :: "u32 \<Rightarrow> u32" where
  "SWAP_BYTES_IN_WORD w = push_bit 8 (w AND 0xff) OR drop_bit 8 (w AND 0xff00)"

text \<open>Version 1: byte by byte, in network order.\<close>

fun chksum1_loop :: "u8 list \<Rightarrow> u32 \<Rightarrow> u32" where
  "chksum1_loop (a # b # bs) acc =
     (let src = push_bit 8 (ucast a) OR ucast b :: u16 in chksum1_loop bs (acc + ucast src))"
| "chksum1_loop [a] acc = (let src = push_bit 8 (ucast a) :: u16 in acc + ucast src)"
| "chksum1_loop [] acc = acc"

definition lwip_standard_chksum1 :: "nat \<Rightarrow> u8 list \<Rightarrow> u16" where
  "lwip_standard_chksum1 addr bs =
     (let acc = chksum1_loop bs 0;
          acc = drop_bit 16 acc + (acc AND 0xffff);
          acc = (if acc AND 0xffff0000 \<noteq> 0 then drop_bit 16 acc + (acc AND 0xffff) else acc)
      in lwip_htons (ucast acc))"

text \<open>Version 2, the default: a halfword at a time, from an aligned address.  The loop returns
  the sum and the bytes it did not consume (at most one).\<close>

fun chksum_words :: "u8 list \<Rightarrow> u32 \<Rightarrow> u32 \<times> u8 list" where
  "chksum_words (a # b # bs) s = chksum_words bs (s + ucast (le16 a b))"
| "chksum_words bs s = (s, bs)"

text \<open>Bytes 1 and 0 of the halfword \<open>t\<close> in memory.\<close>

definition set_byte1 :: "u16 \<Rightarrow> u8 \<Rightarrow> u16" where
  "set_byte1 t b = le16 (ucast t) b"

definition set_byte0 :: "u16 \<Rightarrow> u8 \<Rightarrow> u16" where
  "set_byte0 t b = le16 b (ucast (drop_bit 8 t))"

definition lwip_standard_chksum2 :: "nat \<Rightarrow> u8 list \<Rightarrow> u16" where
  "lwip_standard_chksum2 addr bs =
     (let is_odd = odd addr;
          (t, pb) = (if is_odd \<and> bs \<noteq> [] then (set_byte1 0 (hd bs), tl bs) else (0, bs));
          (s, ps) = chksum_words pb 0;
          t = (case ps of [] \<Rightarrow> t | b # _ \<Rightarrow> set_byte0 t b);
          s = s + ucast t;
          s = FOLD_U32T s;
          s = FOLD_U32T s;
          s = (if is_odd then SWAP_BYTES_IN_WORD s else s)
      in ucast s)"

text \<open>Version 3: two 32 bit words per iteration, carries added back at once.\<close>

definition add_carry :: "u32 \<Rightarrow> u32 \<Rightarrow> u32" where
  "add_carry s l = (let tmp = s + l in if tmp < s then tmp + 1 else tmp)"

fun chksum_longs :: "u8 list \<Rightarrow> u32 \<Rightarrow> u32 \<times> u8 list" where
  "chksum_longs (a0 # a1 # a2 # a3 # b0 # b1 # b2 # b3 # bs) s =
     (let tmp = add_carry s (le32 a0 a1 a2 a3);
          s' = add_carry tmp (le32 b0 b1 b2 b3)
      in chksum_longs bs s')"
| "chksum_longs bs s = (s, bs)"

definition lwip_standard_chksum3 :: "nat \<Rightarrow> u8 list \<Rightarrow> u16" where
  "lwip_standard_chksum3 addr bs =
     (let is_odd = odd addr;
          (t, pb, ps) = (if is_odd \<and> bs \<noteq> [] then (set_byte1 0 (hd bs), addr + 1, tl bs)
                         else (0, addr, bs));
          (s, pl) = (if pb mod 4 \<noteq> 0 \<and> length ps > 1
                       then (ucast (le16 (ps ! 0) (ps ! 1)), drop 2 ps) else (0, ps));
          (s, pw) = chksum_longs pl s;
          s = FOLD_U32T s;
          (s, pe) = chksum_words pw s;
          t = (case pe of [] \<Rightarrow> t | b # _ \<Rightarrow> set_byte0 t b);
          s = s + ucast t;
          s = FOLD_U32T s;
          s = FOLD_U32T s;
          s = (if is_odd then SWAP_BYTES_IN_WORD s else s)
      in ucast s)"

section \<open>Specification: the one's complement sum\<close>

text \<open>The sum of the little-endian halfwords of a buffer, an odd last byte padded with zero,
  and the 16 bit one's complement representative of a sum.\<close>

fun wsum :: "u8 list \<Rightarrow> nat" where
  "wsum [] = 0"
| "wsum [a] = unat a"
| "wsum (a # b # bs) = unat a + 256 * unat b + wsum bs"

definition oc :: "nat \<Rightarrow> nat" where
  "oc n = (if n = 0 then 0 else (n - 1) mod 65535 + 1)"

definition oc_sum :: "u8 list \<Rightarrow> u16" where
  "oc_sum bs = of_nat (oc (wsum bs))"

text \<open>\<open>rep r n\<close>: \<open>r\<close> represents the sum \<open>n\<close>: equal modulo 65535, and zero only for zero.\<close>

definition rep :: "nat \<Rightarrow> nat \<Rightarrow> bool" where
  "rep r n \<longleftrightarrow> r mod 65535 = n mod 65535 \<and> (r = 0 \<longleftrightarrow> n = 0)"

lemma rep_refl [simp]: "rep n n"
  by (simp add: rep_def)

lemma rep_sym: "rep a b \<Longrightarrow> rep b a"
  by (auto simp: rep_def)

lemma rep_trans [trans]: "rep a b \<Longrightarrow> rep b c \<Longrightarrow> rep a c"
  by (auto simp: rep_def)

lemma rep_add: "rep a n \<Longrightarrow> rep b m \<Longrightarrow> rep (a + b) (n + m)"
  by (auto simp: rep_def intro: mod_add_cong)

lemma rep_mult: "0 < k \<Longrightarrow> rep a n \<Longrightarrow> rep (k * a) (k * n)"
  by (auto simp: rep_def intro: mod_mult_cong)

lemma rep_65536: "rep (65536 * n) n"
proof -
  have "65536 * n = n + 65535 * n" by simp
  then have "(65536 * n) mod 65535 = n mod 65535"
    by (metis mod_mult_self2)
  then show ?thesis by (simp add: rep_def)
qed

lemma rep_unique:
  assumes "rep a b" and "a \<le> 65535" and "b \<le> 65535"
  shows "a = b"
proof (cases "a = 65535 \<or> b = 65535")
  case True
  then show ?thesis
  proof
    assume "a = 65535"
    with assms have "b mod 65535 = 0" "b \<noteq> 0" by (auto simp: rep_def)
    then show ?thesis using assms(3) \<open>a = 65535\<close> by (cases "b < 65535") auto
  next
    assume "b = 65535"
    with assms have "a mod 65535 = 0" "a \<noteq> 0" by (auto simp: rep_def)
    then show ?thesis using assms(2) \<open>b = 65535\<close> by (cases "a < 65535") auto
  qed
next
  case False
  with assms have "a < 65535" "b < 65535" by auto
  with assms(1) show ?thesis by (simp add: rep_def)
qed

lemma oc_le: "oc n \<le> 65535"
  by (auto simp: oc_def intro: Suc_leI)

lemma rep_oc: "rep (oc n) n"
proof (cases "n = 0")
  case False
  then obtain m where m: "n = Suc m" by (cases n) auto
  have "(m mod 65535 + 1) mod 65535 = Suc m mod 65535"
    by (simp add: mod_Suc_eq)
  with m show ?thesis by (simp add: rep_def oc_def)
qed (simp add: rep_def oc_def)

lemma oc_unique: "rep r n \<Longrightarrow> r \<le> 65535 \<Longrightarrow> r = oc n"
  by (rule rep_unique [OF rep_trans [OF _ rep_sym [OF rep_oc]] _ oc_le])

lemma oc_cong: "rep m n \<Longrightarrow> oc m = oc n"
  by (rule oc_unique [OF rep_trans [OF rep_oc] oc_le])

subsection \<open>Folding and swapping\<close>

lemma u32_halves: "unat (u :: u32) div 65536 \<le> 65535" "unat u mod 65536 \<le> 65535"
proof -
  show "unat u div 65536 \<le> 65535"
    using div_le_mono [of "unat u" 4294967295 65536] u32_lt [of u] by simp
  show "unat u mod 65536 \<le> 65535"
    using mod_less_divisor [of 65536 "unat u"] by linarith
qed

lemma unat_fold: "unat (FOLD_U32T u) = unat u div 65536 + unat u mod 65536"
proof -
  have "unat u div 65536 + unat u mod 65536 < 4294967296"
    using u32_halves [of u] by linarith
  then show ?thesis by (simp add: FOLD_U32T_def word_nat)
qed

lemma rep_fold: "rep (unat (FOLD_U32T u)) (unat u)"
proof -
  have "rep (unat u div 65536 + unat u mod 65536) (65536 * (unat u div 65536) + unat u mod 65536)"
    by (intro rep_add rep_sym [OF rep_65536]) simp
  then show ?thesis by (simp add: unat_fold)
qed

lemma fold_le1: "unat (FOLD_U32T u) \<le> 131070"
  using u32_halves [of u] by (simp add: unat_fold)

lemma fold_le2:
  assumes "unat u \<le> 131070"
  shows "unat (FOLD_U32T u) \<le> 65535"
proof -
  have eq: "unat u = 65536 * (unat u div 65536) + unat u mod 65536" by simp
  have "unat u div 65536 = 0 \<or> unat u div 65536 = 1"
    using div_le_mono [OF assms, of 65536] by auto
  then show ?thesis
    using eq u32_halves(2) [of u] assms unfolding unat_fold by linarith
qed

lemma unat_high_byte_u32: "unat (drop_bit 8 ((w :: u32) AND 0xff00)) = unat w div 256 mod 256"
proof -
  have "drop_bit 8 (w AND 0xff00) = drop_bit 8 w AND 0xff"
    by (simp add: drop_bit_and)
  then show ?thesis by (simp only: unat_and_ff_u32 unat_drop_bit_word) simp
qed

lemma unat_swap:
  "unat (SWAP_BYTES_IN_WORD w) = 256 * (unat w mod 256) + unat w div 256 mod 256"
proof -
  have lt: "unat w mod 256 * 2 ^ 8 < 4294967296"
    using mod_less_divisor [of 256 "unat w"] by simp
  have "unat (push_bit 8 (w AND 0xff)) = unat w mod 256 * 2 ^ 8"
    using lt by (simp only: unat_push_bit_u32 unat_and_ff_u32 mod_less)
  then have "unat (SWAP_BYTES_IN_WORD w) = (unat w mod 256 * 2 ^ 8) OR (unat w div 256 mod 256)"
    by (simp only: SWAP_BYTES_IN_WORD_def unsigned_or_eq unat_high_byte_u32)
  also have "\<dots> = unat w mod 256 * 2 ^ 8 + unat w div 256 mod 256"
    by (rule nat_or_disjoint) simp
  finally show ?thesis by simp
qed

lemma swap_le: "unat (SWAP_BYTES_IN_WORD w) \<le> 65535"
proof -
  have "unat w mod 256 \<le> 255" "unat w div 256 mod 256 \<le> 255"
    using mod_less_divisor [of 256] by (simp_all add: less_Suc_eq_le [symmetric])
  then show ?thesis unfolding unat_swap by linarith
qed

lemma rep_swap:
  assumes "unat w \<le> 65535"
  shows "rep (unat (SWAP_BYTES_IN_WORD w)) (256 * unat w)"
proof -
  have hi: "unat w div 256 mod 256 = unat w div 256"
    using div_le_mono [OF assms, of 256] by simp
  have "rep (256 * (unat w mod 256) + unat w div 256) (256 * (unat w mod 256) + 65536 * (unat w div 256))"
    by (intro rep_add rep_sym [OF rep_65536]) simp
  moreover have "256 * (unat w mod 256) + 65536 * (unat w div 256) = 256 * unat w"
    using mult_div_mod_eq [of 256 "unat w"] by linarith
  ultimately show ?thesis by (simp add: unat_swap hi)
qed

lemma unat_htons: "unat (lwip_htons w) = 256 * (unat w mod 256) + unat w div 256"
proof -
  have lt: "unat w mod 256 * 2 ^ 8 < 65536"
    using mod_less_divisor [of 256 "unat w"] by simp
  have p: "unat (push_bit 8 (w AND 0xff)) = unat w mod 256 * 2 ^ 8"
    using lt by (simp only: unat_push_bit_u16 unat_and_ff_u16 mod_less)
  have "drop_bit 8 (w AND 0xff00) = drop_bit 8 w AND 0xff"
    by (simp add: drop_bit_and)
  then have d: "unat (drop_bit 8 (w AND 0xff00)) = unat w div 256"
    using div_le_mono [OF u16_le, of w 256]
    by (simp only: unat_and_ff_u16 unat_drop_bit_word) simp
  have "unat (lwip_htons w) = (unat w mod 256 * 2 ^ 8) OR (unat w div 256)"
    by (simp only: lwip_htons_def unsigned_or_eq p d)
  also have "\<dots> = unat w mod 256 * 2 ^ 8 + unat w div 256"
    by (rule nat_or_disjoint) (use div_le_mono [OF u16_le, of w 256] in simp)
  finally show ?thesis by simp
qed

lemma rep_htons: "rep (unat (lwip_htons w)) (256 * unat w)"
proof -
  have "rep (256 * (unat w mod 256) + unat w div 256) (256 * (unat w mod 256) + 65536 * (unat w div 256))"
    by (intro rep_add rep_sym [OF rep_65536]) simp
  moreover have "256 * (unat w mod 256) + 65536 * (unat w div 256) = 256 * unat w"
    using mult_div_mod_eq [of 256 "unat w"] by linarith
  ultimately show ?thesis by (simp add: unat_htons)
qed

text \<open>Two folds leave the representative, whatever the sum.\<close>

lemma fold2_le: "unat (FOLD_U32T (FOLD_U32T u)) \<le> 65535"
  by (rule fold_le2 [OF fold_le1])

lemma rep_fold2: "rep (unat (FOLD_U32T (FOLD_U32T u))) (unat u)"
  by (rule rep_trans [OF rep_fold rep_fold])

lemma fold_id: "unat u \<le> 65535 \<Longrightarrow> FOLD_U32T u = u"
  by (simp add: word_unat_eq_iff unat_fold)

subsection \<open>The sum of a buffer\<close>

lemma wsum_Cons: "rep (wsum (x # bs)) (unat x + 256 * wsum bs)"
proof (induction bs arbitrary: x rule: wsum.induct)
  case (3 a b bs)
  have "rep (unat x + 256 * unat a + wsum (b # bs))
            (unat x + 256 * unat a + (65536 * unat b + 256 * wsum bs))"
    by (intro rep_add rep_refl rep_trans [OF "3.IH"] rep_sym [OF rep_65536])
  then show ?case by (simp add: algebra_simps)
qed simp_all

lemma wsum_append_even: "even (length xs) \<Longrightarrow> wsum (xs @ ys) = wsum xs + wsum ys"
  by (induction xs rule: wsum.induct) auto

lemma wsum_append_odd: "odd (length xs) \<Longrightarrow> rep (wsum (xs @ ys)) (wsum xs + 256 * wsum ys)"
proof (induction xs rule: wsum.induct)
  case (2 a)
  then show ?case using wsum_Cons [of a ys] by simp
next
  case (3 a b xs)
  then have "rep (wsum (xs @ ys)) (wsum xs + 256 * wsum ys)" by simp
  then have "rep (unat a + 256 * unat b + wsum (xs @ ys))
                 (unat a + 256 * unat b + (wsum xs + 256 * wsum ys))"
    by (intro rep_add rep_refl)
  then show ?case by (simp add: algebra_simps)
qed simp

lemma wsum_bound: "2 * wsum bs \<le> 65535 * (length bs + 1)"
proof (induction bs rule: wsum.induct)
  case (2 a)
  then show ?case using u8_le [of a] by simp
next
  case (3 a b bs)
  then show ?case using u8_le [of a] u8_le [of b] by simp
qed simp

subsection \<open>The loops\<close>

lemma rep_add_carry: "rep (unat (add_carry s l)) (unat s + unat l)"
proof (cases "unat s + unat l < 4294967296")
  case True
  then have "unat (s + l) = unat s + unat l" by (simp add: word_nat)
  then show ?thesis by (simp add: add_carry_def word_less_nat_alt)
next
  case False
  define k where "k = unat s + unat l - 4294967296"
  have k: "unat s + unat l = k + 4294967296" "k < 4294967295"
    using False u32_lt [of s] u32_lt [of l] unfolding k_def by linarith+
  then have a: "unat (s + l) = k" by (simp add: word_nat)
  moreover have "k < unat s" using k u32_lt [of l] by linarith
  ultimately have "unat (add_carry s l) = k + 1"
    using k(2) by (simp add: add_carry_def word_less_nat_alt word_nat)
  moreover have "rep (k + 1) (k + 4294967296)"
    by (intro rep_add rep_refl) (simp add: rep_def)
  ultimately show ?thesis using k(1) by simp
qed

lemma rep_le32: "rep (unat (le32 a b c d)) (wsum [a, b, c, d])"
proof -
  have "rep (unat (le16 a b) + 65536 * unat (le16 c d)) (unat (le16 a b) + unat (le16 c d))"
    by (intro rep_add rep_refl rep_65536)
  then show ?thesis by (simp add: word_nat algebra_simps)
qed

lemma chksum_words_sum:
  assumes "unat s + wsum bs < 4294967296" and "chksum_words bs s = (s', r)"
  shows "unat s' + wsum r = unat s + wsum bs \<and> length r \<le> 1"
  using assms
proof (induction bs s arbitrary: s' r rule: chksum_words.induct)
  case (1 a b bs s)
  have "unat (s + ucast (le16 a b)) = unat s + unat a + 256 * unat b"
    using "1.prems"(1) by (simp add: word_nat)
  then show ?case using 1 by simp
qed auto

lemma chksum_longs_sum:
  assumes "chksum_longs bs s = (s', r)"
  shows "rep (unat s' + wsum r) (unat s + wsum bs) \<and> length r \<le> 7"
  using assms
proof (induction bs s arbitrary: s' r rule: chksum_longs.induct)
  case (1 a0 a1 a2 a3 b0 b1 b2 b3 bs s)
  let ?t = "add_carry s (le32 a0 a1 a2 a3)"
  let ?u = "add_carry ?t (le32 b0 b1 b2 b3)"
  have ih: "rep (unat s' + wsum r) (unat ?u + wsum bs)" "length r \<le> 7"
    using "1.IH" [OF refl refl] "1.prems" by (simp_all add: Let_def)
  have "rep (unat ?t) (unat s + wsum [a0, a1, a2, a3])"
    by (rule rep_trans [OF rep_add_carry]) (intro rep_add rep_refl rep_le32)
  moreover have "rep (unat ?u) (unat ?t + wsum [b0, b1, b2, b3])"
    by (rule rep_trans [OF rep_add_carry]) (intro rep_add rep_refl rep_le32)
  ultimately have "rep (unat ?u) (unat s + wsum [a0, a1, a2, a3] + wsum [b0, b1, b2, b3])"
    by (meson rep_add rep_refl rep_trans)
  then have "rep (unat ?u + wsum bs) (unat s + wsum [a0, a1, a2, a3] + wsum [b0, b1, b2, b3] + wsum bs)"
    by (intro rep_add rep_refl)
  with ih show ?case by (auto simp: algebra_simps elim: rep_trans)
qed auto

subsection \<open>The implementations compute the one's complement sum\<close>

fun bsum :: "u8 list \<Rightarrow> nat" where
  "bsum [] = 0"
| "bsum [a] = 256 * unat a"
| "bsum (a # b # bs) = 256 * unat a + unat b + bsum bs"

lemma rep_bsum: "rep (bsum bs) (256 * wsum bs)"
proof (induction bs rule: bsum.induct)
  case (3 a b bs)
  have "rep (256 * unat a + unat b + bsum bs) (256 * unat a + 65536 * unat b + 256 * wsum bs)"
    by (intro rep_add rep_refl "3.IH" rep_sym [OF rep_65536])
  then show ?case by (simp add: algebra_simps)
qed simp_all

lemma bsum_bound: "2 * bsum bs \<le> 65535 * (length bs + 1)"
proof (induction bs rule: bsum.induct)
  case (2 a)
  then show ?case using u8_le [of a] by simp
next
  case (3 a b bs)
  then show ?case using u8_le [of a] u8_le [of b] by simp
qed simp

lemma unat_be16: "unat (push_bit 8 (ucast a) OR ucast b :: u16) = 256 * unat (a :: u8) + unat (b :: u8)"
proof -
  have lt: "unat a * 2 ^ 8 < 65536" using u8_le [of a] by simp
  have "unat (push_bit 8 (ucast a) OR ucast b :: u16) = (unat a * 2 ^ 8) OR unat b"
    using lt by (simp only: unsigned_or_eq unat_push_bit_u16 unat_ucast_8_16 mod_less)
  also have "\<dots> = unat a * 2 ^ 8 + unat b"
    by (rule nat_or_disjoint) simp
  finally show ?thesis by simp
qed

lemma unat_hi8: "unat (push_bit 8 (ucast (a :: u8)) :: u16) = 256 * unat a"
  using unat_be16 [of a 0] by simp

lemma chksum1_loop_sum:
  "unat acc + bsum bs < 4294967296 \<Longrightarrow> unat (chksum1_loop bs acc) = unat acc + bsum bs"
proof (induction bs acc rule: chksum1_loop.induct)
  case (1 a b bs acc)
  have "unat (acc + ucast (push_bit 8 (ucast a) OR ucast b :: u16)) = unat acc + 256 * unat a + unat b"
    using "1.prems" by (simp add: unat_add_u32 unat_ucast_16_32 unat_be16)
  then show ?case using 1 by (simp add: Let_def)
qed (simp_all add: Let_def unat_add_u32 unat_ucast_16_32 unat_hi8)

lemma high_half_zero:
  assumes "u AND 0xffff0000 = (0 :: u32)"
  shows "unat u \<le> 65535"
proof -
  have "drop_bit 16 (u AND 0xffff0000) = drop_bit 16 u AND 0xffff"
    by (simp add: drop_bit_and)
  then have "drop_bit 16 u AND 0xffff = 0" using assms by simp
  then have "unat (drop_bit 16 u AND 0xffff) = 0" by simp
  then have "unat u div 65536 mod 65536 = 0"
    by (simp only: unat_and_ffff_u32 unat_drop_bit_word) simp
  then have "unat u div 65536 = 0"
    using u32_halves(1) [of u] by simp
  then show ?thesis by (simp add: div_eq_0_iff)
qed

lemma chksum_result:
  fixes u :: u32
  assumes "rep (unat u) n" and "unat u \<le> 65535"
  shows "unat (ucast u :: u16) = oc n"
proof -
  have "unat u < 65536" using assms(2) by linarith
  then have "unat (ucast u :: u16) = unat u" by (simp only: unat_ucast_32_16 mod_less)
  then show ?thesis using oc_unique [OF assms] by simp
qed

lemma chksum1_correct:
  assumes "length bs \<le> 65535"
  shows "unat (lwip_standard_chksum1 addr bs) = oc (wsum bs)"
proof -
  define acc where "acc = chksum1_loop bs 0"
  define acc2 where "acc2 = (if FOLD_U32T acc AND 0xffff0000 \<noteq> 0 then FOLD_U32T (FOLD_U32T acc)
                             else FOLD_U32T acc)"
  have "65535 * (length bs + 1) \<le> 65535 * 65536" using assms by simp
  then have "bsum bs < 4294967296" using bsum_bound [of bs] by linarith
  then have acc: "unat acc = bsum bs" by (simp add: acc_def chksum1_loop_sum)
  have le: "unat acc2 \<le> 65535"
    by (auto simp: acc2_def fold2_le dest: high_half_zero)
  have "rep (unat acc2) (bsum bs)"
    unfolding acc2_def by (simp add: rep_fold rep_fold2 flip: acc)
  then have "rep (unat acc2) (256 * wsum bs)" by (rule rep_trans [OF _ rep_bsum])
  then have "rep (256 * unat acc2) (256 * (256 * wsum bs))" by (intro rep_mult) simp_all
  then have "rep (256 * unat acc2) (wsum bs)"
    using rep_65536 [of "wsum bs"] by (auto simp: algebra_simps elim: rep_trans)
  then have "rep (unat (lwip_htons (ucast acc2))) (wsum bs)"
    using rep_htons [of "ucast acc2"] le by (auto simp: unat_ucast_32_16 elim: rep_trans)
  moreover have "lwip_standard_chksum1 addr bs = lwip_htons (ucast acc2)"
    by (simp add: lwip_standard_chksum1_def acc_def acc2_def FOLD_U32T_def Let_def)
  ultimately show ?thesis by (simp add: oc_unique)
qed

text \<open>The odd end bytes: \<open>t\<close> holds the first byte of an odd buffer high and the last byte low.\<close>

lemma unat_set_byte1: "unat (set_byte1 0 x) = 256 * unat x"
  by (simp add: set_byte1_def word_nat)

lemma unat_set_byte0_0: "unat (set_byte0 0 b) = unat b"
  by (simp add: set_byte0_def word_nat)

lemma unat_set_byte0_1: "unat (set_byte0 (set_byte1 0 x) b) = unat b + 256 * unat x"
proof -
  have "unat (drop_bit 8 (set_byte1 0 x)) = unat x"
    by (simp only: unat_drop_bit_word unat_set_byte1) simp
  then have "unat (ucast (drop_bit 8 (set_byte1 0 x)) :: u8) = unat x"
    by (simp only: unat_ucast_16_8) (simp)
  then show ?thesis by (simp add: set_byte0_def word_nat)
qed

lemma end_bytes:
  assumes "length r \<le> 1" and "t = 0 \<or> t = set_byte1 0 x"
  shows "unat (case r of [] \<Rightarrow> t | b # _ \<Rightarrow> set_byte0 t b) = unat t + wsum r"
  using assms
  by (cases r) (auto simp: unat_set_byte0_0 unat_set_byte0_1 unat_set_byte1 algebra_simps)

text \<open>Reading from an odd address and swapping at the end gives the sum of the buffer.\<close>

lemma odd_start:
  assumes "t = (if odd addr \<and> bs \<noteq> [] then set_byte1 0 (hd bs) else 0)"
    and "pb = (if odd addr \<and> bs \<noteq> [] then tl bs else bs)"
  shows "rep (if odd addr then 256 * (unat t + wsum pb) else unat t + wsum pb) (wsum bs)"
proof (cases "odd addr \<and> bs \<noteq> []")
  case True
  then obtain x xs where bs: "bs = x # xs" by (cases bs) auto
  have "rep (65536 * unat x + 256 * wsum xs) (unat x + 256 * wsum xs)"
    by (intro rep_add rep_refl rep_65536)
  then have "rep (65536 * unat x + 256 * wsum xs) (wsum (x # xs))"
    by (rule rep_trans [OF _ rep_sym [OF wsum_Cons]])
  then show ?thesis using True assms bs by (simp add: unat_set_byte1 algebra_simps)
next
  case False
  then show ?thesis using assms by auto
qed

lemma unswap:
  assumes "rep (unat f) n" and "unat f \<le> 65535" and "rep (if c then 256 * n else n) m"
  shows "rep (unat (if c then SWAP_BYTES_IN_WORD f else f)) m"
proof (cases c)
  case True
  have "rep (256 * unat f) (256 * n)" using assms(1) by (intro rep_mult) simp_all
  then have "rep (unat (SWAP_BYTES_IN_WORD f)) (256 * n)"
    by (rule rep_trans [OF rep_swap [OF assms(2)]])
  then show ?thesis using assms(3) True by (auto elim: rep_trans)
next
  case False
  then show ?thesis using assms by (auto elim: rep_trans)
qed

lemma chksum2_correct:
  assumes "length bs \<le> 0x20000"
  shows "unat (lwip_standard_chksum2 addr bs) = oc (wsum bs)"
proof -
  define swp where "swp = (odd addr \<and> bs \<noteq> [])"
  define t pb where "t = (if swp then set_byte1 0 (hd bs) else 0)" and "pb = (if swp then tl bs else bs)"
  obtain s r where cw: "chksum_words pb 0 = (s, r)" by force
  define t2 where "t2 = (case r of [] \<Rightarrow> t | b # _ \<Rightarrow> set_byte0 t b)"
  define f where "f = FOLD_U32T (FOLD_U32T (s + ucast t2))"
  define w where "w = (if odd addr then 256 * (unat t + wsum pb) else wsum pb)"
  have t: "t = 0 \<or> t = set_byte1 0 (hd bs)" "\<not> swp \<Longrightarrow> t = 0" by (auto simp: t_def)
  have len: "length pb + (if swp then 1 else 0) = length bs"
    by (auto simp: pb_def swp_def neq_Nil_conv)
  have lt: "unat t + wsum pb < 4294967296"
  proof (cases swp)
    case True
    then have "65535 * (length pb + 1) \<le> 65535 * 0x20000" using len assms by simp
    then have "wsum pb \<le> 4294901760" using wsum_bound [of pb] by linarith
    then show ?thesis using u16_lt [of t] by linarith
  next
    case False
    then have "65535 * (length pb + 1) \<le> 65535 * 0x20001" using len assms by simp
    then have "wsum pb < 4294967296" using wsum_bound [of pb] by linarith
    then show ?thesis using t(2) False by simp
  qed
  then have cw': "unat s + wsum r = wsum pb" "length r \<le> 1"
    using chksum_words_sum [of 0 pb s r] cw by simp_all
  then have t2: "unat t2 = unat t + wsum r" using t(1) by (auto simp: t2_def intro!: end_bytes)
  have sum: "unat (s + ucast t2) = unat t + wsum pb"
    using lt cw'(1) by (simp add: unat_add_u32 unat_ucast_16_32 t2)
  have f: "rep (unat f) (unat t + wsum pb)" "unat f \<le> 65535"
    unfolding f_def by (simp_all add: rep_fold2 fold2_le flip: sum)
  have start: "(if odd addr \<and> bs \<noteq> [] then (set_byte1 0 (hd bs), tl bs) else (0, bs)) = (t, pb)"
    by (simp add: t_def pb_def swp_def)
  have res: "lwip_standard_chksum2 addr bs = ucast (if odd addr then SWAP_BYTES_IN_WORD f else f)"
    unfolding lwip_standard_chksum2_def Let_def start prod.case cw f_def t2_def by simp
  have sum_eq: "rep (if odd addr then 256 * (unat t + wsum pb) else unat t + wsum pb) (wsum bs)"
    by (rule odd_start) (simp_all add: t_def pb_def swp_def)
  have "rep (unat (if odd addr then SWAP_BYTES_IN_WORD f else f)) (wsum bs)"
    by (rule unswap [OF f sum_eq])
  moreover have "unat (if odd addr then SWAP_BYTES_IN_WORD f else f) \<le> 65535"
    using f(2) by (simp add: swap_le)
  ultimately show ?thesis unfolding res by (rule chksum_result)
qed

text \<open>Version 3 folds the 32 bit words, so only its tail can carry: no bound on the length.\<close>

lemma wsum_short:
  assumes "length r \<le> 7"
  shows "wsum r \<le> 262140"
proof -
  have "65535 * (length r + 1) \<le> 65535 * 8" using assms by simp
  then show ?thesis using wsum_bound [of r] by linarith
qed

lemma chksum3_align:
  assumes "(s, pl) = (if c \<and> length ps > 1 then (ucast (le16 (ps ! 0) (ps ! 1)) :: u32, drop 2 ps) else (0, ps))"
  shows "unat s + wsum pl = wsum ps"
proof (cases "c \<and> length ps > 1")
  case True
  then obtain a b r where "ps = a # b # r" by (cases ps rule: wsum.cases) auto
  then show ?thesis using assms True by (simp add: word_nat)
next
  case False
  then show ?thesis using assms by auto
qed

lemma chksum3_correct: "unat (lwip_standard_chksum3 addr bs) = oc (wsum bs)"
proof -
  obtain t pb ps where start: "(if odd addr \<and> bs \<noteq> [] then (set_byte1 0 (hd bs), addr + 1, tl bs)
                                else (0, addr, bs)) = (t, pb, ps)" by (metis prod_cases3)
  then have t: "t = (if odd addr \<and> bs \<noteq> [] then set_byte1 0 (hd bs) else 0)"
    and ps: "ps = (if odd addr \<and> bs \<noteq> [] then tl bs else bs)" by (auto split: if_splits)
  obtain s0 pl where al: "(if pb mod 4 \<noteq> 0 \<and> length ps > 1
      then (ucast (le16 (ps ! 0) (ps ! 1)), drop 2 ps) else (0 :: u32, ps)) = (s0, pl)" by force
  obtain s1 pw where ls: "chksum_longs pl s0 = (s1, pw)" by force
  obtain s2 pe where ws: "chksum_words pw (FOLD_U32T s1) = (s2, pe)" by force
  define t2 where "t2 = (case pe of [] \<Rightarrow> t | b # _ \<Rightarrow> set_byte0 t b)"
  define f where "f = FOLD_U32T (FOLD_U32T (s2 + ucast t2))"
  have a: "unat s0 + wsum pl = wsum ps" by (rule chksum3_align [OF al [symmetric]])
  have b: "rep (unat s1 + wsum pw) (wsum ps)" "length pw \<le> 7"
    using chksum_longs_sum [OF ls] a by simp_all
  have pw: "unat (FOLD_U32T s1) + wsum pw \<le> 393210"
    using fold_le1 [of s1] wsum_short [OF b(2)] by linarith
  then have c: "unat s2 + wsum pe = unat (FOLD_U32T s1) + wsum pw" "length pe \<le> 1"
    using chksum_words_sum [OF _ ws] by simp_all
  have t2: "unat t2 = unat t + wsum pe"
    unfolding t2_def by (rule end_bytes [OF c(2), where x = "hd bs"]) (simp add: t)
  have "unat s2 + unat t2 < 4294967296" using pw c(1) u16_lt [of t2] by linarith
  then have sum: "unat (s2 + ucast t2) = unat t + (unat (FOLD_U32T s1) + wsum pw)"
    using c(1) by (simp add: unat_add_u32 unat_ucast_16_32 t2)
  have "rep (unat (FOLD_U32T s1) + wsum pw) (unat s1 + wsum pw)"
    by (intro rep_add rep_fold rep_refl)
  then have "rep (unat t + (unat (FOLD_U32T s1) + wsum pw)) (unat t + wsum ps)"
    using b(1) by (meson rep_add rep_refl rep_trans)
  then have f: "rep (unat f) (unat t + wsum ps)" "unat f \<le> 65535"
    unfolding f_def using rep_fold2 [of "s2 + ucast t2"] fold2_le [of "s2 + ucast t2"]
    by (auto simp: sum elim: rep_trans)
  have res: "lwip_standard_chksum3 addr bs = ucast (if odd addr then SWAP_BYTES_IN_WORD f else f)"
    unfolding lwip_standard_chksum3_def Let_def start prod.case al ls ws f_def t2_def by simp
  have "rep (unat (if odd addr then SWAP_BYTES_IN_WORD f else f)) (wsum bs)"
    by (rule unswap [OF f odd_start [OF t ps]])
  moreover have "unat (if odd addr then SWAP_BYTES_IN_WORD f else f) \<le> 65535"
    using f(2) by (simp add: swap_le)
  ultimately show ?thesis unfolding res by (rule chksum_result)
qed

end
