(* ===== verification/Inet_Chksum.thy ===== *)
theory Inet_Chksum
  imports Chksum
begin

text \<open>
  The checksums of \<^verbatim>\<open>lwip/src/core/ipv4/inet_chksum.c\<close> over buffers and pbuf chains.  They
  take the implementation of \<^verbatim>\<open>LWIP_CHKSUM\<close> as an argument, as the C code takes it from
  the configuration; the locale \<open>chksum_alg\<close> is the contract they rely on, and the three
  implementations of \<open>Chksum\<close> are interpretations of it.  A pbuf chain is the list of its
  pbufs' payload addresses and payload bytes.
\<close>

type_synonym chain = "(nat \<times> u8 list) list"

abbreviation chain_bytes :: "chain \<Rightarrow> u8 list" where
  "chain_bytes q \<equiv> concat (map snd q)"

section \<open>The functions\<close>

definition inet_chksum :: "(nat \<Rightarrow> u8 list \<Rightarrow> u16) \<Rightarrow> nat \<Rightarrow> u8 list \<Rightarrow> u16" where
  "inet_chksum chk addr bs = NOT (chk addr bs)"

text \<open>One iteration of the loop over the pbufs: the accumulator and the flag \<^verbatim>\<open>swapped\<close>.\<close>

definition chain_step ::
    "(nat \<Rightarrow> u8 list \<Rightarrow> u16) \<Rightarrow> u32 \<times> bool \<Rightarrow> nat \<times> u8 list \<Rightarrow> u32 \<times> bool" where
  "chain_step chk st q =
     (let (acc, swapped) = st; (payload, bs) = q;
          acc = acc + ucast (chk payload bs);
          acc = FOLD_U32T acc
      in if length bs mod 2 \<noteq> 0 then (SWAP_BYTES_IN_WORD acc, \<not> swapped) else (acc, swapped))"

fun chain_loop :: "(nat \<Rightarrow> u8 list \<Rightarrow> u16) \<Rightarrow> chain \<Rightarrow> u32 \<times> bool \<Rightarrow> u32 \<times> bool" where
  "chain_loop chk [] st = st"
| "chain_loop chk (q # qs) st = chain_loop chk qs (chain_step chk st q)"

definition unswap_acc :: "u32 \<times> bool \<Rightarrow> u32" where
  "unswap_acc st = (let (acc, swapped) = st in if swapped then SWAP_BYTES_IN_WORD acc else acc)"

definition inet_chksum_pbuf :: "(nat \<Rightarrow> u8 list \<Rightarrow> u16) \<Rightarrow> chain \<Rightarrow> u16" where
  "inet_chksum_pbuf chk p =
     (let acc = unswap_acc (chain_loop chk p (0, False)) in ucast (NOT (acc AND 0xffff)))"

text \<open>The pseudo header: addresses in network byte order, protocol and length.\<close>

definition pseudo_add :: "u32 \<Rightarrow> u32 \<Rightarrow> u32 \<Rightarrow> u8 \<Rightarrow> u16 \<Rightarrow> u16" where
  "pseudo_add acc src dest proto proto_len =
     (let acc = acc + (src AND 0xffff);
          acc = acc + (drop_bit 16 src AND 0xffff);
          acc = acc + (dest AND 0xffff);
          acc = acc + (drop_bit 16 dest AND 0xffff);
          acc = acc + ucast (lwip_htons (ucast proto));
          acc = acc + ucast (lwip_htons proto_len);
          acc = FOLD_U32T acc;
          acc = FOLD_U32T acc
      in ucast (NOT (acc AND 0xffff)))"

definition inet_chksum_pseudo ::
    "(nat \<Rightarrow> u8 list \<Rightarrow> u16) \<Rightarrow> chain \<Rightarrow> u32 \<Rightarrow> u32 \<Rightarrow> u8 \<Rightarrow> u16 \<Rightarrow> u16" where
  "inet_chksum_pseudo chk p src dest proto proto_len =
     pseudo_add (unswap_acc (chain_loop chk p (0, False))) src dest proto proto_len"

text \<open>The partial version stops after \<^verbatim>\<open>chksum_len\<close> bytes.  It decides about the byte swap on
  \<^verbatim>\<open>q->len\<close>, not on the number of bytes it summed.\<close>

fun partial_loop ::
    "(nat \<Rightarrow> u8 list \<Rightarrow> u16) \<Rightarrow> chain \<Rightarrow> u16 \<Rightarrow> u32 \<times> bool \<Rightarrow> u32 \<times> bool" where
  "partial_loop chk [] chksum_len st = st"
| "partial_loop chk ((payload, bs) # qs) chksum_len (acc, swapped) =
     (if chksum_len = 0 then (acc, swapped)
      else let chklen = (of_nat (length bs) :: u16);
               chklen = (if chklen > chksum_len then chksum_len else chklen);
               acc = acc + ucast (chk payload (take (unat chklen) bs));
               chksum_len = chksum_len - chklen;
               acc = FOLD_U32T acc
           in partial_loop chk qs chksum_len
                (if length bs mod 2 \<noteq> 0 then (SWAP_BYTES_IN_WORD acc, \<not> swapped)
                 else (acc, swapped)))"

definition inet_chksum_pseudo_partial ::
    "(nat \<Rightarrow> u8 list \<Rightarrow> u16) \<Rightarrow> chain \<Rightarrow> u32 \<Rightarrow> u32 \<Rightarrow> u8 \<Rightarrow> u16 \<Rightarrow> u16 \<Rightarrow> u16" where
  "inet_chksum_pseudo_partial chk p src dest proto proto_len chksum_len =
     pseudo_add (unswap_acc (partial_loop chk p chksum_len (0, False))) src dest proto proto_len"

text \<open>Copy and checksum: the destination's new bytes and the sum over them.\<close>

definition lwip_chksum_copy ::
    "(nat \<Rightarrow> u8 list \<Rightarrow> u16) \<Rightarrow> nat \<Rightarrow> u8 list \<Rightarrow> u8 list \<times> u16" where
  "lwip_chksum_copy chk dst src = (let d = src in (d, chk dst d))"

section \<open>The contract of \<open>LWIP_CHKSUM\<close> and what follows from it\<close>

definition u32_bytes :: "u32 \<Rightarrow> u8 list" where
  "u32_bytes w = [ucast w, ucast (drop_bit 8 w), ucast (drop_bit 16 w), ucast (drop_bit 24 w)]"

definition pseudo_header :: "u32 \<Rightarrow> u32 \<Rightarrow> u8 \<Rightarrow> u16 \<Rightarrow> u8 list" where
  "pseudo_header src dest proto len =
     u32_bytes src @ u32_bytes dest @ [0, proto, ucast (drop_bit 8 len), ucast len]"

lemma two_bytes: "(n :: nat) mod 256 + 256 * (n div 256 mod 256) = n mod 65536"
  using mod_mult2_eq [of n 256 256] by simp

lemma u32_bytes_sum:
  "wsum (u32_bytes w @ xs) = unat (w AND 0xffff) + unat (drop_bit 16 w AND 0xffff) + wsum xs"
proof -
  have "unat w div 16777216 = unat w div 65536 div 256" by (simp add: div_mult2_eq)
  then show ?thesis
    using two_bytes [of "unat w"] two_bytes [of "unat w div 65536"]
    by (simp add: u32_bytes_def unat_ucast_32_8 unat_drop_bit_word unat_and_ffff_u32)
qed

lemma htons_bytes:
  "unat (lwip_htons len) = unat (ucast (drop_bit 8 len) :: u8) + 256 * unat (ucast len :: u8)"
  "unat (lwip_htons (ucast (proto :: u8))) = 256 * unat proto"
  using div_le_mono [OF u16_le, of len 256]
  by (simp_all add: unat_htons unat_ucast_16_8 unat_drop_bit_word unat_ucast_8_16)

text \<open>\<open>acc_rep st n\<close>: the accumulator holds the sum \<open>n\<close>, in swapped byte order if the flag says so.\<close>

definition acc_rep :: "u32 \<times> bool \<Rightarrow> nat \<Rightarrow> bool" where
  "acc_rep st n \<longleftrightarrow> unat (fst st) \<le> 65535 \<and> rep (unat (fst st)) (if snd st then 256 * n else n)"

lemma acc_rep_init: "acc_rep (0, False) 0"
  by (simp add: acc_rep_def)

lemma rep_256_256: "rep (256 * (256 * n)) n"
  using rep_65536 [of n] by simp

lemma rep_unswap256:
  assumes "rep a (256 * n)"
  shows "rep (256 * a) n"
proof -
  have "rep (256 * a) (256 * (256 * n))" using assms by (intro rep_mult) simp_all
  then show ?thesis by (rule rep_trans [OF _ rep_256_256])
qed

lemma acc_rep_unswap: "acc_rep st n \<Longrightarrow> rep (unat (unswap_acc st)) n \<and> unat (unswap_acc st) \<le> 65535"
  by (cases st)
    (auto simp: acc_rep_def unswap_acc_def swap_le intro: rep_trans [OF rep_swap rep_unswap256])

text \<open>Summing the bytes \<open>bs\<close> and, when the pbuf is odd, swapping the accumulator.\<close>

lemma acc_rep_step:
  assumes st: "acc_rep (acc, sw) n"
    and c: "rep (unat (c :: u16)) (wsum bs)"
    and m: "rep m (n + (if sw then 256 else 1) * wsum bs)"
  shows "acc_rep (FOLD_U32T (acc + ucast c), sw) m"
    and "acc_rep (SWAP_BYTES_IN_WORD (FOLD_U32T (acc + ucast c)), \<not> sw) m"
proof -
  let ?f = "FOLD_U32T (acc + ucast c)"
  have le: "unat acc \<le> 65535" and r: "rep (unat acc) (if sw then 256 * n else n)"
    using st by (simp_all add: acc_rep_def)
  have "unat acc + unat c < 4294967296" using le u16_lt [of c] by linarith
  then have s: "unat (acc + ucast c) = unat acc + unat c"
    by (simp only: unat_add_u32 unat_ucast_16_32 mod_less)
  have f: "unat ?f \<le> 65535"
    by (rule fold_le2) (simp only: s, use le u16_le [of c] in linarith)
  have a: "rep (unat ?f) ((if sw then 256 * n else n) + wsum bs)"
    using rep_trans [OF rep_fold [of "acc + ucast c", unfolded s] rep_add [OF r c]] .
  have b: "rep ((if sw then 256 * n else n) + wsum bs) (if sw then 256 * m else m)"
  proof (cases sw)
    case True
    have "rep (256 * n + wsum bs) (256 * n + 65536 * wsum bs)"
      by (intro rep_add rep_refl rep_sym [OF rep_65536])
    moreover have "rep (256 * (n + 256 * wsum bs)) (256 * m)"
      using rep_sym [OF m] True by (intro rep_mult) simp_all
    then have "rep (256 * n + 65536 * wsum bs) (256 * m)"
      by (simp add: algebra_simps)
    ultimately have "rep (256 * n + wsum bs) (256 * m)" by (rule rep_trans)
    then show ?thesis using True by simp
  next
    case False
    then show ?thesis using m by (simp add: rep_sym)
  qed
  have fm: "rep (unat ?f) (if sw then 256 * m else m)" by (rule rep_trans [OF a b])
  show "acc_rep (?f, sw) m" using f fm by (simp add: acc_rep_def)
  have "rep (unat (SWAP_BYTES_IN_WORD ?f)) (256 * unat ?f)" by (rule rep_swap [OF f])
  moreover have "rep (256 * unat ?f) (if \<not> sw then 256 * m else m)"
    using fm rep_mult [of 256 "unat ?f" m] rep_unswap256 [of "unat ?f" m] by (cases sw) simp_all
  ultimately have "rep (unat (SWAP_BYTES_IN_WORD ?f)) (if \<not> sw then 256 * m else m)"
    by (rule rep_trans)
  then show "acc_rep (SWAP_BYTES_IN_WORD ?f, \<not> sw) m"
    unfolding acc_rep_def fst_conv snd_conv using swap_le [of ?f] by blast
qed

lemma unat_not_u16: "unat (NOT (w :: u16)) = 65535 - unat w"
proof -
  have "NOT w = - 1 - w" by (simp add: not_eq_complement)
  moreover have "unat (- 1 :: u16) = 65535" by (simp add: unsigned_minus_1_eq_mask mask_eq_exp_minus_1)
  ultimately show ?thesis by (simp add: unat_sub)
qed

text \<open>The final complement of a 16 bit accumulator, and of one the pseudo header is added to.\<close>

lemma not_acc:
  fixes acc :: u32
  assumes "rep (unat acc) n" and "unat acc \<le> 65535"
  shows "ucast (NOT (acc AND 0xffff)) = (NOT (of_nat (oc n)) :: u16)"
proof -
  have "unat acc < 65536" using assms(2) by linarith
  then have a: "acc AND 0xffff = acc"
    by (simp only: word_unat_eq_iff unat_and_ffff_u32 mod_less)
  have "ucast (NOT acc) = (NOT (ucast acc) :: u16)"
    by (rule bit_word_eqI) (simp add: bit_simps)
  moreover have "ucast acc = (of_nat (oc n) :: u16)"
    using chksum_result [OF assms] oc_le [of n] by (simp add: word_unat_eq_iff word_nat)
  ultimately show ?thesis by (simp add: a)
qed

lemma pseudo_add_spec:
  assumes "rep (unat acc) (wsum bs)" and "unat acc \<le> 65535"
  shows "pseudo_add acc src dest proto len = NOT (oc_sum (pseudo_header src dest proto len @ bs))"
proof -
  have w: "wsum (u32_bytes w @ xs) = unat (w AND 0xffff) + unat (drop_bit 16 w AND 0xffff) + wsum xs"
    for w xs by (rule u32_bytes_sum)
  have h: "wsum (pseudo_header src dest proto len @ bs) =
      unat (src AND 0xffff) + unat (drop_bit 16 src AND 0xffff) +
      unat (dest AND 0xffff) + unat (drop_bit 16 dest AND 0xffff) +
      unat (lwip_htons (ucast proto)) + unat (lwip_htons len) + wsum bs"
    by (simp add: pseudo_header_def w htons_bytes(2) htons_bytes(1) [of len])
  define acc' where "acc' = acc + (src AND 0xffff) + (drop_bit 16 src AND 0xffff) +
      (dest AND 0xffff) + (drop_bit 16 dest AND 0xffff) + ucast (lwip_htons (ucast proto)) +
      ucast (lwip_htons len)"
  have b: "unat (src AND 0xffff) < 65536" "unat (drop_bit 16 src AND 0xffff) < 65536"
     "unat (dest AND 0xffff) < 65536" "unat (drop_bit 16 dest AND 0xffff) < 65536"
    by (simp_all add: unat_and_ffff_u32)
  have "unat acc' = unat acc + (unat (src AND 0xffff) + unat (drop_bit 16 src AND 0xffff) +
      unat (dest AND 0xffff) + unat (drop_bit 16 dest AND 0xffff) +
      unat (lwip_htons (ucast proto)) + unat (lwip_htons len))"
    (is "_ = ?s")
  proof -
    have "?s < 4294967296"
      using assms(2) b u16_lt [of "lwip_htons (ucast proto)"] u16_lt [of "lwip_htons len"] by linarith
    then show ?thesis
      unfolding acc'_def by (simp add: unat_add_u32 unat_ucast_16_32 mod_simps add.assoc)
  qed
  moreover have "rep (unat acc + h) (h + wsum bs)" for h
    using rep_add [OF assms(1) rep_refl, of h] by (simp add: add.commute)
  ultimately have "rep (unat acc') (wsum (pseudo_header src dest proto len @ bs))"
    unfolding h by (simp only:)
  then have "rep (unat (FOLD_U32T (FOLD_U32T acc'))) (wsum (pseudo_header src dest proto len @ bs))"
    by (rule rep_trans [OF rep_fold2])
  note not_acc [OF this fold2_le]
  then show ?thesis by (simp add: pseudo_add_def Let_def acc'_def oc_sum_def)
qed

locale chksum_alg =
  fixes chk :: "nat \<Rightarrow> u8 list \<Rightarrow> u16"
  assumes chk_oc: "length bs \<le> 65535 \<Longrightarrow> unat (chk addr bs) = oc (wsum bs)"
begin

lemma chk_rep: "length bs \<le> 65535 \<Longrightarrow> rep (unat (chk addr bs)) (wsum bs)"
  by (simp add: chk_oc rep_oc)

lemma chk_eq: "length bs \<le> 65535 \<Longrightarrow> chk addr bs = oc_sum bs"
  using oc_le [of "wsum bs"] by (simp add: word_unat_eq_iff chk_oc oc_sum_def word_nat)

text \<open>The accumulator after the bytes \<open>pre\<close>: their sum, swapped if their number is odd.\<close>

lemma chain_loop_rep:
  assumes "\<forall>q \<in> set p. length (snd q) \<le> 65535"
    and "acc_rep st (wsum pre)" and "snd st = odd (length pre)"
  shows "acc_rep (chain_loop chk p st) (wsum (pre @ chain_bytes p))"
  using assms
proof (induction p arbitrary: st pre)
  case (Cons q p)
  obtain acc payload bs where st: "st = (acc, odd (length pre))" and q: "q = (payload, bs)"
    using Cons.prems(3) by (cases st, cases q) auto
  have m: "rep (wsum (pre @ bs)) (wsum pre + (if odd (length pre) then 256 else 1) * wsum bs)"
    by (simp add: wsum_append_even wsum_append_odd)
  have c: "rep (unat (chk payload bs)) (wsum bs)" using Cons.prems(1) q by (intro chk_rep) simp
  note step = acc_rep_step [OF Cons.prems(2) [unfolded st] c m]
  have "acc_rep (chain_step chk st q) (wsum (pre @ bs))"
    using step by (simp add: chain_step_def st q Let_def flip: odd_iff_mod_2_eq_one)
  moreover have "snd (chain_step chk st q) = odd (length (pre @ bs))"
    by (simp add: chain_step_def st q Let_def) presburger
  ultimately show ?case using Cons.IH [of "chain_step chk st q" "pre @ bs"] Cons.prems(1) q by simp
qed simp

lemma chain_loop_oc:
  assumes "\<forall>q \<in> set p. length (snd q) \<le> 65535"
  shows "rep (unat (unswap_acc (chain_loop chk p (0, False)))) (wsum (chain_bytes p))"
    and "unat (unswap_acc (chain_loop chk p (0, False))) \<le> 65535"
  using acc_rep_unswap [OF chain_loop_rep [OF assms, of "(0, False)" "[]"]] acc_rep_init by simp_all

text \<open>The partial loop sums the first \<open>chksum_len\<close> bytes of the chain.\<close>

lemma partial_loop_rep:
  assumes "\<forall>q \<in> set p. length (snd q) \<le> 65535"
    and "acc_rep st (wsum pre)" and "snd st = odd (length pre)"
  shows "acc_rep (partial_loop chk p len st) (wsum (pre @ take (unat len) (chain_bytes p)))"
  using assms
proof (induction p arbitrary: st pre len)
  case (Cons q p)
  obtain acc payload bs where st: "st = (acc, odd (length pre))" and q: "q = (payload, bs)"
    using Cons.prems(3) by (cases st, cases q) auto
  show ?case
  proof (cases "len = 0")
    case True
    then show ?thesis using Cons.prems(2) st q by simp
  next
    case False
    define k where "k = min (length bs) (unat len)"
    define chklen where
      "chklen = (if (of_nat (length bs) :: u16) > len then len else of_nat (length bs))"
    have bs: "length bs \<le> 65535" using Cons.prems(1) q by simp
    have lb: "unat (of_nat (length bs) :: u16) = length bs" using bs by (simp add: word_nat)
    have k: "unat chklen = k"
      unfolding chklen_def k_def word_less_nat_alt by (simp add: lb)
    have d: "unat (len - chklen) = unat len - k"
      using k by (subst unat_sub) (simp_all add: k_def word_le_nat_alt)
    let ?bs = "take k bs"
    have m: "rep (wsum (pre @ ?bs)) (wsum pre + (if odd (length pre) then 256 else 1) * wsum ?bs)"
      by (simp add: wsum_append_even wsum_append_odd)
    have c: "rep (unat (chk payload ?bs)) (wsum ?bs)" using bs by (intro chk_rep) simp
    note step = acc_rep_step [OF Cons.prems(2) [unfolded st] c m]
    define st' where "st' = (let acc = FOLD_U32T (acc + ucast (chk payload ?bs)) in
       if length bs mod 2 \<noteq> 0 then (SWAP_BYTES_IN_WORD acc, \<not> odd (length pre))
       else (acc, odd (length pre)))"
    have st': "acc_rep st' (wsum (pre @ ?bs))" "snd st' = odd (length (pre @ bs))"
      using step by (simp_all add: st'_def Let_def) presburger
    have loop: "partial_loop chk (q # p) len st = partial_loop chk p (len - chklen) st'"
      using False by (simp add: st q Let_def st'_def k flip: chklen_def)
    show ?thesis
    proof (cases "length bs \<le> unat len")
      case True
      then have "?bs = bs" by (simp add: k_def)
      then show ?thesis
        using Cons.IH [of st' "pre @ bs" "len - chklen"] st' Cons.prems(1) True
        unfolding loop by (simp add: q d k_def)
    next
      case less: False
      then have "unat (len - chklen) = 0" by (simp add: d k_def)
      then have "len - chklen = 0" by (simp only: unat_eq_0)
      then have "partial_loop chk p (len - chklen) st' = st'"
        by (cases p; cases st') auto
      moreover have "take (unat len) (chain_bytes (q # p)) = ?bs"
        using less by (simp add: q k_def)
      ultimately show ?thesis using st'(1) unfolding loop by simp
    qed
  qed
qed simp

lemma partial_loop_oc:
  assumes "\<forall>q \<in> set p. length (snd q) \<le> 65535"
  shows "rep (unat (unswap_acc (partial_loop chk p len (0, False)))) (wsum (take (unat len) (chain_bytes p)))"
    and "unat (unswap_acc (partial_loop chk p len (0, False))) \<le> 65535"
  using partial_loop_rep [OF assms, of "(0, False)" "[]" len] acc_rep_unswap acc_rep_init by auto

lemma inet_chksum_spec: "length bs \<le> 65535 \<Longrightarrow> inet_chksum chk addr bs = NOT (oc_sum bs)"
  by (simp add: inet_chksum_def chk_eq)

lemma inet_chksum_pbuf_spec:
  assumes "\<forall>q \<in> set p. length (snd q) \<le> 65535"
  shows "inet_chksum_pbuf chk p = NOT (oc_sum (chain_bytes p))"
  using not_acc [OF chain_loop_oc [OF assms]] by (simp add: inet_chksum_pbuf_def oc_sum_def)

lemma inet_chksum_pseudo_spec:
  assumes "\<forall>q \<in> set p. length (snd q) \<le> 65535"
  shows "inet_chksum_pseudo chk p src dest proto len =
         NOT (oc_sum (pseudo_header src dest proto len @ chain_bytes p))"
  using pseudo_add_spec [OF chain_loop_oc [OF assms]] by (simp add: inet_chksum_pseudo_def)

lemma inet_chksum_pseudo_partial_spec:
  assumes "\<forall>q \<in> set p. length (snd q) \<le> 65535"
  shows "inet_chksum_pseudo_partial chk p src dest proto len clen =
         NOT (oc_sum (pseudo_header src dest proto len @ take (unat clen) (chain_bytes p)))"
  using pseudo_add_spec [OF partial_loop_oc [OF assms]] by (simp add: inet_chksum_pseudo_partial_def)

text \<open>A receiver that sums a buffer whose checksum field holds the checksum gets zero.\<close>

lemma inet_chksum_verify:
  assumes "length (pre @ lo # hi # post) \<le> 65535" and "even (length pre)"
    and "le16 lo hi = inet_chksum chk a (pre @ 0 # 0 # post)"
  shows "inet_chksum chk b (pre @ lo # hi # post) = 0"
proof -
  let ?n = "wsum (pre @ 0 # 0 # post)"
  have "unat (le16 lo hi) = 65535 - oc ?n"
    using assms(1) oc_le [of ?n]
    by (simp add: assms(3) inet_chksum_spec unat_not_u16 oc_sum_def word_nat)
  then have "unat lo + 256 * unat hi = 65535 - oc ?n" by (simp add: word_nat)
  then have "wsum (pre @ lo # hi # post) = ?n + (65535 - oc ?n)"
    using assms(2) by (simp add: wsum_append_even)
  moreover have "rep (?n + (65535 - oc ?n)) (oc ?n + (65535 - oc ?n))"
    by (intro rep_add rep_refl rep_sym [OF rep_oc])
  ultimately have "rep (wsum (pre @ lo # hi # post)) 65535" using oc_le [of ?n] by simp
  then have "oc (wsum (pre @ lo # hi # post)) = 65535" using oc_unique rep_sym by fastforce
  then show ?thesis using assms(1) by (simp add: inet_chksum_spec oc_sum_def)
qed

end

text \<open>The three implementations keep the contract.\<close>

interpretation alg1: chksum_alg lwip_standard_chksum1
  by unfold_locales (rule chksum1_correct)

interpretation alg2: chksum_alg lwip_standard_chksum2
  by unfold_locales (rule chksum2_correct, simp)

interpretation alg3: chksum_alg lwip_standard_chksum3
  by unfold_locales (rule chksum3_correct)

section \<open>Properties\<close>

text \<open>Property C1: the three implementations of the checksum return the one's complement sum of
  the buffer, from any address and for every length a \<^verbatim>\<open>u16_t\<close> can hold; so they agree.\<close>

theorem lwip_standard_chksum_correct:
  "length bs \<le> 65535 \<Longrightarrow>
     lwip_standard_chksum1 a bs = oc_sum bs \<and>
     lwip_standard_chksum2 a bs = oc_sum bs \<and>
     lwip_standard_chksum3 a bs = oc_sum bs"
  by (simp add: alg1.chk_eq alg2.chk_eq alg3.chk_eq)

lemma lwip_standard_chksum_correct_witness:
  "lwip_standard_chksum2 3 [1, 2, 3] = oc_sum [1, 2, 3] \<and> oc_sum [1, 2, 3] = 0x204"
proof -
  have "lwip_standard_chksum2 3 [1, 2, 3] = oc_sum [1, 2, 3]"
    using lwip_standard_chksum_correct [of "[1, 2, 3]" 3] by simp
  then show ?thesis by (simp add: oc_sum_def oc_def)
qed

text \<open>Property C2: the TCP/UDP checksum over a pbuf chain is the complement of the sum over the
  pseudo header and the concatenation of the payloads, however the data is split into pbufs of
  odd and even lengths at odd and even addresses.\<close>

theorem inet_chksum_pseudo_correct:
  "\<forall>q \<in> set p. length (snd q) \<le> 65535 \<Longrightarrow>
     inet_chksum_pseudo lwip_standard_chksum2 p src dest proto len =
     NOT (oc_sum (pseudo_header src dest proto len @ chain_bytes p))"
  by (rule alg2.inet_chksum_pseudo_spec)

lemma inet_chksum_pseudo_correct_witness:
  "inet_chksum_pseudo lwip_standard_chksum2 [(3, [1]), (8, [2, 3])] 0x0100007f 0x0100007f 17 3 =
   NOT (oc_sum (pseudo_header 0x0100007f 0x0100007f 17 3 @ [1, 2, 3]))"
  using inet_chksum_pseudo_correct [of "[(3, [1]), (8, [2, 3])]"] by simp

text \<open>The partial checksum (UDP-Lite) covers exactly the first \<^verbatim>\<open>chksum_len\<close>
  bytes of the chain, also where the coverage ends inside an odd pbuf.\<close>

lemma inet_chksum_pseudo_partial_correct:
  "\<forall>q \<in> set p. length (snd q) \<le> 65535 \<Longrightarrow>
     inet_chksum_pseudo_partial lwip_standard_chksum2 p src dest proto len clen =
     NOT (oc_sum (pseudo_header src dest proto len @ take (unat clen) (chain_bytes p)))"
  by (rule alg2.inet_chksum_pseudo_partial_spec)

lemma inet_chksum_pseudo_partial_correct_witness:
  "inet_chksum_pseudo_partial lwip_standard_chksum2 [(3, [1]), (8, [2, 3, 4])] 5 6 136 4 3 =
   NOT (oc_sum (pseudo_header 5 6 136 4 @ [1, 2, 3]))"
  using inet_chksum_pseudo_partial_correct [of "[(3, [1]), (8, [2, 3, 4])]" 5 6 136 4 3] by simp

text \<open>A header or message whose checksum field (at an even offset) holds the
  checksum computed over it with the field zero is accepted: the receiver's sum is zero.\<close>

lemma inet_chksum_accepts:
  "length (pre @ lo # hi # post) \<le> 65535 \<Longrightarrow> even (length pre) \<Longrightarrow>
     le16 lo hi = inet_chksum lwip_standard_chksum2 a (pre @ 0 # 0 # post) \<Longrightarrow>
     inet_chksum lwip_standard_chksum2 b (pre @ lo # hi # post) = 0"
  by (rule alg2.inet_chksum_verify)

lemma inet_chksum_accepts_witness:
  "inet_chksum lwip_standard_chksum2 1 ([0x45, 0] @ 0xba # 0xfe # [0, 1]) = 0"
proof (rule inet_chksum_accepts [where a = 0])
  show "le16 0xba 0xfe = inet_chksum lwip_standard_chksum2 0 ([0x45, 0] @ 0 # 0 # [0, 1])"
    by (simp add: alg2.inet_chksum_spec oc_sum_def oc_def le16_def)
qed simp_all

end
