(* ===== verification/Fsm.thy ===== *)
theory Fsm
  imports Prelude
begin

text \<open>
  \<^verbatim>\<open>lwip/src/netif/ppp/fsm.c\<close>: the PPP option negotiation automaton (RFC 1661) that LCP and
  IPCP share.  The structure \<^verbatim>\<open>fsm\<close> is the record \<open>fsm_core\<close>; two ghost fields record
  whether \<^verbatim>\<open>fsm_timeout\<close> is pending in the timer list and which notifications the automaton
  has given to the upper layer.  A \<open>link\<close> adds what the callbacks may change: the peer's MRU
  (\<^verbatim>\<open>peer_mru\<close> of the unit), the frames handed to \<^verbatim>\<open>pppWrite\<close>, the number of elements
  left in the pool \<^verbatim>\<open>MEMP_SYS_TIMEOUT\<close> that all timers of the stack share, and the protocol's
  own state.  The callbacks are arbitrary functions on links; the theorems assume of them what
  \<open>callbacks_ok\<close> says: that they leave the automaton itself alone.  This leaves out an upper
  layer that calls back into its own automaton, as \<^verbatim>\<open>ipcp_up\<close> does with \<^verbatim>\<open>ipcp_close\<close>
  when the peer has given no usable address.
\<close>

section \<open>Data\<close>

datatype ls = LS_INITIAL | LS_STARTING | LS_CLOSED | LS_STOPPED | LS_CLOSING | LS_STOPPING
  | LS_REQSENT | LS_ACKRCVD | LS_ACKSENT | LS_OPENED

datatype notice = Up | Down | Starting | Finished

record fsm_core =
  protocol :: u16
  state :: ls
  flags :: int
  cur_id :: u8
  reqid :: u8
  seen_ack :: bool
  timeouttime :: int
  maxconfreqtransmits :: int
  retransmits :: int
  maxtermtransmits :: int
  nakloops :: int
  maxnakloops :: int
  term_reason :: "u8 list option"
  term_reason_len :: int
  timer_on :: bool
  notices :: "notice list"

record 'e link =
  fsm :: fsm_core
  peer_mru :: int
  out :: "u8 list list"
  timeo_left :: nat
  env :: 'e

record 'e fsm_callbacks =
  cb_resetci :: "('e link \<Rightarrow> 'e link) option"
  cb_cilen :: "('e link \<Rightarrow> int) option"
  cb_addci :: "('e link \<Rightarrow> int \<Rightarrow> 'e link \<times> u8 list) option"
  cb_ackci :: "('e link \<Rightarrow> u8 list \<Rightarrow> 'e link \<times> int) option"
  cb_nakci :: "('e link \<Rightarrow> u8 list \<Rightarrow> 'e link \<times> int) option"
  cb_rejci :: "('e link \<Rightarrow> u8 list \<Rightarrow> 'e link \<times> int) option"
  cb_reqci :: "('e link \<Rightarrow> u8 list \<Rightarrow> bool \<Rightarrow> 'e link \<times> u8 list \<times> int) option"
  cb_up :: "('e link \<Rightarrow> 'e link) option"
  cb_down :: "('e link \<Rightarrow> 'e link) option"
  cb_starting :: "('e link \<Rightarrow> 'e link) option"
  cb_finished :: "('e link \<Rightarrow> 'e link) option"
  cb_retransmit :: "('e link \<Rightarrow> 'e link) option"
  cb_extcode :: "('e link \<Rightarrow> u8 \<Rightarrow> u8 \<Rightarrow> u8 list \<Rightarrow> 'e link \<times> int) option"

abbreviation CONFREQ :: int where "CONFREQ \<equiv> 1"
abbreviation CONFACK :: int where "CONFACK \<equiv> 2"
abbreviation CONFNAK :: int where "CONFNAK \<equiv> 3"
abbreviation CONFREJ :: int where "CONFREJ \<equiv> 4"
abbreviation TERMREQ :: int where "TERMREQ \<equiv> 5"
abbreviation TERMACK :: int where "TERMACK \<equiv> 6"
abbreviation CODEREJ :: int where "CODEREJ \<equiv> 7"
abbreviation HEADERLEN :: int where "HEADERLEN \<equiv> 4"
abbreviation OPT_PASSIVE :: int where "OPT_PASSIVE \<equiv> 1"
abbreviation OPT_RESTART :: int where "OPT_RESTART \<equiv> 2"
abbreviation OPT_SILENT :: int where "OPT_SILENT \<equiv> 4"

abbreviation FSM_DEFTIMEOUT :: int where "FSM_DEFTIMEOUT \<equiv> 6"
abbreviation FSM_DEFMAXCONFREQS :: int where "FSM_DEFMAXCONFREQS \<equiv> 10"
abbreviation FSM_DEFMAXTERMREQS :: int where "FSM_DEFMAXTERMREQS \<equiv> 2"
abbreviation FSM_DEFMAXNAKLOOPS :: int where "FSM_DEFMAXNAKLOOPS \<equiv> 5"

text \<open>Updates of the automaton inside a link.  \<^verbatim>\<open>UNTIMEOUT\<close> takes a pending timer out of the
  list and frees its element; \<^verbatim>\<open>TIMEOUT\<close> does so first and then asks for a new element: when
  the pool has none left, \<^verbatim>\<open>sys_timeout\<close> returns without a timer.\<close>

abbreviation upd :: "(fsm_core \<Rightarrow> fsm_core) \<Rightarrow> 'e link \<Rightarrow> 'e link" where
  "upd g l \<equiv> l\<lparr>fsm := g (fsm l)\<rparr>"

abbreviation set_state :: "ls \<Rightarrow> 'e link \<Rightarrow> 'e link" where
  "set_state s \<equiv> upd (\<lambda>f. f\<lparr>state := s\<rparr>)"

definition UNTIMEOUT :: "'e link \<Rightarrow> 'e link" where
  "UNTIMEOUT l =
     (if timer_on (fsm l)
      then upd (\<lambda>f. f\<lparr>timer_on := False\<rparr>) (l\<lparr>timeo_left := timeo_left l + 1\<rparr>) else l)"

definition TIMEOUT :: "'e link \<Rightarrow> 'e link" where
  "TIMEOUT l =
     (let l = UNTIMEOUT l
      in if timeo_left l = 0 then l
         else upd (\<lambda>f. f\<lparr>timer_on := True\<rparr>) (l\<lparr>timeo_left := timeo_left l - 1\<rparr>))"

text \<open>Calling an optional callback, and a notification of the upper layer.\<close>

definition call :: "('e link \<Rightarrow> 'e link) option \<Rightarrow> 'e link \<Rightarrow> 'e link" where
  "call cb l = (case cb of None \<Rightarrow> l | Some g \<Rightarrow> g l)"

definition notify :: "notice \<Rightarrow> ('e link \<Rightarrow> 'e link) option \<Rightarrow> 'e link \<Rightarrow> 'e link" where
  "notify n cb l = call cb (upd (\<lambda>f. f\<lparr>notices := n # notices f\<rparr>) l)"

section \<open>Sending\<close>

definition fsm_sdata :: "int \<Rightarrow> u8 \<Rightarrow> u8 list \<Rightarrow> int \<Rightarrow> 'e link \<Rightarrow> 'e link" where
  "fsm_sdata code i data datalen l =
     (let datalen = (if datalen > peer_mru l - HEADERLEN then peer_mru l - HEADERLEN else datalen);
          outlen = datalen + HEADERLEN;
          pkt = [0xff, 0x03, ucast (drop_bit 8 (protocol (fsm l))), ucast (protocol (fsm l)),
                 of_int code, i, of_int (outlen div 256), of_int outlen]
                @ take (nat datalen) data
      in l\<lparr>out := out l @ [pkt]\<rparr>)"

text \<open>The options of a Configure-Request, at most as many bytes asked for as fit.\<close>

definition request_options :: "'e fsm_callbacks \<Rightarrow> 'e link \<Rightarrow> 'e link \<times> u8 list" where
  "request_options cb l =
     (case (cb_cilen cb, cb_addci cb) of
        (Some cilen, Some addci) \<Rightarrow>
          (let n = cilen l;
               n = (if n > peer_mru l - HEADERLEN then peer_mru l - HEADERLEN else n)
           in addci l n)
      | _ \<Rightarrow> (l, []))"

definition fsm_sconfreq :: "'e fsm_callbacks \<Rightarrow> bool \<Rightarrow> 'e link \<Rightarrow> 'e link" where
  "fsm_sconfreq cb retransmit l =
     (let l = (if state (fsm l) \<notin> {LS_REQSENT, LS_ACKRCVD, LS_ACKSENT}
               then upd (\<lambda>f. f\<lparr>nakloops := 0\<rparr>) (call (cb_resetci cb) l) else l);
          l = (if \<not> retransmit
               then upd (\<lambda>f. f\<lparr>retransmits := maxconfreqtransmits f, cur_id := cur_id f + 1,
                               reqid := cur_id f + 1\<rparr>) l else l);
          l = upd (\<lambda>f. f\<lparr>seen_ack := False\<rparr>) l;
          (l, ci) = request_options cb l;
          l = fsm_sdata CONFREQ (reqid (fsm l)) ci (int (length ci)) l;
          l = upd (\<lambda>f. f\<lparr>retransmits := retransmits f - 1\<rparr>) l
      in TIMEOUT l)"

text \<open>The Terminate-Request of \<^verbatim>\<open>fsm_close\<close>, \<^verbatim>\<open>fsm_timeout\<close> and \<^verbatim>\<open>fsm_protreject\<close>, with a new id.\<close>

definition term_bytes :: "fsm_core \<Rightarrow> u8 list" where
  "term_bytes f = (case term_reason f of None \<Rightarrow> [] | Some r \<Rightarrow> r)"

definition send_termreq :: "'e link \<Rightarrow> 'e link" where
  "send_termreq l =
     (let l = upd (\<lambda>f. f\<lparr>cur_id := cur_id f + 1, reqid := cur_id f + 1\<rparr>) l;
          l = fsm_sdata TERMREQ (reqid (fsm l)) (term_bytes (fsm l)) (term_reason_len (fsm l)) l;
          l = TIMEOUT l
      in upd (\<lambda>f. f\<lparr>retransmits := retransmits f - 1\<rparr>) l)"

section \<open>Administrative events\<close>

definition fsm_init :: "'e link \<Rightarrow> 'e link" where
  "fsm_init = upd (\<lambda>f. f\<lparr>state := LS_INITIAL, flags := 0, cur_id := 0,
     timeouttime := FSM_DEFTIMEOUT, maxconfreqtransmits := FSM_DEFMAXCONFREQS,
     maxtermtransmits := FSM_DEFMAXTERMREQS, maxnakloops := FSM_DEFMAXNAKLOOPS,
     term_reason_len := 0\<rparr>)"

definition fsm_lowerup :: "'e fsm_callbacks \<Rightarrow> 'e link \<Rightarrow> 'e link" where
  "fsm_lowerup cb l =
     (case state (fsm l) of
        LS_INITIAL \<Rightarrow> set_state LS_CLOSED l
      | LS_STARTING \<Rightarrow>
          if flags (fsm l) AND OPT_SILENT \<noteq> 0 then set_state LS_STOPPED l
          else set_state LS_REQSENT (fsm_sconfreq cb False l)
      | _ \<Rightarrow> l)"

definition fsm_lowerdown :: "'e fsm_callbacks \<Rightarrow> 'e link \<Rightarrow> 'e link" where
  "fsm_lowerdown cb l =
     (case state (fsm l) of
        LS_CLOSED \<Rightarrow> set_state LS_INITIAL l
      | LS_STOPPED \<Rightarrow> notify Starting (cb_starting cb) (set_state LS_STARTING l)
      | LS_CLOSING \<Rightarrow> UNTIMEOUT (set_state LS_INITIAL l)
      | LS_STOPPING \<Rightarrow> UNTIMEOUT (set_state LS_STARTING l)
      | LS_REQSENT \<Rightarrow> UNTIMEOUT (set_state LS_STARTING l)
      | LS_ACKRCVD \<Rightarrow> UNTIMEOUT (set_state LS_STARTING l)
      | LS_ACKSENT \<Rightarrow> UNTIMEOUT (set_state LS_STARTING l)
      | LS_OPENED \<Rightarrow> set_state LS_STARTING (notify Down (cb_down cb) l)
      | _ \<Rightarrow> l)"

definition open_restart :: "'e fsm_callbacks \<Rightarrow> 'e link \<Rightarrow> 'e link" where
  "open_restart cb l =
     (if flags (fsm l) AND OPT_RESTART \<noteq> 0 then fsm_lowerup cb (fsm_lowerdown cb l) else l)"

definition fsm_open :: "'e fsm_callbacks \<Rightarrow> 'e link \<Rightarrow> 'e link" where
  "fsm_open cb l =
     (case state (fsm l) of
        LS_INITIAL \<Rightarrow> notify Starting (cb_starting cb) (set_state LS_STARTING l)
      | LS_CLOSED \<Rightarrow>
          if flags (fsm l) AND OPT_SILENT \<noteq> 0 then set_state LS_STOPPED l
          else set_state LS_REQSENT (fsm_sconfreq cb False l)
      | LS_CLOSING \<Rightarrow> open_restart cb (set_state LS_STOPPING l)
      | LS_STOPPED \<Rightarrow> open_restart cb l
      | LS_OPENED \<Rightarrow> open_restart cb l
      | _ \<Rightarrow> l)"

definition fsm_close :: "'e fsm_callbacks \<Rightarrow> u8 list option \<Rightarrow> 'e link \<Rightarrow> 'e link" where
  "fsm_close cb reason l =
     (let l = upd (\<lambda>f. f\<lparr>term_reason := reason,
                term_reason_len := (case reason of None \<Rightarrow> 0 | Some r \<Rightarrow> int (length r))\<rparr>) l;
          s = state (fsm l)
      in case s of
        LS_STARTING \<Rightarrow> set_state LS_INITIAL l
      | LS_STOPPED \<Rightarrow> set_state LS_CLOSED l
      | LS_STOPPING \<Rightarrow> set_state LS_CLOSING l
      | _ \<Rightarrow>
          if s \<in> {LS_REQSENT, LS_ACKRCVD, LS_ACKSENT, LS_OPENED} then
            let l = (if s \<noteq> LS_OPENED then UNTIMEOUT l else notify Down (cb_down cb) l);
                l = upd (\<lambda>f. f\<lparr>retransmits := maxtermtransmits f\<rparr>) l
            in set_state LS_CLOSING (send_termreq l)
          else l)"

text \<open>The timer has fired: the timer list has dropped the entry before it calls the handler.\<close>

definition fsm_timeout :: "'e fsm_callbacks \<Rightarrow> 'e link \<Rightarrow> 'e link" where
  "fsm_timeout cb l =
     (let s = state (fsm l) in
      if s \<in> {LS_CLOSING, LS_STOPPING} then
        if retransmits (fsm l) \<le> 0
        then notify Finished (cb_finished cb)
               (set_state (if s = LS_CLOSING then LS_CLOSED else LS_STOPPED) l)
        else send_termreq l
      else if s \<in> {LS_REQSENT, LS_ACKRCVD, LS_ACKSENT} then
        if retransmits (fsm l) \<le> 0 then
          let l = set_state LS_STOPPED l
          in if flags (fsm l) AND OPT_PASSIVE = 0 then notify Finished (cb_finished cb) l else l
        else
          let l = call (cb_retransmit cb) l;
              l = fsm_sconfreq cb True l
          in if state (fsm l) = LS_ACKRCVD then set_state LS_REQSENT l else l
      else l)"

definition fsm_timer_fires :: "'e fsm_callbacks \<Rightarrow> 'e link \<Rightarrow> 'e link" where
  "fsm_timer_fires cb l = fsm_timeout cb (UNTIMEOUT l)"

definition fsm_protreject :: "'e fsm_callbacks \<Rightarrow> 'e link \<Rightarrow> 'e link" where
  "fsm_protreject cb l =
     (let s = state (fsm l) in
      if s \<in> {LS_CLOSING, LS_CLOSED} then
        let l = (if s = LS_CLOSING then UNTIMEOUT l else l)
        in notify Finished (cb_finished cb) (set_state LS_CLOSED l)
      else if s \<in> {LS_STOPPING, LS_REQSENT, LS_ACKRCVD, LS_ACKSENT, LS_STOPPED} then
        let l = (if s \<noteq> LS_STOPPED then UNTIMEOUT l else l)
        in notify Finished (cb_finished cb) (set_state LS_STOPPED l)
      else if s = LS_OPENED then
        let l = notify Down (cb_down cb) l;
            l = upd (\<lambda>f. f\<lparr>retransmits := maxtermtransmits f\<rparr>) l
        in set_state LS_STOPPING (send_termreq l)
      else l)"

section \<open>Packets\<close>

text \<open>\<^verbatim>\<open>fsm_rconfreq\<close>: the first switch; its returns are \<open>None\<close>.\<close>

definition rconfreq_start :: "'e fsm_callbacks \<Rightarrow> 'e link \<Rightarrow> 'e link option" where
  "rconfreq_start cb l =
     (case state (fsm l) of
        LS_CLOSED \<Rightarrow> None
      | LS_CLOSING \<Rightarrow> None
      | LS_STOPPING \<Rightarrow> None
      | LS_OPENED \<Rightarrow> Some (fsm_sconfreq cb False (notify Down (cb_down cb) l))
      | LS_STOPPED \<Rightarrow> Some (set_state LS_REQSENT (fsm_sconfreq cb False l))
      | _ \<Rightarrow> Some l)"

text \<open>The check of the options: the reply's code and data.\<close>

definition rconfreq_check ::
    "'e fsm_callbacks \<Rightarrow> u8 list \<Rightarrow> 'e link \<Rightarrow> 'e link \<times> u8 list \<times> int" where
  "rconfreq_check cb inp l =
     (case cb_reqci cb of
        Some reqci \<Rightarrow> reqci l inp (nakloops (fsm l) \<ge> maxnakloops (fsm l))
      | None \<Rightarrow> (l, inp, if inp \<noteq> [] then CONFREJ else CONFACK))"

definition rconfreq_finish :: "'e fsm_callbacks \<Rightarrow> int \<Rightarrow> 'e link \<Rightarrow> 'e link" where
  "rconfreq_finish cb code l =
     (if code = CONFACK then
        let l = (if state (fsm l) = LS_ACKRCVD
                 then notify Up (cb_up cb) (set_state LS_OPENED (UNTIMEOUT l))
                 else set_state LS_ACKSENT l)
        in upd (\<lambda>f. f\<lparr>nakloops := 0\<rparr>) l
      else
        let l = (if state (fsm l) \<noteq> LS_ACKRCVD then set_state LS_REQSENT l else l)
        in if code = CONFNAK then upd (\<lambda>f. f\<lparr>nakloops := nakloops f + 1\<rparr>) l else l)"

definition fsm_rconfreq :: "'e fsm_callbacks \<Rightarrow> u8 \<Rightarrow> u8 list \<Rightarrow> 'e link \<Rightarrow> 'e link" where
  "fsm_rconfreq cb i inp l =
     (case rconfreq_start cb l of
        None \<Rightarrow> if state (fsm l) = LS_CLOSED then fsm_sdata TERMACK i [] 0 l else l
      | Some l \<Rightarrow>
          (let (l, reply, code) = rconfreq_check cb inp l;
               l = fsm_sdata code i reply (int (length reply)) l
           in rconfreq_finish cb code l))"

definition fsm_rconfack :: "'e fsm_callbacks \<Rightarrow> u8 \<Rightarrow> u8 list \<Rightarrow> 'e link \<Rightarrow> 'e link" where
  "fsm_rconfack cb i inp l =
     (if i \<noteq> reqid (fsm l) \<or> seen_ack (fsm l) then l
      else let (l, ok) = (case cb_ackci cb of Some ackci \<Rightarrow> ackci l inp
                          | None \<Rightarrow> (l, if inp = [] then 1 else 0))
      in if ok = 0 then l
      else let l = upd (\<lambda>f. f\<lparr>seen_ack := True\<rparr>) l
      in case state (fsm l) of
           LS_CLOSED \<Rightarrow> fsm_sdata TERMACK i [] 0 l
         | LS_STOPPED \<Rightarrow> fsm_sdata TERMACK i [] 0 l
         | LS_REQSENT \<Rightarrow>
             upd (\<lambda>f. f\<lparr>state := LS_ACKRCVD, retransmits := maxconfreqtransmits f\<rparr>) l
         | LS_ACKRCVD \<Rightarrow> set_state LS_REQSENT (fsm_sconfreq cb False (UNTIMEOUT l))
         | LS_ACKSENT \<Rightarrow>
             notify Up (cb_up cb)
               (upd (\<lambda>f. f\<lparr>state := LS_OPENED, retransmits := maxconfreqtransmits f\<rparr>) (UNTIMEOUT l))
         | LS_OPENED \<Rightarrow>
             set_state LS_REQSENT (fsm_sconfreq cb False (notify Down (cb_down cb) l))
         | _ \<Rightarrow> l)"

definition fsm_rconfnakrej :: "'e fsm_callbacks \<Rightarrow> int \<Rightarrow> u8 \<Rightarrow> u8 list \<Rightarrow> 'e link \<Rightarrow> 'e link" where
  "fsm_rconfnakrej cb code i inp l =
     (if i \<noteq> reqid (fsm l) \<or> seen_ack (fsm l) then l
      else case (if code = CONFNAK then cb_nakci cb else cb_rejci cb) of
        None \<Rightarrow> l
      | Some proc \<Rightarrow>
        (let (l, ret) = proc l inp
         in if ret = 0 then l
         else let l = upd (\<lambda>f. f\<lparr>seen_ack := True\<rparr>) l; s = state (fsm l)
         in if s \<in> {LS_CLOSED, LS_STOPPED} then fsm_sdata TERMACK i [] 0 l
         else if s \<in> {LS_REQSENT, LS_ACKSENT} then
           let l = UNTIMEOUT l
           in if ret < 0 then set_state LS_STOPPED l else fsm_sconfreq cb False l
         else if s = LS_ACKRCVD then set_state LS_REQSENT (fsm_sconfreq cb False (UNTIMEOUT l))
         else if s = LS_OPENED then
           set_state LS_REQSENT (fsm_sconfreq cb False (notify Down (cb_down cb) l))
         else l))"

definition fsm_rtermreq :: "'e fsm_callbacks \<Rightarrow> u8 \<Rightarrow> 'e link \<Rightarrow> 'e link" where
  "fsm_rtermreq cb i l =
     (let s = state (fsm l);
          l = (if s \<in> {LS_ACKRCVD, LS_ACKSENT} then set_state LS_REQSENT l
               else if s = LS_OPENED then
                 TIMEOUT (upd (\<lambda>f. f\<lparr>retransmits := 0, state := LS_STOPPING\<rparr>)
                            (notify Down (cb_down cb) l))
               else l)
      in fsm_sdata TERMACK i [] 0 l)"

definition fsm_rtermack :: "'e fsm_callbacks \<Rightarrow> 'e link \<Rightarrow> 'e link" where
  "fsm_rtermack cb l =
     (case state (fsm l) of
        LS_CLOSING \<Rightarrow> notify Finished (cb_finished cb) (set_state LS_CLOSED (UNTIMEOUT l))
      | LS_STOPPING \<Rightarrow> notify Finished (cb_finished cb) (set_state LS_STOPPED (UNTIMEOUT l))
      | LS_ACKRCVD \<Rightarrow> set_state LS_REQSENT l
      | LS_OPENED \<Rightarrow> fsm_sconfreq cb False (notify Down (cb_down cb) l)
      | _ \<Rightarrow> l)"

definition fsm_rcoderej :: "u8 list \<Rightarrow> 'e link \<Rightarrow> 'e link" where
  "fsm_rcoderej inp l =
     (if int (length inp) < HEADERLEN then l
      else if state (fsm l) = LS_ACKRCVD then set_state LS_REQSENT l else l)"

text \<open>Any other code: \<^verbatim>\<open>extcode\<close> or a Code-Reject with the packet (\<open>len\<close> bytes) in it.\<close>

definition fsm_unknown ::
    "'e fsm_callbacks \<Rightarrow> u8 \<Rightarrow> u8 \<Rightarrow> u8 list \<Rightarrow> u8 list \<Rightarrow> int \<Rightarrow> 'e link \<Rightarrow> 'e link" where
  "fsm_unknown cb code i inp pkt len l =
     (let (l, handled) = (case cb_extcode cb of None \<Rightarrow> (l, 0)
                          | Some extcode \<Rightarrow> extcode l code i inp)
      in if handled \<noteq> 0 then l
      else let l = upd (\<lambda>f. f\<lparr>cur_id := cur_id f + 1\<rparr>) l
      in fsm_sdata CODEREJ (cur_id (fsm l)) (take (nat len) pkt) len l)"

text \<open>The header of a packet: code, id and length; \<open>None\<close> when the packet is dropped.\<close>

definition fsm_header :: "u8 list \<Rightarrow> (u8 \<times> u8 \<times> int) option" where
  "fsm_header pkt =
     (case pkt of
        code # i # hi # lo # _ \<Rightarrow>
          (let len = 256 * uint hi + uint lo
           in if len < HEADERLEN \<or> len > int (length pkt) then None else Some (code, i, len))
      | _ \<Rightarrow> None)"

definition fsm_dispatch :: "'e fsm_callbacks \<Rightarrow> u8 \<Rightarrow> u8 \<Rightarrow> int \<Rightarrow> u8 list \<Rightarrow> 'e link \<Rightarrow> 'e link" where
  "fsm_dispatch cb code i len pkt l =
     (let inp = take (nat (len - HEADERLEN)) (drop 4 pkt); c = uint code
      in if c = CONFREQ then fsm_rconfreq cb i inp l
      else if c = CONFACK then fsm_rconfack cb i inp l
      else if c = CONFNAK \<or> c = CONFREJ then fsm_rconfnakrej cb c i inp l
      else if c = TERMREQ then fsm_rtermreq cb i l
      else if c = TERMACK then fsm_rtermack cb l
      else if c = CODEREJ then fsm_rcoderej inp l
      else fsm_unknown cb code i inp pkt len l)"

definition fsm_input :: "'e fsm_callbacks \<Rightarrow> u8 list \<Rightarrow> 'e link \<Rightarrow> 'e link" where
  "fsm_input cb pkt l =
     (case fsm_header pkt of
        None \<Rightarrow> l
      | Some (code, i, len) \<Rightarrow>
          if state (fsm l) \<in> {LS_INITIAL, LS_STARTING} then l else fsm_dispatch cb code i len pkt l)"

section \<open>Runs\<close>

datatype fsm_event = Ev_lowerup | Ev_lowerdown | Ev_open | Ev_close "u8 list option" | Ev_timer
  | Ev_protreject | Ev_packet "u8 list"

text \<open>The timer only fires when it is pending.\<close>

definition fsm_do :: "'e fsm_callbacks \<Rightarrow> fsm_event \<Rightarrow> 'e link \<Rightarrow> 'e link" where
  "fsm_do cb ev l =
     (case ev of
        Ev_lowerup \<Rightarrow> fsm_lowerup cb l
      | Ev_lowerdown \<Rightarrow> fsm_lowerdown cb l
      | Ev_open \<Rightarrow> fsm_open cb l
      | Ev_close reason \<Rightarrow> fsm_close cb reason l
      | Ev_timer \<Rightarrow> if timer_on (fsm l) then fsm_timer_fires cb l else l
      | Ev_protreject \<Rightarrow> fsm_protreject cb l
      | Ev_packet pkt \<Rightarrow> fsm_input cb pkt l)"

text \<open>A run: events that \<open>allowed\<close> admits and, between them, steps of the rest of the stack,
  which may take and give back elements of the timer pool but leave the automaton alone.\<close>

inductive fsm_run :: "'e fsm_callbacks \<Rightarrow> (fsm_event \<Rightarrow> 'e link \<Rightarrow> bool) \<Rightarrow> 'e link \<Rightarrow> bool"
  for cb allowed where
  start: "\<not> timer_on (fsm l) \<Longrightarrow> notices (fsm l) = [] \<Longrightarrow> fsm_run cb allowed (fsm_init l)"
| step: "fsm_run cb allowed l \<Longrightarrow> allowed ev l \<Longrightarrow> fsm_run cb allowed (fsm_do cb ev l)"
| other: "fsm_run cb allowed l \<Longrightarrow> fsm l' = fsm l \<Longrightarrow> fsm_run cb allowed l'"

section \<open>What the callbacks leave alone\<close>

definition callbacks_ok :: "'e fsm_callbacks \<Rightarrow> bool" where
  "callbacks_ok cb \<longleftrightarrow>
     (\<forall>c \<in> {cb_resetci cb, cb_up cb, cb_down cb, cb_starting cb, cb_finished cb, cb_retransmit cb}.
        \<forall>g. c = Some g \<longrightarrow> (\<forall>l. fsm (g l) = fsm l)) \<and>
     (\<forall>g. cb_addci cb = Some g \<longrightarrow> (\<forall>l n. fsm (fst (g l n)) = fsm l)) \<and>
     (\<forall>c \<in> {cb_ackci cb, cb_nakci cb, cb_rejci cb}.
        \<forall>g. c = Some g \<longrightarrow> (\<forall>l inp. fsm (fst (g l inp)) = fsm l)) \<and>
     (\<forall>g. cb_reqci cb = Some g \<longrightarrow> (\<forall>l inp r. fsm (fst (g l inp r)) = fsm l)) \<and>
     (\<forall>g. cb_extcode cb = Some g \<longrightarrow> (\<forall>l c i inp. fsm (fst (g l c i inp)) = fsm l))"

text \<open>The callbacks that run before a \<^verbatim>\<open>TIMEOUT\<close> of the same operation do not take the last
  element of the timer pool.\<close>

definition timers_ok :: "'e fsm_callbacks \<Rightarrow> bool" where
  "timers_ok cb \<longleftrightarrow>
     (\<forall>c \<in> {cb_resetci cb, cb_down cb, cb_starting cb, cb_retransmit cb}.
        \<forall>g. c = Some g \<longrightarrow> (\<forall>l. 0 < timeo_left l \<longrightarrow> 0 < timeo_left (g l))) \<and>
     (\<forall>g. cb_addci cb = Some g \<longrightarrow> (\<forall>l n. 0 < timeo_left l \<longrightarrow> 0 < timeo_left (fst (g l n)))) \<and>
     (\<forall>c \<in> {cb_ackci cb, cb_nakci cb, cb_rejci cb}.
        \<forall>g. c = Some g \<longrightarrow> (\<forall>l inp. 0 < timeo_left l \<longrightarrow> 0 < timeo_left (fst (g l inp))))"

lemma fsm_call [frame]:
  assumes "callbacks_ok cb"
  shows "fsm (call (cb_resetci cb) l) = fsm l" and "fsm (call (cb_retransmit cb) l) = fsm l"
    and "fsm (notify n (cb_up cb) l) = (fsm l)\<lparr>notices := n # notices (fsm l)\<rparr>"
    and "fsm (notify n (cb_down cb) l) = (fsm l)\<lparr>notices := n # notices (fsm l)\<rparr>"
    and "fsm (notify n (cb_starting cb) l) = (fsm l)\<lparr>notices := n # notices (fsm l)\<rparr>"
    and "fsm (notify n (cb_finished cb) l) = (fsm l)\<lparr>notices := n # notices (fsm l)\<rparr>"
  using assms by (auto simp: callbacks_ok_def call_def notify_def split: option.splits)

lemma fsm_check [frame]:
  assumes "callbacks_ok cb"
  shows "cb_addci cb = Some g1 \<Longrightarrow> fsm (fst (g1 l n)) = fsm l"
    and "cb_ackci cb = Some g2 \<Longrightarrow> fsm (fst (g2 l inp)) = fsm l"
    and "cb_nakci cb = Some g3 \<Longrightarrow> fsm (fst (g3 l inp)) = fsm l"
    and "cb_rejci cb = Some g4 \<Longrightarrow> fsm (fst (g4 l inp)) = fsm l"
    and "cb_extcode cb = Some g5 \<Longrightarrow> fsm (fst (g5 l c i inp)) = fsm l"
    and "fsm (fst (rconfreq_check cb inp l)) = fsm l"
  using assms by (auto simp: callbacks_ok_def rconfreq_check_def split: option.splits)

lemma fsm_UNTIMEOUT [frame]: "fsm (UNTIMEOUT l) = (fsm l)\<lparr>timer_on := False\<rparr>"
  by (simp add: UNTIMEOUT_def)

lemma timeo_left_UNTIMEOUT [frame]:
  "timeo_left (UNTIMEOUT l) = timeo_left l + (if timer_on (fsm l) then 1 else 0)"
  by (simp add: UNTIMEOUT_def)

lemma fsm_TIMEOUT [frame]:
  "fsm (TIMEOUT l) = (fsm l)\<lparr>timer_on := timer_on (fsm l) \<or> 0 < timeo_left l\<rparr>"
  by (simp add: TIMEOUT_def Let_def frame)

lemma out_TIMEOUT [frame]: "out (TIMEOUT l) = out l" "out (UNTIMEOUT l) = out l"
  by (simp_all add: TIMEOUT_def UNTIMEOUT_def Let_def)

lemma fsm_fsm_sdata [frame]:
  "fsm (fsm_sdata code i data n l) = fsm l" "timeo_left (fsm_sdata code i data n l) = timeo_left l"
  by (simp_all add: fsm_sdata_def Let_def)

text \<open>The effect of a Configure-Request and of a Terminate-Request on the automaton.\<close>

definition sconfreq_core :: "bool \<Rightarrow> fsm_core \<Rightarrow> fsm_core" where
  "sconfreq_core retransmit f =
     (let f = (if state f \<notin> {LS_REQSENT, LS_ACKRCVD, LS_ACKSENT} then f\<lparr>nakloops := 0\<rparr> else f);
          f = (if \<not> retransmit then f\<lparr>retransmits := maxconfreqtransmits f,
                 cur_id := cur_id f + 1, reqid := cur_id f + 1\<rparr> else f)
      in f\<lparr>seen_ack := False, retransmits := retransmits f - 1\<rparr>)"

definition sconfreq_armed :: "'e fsm_callbacks \<Rightarrow> bool \<Rightarrow> 'e link \<Rightarrow> bool" where
  "sconfreq_armed cb r l \<longleftrightarrow> timer_on (fsm (fsm_sconfreq cb r l))"

lemma fsm_request_options [frame]: "callbacks_ok cb \<Longrightarrow> fsm (fst (request_options cb l)) = fsm l"
  by (simp add: request_options_def Let_def fsm_check(1) split: option.split)

lemma fsm_fsm_sconfreq [frame]:
  "callbacks_ok cb \<Longrightarrow>
   fsm (fsm_sconfreq cb r l) = (sconfreq_core r (fsm l))\<lparr>timer_on := sconfreq_armed cb r l\<rparr>"
  by (simp add: sconfreq_armed_def fsm_sconfreq_def sconfreq_core_def Let_def frame case_prod_beta)

lemma fsm_send_termreq [frame]:
  "fsm (send_termreq l) = (fsm l)\<lparr>cur_id := cur_id (fsm l) + 1, reqid := cur_id (fsm l) + 1,
     timer_on := timer_on (fsm l) \<or> 0 < timeo_left l, retransmits := retransmits (fsm l) - 1\<rparr>"
  by (simp add: send_termreq_def Let_def frame)

lemma timeo_left_call [frame]:
  assumes "timers_ok cb" and "0 < timeo_left l"
  shows "0 < timeo_left (call (cb_resetci cb) l)" and "0 < timeo_left (call (cb_retransmit cb) l)"
    and "0 < timeo_left (notify n (cb_down cb) l)" and "0 < timeo_left (notify n (cb_starting cb) l)"
    and "0 < timeo_left (fst (request_options cb l))"
    and "cb_ackci cb = Some g2 \<Longrightarrow> 0 < timeo_left (fst (g2 l inp))"
    and "cb_nakci cb = Some g3 \<Longrightarrow> 0 < timeo_left (fst (g3 l inp))"
    and "cb_rejci cb = Some g4 \<Longrightarrow> 0 < timeo_left (fst (g4 l inp))"
  using assms
  by (auto simp: timers_ok_def call_def notify_def request_options_def Let_def split: option.splits)

lemmas timeo_left_nonzero [frame] = timeo_left_call [unfolded neq0_conv [symmetric]]

lemma sconfreq_armed [frame]:
  assumes "callbacks_ok cb" and "timers_ok cb" and "timer_on (fsm l) \<or> 0 < timeo_left l"
  shows "sconfreq_armed cb r l"
  using assms(3)
  by (elim disjE)
    (simp_all add: sconfreq_armed_def fsm_sconfreq_def Let_def frame case_prod_beta assms(1,2))

lemma sconfreq_core_simps [simp]:
  "state (sconfreq_core r f) = state f"
  "notices (sconfreq_core r f) = notices f"
  "retransmits (sconfreq_core False f) = maxconfreqtransmits f - 1"
  "retransmits (sconfreq_core True f) = retransmits f - 1"
  "flags (sconfreq_core r f) = flags f"
  "maxconfreqtransmits (sconfreq_core r f) = maxconfreqtransmits f"
  by (simp_all add: sconfreq_core_def Let_def)

section \<open>The restart timer and the notifications\<close>

text \<open>In the states that wait for the peer the restart timer is pending; the upper layer has
  been told \<open>Up\<close> once more than \<open>Down\<close> exactly in the state Opened.\<close>

definition waits :: "ls \<Rightarrow> bool" where
  "waits s \<longleftrightarrow> s \<in> {LS_CLOSING, LS_STOPPING, LS_REQSENT, LS_ACKRCVD, LS_ACKSENT}"

definition timer_ok :: "fsm_core \<Rightarrow> bool" where
  "timer_ok f \<longleftrightarrow> (waits (state f) \<longrightarrow> timer_on f)"

definition notices_ok :: "fsm_core \<Rightarrow> bool" where
  "notices_ok f \<longleftrightarrow>
     count_list (notices f) Up = count_list (notices f) Down + (if state f = LS_OPENED then 1 else 0)"

lemmas admin_defs = fsm_lowerup_def fsm_lowerdown_def fsm_open_def open_restart_def fsm_close_def
  fsm_timer_fires_def fsm_timeout_def fsm_protreject_def
lemmas packet_defs = rconfreq_start_def rconfreq_finish_def fsm_rconfreq_def fsm_rconfack_def
  fsm_rconfnakrej_def fsm_rtermreq_def fsm_rtermack_def fsm_rcoderej_def
lemmas ok_defs = timer_ok_def notices_ok_def waits_def

text \<open>At the start of an operation the timer is pending or the pool has an element for it.\<close>

definition can_arm :: "'e link \<Rightarrow> bool" where
  "can_arm l \<longleftrightarrow> timer_on (fsm l) \<or> 0 < timeo_left l"

lemma admin_timer_ok [inv_intro]:
  assumes "callbacks_ok cb" and "timers_ok cb" and "can_arm l" and "timer_ok (fsm l)"
  shows "timer_ok (fsm (fsm_lowerup cb l))" and "timer_ok (fsm (fsm_lowerdown cb l))"
    and "timer_ok (fsm (fsm_close cb reason l))"
    and "timer_on (fsm l) \<Longrightarrow> timer_ok (fsm (fsm_timer_fires cb l))"
    and "timer_ok (fsm (fsm_protreject cb l))"
  using assms
  by (auto simp: admin_defs timer_ok_def waits_def can_arm_def frame Let_def split: ls.splits)

lemma lowerdown_can_arm:
  assumes "callbacks_ok cb" and "timers_ok cb" and "can_arm l"
  shows "can_arm (fsm_lowerdown cb l)"
  using assms
  by (auto simp: fsm_lowerdown_def can_arm_def frame split: ls.splits)

lemma open_timer_ok [inv_intro]:
  assumes "callbacks_ok cb" and "timers_ok cb" and "can_arm l" and "timer_ok (fsm l)"
  shows "timer_ok (fsm (fsm_open cb l))"
proof -
  have r: "timer_ok (fsm (open_restart cb l'))" if "timer_ok (fsm l')" "can_arm l'" for l'
    using that assms(1,2) by (simp add: open_restart_def admin_timer_ok lowerdown_can_arm)
  show ?thesis
    using assms
    by (auto simp: fsm_open_def frame intro!: r split: ls.splits)
      (auto simp: timer_ok_def waits_def can_arm_def frame)
qed

lemma rconfreq_timer_ok [inv_intro]:
  assumes "callbacks_ok cb" and "timers_ok cb" and "can_arm l" and "timer_ok (fsm l)" and "state (fsm l) \<notin> {LS_INITIAL, LS_STARTING}"
  shows "timer_ok (fsm (fsm_rconfreq cb i inp l))"
  using assms
  by (auto simp: packet_defs timer_ok_def waits_def can_arm_def frame Let_def case_prod_beta
       split: ls.splits option.splits)

lemma rconfnakrej_timer_ok [inv_intro]:
  assumes "callbacks_ok cb" and "timers_ok cb" and "can_arm l" and "timer_ok (fsm l)"
  shows "timer_ok (fsm (fsm_rconfnakrej cb c i inp l))"
proof (cases "if c = CONFNAK then cb_nakci cb else cb_rejci cb")
  case None
  then show ?thesis using assms(4) by (simp add: fsm_rconfnakrej_def)
next
  case (Some g)
  have fsm: "fsm (fst (g l inp)) = fsm l" and left: "0 < timeo_left l \<Longrightarrow> 0 < timeo_left (fst (g l inp))"
    using Some fsm_check(3,4) [OF assms(1)] timeo_left_call(7,8) [OF assms(2)] by (auto split: if_splits)
  from assms(3) have "timer_on (fsm l) \<or> 0 < timeo_left (fst (g l inp))"
    using left by (auto simp: can_arm_def)
  then show ?thesis
    using Some assms(1,2,4)
    by (cases "state (fsm l)"; elim disjE)
      (simp_all add: fsm_rconfnakrej_def timer_ok_def waits_def frame fsm Let_def case_prod_beta)
qed

lemma packet_timer_ok [inv_intro]:
  assumes "callbacks_ok cb" and "timers_ok cb" and "can_arm l" and "timer_ok (fsm l)"
  shows "timer_ok (fsm (fsm_rconfack cb i inp l))" and "timer_ok (fsm (fsm_rtermreq cb i l))"
    and "timer_ok (fsm (fsm_rtermack cb l))" and "timer_ok (fsm (fsm_rcoderej inp l))"
  using assms
  by (auto simp: packet_defs timer_ok_def waits_def can_arm_def frame Let_def case_prod_beta
       split: ls.splits option.splits)

lemma fsm_header_hd: "fsm_header pkt = Some (c, i, len) \<Longrightarrow> pkt \<noteq> [] \<and> hd pkt = c"
  by (auto simp: fsm_header_def Let_def split: list.splits if_splits)

text \<open>A packet is dropped, handled by the operation of its code, or passed to \<^verbatim>\<open>extcode\<close> and
  rejected: a property of the automaton that does not look at its id is kept by
  \<^verbatim>\<open>fsm_input\<close> if the operations keep it.\<close>

lemma fsm_input_cases:
  assumes ok: "callbacks_ok cb"
    and id: "\<And>f i. P (f\<lparr>cur_id := i\<rparr>) = P f"
    and l: "P (fsm l)"
    and req: "\<And>i inp. state (fsm l) \<notin> {LS_INITIAL, LS_STARTING} \<Longrightarrow> P (fsm (fsm_rconfreq cb i inp l))"
    and ack: "\<And>i inp. P (fsm (fsm_rconfack cb i inp l))"
    and nak: "\<And>c i inp. P (fsm (fsm_rconfnakrej cb c i inp l))"
    and treq: "\<And>i. P (fsm (fsm_rtermreq cb i l))"
    and tack: "pkt \<noteq> [] \<Longrightarrow> hd pkt = 6 \<Longrightarrow> P (fsm (fsm_rtermack cb l))"
    and crej: "\<And>inp. P (fsm (fsm_rcoderej inp l))"
  shows "P (fsm (fsm_input cb pkt l))"
proof -
  have ext: "P (fsm (fsm_unknown cb c i inp q len l))" for c i inp q len
    using l id fsm_check(5) [OF ok]
    by (auto simp: fsm_unknown_def Let_def frame case_prod_beta split: option.split)
  have six: "uint c = TERMACK \<Longrightarrow> pkt \<noteq> [] \<Longrightarrow> hd pkt = c \<Longrightarrow> hd pkt = 6" for c
    by (simp add: word_uint_eq_iff)
  show ?thesis
  proof (cases "fsm_header pkt")
    case None
    then show ?thesis by (simp add: fsm_input_def l)
  next
    case (Some h)
    obtain c i len where h: "h = (c, i, len)" by (cases h)
    note hd = fsm_header_hd [OF Some [unfolded h]]
    have "P (fsm (fsm_dispatch cb c i len pkt l))" if "state (fsm l) \<notin> {LS_INITIAL, LS_STARTING}"
      unfolding fsm_dispatch_def Let_def
      using req [OF that] ack nak treq crej ext tack six [of c] hd by (simp split del: if_split) simp
    then show ?thesis by (simp add: fsm_input_def Some h l)
  qed
qed

lemma fsm_do_timer_ok:
  assumes "callbacks_ok cb" and "timers_ok cb" and "can_arm l" and "timer_ok (fsm l)"
  shows "timer_ok (fsm (fsm_do cb ev l))"
proof (cases ev)
  case (Ev_packet pkt)
  have "timer_ok (fsm (fsm_input cb pkt l))"
    by (rule fsm_input_cases [OF assms(1)]) (use assms in \<open>auto intro: inv_intro simp: timer_ok_def [of "_\<lparr>cur_id := _\<rparr>"] timer_ok_def [symmetric]\<close>)
  then show ?thesis by (simp add: fsm_do_def Ev_packet)
qed (use assms in \<open>auto simp: fsm_do_def intro: inv_intro\<close>)


lemma admin_notices_ok [inv_intro]:
  assumes "callbacks_ok cb" and "notices_ok (fsm l)"
  shows "notices_ok (fsm (fsm_lowerup cb l))" and "notices_ok (fsm (fsm_lowerdown cb l))"
    and "notices_ok (fsm (fsm_close cb reason l))" and "notices_ok (fsm (fsm_timer_fires cb l))"
    and "notices_ok (fsm (fsm_protreject cb l))"
  using assms
  by (auto simp: admin_defs notices_ok_def frame Let_def split: ls.splits)

lemma open_notices_ok [inv_intro]:
  assumes "callbacks_ok cb" and "notices_ok (fsm l)"
  shows "notices_ok (fsm (fsm_open cb l))"
proof -
  have r: "notices_ok (fsm (open_restart cb l'))" if "notices_ok (fsm l')" for l'
    using that assms(1) by (simp add: open_restart_def admin_notices_ok)
  show ?thesis
    using assms
    by (auto simp: fsm_open_def frame intro!: r split: ls.splits)
      (auto simp: notices_ok_def)
qed

lemma rconfnakrej_notices_ok [inv_intro]:
  assumes "callbacks_ok cb" and "notices_ok (fsm l)"
  shows "notices_ok (fsm (fsm_rconfnakrej cb c i inp l))"
proof -
  have "fsm (fst (g l inp)) = fsm l" if "(if c = CONFNAK then cb_nakci cb else cb_rejci cb) = Some g" for g
    using that fsm_check(3,4) [OF assms(1)] by (auto split: if_splits)
  with assms show ?thesis
    by (cases "if c = CONFNAK then cb_nakci cb else cb_rejci cb"; cases "state (fsm l)")
      (simp_all add: fsm_rconfnakrej_def notices_ok_def frame Let_def case_prod_beta)
qed

lemma rconfreq_notices_ok [inv_intro]:
  assumes "callbacks_ok cb" and "notices_ok (fsm l)"
  shows "notices_ok (fsm (fsm_rconfreq cb i inp l))"
  using assms
  by (cases "state (fsm l)")
    (simp_all add: packet_defs notices_ok_def frame Let_def case_prod_beta)

lemma rconfack_notices_ok [inv_intro]:
  assumes "callbacks_ok cb" and "notices_ok (fsm l)"
  shows "notices_ok (fsm (fsm_rconfack cb i inp l))"
  using assms
  by (cases "state (fsm l)"; cases "cb_ackci cb")
    (simp_all add: packet_defs notices_ok_def frame Let_def case_prod_beta)

lemma packet_notices_ok [inv_intro]:
  assumes "callbacks_ok cb" and "notices_ok (fsm l)"
  shows "notices_ok (fsm (fsm_rtermreq cb i l))" and "notices_ok (fsm (fsm_rcoderej inp l))"
    and "state (fsm l) \<noteq> LS_OPENED \<Longrightarrow> notices_ok (fsm (fsm_rtermack cb l))"
  using assms
  by (cases "state (fsm l)"; simp add: packet_defs notices_ok_def frame Let_def)+

text \<open>A Terminate-Ack in the state Opened is the one event that breaks the notifications.\<close>

definition no_stray_termack :: "fsm_event \<Rightarrow> 'e link \<Rightarrow> bool" where
  "no_stray_termack ev l =
     (case ev of Ev_packet (c # _) \<Rightarrow> c \<noteq> 6 \<or> state (fsm l) \<noteq> LS_OPENED | _ \<Rightarrow> True)"

lemma fsm_do_notices_ok:
  assumes "callbacks_ok cb" and "notices_ok (fsm l)" and "no_stray_termack ev l"
  shows "notices_ok (fsm (fsm_do cb ev l))"
proof (cases ev)
  case (Ev_packet pkt)
  have "notices_ok (fsm (fsm_input cb pkt l))"
  proof (rule fsm_input_cases [OF assms(1)])
    assume "pkt \<noteq> []" "hd pkt = 6"
    then have "state (fsm l) \<noteq> LS_OPENED"
      using assms(3) by (cases pkt) (auto simp: no_stray_termack_def Ev_packet)
    then show "notices_ok (fsm (fsm_rtermack cb l))" using assms by (simp add: packet_notices_ok)
  qed (use assms in \<open>auto intro: inv_intro simp: notices_ok_def [of "_\<lparr>cur_id := _\<rparr>"] notices_ok_def [symmetric]\<close>)
  then show ?thesis by (simp add: fsm_do_def Ev_packet)
qed (use assms in \<open>auto simp: fsm_do_def intro: inv_intro\<close>)

lemma fsm_run_timer_ok:
  assumes "callbacks_ok cb" and "timers_ok cb" and "fsm_run cb (\<lambda>ev. can_arm) l"
  shows "timer_ok (fsm l)"
  using assms(3)
  by induction (simp_all add: fsm_do_timer_ok assms(1,2), simp add: timer_ok_def waits_def fsm_init_def)

lemma fsm_run_notices_ok:
  assumes "callbacks_ok cb" and "fsm_run cb no_stray_termack l"
  shows "notices_ok (fsm l)"
  using assms(2)
  by induction (simp_all add: fsm_do_notices_ok assms(1), simp add: notices_ok_def fsm_init_def)

end
