(* ===== verification/Fsm_Spec.thy ===== *)
theory Fsm_Spec
  imports Fsm
begin

text \<open>
  The specification of the automaton: the transition table of RFC 1661 (section 4.1), the
  refinement of the table by the operations of \<open>Fsm\<close>, and the theorems on the restart timer,
  the restart counter and the notifications.
\<close>

section \<open>The table of RFC 1661\<close>

datatype rfc_event = Rfc_Up | Rfc_Down | Rfc_Open | Rfc_Close | Rfc_TO_plus | Rfc_TO_minus
  | Rfc_RCR_plus | Rfc_RCR_minus | Rfc_RCA | Rfc_RCN | Rfc_RTR | Rfc_RTA | Rfc_RUC
  | Rfc_RXJ_plus | Rfc_RXJ_minus | Nak_stop

text \<open>The next state; an event the table excludes in a state leaves it.  The event \<open>Nak_stop\<close> is
  not of the RFC: a Configure-Nak or -Reject on which \<^verbatim>\<open>nakci\<close> or \<^verbatim>\<open>rejci\<close> gives a
  verdict below zero, which the code takes as the end of the negotiation (for CCP).\<close>

fun rfc1661 :: "rfc_event \<Rightarrow> ls \<Rightarrow> ls" where
  "rfc1661 Rfc_Up s = (case s of LS_INITIAL \<Rightarrow> LS_CLOSED | LS_STARTING \<Rightarrow> LS_REQSENT | _ \<Rightarrow> s)"
| "rfc1661 Rfc_Down s = (case s of LS_INITIAL \<Rightarrow> LS_INITIAL | LS_CLOSED \<Rightarrow> LS_INITIAL
     | LS_CLOSING \<Rightarrow> LS_INITIAL | _ \<Rightarrow> LS_STARTING)"
| "rfc1661 Rfc_Open s = (case s of LS_INITIAL \<Rightarrow> LS_STARTING | LS_CLOSED \<Rightarrow> LS_REQSENT
     | LS_CLOSING \<Rightarrow> LS_STOPPING | _ \<Rightarrow> s)"
| "rfc1661 Rfc_Close s = (case s of LS_INITIAL \<Rightarrow> LS_INITIAL | LS_STARTING \<Rightarrow> LS_INITIAL
     | LS_CLOSED \<Rightarrow> LS_CLOSED | LS_STOPPED \<Rightarrow> LS_CLOSED | _ \<Rightarrow> LS_CLOSING)"
| "rfc1661 Rfc_TO_plus s = (case s of LS_ACKRCVD \<Rightarrow> LS_REQSENT | _ \<Rightarrow> s)"
| "rfc1661 Rfc_TO_minus s = (case s of LS_CLOSING \<Rightarrow> LS_CLOSED | LS_STOPPING \<Rightarrow> LS_STOPPED
     | LS_REQSENT \<Rightarrow> LS_STOPPED | LS_ACKRCVD \<Rightarrow> LS_STOPPED | LS_ACKSENT \<Rightarrow> LS_STOPPED | _ \<Rightarrow> s)"
| "rfc1661 Rfc_RCR_plus s = (case s of LS_STOPPED \<Rightarrow> LS_ACKSENT | LS_REQSENT \<Rightarrow> LS_ACKSENT
     | LS_ACKRCVD \<Rightarrow> LS_OPENED | LS_OPENED \<Rightarrow> LS_ACKSENT | _ \<Rightarrow> s)"
| "rfc1661 Rfc_RCR_minus s = (case s of LS_STOPPED \<Rightarrow> LS_REQSENT | LS_ACKSENT \<Rightarrow> LS_REQSENT
     | LS_OPENED \<Rightarrow> LS_REQSENT | _ \<Rightarrow> s)"
| "rfc1661 Rfc_RCA s = (case s of LS_REQSENT \<Rightarrow> LS_ACKRCVD | LS_ACKRCVD \<Rightarrow> LS_REQSENT
     | LS_ACKSENT \<Rightarrow> LS_OPENED | LS_OPENED \<Rightarrow> LS_REQSENT | _ \<Rightarrow> s)"
| "rfc1661 Rfc_RCN s = (case s of LS_ACKRCVD \<Rightarrow> LS_REQSENT | LS_OPENED \<Rightarrow> LS_REQSENT | _ \<Rightarrow> s)"
| "rfc1661 Rfc_RTR s = (case s of LS_ACKRCVD \<Rightarrow> LS_REQSENT | LS_ACKSENT \<Rightarrow> LS_REQSENT
     | LS_OPENED \<Rightarrow> LS_STOPPING | _ \<Rightarrow> s)"
| "rfc1661 Rfc_RTA s = (case s of LS_CLOSING \<Rightarrow> LS_CLOSED | LS_STOPPING \<Rightarrow> LS_STOPPED
     | LS_ACKRCVD \<Rightarrow> LS_REQSENT | LS_OPENED \<Rightarrow> LS_REQSENT | _ \<Rightarrow> s)"
| "rfc1661 Rfc_RUC s = s"
| "rfc1661 Rfc_RXJ_plus s = (case s of LS_ACKRCVD \<Rightarrow> LS_REQSENT | _ \<Rightarrow> s)"
| "rfc1661 Rfc_RXJ_minus s = (case s of LS_CLOSING \<Rightarrow> LS_CLOSED | LS_STOPPING \<Rightarrow> LS_STOPPED
     | LS_REQSENT \<Rightarrow> LS_STOPPED | LS_ACKRCVD \<Rightarrow> LS_STOPPED | LS_ACKSENT \<Rightarrow> LS_STOPPED
     | LS_OPENED \<Rightarrow> LS_STOPPING | _ \<Rightarrow> s)"
| "rfc1661 Nak_stop s = (case s of LS_REQSENT \<Rightarrow> LS_STOPPED | LS_ACKSENT \<Rightarrow> LS_STOPPED
     | LS_ACKRCVD \<Rightarrow> LS_REQSENT | LS_OPENED \<Rightarrow> LS_REQSENT | _ \<Rightarrow> s)"


















section \<open>The restart counter\<close>

lemma timer_last:
  assumes "callbacks_ok cb" and "waits (state (fsm l))" and "timer_on (fsm l)"
    and "retransmits (fsm l) \<le> 0"
  shows "state (fsm (fsm_do cb Ev_timer l)) =
           (if state (fsm l) = LS_CLOSING then LS_CLOSED else LS_STOPPED) \<and>
         \<not> timer_on (fsm (fsm_do cb Ev_timer l)) \<and>
         notices (fsm (fsm_do cb Ev_timer l)) =
           (if flags (fsm l) AND OPT_PASSIVE \<noteq> 0 \<and> state (fsm l) \<notin> {LS_CLOSING, LS_STOPPING}
            then notices (fsm l) else Finished # notices (fsm l))"
  using assms
  by (cases "state (fsm l)") (simp_all add: fsm_do_def admin_defs waits_def frame Let_def)

lemma timer_again:
  assumes "callbacks_ok cb" and "timers_ok cb" and "waits (state (fsm l))" and "timer_on (fsm l)"
    and "0 < retransmits (fsm l)"
  shows "waits (state (fsm (fsm_do cb Ev_timer l)))" and "timer_on (fsm (fsm_do cb Ev_timer l))"
    and "(state (fsm (fsm_do cb Ev_timer l)) = LS_CLOSING) = (state (fsm l) = LS_CLOSING)"
    and "(state (fsm (fsm_do cb Ev_timer l)) = LS_STOPPING) = (state (fsm l) = LS_STOPPING)"
    and "retransmits (fsm (fsm_do cb Ev_timer l)) = retransmits (fsm l) - 1"
    and "notices (fsm (fsm_do cb Ev_timer l)) = notices (fsm l)"
    and "flags (fsm (fsm_do cb Ev_timer l)) = flags (fsm l)"
  using assms
  by (cases "state (fsm l)"; simp add: fsm_do_def admin_defs waits_def frame Let_def)+

text \<open>The frame that \<^verbatim>\<open>fsm_sdata\<close> appends carries the code and the id.\<close>

lemma sdata_last:
  "last (out (fsm_sdata code i data n l)) ! 4 = of_int code \<and>
   last (out (fsm_sdata code i data n l)) ! 5 = i"
  by (simp add: fsm_sdata_def Let_def)

lemma sconfreq_last:
  assumes "callbacks_ok cb"
  shows "last (out (fsm_sconfreq cb r l)) ! 4 = 1 \<and>
    last (out (fsm_sconfreq cb r l)) ! 5 = reqid (fsm (fsm_sconfreq cb r l))"
  using assms by (simp add: fsm_sconfreq_def Let_def frame case_prod_beta sdata_last)

lemma termreq_last:
  "last (out (send_termreq l)) ! 4 = 5 \<and>
   last (out (send_termreq l)) ! 5 = reqid (fsm (send_termreq l))"
  by (simp add: send_termreq_def Let_def frame sdata_last)

lemma timer_sends:
  assumes "callbacks_ok cb" and "waits (state (fsm l))" and "timer_on (fsm l)"
    and "0 < retransmits (fsm l)"
  shows "last (out (fsm_do cb Ev_timer l)) ! 4 =
           (if state (fsm l) \<in> {LS_CLOSING, LS_STOPPING} then 5 else 1) \<and>
         last (out (fsm_do cb Ev_timer l)) ! 5 = reqid (fsm (fsm_do cb Ev_timer l))"
proof (cases "state (fsm l) \<in> {LS_CLOSING, LS_STOPPING}")
  case True
  then have "fsm_do cb Ev_timer l = send_termreq (UNTIMEOUT l)"
    using assms(3,4) by (simp add: fsm_do_def fsm_timer_fires_def fsm_timeout_def fsm_UNTIMEOUT)
  with True termreq_last show ?thesis by simp
next
  case False
  define l1 where "l1 = fsm_sconfreq cb True (call (cb_retransmit cb) (UNTIMEOUT l))"
  have "fsm_do cb Ev_timer l = (if state (fsm l1) = LS_ACKRCVD then set_state LS_REQSENT l1 else l1)"
    using False assms(2-4)
    by (auto simp: fsm_do_def fsm_timer_fires_def fsm_timeout_def fsm_UNTIMEOUT waits_def Let_def l1_def)
  with False sconfreq_last [OF assms(1)] show ?thesis by (simp add: l1_def)
qed

text \<open>What holds while the restart counter runs down.\<close>

definition waiting_still :: "'e link \<Rightarrow> nat \<Rightarrow> 'e link \<Rightarrow> bool" where
  "waiting_still l k l' \<longleftrightarrow>
     waits (state (fsm l')) \<and> timer_on (fsm l') \<and>
     (state (fsm l') = LS_CLOSING) = (state (fsm l) = LS_CLOSING) \<and>
     (state (fsm l') = LS_STOPPING) = (state (fsm l) = LS_STOPPING) \<and>
     retransmits (fsm l') = retransmits (fsm l) - int k \<and>
     notices (fsm l') = notices (fsm l) \<and> flags (fsm l') = flags (fsm l)"

lemma timer_steps:
  assumes "callbacks_ok cb" and "timers_ok cb" and "waits (state (fsm l))" and "timer_on (fsm l)"
    and "k \<le> nat (retransmits (fsm l))"
  shows "waiting_still l k ((fsm_do cb Ev_timer ^^ k) l)"
  using assms(5)
proof (induction k)
  case 0
  then show ?case using assms(3,4) by (simp add: waiting_still_def)
next
  case (Suc k)
  let ?l = "(fsm_do cb Ev_timer ^^ k) l"
  have "waiting_still l k ?l" using Suc by simp
  moreover have "0 < retransmits (fsm ?l)"
    using Suc.prems calculation by (simp add: waiting_still_def)
  ultimately show ?case
    using timer_again [OF assms(1,2), of ?l] by (simp add: waiting_still_def)
qed

lemma timer_steps_send:
  assumes "callbacks_ok cb" and "timers_ok cb" and "waits (state (fsm l))" and "timer_on (fsm l)"
    and "0 < k" and "k \<le> nat (retransmits (fsm l))"
  shows "last (out ((fsm_do cb Ev_timer ^^ k) l)) ! 4 =
           (if state (fsm l) \<in> {LS_CLOSING, LS_STOPPING} then 5 else 1)"
    and "last (out ((fsm_do cb Ev_timer ^^ k) l)) ! 5 = reqid (fsm ((fsm_do cb Ev_timer ^^ k) l))"
proof -
  obtain j where j: "k = Suc j" using assms(5) by (cases k) auto
  let ?l = "(fsm_do cb Ev_timer ^^ j) l"
  have w: "waiting_still l j ?l" using timer_steps [OF assms(1-4)] assms(6) j by simp
  then have "0 < retransmits (fsm ?l)" using assms(6) j by (simp add: waiting_still_def)
  with w timer_sends [OF assms(1), of ?l] show
    "last (out ((fsm_do cb Ev_timer ^^ k) l)) ! 4 =
       (if state (fsm l) \<in> {LS_CLOSING, LS_STOPPING} then 5 else 1)"
    "last (out ((fsm_do cb Ev_timer ^^ k) l)) ! 5 = reqid (fsm ((fsm_do cb Ev_timer ^^ k) l))"
    by (simp_all add: j waiting_still_def)
qed

lemma timer_steps_end:
  assumes "callbacks_ok cb" and "timers_ok cb" and "waits (state (fsm l))" and "timer_on (fsm l)"
  defines "l' \<equiv> (fsm_do cb Ev_timer ^^ Suc (nat (retransmits (fsm l)))) l"
  shows "state (fsm l') = (if state (fsm l) = LS_CLOSING then LS_CLOSED else LS_STOPPED) \<and>
    \<not> timer_on (fsm l') \<and>
    notices (fsm l') =
      (if flags (fsm l) AND OPT_PASSIVE \<noteq> 0 \<and> state (fsm l) \<notin> {LS_CLOSING, LS_STOPPING}
       then notices (fsm l) else Finished # notices (fsm l))"
proof -
  let ?l = "(fsm_do cb Ev_timer ^^ nat (retransmits (fsm l))) l"
  have w: "waiting_still l (nat (retransmits (fsm l))) ?l" by (rule timer_steps [OF assms(1-4) le_refl])
  then have "retransmits (fsm ?l) \<le> 0" by (simp add: waiting_still_def)
  with w timer_last [OF assms(1), of ?l] show ?thesis by (simp add: l'_def waiting_still_def)
qed

section \<open>Properties\<close>

text \<open>Concrete links and callbacks for the instances below.\<close>

definition plain_callbacks :: "nat fsm_callbacks" where
  "plain_callbacks = \<lparr>cb_resetci = None, cb_cilen = None, cb_addci = None, cb_ackci = None,
     cb_nakci = Some (\<lambda>l inp. (l, 1)), cb_rejci = None, cb_reqci = None,
     cb_up = Some (\<lambda>l. l\<lparr>env := env l + 1\<rparr>), cb_down = Some (\<lambda>l. l\<lparr>env := env l + 1\<rparr>),
     cb_starting = None, cb_finished = None, cb_retransmit = None, cb_extcode = None\<rparr>"

definition plain_link :: "ls \<Rightarrow> int \<Rightarrow> nat link" where
  "plain_link s n = \<lparr>fsm = \<lparr>protocol = 0xc021, state = s, flags = 0, cur_id = 1, reqid = 1,
     seen_ack = False, timeouttime = 6, maxconfreqtransmits = 10, retransmits = n,
     maxtermtransmits = 2, nakloops = 0, maxnakloops = 5, term_reason = None, term_reason_len = 0,
     timer_on = False, notices = []\<rparr>, peer_mru = 1500, out = [], timeo_left = 3, env = 0\<rparr>"

lemma plain_ok: "callbacks_ok plain_callbacks" "timers_ok plain_callbacks"
  by (auto simp: callbacks_ok_def timers_ok_def plain_callbacks_def)



text \<open>Property C4: if the peer stays silent, a waiting automaton repeats its request exactly as
  often as the restart counter says and then gives up.  Let \<open>r\<close> be the counter of an automaton
  that waits with its timer pending.  After each of the first \<open>r\<close> expirations it still waits,
  with the timer pending again and the counter one lower, it has told the upper layer nothing,
  and the last frame it sent is a Configure-Request, or a Terminate-Request when it is closing,
  with the current request id.  After one more it is Closed or Stopped, has no timer, and has
  told the upper layer \<open>Finished\<close>, unless it was negotiating with \<^verbatim>\<open>OPT_PASSIVE\<close> set.  The
  callbacks do not call back into the automaton and do not take the last element of the timer
  pool.\<close>

theorem fsm_timeouts_terminate:
  assumes "callbacks_ok cb" and "timers_ok cb" and "waits (state (fsm l))" and "timer_on (fsm l)"
  defines "r \<equiv> nat (retransmits (fsm l))"
    and "after_timeouts \<equiv> \<lambda>k. (fsm_do cb Ev_timer ^^ k) l"
  shows "(\<forall>k \<le> r. waits (state (fsm (after_timeouts k))) \<and> timer_on (fsm (after_timeouts k)) \<and>
        retransmits (fsm (after_timeouts k)) = retransmits (fsm l) - int k \<and>
        notices (fsm (after_timeouts k)) = notices (fsm l)) \<and>
    (\<forall>k \<in> {1..r}. last (out (after_timeouts k)) ! 4 =
          (if state (fsm l) \<in> {LS_CLOSING, LS_STOPPING} then 5 else 1) \<and>
        last (out (after_timeouts k)) ! 5 = reqid (fsm (after_timeouts k))) \<and>
    state (fsm (after_timeouts (Suc r))) =
      (if state (fsm l) = LS_CLOSING then LS_CLOSED else LS_STOPPED) \<and>
    \<not> timer_on (fsm (after_timeouts (Suc r))) \<and>
    notices (fsm (after_timeouts (Suc r))) =
      (if flags (fsm l) AND OPT_PASSIVE \<noteq> 0 \<and> state (fsm l) \<notin> {LS_CLOSING, LS_STOPPING}
       then notices (fsm l) else Finished # notices (fsm l))"
proof (intro conjI)
  show "\<forall>k \<le> r. waits (state (fsm (after_timeouts k))) \<and> timer_on (fsm (after_timeouts k)) \<and>
      retransmits (fsm (after_timeouts k)) = retransmits (fsm l) - int k \<and>
      notices (fsm (after_timeouts k)) = notices (fsm l)"
    using timer_steps [OF assms(1-4)] by (simp add: waiting_still_def r_def after_timeouts_def)
  show "\<forall>k \<in> {1..r}. last (out (after_timeouts k)) ! 4 =
        (if state (fsm l) \<in> {LS_CLOSING, LS_STOPPING} then 5 else 1) \<and>
      last (out (after_timeouts k)) ! 5 = reqid (fsm (after_timeouts k))"
    unfolding r_def after_timeouts_def
    by (intro ballI conjI timer_steps_send [OF assms(1-4)]) simp_all
qed (use timer_steps_end [OF assms(1-4)] in \<open>simp_all add: r_def after_timeouts_def del: funpow.simps\<close>)

definition waiting_link :: "int \<Rightarrow> nat link" where
  "waiting_link n = TIMEOUT (plain_link LS_REQSENT n)"

lemma waiting_link [simp]:
  "state (fsm (waiting_link n)) = LS_REQSENT" "timer_on (fsm (waiting_link n))"
  "retransmits (fsm (waiting_link n)) = n" "flags (fsm (waiting_link n)) = 0"
  "notices (fsm (waiting_link n)) = []"
  by (simp_all add: waiting_link_def plain_link_def frame)

lemma fsm_timeouts_terminate_witness:
  "state (fsm ((fsm_do plain_callbacks Ev_timer ^^ 11) (waiting_link 10))) = LS_STOPPED \<and>
   notices (fsm ((fsm_do plain_callbacks Ev_timer ^^ 11) (waiting_link 10))) = [Finished]"
  using fsm_timeouts_terminate [OF plain_ok, of "waiting_link 10"]
  by (simp add: waits_def del: funpow.simps)

text \<open>Property C5: an automaton never waits for ever.  In every run in which the pool
  \<^verbatim>\<open>MEMP_SYS_TIMEOUT\<close> has an element whenever an event comes that finds the automaton's
  timer not pending, whatever the rest of the stack does with the pool between the events, the
  restart timer is pending whenever the state is one that waits for the peer.  The callbacks do
  not call back into the automaton and do not take the last element of the pool.\<close>

theorem fsm_never_stuck:
  assumes "callbacks_ok cb" and "timers_ok cb"
    and "fsm_run cb (\<lambda>ev l. timer_on (fsm l) \<or> 0 < timeo_left l) l"
    and "state (fsm l) \<in> {LS_CLOSING, LS_STOPPING, LS_REQSENT, LS_ACKRCVD, LS_ACKSENT}"
  shows "timer_on (fsm l)"
proof -
  have "fsm_run cb (\<lambda>ev. can_arm) l" using assms(3) by (simp only: can_arm_def [abs_def])
  then have "timer_ok (fsm l)" by (rule fsm_run_timer_ok [OF assms(1,2)])
  with assms(4) show ?thesis by (auto simp: timer_ok_def waits_def)
qed

definition starting_link :: "nat link" where
  "starting_link = fsm_do plain_callbacks Ev_open (fsm_init (plain_link LS_CLOSED 0))"

lemma plain_run:
  assumes "allowed Ev_open (fsm_init (plain_link LS_CLOSED 0))" and "allowed Ev_lowerup starting_link"
  shows "fsm_run plain_callbacks allowed (fsm_do plain_callbacks Ev_lowerup starting_link)"
  using assms unfolding starting_link_def
  by (intro fsm_run.intros(1,2)) (simp_all add: plain_link_def)

lemma starting_link:
  "fsm starting_link = (fsm (fsm_init (plain_link LS_CLOSED 0)))\<lparr>state := LS_STARTING, notices := [Starting]\<rparr>"
  "timeo_left starting_link = 3"
  by (simp_all add: starting_link_def fsm_do_def fsm_open_def fsm_init_def plain_link_def frame
      plain_ok notify_def call_def plain_callbacks_def)

lemma fsm_never_stuck_witness:
  "timer_on (fsm (fsm_do plain_callbacks Ev_lowerup starting_link))"
proof (rule fsm_never_stuck [OF plain_ok plain_run])
  show "state (fsm (fsm_do plain_callbacks Ev_lowerup starting_link))
      \<in> {LS_CLOSING, LS_STOPPING, LS_REQSENT, LS_ACKRCVD, LS_ACKSENT}"
    by (simp add: fsm_do_def fsm_lowerup_def starting_link fsm_init_def frame plain_ok)
qed (simp_all add: starting_link, simp_all add: plain_link_def fsm_init_def)

text \<open>With the pool empty the automaton does get stuck: an Open in Closed then sends its request
  and waits in Req-Sent with no timer.\<close>

lemma sconfreq_not_armed:
  assumes "state (fsm l) = LS_CLOSED" and "\<not> timer_on (fsm l)" and "timeo_left l = 0"
    and "cb_resetci cb = None" and r: "\<And>l'. request_options cb l' = (l', [])"
  shows "\<not> sconfreq_armed cb False l"
  unfolding sconfreq_armed_def fsm_sconfreq_def Let_def r prod.case fsm_TIMEOUT
  using assms(1-4) by (simp add: call_def fsm_fsm_sdata)

lemma fsm_stuck_without_timer:
  assumes "callbacks_ok cb" and "state (fsm l) = LS_CLOSED" and "flags (fsm l) AND OPT_SILENT = 0"
    and "\<not> timer_on (fsm l)" and "timeo_left l = 0"
    and "cb_resetci cb = None" and "cb_addci cb = None"
  shows "state (fsm (fsm_open cb l)) = LS_REQSENT \<and> \<not> timer_on (fsm (fsm_open cb l))"
proof -
  have "request_options cb l' = (l', [])" for l'
    using assms(7) by (simp add: request_options_def split: option.split)
  from sconfreq_not_armed [OF assms(2,4,5,6) this] assms(1-3) show ?thesis
    by (simp add: fsm_open_def fsm_fsm_sconfreq)
qed

lemma fsm_stuck_without_timer_witness:
  "\<exists>l :: nat link. state (fsm (fsm_open (plain_callbacks\<lparr>cb_nakci := None\<rparr>) l)) = LS_REQSENT \<and>
     \<not> timer_on (fsm (fsm_open (plain_callbacks\<lparr>cb_nakci := None\<rparr>) l))"
proof (rule exI)
  let ?l = "(plain_link LS_CLOSED 0)\<lparr>timeo_left := 0\<rparr>"
  show "state (fsm (fsm_open (plain_callbacks\<lparr>cb_nakci := None\<rparr>) ?l)) = LS_REQSENT \<and>
     \<not> timer_on (fsm (fsm_open (plain_callbacks\<lparr>cb_nakci := None\<rparr>) ?l))"
    by (rule fsm_stuck_without_timer)
      (auto simp: callbacks_ok_def plain_callbacks_def plain_link_def)
qed

text \<open>The upper layer is told \<open>Up\<close> when and only when the automaton opens, and
  \<open>Down\<close> when it leaves Opened: in every run without a Terminate-Ack in the state Opened, it
  has been told \<open>Up\<close> once more than \<open>Down\<close> if the state is Opened, and equally often otherwise.\<close>

lemma fsm_up_down_balanced:
  assumes "callbacks_ok cb" and "fsm_run cb no_stray_termack l"
  shows "count_list (notices (fsm l)) Up =
         count_list (notices (fsm l)) Down + (if state (fsm l) = LS_OPENED then 1 else 0)"
  using fsm_run_notices_ok [OF assms] by (simp add: notices_ok_def)

lemma fsm_up_down_balanced_witness:
  "count_list (notices (fsm (fsm_do plain_callbacks Ev_lowerup starting_link))) Up = 0"
proof -
  have "fsm_run plain_callbacks no_stray_termack (fsm_do plain_callbacks Ev_lowerup starting_link)"
    by (rule plain_run) (simp_all add: no_stray_termack_def)
  from fsm_up_down_balanced [OF plain_ok(1) this] show ?thesis
    by (simp add: fsm_do_def fsm_lowerup_def starting_link fsm_init_def frame plain_ok)
qed

text \<open>A Terminate-Ack in the state Opened takes the layer above down and sends a
  Configure-Request, but leaves the state Opened, where the restart timer it starts does
  nothing when it fires; the table says Req-Sent.\<close>

lemma fsm_rtermack_opened:
  assumes "callbacks_ok cb" and "state (fsm l) = LS_OPENED"
  shows "state (fsm (fsm_rtermack cb l)) = LS_OPENED \<and> rfc1661 Rfc_RTA (state (fsm l)) = LS_REQSENT \<and>
     notices (fsm (fsm_rtermack cb l)) = Down # notices (fsm l) \<and>
     fsm_timer_fires cb (fsm_rtermack cb l) = UNTIMEOUT (fsm_rtermack cb l)"
  using assms by (simp add: fsm_rtermack_def fsm_timer_fires_def fsm_timeout_def frame)

lemma fsm_rtermack_opened_witness:
  "state (fsm (fsm_rtermack plain_callbacks (plain_link LS_OPENED 1))) = LS_OPENED"
  using fsm_rtermack_opened [OF plain_ok(1), of "plain_link LS_OPENED 1"] by (simp add: plain_link_def)

text \<open>Every frame \<^verbatim>\<open>fsm_sdata\<close> sends fits in the peer's MRU and is accepted by the
  header check of \<^verbatim>\<open>fsm_input\<close>, with the code and id it was sent with and the bytes of the
  data that fit.\<close>

lemma fsm_sdata_accepted:
  assumes "4 \<le> peer_mru l" and "peer_mru l < 65536" and "0 \<le> n" and "n \<le> int (length data)"
  shows "\<exists>frm. out (fsm_sdata code i data n l) = out l @ [frm] \<and>
      int (length frm) - 4 \<le> peer_mru l \<and>
      fsm_header (drop 4 frm) = Some (of_int code, i, int (length frm) - 4) \<and>
      drop 8 frm = take (nat (min n (peer_mru l - 4))) data"
proof -
  define m where "m = min n (peer_mru l - 4)"
  have m: "0 \<le> m" "m \<le> int (length data)" "m + 4 < 65536" using assms by (auto simp: m_def)
  have "(m + 4) div 256 < 256" using m(3) by linarith
  then have b: "uint (of_int ((m + 4) div 256) :: u8) = (m + 4) div 256"
    using m(1) by (simp add: uint_word_of_int)
  have a: "uint (of_int (m + 4) :: u8) = (m + 4) mod 256"
    unfolding uint_word_of_int by simp
  define frm where "frm = [0xff, 0x03, ucast (drop_bit 8 (protocol (fsm l))), ucast (protocol (fsm l)),
      of_int code, i, of_int ((m + 4) div 256), of_int (m + 4)] @ take (nat m) data"
  have out: "out (fsm_sdata code i data n l) = out l @ [frm]"
    by (auto simp: fsm_sdata_def Let_def frm_def m_def min_def)
  have len: "int (length frm) = m + 8" using m(1,2) by (simp add: frm_def)
  have "256 * uint (of_int ((m + 4) div 256) :: u8) + uint (of_int (m + 4) :: u8) = m + 4"
    unfolding a b by simp
  then have "fsm_header (drop 4 frm) = Some (of_int code, i, int (length frm) - 4)"
    using m len by (simp add: fsm_header_def frm_def Let_def)
  moreover have "int (length frm) - 4 \<le> peer_mru l" using len by (simp add: m_def)
  moreover have "drop 8 frm = take (nat (min n (peer_mru l - 4))) data" by (simp add: frm_def m_def)
  ultimately show ?thesis using out by blast
qed

lemma fsm_sdata_accepted_witness:
  "\<exists>frm. out (fsm_sdata CONFACK 9 [1, 2] 2 (plain_link LS_REQSENT 1)) = [frm] \<and> int (length frm) - 4 \<le> 1500 \<and>
     fsm_header (drop 4 frm) = Some (2, 9, int (length frm) - 4) \<and> drop 8 frm = [1, 2]"
  using fsm_sdata_accepted [of "plain_link LS_REQSENT 1" 2 "[1, 2]" CONFACK 9]
  by (simp add: plain_link_def)

end
