(* ===== verification/Md5.thy ===== *)
theory Md5
  imports Prelude
begin

text \<open>
  \<^verbatim>\<open>lwip/src/netif/ppp/md5.c\<close>, the digest that CHAP uses.  The block of sixteen words and the buffer are
  lists; the four chaining variables are a tuple.
\<close>

section \<open>The code\<close>

definition F :: "u32 \<Rightarrow> u32 \<Rightarrow> u32 \<Rightarrow> u32" where "F x y z = (x AND y) OR ((NOT x) AND z)"

definition G :: "u32 \<Rightarrow> u32 \<Rightarrow> u32 \<Rightarrow> u32" where "G x y z = (x AND z) OR (y AND (NOT z))"

definition H :: "u32 \<Rightarrow> u32 \<Rightarrow> u32 \<Rightarrow> u32" where "H x y z = (x XOR y) XOR z"

definition I :: "u32 \<Rightarrow> u32 \<Rightarrow> u32 \<Rightarrow> u32" where "I x y z = y XOR (x OR (NOT z))"

definition ROTATE_LEFT :: "u32 \<Rightarrow> nat \<Rightarrow> u32" where
  "ROTATE_LEFT x n = push_bit n x OR drop_bit (32 - n) x"

text \<open>The macros \<^verbatim>\<open>FF\<close> to \<^verbatim>\<open>II\<close> differ in the function \<open>f\<close>.\<close>

definition step_macro :: "(u32 \<Rightarrow> u32 \<Rightarrow> u32 \<Rightarrow> u32) \<Rightarrow> u32 \<Rightarrow> u32 \<Rightarrow> u32 \<Rightarrow> u32 \<Rightarrow> u32 \<Rightarrow> nat \<Rightarrow> u32 \<Rightarrow> u32" where
  "step_macro f a b c d x s ac =
     (let a = a + (f b c d + x + ac); a = ROTATE_LEFT a s in a + b)"

abbreviation S11 :: nat where "S11 \<equiv> 7"

abbreviation S12 :: nat where "S12 \<equiv> 12"

abbreviation S13 :: nat where "S13 \<equiv> 17"

abbreviation S14 :: nat where "S14 \<equiv> 22"

abbreviation S21 :: nat where "S21 \<equiv> 5"

abbreviation S22 :: nat where "S22 \<equiv> 9"

abbreviation S23 :: nat where "S23 \<equiv> 14"

abbreviation S24 :: nat where "S24 \<equiv> 20"

abbreviation S31 :: nat where "S31 \<equiv> 4"

abbreviation S32 :: nat where "S32 \<equiv> 11"

abbreviation S33 :: nat where "S33 \<equiv> 16"

abbreviation S34 :: nat where "S34 \<equiv> 23"

abbreviation S41 :: nat where "S41 \<equiv> 6"

abbreviation S42 :: nat where "S42 \<equiv> 10"

abbreviation S43 :: nat where "S43 \<equiv> 15"

abbreviation S44 :: nat where "S44 \<equiv> 21"

text \<open>The calls of the macros in \<^verbatim>\<open>Transform\<close>: the macro, its first argument (which it assigns; the others
  follow it in the order \<^verbatim>\<open>a, b, c, d, a, b, c\<close>), the index into \<^verbatim>\<open>in\<close>, the shift and the constant.\<close>

datatype macro = FF | GG | HH | II

datatype reg = Ra | Rb | Rc | Rd

type_synonym call = "macro \<times> reg \<times> nat \<times> nat \<times> u32"

fun macro_fun :: "macro \<Rightarrow> u32 \<Rightarrow> u32 \<Rightarrow> u32 \<Rightarrow> u32" where
  "macro_fun FF = F" | "macro_fun GG = G" | "macro_fun HH = H" | "macro_fun II = I"

type_synonym regs = "u32 \<times> u32 \<times> u32 \<times> u32"

fun run_call :: "u32 list \<Rightarrow> call \<Rightarrow> regs \<Rightarrow> regs" where
  "run_call x (m, Ra, k, s, ac) (a, b, c, d) = (step_macro (macro_fun m) a b c d (x ! k) s ac, b, c, d)"
| "run_call x (m, Rb, k, s, ac) (a, b, c, d) = (a, step_macro (macro_fun m) b c d a (x ! k) s ac, c, d)"
| "run_call x (m, Rc, k, s, ac) (a, b, c, d) = (a, b, step_macro (macro_fun m) c d a b (x ! k) s ac, d)"
| "run_call x (m, Rd, k, s, ac) (a, b, c, d) = (a, b, c, step_macro (macro_fun m) d a b c (x ! k) s ac)"

definition transform_calls :: "call list" where
  "transform_calls =
    [(FF, Ra, 0, S11, 3614090360), (FF, Rd, 1, S12, 3905402710),
     (FF, Rc, 2, S13, 606105819), (FF, Rb, 3, S14, 3250441966),
     (FF, Ra, 4, S11, 4118548399), (FF, Rd, 5, S12, 1200080426),
     (FF, Rc, 6, S13, 2821735955), (FF, Rb, 7, S14, 4249261313),
     (FF, Ra, 8, S11, 1770035416), (FF, Rd, 9, S12, 2336552879),
     (FF, Rc, 10, S13, 4294925233), (FF, Rb, 11, S14, 2304563134),
     (FF, Ra, 12, S11, 1804603682), (FF, Rd, 13, S12, 4254626195),
     (FF, Rc, 14, S13, 2792965006), (FF, Rb, 15, S14, 1236535329),
     (GG, Ra, 1, S21, 4129170786), (GG, Rd, 6, S22, 3225465664),
     (GG, Rc, 11, S23, 643717713), (GG, Rb, 0, S24, 3921069994),
     (GG, Ra, 5, S21, 3593408605), (GG, Rd, 10, S22, 38016083),
     (GG, Rc, 15, S23, 3634488961), (GG, Rb, 4, S24, 3889429448),
     (GG, Ra, 9, S21, 568446438), (GG, Rd, 14, S22, 3275163606),
     (GG, Rc, 3, S23, 4107603335), (GG, Rb, 8, S24, 1163531501),
     (GG, Ra, 13, S21, 2850285829), (GG, Rd, 2, S22, 4243563512),
     (GG, Rc, 7, S23, 1735328473), (GG, Rb, 12, S24, 2368359562),
     (HH, Ra, 5, S31, 4294588738), (HH, Rd, 8, S32, 2272392833),
     (HH, Rc, 11, S33, 1839030562), (HH, Rb, 14, S34, 4259657740),
     (HH, Ra, 1, S31, 2763975236), (HH, Rd, 4, S32, 1272893353),
     (HH, Rc, 7, S33, 4139469664), (HH, Rb, 10, S34, 3200236656),
     (HH, Ra, 13, S31, 681279174), (HH, Rd, 0, S32, 3936430074),
     (HH, Rc, 3, S33, 3572445317), (HH, Rb, 6, S34, 76029189),
     (HH, Ra, 9, S31, 3654602809), (HH, Rd, 12, S32, 3873151461),
     (HH, Rc, 15, S33, 530742520), (HH, Rb, 2, S34, 3299628645),
     (II, Ra, 0, S41, 4096336452), (II, Rd, 7, S42, 1126891415),
     (II, Rc, 14, S43, 2878612391), (II, Rb, 5, S44, 4237533241),
     (II, Ra, 12, S41, 1700485571), (II, Rd, 3, S42, 2399980690),
     (II, Rc, 10, S43, 4293915773), (II, Rb, 1, S44, 2240044497),
     (II, Ra, 8, S41, 1873313359), (II, Rd, 15, S42, 4264355552),
     (II, Rc, 6, S43, 2734768916), (II, Rb, 13, S44, 1309151649),
     (II, Ra, 4, S41, 4149444226), (II, Rd, 11, S42, 3174756917),
     (II, Rc, 2, S43, 718787259), (II, Rb, 9, S44, 3951481745)]"

definition Transform :: "regs \<Rightarrow> u32 list \<Rightarrow> regs" where
  "Transform buf x =
     (case buf of (b0, b1, b2, b3) \<Rightarrow>
        (case fold (run_call x) transform_calls buf of (a, b, c, d) \<Rightarrow> (b0 + a, b1 + b, b2 + c, b3 + d)))"

record MD5_CTX =
  md_i :: "u32 \<times> u32"
  md_buf :: regs
  md_in :: "u8 list"
  md_digest :: "u8 list"

definition PADDING :: "u8 list" where "PADDING = 0x80 # replicate 63 0"

definition MD5Init :: "MD5_CTX \<Rightarrow> MD5_CTX" where
  "MD5Init ctx = ctx\<lparr>md_i := (0, 0), md_buf := (0x67452301, 0xefcdab89, 0x98badcfe, 0x10325476)\<rparr>"

text \<open>Word \<open>i\<close> of the input buffer.\<close>

definition in_word :: "u8 list \<Rightarrow> nat \<Rightarrow> u32" where
  "in_word bs i =
     (let ii = 4 * i
      in ((push_bit 24 (ucast (bs ! (ii + 3))) OR push_bit 16 (ucast (bs ! (ii + 2)))) OR
         push_bit 8 (ucast (bs ! (ii + 1)))) OR ucast (bs ! ii))"

fun update_loop :: "u8 list \<Rightarrow> nat \<Rightarrow> MD5_CTX \<Rightarrow> MD5_CTX" where
  "update_loop [] mdi ctx = ctx"
| "update_loop (x # xs) mdi ctx =
     (let ctx = ctx\<lparr>md_in := (md_in ctx)[mdi := x]\<rparr>; mdi = mdi + 1
      in if mdi = 64
         then update_loop xs 0 (ctx\<lparr>md_buf := Transform (md_buf ctx) (map (in_word (md_in ctx)) [0..<16])\<rparr>)
         else update_loop xs mdi ctx)"

text \<open>\<open>in_buf\<close> are the \<^verbatim>\<open>inLen\<close> bytes at \<^verbatim>\<open>inBuf\<close>.\<close>

definition MD5Update :: "u8 list \<Rightarrow> MD5_CTX \<Rightarrow> MD5_CTX" where
  "MD5Update in_buf ctx =
     (let inLen = of_nat (length in_buf) :: u32; (i0, i1) = md_i ctx;
          mdi = unat (drop_bit 3 i0 AND 0x3F);
          i1 = (if i0 + push_bit 3 inLen < i0 then i1 + 1 else i1)
      in update_loop in_buf mdi (ctx\<lparr>md_i := (i0 + push_bit 3 inLen, i1 + drop_bit 29 inLen)\<rparr>))"

definition word_bytes :: "u32 \<Rightarrow> u8 list" where
  "word_bytes w = [ucast (w AND 0xFF), ucast (drop_bit 8 w AND 0xFF), ucast (drop_bit 16 w AND 0xFF),
     ucast (drop_bit 24 w AND 0xFF)]"

definition MD5Final :: "MD5_CTX \<Rightarrow> u8 list \<times> MD5_CTX" where
  "MD5Final ctx =
     (let (in14, in15) = md_i ctx;
          mdi = unat (drop_bit 3 (fst (md_i ctx)) AND 0x3F);
          padLen = (if mdi < 56 then 56 - mdi else 120 - mdi);
          ctx = MD5Update (take padLen PADDING) ctx;
          x = map (in_word (md_in ctx)) [0..<14] @ [in14, in15];
          ctx = ctx\<lparr>md_buf := Transform (md_buf ctx) x\<rparr>;
          digest = (case md_buf ctx of (a, b, c, d) \<Rightarrow> word_bytes a @ word_bytes b @ word_bytes c @ word_bytes d)
      in (digest, ctx\<lparr>md_digest := digest\<rparr>))"

end
