(* ===== verification/Md5_Spec.thy ===== *)
theory Md5_Spec
  imports Md5
begin

text \<open>
  MD5 as RFC 1321 defines it, and the proof that \<^verbatim>\<open>md5.c\<close> computes it for everything it was given,
  however that was cut into pieces.
\<close>

section \<open>RFC 1321\<close>

definition rfc_T :: "u32 list" where
  "rfc_T =
    [0xd76aa478, 0xe8c7b756, 0x242070db, 0xc1bdceee, 0xf57c0faf, 0x4787c62a, 0xa8304613, 0xfd469501,
     0x698098d8, 0x8b44f7af, 0xffff5bb1, 0x895cd7be, 0x6b901122, 0xfd987193, 0xa679438e, 0x49b40821,
     0xf61e2562, 0xc040b340, 0x265e5a51, 0xe9b6c7aa, 0xd62f105d, 0x02441453, 0xd8a1e681, 0xe7d3fbc8,
     0x21e1cde6, 0xc33707d6, 0xf4d50d87, 0x455a14ed, 0xa9e3e905, 0xfcefa3f8, 0x676f02d9, 0x8d2a4c8a,
     0xfffa3942, 0x8771f681, 0x6d9d6122, 0xfde5380c, 0xa4beea44, 0x4bdecfa9, 0xf6bb4b60, 0xbebfbc70,
     0x289b7ec6, 0xeaa127fa, 0xd4ef3085, 0x04881d05, 0xd9d4d039, 0xe6db99e5, 0x1fa27cf8, 0xc4ac5665,
     0xf4292244, 0x432aff97, 0xab9423a7, 0xfc93a039, 0x655b59c3, 0x8f0ccc92, 0xffeff47d, 0x85845dd1,
     0x6fa87e4f, 0xfe2ce6e0, 0xa3014314, 0x4e0811a1, 0xf7537e82, 0xbd3af235, 0x2ad7d2bb, 0xeb86d391]"

text \<open>Step \<open>i\<close> of the four rounds: the auxiliary function, the word of the block and the rotation.\<close>

definition rfc_f :: "nat \<Rightarrow> u32 \<Rightarrow> u32 \<Rightarrow> u32 \<Rightarrow> u32" where
  "rfc_f i x y z =
     (if i < 16 then (x AND y) OR ((NOT x) AND z)
      else if i < 32 then (x AND z) OR (y AND (NOT z))
      else if i < 48 then x XOR y XOR z else y XOR (x OR (NOT z)))"

definition rfc_k :: "nat \<Rightarrow> nat" where
  "rfc_k i = (if i < 16 then i else if i < 32 then 5 * i + 1 else if i < 48 then 3 * i + 5 else 7 * i) mod 16"

definition rfc_s :: "nat \<Rightarrow> nat" where
  "rfc_s i = (if i < 16 then [7, 12, 17, 22] else if i < 32 then [5, 9, 14, 20]
     else if i < 48 then [4, 11, 16, 23] else [6, 10, 15, 21]) ! (i mod 4)"

fun rfc_step :: "u32 list \<Rightarrow> nat \<Rightarrow> regs \<Rightarrow> regs" where
  "rfc_step X i (a, b, c, d) =
     (d, b + word_rotl (rfc_s i) (a + rfc_f i b c d + X ! rfc_k i + rfc_T ! i), b, c)"

definition rfc_block :: "regs \<Rightarrow> u32 list \<Rightarrow> regs" where
  "rfc_block r X =
     (case (r, fold (rfc_step X) [0..<64] r) of ((a, b, c, d), (a', b', c', d')) \<Rightarrow> (a + a', b + b', c + c', d + d'))"

definition le_word :: "u8 list \<Rightarrow> nat \<Rightarrow> u32" where
  "le_word bs i = of_nat (\<Sum>j<4. unat (bs ! (4 * i + j)) * 256 ^ j)"

definition block_words :: "u8 list \<Rightarrow> u32 list" where
  "block_words bs = map (le_word bs) [0..<16]"

definition le_bytes :: "nat \<Rightarrow> nat \<Rightarrow> u8 list" where
  "le_bytes k n = map (\<lambda>j. of_nat (n div 256 ^ j)) [0..<k]"

definition rfc_pad :: "u8 list \<Rightarrow> u8 list" where
  "rfc_pad m = m @ [0x80] @ replicate ((119 - length m mod 64) mod 64) 0 @ le_bytes 8 (8 * length m)"

function rfc_blocks :: "regs \<Rightarrow> u8 list \<Rightarrow> regs" where
  "rfc_blocks r m = (if length m < 64 then r else rfc_blocks (rfc_block r (block_words (take 64 m))) (drop 64 m))"
  by pat_completeness auto

termination by (relation "measure (length o snd)") auto

declare rfc_blocks.simps [simp del]

definition md5 :: "u8 list \<Rightarrow> u8 list" where
  "md5 m =
     (case rfc_blocks (0x67452301, 0xefcdab89, 0x98badcfe, 0x10325476) (rfc_pad m) of
        (a, b, c, d) \<Rightarrow> concat (map (\<lambda>w. le_bytes 4 (unat w)) [a, b, c, d]))"

section \<open>The block transformation\<close>

lemma ROTATE_LEFT_rotl:
  assumes "0 < n" "n < 32"
  shows "ROTATE_LEFT x n = word_rotl n x"
proof (rule bit_word_eqI)
  fix k assume "k < LENGTH(32)"
  then have k: "k < 32" by simp
  have r: "bit (word_rotl n x) k = bit x ((k + (32 - n)) mod 32)"
    using assms k unfolding bit_word_rotl_iff by simp
  show "bit (ROTATE_LEFT x n) k = bit (word_rotl n x) k"
  proof (cases "k < n")
    case True
    then have "(k + (32 - n)) mod 32 = k + (32 - n)" using assms by simp
    with True k show ?thesis unfolding r by (simp add: ROTATE_LEFT_def bit_simps add.commute)
  next
    case False
    then have "k + (32 - n) = (k - n) + 32" using assms by simp
    then have "(k + (32 - n)) mod 32 = k - n" using k by (simp only: mod_add_self2) simp
    moreover have "\<not> bit x (32 - n + k)" using False bit_imp_le_length [of x "32 - n + k"] assms by auto
    ultimately show ?thesis using False k unfolding r by (simp add: ROTATE_LEFT_def bit_simps)
  qed
qed

definition rfc_call :: "nat \<Rightarrow> call" where
  "rfc_call i = ([FF, GG, HH, II] ! (i div 16), [Ra, Rd, Rc, Rb] ! (i mod 4), rfc_k i, rfc_s i, rfc_T ! i)"

lemma upto64: "[0..<64] = [0, 1, 2, 3, 4, 5, 6, 7, 8, 9, 10, 11, 12, 13, 14, 15, 16, 17, 18, 19, 20, 21, 22, 23, 24, 25, 26,
    27, 28, 29, 30, 31, 32, 33, 34, 35, 36, 37, 38, 39, 40, 41, 42, 43, 44, 45, 46, 47, 48, 49, 50, 51, 52, 53, 54, 55, 56,
    57, 58, 59, 60, 61, 62, 63 :: nat]"
  by (simp add: upt_rec)

lemma transform_calls_rfc: "transform_calls = map rfc_call [0..<64]"
  by code_simp

text \<open>The registers of the code after \<open>i\<close> steps are those of the RFC rotated back.\<close>

fun unrotate :: "nat \<Rightarrow> regs \<Rightarrow> regs" where
  "unrotate i (a, b, c, d) =
     (if i mod 4 = 0 then (a, b, c, d) else if i mod 4 = 1 then (b, c, d, a)
      else if i mod 4 = 2 then (c, d, a, b) else (d, a, b, c))"

lemma macro_rfc: "i < 64 \<Longrightarrow> macro_fun ([FF, GG, HH, II] ! (i div 16)) = rfc_f i"
proof -
  assume "i < 64"
  then consider "i div 16 = 0" "i < 16" | "i div 16 = 1" "16 \<le> i" "i < 32" | "i div 16 = 2" "32 \<le> i" "i < 48"
    | "i div 16 = 3" "48 \<le> i" by linarith
  then show ?thesis by cases (simp_all add: fun_eq_iff F_def G_def H_def I_def rfc_f_def xor.assoc)
qed

lemma rfc_s_bounds: "0 < rfc_s i" "rfc_s i < 32"
proof -
  have "i mod 4 = 0 \<or> i mod 4 = 1 \<or> i mod 4 = 2 \<or> i mod 4 = 3" by presburger
  then show "0 < rfc_s i" "rfc_s i < 32" by (auto simp: rfc_s_def)
qed

lemma run_call_rfc: "i < 64 \<Longrightarrow> run_call X (rfc_call i) (unrotate i r) = unrotate (Suc i) (rfc_step X i r)"
proof -
  assume i: "i < 64"
  obtain a b c d where r: "r = (a, b, c, d)" by (cases r)
  have "i mod 4 = 0 \<or> i mod 4 = 1 \<or> i mod 4 = 2 \<or> i mod 4 = 3" by presburger
  then show ?thesis
    using rfc_s_bounds [of i] macro_rfc [OF i]
    by (elim disjE) (simp_all add: r rfc_call_def step_macro_def ROTATE_LEFT_rotl mod_Suc add_ac Let_def)
qed

lemma run_calls_rfc: "n \<le> 64 \<Longrightarrow> fold (run_call X) (map rfc_call [0..<n]) r = unrotate n (fold (rfc_step X) [0..<n] r)"
proof (induction n)
  case 0
  show ?case by (cases r) simp
next
  case (Suc n)
  then show ?case using run_call_rfc [of n X] by simp
qed

lemma Transform_rfc: "Transform r X = rfc_block r X"
proof -
  have "unrotate 64 x = x" for x by (cases x) simp
  then show ?thesis
    using run_calls_rfc [of 64 X r] unfolding Transform_def transform_calls_rfc rfc_block_def
    by (cases r; cases "fold (rfc_step X) [0..<64] r") simp
qed


section \<open>Words and bytes\<close>

lemma sum4: "(\<Sum>j<4::nat. f j) = f 0 + f 1 + f 2 + (f 3 :: nat)"
  by (simp add: eval_nat_numeral)

lemma in_word_le: "in_word bs i = le_word bs i"
proof -
  let ?b = "\<lambda>j. unat (bs ! (4 * i + j))"
  have p: "unat (push_bit 24 (ucast (b :: u8)) :: u32) = unat b * 16777216" "unat (push_bit 16 (ucast b) :: u32) = unat b * 65536"
    "unat (push_bit 8 (ucast b) :: u32) = unat b * 256" for b
    by (simp_all add: unat_push_byte unat_ucast_8_32)
  have "unat (in_word bs i) = ?b 3 * 16777216 + ?b 2 * 65536 + ?b 1 * 256 + ?b 0"
    unfolding in_word_def Let_def unsigned_or_eq p unat_ucast_8_32 by (subst or_bytes) simp_all
  then have "in_word bs i = of_nat (?b 3 * 16777216 + ?b 2 * 65536 + ?b 1 * 256 + ?b 0)"
    using u32_lt [of "in_word bs i"] by (simp only: word_unat_eq_iff unat_of_nat_u32 mod_less)
  also have "?b 3 * 16777216 + ?b 2 * 65536 + ?b 1 * 256 + ?b 0 = (\<Sum>j<4. ?b j * 256 ^ j)"
    by (subst sum4) simp
  finally show ?thesis by (simp only: le_word_def)
qed

lemma word_bytes_le: "word_bytes w = le_bytes 4 (unat w)"
proof -
  have "ucast (drop_bit k w AND 0xFF) = (of_nat (unat w div 2 ^ k) :: u8)" for k
    by (simp add: word_unat_eq_iff unat_ucast_32_8 unat_and_ff_u32 unat_drop_bit_word unat_of_nat_u8)
  from this [of 0] this [of 8] this [of 16] this [of 24] show ?thesis
    by (simp add: word_bytes_def le_bytes_def upt_rec)
qed

section \<open>Blocks\<close>

lemma rfc_blocks_short: "length m < 64 \<Longrightarrow> rfc_blocks r m = r"
  by (simp add: rfc_blocks.simps)

lemma rfc_blocks_block: "length b = 64 \<Longrightarrow> rfc_blocks r (b @ m) = rfc_blocks (rfc_block r (block_words b)) m"
  by (subst rfc_blocks.simps) simp

text \<open>The state after the bytes \<open>m\<close> from state \<open>r\<close> with \<open>u\<close> in the buffer.\<close>

definition left :: "u8 list \<Rightarrow> u8 list" where
  "left m = drop (64 * (length m div 64)) m"

lemma length_left: "length (left m) = length m mod 64"
  by (simp add: left_def minus_mult_div_eq_mod)

lemma left_short: "length m < 64 \<Longrightarrow> left m = m"
  by (simp add: left_def)

lemma left_block: "length b = 64 \<Longrightarrow> left (b @ m) = left m"
proof -
  have "64 * ((64 + n) div 64) = 64 + 64 * (n div 64)" for n :: nat
    by (subst div_add_self1) (simp_all only: distrib_left mult_1_right add.commute numeral_neq_zero not_False_eq_True)
  then show "length b = 64 \<Longrightarrow> left (b @ m) = left m" by (simp add: left_def)
qed

lemma blocks_append:
  "rfc_blocks r (m @ x) = rfc_blocks (rfc_blocks r m) (left m @ x) \<and> left (m @ x) = left (left m @ x)"
proof (induction r m rule: rfc_blocks.induct)
  case (1 r m)
  show ?case
  proof (cases "length m < 64")
    case True
    then show ?thesis by (simp add: left_short rfc_blocks_short)
  next
    case False
    define b where "b = take 64 m"
    define m' where "m' = drop 64 m"
    have m: "m = b @ m'" "length b = 64" using False by (simp_all add: b_def m'_def)
    from 1 [OF False] show ?thesis
      unfolding m append_assoc rfc_blocks_block [OF m(2)] left_block [OF m(2)] b_def [symmetric] m'_def [symmetric]
      by (simp add: m)
  qed
qed

definition holds :: "MD5_CTX \<Rightarrow> u8 list \<Rightarrow> regs \<Rightarrow> bool" where
  "holds ctx m r \<longleftrightarrow> length (md_in ctx) = 64 \<and> take (length m mod 64) (md_in ctx) = left m \<and> md_buf ctx = rfc_blocks r m"

lemma words_take: "length bs = 64 \<Longrightarrow> map (in_word bs) [0..<16] = block_words bs"
  by (simp add: block_words_def in_word_le)

lemma update_loop_holds:
  "holds ctx m r \<Longrightarrow> holds (update_loop xs (length m mod 64) ctx) (m @ xs) r"
proof (induction xs arbitrary: m ctx)
  case (Cons x xs)
  define k where "k = length m mod 64"
  have k: "k < 64" by (simp add: k_def)
  from Cons.prems have h: "length (md_in ctx) = 64" "take k (md_in ctx) = left m" "md_buf ctx = rfc_blocks r m"
    by (simp_all add: holds_def k_def)
  define bs where "bs = (md_in ctx)[k := x]"
  have bs: "length bs = 64" "take (Suc k) bs = left m @ [x]" using h k by (simp_all add: bs_def take_Suc_conv_app_nth)
  have l: "length (left m) = k" by (simp add: length_left k_def)
  have "holds (if Suc k = 64 then ctx\<lparr>md_in := bs, md_buf := Transform (md_buf ctx) (map (in_word bs) [0..<16])\<rparr>
      else ctx\<lparr>md_in := bs\<rparr>) (m @ [x]) r"
  proof (cases "Suc k = 64")
    case True
    then have bs': "bs = left m @ [x]" using bs by simp
    have "Suc (length m) mod 64 = 0" using True by (simp add: k_def mod_Suc)
    moreover have "left (left m @ [x]) = []" using True l by (simp add: left_def)
    moreover have "rfc_blocks (rfc_blocks r m) bs = rfc_block (rfc_blocks r m) (block_words bs)"
      using rfc_blocks_block [of bs _ "[]"] bs(1) by (simp add: rfc_blocks_short)
    ultimately show ?thesis
      using True bs h blocks_append [of r m "[x]"] by (simp add: holds_def Transform_rfc words_take bs')
  next
    case False
    then have "Suc (length m) mod 64 = Suc k" by (simp add: k_def mod_Suc)
    moreover have "length (left m @ [x]) < 64" using False k l by simp
    ultimately show ?thesis
      using False bs h blocks_append [of r m "[x]"] by (simp add: holds_def rfc_blocks_short left_short)
  qed
  moreover have "length (m @ [x]) mod 64 = (if Suc k = 64 then 0 else Suc k)" by (simp add: k_def mod_Suc)
  ultimately show ?case
    using Cons.IH [of _ "m @ [x]"] by (simp add: Let_def bs_def k_def split: if_splits)
qed (simp add: holds_def)

section \<open>The length\<close>

definition counts :: "MD5_CTX \<Rightarrow> nat \<Rightarrow> bool" where
  "counts ctx n \<longleftrightarrow> unat (fst (md_i ctx)) = 8 * n mod 4294967296 \<and>
     unat (snd (md_i ctx)) = 8 * n div 4294967296 mod 4294967296"

lemma mdi_counts:
  assumes "counts ctx n"
  shows "unat (drop_bit 3 (fst (md_i ctx)) AND 0x3F) = n mod 64"
proof -
  have "unat (w AND 0x3F) = unat w mod 64" for w :: u32
    using nat_and_mask [of "unat w" 6] by (simp add: unsigned_and_eq)
  then have "unat (drop_bit 3 (fst (md_i ctx)) AND 0x3F) = (8 * n mod 4294967296) div 8 mod 64"
    using assms by (simp add: unat_drop_bit_word counts_def)
  also have "(8 * n mod 4294967296) div 8 = n mod 536870912"
    using mult_mod_right [of 8 n 536870912] by simp
  also have "n mod 536870912 mod 64 = n mod 64" by (rule mod_mod_cancel) simp
  finally show ?thesis .
qed

lemma div_once: "x < n \<Longrightarrow> y < n \<Longrightarrow> (x + y) div n = (if n \<le> x + y then 1 else 0)" for x y n :: nat
  by (simp add: le_div_geq)

lemma carry:
  fixes i0 i1 L :: u32
  defines "j0 \<equiv> i0 + push_bit 3 L"
  defines "j1 \<equiv> (if j0 < i0 then i1 + 1 else i1) + drop_bit 29 L"
  defines "N \<equiv> unat i0 + 4294967296 * unat i1 + 8 * unat L"
  shows "unat j0 = N mod 4294967296" "unat j1 = N div 4294967296 mod 4294967296"
proof -
  define P where "P = 8 * unat L mod 4294967296"
  define Q where "Q = unat L div 536870912"
  have L: "8 * unat L = P + 4294967296 * Q"
  proof -
    have "P = 8 * (unat L mod 536870912)" using mult_mod_right [of 8 "unat L" 536870912] by (simp add: P_def)
    with mult_div_mod_eq [of 536870912 "unat L"] show ?thesis unfolding Q_def by linarith
  qed
  have N: "N = (unat i0 + P) + (unat i1 + Q) * 4294967296" unfolding N_def L by (simp add: algebra_simps)
  have j0: "unat j0 = (unat i0 + P) mod 4294967296"
    by (simp add: j0_def unat_add_u32 unat_push_bit_u32 P_def mult.commute)
  show "unat j0 = N mod 4294967296" unfolding N mod_mult_self1 j0 ..
  have lt: "unat i0 < 4294967296" "P < 4294967296" by (simp_all add: P_def)
  have c: "j0 < i0 \<longleftrightarrow> 4294967296 \<le> unat i0 + P"
  proof (cases "unat i0 + P < 4294967296")
    case True
    then show ?thesis using j0 by (simp add: word_less_nat_alt)
  next
    case False
    then have "unat j0 = unat i0 + P - 4294967296" using j0 lt by (simp add: le_mod_geq)
    then show ?thesis using False lt by (simp add: word_less_nat_alt)
  qed
  have d: "(unat i0 + P) div 4294967296 = (if 4294967296 \<le> unat i0 + P then 1 else 0)"
    by (rule div_once [OF lt])
  have "N div 4294967296 = (unat i0 + P) div 4294967296 + (unat i1 + Q)"
    unfolding N by (subst div_mult_self1) simp_all
  moreover have "unat j1 = ((unat i0 + P) div 4294967296 + (unat i1 + Q)) mod 4294967296"
    unfolding d c [symmetric] j1_def
    by (simp add: unat_add_u32 unat_drop_bit_word Q_def mod_simps add_ac)
  ultimately show "unat j1 = N div 4294967296 mod 4294967296" by simp
qed

lemma MD5Update_holds:
  assumes h: "holds ctx m r" and c: "counts ctx (length m)" and l: "length xs < 4294967296"
  shows "holds (MD5Update xs ctx) (m @ xs) r" "counts (MD5Update xs ctx) (length (m @ xs))"
proof -
  obtain i0 i1 where i: "md_i ctx = (i0, i1)" by (cases "md_i ctx")
  define L :: u32 where "L = of_nat (length xs)"
  define j0 where "j0 = i0 + push_bit 3 L"
  define j1 where "j1 = (if j0 < i0 then i1 + 1 else i1) + drop_bit 29 L"
  have up: "MD5Update xs ctx = update_loop xs (length m mod 64) (ctx\<lparr>md_i := (j0, j1)\<rparr>)"
    using mdi_counts [OF c] unfolding MD5Update_def Let_def i by (simp add: j0_def j1_def L_def)
  show "holds (MD5Update xs ctx) (m @ xs) r"
    unfolding up by (rule update_loop_holds) (use h in \<open>simp add: holds_def\<close>)
  have keep: "md_i (update_loop ys k c) = md_i c" for ys k c
    by (induction ys k c rule: update_loop.induct) (simp_all add: Let_def)
  have "unat L = length xs" using l by (simp add: L_def unat_of_nat_u32)
  moreover have "unat i0 + 4294967296 * unat i1 = 8 * length m mod 18446744073709551616"
    using c mod_mult2_eq [of "8 * length m" 4294967296 4294967296] by (simp add: counts_def i)
  ultimately have N: "unat j0 = (8 * length m mod 18446744073709551616 + 8 * length xs) mod 4294967296"
    "unat j1 = (8 * length m mod 18446744073709551616 + 8 * length xs) div 4294967296 mod 4294967296"
    using carry [where ?i0.0 = i0 and ?i1.0 = i1 and L = L] by (simp_all only: j0_def j1_def)
  define a where "a = 8 * length m mod 18446744073709551616 + 8 * length xs"
  define b where "b = 8 * length (m @ xs)"
  have ab: "a mod (4294967296 * 4294967296) = b mod (4294967296 * 4294967296)"
    by (simp add: a_def b_def mod_simps algebra_simps)
  have "a mod 4294967296 = b mod 4294967296"
    using arg_cong [OF ab, of "\<lambda>x. x mod 4294967296"] by (simp only: mod_mod_cancel dvd_triv_left)
  moreover have "a div 4294967296 mod 4294967296 = b div 4294967296 mod 4294967296"
    using ab \<open>a mod 4294967296 = b mod 4294967296\<close> unfolding mod_mult2_eq by simp
  ultimately show "counts (MD5Update xs ctx) (length (m @ xs))"
    using N by (simp add: up keep counts_def a_def b_def)
qed

lemma updates_hold:
  "holds ctx m r \<Longrightarrow> counts ctx (length m) \<Longrightarrow> \<forall>x \<in> set xs. length x < 4294967296 \<Longrightarrow>
    holds (fold MD5Update xs ctx) (m @ concat xs) r \<and> counts (fold MD5Update xs ctx) (length (m @ concat xs))"
proof (induction xs arbitrary: ctx m)
  case (Cons x xs)
  from MD5Update_holds [OF Cons.prems(1,2), of x] Cons.prems(3) Cons.IH [of "MD5Update x ctx" "m @ x"] show ?case by simp
qed simp

section \<open>The end\<close>

lemma le_bytes_word:
  assumes "\<forall>j < 4. bs ! (4 * i + j) = of_nat (N div 256 ^ j)" and "unat w = N mod 4294967296"
  shows "le_word bs i = w"
proof -
  have b: "unat (bs ! (4 * i + j)) = N div 256 ^ j mod 256" if "j < 4" for j
    using assms(1) that by (simp add: unat_of_nat_u8)
  have s: "N mod 4294967296 = N mod 256 + N div 256 mod 256 * 256 + N div 65536 mod 256 * 65536 + N div 16777216 mod 256 * 16777216"
    using mod_mult2_eq [of N 16777216 256] mod_mult2_eq [of N 65536 256] mod_mult2_eq [of N 256 256] by simp
  have "(\<Sum>j<4. unat (bs ! (4 * i + j)) * 256 ^ j) = N mod 4294967296"
    unfolding s by (subst sum4, subst b, simp, subst b, simp, subst b, simp, subst b, simp) simp
  then show ?thesis
    by (simp add: le_word_def word_unat_eq_iff unat_of_nat_u32 assms(2))
qed

definition pad_len :: "nat \<Rightarrow> nat" where
  "pad_len n = (if n mod 64 < 56 then 56 - n mod 64 else 120 - n mod 64)"

lemma rfc_pad_split: "rfc_pad m = (m @ take (pad_len (length m)) PADDING) @ le_bytes 8 (8 * length m)"
proof -
  let ?n = "length m mod 64"
  have "(119 - ?n) mod 64 = pad_len (length m) - 1"
  proof (cases "?n < 56")
    case True
    then have "119 - ?n = (55 - ?n) + 64" by simp
    then have "(119 - ?n) mod 64 = 55 - ?n" by (simp only: mod_add_self2) simp
    with True show ?thesis by (simp add: pad_len_def)
  next
    case False
    then have "119 - ?n < 64" by simp
    with False show ?thesis by (simp add: pad_len_def)
  qed
  moreover have "0 < pad_len (length m)" "pad_len (length m) \<le> 64" by (auto simp: pad_len_def)
  moreover have "take (Suc k) PADDING = 0x80 # replicate k 0" if "k \<le> 63" for k
    using that by (simp add: PADDING_def)
  from this [of "pad_len (length m) - 1"] have "take (pad_len (length m)) PADDING = 0x80 # replicate (pad_len (length m) - 1) 0"
    using calculation(2,3) by simp
  ultimately show ?thesis by (simp add: rfc_pad_def)
qed

lemma pad_len_mod: "(n + pad_len n) mod 64 = 56"
proof -
  have "n + pad_len n = (n mod 64 + pad_len n) + 64 * (n div 64)" by simp
  then have "(n + pad_len n) mod 64 = (n mod 64 + pad_len n) mod 64" by (simp only: mod_mult_self2)
  then show ?thesis by (auto simp: pad_len_def)
qed

lemma MD5Final_md5:
  assumes h: "holds ctx m (0x67452301, 0xefcdab89, 0x98badcfe, 0x10325476)" and c: "counts ctx (length m)"
  shows "fst (MD5Final ctx) = md5 m"
proof -
  let ?r = "(0x67452301, 0xefcdab89, 0x98badcfe, 0x10325476) :: regs"
  define p where "p = take (pad_len (length m)) PADDING"
  define l8 where "l8 = le_bytes 8 (8 * length m)"
  define ctx' where "ctx' = MD5Update p ctx"
  have p: "length p = pad_len (length m)" "length p < 4294967296"
    by (auto simp: p_def PADDING_def pad_len_def)
  have h': "holds ctx' (m @ p) ?r" unfolding ctx'_def by (rule MD5Update_holds(1) [OF h c p(2)])
  have n: "length (m @ p) mod 64 = 56" using pad_len_mod by (simp add: p(1))
  have l: "length (left (m @ p)) = 56" by (simp only: length_left n)
  have ln: "length (left (m @ p) @ l8) = 64" by (simp add: l l8_def le_bytes_def)
  have t: "take 56 (md_in ctx') = left (m @ p)" "length (md_in ctx') = 64" using h' n by (auto simp: holds_def)
  obtain i0 i1 where i: "md_i ctx = (i0, i1)" by (cases "md_i ctx")
  have w: "in_word (md_in ctx') k = le_word (left (m @ p) @ l8) k" if "k < 14" for k
  proof -
    have "md_in ctx' ! (4 * k + j) = (left (m @ p) @ l8) ! (4 * k + j)" if "j < 4" for j
      using \<open>k < 14\<close> that t l nth_take [of "4 * k + j" 56 "md_in ctx'"] by (simp add: nth_append)
    then show ?thesis unfolding in_word_le le_word_def by (intro arg_cong [where f = of_nat] sum.cong) auto
  qed
  have w14: "le_word (left (m @ p) @ l8) 14 = i0"
    by (rule le_bytes_word [where N = "8 * length m"])
      (use c l in \<open>auto simp: counts_def i nth_append l8_def le_bytes_def\<close>)
  have w15: "le_word (left (m @ p) @ l8) 15 = i1"
  proof (rule le_bytes_word [where N = "8 * length m div 4294967296"])
    have "256 ^ (4 + j) = 4294967296 * (256 ^ j :: nat)" for j by (simp add: power_add)
    then show "\<forall>j < 4. (left (m @ p) @ l8) ! (4 * 15 + j) = of_nat (8 * length m div 4294967296 div 256 ^ j)"
      using l by (auto simp: nth_append l8_def le_bytes_def div_mult2_eq)
  qed (use c in \<open>simp add: counts_def i\<close>)
  have "[0..<16] = [0..<14] @ [14, 15 :: nat]" by (simp add: upt_rec)
  then have x: "map (in_word (md_in ctx')) [0..<14] @ [i0, i1] = block_words (left (m @ p) @ l8)"
    using w by (simp add: block_words_def w14 w15)
  have "rfc_blocks ?r (rfc_pad m) = rfc_blocks (rfc_blocks ?r (m @ p)) (left (m @ p) @ l8)"
    using blocks_append [of ?r "m @ p" l8] by (simp only: rfc_pad_split p_def l8_def)
  also have "\<dots> = rfc_block (rfc_blocks ?r (m @ p)) (block_words (left (m @ p) @ l8))"
    using rfc_blocks_block [OF ln, of _ "[]"] by (simp add: rfc_blocks_short)
  also have "\<dots> = Transform (md_buf ctx') (map (in_word (md_in ctx')) [0..<14] @ [i0, i1])"
    using h' by (simp only: Transform_rfc x holds_def)
  finally have d: "rfc_blocks ?r (rfc_pad m) = Transform (md_buf ctx') (map (in_word (md_in ctx')) [0..<14] @ [i0, i1])" .
  note mdi = mdi_counts [OF c, unfolded i fst_conv]
  have "fst (MD5Final ctx) = (case Transform (md_buf ctx') (map (in_word (md_in ctx')) [0..<14] @ [i0, i1]) of
      (a, b, c, d) \<Rightarrow> word_bytes a @ word_bytes b @ word_bytes c @ word_bytes d)"
    by (simp only: MD5Final_def Let_def i prod.case fst_conv mdi pad_len_def [symmetric] p_def [symmetric] ctx'_def [symmetric])
      simp
  then show ?thesis unfolding md5_def d [symmetric] by (simp add: word_bytes_le split: prod.splits)
qed

section \<open>Properties\<close>

text \<open>Property C28: \<^verbatim>\<open>MD5Init\<close>, any number of calls of \<^verbatim>\<open>MD5Update\<close>, and \<^verbatim>\<open>MD5Final\<close> yield the MD5 digest
  of RFC 1321 of all the bytes given, in whatever pieces they are given.\<close>

theorem md5_incremental:
  assumes "length (md_in ctx) = 64" and "\<forall>x \<in> set xs. length x < 2 ^ 32"
  shows "fst (MD5Final (fold MD5Update xs (MD5Init ctx))) = md5 (concat xs)"
proof -
  have "holds (MD5Init ctx) [] (0x67452301, 0xefcdab89, 0x98badcfe, 0x10325476)" "counts (MD5Init ctx) (length ([] :: u8 list))"
    using assms(1) by (simp_all add: holds_def MD5Init_def left_def rfc_blocks_short counts_def)
  from updates_hold [OF this, of xs] MD5Final_md5 assms(2) show ?thesis by simp
qed

definition ex_ctx :: MD5_CTX where
  "ex_ctx = \<lparr>md_i = (0, 0), md_buf = (0, 0, 0, 0), md_in = replicate 64 0, md_digest = []\<rparr>"

text \<open>A test vector of RFC 1321, A.5: the digest of \<^verbatim>\<open>abc\<close>, here given in two pieces.\<close>

lemma md5_abc: "md5 [97, 98, 99] = [0x90, 0x01, 0x50, 0x98, 0x3c, 0xd2, 0x4f, 0xb0, 0xd6, 0x96, 0x3f, 0x7d, 0x28, 0xe1, 0x7f, 0x72]"
proof -
  have T: "Transform (0x67452301, 0xefcdab89, 0x98badcfe, 0x10325476) [0x80636261, 0, 0, 0, 0, 0, 0, 0, 0, 0, 0, 0, 0, 0, 24, 0] =
      (0x98500190, 0xb04fd23c, 0x7d3f96d6, 0x727fe128)" by code_simp
  have p: "rfc_pad [97, 98, 99] = [0x61, 0x62, 0x63, 0x80] @ replicate 52 0 @ [24, 0, 0, 0, 0, 0, 0, 0]"
    by (simp add: rfc_pad_def le_bytes_def upt_rec)
  have "block_words (rfc_pad [97, 98, 99]) = [0x80636261, 0, 0, 0, 0, 0, 0, 0, 0, 0, 0, 0, 0, 0, 24, 0]"
    unfolding p by (simp add: block_words_def upt_rec in_word_le [symmetric] in_word_def nth_append Let_def)
  moreover have "length (rfc_pad [97, 98, 99]) = 64" by (simp add: rfc_pad_def le_bytes_def)
  ultimately have "rfc_blocks (0x67452301, 0xefcdab89, 0x98badcfe, 0x10325476) (rfc_pad [97, 98, 99]) =
      (0x98500190, 0xb04fd23c, 0x7d3f96d6, 0x727fe128)"
    using rfc_blocks_block [of "rfc_pad [97, 98, 99]" _ "[]"] T by (simp add: rfc_blocks_short Transform_rfc)
  then show ?thesis by (simp add: md5_def le_bytes_def upt_rec)
qed

lemma md5_incremental_witness:
  "fst (MD5Final (fold MD5Update [[97], [98, 99]] (MD5Init ex_ctx))) =
     [0x90, 0x01, 0x50, 0x98, 0x3c, 0xd2, 0x4f, 0xb0, 0xd6, 0x96, 0x3f, 0x7d, 0x28, 0xe1, 0x7f, 0x72]"
  using md5_incremental [of ex_ctx "[[97], [98, 99]]"] by (simp add: ex_ctx_def md5_abc)

end
