(* ===== verification/Mem.thy ===== *)
theory Mem
  imports Prelude
begin

text \<open>
  \<^verbatim>\<open>lwip/src/core/mem.c\<close>: the heap allocator.  Pointers are offsets from \<^verbatim>\<open>ram\<close>; the block
  headers (\<^verbatim>\<open>struct mem\<close>) are maps from the offset of a header to its fields, the other bytes
  of the heap are \<open>ram_data\<close>.  \<^verbatim>\<open>mem_size_t\<close> is a \<^verbatim>\<open>u16_t\<close>, as the default \<^verbatim>\<open>MEM_SIZE\<close> makes
  it: values assigned to it are reduced modulo 65536, and the differences computed with
  \<^verbatim>\<open>sizeof\<close> are 32 bit unsigned.  The two loops follow the \<^verbatim>\<open>next\<close> links and are partial
  functions; that they end on a well-formed heap is part of the theorems.  The protection
  macros are empty in the single-threaded configuration, and statistics are left out.
\<close>

section \<open>The allocator\<close>

record mem_cfg =
  MEM_ALIGNMENT :: nat
  MEM_SIZE :: nat
  MIN_SIZE :: nat

record heap =
  mem_next :: "nat \<Rightarrow> nat"
  mem_prev :: "nat \<Rightarrow> nat"
  mem_used :: "nat \<Rightarrow> bool"
  lfree :: nat
  ram_data :: "nat \<Rightarrow> u8"

text \<open>\<^verbatim>\<open>((size) + MEM_ALIGNMENT - 1) & ~(MEM_ALIGNMENT-1)\<close>: clearing the low bits of a power of two.\<close>

definition LWIP_MEM_ALIGN_SIZE :: "mem_cfg \<Rightarrow> nat \<Rightarrow> nat" where
  "LWIP_MEM_ALIGN_SIZE c n =
     (n + MEM_ALIGNMENT c - 1) - (n + MEM_ALIGNMENT c - 1) mod MEM_ALIGNMENT c"

definition MIN_SIZE_ALIGNED :: "mem_cfg \<Rightarrow> nat" where
  "MIN_SIZE_ALIGNED c = LWIP_MEM_ALIGN_SIZE c (MIN_SIZE c)"

definition SIZEOF_STRUCT_MEM :: "mem_cfg \<Rightarrow> nat" where
  "SIZEOF_STRUCT_MEM c = LWIP_MEM_ALIGN_SIZE c 6"

definition MEM_SIZE_ALIGNED :: "mem_cfg \<Rightarrow> nat" where
  "MEM_SIZE_ALIGNED c = LWIP_MEM_ALIGN_SIZE c (MEM_SIZE c)"

definition mem_size_t :: "nat \<Rightarrow> nat" where
  "mem_size_t n = n mod 65536"

definition sub32 :: "nat \<Rightarrow> nat \<Rightarrow> nat" where
  "sub32 a b = (a + 4294967296 - b) mod 4294967296"

definition plug_holes :: "mem_cfg \<Rightarrow> nat \<Rightarrow> heap \<Rightarrow> heap" where
  "plug_holes c mem h =
     (let nmem = mem_next h mem;
          h = (if mem \<noteq> nmem \<and> \<not> mem_used h nmem \<and> nmem \<noteq> MEM_SIZE_ALIGNED c then
                 h\<lparr>lfree := (if lfree h = nmem then mem else lfree h),
                   mem_next := (mem_next h)(mem := mem_next h nmem),
                   mem_prev := (mem_prev h)(mem_next h nmem := mem)\<rparr>
               else h);
          pmem = mem_prev h mem
      in if pmem \<noteq> mem \<and> \<not> mem_used h pmem then
           h\<lparr>lfree := (if lfree h = mem then pmem else lfree h),
             mem_next := (mem_next h)(pmem := mem_next h mem),
             mem_prev := (mem_prev h)(mem_next h mem := pmem)\<rparr>
         else h)"

definition mem_init :: "mem_cfg \<Rightarrow> heap \<Rightarrow> heap" where
  "mem_init c h =
     (let N = MEM_SIZE_ALIGNED c
      in h\<lparr>mem_next := (mem_next h)(0 := N, N := N), mem_prev := (mem_prev h)(0 := 0, N := N),
           mem_used := (mem_used h)(0 := False, N := True), lfree := 0\<rparr>)"

definition mem_free :: "mem_cfg \<Rightarrow> int option \<Rightarrow> heap \<Rightarrow> heap" where
  "mem_free c rmem h =
     (case rmem of
        None \<Rightarrow> h
      | Some r \<Rightarrow>
          if r < 0 \<or> r \<ge> int (MEM_SIZE_ALIGNED c) then h
          else
            let mem = nat (r - int (SIZEOF_STRUCT_MEM c));
                h = h\<lparr>mem_used := (mem_used h)(mem := False)\<rparr>;
                h = (if mem < lfree h then h\<lparr>lfree := mem\<rparr> else h)
            in plug_holes c mem h)"

text \<open>The last step of the two splits: the block after the new header points back to it.\<close>

definition relink :: "mem_cfg \<Rightarrow> nat \<Rightarrow> heap \<Rightarrow> heap" where
  "relink c ptr2 h =
     (if mem_next h ptr2 \<noteq> MEM_SIZE_ALIGNED c
      then h\<lparr>mem_prev := (mem_prev h)(mem_next h ptr2 := ptr2)\<rparr> else h)"

definition mem_trim :: "mem_cfg \<Rightarrow> int \<Rightarrow> nat \<Rightarrow> heap \<Rightarrow> int option \<times> heap" where
  "mem_trim c rmem newsize h =
     (let S = SIZEOF_STRUCT_MEM c;
          newsize = mem_size_t (LWIP_MEM_ALIGN_SIZE c newsize);
          newsize = (if newsize < MIN_SIZE_ALIGNED c then MIN_SIZE_ALIGNED c else newsize)
      in if newsize > MEM_SIZE_ALIGNED c then (None, h)
      else if rmem < 0 \<or> rmem \<ge> int (MEM_SIZE_ALIGNED c) then (Some rmem, h)
      else
        let mem = nat (rmem - int S); ptr = mem;
            oldsize = mem_size_t (sub32 (sub32 (mem_next h mem) ptr) S)
        in if newsize > oldsize then (None, h)
        else if newsize = oldsize then (Some rmem, h)
        else
          let mem2 = mem_next h mem; ptr2 = mem_size_t (ptr + S + newsize)
          in if \<not> mem_used h mem2 then
               let nxt = mem_next h mem2;
                   h = (if lfree h = mem2 then h\<lparr>lfree := ptr2\<rparr> else h);
                   h = h\<lparr>mem_used := (mem_used h)(ptr2 := False),
                         mem_next := (mem_next h)(ptr2 := nxt, mem := ptr2),
                         mem_prev := (mem_prev h)(ptr2 := ptr)\<rparr>
               in (Some rmem, relink c ptr2 h)
             else if newsize + S + MIN_SIZE_ALIGNED c \<le> oldsize then
               let h = (if ptr2 < lfree h then h\<lparr>lfree := ptr2\<rparr> else h);
                   h = h\<lparr>mem_used := (mem_used h)(ptr2 := False),
                         mem_next := (mem_next h)(ptr2 := mem_next h mem, mem := ptr2),
                         mem_prev := (mem_prev h)(ptr2 := ptr)\<rparr>
               in (Some rmem, relink c ptr2 h)
             else (Some rmem, h))"

text \<open>The search of \<^verbatim>\<open>mem_malloc\<close> from \<open>ptr\<close>: \<open>Some (Some b)\<close> when block \<open>b\<close> fits, \<open>Some None\<close> when
  the loop ends without one.\<close>

partial_function (option) mem_search :: "mem_cfg \<Rightarrow> heap \<Rightarrow> nat \<Rightarrow> nat \<Rightarrow> nat option option" where
  "mem_search c h req ptr =
     (if ptr < MEM_SIZE_ALIGNED c - req then
        if \<not> mem_used h ptr \<and> req \<le> sub32 (mem_next h ptr) (ptr + SIZEOF_STRUCT_MEM c)
        then Some (Some ptr)
        else mem_search c h req (mem_next h ptr)
      else Some None)"

text \<open>The search for the new lowest free block.\<close>

partial_function (option) next_free :: "mem_cfg \<Rightarrow> heap \<Rightarrow> nat \<Rightarrow> nat option" where
  "next_free c h cur =
     (if mem_used h cur \<and> cur \<noteq> MEM_SIZE_ALIGNED c then next_free c h (mem_next h cur)
      else Some cur)"

text \<open>Taking a block that fits: split it if another block fits behind.\<close>

definition take_block :: "mem_cfg \<Rightarrow> nat \<Rightarrow> nat \<Rightarrow> heap \<Rightarrow> heap" where
  "take_block c req ptr h =
     (let S = SIZEOF_STRUCT_MEM c
      in if sub32 (mem_next h ptr) (ptr + S) \<ge> req + S + MIN_SIZE_ALIGNED c then
           let ptr2 = mem_size_t (ptr + S + req);
               h = h\<lparr>mem_used := (mem_used h)(ptr2 := False),
                     mem_next := (mem_next h)(ptr2 := mem_next h ptr),
                     mem_prev := (mem_prev h)(ptr2 := ptr)\<rparr>;
               h = h\<lparr>mem_next := (mem_next h)(ptr := ptr2), mem_used := (mem_used h)(ptr := True)\<rparr>
           in relink c ptr2 h
         else h\<lparr>mem_used := (mem_used h)(ptr := True)\<rparr>)"

definition mem_malloc :: "mem_cfg \<Rightarrow> nat \<Rightarrow> heap \<Rightarrow> (nat option \<times> heap) option" where
  "mem_malloc c req h =
     (if req = 0 then Some (None, h)
      else
        let req = mem_size_t (LWIP_MEM_ALIGN_SIZE c req);
            req = (if req < MIN_SIZE_ALIGNED c then MIN_SIZE_ALIGNED c else req)
        in if req > MEM_SIZE_ALIGNED c then Some (None, h)
        else
          case mem_search c h req (lfree h) of
            None \<Rightarrow> None
          | Some None \<Rightarrow> Some (None, h)
          | Some (Some ptr) \<Rightarrow>
              let h = take_block c req ptr h
              in if ptr = lfree h then
                   case next_free c h (lfree h) of
                     None \<Rightarrow> None
                   | Some cur \<Rightarrow> Some (Some (ptr + SIZEOF_STRUCT_MEM c), h\<lparr>lfree := cur\<rparr>)
                 else Some (Some (ptr + SIZEOF_STRUCT_MEM c), h))"

text \<open>\<^verbatim>\<open>mem_calloc\<close>: the product is reduced to \<^verbatim>\<open>mem_size_t\<close> for \<^verbatim>\<open>mem_malloc\<close>, not for \<^verbatim>\<open>memset\<close>.\<close>

definition zero_bytes :: "nat \<Rightarrow> nat \<Rightarrow> (nat \<Rightarrow> u8) \<Rightarrow> nat \<Rightarrow> u8" where
  "zero_bytes p n d = (\<lambda>i. if p \<le> i \<and> i < p + n then 0 else d i)"

definition mem_calloc :: "mem_cfg \<Rightarrow> nat \<Rightarrow> nat \<Rightarrow> heap \<Rightarrow> (nat option \<times> heap) option" where
  "mem_calloc c count req h =
     (case mem_malloc c (mem_size_t (count * req)) h of
        None \<Rightarrow> None
      | Some (None, h) \<Rightarrow> Some (None, h)
      | Some (Some p, h) \<Rightarrow> Some (Some p, h\<lparr>ram_data := zero_bytes p (count * req) (ram_data h)\<rparr>))"

section \<open>Well-formed heaps\<close>

text \<open>A configuration the code can run with: the alignment is a power of two (a divisor of
  65536), so that clearing low bits and reducing modulo 65536 keep multiples of it.\<close>

definition cfg_ok :: "mem_cfg \<Rightarrow> bool" where
  "cfg_ok c \<longleftrightarrow> MEM_ALIGNMENT c dvd 65536 \<and> 0 < MIN_SIZE c \<and> MEM_SIZE_ALIGNED c < 65536 \<and>
     SIZEOF_STRUCT_MEM c + MIN_SIZE_ALIGNED c \<le> MEM_SIZE_ALIGNED c"

text \<open>The heap as the list of its blocks (data size, used) in address order.  \<open>seg c h o p bs\<close>: from
  offset \<open>o\<close>, whose previous block is at \<open>p\<close>, the headers of \<open>h\<close> describe the blocks \<open>bs\<close>.\<close>

type_synonym block = "nat \<times> bool"

fun seg :: "mem_cfg \<Rightarrow> heap \<Rightarrow> nat \<Rightarrow> nat \<Rightarrow> block list \<Rightarrow> bool" where
  "seg c h ofs p [] = True"
| "seg c h ofs p ((sz, u) # bs) \<longleftrightarrow>
     mem_next h ofs = ofs + SIZEOF_STRUCT_MEM c + sz \<and> mem_prev h ofs = p \<and> mem_used h ofs = u \<and>
     seg c h (ofs + SIZEOF_STRUCT_MEM c + sz) ofs bs"

fun end_ofs :: "mem_cfg \<Rightarrow> nat \<Rightarrow> block list \<Rightarrow> nat" where
  "end_ofs c ofs [] = ofs"
| "end_ofs c ofs ((sz, u) # bs) = end_ofs c (ofs + SIZEOF_STRUCT_MEM c + sz) bs"

fun last_ofs :: "mem_cfg \<Rightarrow> nat \<Rightarrow> nat \<Rightarrow> block list \<Rightarrow> nat" where
  "last_ofs c ofs p [] = p"
| "last_ofs c ofs p ((sz, u) # bs) = last_ofs c (ofs + SIZEOF_STRUCT_MEM c + sz) ofs bs"

fun first_free :: "mem_cfg \<Rightarrow> nat \<Rightarrow> block list \<Rightarrow> nat" where
  "first_free c ofs [] = ofs"
| "first_free c ofs ((sz, u) # bs) =
     (if u then first_free c (ofs + SIZEOF_STRUCT_MEM c + sz) bs else ofs)"

definition no_adjacent_free :: "block list \<Rightarrow> bool" where
  "no_adjacent_free bs = successively (\<lambda>x y. snd x \<or> snd y) bs"

definition sizes_ok :: "mem_cfg \<Rightarrow> block list \<Rightarrow> bool" where
  "sizes_ok c bs \<longleftrightarrow> (\<forall>b \<in> set bs. MIN_SIZE_ALIGNED c \<le> fst b \<and> MEM_ALIGNMENT c dvd fst b)"

definition heap_ok :: "mem_cfg \<Rightarrow> heap \<Rightarrow> block list \<Rightarrow> bool" where
  "heap_ok c h bs \<longleftrightarrow>
     seg c h 0 0 bs \<and> end_ofs c 0 bs = MEM_SIZE_ALIGNED c \<and> mem_used h (MEM_SIZE_ALIGNED c) \<and>
     sizes_ok c bs \<and> no_adjacent_free bs \<and> lfree h = first_free c 0 bs"

text \<open>The allocated blocks: offset of the data and size.\<close>

fun allocated :: "mem_cfg \<Rightarrow> nat \<Rightarrow> block list \<Rightarrow> (nat \<times> nat) list" where
  "allocated c ofs [] = []"
| "allocated c ofs ((sz, u) # bs) =
     (if u then [(ofs + SIZEOF_STRUCT_MEM c, sz)] else []) @
     allocated c (ofs + SIZEOF_STRUCT_MEM c + sz) bs"

section \<open>Alignment\<close>

lemma align_dvd: "MEM_ALIGNMENT c dvd LWIP_MEM_ALIGN_SIZE c n"
  by (simp add: LWIP_MEM_ALIGN_SIZE_def minus_mod_eq_mult_div)

lemma align_ge:
  assumes "0 < MEM_ALIGNMENT c"
  shows "n \<le> LWIP_MEM_ALIGN_SIZE c n"
proof -
  have "(n + MEM_ALIGNMENT c - 1) mod MEM_ALIGNMENT c < MEM_ALIGNMENT c" using assms by simp
  then show ?thesis unfolding LWIP_MEM_ALIGN_SIZE_def by linarith
qed

lemma cfg_facts:
  assumes "cfg_ok c"
  shows "0 < MEM_ALIGNMENT c" and "6 \<le> SIZEOF_STRUCT_MEM c" and "0 < MIN_SIZE_ALIGNED c"
    and "MEM_SIZE_ALIGNED c < 65536"
    and "SIZEOF_STRUCT_MEM c + MIN_SIZE_ALIGNED c \<le> MEM_SIZE_ALIGNED c"
    and "MEM_ALIGNMENT c dvd SIZEOF_STRUCT_MEM c" and "MEM_ALIGNMENT c dvd MIN_SIZE_ALIGNED c"
    and "MEM_ALIGNMENT c dvd MEM_SIZE_ALIGNED c"
proof -
  show p: "0 < MEM_ALIGNMENT c" using assms by (auto simp: cfg_ok_def intro: Nat.gr0I)
  show "6 \<le> SIZEOF_STRUCT_MEM c" "0 < MIN_SIZE_ALIGNED c" "MEM_SIZE_ALIGNED c < 65536"
    "SIZEOF_STRUCT_MEM c + MIN_SIZE_ALIGNED c \<le> MEM_SIZE_ALIGNED c"
    using assms align_ge [OF p, of 6] align_ge [OF p, of "MIN_SIZE c"]
    by (auto simp: cfg_ok_def SIZEOF_STRUCT_MEM_def MIN_SIZE_ALIGNED_def)
  show "MEM_ALIGNMENT c dvd SIZEOF_STRUCT_MEM c" "MEM_ALIGNMENT c dvd MIN_SIZE_ALIGNED c"
    "MEM_ALIGNMENT c dvd MEM_SIZE_ALIGNED c"
    by (simp_all add: SIZEOF_STRUCT_MEM_def MIN_SIZE_ALIGNED_def MEM_SIZE_ALIGNED_def align_dvd)
qed

lemma sub32_id:
  assumes "b \<le> a" and "a < 4294967296"
  shows "sub32 a b = a - b"
proof -
  have "a + 4294967296 - b = (a - b) + 4294967296" using assms(1) by simp
  moreover have "a - b < 4294967296" using assms(2) by simp
  ultimately show ?thesis by (simp only: sub32_def mod_add_self2 mod_less)
qed

section \<open>Segments\<close>

lemma seg_append:
  "seg c h ofs p (xs @ ys) \<longleftrightarrow>
     seg c h ofs p xs \<and> seg c h (end_ofs c ofs xs) (last_ofs c ofs p xs) ys"
  by (induction xs arbitrary: ofs p) auto

lemma end_ofs_append: "end_ofs c ofs (xs @ ys) = end_ofs c (end_ofs c ofs xs) ys"
  by (induction xs arbitrary: ofs) auto

lemma last_ofs_append:
  "last_ofs c ofs p (xs @ ys) = last_ofs c (end_ofs c ofs xs) (last_ofs c ofs p xs) ys"
  by (induction xs arbitrary: ofs p) auto

lemma first_free_append:
  "first_free c ofs (xs @ ys) =
     (if \<forall>b \<in> set xs. snd b then first_free c (end_ofs c ofs xs) ys else first_free c ofs xs)"
proof (induction xs arbitrary: ofs)
  case (Cons b bs)
  then show ?case by (cases b) simp
qed simp

lemma end_ofs_ge: "ofs \<le> end_ofs c ofs bs"
proof (induction bs arbitrary: ofs)
  case (Cons b bs)
  obtain sz u where "b = (sz, u)" by (cases b)
  then show ?case using Cons.IH [of "ofs + SIZEOF_STRUCT_MEM c + sz"] by simp
qed simp

lemma allocated_append:
  "allocated c ofs (xs @ ys) = allocated c ofs xs @ allocated c (end_ofs c ofs xs) ys"
  by (induction xs arbitrary: ofs) auto

lemma end_ofs_dvd:
  "MEM_ALIGNMENT c dvd ofs \<Longrightarrow> MEM_ALIGNMENT c dvd SIZEOF_STRUCT_MEM c \<Longrightarrow> sizes_ok c bs \<Longrightarrow>
   MEM_ALIGNMENT c dvd end_ofs c ofs bs"
proof (induction bs arbitrary: ofs)
  case (Cons b bs)
  then show ?case by (cases b) (auto simp: sizes_ok_def)
qed simp

lemma first_free_bounds: "ofs \<le> first_free c ofs bs \<and> first_free c ofs bs \<le> end_ofs c ofs bs"
proof (induction bs arbitrary: ofs)
  case (Cons b bs)
  obtain sz u where b: "b = (sz, u)" by (cases b)
  show ?case using Cons.IH [of "ofs + SIZEOF_STRUCT_MEM c + sz"] end_ofs_ge [of ofs c "b # bs"] b by auto
qed simp

text \<open>Two heaps that agree on the headers of a segment.\<close>

definition agree :: "heap \<Rightarrow> heap \<Rightarrow> nat \<Rightarrow> nat \<Rightarrow> bool" where
  "agree h h' a b \<longleftrightarrow> (\<forall>x. a \<le> x \<and> x < b \<longrightarrow>
     mem_next h' x = mem_next h x \<and> mem_prev h' x = mem_prev h x \<and> mem_used h' x = mem_used h x)"

lemma seg_cong:
  assumes "cfg_ok c" and "seg c h ofs p bs" and "agree h h' ofs (end_ofs c ofs bs)"
  shows "seg c h' ofs p bs"
  using assms(2, 3)
proof (induction bs arbitrary: ofs p)
  case (Cons b bs)
  obtain sz u where b: "b = (sz, u)" by (cases b)
  let ?o = "ofs + SIZEOF_STRUCT_MEM c + sz"
  have lt: "ofs < ?o" "?o \<le> end_ofs c ?o bs"
    using cfg_facts(2) [OF assms(1)] end_ofs_ge [of ?o c bs] by auto
  then have "agree h h' ?o (end_ofs c ?o bs)" using Cons.prems(2) b by (auto simp: agree_def)
  then have "seg c h' ?o ofs bs" using Cons.IH Cons.prems(1) b by simp
  moreover have "ofs < end_ofs c ?o bs" using lt by linarith
  ultimately show ?case using Cons.prems b by (auto simp: agree_def)
qed simp

text \<open>Giving the first block of a segment a new predecessor.\<close>

lemma seg_repoint:
  assumes c: "cfg_ok c" and s: "seg c h ofs p bs"
    and n: "bs \<noteq> [] \<Longrightarrow> mem_next h' ofs = mem_next h ofs \<and> mem_used h' ofs = mem_used h ofs \<and> mem_prev h' ofs = q"
    and a: "agree h h' (Suc ofs) (end_ofs c ofs bs)"
  shows "seg c h' ofs q bs"
proof (cases bs)
  case (Cons b bs')
  obtain sz u where b: "b = (sz, u)" by (cases b)
  let ?o = "ofs + SIZEOF_STRUCT_MEM c + sz"
  have a': "agree h h' ?o (end_ofs c ?o bs')"
    using a b cfg_facts(2) [OF c] by (auto simp: Cons agree_def)
  have "seg c h ?o ofs bs'" using s b Cons by simp
  then have "seg c h' ?o ofs bs'" by (rule seg_cong [OF c _ a'])
  then show ?thesis using s n b Cons by simp
qed simp

lemma seg_nonempty_end:
  assumes "cfg_ok c"
  shows "end_ofs c ofs bs = ofs \<longleftrightarrow> bs = []"
proof (cases bs)
  case (Cons b bs')
  obtain sz u where b: "b = (sz, u)" by (cases b)
  show ?thesis
    using end_ofs_ge [of "ofs + SIZEOF_STRUCT_MEM c + sz" c bs'] cfg_facts(2) [OF assms] b Cons by simp
qed simp

section \<open>The search loops\<close>

text \<open>First fit on the list of blocks.\<close>

fun fit_at :: "mem_cfg \<Rightarrow> nat \<Rightarrow> nat \<Rightarrow> block list \<Rightarrow> nat option" where
  "fit_at c n ofs [] = None"
| "fit_at c n ofs ((sz, u) # bs) =
     (if \<not> u \<and> n \<le> sz then Some ofs else fit_at c n (ofs + SIZEOF_STRUCT_MEM c + sz) bs)"

lemma fit_at_None: "fit_at c n ofs bs = None \<longleftrightarrow> (\<forall>b \<in> set bs. snd b \<or> fst b < n)"
proof (induction bs arbitrary: ofs)
  case (Cons b bs)
  then show ?case by (cases b) (simp add: not_le)
qed simp

lemma fit_at_append:
  "fit_at c n ofs (xs @ ys) =
     (case fit_at c n ofs xs of None \<Rightarrow> fit_at c n (end_ofs c ofs xs) ys | Some b \<Rightarrow> Some b)"
proof (induction xs arbitrary: ofs)
  case (Cons b bs)
  then show ?case by (cases b) (simp split: option.split)
qed simp

lemma fit_at_Some:
  "fit_at c n ofs bs = Some b \<Longrightarrow>
     \<exists>pre sz post. bs = pre @ (sz, False) # post \<and> n \<le> sz \<and> b = end_ofs c ofs pre \<and>
       (\<forall>x \<in> set pre. snd x \<or> fst x < n)"
proof (induction bs arbitrary: ofs)
  case (Cons x bs)
  obtain sz u where x: "x = (sz, u)" by (cases x)
  show ?case
  proof (cases "\<not> u \<and> n \<le> sz")
    case True
    then show ?thesis using Cons.prems x by (intro exI [of _ "[]"]) auto
  next
    case False
    then have "fit_at c n (ofs + SIZEOF_STRUCT_MEM c + sz) bs = Some b"
      using Cons.prems x by auto
    from Cons.IH [OF this] obtain pre sz' post where "bs = pre @ (sz', False) # post" "n \<le> sz'"
      "b = end_ofs c (ofs + SIZEOF_STRUCT_MEM c + sz) pre" "\<forall>x \<in> set pre. snd x \<or> fst x < n"
      by blast
    then show ?thesis using x False by (intro exI [of _ "x # pre"]) auto
  qed
qed simp

lemma seg_fit_bound:
  assumes "cfg_ok c" and "end_ofs c ofs bs = e" and "b \<in> set bs"
  shows "ofs + SIZEOF_STRUCT_MEM c + fst b \<le> e"
  using assms(2, 3)
proof (induction bs arbitrary: ofs)
  case (Cons x bs)
  obtain sz u where x: "x = (sz, u)" by (cases x)
  show ?case
  proof (cases "b = x")
    case True
    then show ?thesis using end_ofs_ge [of "ofs + SIZEOF_STRUCT_MEM c + sz" c bs] Cons.prems x by simp
  next
    case False
    then show ?thesis using Cons.IH [of "ofs + SIZEOF_STRUCT_MEM c + sz"] Cons.prems x by simp
  qed
qed simp

lemma mem_search_seg:
  assumes c: "cfg_ok c" and n: "n \<le> MEM_SIZE_ALIGNED c"
    and "seg c h ofs p bs" and "end_ofs c ofs bs = MEM_SIZE_ALIGNED c"
  shows "mem_search c h n ofs = Some (fit_at c n ofs bs)"
  using assms(3, 4)
proof (induction bs arbitrary: ofs p)
  case Nil
  have "\<not> MEM_SIZE_ALIGNED c < MEM_SIZE_ALIGNED c - n" by simp
  with Nil show ?case by (subst mem_search.simps) (simp only: if_False end_ofs.simps fit_at.simps)
next
  case (Cons b bs)
  obtain sz u where b: "b = (sz, u)" by (cases b)
  let ?o = "ofs + SIZEOF_STRUCT_MEM c + sz"
  have e: "end_ofs c ?o bs = MEM_SIZE_ALIGNED c" "?o \<le> MEM_SIZE_ALIGNED c"
    using Cons.prems(2) b end_ofs_ge [of ?o c bs] by simp_all
  have nx: "mem_next h ofs = ?o" "mem_used h ofs = u" "seg c h ?o ofs bs"
    using Cons.prems(1) b by simp_all
  have s: "sub32 (mem_next h ofs) (ofs + SIZEOF_STRUCT_MEM c) = sz"
    using nx(1) e(2) cfg_facts(4) [OF c] by (simp add: sub32_id)
  show ?case
  proof (cases "ofs < MEM_SIZE_ALIGNED c - n")
    case True
    then show ?thesis using Cons.IH [OF nx(3) e(1)] nx b s
      by (subst mem_search.simps) auto
  next
    case False
    have "\<forall>x \<in> set (b # bs). fst x < n"
      using seg_fit_bound [OF c Cons.prems(2)] False cfg_facts(2) [OF c] by fastforce
    then have "fit_at c n ofs (b # bs) = None" unfolding fit_at_None by auto
    then show ?thesis using False by (subst mem_search.simps) simp
  qed
qed

lemma next_free_seg:
  assumes c: "cfg_ok c" and "mem_used h (MEM_SIZE_ALIGNED c)"
    and "seg c h ofs p bs" and "end_ofs c ofs bs = MEM_SIZE_ALIGNED c"
  shows "next_free c h ofs = Some (first_free c ofs bs)"
  using assms(3, 4)
proof (induction bs arbitrary: ofs p)
  case Nil
  then show ?case by (subst next_free.simps) simp
next
  case (Cons b bs)
  obtain sz u where b: "b = (sz, u)" by (cases b)
  have "ofs \<noteq> MEM_SIZE_ALIGNED c"
    using seg_nonempty_end [OF c, of ofs "b # bs"] Cons.prems(2) by auto
  then show ?case using Cons.IH [of "ofs + SIZEOF_STRUCT_MEM c + sz" ofs] Cons.prems b
    by (subst next_free.simps) simp
qed

section \<open>Replacing blocks\<close>

text \<open>The blocks between two offsets are replaced and the block behind them is linked back.\<close>

lemma seg_replace:
  assumes c: "cfg_ok c"
    and pre: "seg c h 0 0 pre" and post: "seg c h e q post"
    and mid: "seg c h' (end_ofs c 0 pre) (last_ofs c 0 0 pre) mid"
    and e: "end_ofs c (end_ofs c 0 pre) mid = e"
    and before: "agree h h' 0 (end_ofs c 0 pre)"
    and link: "post \<noteq> [] \<Longrightarrow> mem_next h' e = mem_next h e \<and> mem_used h' e = mem_used h e \<and>
                mem_prev h' e = last_ofs c (end_ofs c 0 pre) (last_ofs c 0 0 pre) mid"
    and behind: "agree h h' (Suc e) (end_ofs c e post)"
  shows "seg c h' 0 0 (pre @ mid @ post)"
  using seg_cong [OF c pre before] mid seg_repoint [OF c post link behind]
  by (simp add: seg_append end_ofs_append e last_ofs_append)

lemma first_free_lt:
  assumes c: "cfg_ok c" and "\<exists>b \<in> set bs. \<not> snd b"
  shows "first_free c ofs bs < end_ofs c ofs bs"
  using assms(2)
proof (induction bs arbitrary: ofs)
  case (Cons b bs)
  obtain sz u where b: "b = (sz, u)" by (cases b)
  have "ofs < end_ofs c (ofs + SIZEOF_STRUCT_MEM c + sz) bs"
    using end_ofs_ge [of "ofs + SIZEOF_STRUCT_MEM c + sz" c bs] cfg_facts(2) [OF c] by linarith
  then show ?case using Cons b by simp
qed simp

lemma first_free_pre:
  assumes "cfg_ok c"
  shows "first_free c 0 (pre @ (sz, False) # post) = end_ofs c 0 pre \<longleftrightarrow> (\<forall>b \<in> set pre. snd b)"
proof (cases "\<forall>b \<in> set pre. snd b")
  case True
  then show ?thesis by (simp add: first_free_append)
next
  case False
  then have "first_free c 0 pre < end_ofs c 0 pre" using first_free_lt [OF assms] by blast
  with False show ?thesis by (simp add: first_free_append)
qed

lemma used_prefix:
  obtains us rest where "bs = us @ rest" and "\<forall>b \<in> set us. snd b"
    and "first_free c 0 bs = end_ofs c 0 us"
proof
  let ?us = "takeWhile snd bs" and ?rest = "dropWhile snd bs"
  show "bs = ?us @ ?rest" by simp
  show us: "\<forall>b \<in> set ?us. snd b" by (auto dest: set_takeWhileD)
  have "first_free c ofs ?rest = ofs" for ofs
  proof (cases ?rest)
    case (Cons b r)
    then have "\<not> snd b" using hd_dropWhile [of snd bs] by (metis list.distinct(1) list.sel(1))
    then show ?thesis using Cons by (cases b) simp
  qed (metis first_free.simps(1))
  then show "first_free c 0 bs = end_ofs c 0 ?us"
    using first_free_append [of c 0 ?us ?rest] us by simp
qed

text \<open>The parts of a well-formed heap around one of its blocks.\<close>

lemma heap_okE:
  assumes "cfg_ok c" and "heap_ok c h (pre @ (sz, u) # post)"
  defines "b \<equiv> end_ofs c 0 pre"
  obtains "seg c h 0 0 pre" and "mem_next h b = b + SIZEOF_STRUCT_MEM c + sz"
    and "mem_prev h b = last_ofs c 0 0 pre" and "mem_used h b = u"
    and "seg c h (b + SIZEOF_STRUCT_MEM c + sz) b post"
    and "end_ofs c (b + SIZEOF_STRUCT_MEM c + sz) post = MEM_SIZE_ALIGNED c"
    and "b + SIZEOF_STRUCT_MEM c + sz \<le> MEM_SIZE_ALIGNED c"
    and "mem_used h (MEM_SIZE_ALIGNED c)"
    and "MIN_SIZE_ALIGNED c \<le> sz" and "MEM_ALIGNMENT c dvd sz"
  using assms end_ofs_ge [of "b + SIZEOF_STRUCT_MEM c + sz" c post]
  by (auto simp: heap_ok_def seg_append end_ofs_append sizes_ok_def)

section \<open>Allocation\<close>

text \<open>The size \<^verbatim>\<open>mem_malloc\<close> looks for, and the blocks that a block of \<open>sz\<close> bytes becomes.\<close>

definition request :: "mem_cfg \<Rightarrow> nat \<Rightarrow> nat" where
  "request c n = max (MIN_SIZE_ALIGNED c) (mem_size_t (LWIP_MEM_ALIGN_SIZE c n))"

definition taken :: "mem_cfg \<Rightarrow> nat \<Rightarrow> nat \<Rightarrow> block list" where
  "taken c n sz =
     (if n + SIZEOF_STRUCT_MEM c + MIN_SIZE_ALIGNED c \<le> sz
      then [(n, True), (sz - n - SIZEOF_STRUCT_MEM c, False)] else [(sz, True)])"

lemma request_dvd: "cfg_ok c \<Longrightarrow> MEM_ALIGNMENT c dvd request c n"
  using cfg_facts(7) [of c] align_dvd [of c n]
  by (auto simp: request_def max_def mem_size_t_def cfg_ok_def intro: dvd_mod)

lemma seg_lfree: "seg c (h\<lparr>lfree := x\<rparr>) ofs p bs = seg c h ofs p bs"
  by (induction bs arbitrary: ofs p) auto

lemma end_ofs_taken: "end_ofs c ofs (taken c n sz) = ofs + SIZEOF_STRUCT_MEM c + sz"
  by (simp add: taken_def)

lemma lfree_take_block: "lfree (take_block c n b h) = lfree h"
  by (simp add: take_block_def relink_def Let_def)

lemma used_take_block_end:
  assumes "mem_used h e" and "mem_size_t (b + SIZEOF_STRUCT_MEM c + n) \<noteq> e \<or>
     \<not> (n + SIZEOF_STRUCT_MEM c + MIN_SIZE_ALIGNED c \<le> sub32 (mem_next h b) (b + SIZEOF_STRUCT_MEM c))"
  shows "mem_used (take_block c n b h) e"
  using assms by (auto simp: take_block_def relink_def Let_def)

lemma take_block_seg:
  assumes c: "cfg_ok c" and ok: "heap_ok c h (pre @ (sz, False) # post)" and n: "n \<le> sz"
  defines "b \<equiv> end_ofs c 0 pre"
  shows "seg c (take_block c n b h) 0 0 (pre @ taken c n sz @ post)"
    and "mem_used (take_block c n b h) (MEM_SIZE_ALIGNED c)"
proof -
  let ?S = "SIZEOF_STRUCT_MEM c" and ?N = "MEM_SIZE_ALIGNED c"
  note cf = cfg_facts [OF c]
  obtain hp: "seg c h 0 0 pre" "mem_next h b = b + ?S + sz" "mem_prev h b = last_ofs c 0 0 pre"
    "seg c h (b + ?S + sz) b post" "end_ofs c (b + ?S + sz) post = ?N" "b + ?S + sz \<le> ?N" "mem_used h ?N"
    using heap_okE [OF c ok] unfolding b_def by blast
  have s: "sub32 (mem_next h b) (b + ?S) = sz" using hp(2,6) cf(4) by (simp add: sub32_id)
  have p2: "mem_size_t (b + ?S + n) = b + ?S + n" using hp(6) n cf(4) by (simp add: mem_size_t_def)
  have np: "b + ?S + sz = ?N \<longleftrightarrow> post = []" using seg_nonempty_end [OF c] hp(5) by metis
  show "seg c (take_block c n b h) 0 0 (pre @ taken c n sz @ post)"
  proof (rule seg_replace [OF c hp(1,4)])
    show "end_ofs c (end_ofs c 0 pre) (taken c n sz) = b + ?S + sz" by (simp add: end_ofs_taken b_def)
    show "seg c (take_block c n b h) (end_ofs c 0 pre) (last_ofs c 0 0 pre) (taken c n sz)"
      using hp(2,3) s p2 cf(2) np
      by (auto simp: taken_def take_block_def relink_def Let_def simp flip: b_def)
    show "agree h (take_block c n b h) 0 (end_ofs c 0 pre)"
      using hp(2) s p2 cf(2) by (auto simp: agree_def take_block_def relink_def Let_def simp flip: b_def)
    show "agree h (take_block c n b h) (Suc (b + ?S + sz)) (end_ofs c (b + ?S + sz) post)"
      using hp(2) s p2 cf(2) by (auto simp: agree_def take_block_def relink_def Let_def)
    show "mem_next (take_block c n b h) (b + ?S + sz) = mem_next h (b + ?S + sz) \<and>
          mem_used (take_block c n b h) (b + ?S + sz) = mem_used h (b + ?S + sz) \<and>
          mem_prev (take_block c n b h) (b + ?S + sz) =
            last_ofs c (end_ofs c 0 pre) (last_ofs c 0 0 pre) (taken c n sz)" if "post \<noteq> []"
      using that np hp s p2 cf(2)
      by (auto simp: taken_def take_block_def relink_def Let_def neq_Nil_conv simp flip: b_def)
  qed
  show "mem_used (take_block c n b h) ?N"
    using hp(6,7) s p2 cf(2) by (intro used_take_block_end) auto
qed

lemma no_adjacent_taken:
  assumes "no_adjacent_free (pre @ (sz, False) # post)"
  shows "no_adjacent_free (pre @ taken c n sz @ post)"
  using assms
  by (auto simp: no_adjacent_free_def taken_def successively_append_iff successively_Cons)

lemma sizes_taken:
  assumes "cfg_ok c" and "sizes_ok c (pre @ (sz, False) # post)"
    and "MIN_SIZE_ALIGNED c \<le> n" and "MEM_ALIGNMENT c dvd n"
  shows "sizes_ok c (pre @ taken c n sz @ post)"
proof -
  have "MEM_ALIGNMENT c dvd sz - n - SIZEOF_STRUCT_MEM c"
    if "n + SIZEOF_STRUCT_MEM c + MIN_SIZE_ALIGNED c \<le> sz"
    using assms that cfg_facts(6) [OF assms(1)] by (auto simp: sizes_ok_def intro!: dvd_diff_nat)
  then show ?thesis using assms by (auto simp: sizes_ok_def taken_def)
qed

text \<open>The lowest free block after an allocation.\<close>

lemma first_free_taken:
  assumes "\<exists>b \<in> set pre. \<not> snd b"
  shows "first_free c 0 (pre @ taken c n sz @ post) = first_free c 0 (pre @ (sz, False) # post)"
  using assms by (auto simp: first_free_append)

lemma mem_malloc_fit:
  assumes c: "cfg_ok c" and ok: "heap_ok c h (pre @ (sz, False) # post)"
    and n: "request c m \<le> sz" and m: "0 < m"
    and first: "\<forall>x \<in> set pre. snd x \<or> fst x < request c m"
  shows "\<exists>h'. mem_malloc c m h = Some (Some (end_ofs c 0 pre + SIZEOF_STRUCT_MEM c), h') \<and>
             heap_ok c h' (pre @ taken c (request c m) sz @ post)"
proof -
  let ?n = "request c m" and ?b = "end_ofs c 0 pre" and ?N = "MEM_SIZE_ALIGNED c"
  let ?new = "pre @ taken c ?n sz @ post"
  define h1 where "h1 = take_block c ?n ?b h"
  note cf = cfg_facts [OF c]
  have szN: "sz \<le> ?N" using heap_okE [OF c ok] add_leD2 by metis
  have req: "(if mem_size_t (LWIP_MEM_ALIGN_SIZE c m) < MIN_SIZE_ALIGNED c then MIN_SIZE_ALIGNED c
              else mem_size_t (LWIP_MEM_ALIGN_SIZE c m)) = ?n" by (simp add: request_def max_def)
  have dn: "MIN_SIZE_ALIGNED c \<le> ?n" "MEM_ALIGNMENT c dvd ?n" using request_dvd [OF c] by (simp_all add: request_def)
  obtain us rest where us: "pre @ (sz, False) # post = us @ rest" "\<forall>b \<in> set us. snd b"
    "first_free c 0 (pre @ (sz, False) # post) = end_ofs c 0 us" using used_prefix .
  have lf: "lfree h = end_ofs c 0 us" "seg c h 0 0 (us @ rest)" "end_ofs c 0 (us @ rest) = ?N"
    using ok us by (simp_all add: heap_ok_def)
  have "fit_at c ?n 0 (us @ rest) = fit_at c ?n (end_ofs c 0 us) rest"
    using us(2) fit_at_None [of c ?n 0 us] by (auto simp: fit_at_append)
  moreover have "fit_at c ?n 0 (pre @ (sz, False) # post) = Some ?b"
    using first n fit_at_None [of c ?n 0 pre] by (simp add: fit_at_append)
  ultimately have search: "mem_search c h ?n (lfree h) = Some (Some ?b)"
    using mem_search_seg [OF c, of ?n h "lfree h" "last_ofs c 0 0 us" rest] lf n szN
    by (simp add: seg_append end_ofs_append us(1))
  have h1: "seg c h1 0 0 ?new" "mem_used h1 ?N"
    using take_block_seg [OF c ok n] by (simp_all add: h1_def)
  have lf1: "lfree h1 = first_free c 0 (pre @ (sz, False) # post)"
    using ok by (simp add: h1_def lfree_take_block heap_ok_def)
  have rest_ok: "end_ofs c 0 ?new = ?N" "sizes_ok c ?new" "no_adjacent_free ?new"
    using ok sizes_taken [OF c _ dn] no_adjacent_taken
    by (auto simp: heap_ok_def end_ofs_append end_ofs_taken)
  show ?thesis
  proof (cases "\<forall>b \<in> set pre. snd b")
    case True
    have lb: "lfree h1 = ?b" using lf1 first_free_pre [OF c] True by simp
    have "next_free c h1 ?b = Some (first_free c ?b (taken c ?n sz @ post))"
      using h1 rest_ok(1) by (intro next_free_seg [OF c h1(2), where p = "last_ofs c 0 0 pre"])
        (simp_all add: seg_append end_ofs_append)
    moreover have "first_free c ?b (taken c ?n sz @ post) = first_free c 0 ?new"
      using True by (simp add: first_free_append)
    ultimately have "mem_malloc c m h =
        Some (Some (?b + SIZEOF_STRUCT_MEM c), h1\<lparr>lfree := first_free c 0 ?new\<rparr>)"
      using m n szN search lb by (simp add: mem_malloc_def Let_def req flip: h1_def)
    moreover have "heap_ok c (h1\<lparr>lfree := first_free c 0 ?new\<rparr>) ?new"
      using h1 rest_ok by (simp add: heap_ok_def seg_lfree)
    ultimately show ?thesis by blast
  next
    case False
    then have "?b \<noteq> lfree h1" using lf1 first_free_pre [OF c, of pre sz post] by auto
    then have "mem_malloc c m h = Some (Some (?b + SIZEOF_STRUCT_MEM c), h1)"
      using m n szN search by (simp add: mem_malloc_def Let_def req flip: h1_def)
    moreover have "heap_ok c h1 ?new"
      using h1 rest_ok lf1 False first_free_taken by (auto simp: heap_ok_def)
    ultimately show ?thesis by blast
  qed
qed

lemma mem_malloc_full:
  assumes c: "cfg_ok c" and ok: "heap_ok c h bs" and full: "\<forall>x \<in> set bs. snd x \<or> fst x < request c m"
  shows "mem_malloc c m h = Some (None, h)"
proof -
  let ?n = "request c m" and ?N = "MEM_SIZE_ALIGNED c"
  have req: "(if mem_size_t (LWIP_MEM_ALIGN_SIZE c m) < MIN_SIZE_ALIGNED c then MIN_SIZE_ALIGNED c
              else mem_size_t (LWIP_MEM_ALIGN_SIZE c m)) = ?n" by (simp add: request_def max_def)
  obtain us rest where us: "bs = us @ rest" "\<forall>b \<in> set us. snd b"
    "first_free c 0 bs = end_ofs c 0 us" using used_prefix .
  have "mem_search c h ?n (lfree h) = Some None" if "?n \<le> ?N"
    using mem_search_seg [OF c that, of h "lfree h" "last_ofs c 0 0 us" rest] ok us full
      fit_at_None [of c ?n "lfree h" rest]
    by (simp add: heap_ok_def seg_append end_ofs_append)
  then show ?thesis by (simp add: mem_malloc_def Let_def req not_less)
qed

section \<open>Freeing\<close>

text \<open>Well-formed but for adjacent free blocks, which \<^verbatim>\<open>plug_holes\<close> removes.\<close>

definition heap_wf :: "mem_cfg \<Rightarrow> heap \<Rightarrow> block list \<Rightarrow> bool" where
  "heap_wf c h bs \<longleftrightarrow>
     seg c h 0 0 bs \<and> end_ofs c 0 bs = MEM_SIZE_ALIGNED c \<and> mem_used h (MEM_SIZE_ALIGNED c) \<and>
     sizes_ok c bs \<and> lfree h = first_free c 0 bs"

lemma heap_ok_wf: "heap_ok c h bs \<longleftrightarrow> heap_wf c h bs \<and> no_adjacent_free bs"
  by (auto simp: heap_ok_def heap_wf_def)

lemma heap_wfE:
  assumes "cfg_ok c" and "heap_wf c h (pre @ (sz, u) # post)"
  defines "b \<equiv> end_ofs c 0 pre"
  obtains "seg c h 0 0 pre" and "mem_next h b = b + SIZEOF_STRUCT_MEM c + sz"
    and "mem_prev h b = last_ofs c 0 0 pre" and "mem_used h b = u"
    and "seg c h (b + SIZEOF_STRUCT_MEM c + sz) b post"
    and "end_ofs c (b + SIZEOF_STRUCT_MEM c + sz) post = MEM_SIZE_ALIGNED c"
    and "b + SIZEOF_STRUCT_MEM c + sz \<le> MEM_SIZE_ALIGNED c"
    and "mem_used h (MEM_SIZE_ALIGNED c)"
  using assms end_ofs_ge [of "b + SIZEOF_STRUCT_MEM c + sz" c post]
  by (auto simp: heap_wf_def seg_append end_ofs_append)

lemma seg_head: "seg c h ofs p bs \<Longrightarrow> bs \<noteq> [] \<Longrightarrow> mem_prev h ofs = p"
  by (cases bs) auto

definition mark_free :: "nat \<Rightarrow> heap \<Rightarrow> heap" where
  "mark_free mem h =
     (let h = h\<lparr>mem_used := (mem_used h)(mem := False)\<rparr>
      in if mem < lfree h then h\<lparr>lfree := mem\<rparr> else h)"

definition plug_forward :: "mem_cfg \<Rightarrow> nat \<Rightarrow> heap \<Rightarrow> heap" where
  "plug_forward c mem h =
     (let nmem = mem_next h mem
      in if mem \<noteq> nmem \<and> \<not> mem_used h nmem \<and> nmem \<noteq> MEM_SIZE_ALIGNED c then
           h\<lparr>lfree := (if lfree h = nmem then mem else lfree h),
             mem_next := (mem_next h)(mem := mem_next h nmem),
             mem_prev := (mem_prev h)(mem_next h nmem := mem)\<rparr>
         else h)"

definition plug_backward :: "nat \<Rightarrow> heap \<Rightarrow> heap" where
  "plug_backward mem h =
     (let pmem = mem_prev h mem
      in if pmem \<noteq> mem \<and> \<not> mem_used h pmem then
           h\<lparr>lfree := (if lfree h = mem then pmem else lfree h),
             mem_next := (mem_next h)(pmem := mem_next h mem),
             mem_prev := (mem_prev h)(mem_next h mem := pmem)\<rparr>
         else h)"

lemma plug_holes_steps: "plug_holes c mem h = plug_backward mem (plug_forward c mem h)"
  by (simp add: plug_holes_def plug_forward_def plug_backward_def Let_def)

lemma mark_free_wf:
  assumes c: "cfg_ok c" and wf: "heap_wf c h (pre @ (sz, True) # post)"
  shows "heap_wf c (mark_free (end_ofs c 0 pre) h) (pre @ (sz, False) # post)"
proof -
  let ?S = "SIZEOF_STRUCT_MEM c" and ?b = "end_ofs c 0 pre" and ?N = "MEM_SIZE_ALIGNED c"
  let ?h = "mark_free ?b h"
  note cf = cfg_facts [OF c]
  obtain hp: "seg c h 0 0 pre" "mem_next h ?b = ?b + ?S + sz" "mem_prev h ?b = last_ofs c 0 0 pre"
    "seg c h (?b + ?S + sz) ?b post" "?b + ?S + sz \<le> ?N" "mem_used h ?N"
    using heap_wfE [OF c wf] by blast
  have ag: "agree h ?h 0 ?b" "agree h ?h (Suc ?b) x" for x
    by (auto simp: agree_def mark_free_def Let_def)
  have "seg c ?h 0 0 (pre @ [(sz, False)] @ post)"
  proof (rule seg_replace [OF c hp(1,4) _ _ ag(1)])
    show "seg c ?h ?b (last_ofs c 0 0 pre) [(sz, False)]"
      using hp(2,3) by (simp add: mark_free_def Let_def)
    show "agree h ?h (Suc (?b + ?S + sz)) (end_ofs c (?b + ?S + sz) post)"
      by (auto simp: agree_def mark_free_def Let_def)
    show "mem_next ?h (?b + ?S + sz) = mem_next h (?b + ?S + sz) \<and>
          mem_used ?h (?b + ?S + sz) = mem_used h (?b + ?S + sz) \<and>
          mem_prev ?h (?b + ?S + sz) = last_ofs c ?b (last_ofs c 0 0 pre) [(sz, False)]" if "post \<noteq> []"
      using seg_head [OF hp(4) that] cf(2) by (auto simp: mark_free_def Let_def)
  qed simp
  moreover have "mem_used ?h ?N" using hp(5,6) cf(2) by (auto simp: mark_free_def Let_def)
  moreover have "lfree ?h = first_free c 0 (pre @ (sz, False) # post)"
  proof (cases "\<forall>b \<in> set pre. snd b")
    case True
    then have "lfree h = first_free c (?b + ?S + sz) post"
      using wf by (simp add: heap_wf_def first_free_append)
    then have "?b < lfree h"
      using first_free_bounds [where ofs = "?b + ?S + sz" and c = c and bs = post] cf(2) by linarith
    then show ?thesis using True by (simp add: mark_free_def first_free_append)
  next
    case False
    then have "lfree h = first_free c 0 pre" "first_free c 0 pre < ?b"
      using wf first_free_lt [OF c, of pre 0] by (auto simp: heap_wf_def first_free_append)
    then show ?thesis using False by (auto simp: mark_free_def first_free_append)
  qed
  moreover have "end_ofs c 0 (pre @ (sz, False) # post) = ?N" "sizes_ok c (pre @ (sz, False) # post)"
    using wf by (auto simp: heap_wf_def end_ofs_append sizes_ok_def)
  ultimately show ?thesis by (simp add: heap_wf_def)
qed

lemma plug_forward_id:
  assumes c: "cfg_ok c" and wf: "heap_wf c h (pre @ (sz, u) # post)"
    and "post = [] \<or> snd (hd post)"
  shows "plug_forward c (end_ofs c 0 pre) h = h"
proof -
  let ?b = "end_ofs c 0 pre"
  obtain hp: "mem_next h ?b = ?b + SIZEOF_STRUCT_MEM c + sz"
    "seg c h (?b + SIZEOF_STRUCT_MEM c + sz) ?b post"
    "end_ofs c (?b + SIZEOF_STRUCT_MEM c + sz) post = MEM_SIZE_ALIGNED c"
    using heap_wfE [OF c wf] by blast
  then show ?thesis using assms(3)
    by (cases post) (auto simp: plug_forward_def Let_def)
qed

lemma plug_forward_wf:
  assumes c: "cfg_ok c" and wf: "heap_wf c h (pre @ (sz, False) # (s2, False) # post)"
  shows "heap_wf c (plug_forward c (end_ofs c 0 pre) h) (pre @ (sz + SIZEOF_STRUCT_MEM c + s2, False) # post)"
proof -
  let ?S = "SIZEOF_STRUCT_MEM c" and ?b = "end_ofs c 0 pre" and ?N = "MEM_SIZE_ALIGNED c"
  let ?h = "plug_forward c ?b h" and ?n = "?b + ?S + sz" and ?e = "?b + ?S + sz + ?S + s2"
  note cf = cfg_facts [OF c]
  obtain hp: "seg c h 0 0 pre" "mem_next h ?b = ?n" "mem_prev h ?b = last_ofs c 0 0 pre"
    "mem_used h ?b = False" "mem_used h ?N"
    "seg c h ?n ?b ((s2, False) # post)" "end_ofs c ?n ((s2, False) # post) = ?N"
    using heap_wfE [OF c wf] by blast
  have nx: "mem_next h ?n = ?e" "\<not> mem_used h ?n" "seg c h ?e ?n post" "end_ofs c ?e post = ?N"
    using hp(6,7) by simp_all
  have eN: "?e \<le> ?N" using end_ofs_ge [of ?e c post] nx(4) by simp
  have f: "?h = h\<lparr>lfree := (if lfree h = ?n then ?b else lfree h),
      mem_next := (mem_next h)(?b := ?e), mem_prev := (mem_prev h)(?e := ?b)\<rparr>"
    using hp(2) nx eN cf(2) by (simp add: plug_forward_def Let_def)
  have lf: "lfree h = first_free c 0 (pre @ (sz, False) # (s2, False) # post)"
    using wf by (simp add: heap_wf_def)
  then have "lfree h \<le> ?b" using first_free_bounds [of 0 c pre] by (auto simp: first_free_append)
  then have lf': "lfree ?h = lfree h" using f cf(2) by auto
  have "seg c ?h 0 0 (pre @ [(sz + ?S + s2, False)] @ post)"
  proof (rule seg_replace [OF c hp(1) nx(3)])
    show "seg c ?h ?b (last_ofs c 0 0 pre) [(sz + ?S + s2, False)]"
      using hp(2-4) cf(2) unfolding f by (simp add: algebra_simps)
    show "end_ofs c ?b [(sz + ?S + s2, False)] = ?e" by simp
    show "agree h ?h 0 ?b" "agree h ?h (Suc ?e) (end_ofs c ?e post)"
      unfolding f by (auto simp: agree_def)
    show "mem_next ?h ?e = mem_next h ?e \<and> mem_used ?h ?e = mem_used h ?e \<and>
          mem_prev ?h ?e = last_ofs c ?b (last_ofs c 0 0 pre) [(sz + ?S + s2, False)]"
      unfolding f using cf(2) by simp
  qed
  moreover have "mem_used ?h ?N" unfolding f using hp(5) by simp
  ultimately show ?thesis
    using wf lf lf' unfolding heap_wf_def
    by (auto simp: end_ofs_append sizes_ok_def first_free_append add.assoc cf intro!: dvd_add)
qed

lemma plug_backward_id:
  assumes c: "cfg_ok c" and wf: "heap_wf c h (pre @ (sz, u) # post)"
    and "pre = [] \<or> snd (last pre)"
  shows "plug_backward (end_ofs c 0 pre) h = h"
proof (cases pre rule: rev_cases)
  case Nil
  then have "mem_prev h (end_ofs c 0 pre) = end_ofs c 0 pre"
    using wf by (simp add: heap_wf_def)
  then show ?thesis by (simp add: plug_backward_def)
next
  case (snoc pre' x)
  obtain s0 u0 where x: "x = (s0, u0)" by (cases x)
  have "mem_used h (end_ofs c 0 pre') = u0"
    using wf by (simp add: heap_wf_def snoc x seg_append)
  moreover have "mem_prev h (end_ofs c 0 pre) = end_ofs c 0 pre'"
    using wf by (simp add: heap_wf_def snoc x seg_append end_ofs_append)
  ultimately show ?thesis using assms(3) snoc x by (simp add: plug_backward_def Let_def)
qed

lemma plug_backward_wf:
  assumes c: "cfg_ok c" and wf: "heap_wf c h (pre @ (s0, False) # (sz, False) # post)"
  shows "heap_wf c (plug_backward (end_ofs c 0 (pre @ [(s0, False)])) h)
           (pre @ (s0 + SIZEOF_STRUCT_MEM c + sz, False) # post)"
proof -
  let ?S = "SIZEOF_STRUCT_MEM c" and ?p = "end_ofs c 0 pre" and ?N = "MEM_SIZE_ALIGNED c"
  let ?b = "?p + ?S + s0" and ?e = "?p + ?S + s0 + ?S + sz"
  let ?h = "plug_backward ?b h"
  note cf = cfg_facts [OF c]
  obtain hp: "seg c h 0 0 pre" "mem_next h ?p = ?b" "mem_prev h ?p = last_ofs c 0 0 pre"
    "mem_used h ?p = False" "mem_used h ?N"
    "seg c h ?b ?p ((sz, False) # post)" "end_ofs c ?b ((sz, False) # post) = ?N"
    using heap_wfE [OF c wf] by blast
  have nx: "mem_next h ?b = ?e" "mem_prev h ?b = ?p" "seg c h ?e ?b post" "end_ofs c ?e post = ?N"
    using hp(6,7) by simp_all
  have f: "?h = h\<lparr>lfree := (if lfree h = ?b then ?p else lfree h),
      mem_next := (mem_next h)(?p := ?e), mem_prev := (mem_prev h)(?e := ?p)\<rparr>"
    using hp(4) nx cf(2) by (simp add: plug_backward_def Let_def)
  have lf: "lfree h = first_free c 0 (pre @ (s0, False) # (sz, False) # post)"
    using wf by (simp add: heap_wf_def)
  then have "lfree h \<le> ?p" using first_free_bounds [of 0 c pre] by (auto simp: first_free_append)
  then have lf': "lfree ?h = lfree h" using f cf(2) by auto
  have "seg c ?h 0 0 (pre @ [(s0 + ?S + sz, False)] @ post)"
  proof (rule seg_replace [OF c hp(1) nx(3)])
    show "seg c ?h ?p (last_ofs c 0 0 pre) [(s0 + ?S + sz, False)]"
      using hp(2-4) cf(2) unfolding f by (simp add: algebra_simps)
    show "end_ofs c ?p [(s0 + ?S + sz, False)] = ?e" by simp
    show "agree h ?h 0 ?p" "agree h ?h (Suc ?e) (end_ofs c ?e post)"
      unfolding f by (auto simp: agree_def)
    show "mem_next ?h ?e = mem_next h ?e \<and> mem_used ?h ?e = mem_used h ?e \<and>
          mem_prev ?h ?e = last_ofs c ?p (last_ofs c 0 0 pre) [(s0 + ?S + sz, False)]"
      unfolding f using cf(2) by simp
  qed
  moreover have "mem_used ?h ?N" unfolding f using hp(5) by simp
  ultimately show ?thesis
    using wf lf lf' unfolding heap_wf_def
    by (auto simp: end_ofs_append sizes_ok_def first_free_append add.assoc cf intro!: dvd_add)
qed

text \<open>A freed block of \<open>sz\<close> bytes, merged with free neighbours.\<close>

definition join_next :: "mem_cfg \<Rightarrow> nat \<Rightarrow> block list \<Rightarrow> block list" where
  "join_next c sz post =
     (case post of (s2, False) # r \<Rightarrow> (sz + SIZEOF_STRUCT_MEM c + s2, False) # r
      | _ \<Rightarrow> (sz, False) # post)"

definition join_prev :: "mem_cfg \<Rightarrow> block list \<Rightarrow> block list \<Rightarrow> block list" where
  "join_prev c pre bs =
     (case (rev pre, bs) of
        ((s0, False) # r, (sz, _) # post) \<Rightarrow> rev r @ (s0 + SIZEOF_STRUCT_MEM c + sz, False) # post
      | _ \<Rightarrow> pre @ bs)"

definition coalesce :: "mem_cfg \<Rightarrow> block list \<Rightarrow> nat \<Rightarrow> block list \<Rightarrow> block list" where
  "coalesce c pre sz post = join_prev c pre (join_next c sz post)"

lemma plug_forward_join:
  assumes c: "cfg_ok c" and wf: "heap_wf c h (pre @ (sz, False) # post)"
  shows "heap_wf c (plug_forward c (end_ofs c 0 pre) h) (pre @ join_next c sz post)"
proof (cases "post = [] \<or> snd (hd post)")
  case True
  then have "join_next c sz post = (sz, False) # post"
    by (cases post) (auto simp: join_next_def)
  then show ?thesis using plug_forward_id [OF c wf True] wf by simp
next
  case False
  then obtain s2 r where "post = (s2, False) # r" by (cases post) auto
  then show ?thesis using plug_forward_wf [OF c] wf by (simp add: join_next_def)
qed

lemma plug_backward_join:
  assumes c: "cfg_ok c" and wf: "heap_wf c h (pre @ (sz, False) # post)"
  shows "heap_wf c (plug_backward (end_ofs c 0 pre) h) (join_prev c pre ((sz, False) # post))"
proof (cases "pre = [] \<or> snd (last pre)")
  case True
  then have "join_prev c pre ((sz, False) # post) = pre @ (sz, False) # post"
    by (cases pre rule: rev_cases) (auto simp: join_prev_def)
  then show ?thesis using plug_backward_id [OF c wf True] wf by simp
next
  case False
  then obtain s0 r where "pre = r @ [(s0, False)]" by (cases pre rule: rev_cases) auto
  then show ?thesis using plug_backward_wf [OF c, of h r s0 sz post] wf by (simp add: join_prev_def)
qed

lemma no_adjacent_coalesce:
  assumes "no_adjacent_free (pre @ (sz, True) # post)"
  shows "no_adjacent_free (coalesce c pre sz post)"
proof -
  obtain sz' r where j: "join_next c sz post = (sz', False) # r" "r = [] \<or> snd (hd r)"
    "no_adjacent_free r"
  proof (cases "post = [] \<or> snd (hd post)")
    case True
    then show ?thesis using that [of sz post] assms
      by (cases post) (auto simp: join_next_def no_adjacent_free_def successively_append_iff successively_Cons)
  next
    case False
    then obtain s2 q where "post = (s2, False) # q" by (cases post) auto
    then show ?thesis using that [of "sz + SIZEOF_STRUCT_MEM c + s2" q] assms
      by (auto simp: join_next_def no_adjacent_free_def successively_append_iff successively_Cons)
  qed
  show ?thesis
  proof (cases "pre = [] \<or> snd (last pre)")
    case True
    then have "coalesce c pre sz post = pre @ (sz', False) # r"
      by (cases pre rule: rev_cases) (auto simp: coalesce_def j(1) join_prev_def)
    then show ?thesis using True j(2,3) assms
      by (auto simp: no_adjacent_free_def successively_append_iff successively_Cons)
  next
    case False
    then obtain s0 q where "pre = q @ [(s0, False)]" by (cases pre rule: rev_cases) auto
    then show ?thesis using j assms
      by (auto simp: coalesce_def join_prev_def no_adjacent_free_def successively_append_iff successively_Cons)
  qed
qed

lemma allocated_coalesce:
  "allocated c 0 (coalesce c pre sz post) =
     allocated c 0 pre @ allocated c (end_ofs c 0 pre + SIZEOF_STRUCT_MEM c + sz) post"
proof -
  obtain sz' r where j: "join_next c sz post = (sz', False) # r"
    "allocated c (ofs + SIZEOF_STRUCT_MEM c + sz') r = allocated c (ofs + SIZEOF_STRUCT_MEM c + sz) post" for ofs
    by (cases "post = [] \<or> snd (hd post)"; cases post)
      (auto simp: join_next_def add.assoc split: bool.splits)
  show ?thesis
  proof (cases "pre = [] \<or> snd (last pre)")
    case True
    then have "coalesce c pre sz post = pre @ (sz', False) # r"
      by (cases pre rule: rev_cases) (auto simp: coalesce_def j(1) join_prev_def)
    then show ?thesis by (simp add: allocated_append j(2))
  next
    case False
    then obtain s0 q where "pre = q @ [(s0, False)]" by (cases pre rule: rev_cases) auto
    then show ?thesis using j(2) [of "end_ofs c 0 q + SIZEOF_STRUCT_MEM c + s0"]
      by (simp add: coalesce_def j(1) join_prev_def allocated_append end_ofs_append add.assoc)
  qed
qed

lemma mem_free_block:
  assumes c: "cfg_ok c" and ok: "heap_ok c h (pre @ (sz, True) # post)"
  shows "heap_ok c (mem_free c (Some (int (end_ofs c 0 pre + SIZEOF_STRUCT_MEM c))) h) (coalesce c pre sz post)"
proof -
  let ?b = "end_ofs c 0 pre" and ?S = "SIZEOF_STRUCT_MEM c"
  have wf: "heap_wf c h (pre @ (sz, True) # post)" and na: "no_adjacent_free (pre @ (sz, True) # post)"
    using ok by (simp_all add: heap_ok_wf)
  have le: "?b + ?S + sz \<le> MEM_SIZE_ALIGNED c" "0 < sz"
    using heap_okE [OF c ok] cfg_facts(3) [OF c] by (metis, metis order_less_le_trans)
  then have f: "mem_free c (Some (int (?b + ?S))) h =
      plug_backward ?b (plug_forward c ?b (mark_free ?b h))"
    by (simp add: mem_free_def mark_free_def plug_holes_steps Let_def)
  obtain sz' r where j: "join_next c sz post = (sz', False) # r"
    by (cases "post = [] \<or> snd (hd post)"; cases post) (auto simp: join_next_def)
  have "heap_wf c (plug_forward c ?b (mark_free ?b h)) (pre @ join_next c sz post)"
    by (rule plug_forward_join [OF c mark_free_wf [OF c wf]])
  then have "heap_wf c (plug_backward ?b (plug_forward c ?b (mark_free ?b h))) (coalesce c pre sz post)"
    using plug_backward_join [OF c] by (simp add: coalesce_def j)
  then show ?thesis unfolding f heap_ok_wf using no_adjacent_coalesce [OF na] by simp
qed

lemma mem_init_ok:
  assumes c: "cfg_ok c"
  shows "heap_ok c (mem_init c h) [(MEM_SIZE_ALIGNED c - SIZEOF_STRUCT_MEM c, False)]"
  using cfg_facts [OF c]
  by (auto simp: heap_ok_def mem_init_def Let_def sizes_ok_def no_adjacent_free_def intro!: dvd_diff_nat)

end
