(* ===== verification/Mem_Spec.thy ===== *)
theory Mem_Spec
  imports Mem
begin

text \<open>
  \<^verbatim>\<open>mem_trim\<close> on well-formed heaps, and the properties of the allocator of \<open>Mem\<close>: every operation
  keeps the heap well formed, allocation is first fit, complete and aligned, the allocated
  blocks are exactly those the operations say and never overlap, and freeing everything
  gives back one block.
\<close>

section \<open>Trimming\<close>

definition trimmed :: "mem_cfg \<Rightarrow> nat \<Rightarrow> nat \<Rightarrow> block list \<Rightarrow> block list" where
  "trimmed c n sz post =
     (if n < sz \<and> post \<noteq> [] \<and> \<not> snd (hd post) then (n, True) # (sz - n + fst (hd post), False) # tl post
      else if n < sz \<and> n + SIZEOF_STRUCT_MEM c + MIN_SIZE_ALIGNED c \<le> sz
      then (n, True) # (sz - n - SIZEOF_STRUCT_MEM c, False) # post
      else (sz, True) # post)"

text \<open>The header that both cases of \<^verbatim>\<open>mem_trim\<close> write behind the shrunk block.\<close>

definition cut :: "mem_cfg \<Rightarrow> nat \<Rightarrow> nat \<Rightarrow> nat \<Rightarrow> nat \<Rightarrow> heap \<Rightarrow> heap" where
  "cut c b p2 nxt lf h =
     relink c p2 (h\<lparr>lfree := lf, mem_used := (mem_used h)(p2 := False),
       mem_next := (mem_next h)(p2 := nxt, b := p2), mem_prev := (mem_prev h)(p2 := b)\<rparr>)"

lemma cut_wf:
  assumes c: "cfg_ok c" and pre: "seg c h 0 0 pre" and b: "b = end_ofs c 0 pre"
    and hd: "mem_prev h b = last_ofs c 0 0 pre" "mem_used h b"
    and post: "seg c h e q post" "end_ofs c e post = MEM_SIZE_ALIGNED c"
    and e: "e = b + SIZEOF_STRUCT_MEM c + n + SIZEOF_STRUCT_MEM c + m"
    and N: "mem_used h (MEM_SIZE_ALIGNED c)"
    and sz: "sizes_ok c (pre @ (n, True) # (m, False) # post)"
    and lf: "lf = first_free c 0 (pre @ (n, True) # (m, False) # post)"
  shows "heap_wf c (cut c b (b + SIZEOF_STRUCT_MEM c + n) e lf h) (pre @ (n, True) # (m, False) # post)"
proof -
  let ?S = "SIZEOF_STRUCT_MEM c" and ?N = "MEM_SIZE_ALIGNED c"
  let ?p2 = "b + ?S + n" and ?mid = "[(n, True), (m, False)]"
  let ?h = "cut c b ?p2 e lf h"
  note cf = cfg_facts [OF c]
  have eN: "e \<le> ?N" using end_ofs_ge [of e c post] post(2) by simp
  have np: "e = ?N \<longleftrightarrow> post = []" using seg_nonempty_end [OF c] post(2) by metis
  have "seg c ?h 0 0 (pre @ ?mid @ post)"
  proof (rule seg_replace [OF c pre post(1)])
    show "end_ofs c (end_ofs c 0 pre) ?mid = e" using e b by simp
    show "seg c ?h (end_ofs c 0 pre) (last_ofs c 0 0 pre) ?mid"
      using hd e cf(2) unfolding b [symmetric] by (auto simp: cut_def relink_def Let_def)
    show "agree h ?h 0 (end_ofs c 0 pre)" "agree h ?h (Suc e) (end_ofs c e post)"
      using e cf(2) unfolding b [symmetric] by (auto simp: cut_def relink_def Let_def agree_def)
    show "mem_next ?h e = mem_next h e \<and> mem_used ?h e = mem_used h e \<and>
          mem_prev ?h e = last_ofs c (end_ofs c 0 pre) (last_ofs c 0 0 pre) ?mid" if "post \<noteq> []"
      using that np e cf(2) unfolding b [symmetric] by (auto simp: cut_def relink_def Let_def)
  qed
  moreover have "mem_used ?h ?N" using N e eN cf(2) by (auto simp: cut_def relink_def Let_def)
  moreover have "lfree ?h = lf" by (simp add: cut_def relink_def Let_def)
  ultimately show ?thesis
    using sz lf post(2) e b by (simp add: heap_wf_def end_ofs_append)
qed

lemma mem_trim_block:
  assumes c: "cfg_ok c" and ok: "heap_ok c h (pre @ (sz, True) # post)"
    and n: "request c m \<le> sz"
  defines "b \<equiv> end_ofs c 0 pre"
  shows "\<exists>h'. mem_trim c (int (b + SIZEOF_STRUCT_MEM c)) m h = (Some (int (b + SIZEOF_STRUCT_MEM c)), h') \<and>
             heap_ok c h' (pre @ trimmed c (request c m) sz post)"
proof -
  let ?S = "SIZEOF_STRUCT_MEM c" and ?N = "MEM_SIZE_ALIGNED c" and ?n = "request c m" and ?M = "MIN_SIZE_ALIGNED c"
  let ?r = "int (b + ?S)" and ?e = "b + ?S + sz" and ?p2 = "b + ?S + ?n"
  note cf = cfg_facts [OF c]
  obtain hp: "seg c h 0 0 pre" "mem_next h b = ?e" "mem_prev h b = last_ofs c 0 0 pre"
    "mem_used h b = True" "seg c h ?e b post" "end_ofs c ?e post = ?N" "?e \<le> ?N" "mem_used h ?N"
    "?M \<le> sz" "MEM_ALIGNMENT c dvd sz"
    using heap_okE [OF c ok] unfolding b_def by blast
  have wf: "heap_wf c h (pre @ (sz, True) # post)" and na: "no_adjacent_free (pre @ (sz, True) # post)"
    using ok by (simp_all add: heap_ok_wf)
  have lf: "lfree h = first_free c 0 (pre @ (sz, True) # post)" using ok by (simp add: heap_ok_def)
  have szs: "sizes_ok c (pre @ (sz, True) # post)" using ok by (simp add: heap_ok_def)
  have dn: "?M \<le> ?n" "MEM_ALIGNMENT c dvd ?n" using request_dvd [OF c] by (simp_all add: request_def)
  have req: "(if mem_size_t (LWIP_MEM_ALIGN_SIZE c m) < ?M then ?M
              else mem_size_t (LWIP_MEM_ALIGN_SIZE c m)) = ?n" by (simp add: request_def max_def)
  have old: "mem_size_t (sub32 (sub32 (mem_next h b) b) ?S) = sz"
    using hp(2,7) cf(4) by (simp add: sub32_id mem_size_t_def)
  have p2: "mem_size_t (b + ?S + ?n) = ?p2" using hp(7) n cf(4) by (simp add: mem_size_t_def)
  have r: "\<not> ?r < 0" "\<not> ?r \<ge> int ?N" "nat (?r - int ?S) = b" "\<not> ?n > ?N"
    using hp(7,9) cf(3) n by auto
  show ?thesis
  proof (cases "?n < sz")
    case False
    then have "mem_trim c ?r m h = (Some ?r, h)" using n r old by (simp add: mem_trim_def Let_def req)
    then show ?thesis using False ok by (simp add: trimmed_def)
  next
    case lt: True
    show ?thesis
    proof (cases "post = [] \<or> snd (hd post)")
      case False
      then obtain s2 r' where post: "post = (s2, False) # r'" by (cases post) auto
      let ?e2 = "?e + ?S + s2" and ?new = "pre @ (?n, True) # (sz - ?n + s2, False) # r'"
      have nx: "mem_next h ?e = ?e2" "\<not> mem_used h ?e" "seg c h ?e2 ?e r'" "end_ofs c ?e2 r' = ?N"
        using hp(5,6) post by simp_all
      define lf' where "lf' = (if lfree h = ?e then ?p2 else lfree h)"
      have "lf' = first_free c 0 ?new"
      proof (cases "\<forall>b \<in> set pre. snd b")
        case False
        then have "first_free c 0 pre < b" using first_free_lt [OF c, of pre 0] by (auto simp: b_def)
        then show ?thesis using False lf by (auto simp: lf'_def first_free_append)
      qed (auto simp: lf'_def lf first_free_append post b_def)
      moreover have "sizes_ok c ?new"
        using szs lt dn by (auto simp: sizes_ok_def post intro!: dvd_diff_nat dvd_add)
      ultimately have "heap_wf c (cut c b ?p2 ?e2 lf' h) ?new"
        using lt by (intro cut_wf [OF c hp(1) b_def [THEN meta_eq_to_obj_eq] hp(3) _ nx(3,4) _ hp(8)])
          (simp_all add: hp(4))
      moreover have "no_adjacent_free ?new"
        using na post by (auto simp: no_adjacent_free_def successively_append_iff successively_Cons)
      moreover have "mem_trim c ?r m h = (Some ?r, cut c b ?p2 ?e2 lf' h)"
        using lt r old p2 hp(2) nx
        by (simp add: mem_trim_def Let_def req cut_def lf'_def)
      ultimately show ?thesis using lt by (simp add: trimmed_def post heap_ok_wf)
    next
      case True
      have nu: "mem_used h ?e"
        using True hp(5,6,8) by (cases post) auto
      show ?thesis
      proof (cases "?n + ?S + ?M \<le> sz")
        case False
        then have "mem_trim c ?r m h = (Some ?r, h)"
          using lt r old hp(2) nu by (simp add: mem_trim_def Let_def req)
        then show ?thesis using False True ok by (auto simp: trimmed_def)
      next
        case room: True
        let ?new = "pre @ (?n, True) # (sz - ?n - ?S, False) # post"
        define lf' where "lf' = (if ?p2 < lfree h then ?p2 else lfree h)"
        have "lf' = first_free c 0 ?new"
        proof (cases "\<forall>b \<in> set pre. snd b")
          case False
          then have "first_free c 0 pre < b" using first_free_lt [OF c, of pre 0] by (auto simp: b_def)
          then show ?thesis using False lf by (auto simp: lf'_def first_free_append)
        next
          case True
          then have "lfree h = first_free c ?e post" using lf by (simp add: first_free_append b_def)
          then have "?p2 < lfree h" using first_free_bounds [of ?e c post] lt by linarith
          then show ?thesis using True by (simp add: lf'_def first_free_append b_def)
        qed
        moreover have "sizes_ok c ?new"
          using szs room dn cf(6) by (auto simp: sizes_ok_def intro!: dvd_diff_nat)
        ultimately have "heap_wf c (cut c b ?p2 ?e lf' h) ?new"
          using room by (intro cut_wf [OF c hp(1) b_def [THEN meta_eq_to_obj_eq] hp(3) _ hp(5,6) _ hp(8)])
            (simp_all add: hp(4))
        moreover have "no_adjacent_free ?new"
          using na True by (auto simp: no_adjacent_free_def successively_append_iff successively_Cons)
        moreover have "mem_trim c ?r m h = (Some ?r, cut c b ?p2 ?e lf' h)"
          using lt room r old p2 hp(2) nu
          by (simp add: mem_trim_def Let_def req cut_def lf'_def)
        ultimately show ?thesis using lt room True by (auto simp: trimmed_def heap_ok_wf)
      qed
    qed
  qed
qed

section \<open>The allocated blocks\<close>

lemma allocated_bounds:
  "(q, k) \<in> set (allocated c ofs bs) \<Longrightarrow> ofs + SIZEOF_STRUCT_MEM c \<le> q \<and> q + k \<le> end_ofs c ofs bs"
proof (induction bs arbitrary: ofs)
  case (Cons b bs)
  obtain sz u where b: "b = (sz, u)" by (cases b)
  let ?o = "ofs + SIZEOF_STRUCT_MEM c + sz"
  show ?case using Cons.IH [of ?o] Cons.prems b end_ofs_ge [of ?o c bs] by (auto split: if_splits)
qed simp

lemma allocatedE:
  assumes "(q, k) \<in> set (allocated c ofs bs)"
  obtains pre post where "bs = pre @ (k, True) # post" and "q = end_ofs c ofs pre + SIZEOF_STRUCT_MEM c"
  using assms
proof (induction bs arbitrary: ofs thesis)
  case (Cons b bs)
  obtain sz u where b: "b = (sz, u)" by (cases b)
  show ?case
  proof (cases "u \<and> (q, k) = (ofs + SIZEOF_STRUCT_MEM c, sz)")
    case True
    then show ?thesis using Cons.prems(1) [of "[]" bs] b by simp
  next
    case False
    then have "(q, k) \<in> set (allocated c (ofs + SIZEOF_STRUCT_MEM c + sz) bs)"
      using Cons.prems(2) b by (auto split: if_splits)
    with Cons.IH obtain pre post where "bs = pre @ (k, True) # post"
      "q = end_ofs c (ofs + SIZEOF_STRUCT_MEM c + sz) pre + SIZEOF_STRUCT_MEM c" by blast
    then show ?thesis using Cons.prems(1) [of "b # pre" post] b by simp
  qed
qed simp

lemma all_free_single:
  assumes "no_adjacent_free bs" and "allocated c ofs bs = []"
  shows "length bs \<le> 1"
proof (rule ccontr)
  assume "\<not> length bs \<le> 1"
  then obtain a u b v r where "bs = (a, u) # (b, v) # r"
    by (cases bs; cases "tl bs") auto
  then show False using assms by (auto simp: no_adjacent_free_def split: if_splits)
qed

lemma request_ge:
  assumes c: "cfg_ok c" and "m + MEM_ALIGNMENT c \<le> 65536"
  shows "m \<le> request c m"
proof -
  have "LWIP_MEM_ALIGN_SIZE c m < 65536"
    using assms(2) cfg_facts(1) [OF c] by (simp add: LWIP_MEM_ALIGN_SIZE_def)
  then have "mem_size_t (LWIP_MEM_ALIGN_SIZE c m) = LWIP_MEM_ALIGN_SIZE c m" by (simp add: mem_size_t_def)
  then show ?thesis using align_ge [OF cfg_facts(1) [OF c], of m] by (simp add: request_def)
qed

text \<open>A successful allocation, whatever block it takes.\<close>

lemma mem_malloc_result:
  assumes c: "cfg_ok c" and ok: "heap_ok c h bs" and "mem_malloc c m h = Some (Some p, h')"
  obtains pre sz post where "bs = pre @ (sz, False) # post" and "request c m \<le> sz"
    and "p = end_ofs c 0 pre + SIZEOF_STRUCT_MEM c"
    and "heap_ok c h' (pre @ taken c (request c m) sz @ post)"
proof -
  have m: "0 < m" using assms(3) by (cases m) (auto simp: mem_malloc_def)
  show ?thesis
  proof (cases "fit_at c (request c m) 0 bs")
    case None
    then show ?thesis using mem_malloc_full [OF c ok] assms(3) by (simp add: fit_at_None)
  next
    case (Some b)
    then obtain pre sz post where bs: "bs = pre @ (sz, False) # post" "request c m \<le> sz"
      "b = end_ofs c 0 pre" "\<forall>x \<in> set pre. snd x \<or> fst x < request c m"
      using fit_at_Some [OF Some] by blast
    then obtain h'' where "mem_malloc c m h = Some (Some (end_ofs c 0 pre + SIZEOF_STRUCT_MEM c), h'')"
      "heap_ok c h'' (pre @ taken c (request c m) sz @ post)"
      using mem_malloc_fit [OF c _ bs(2) m bs(4)] ok by blast
    then show ?thesis using that bs assms(3) by simp
  qed
qed

lemma allocated_taken:
  "allocated c ofs (taken c n sz) = [(ofs + SIZEOF_STRUCT_MEM c, hd (map fst (taken c n sz)))]"
  by (simp add: taken_def)

section \<open>Properties\<close>

text \<open>The default configuration of \<^verbatim>\<open>opt.h\<close>, for the instances.\<close>

definition default_cfg :: mem_cfg where
  "default_cfg = \<lparr>MEM_ALIGNMENT = 1, MEM_SIZE = 1600, MIN_SIZE = 12\<rparr>"

definition blank_heap :: heap where
  "blank_heap = \<lparr>mem_next = \<lambda>_. 0, mem_prev = \<lambda>_. 0, mem_used = \<lambda>_. False, lfree = 0, ram_data = \<lambda>_. 0xa5\<rparr>"

lemma default_values:
  "MEM_SIZE_ALIGNED default_cfg = 1600" "SIZEOF_STRUCT_MEM default_cfg = 6"
  "MIN_SIZE_ALIGNED default_cfg = 12" "MEM_ALIGNMENT default_cfg = 1"
  by (simp_all add: default_cfg_def MEM_SIZE_ALIGNED_def SIZEOF_STRUCT_MEM_def MIN_SIZE_ALIGNED_def
      LWIP_MEM_ALIGN_SIZE_def)

lemma default_ok: "cfg_ok default_cfg"
  by (simp add: cfg_ok_def default_values) (simp add: default_cfg_def)

lemma default_request: "request default_cfg m = max 12 (m mod 65536)"
  by (simp add: request_def default_values mem_size_t_def LWIP_MEM_ALIGN_SIZE_def)

lemma default_init: "heap_ok default_cfg (mem_init default_cfg blank_heap) [(1594, False)]"
  using mem_init_ok [OF default_ok, of blank_heap] by (simp add: default_values)

text \<open>Property C6: \<^verbatim>\<open>mem_malloc\<close> ends on a well-formed heap, takes the first free block that is
  large enough, splits it if a further block fits behind, and returns NULL exactly when no
  free block is large enough; the heap stays well formed, with no two adjacent free blocks
  and \<^verbatim>\<open>lfree\<close> at the lowest free one.\<close>

theorem mem_malloc_first_fit:
  assumes "cfg_ok c" and "heap_ok c h bs" and "0 < m"
  shows "case fit_at c (request c m) 0 bs of
      None \<Rightarrow> mem_malloc c m h = Some (None, h) \<and> (\<forall>(sz, u) \<in> set bs. u \<or> sz < request c m)
    | Some b \<Rightarrow> (\<exists>pre sz post h'. bs = pre @ (sz, False) # post \<and> b = end_ofs c 0 pre \<and> request c m \<le> sz \<and>
        (\<forall>x \<in> set pre. snd x \<or> fst x < request c m) \<and>
        mem_malloc c m h = Some (Some (b + SIZEOF_STRUCT_MEM c), h') \<and>
        heap_ok c h' (pre @ taken c (request c m) sz @ post))"
proof (cases "fit_at c (request c m) 0 bs")
  case None
  then have "\<forall>b \<in> set bs. snd b \<or> fst b < request c m" by (simp add: fit_at_None)
  with None show ?thesis using mem_malloc_full [OF assms(1,2)] by auto
next
  case (Some b)
  obtain pre sz post where bs: "bs = pre @ (sz, False) # post" "request c m \<le> sz"
    "b = end_ofs c 0 pre" "\<forall>x \<in> set pre. snd x \<or> fst x < request c m"
    using fit_at_Some [OF Some] by blast
  with mem_malloc_fit [OF assms(1) _ bs(2) assms(3) bs(4)] assms(2) show ?thesis
    unfolding Some option.case by blast
qed

lemma mem_malloc_first_fit_witness:
  "\<exists>h'. mem_malloc default_cfg 100 (mem_init default_cfg blank_heap) = Some (Some 6, h') \<and>
        heap_ok default_cfg h' [(100, True), (1488, False)]"
  using mem_malloc_first_fit [OF default_ok default_init, of 100]
  by (auto simp: default_request default_values taken_def Cons_eq_append_conv)

text \<open>The pointer \<^verbatim>\<open>mem_malloc\<close> returns is aligned and points to a block of at least
  the requested size inside the heap that overlaps no block allocated before; all of those
  stay allocated.  (The request must leave room for the alignment below 65536.)\<close>

lemma mem_malloc_safe:
  assumes "cfg_ok c" and "heap_ok c h bs" and "mem_malloc c m h = Some (Some p, h')"
    and "m + MEM_ALIGNMENT c \<le> 65536"
  shows "\<exists>bs' n. heap_ok c h' bs' \<and> set (allocated c 0 bs') = insert (p, n) (set (allocated c 0 bs)) \<and>
     m \<le> n \<and> p + n \<le> MEM_SIZE_ALIGNED c \<and> MEM_ALIGNMENT c dvd p \<and>
     (\<forall>(q, k) \<in> set (allocated c 0 bs). p + n \<le> q \<or> q + k \<le> p)"
proof -
  let ?S = "SIZEOF_STRUCT_MEM c"
  obtain pre sz post where bs: "bs = pre @ (sz, False) # post" "request c m \<le> sz"
    "p = end_ofs c 0 pre + ?S" "heap_ok c h' (pre @ taken c (request c m) sz @ post)"
    using mem_malloc_result [OF assms(1-3)] .
  define n where "n = hd (map fst (taken c (request c m) sz))"
  have n: "request c m \<le> n" "n \<le> sz" using bs(2) by (auto simp: n_def taken_def)
  have alloc: "set (allocated c 0 (pre @ taken c (request c m) sz @ post)) = insert (p, n) (set (allocated c 0 bs))"
    by (simp add: bs(1,3) allocated_append end_ofs_taken allocated_taken n_def insert_commute)
  have "end_ofs c 0 pre + ?S + sz \<le> MEM_SIZE_ALIGNED c"
    using heap_okE [OF assms(1), of h pre sz False post] assms(2) bs(1) by metis
  moreover have "MEM_ALIGNMENT c dvd p"
    using end_ofs_dvd [of c 0 pre] assms(2) bs(1,3) cfg_facts(6) [OF assms(1)]
    by (auto simp: heap_ok_def sizes_ok_def)
  moreover have "p + n \<le> q \<or> q + k \<le> p" if "(q, k) \<in> set (allocated c 0 bs)" for q k
    using that allocated_bounds [of q k c 0 pre] allocated_bounds [of q k c "end_ofs c 0 pre + ?S + sz" post] n
    by (auto simp: bs(1,3) allocated_append)
  ultimately show ?thesis
    using bs(3,4) n alloc request_ge [OF assms(1,4)] by (intro exI [of _ "pre @ taken c (request c m) sz @ post"] exI [of _ n]) auto
qed

lemma mem_malloc_safe_witness:
  "\<exists>h' bs' n. mem_malloc default_cfg 100 (mem_init default_cfg blank_heap) = Some (Some 6, h') \<and>
     heap_ok default_cfg h' bs' \<and> set (allocated default_cfg 0 bs') = {(6, n)} \<and> 100 \<le> n"
proof -
  obtain h' where h: "mem_malloc default_cfg 100 (mem_init default_cfg blank_heap) = Some (Some 6, h')"
    using mem_malloc_fit [OF default_ok, of _ "[]" 1594 "[]" 100] default_init
    by (auto simp: default_request default_values)
  show ?thesis using mem_malloc_safe [OF default_ok default_init h] h by (auto simp: default_values)
qed

text \<open>Property C7: freeing an allocated block keeps the heap well formed and merges it with its
  free neighbours; exactly that block is no longer allocated.\<close>

theorem mem_free_correct:
  assumes "cfg_ok c" and "heap_ok c h bs" and "(p, n) \<in> set (allocated c 0 bs)"
  shows "\<exists>bs' as zs. heap_ok c (mem_free c (Some (int p)) h) bs' \<and>
     allocated c 0 bs = as @ (p, n) # zs \<and> allocated c 0 bs' = as @ zs"
proof -
  obtain pre post where bs: "bs = pre @ (n, True) # post" "p = end_ofs c 0 pre + SIZEOF_STRUCT_MEM c"
    using allocatedE [OF assms(3)] by metis
  then have "heap_ok c (mem_free c (Some (int p)) h) (coalesce c pre n post)"
    using mem_free_block [OF assms(1)] assms(2) by simp
  moreover have "allocated c 0 bs = allocated c 0 pre @ (p, n) #
      allocated c (end_ofs c 0 pre + SIZEOF_STRUCT_MEM c + n) post"
    by (simp add: bs allocated_append)
  ultimately show ?thesis using allocated_coalesce by blast
qed

lemma mem_free_correct_witness:
  "\<exists>h' bs'. mem_malloc default_cfg 100 (mem_init default_cfg blank_heap) = Some (Some 6, h') \<and>
     heap_ok default_cfg (mem_free default_cfg (Some 6) h') bs' \<and> allocated default_cfg 0 bs' = []"
proof -
  obtain h' where h: "mem_malloc default_cfg 100 (mem_init default_cfg blank_heap) = Some (Some 6, h')"
    "heap_ok default_cfg h' (taken default_cfg 100 1594)"
    using mem_malloc_fit [OF default_ok, of _ "[]" 1594 "[]" 100] default_init
    by (auto simp: default_request default_values)
  then show ?thesis
    using mem_free_correct [OF default_ok h(2), of 6 100]
    by (auto simp: taken_def default_values Cons_eq_append_conv)
qed

text \<open>Nothing leaks: when no block is allocated the heap is one free block, as after
  \<^verbatim>\<open>mem_init\<close>.\<close>

lemma mem_all_free:
  assumes "cfg_ok c" and "heap_ok c h bs" and "allocated c 0 bs = []"
  shows "bs = [(MEM_SIZE_ALIGNED c - SIZEOF_STRUCT_MEM c, False)] \<and>
     heap_ok c (mem_init c h) bs"
proof -
  have "length bs \<le> 1" using all_free_single assms(2,3) by (simp add: heap_ok_def)
  moreover have "bs \<noteq> []" using assms(1,2) cfg_facts(2,5) [OF assms(1)] by (auto simp: heap_ok_def)
  ultimately obtain sz u where "bs = [(sz, u)]" by (cases bs; cases "tl bs") auto
  then have "bs = [(MEM_SIZE_ALIGNED c - SIZEOF_STRUCT_MEM c, False)]"
    using assms(2,3) by (auto simp: heap_ok_def split: if_splits)
  then show ?thesis using mem_init_ok [OF assms(1)] by simp
qed

lemma mem_all_free_witness: "heap_ok default_cfg (mem_init default_cfg (mem_init default_cfg blank_heap)) [(1594, False)]"
  using mem_all_free [OF default_ok default_init] by (simp add: default_values)

text \<open>\<^verbatim>\<open>mem_trim\<close> shrinks an allocated block to the request (or leaves it when the rest
  could not hold a block), gives the rest to the free block behind or makes it one, and
  keeps the heap well formed.  A request above the size of the block is refused.\<close>

lemma mem_trim_correct:
  assumes "cfg_ok c" and "heap_ok c h (pre @ (sz, True) # post)"
    and "p = int (end_ofs c 0 pre + SIZEOF_STRUCT_MEM c)" and "request c m \<le> sz"
  shows "\<exists>h'. mem_trim c p m h = (Some p, h') \<and>
             heap_ok c h' (pre @ trimmed c (request c m) sz post)"
  using mem_trim_block [OF assms(1,2,4)] by (simp add: assms(3))

lemma mem_trim_correct_witness:
  "\<exists>h h'. mem_malloc default_cfg 100 (mem_init default_cfg blank_heap) = Some (Some 6, h) \<and>
     mem_trim default_cfg 6 40 h = (Some 6, h') \<and>
     heap_ok default_cfg h' [(40, True), (1548, False)]"
proof -
  obtain h where h: "mem_malloc default_cfg 100 (mem_init default_cfg blank_heap) = Some (Some 6, h)"
    "heap_ok default_cfg h (taken default_cfg 100 1594)"
    using mem_malloc_fit [OF default_ok, of _ "[]" 1594 "[]" 100] default_init
    by (auto simp: default_request default_values)
  then show ?thesis
    using mem_trim_correct [OF default_ok, of h "[]" 100 "[(1488, False)]" 6 40]
    by (auto simp: taken_def trimmed_def default_values default_request)
qed

text \<open>\<^verbatim>\<open>mem_calloc\<close> multiplies without a check: for 257 objects of 256 bytes it allocates
  the product modulo 65536, 256 bytes, and writes zeros over 65792 bytes from there, past the end
  of the block and of the heap.\<close>

lemma mem_calloc_overrun:
  "\<exists>h'. mem_calloc default_cfg 257 256 (mem_init default_cfg blank_heap) = Some (Some 6, h') \<and>
     heap_ok default_cfg h' [(256, True), (1332, False)] \<and>
     {6..<65798} \<subseteq> {i. ram_data h' i = 0}"
proof -
  obtain h where h: "mem_malloc default_cfg 256 (mem_init default_cfg blank_heap) = Some (Some 6, h)"
    "heap_ok default_cfg h (taken default_cfg 256 1594)"
    using mem_malloc_fit [OF default_ok, of _ "[]" 1594 "[]" 256] default_init
    by (auto simp: default_request default_values)
  have "mem_calloc default_cfg 257 256 (mem_init default_cfg blank_heap) =
      Some (Some 6, h\<lparr>ram_data := zero_bytes 6 65792 (ram_data h)\<rparr>)"
    using h(1) by (simp add: mem_calloc_def mem_size_t_def)
  moreover have "heap_ok default_cfg (h\<lparr>ram_data := d\<rparr>) [(256, True), (1332, False)]" for d
    using h(2) by (simp add: taken_def default_values heap_ok_def)
  moreover have "{6..<65798} \<subseteq> {i. zero_bytes 6 65792 d i = 0}" for d
    by (auto simp: zero_bytes_def)
  ultimately show ?thesis by simp
qed

end
