(* ===== verification/Memp.thy ===== *)
theory Memp
  imports Prelude
begin

text \<open>
  \<^verbatim>\<open>lwip/src/core/memp.c\<close>: the pools of fixed-size elements.  Elements are addresses; the
  \<^verbatim>\<open>next\<close> field of a free element is a map from addresses.  \<^verbatim>\<open>MEMP_SIZE\<close> is 0, so the address
  of an element is the address handed out.  The source's \<^verbatim>\<open>memp_init\<close> starts from a pointer
  that it never sets (the assignment of the aligned \<^verbatim>\<open>memp_memory\<close> is missing), so the start
  address is an argument here.  The locale \<open>elem_pool\<close> is what users of a pool rely on.
\<close>

section \<open>The pools\<close>

record memp =
  memp_tab :: "nat \<Rightarrow> nat option"
  memp_next :: "nat \<Rightarrow> nat option"

text \<open>The inner loop of \<^verbatim>\<open>memp_init\<close>: \<open>n\<close> elements of \<open>sz\<close> bytes from \<open>p\<close> for pool \<open>i\<close>; the
  result also has the address behind them.\<close>

fun memp_init_pool :: "nat \<Rightarrow> nat \<Rightarrow> nat \<Rightarrow> nat \<Rightarrow> memp \<Rightarrow> nat \<times> memp" where
  "memp_init_pool i sz 0 p s = (p, s)"
| "memp_init_pool i sz (Suc n) p s =
     memp_init_pool i sz n (p + sz)
       (s\<lparr>memp_next := (memp_next s)(p := memp_tab s i), memp_tab := (memp_tab s)(i := Some p)\<rparr>)"

text \<open>The outer loop, over the pools' sizes and numbers of elements.\<close>

fun memp_init_from :: "nat \<Rightarrow> (nat \<times> nat) list \<Rightarrow> nat \<Rightarrow> memp \<Rightarrow> memp" where
  "memp_init_from i [] p s = s"
| "memp_init_from i ((sz, num) # pools) p s =
     (let s = s\<lparr>memp_tab := (memp_tab s)(i := None)\<rparr>;
          (p, s) = memp_init_pool i sz num p s
      in memp_init_from (Suc i) pools p s)"

definition memp_init :: "(nat \<times> nat) list \<Rightarrow> nat \<Rightarrow> memp \<Rightarrow> memp" where
  "memp_init pools start s = memp_init_from 0 pools start s"

definition memp_malloc :: "nat \<Rightarrow> memp \<Rightarrow> nat option \<times> memp" where
  "memp_malloc i s =
     (case memp_tab s i of
        None \<Rightarrow> (None, s)
      | Some e \<Rightarrow> (Some e, s\<lparr>memp_tab := (memp_tab s)(i := memp_next s e)\<rparr>))"

definition memp_free :: "nat \<Rightarrow> nat option \<Rightarrow> memp \<Rightarrow> memp" where
  "memp_free i e s =
     (case e of
        None \<Rightarrow> s
      | Some e \<Rightarrow> s\<lparr>memp_next := (memp_next s)(e := memp_tab s i), memp_tab := (memp_tab s)(i := Some e)\<rparr>)"

section \<open>The free lists\<close>

fun chain :: "(nat \<Rightarrow> nat option) \<Rightarrow> nat option \<Rightarrow> nat list \<Rightarrow> bool" where
  "chain nx p [] \<longleftrightarrow> p = None"
| "chain nx p (e # es) \<longleftrightarrow> p = Some e \<and> chain nx (nx e) es"

text \<open>The pools as the lists of their free elements: all different, in all pools.\<close>

definition pools_ok :: "memp \<Rightarrow> (nat \<Rightarrow> nat list) \<Rightarrow> bool" where
  "pools_ok s fl \<longleftrightarrow> (\<forall>i. chain (memp_next s) (memp_tab s i) (fl i)) \<and> (\<forall>i. distinct (fl i)) \<and>
     (\<forall>i j. i \<noteq> j \<longrightarrow> set (fl i) \<inter> set (fl j) = {})"

lemma chain_unique: "chain nx p es \<Longrightarrow> chain nx p fs \<Longrightarrow> es = fs"
proof (induction es arbitrary: p fs)
  case Nil
  then show ?case by (cases fs) auto
next
  case (Cons e es)
  then show ?case by (cases fs) auto
qed

lemma chain_upd: "e \<notin> set es \<Longrightarrow> chain (nx(e := x)) p es = chain nx p es"
  by (induction es arbitrary: p) auto

lemma memp_malloc_empty: "pools_ok s fl \<Longrightarrow> fl i = [] \<Longrightarrow> memp_malloc i s = (None, s)"
  by (auto simp: pools_ok_def memp_malloc_def dest!: spec [of _ i])

lemma memp_malloc_cons:
  assumes "pools_ok s fl" and "fl i = e # es"
  shows "\<exists>s'. memp_malloc i s = (Some e, s') \<and> pools_ok s' (fl(i := es))"
proof -
  have "chain (memp_next s) (memp_tab s i) (e # es)" using assms by (metis pools_ok_def)
  then have m: "memp_malloc i s = (Some e, s\<lparr>memp_tab := (memp_tab s)(i := memp_next s e)\<rparr>)"
    "chain (memp_next s) (memp_next s e) es" by (simp_all add: memp_malloc_def)
  have "set es \<subseteq> set (fl i)" "distinct es" using assms by (auto simp: pools_ok_def dest: spec [of _ i])
  then have "pools_ok (s\<lparr>memp_tab := (memp_tab s)(i := memp_next s e)\<rparr>) (fl(i := es))"
    using assms(1) m(2) unfolding pools_ok_def by (auto, blast+)
  then show ?thesis using m(1) by blast
qed

lemma memp_free_cons:
  assumes "pools_ok s fl" and "\<forall>j. e \<notin> set (fl j)"
  shows "pools_ok (memp_free i (Some e) s) (fl(i := e # fl i))"
  using assms by (auto simp: pools_ok_def memp_free_def chain_upd)

section \<open>The contract of a pool\<close>

locale elem_pool =
  fixes alloc :: "'s \<Rightarrow> nat option \<times> 's"
    and release :: "nat \<Rightarrow> 's \<Rightarrow> 's"
    and avail :: "'s \<Rightarrow> nat list \<Rightarrow> bool"
    and owned :: "'s \<Rightarrow> nat \<Rightarrow> bool"
  assumes alloc_empty: "avail s [] \<Longrightarrow> alloc s = (None, s)"
    and alloc_elem: "avail s (e # es) \<Longrightarrow> \<exists>s'. alloc s = (Some e, s') \<and> avail s' es \<and> owned s' e"
    and release_elem: "avail s es \<Longrightarrow> owned s e \<Longrightarrow> avail (release e s) (e # es)"
begin

text \<open>An allocation fails only on an empty pool, and what is released can be allocated again.\<close>

lemma alloc_None_iff: "avail s es \<Longrightarrow> fst (alloc s) = None \<longleftrightarrow> es = []"
  using alloc_empty alloc_elem by (cases es) fastforce+

lemma alloc_release:
  assumes "avail s (e # es)"
  shows "\<exists>s'. alloc s = (Some e, s') \<and> avail (release e s') (e # es)"
  using alloc_elem [OF assms] release_elem by blast

lemma release_alloc:
  assumes "avail s es" and "owned s e"
  shows "fst (alloc (release e s)) = Some e"
  using alloc_elem [OF release_elem [OF assms]] by auto

end

text \<open>A pool of \<^verbatim>\<open>memp.c\<close> keeps it.  An element is owned when it is in no free list.\<close>

definition pool_avail :: "nat \<Rightarrow> memp \<Rightarrow> nat list \<Rightarrow> bool" where
  "pool_avail i s es \<longleftrightarrow> (\<exists>fl. pools_ok s fl \<and> fl i = es)"

definition pool_owned :: "memp \<Rightarrow> nat \<Rightarrow> bool" where
  "pool_owned s e \<longleftrightarrow> (\<exists>fl. pools_ok s fl \<and> (\<forall>j. e \<notin> set (fl j)))"

lemma pools_unique: "pools_ok s fl \<Longrightarrow> pools_ok s fl' \<Longrightarrow> fl = fl'"
  by (auto simp: pools_ok_def intro: chain_unique)

interpretation memp_pool: elem_pool "memp_malloc i" "\<lambda>e. memp_free i (Some e)" "pool_avail i" pool_owned
  for i
proof unfold_locales
  show "memp_malloc i s = (None, s)" if "pool_avail i s []" for s
    using that memp_malloc_empty by (auto simp: pool_avail_def)
next
  fix s e es assume "pool_avail i s (e # es)"
  then obtain fl where fl: "pools_ok s fl" "fl i = e # es" by (auto simp: pool_avail_def)
  then obtain s' where s': "memp_malloc i s = (Some e, s')" "pools_ok s' (fl(i := es))"
    using memp_malloc_cons by blast
  have "e \<notin> set es" "e \<notin> set (fl j)" if "j \<noteq> i" for j
    using fl that by (auto simp: pools_ok_def dest: spec [of _ i])+
  moreover have "e \<notin> set es" using fl by (metis distinct.simps(2) pools_ok_def)
  ultimately have "\<forall>j. e \<notin> set ((fl(i := es)) j)" by simp
  with s' show "\<exists>s'. memp_malloc i s = (Some e, s') \<and> pool_avail i s' es \<and> pool_owned s' e"
    by (auto simp: pool_avail_def pool_owned_def)
next
  fix s es e assume "pool_avail i s es" "pool_owned s e"
  then obtain fl where "pools_ok s fl" "fl i = es" "\<forall>j. e \<notin> set (fl j)"
    using pools_unique by (fastforce simp: pool_avail_def pool_owned_def)
  then show "pool_avail i (memp_free i (Some e) s) (e # es)"
    unfolding pool_avail_def using memp_free_cons [of s fl e i]
    by (intro exI [of _ "fl(i := e # fl i)"]) simp
qed

section \<open>Initialisation\<close>

text \<open>The elements of a pool of \<open>n\<close> elements of \<open>sz\<close> bytes from \<open>p\<close>, last first, and where the
  pools start.\<close>

definition elems :: "nat \<Rightarrow> nat \<Rightarrow> nat \<Rightarrow> nat list" where
  "elems p sz n = rev (map (\<lambda>k. p + k * sz) [0..<n])"

fun pool_elems :: "(nat \<times> nat) list \<Rightarrow> nat \<Rightarrow> nat \<Rightarrow> nat list" where
  "pool_elems [] p i = []"
| "pool_elems ((sz, num) # pools) p 0 = elems p sz num"
| "pool_elems ((sz, num) # pools) p (Suc i) = pool_elems pools (p + num * sz) i"

definition below :: "(nat \<Rightarrow> nat list) \<Rightarrow> nat \<Rightarrow> bool" where
  "below fl p \<longleftrightarrow> (\<forall>j. \<forall>e \<in> set (fl j). e < p)"

lemma elems_Suc: "elems p sz (Suc n) = elems (p + sz) sz n @ [p]"
proof -
  have "map (\<lambda>k. p + k * sz) [0..<Suc n] = p # map (\<lambda>k. (p + sz) + k * sz) [0..<n]"
    by (simp add: upt_conv_Cons map_Suc_upt [symmetric] add.assoc del: upt_Suc)
  then show ?thesis by (simp add: elems_def)
qed

lemma memp_free_tab: "j \<noteq> i \<Longrightarrow> memp_tab (memp_free i e s) j = memp_tab s j"
  by (simp add: memp_free_def split: option.split)

lemma memp_init_pool_ok:
  assumes "0 < sz" and "pools_ok s fl" and "below fl p"
  shows "\<exists>s'. memp_init_pool i sz n p s = (p + n * sz, s') \<and>
    pools_ok s' (fl(i := elems p sz n @ fl i)) \<and> below (fl(i := elems p sz n @ fl i)) (p + n * sz) \<and>
    (\<forall>j. j \<noteq> i \<longrightarrow> memp_tab s' j = memp_tab s j)"
  using assms(2, 3)
proof (induction n arbitrary: p s fl)
  case 0
  then show ?case by (simp add: elems_def)
next
  case (Suc n)
  let ?s = "memp_free i (Some p) s" and ?fl = "fl(i := p # fl i)"
  have "\<forall>j. p \<notin> set (fl j)" using Suc.prems(2) by (auto simp: below_def)
  then have ok: "pools_ok ?s ?fl" by (rule memp_free_cons [OF Suc.prems(1)])
  have "below ?fl (p + sz)" using Suc.prems(2) assms(1) by (auto simp: below_def intro: trans_less_add1)
  from Suc.IH [OF ok this] obtain s' where s':
    "memp_init_pool i sz n (p + sz) ?s = (p + sz + n * sz, s')"
    "pools_ok s' (?fl(i := elems (p + sz) sz n @ ?fl i))"
    "below (?fl(i := elems (p + sz) sz n @ ?fl i)) (p + sz + n * sz)"
    "\<forall>j. j \<noteq> i \<longrightarrow> memp_tab s' j = memp_tab ?s j" by blast
  have eq: "?fl(i := elems (p + sz) sz n @ ?fl i) = fl(i := elems p sz (Suc n) @ fl i)"
    by (simp add: elems_Suc)
  have "memp_init_pool i sz (Suc n) p s = (p + Suc n * sz, s')"
    using s'(1) by (simp add: memp_free_def add.assoc)
  moreover have "p + sz + n * sz = p + Suc n * sz" by simp
  ultimately show ?case using s'(2-4) unfolding eq by (metis fun_upd_other memp_free_tab)
qed

lemma memp_init_from_ok:
  assumes "\<forall>(sz, num) \<in> set pools. 0 < sz" and "pools_ok s fl" and "below fl p"
    and "\<forall>j \<ge> i. fl j = []"
  shows "pools_ok (memp_init_from i pools p s) (\<lambda>j. if j < i then fl j else pool_elems pools p (j - i))"
  using assms
proof (induction pools arbitrary: i p s fl)
  case Nil
  then have "(\<lambda>j. if j < i then fl j else pool_elems [] p (j - i)) = fl" by auto
  then show ?case using Nil by simp
next
  case (Cons pool pools)
  obtain sz num where pool: "pool = (sz, num)" by (cases pool)
  let ?s = "s\<lparr>memp_tab := (memp_tab s)(i := None)\<rparr>"
  have "memp_tab s i = None" using Cons.prems(2,4) by (auto simp: pools_ok_def dest: spec [of _ i])
  then have s: "?s = s" by (simp add: fun_upd_idem)
  obtain s' where s': "memp_init_pool i sz num p s = (p + num * sz, s')"
    "pools_ok s' (fl(i := elems p sz num))" "below (fl(i := elems p sz num)) (p + num * sz)"
    using memp_init_pool_ok [of sz s fl p i num] Cons.prems pool by auto
  have "pools_ok (memp_init_from (Suc i) pools (p + num * sz) s')
      (\<lambda>j. if j < Suc i then (fl(i := elems p sz num)) j else pool_elems pools (p + num * sz) (j - Suc i))"
    using Cons.prems by (intro Cons.IH s'(2,3)) auto
  moreover have "(\<lambda>j. if j < Suc i then (fl(i := elems p sz num)) j else pool_elems pools (p + num * sz) (j - Suc i)) =
      (\<lambda>j. if j < i then fl j else pool_elems (pool # pools) p (j - i))"
  proof
    fix j
    show "(if j < Suc i then (fl(i := elems p sz num)) j else pool_elems pools (p + num * sz) (j - Suc i)) =
      (if j < i then fl j else pool_elems (pool # pools) p (j - i))"
      by (cases "j - i") (auto simp: pool not_less Suc_diff_le less_Suc_eq diff_Suc split: nat.splits)
  qed
  ultimately show ?case by (simp add: pool s s'(1) Let_def)
qed

section \<open>Properties\<close>

text \<open>From whatever address it starts, \<^verbatim>\<open>memp_init\<close> makes of each pool the list of its
  elements, which lie side by side and are all different, across all pools.\<close>

lemma memp_init_correct:
  assumes "\<forall>(sz, num) \<in> set pools. 0 < sz" and "\<forall>i. memp_tab s i = None"
  shows "pools_ok (memp_init pools start s) (pool_elems pools start)"
proof -
  have "pools_ok s (\<lambda>_. [])" using assms(2) by (simp add: pools_ok_def)
  then show ?thesis
    using memp_init_from_ok [of pools s "\<lambda>_. []" start 0] assms(1) by (simp add: memp_init_def below_def)
qed

definition blank_memp :: memp where
  "blank_memp = \<lparr>memp_tab = \<lambda>_. None, memp_next = \<lambda>_. None\<rparr>"

lemma memp_init_correct_witness:
  "pools_ok (memp_init [(16, 3), (8, 2)] 100 blank_memp) (pool_elems [(16, 3), (8, 2)] 100) \<and>
   pool_elems [(16, 3), (8, 2)] 100 1 = [156, 148]"
  using memp_init_correct [of "[(16, 3), (8, 2)]" blank_memp 100]
  by (simp add: blank_memp_def elems_def upt_rec)

text \<open>Property C8: an allocation from a pool fails exactly when the pool is empty; otherwise it
  returns an element that was free and no longer is, and leaves all other pools and elements;
  freeing it restores the pools.\<close>

theorem memp_malloc_free:
  assumes "pools_ok s fl"
  shows "(fst (memp_malloc i s) = None \<longleftrightarrow> fl i = []) \<and>
    (\<forall>e es. fl i = e # es \<longrightarrow>
       (\<exists>s'. memp_malloc i s = (Some e, s') \<and> pools_ok s' (fl(i := es)) \<and>
             pools_ok (memp_free i (Some e) s') fl))"
proof (intro conjI allI impI)
  have "pool_avail i s (fl i)" using assms by (auto simp: pool_avail_def)
  then show "fst (memp_malloc i s) = None \<longleftrightarrow> fl i = []" by (rule memp_pool.alloc_None_iff)
next
  fix e es assume e: "fl i = e # es"
  then obtain s' where s': "memp_malloc i s = (Some e, s')" "pools_ok s' (fl(i := es))"
    using memp_malloc_cons [OF assms] by blast
  have "e \<notin> set es" "e \<notin> set (fl j)" if "j \<noteq> i" for j
    using assms e that by (auto simp: pools_ok_def dest: spec [of _ i])+
  moreover have "e \<notin> set es" using assms e by (metis distinct.simps(2) pools_ok_def)
  ultimately have "\<forall>j. e \<notin> set ((fl(i := es)) j)" by simp
  from memp_free_cons [OF s'(2) this, of i] have "pools_ok (memp_free i (Some e) s') fl"
    by (metis e fun_upd_same fun_upd_triv fun_upd_upd)
  with s' show "\<exists>s'. memp_malloc i s = (Some e, s') \<and> pools_ok s' (fl(i := es)) \<and>
             pools_ok (memp_free i (Some e) s') fl" by blast
qed

lemma memp_malloc_free_witness:
  "fst (memp_malloc 1 (memp_init [(16, 3), (8, 2)] 100 blank_memp)) = Some 156"
proof -
  have ok: "pools_ok (memp_init [(16, 3), (8, 2)] 100 blank_memp) (pool_elems [(16, 3), (8, 2)] 100)"
    using memp_init_from_ok [of "[(16, 3), (8, 2)]" blank_memp "\<lambda>_. []" 100 0]
    by (simp add: memp_init_def below_def pools_ok_def blank_memp_def)
  show ?thesis using memp_malloc_free [OF ok, of 1] by (auto simp: elems_def upt_rec)
qed

end
