(* ===== verification/Timers.thy ===== *)
theory Timers
  imports Memp
begin

text \<open>
  \<^verbatim>\<open>lwip/src/core/timers.c\<close>: the timeout list.  An entry holds the time in milliseconds after
  the entry before it.  The list \<^verbatim>\<open>next_timeout\<close> is the list of its entries, each with the
  pool element it lives in; entries are allocated from and returned to the pool
  \<^verbatim>\<open>MEMP_SYS_TIMEOUT\<close> of \<open>Memp\<close>.  The handlers are the module's own cyclic timers and any
  other functions; what they do to the rest of the system is an argument.  The loop of
  \<^verbatim>\<open>sys_check_timeouts\<close> is a partial function.  The specification is the list of deadlines.
\<close>

section \<open>State\<close>

datatype handler = H_tcpip_tcp_timer | H_ip_reass_timer | H_arp_timer | H_dhcp_timer_coarse
  | H_dhcp_timer_fine | H_autoip_timer | H_igmp_timer | H_dns_timer | H_other nat

record sys_timeo =
  elem :: nat
  time :: u32
  h :: "handler option"
  arg :: nat

text \<open>The rest of the system is the type parameter; \<^verbatim>\<open>tcpip_tcp_timer_active\<close> is kept here.\<close>

record 'w sys =
  pools :: memp
  next_timeout :: "sys_timeo list"
  timeouts_last_time :: u32
  tcp_timer_active :: bool
  world :: 'w

definition MEMP_SYS_TIMEOUT :: nat where
  "MEMP_SYS_TIMEOUT = 9"

section \<open>Inserting and removing\<close>

text \<open>The \<^verbatim>\<open>for\<close> loop of \<^verbatim>\<open>sys_timeout\<close>: \<open>n\<close> is the new entry.\<close>

fun insert_after :: "sys_timeo \<Rightarrow> sys_timeo list \<Rightarrow> sys_timeo list" where
  "insert_after n [] = []"
| "insert_after n [t] = [t, n\<lparr>time := time n - time t\<rparr>]"
| "insert_after n (t # u # ts) =
     (let n = n\<lparr>time := time n - time t\<rparr>
      in if time u > time n then t # n # u\<lparr>time := time u - time n\<rparr> # ts
         else t # insert_after n (u # ts))"

definition insert_timeout :: "sys_timeo \<Rightarrow> sys_timeo list \<Rightarrow> sys_timeo list" where
  "insert_timeout n ts =
     (case ts of
        [] \<Rightarrow> [n]
      | t # us \<Rightarrow> if time t > time n then n # t\<lparr>time := time t - time n\<rparr> # us
                  else insert_after n ts)"

definition sys_timeout :: "u32 \<Rightarrow> handler option \<Rightarrow> nat \<Rightarrow> 'w sys \<Rightarrow> 'w sys" where
  "sys_timeout msecs f a s =
     (let (e, p) = memp_malloc MEMP_SYS_TIMEOUT (pools s); s = s\<lparr>pools := p\<rparr>
      in case e of
           None \<Rightarrow> s
         | Some e \<Rightarrow>
             s\<lparr>next_timeout := insert_timeout \<lparr>elem = e, time = msecs, h = f, arg = a\<rparr> (next_timeout s)\<rparr>)"

text \<open>\<^verbatim>\<open>sys_untimeout\<close> unlinks the first match and gives its time to the next entry.\<close>

fun unlink :: "handler option \<Rightarrow> nat \<Rightarrow> sys_timeo list \<Rightarrow> (nat \<times> sys_timeo list) option" where
  "unlink f a [] = None"
| "unlink f a (t # ts) =
     (if h t = f \<and> arg t = a
      then Some (elem t, case ts of [] \<Rightarrow> [] | u # us \<Rightarrow> u\<lparr>time := time u + time t\<rparr> # us)
      else map_option (\<lambda>(e, us). (e, t # us)) (unlink f a ts))"

definition sys_untimeout :: "handler option \<Rightarrow> nat \<Rightarrow> 'w sys \<Rightarrow> 'w sys" where
  "sys_untimeout f a s =
     (case unlink f a (next_timeout s) of
        None \<Rightarrow> s
      | Some (e, ts) \<Rightarrow>
          s\<lparr>next_timeout := ts, pools := memp_free MEMP_SYS_TIMEOUT (Some e) (pools s)\<rparr>)"

section \<open>The cyclic timers\<close>

abbreviation TCP_TMR_INTERVAL :: u32 where "TCP_TMR_INTERVAL \<equiv> 250"
abbreviation IP_TMR_INTERVAL :: u32 where "IP_TMR_INTERVAL \<equiv> 1000"
abbreviation ARP_TMR_INTERVAL :: u32 where "ARP_TMR_INTERVAL \<equiv> 5000"
abbreviation DHCP_COARSE_TIMER_MSECS :: u32 where "DHCP_COARSE_TIMER_MSECS \<equiv> 60000"
abbreviation DHCP_FINE_TIMER_MSECS :: u32 where "DHCP_FINE_TIMER_MSECS \<equiv> 500"
abbreviation AUTOIP_TMR_INTERVAL :: u32 where "AUTOIP_TMR_INTERVAL \<equiv> 100"
abbreviation IGMP_TMR_INTERVAL :: u32 where "IGMP_TMR_INTERVAL \<equiv> 100"
abbreviation DNS_TMR_INTERVAL :: u32 where "DNS_TMR_INTERVAL \<equiv> 1000"

text \<open>What the handlers call: the timer function of each module, on the rest of the system, the
  test whether TCP still has active or time-wait connections, and the other handlers.\<close>

record 'w modules =
  tmr :: "handler \<Rightarrow> 'w \<Rightarrow> 'w"
  tcp_pcbs :: "'w \<Rightarrow> bool"
  other :: "nat \<Rightarrow> nat \<Rightarrow> 'w sys \<Rightarrow> 'w sys"

definition tcpip_tcp_timer :: "'w modules \<Rightarrow> 'w sys \<Rightarrow> 'w sys" where
  "tcpip_tcp_timer m s =
     (let s = s\<lparr>world := tmr m H_tcpip_tcp_timer (world s)\<rparr>
      in if tcp_pcbs m (world s) then sys_timeout TCP_TMR_INTERVAL (Some H_tcpip_tcp_timer) 0 s
         else s\<lparr>tcp_timer_active := False\<rparr>)"

definition tcp_timer_needed :: "'w modules \<Rightarrow> 'w sys \<Rightarrow> 'w sys" where
  "tcp_timer_needed m s =
     (if \<not> tcp_timer_active s \<and> tcp_pcbs m (world s)
      then sys_timeout TCP_TMR_INTERVAL (Some H_tcpip_tcp_timer) 0 (s\<lparr>tcp_timer_active := True\<rparr>) else s)"

text \<open>A module timer runs and schedules itself again.\<close>

definition cyclic :: "'w modules \<Rightarrow> handler \<Rightarrow> u32 \<Rightarrow> 'w sys \<Rightarrow> 'w sys" where
  "cyclic m f interval s = sys_timeout interval (Some f) 0 (s\<lparr>world := tmr m f (world s)\<rparr>)"

definition run_handler :: "'w modules \<Rightarrow> handler \<Rightarrow> nat \<Rightarrow> 'w sys \<Rightarrow> 'w sys" where
  "run_handler m f a s =
     (case f of
        H_tcpip_tcp_timer \<Rightarrow> tcpip_tcp_timer m s
      | H_ip_reass_timer \<Rightarrow> cyclic m H_ip_reass_timer IP_TMR_INTERVAL s
      | H_arp_timer \<Rightarrow> cyclic m H_arp_timer ARP_TMR_INTERVAL s
      | H_dhcp_timer_coarse \<Rightarrow> cyclic m H_dhcp_timer_coarse DHCP_COARSE_TIMER_MSECS s
      | H_dhcp_timer_fine \<Rightarrow> cyclic m H_dhcp_timer_fine DHCP_FINE_TIMER_MSECS s
      | H_autoip_timer \<Rightarrow> cyclic m H_autoip_timer AUTOIP_TMR_INTERVAL s
      | H_igmp_timer \<Rightarrow> cyclic m H_igmp_timer IGMP_TMR_INTERVAL s
      | H_dns_timer \<Rightarrow> cyclic m H_dns_timer DNS_TMR_INTERVAL s
      | H_other k \<Rightarrow> other m k a s)"

text \<open>\<^verbatim>\<open>sys_timeouts_init\<close> with all modules configured; \<open>now\<close> is \<^verbatim>\<open>sys_now()\<close>.\<close>

definition sys_timeouts_init :: "u32 \<Rightarrow> 'w sys \<Rightarrow> 'w sys" where
  "sys_timeouts_init now s =
     (let s = sys_timeout IP_TMR_INTERVAL (Some H_ip_reass_timer) 0 s;
          s = sys_timeout ARP_TMR_INTERVAL (Some H_arp_timer) 0 s;
          s = sys_timeout DHCP_COARSE_TIMER_MSECS (Some H_dhcp_timer_coarse) 0 s;
          s = sys_timeout DHCP_FINE_TIMER_MSECS (Some H_dhcp_timer_fine) 0 s;
          s = sys_timeout AUTOIP_TMR_INTERVAL (Some H_autoip_timer) 0 s;
          s = sys_timeout IGMP_TMR_INTERVAL (Some H_igmp_timer) 0 s;
          s = sys_timeout DNS_TMR_INTERVAL (Some H_dns_timer) 0 s
      in s\<lparr>timeouts_last_time := now\<rparr>)"

section \<open>Checking\<close>

text \<open>One round of the loop: the first entry, if it has expired, and what is left of \<open>diff\<close>.\<close>

definition expire_first :: "'w modules \<Rightarrow> u32 \<Rightarrow> u32 \<Rightarrow> 'w sys \<Rightarrow> ('w sys \<times> u32) option" where
  "expire_first m now diff s =
     (case next_timeout s of
        [] \<Rightarrow> None
      | t # ts \<Rightarrow>
          if time t \<le> diff then
            let s = s\<lparr>timeouts_last_time := now, next_timeout := ts,
                      pools := memp_free MEMP_SYS_TIMEOUT (Some (elem t)) (pools s)\<rparr>
            in Some (case h t of None \<Rightarrow> s | Some f \<Rightarrow> run_handler m f (arg t) s, diff - time t)
          else None)"

partial_function (option) check_loop :: "'w modules \<Rightarrow> u32 \<Rightarrow> u32 \<Rightarrow> 'w sys \<Rightarrow> 'w sys option" where
  "check_loop m now diff s =
     (case expire_first m now diff s of
        None \<Rightarrow> Some s
      | Some (s, diff) \<Rightarrow> check_loop m now diff s)"

definition sys_check_timeouts :: "'w modules \<Rightarrow> u32 \<Rightarrow> 'w sys \<Rightarrow> 'w sys option" where
  "sys_check_timeouts m now s =
     (if next_timeout s \<noteq> [] then check_loop m now (now - timeouts_last_time s) s else Some s)"

definition sys_restart_timeouts :: "u32 \<Rightarrow> 'w sys \<Rightarrow> 'w sys" where
  "sys_restart_timeouts now s = s\<lparr>timeouts_last_time := now\<rparr>"

text \<open>The version with an operating system.  \<open>waited\<close> is the answer of \<^verbatim>\<open>sys_arch_mbox_fetch\<close>: how
  long a message took, \<open>None\<close> for \<^verbatim>\<open>SYS_ARCH_TIMEOUT\<close>.  The result says whether a message was
  fetched; if not, the code goes back to \<^verbatim>\<open>again\<close>.\<close>

definition mbox_fetch_step :: "'w modules \<Rightarrow> u32 option \<Rightarrow> 'w sys \<Rightarrow> 'w sys \<times> bool" where
  "mbox_fetch_step m waited s =
     (case next_timeout s of
        [] \<Rightarrow> (s, True)
      | t # ts \<Rightarrow>
          (case (if time t > 0 then waited else None) of
             None \<Rightarrow>
               (let s = s\<lparr>next_timeout := ts,
                          pools := memp_free MEMP_SYS_TIMEOUT (Some (elem t)) (pools s)\<rparr>
                in (case h t of None \<Rightarrow> s | Some f \<Rightarrow> run_handler m f (arg t) s, False))
           | Some w \<Rightarrow>
               (s\<lparr>next_timeout := (if w < time t then t\<lparr>time := time t - w\<rparr> else t\<lparr>time := 0\<rparr>) # ts\<rparr>, True)))"

section \<open>Deadlines\<close>

text \<open>The entries with their deadlines relative to \<open>ofs\<close>.\<close>

type_synonym deadline = "nat \<times> handler option \<times> nat"

fun deadlines :: "nat \<Rightarrow> sys_timeo list \<Rightarrow> deadline list" where
  "deadlines ofs [] = []"
| "deadlines ofs (t # ts) = (ofs + unat (time t), h t, arg t) # deadlines (ofs + unat (time t)) ts"

text \<open>A new deadline goes behind all that are not later.\<close>

definition insert_deadline :: "deadline \<Rightarrow> deadline list \<Rightarrow> deadline list" where
  "insert_deadline d ds = takeWhile (\<lambda>x. fst x \<le> fst d) ds @ d # dropWhile (\<lambda>x. fst x \<le> fst d) ds"

lemma unat_sub_le: "b \<le> a \<Longrightarrow> unat (a - b) = unat a - unat (b :: u32)"
  by (rule unat_sub)

lemma deadlines_insert_after:
  assumes "ts \<noteq> []" and "time (hd ts) \<le> time n"
  shows "deadlines ofs (insert_after n ts) =
         insert_deadline (ofs + unat (time n), h n, arg n) (deadlines ofs ts)"
  using assms
proof (induction n ts arbitrary: ofs rule: insert_after.induct)
  case (2 n t)
  then have "unat (time t) \<le> unat (time n)" by (simp add: word_le_nat_alt)
  with 2 show ?case by (simp add: insert_deadline_def unat_sub_le)
next
  case (3 n t u ts)
  let ?n = "n\<lparr>time := time n - time t\<rparr>"
  have le: "unat (time t) \<le> unat (time n)" using "3.prems" by (simp add: word_le_nat_alt)
  have tn: "unat (time ?n) = unat (time n) - unat (time t)"
    using "3.prems" by (simp add: unat_sub_le)
  show ?case
  proof (cases "time u > time ?n")
    case True
    then have "unat (time u - time ?n) = unat (time u) - unat (time ?n)" "unat (time ?n) < unat (time u)"
      using unat_sub_le [OF less_imp_le [OF True]] by (simp_all add: word_less_nat_alt)
    moreover from this le tn have "\<not> unat (time t) + unat (time u) \<le> unat (time n)" by linarith
    ultimately show ?thesis using True le tn by (simp add: insert_deadline_def Let_def ac_simps)
  next
    case False
    then have "time u \<le> time ?n" by simp
    with "3.IH" [of ?n "ofs + unat (time t)"] False
    have "deadlines (ofs + unat (time t)) (insert_after ?n (u # ts)) =
      insert_deadline (ofs + unat (time t) + unat (time ?n), h n, arg n) (deadlines (ofs + unat (time t)) (u # ts))"
      by simp
    with False le tn show ?thesis by (simp add: insert_deadline_def Let_def)
  qed
qed simp

lemma deadlines_insert:
  "deadlines ofs (insert_timeout n ts) = insert_deadline (ofs + unat (time n), h n, arg n) (deadlines ofs ts)"
proof (cases ts)
  case (Cons t us)
  show ?thesis
  proof (cases "time t > time n")
    case True
    then have "unat (time t - time n) = unat (time t) - unat (time n)" "unat (time n) < unat (time t)"
      using unat_sub_le [OF less_imp_le [OF True]] by (simp_all add: word_less_nat_alt)
    with True show ?thesis by (simp add: insert_timeout_def Cons insert_deadline_def)
  next
    case False
    then show ?thesis using deadlines_insert_after [of ts n ofs] by (simp add: insert_timeout_def Cons)
  qed
qed (simp add: insert_timeout_def insert_deadline_def)

lemma deadlines_shift: "deadlines (ofs + k) ts = map (\<lambda>(d, f, a). (d + k, f, a)) (deadlines ofs ts)"
proof (induction ts arbitrary: ofs)
  case (Cons t ts)
  show ?case using Cons.IH [of "ofs + unat (time t)"] by (simp add: ac_simps)
qed simp

lemma deadlines_ge: "d \<in> set (deadlines ofs ts) \<Longrightarrow> ofs \<le> fst d"
proof (induction ts arbitrary: ofs)
  case (Cons t ts)
  then show ?case using Cons.IH [of "ofs + unat (time t)"] by fastforce
qed simp

lemma deadlines_length: "length (deadlines ofs ts) = length ts"
  by (induction ts arbitrary: ofs) auto

text \<open>The total time of the list stays in 32 bits.\<close>

definition in_range :: "sys_timeo list \<Rightarrow> bool" where
  "in_range ts \<longleftrightarrow> (\<forall>d \<in> set (deadlines 0 ts). fst d < 4294967296)"

lemma in_range_insert: "in_range ts \<Longrightarrow> in_range (insert_timeout n ts)"
proof -
  assume "in_range ts"
  moreover have "set (deadlines 0 (insert_timeout n ts)) \<subseteq>
      insert (unat (time n), h n, arg n) (set (deadlines 0 ts))"
    unfolding deadlines_insert insert_deadline_def
    by (auto dest: set_takeWhileD set_dropWhileD)
  ultimately show ?thesis unfolding in_range_def using u32_lt by fastforce
qed

lemma in_range_tl:
  assumes "in_range (t # ts)"
  shows "in_range ts"
proof -
  have "deadlines (0 + unat (time t)) ts = map (\<lambda>(d, f, a). (d + unat (time t), f, a)) (deadlines 0 ts)"
    by (rule deadlines_shift)
  with assms have "\<forall>d \<in> set (deadlines 0 ts). fst d + unat (time t) < 4294967296"
    by (auto simp: in_range_def)
  then show ?thesis by (fastforce simp: in_range_def)
qed

fun remove_deadline :: "handler option \<Rightarrow> nat \<Rightarrow> deadline list \<Rightarrow> deadline list" where
  "remove_deadline f a [] = []"
| "remove_deadline f a (d # ds) =
     (if snd d = (f, a) then ds else d # remove_deadline f a ds)"

lemma unlink_deadlines:
  assumes "\<forall>d \<in> set (deadlines ofs ts). fst d < 4294967296" and "unlink f a ts = Some (e, us)"
  shows "deadlines ofs us = remove_deadline f a (deadlines ofs ts)"
  using assms
proof (induction ts arbitrary: ofs us)
  case (Cons t ts)
  show ?case
  proof (cases "h t = f \<and> arg t = a")
    case True
    show ?thesis
    proof (cases ts)
      case (Cons u vs)
      have "unat (time t) + unat (time u) < 4294967296" using Cons.prems(1) Cons by simp
      then have "unat (time u + time t) = unat (time t) + unat (time u)" by (simp add: unat_add_u32)
      with True Cons Cons.prems(2) show ?thesis by (auto simp: ac_simps)
    qed (use True Cons.prems in auto)
  next
    case False
    then obtain vs where "unlink f a ts = Some (e, vs)" "us = t # vs"
      using Cons.prems(2) by auto
    with Cons.IH [of "ofs + unat (time t)" vs] Cons.prems(1) False show ?thesis by auto
  qed
qed simp

lemma unlink_None: "unlink f a ts = None \<longleftrightarrow> (\<forall>t \<in> set ts. \<not> (h t = f \<and> arg t = a))"
  by (induction ts) auto

lemma remove_deadline_id:
  "\<forall>t \<in> set ts. \<not> (h t = f \<and> arg t = a) \<Longrightarrow> remove_deadline f a (deadlines ofs ts) = deadlines ofs ts"
  by (induction ts arbitrary: ofs) auto

section \<open>The loop of \<open>sys_check_timeouts\<close>\<close>

text \<open>Handlers that leave the list or put one timeout of at least a millisecond into it.\<close>

definition reschedules :: "'w sys \<Rightarrow> 'w sys \<Rightarrow> bool" where
  "reschedules s s' \<longleftrightarrow> next_timeout s' = next_timeout s \<or>
     (\<exists>n. 0 < time n \<and> next_timeout s' = insert_timeout n (next_timeout s))"

definition modules_ok :: "'w modules \<Rightarrow> bool" where
  "modules_ok m \<longleftrightarrow> (\<forall>k a s. reschedules s (other m k a s))"

lemma reschedules_sys_timeout: "0 < msecs \<Longrightarrow> reschedules s (sys_timeout msecs f a s)"
proof -
  assume "0 < msecs"
  obtain e p where ep: "memp_malloc MEMP_SYS_TIMEOUT (pools s) = (e, p)" by (cases "memp_malloc MEMP_SYS_TIMEOUT (pools s)")
  show ?thesis
  proof (cases e)
    case (Some e')
    with \<open>0 < msecs\<close> show ?thesis unfolding reschedules_def
      by (intro disjI2 exI [of _ "\<lparr>elem = e', time = msecs, h = f, arg = a\<rparr>"])
        (simp add: sys_timeout_def ep)
  qed (simp add: reschedules_def sys_timeout_def ep)
qed

lemma reschedules_world:
  "reschedules (s\<lparr>world := w\<rparr>) s' = reschedules s s'"
  "reschedules s (s'\<lparr>tcp_timer_active := b\<rparr>) = reschedules s s'"
  "reschedules s (s'\<lparr>world := w\<rparr>) = reschedules s s'"
  by (simp_all add: reschedules_def)

lemma reschedules_refl: "reschedules s s"
  by (simp add: reschedules_def)

lemma run_handler_reschedules:
  assumes "modules_ok m"
  shows "reschedules s (run_handler m f a s)"
proof -
  have c: "reschedules s (cyclic m hd i s)" if "0 < i" for hd i
    using reschedules_sys_timeout [OF that, of "s\<lparr>world := tmr m hd (world s)\<rparr>"]
    by (simp add: cyclic_def reschedules_world)
  have t: "reschedules s (tcpip_tcp_timer m s)"
    using reschedules_sys_timeout [of TCP_TMR_INTERVAL "s\<lparr>world := tmr m H_tcpip_tcp_timer (world s)\<rparr>"]
    by (simp add: tcpip_tcp_timer_def Let_def reschedules_world reschedules_refl)
  show ?thesis using assms by (cases f) (simp_all add: run_handler_def c t modules_ok_def)
qed

text \<open>The work left: for each entry that is due, how long it is due, plus one.\<close>

definition due :: "nat \<Rightarrow> nat \<Rightarrow> nat" where
  "due diff d = (if d \<le> diff then diff - d + 1 else 0)"

lemma due_le: "0 < d \<Longrightarrow> due n d \<le> n"
  by (auto simp: due_def)

definition work :: "nat \<Rightarrow> sys_timeo list \<Rightarrow> nat" where
  "work diff ts = sum_list (map (\<lambda>d. due diff (fst d)) (deadlines 0 ts))"

lemma work_insert: "work diff (insert_timeout n ts) = due diff (unat (time n)) + work diff ts"
proof -
  let ?P = "\<lambda>x. fst x \<le> unat (time n)" and ?f = "\<lambda>d. due diff (fst d)"
  have "sum_list (map ?f (deadlines 0 ts)) =
      sum_list (map ?f (takeWhile ?P (deadlines 0 ts))) + sum_list (map ?f (dropWhile ?P (deadlines 0 ts)))"
    by (simp only: map_append [symmetric] sum_list_append [symmetric] takeWhile_dropWhile_id)
  then show ?thesis by (simp add: work_def deadlines_insert insert_deadline_def)
qed

lemma work_pop:
  assumes "unat (time t) \<le> diff"
  shows "work diff (t # ts) = diff - unat (time t) + 1 + work (diff - unat (time t)) ts"
proof -
  have "deadlines (unat (time t)) ts = map (\<lambda>(d, f, a). (d + unat (time t), f, a)) (deadlines 0 ts)"
    using deadlines_shift [of 0 "unat (time t)" ts] by simp
  moreover have "due diff (d + unat (time t)) = due (diff - unat (time t)) d" for d
    using assms by (auto simp: due_def)
  moreover have "due diff (unat (time t)) = diff - unat (time t) + 1" using assms by (simp add: due_def)
  ultimately show ?thesis by (simp add: work_def o_def case_prod_beta)
qed

lemma expire_first_decreases:
  assumes m: "modules_ok m" and e: "expire_first m now diff s = Some (s', diff')"
  shows "work (unat diff') (next_timeout s') < work (unat diff) (next_timeout s)"
proof -
  obtain t ts where ts: "next_timeout s = t # ts" "time t \<le> diff" "diff' = diff - time t"
    using e by (auto simp: expire_first_def Let_def split: list.splits if_splits)
  have le: "unat (time t) \<le> unat diff" "unat diff' = unat diff - unat (time t)"
    using ts(2,3) by (simp_all add: word_le_nat_alt unat_sub_le)
  define s1 where "s1 = s\<lparr>timeouts_last_time := now, next_timeout := ts,
                      pools := memp_free MEMP_SYS_TIMEOUT (Some (elem t)) (pools s)\<rparr>"
  have "s' = (case h t of None \<Rightarrow> s1 | Some f \<Rightarrow> run_handler m f (arg t) s1)"
    using e ts unfolding s1_def expire_first_def Let_def by (auto split: option.split)
  then have "reschedules s1 s'" using run_handler_reschedules [OF m, of s1]
    by (auto simp: reschedules_refl split: option.split)
  then have "work (unat diff') (next_timeout s') \<le> work (unat diff') ts + unat diff'"
  proof (unfold reschedules_def, elim disjE exE conjE)
    fix n assume n: "0 < time n" "next_timeout s' = insert_timeout n (next_timeout s1)"
    then have "0 < unat (time n)" by (simp add: word_less_nat_alt)
    then have "due (unat diff') (unat (time n)) \<le> unat diff'" by (rule due_le)
    with n(2) show ?thesis by (simp add: work_insert s1_def)
  qed (simp add: s1_def)
  then show ?thesis using work_pop [OF le(1), of ts] le(2) by (simp add: ts(1))
qed

lemma check_loop_ends:
  assumes "modules_ok m"
  shows "\<exists>s'. check_loop m now diff s = Some s'"
proof (induction "work (unat diff) (next_timeout s)" arbitrary: diff s rule: less_induct)
  case less
  show ?case
  proof (cases "expire_first m now diff s")
    case None
    then show ?thesis by (subst check_loop.simps) simp
  next
    case (Some r)
    obtain s' diff' where r: "r = (s', diff')" by (cases r)
    show ?thesis using less [OF expire_first_decreases [OF assms Some [unfolded r]]] Some r
      by (subst check_loop.simps) simp
  qed
qed

text \<open>Handlers that leave the list alone.\<close>

definition quiet :: "'w modules \<Rightarrow> sys_timeo list \<Rightarrow> bool" where
  "quiet m ts \<longleftrightarrow> (\<forall>t \<in> set ts. case h t of None \<Rightarrow> True
     | Some f \<Rightarrow> \<forall>s. next_timeout (run_handler m f (arg t) s) = next_timeout s \<and>
                     timeouts_last_time (run_handler m f (arg t) s) = timeouts_last_time s)"

text \<open>Firing the first entry, whatever its time.\<close>

definition fire :: "'w modules \<Rightarrow> u32 \<Rightarrow> 'w sys \<Rightarrow> 'w sys" where
  "fire m now s =
     (case next_timeout s of
        [] \<Rightarrow> s
      | t # ts \<Rightarrow>
          let s = s\<lparr>timeouts_last_time := now, next_timeout := ts,
                    pools := memp_free MEMP_SYS_TIMEOUT (Some (elem t)) (pools s)\<rparr>
          in case h t of None \<Rightarrow> s | Some f \<Rightarrow> run_handler m f (arg t) s)"

definition expired :: "nat \<Rightarrow> sys_timeo list \<Rightarrow> nat" where
  "expired diff ts = length (takeWhile (\<lambda>d. fst d \<le> diff) (deadlines 0 ts))"

lemma expired_Cons:
  "expired diff (t # ts) =
     (if unat (time t) \<le> diff then Suc (expired (diff - unat (time t)) ts) else 0)"
proof -
  have "deadlines (unat (time t)) ts = map (\<lambda>(d, f, a). (d + unat (time t), f, a)) (deadlines 0 ts)"
    using deadlines_shift [of 0 "unat (time t)" ts] by simp
  moreover have "d + unat (time t) \<le> diff \<longleftrightarrow> d \<le> diff - unat (time t)" if "unat (time t) \<le> diff" for d
    using that by auto
  ultimately show ?thesis
    by (simp add: expired_def takeWhile_map o_def case_prod_beta)
qed

lemma fire_quiet:
  assumes "quiet m (next_timeout s)" and "next_timeout s = t # ts"
  shows "next_timeout (fire m now s) = ts" and "timeouts_last_time (fire m now s) = now"
  using assms by (auto simp: fire_def quiet_def Let_def split: option.splits)

lemma check_loop_quiet:
  assumes "quiet m (next_timeout s)"
  shows "check_loop m now diff s = Some ((fire m now ^^ expired (unat diff) (next_timeout s)) s)"
  using assms
proof (induction "next_timeout s" arbitrary: s diff)
  case Nil
  have "next_timeout s = []" using Nil.hyps by simp
  then have "expire_first m now diff s = None" "expired (unat diff) (next_timeout s) = 0"
    by (simp_all add: expire_first_def expired_def)
  then show ?case by (subst check_loop.simps) simp
next
  case (Cons t ts)
  note s = Cons.hyps(2) [symmetric]
  note f = fire_quiet [OF Cons.prems s, of now]
  have p: "quiet m (next_timeout (fire m now s))" using Cons.prems f(1) s by (simp add: quiet_def)
  show ?case
  proof (cases "time t \<le> diff")
    case True
    then have le: "unat (time t) \<le> unat diff" "unat (diff - time t) = unat diff - unat (time t)"
      by (simp_all add: word_le_nat_alt unat_sub_le)
    have "expire_first m now diff s = Some (fire m now s, diff - time t)"
      using True s by (simp add: expire_first_def fire_def Let_def)
    then have "check_loop m now diff s = check_loop m now (diff - time t) (fire m now s)"
      by (subst check_loop.simps) simp
    also have "\<dots> = Some ((fire m now ^^ expired (unat diff - unat (time t)) ts) (fire m now s))"
      using Cons.hyps(1) [of "fire m now s" "diff - time t"] f(1) p le(2) by simp
    finally show ?thesis using le(1) s by (simp add: expired_Cons funpow_swap1)
  next
    case False
    then have "expire_first m now diff s = None" "\<not> unat (time t) \<le> unat diff"
      using s by (simp_all add: expire_first_def word_le_nat_alt)
    then show ?thesis using s by (subst check_loop.simps) (simp add: expired_Cons)
  qed
qed

lemma fire_quiet_iter:
  assumes "quiet m (next_timeout s)" and "k \<le> length (next_timeout s)"
  shows "next_timeout ((fire m now ^^ k) s) = drop k (next_timeout s) \<and>
         (0 < k \<longrightarrow> timeouts_last_time ((fire m now ^^ k) s) = now)"
  using assms(2)
proof (induction k)
  case (Suc k)
  let ?s = "(fire m now ^^ k) s"
  have nt: "next_timeout ?s = drop k (next_timeout s)" using Suc by simp
  then obtain t where t: "next_timeout ?s = t # drop (Suc k) (next_timeout s)"
    using Suc.prems by (metis Cons_nth_drop_Suc Suc_le_lessD)
  have "quiet m (next_timeout ?s)"
    using assms(1) nt by (auto simp: quiet_def dest: in_set_dropD)
  from fire_quiet [OF this t] show ?case by simp
qed simp

section \<open>Properties\<close>

text \<open>Property C9: \<^verbatim>\<open>sys_timeout\<close> puts the new timeout at its deadline, behind all that are due no
  later, and leaves every other deadline as it is (the list of differences refines the sorted
  list of deadlines); when the pool is empty it changes nothing.\<close>

theorem sys_timeout_deadlines:
  "deadlines 0 (next_timeout (sys_timeout msecs f a s)) =
     (if fst (memp_malloc MEMP_SYS_TIMEOUT (pools s)) = None then deadlines 0 (next_timeout s)
      else insert_deadline (unat msecs, f, a) (deadlines 0 (next_timeout s)))"
  by (auto simp: sys_timeout_def Let_def deadlines_insert split: prod.split option.split)

text \<open>\<^verbatim>\<open>sys_untimeout\<close> removes the first timeout of the handler and argument and no
  other, and no remaining deadline moves, as long as the deadlines fit in 32 bits.\<close>

lemma sys_untimeout_deadlines:
  assumes "\<forall>d \<in> set (deadlines 0 (next_timeout s)). fst d < 4294967296"
  shows "deadlines 0 (next_timeout (sys_untimeout f a s)) =
         remove_deadline f a (deadlines 0 (next_timeout s))"
proof (cases "unlink f a (next_timeout s)")
  case None
  then have "sys_untimeout f a s = s" by (simp add: sys_untimeout_def)
  with None show ?thesis using remove_deadline_id [of "next_timeout s" f a 0] by (simp add: unlink_None)
next
  case (Some r)
  obtain e us where "r = (e, us)" by (cases r)
  then show ?thesis using unlink_deadlines [OF assms, of f a e us] Some by (simp add: sys_untimeout_def)
qed

definition demo_modules :: "nat modules" where
  "demo_modules = \<lparr>tmr = \<lambda>_ w. w, tcp_pcbs = \<lambda>_. False, other = \<lambda>k a s. s\<lparr>world := k\<rparr>\<rparr>"

definition demo_timeo :: "u32 \<Rightarrow> nat \<Rightarrow> sys_timeo" where
  "demo_timeo t k = \<lparr>elem = 100 + k, time = t, h = Some (H_other k), arg = 0\<rparr>"

definition demo_sys :: "nat sys" where
  "demo_sys = \<lparr>pools = blank_memp, next_timeout = [demo_timeo 10 1, demo_timeo 5 2, demo_timeo 7 3],
     timeouts_last_time = 0, tcp_timer_active = False, world = 0\<rparr>"

lemma sys_untimeout_deadlines_witness:
  "deadlines 0 (next_timeout (sys_untimeout (Some (H_other 2)) 0 demo_sys)) =
     [(10, Some (H_other 1), 0), (22, Some (H_other 3), 0)]"
  by (subst sys_untimeout_deadlines) (simp_all add: demo_sys_def demo_timeo_def)

text \<open>Property C10: \<^verbatim>\<open>sys_check_timeouts\<close> ends, although its loop runs as long as handlers keep
  adding expired timeouts: the module's own timers, and any handler that adds at most one
  timeout of at least one millisecond, cannot keep it busy for ever.\<close>

theorem sys_check_timeouts_ends:
  assumes "modules_ok m"
  shows "\<exists>s'. sys_check_timeouts m now s = Some s'"
  using check_loop_ends [OF assms] by (simp add: sys_check_timeouts_def)

lemma sys_check_timeouts_ends_witness:
  "\<exists>s'. sys_check_timeouts demo_modules 12 (sys_timeouts_init 0 demo_sys) = Some s'"
  by (rule sys_check_timeouts_ends) (simp add: modules_ok_def reschedules_def demo_modules_def)

text \<open>With handlers that add no timeouts, \<^verbatim>\<open>sys_check_timeouts\<close> calls exactly the
  handlers whose deadline has passed, in the order of the deadlines, and drops their entries.
  If it called one, the time base moves to \<^verbatim>\<open>now\<close>, while the entries that are left keep their
  distance to the last one called: each is now late by the time since that deadline.\<close>

lemma sys_check_timeouts_fires:
  fixes m :: "'w modules" and s :: "'w sys" and now :: u32
  assumes "quiet m (next_timeout s)"
  defines "k \<equiv> expired (unat (now - timeouts_last_time s)) (next_timeout s)"
  shows "sys_check_timeouts m now s = Some ((fire m now ^^ k) s) \<and>
     next_timeout ((fire m now ^^ k) s) = drop k (next_timeout s) \<and>
     (0 < k \<longrightarrow> timeouts_last_time ((fire m now ^^ k) s) = now)"
proof -
  have "k \<le> length (deadlines 0 (next_timeout s))"
    unfolding k_def expired_def by (rule length_takeWhile_le)
  then have "k \<le> length (next_timeout s)" by (simp only: deadlines_length)
  moreover have "sys_check_timeouts m now s = Some ((fire m now ^^ k) s)"
    using check_loop_quiet [OF assms(1)] by (auto simp: sys_check_timeouts_def k_def expired_def)
  ultimately show ?thesis using fire_quiet_iter [OF assms(1)] by blast
qed

text \<open>The instance shows the drift: timeouts due at 10, 15 and 22 ms, checked at 14 ms; the one
  due at 15 ms is left with 5 ms counted from 14.\<close>

lemma sys_check_timeouts_fires_witness:
  "\<exists>s'. sys_check_timeouts demo_modules 14 demo_sys = Some s' \<and> timeouts_last_time s' = 14 \<and>
     next_timeout s' = [demo_timeo 5 2, demo_timeo 7 3]"
  using sys_check_timeouts_fires [of demo_modules demo_sys 14]
  by (simp add: quiet_def demo_sys_def demo_timeo_def demo_modules_def run_handler_def expired_def)

end
