(* ===== verification/Ip_Addr.thy ===== *)
theory Ip_Addr
  imports Chksum
begin

text \<open>
  \<^verbatim>\<open>lwip/src/core/ipv4/ip_addr.c\<close>: IPv4 addresses, parsing and printing them, netmasks and
  broadcast addresses.  An address is a \<^verbatim>\<open>u32_t\<close> in network byte order, so its first byte is
  the least significant one.  A C string is the list of its bytes before the final NUL, and
  reading at its end gives NUL.
\<close>

section \<open>Broadcast addresses and netmasks\<close>

record netif =
  nif_flags :: u8
  nif_ip_addr :: u32
  nif_netmask :: u32

abbreviation NETIF_FLAG_BROADCAST :: u8 where "NETIF_FLAG_BROADCAST \<equiv> 2"

definition ip_addr_netcmp :: "u32 \<Rightarrow> u32 \<Rightarrow> u32 \<Rightarrow> bool" where
  "ip_addr_netcmp a b m \<longleftrightarrow> a AND m = b AND m"

definition ip4_addr_isbroadcast :: "u32 \<Rightarrow> netif \<Rightarrow> bool" where
  "ip4_addr_isbroadcast addr n =
     (if NOT addr = 0 \<or> addr = 0 then True
      else if nif_flags n AND NETIF_FLAG_BROADCAST = 0 then False
      else if addr = nif_ip_addr n then False
      else if ip_addr_netcmp addr (nif_ip_addr n) (nif_netmask n) \<and>
              addr AND NOT (nif_netmask n) = 0xffffffff AND NOT (nif_netmask n) then True
      else False)"

text \<open>The two loops of \<^verbatim>\<open>ip4_addr_netmask_valid\<close>.  The argument \<open>Suc i\<close> stands for the mask with
  bit \<open>i\<close> set, \<open>0\<close> for the mask zero.\<close>

fun first_zero :: "u32 \<Rightarrow> nat \<Rightarrow> nat" where
  "first_zero w 0 = 0"
| "first_zero w (Suc i) = (if w AND push_bit i 1 = 0 then Suc i else first_zero w i)"

fun no_one :: "u32 \<Rightarrow> nat \<Rightarrow> bool" where
  "no_one w 0 = True"
| "no_one w (Suc i) = (if w AND push_bit i 1 \<noteq> 0 then False else no_one w i)"

definition ip4_addr_netmask_valid :: "u32 \<Rightarrow> bool" where
  "ip4_addr_netmask_valid netmask =
     (let w = lwip_htonl netmask in no_one w (first_zero w 32))"

section \<open>Parsing\<close>

definition is_in :: "u8 \<Rightarrow> u8 \<Rightarrow> u8 \<Rightarrow> bool" where
  "is_in c lo up \<longleftrightarrow> lo \<le> c \<and> c \<le> up"

definition isdigit :: "u8 \<Rightarrow> bool" where
  "isdigit c = is_in c 48 57"

definition islower :: "u8 \<Rightarrow> bool" where
  "islower c = is_in c 97 122"

definition isxdigit :: "u8 \<Rightarrow> bool" where
  "isxdigit c \<longleftrightarrow> isdigit c \<or> is_in c 97 102 \<or> is_in c 65 70"

definition isspace :: "u8 \<Rightarrow> bool" where
  "isspace c \<longleftrightarrow> c \<in> {32, 12, 10, 13, 9, 11}"

definition char_at :: "u8 list \<Rightarrow> u8" where
  "char_at cp = (case cp of [] \<Rightarrow> 0 | c # _ \<Rightarrow> c)"

text \<open>The digits of one number: its value and the rest of the string.\<close>

fun scan_number :: "u32 \<Rightarrow> u32 \<Rightarrow> u8 list \<Rightarrow> u32 \<times> u8 list" where
  "scan_number base val [] = (val, [])"
| "scan_number base val (c # cp) =
     (if isdigit c then scan_number base (val * base + (ucast c - 48)) cp
      else if base = 16 \<and> isxdigit c
      then scan_number base (push_bit 4 val OR (ucast c + 10 - (if islower c then 97 else 65))) cp
      else (val, c # cp))"

text \<open>The prefix of a number: its base and where its digits go on.\<close>

definition scan_base :: "u8 list \<Rightarrow> u32 \<times> u8 list" where
  "scan_base cp =
     (if char_at cp = 48 then
        let cp = tl cp
        in if char_at cp = 120 \<or> char_at cp = 88 then (16, tl cp) else (8, cp)
      else (10, cp))"

text \<open>The outer loop: \<open>n\<close> more parts can be stored in \<^verbatim>\<open>parts\<close>; the result is the parts stored, the
  last value and the rest of the string.\<close>

fun scan_parts :: "nat \<Rightarrow> u32 list \<Rightarrow> u8 list \<Rightarrow> (u32 list \<times> u32 \<times> u8 list) option" where
  "scan_parts n parts cp =
     (if \<not> isdigit (char_at cp) then None
      else let (base, cp) = scan_base cp;
               (val, cp) = scan_number base 0 cp
           in if char_at cp = 46 then
                (case n of 0 \<Rightarrow> None | Suc m \<Rightarrow> scan_parts m (parts @ [val]) (tl cp))
              else Some (parts, val, cp))"

definition ipaddr_aton :: "u8 list \<Rightarrow> u32 option" where
  "ipaddr_aton cp =
     (case scan_parts 3 [] cp of
        None \<Rightarrow> None
      | Some (parts, val, rest) \<Rightarrow>
          if rest \<noteq> [] \<and> \<not> isspace (char_at rest) then None
          else
            (case parts of
               [] \<Rightarrow> Some (lwip_htonl val)
             | [p0] \<Rightarrow>
                 if val > 0xffffff then None else Some (lwip_htonl (val OR push_bit 24 p0))
             | [p0, p1] \<Rightarrow>
                 if val > 0xffff then None
                 else Some (lwip_htonl (val OR (push_bit 24 p0 OR push_bit 16 p1)))
             | [p0, p1, p2] \<Rightarrow>
                 if val > 0xff then None
                 else Some (lwip_htonl (val OR (push_bit 24 p0 OR push_bit 16 p1 OR push_bit 8 p2)))
             | _ \<Rightarrow> None))"

definition ipaddr_addr :: "u8 list \<Rightarrow> u32" where
  "ipaddr_addr cp = (case ipaddr_aton cp of Some a \<Rightarrow> a | None \<Rightarrow> 0xffffffff)"

section \<open>Printing\<close>

text \<open>The \<^verbatim>\<open>do\<close> loop: the digits of a byte in the array \<^verbatim>\<open>inv\<close>, least significant first.\<close>

fun inv_digits :: "nat \<Rightarrow> u8 list" where
  "inv_digits b = (48 + of_nat (b mod 10)) # (if b div 10 = 0 then [] else inv_digits (b div 10))"

text \<open>Storing characters behind those stored so far, while \<^verbatim>\<open>len < buflen\<close>.\<close>

fun store :: "int \<Rightarrow> u8 list \<Rightarrow> u8 list \<Rightarrow> u8 list option" where
  "store buflen buf [] = Some buf"
| "store buflen buf (c # cs) =
     (if int (length buf) \<ge> buflen then None else store buflen (buf @ [c]) cs)"

fun print_bytes :: "int \<Rightarrow> u8 list \<Rightarrow> u8 list \<Rightarrow> u8 list option" where
  "print_bytes buflen buf [] = Some buf"
| "print_bytes buflen buf (b # bs) =
     (case store buflen buf (rev (inv_digits (unat b))) of
        None \<Rightarrow> None
      | Some buf \<Rightarrow> (case store buflen buf [46] of None \<Rightarrow> None | Some buf \<Rightarrow> print_bytes buflen buf bs))"

definition addr_bytes :: "u32 \<Rightarrow> u8 list" where
  "addr_bytes a = [ucast a, ucast (drop_bit 8 a), ucast (drop_bit 16 a), ucast (drop_bit 24 a)]"

text \<open>The last dot is overwritten by the NUL.\<close>

definition ipaddr_ntoa_r :: "u32 \<Rightarrow> int \<Rightarrow> u8 list option" where
  "ipaddr_ntoa_r addr buflen = map_option butlast (print_bytes buflen [] (addr_bytes addr))"

definition ipaddr_ntoa :: "u32 \<Rightarrow> u8 list option" where
  "ipaddr_ntoa addr = ipaddr_ntoa_r addr 16"

section \<open>The string of an address\<close>

definition dec :: "u8 \<Rightarrow> u8 list" where
  "dec b = rev (inv_digits (unat b))"

definition dotted :: "u32 \<Rightarrow> u8 list" where
  "dotted a = (case addr_bytes a of [b0, b1, b2, b3] \<Rightarrow> dec b0 @ 46 # dec b1 @ 46 # dec b2 @ 46 # dec b3)"

lemma store_eq:
  "store n buf cs = (if cs = [] \<or> int (length buf + length cs) \<le> n then Some (buf @ cs) else None)"
  by (induction cs arbitrary: buf) auto

lemma dec_nonempty: "dec b \<noteq> []"
  by (subst dec_def) (subst inv_digits.simps, simp)

lemma print_bytes_eq:
  "print_bytes n buf bs =
     (let s = buf @ concat (map (\<lambda>b. dec b @ [46]) bs)
      in if bs = [] \<or> int (length s) \<le> n then Some s else None)"
proof (induction bs arbitrary: buf)
  case (Cons b bs)
  show ?case
    by (auto simp: store_eq dec_def [symmetric] dec_nonempty Cons.IH Let_def simp del: inv_digits.simps)
qed simp

lemma ntoa_dotted:
  "ipaddr_ntoa_r a n = (if int (length (dotted a)) < n then Some (dotted a) else None)"
proof -
  have "concat (map (\<lambda>b. dec b @ [46]) (addr_bytes a)) = dotted a @ [46]"
    by (simp add: addr_bytes_def dotted_def)
  moreover have "addr_bytes a \<noteq> []" by (simp add: addr_bytes_def)
  ultimately have "ipaddr_ntoa_r a n =
      map_option butlast (if int (length (dotted a @ [46])) \<le> n then Some (dotted a @ [46]) else None)"
    by (simp only: ipaddr_ntoa_r_def print_bytes_eq append_Nil Let_def simp_thms)
  then show ?thesis by simp
qed

lemma inv_digits_small: "n < 10 \<Longrightarrow> inv_digits n = [48 + of_nat n]"
  by (subst inv_digits.simps) simp

lemma digits_cases:
  fixes n :: nat
  assumes "n < 256"
  obtains (one) "n < 10" "rev (inv_digits n) = [48 + of_nat n]"
    | (two) d e where "n = 10 * d + e" "0 < d" "d < 10" "e < 10" "rev (inv_digits n) = [48 + of_nat d, 48 + of_nat e]"
    | (three) d e f where "n = 100 * d + 10 * e + f" "0 < d" "d < 10" "e < 10" "f < 10"
        "rev (inv_digits n) = [48 + of_nat d, 48 + of_nat e, 48 + of_nat f]"
proof -
  have step: "inv_digits n = (48 + of_nat (n mod 10)) # inv_digits (n div 10)" if "10 \<le> n" for n
    using that by (subst inv_digits.simps) (simp add: div_eq_0_iff del: inv_digits.simps)
  consider "n < 10" | "10 \<le> n" "n < 100" | "100 \<le> n" by linarith
  then show ?thesis
  proof cases
    case 1
    then show ?thesis using one inv_digits_small by simp
  next
    case 2
    then have "n div 10 < 10" "0 < n div 10" by (simp_all add: div_less_iff_less_mult div_greater_zero_iff)
    then show ?thesis using two [of "n div 10" "n mod 10"] step [OF 2(1)] inv_digits_small [of "n div 10"] by simp
  next
    case 3
    let ?m = "n div 10"
    have m: "10 \<le> ?m" "?m < 26" using 3 assms by (simp_all add: less_eq_div_iff_mult_less_eq div_less_iff_less_mult)
    then have "?m div 10 < 10" "0 < ?m div 10" by (simp_all add: div_less_iff_less_mult div_greater_zero_iff)
    moreover have "n = 100 * (?m div 10) + 10 * (?m mod 10) + n mod 10"
      using div_mult_mod_eq [of n 10] div_mult_mod_eq [of ?m 10] by linarith
    ultimately show ?thesis
      using three [of "?m div 10" "?m mod 10" "n mod 10"] step [of n] step [OF m(1)] 3
        inv_digits_small [of "?m div 10"] by simp
  qed
qed

section \<open>Scanning a decimal byte\<close>

abbreviation dg :: "nat \<Rightarrow> u8" where "dg d \<equiv> 48 + of_nat d"

lemma unat_dg: "d < 10 \<Longrightarrow> unat (dg d) = 48 + d"
  by (simp add: unat_word_ariths unat_of_nat)

lemma dg_digit: "d < 10 \<Longrightarrow> isdigit (dg d)"
  by (simp add: isdigit_def is_in_def word_le_nat_alt unat_dg)

lemma dg_zero: "d < 10 \<Longrightarrow> dg d = 48 \<longleftrightarrow> d = 0"
  by (simp add: word_unat_eq_iff unat_dg)

lemma of_nat_digit: "d < 10 \<Longrightarrow> (of_nat d :: u8) = 0 \<longleftrightarrow> d = 0"
  by (simp add: word_unat_eq_iff unat_of_nat_u8)

lemma dg_val: "d < 10 \<Longrightarrow> (ucast (dg d) :: u32) - 48 = of_nat d"
proof -
  assume d: "d < 10"
  have "(ucast (dg d) :: u32) = of_nat (48 + d)"
    using d by (simp only: word_unat_eq_iff unat_ucast_8_32 unat_dg unat_of_nat_u32) simp
  then show ?thesis by simp
qed

lemma dot_not_digit: "\<not> isdigit 46"
  by (simp add: isdigit_def is_in_def)

lemma scan_stop: "rest = [] \<or> char_at rest = 46 \<Longrightarrow> base \<noteq> 16 \<Longrightarrow> scan_number base v rest = (v, rest)"
  by (cases rest) (auto simp: char_at_def dot_not_digit)

lemma scan_dec:
  assumes rest: "rest = [] \<or> char_at rest = 46"
  shows "isdigit (char_at (dec b @ rest)) \<and>
    (case scan_base (dec b @ rest) of (base, cp) \<Rightarrow> scan_number base 0 cp) = (ucast b, rest)"
proof -
  have ub: "(ucast b :: u32) = of_nat n" if "unat b = n" for n using that by auto
  have "rest = [] \<Longrightarrow> char_at rest = 0" by (simp add: char_at_def)
  then have r: "char_at rest \<noteq> 120" "char_at rest \<noteq> 88" using rest by auto
  note scan = dec_def scan_base_def char_at_def [of "_ # _"] Let_def dg_zero dg_digit dg_val
  have "unat b < 256" by simp
  then show ?thesis
  proof (cases rule: digits_cases)
    case one
    show ?thesis
    proof (cases "unat b = 0")
      case True
      then have "dec b = [48]" using one by (simp add: dec_def)
      moreover have "isdigit 48" by (simp add: isdigit_def is_in_def)
      ultimately show ?thesis using r scan_stop [OF rest, of 8 0] ub [OF True]
        by (simp add: scan_base_def char_at_def [of "_ # _"] Let_def)
    next
      case False
      obtain n where n: "unat b = n" by blast
      have "0 < n" "n < 10" "dec b = [dg n]" using one False n by (simp_all only: dec_def)
      then show ?thesis using scan_stop [OF rest, of 10] ub [OF n]
          of_nat_digit [of n]
        by (simp add: scan_base_def char_at_def [of "_ # _"] dg_digit dg_val)
    qed
  next
    case (two d e)
    then show ?thesis using scan_stop [OF rest, of 10] ub [OF two(1)] of_nat_digit [of d]
      by (simp add: scan mult.commute)
  next
    case (three d e f)
    then show ?thesis using scan_stop [OF rest, of 10] ub [OF three(1)] of_nat_digit [of d]
      by (simp add: scan)
  qed
qed

section \<open>Byte order\<close>

lemma unat_and_ff00: "unat ((w :: u32) AND 0xff00) = 256 * (unat w div 256 mod 256)"
proof -
  let ?y = "w AND 0xff00"
  have "drop_bit 8 ?y = drop_bit 8 w AND 0xff" by (simp add: drop_bit_and)
  then have "unat (drop_bit 8 ?y) = unat w div 256 mod 256"
    by (simp only: unat_and_ff_u32 unat_drop_bit_word) simp
  then have "unat ?y div 2 ^ 8 = unat w div 256 mod 256" by (simp only: unat_drop_bit_word)
  then have "unat ?y div 256 = unat w div 256 mod 256" by simp
  moreover have "?y AND 0xff = 0" by (simp add: and.assoc)
  then have "unat ?y mod 256 = 0" by (metis unat_and_ff_u32 unat_0)
  ultimately show ?thesis using mult_div_mod_eq [of 256 "unat ?y"] by simp
qed

lemma unat_htonl:
  "unat (lwip_htonl w) = unat w mod 256 * 16777216 + (unat w div 256 mod 256) * 65536 +
     (unat w div 65536 mod 256) * 256 + unat w div 16777216"
proof -
  have "unat (w AND 0xff) < 256" by (simp add: unat_and_ff_u32)
  then have 1: "unat (push_bit 24 (w AND 0xff)) = unat w mod 256 * 16777216"
    by (simp only: unat_push_byte unat_and_ff_u32)
  have "(unat w div 256 mod 256) * 65536 < 4294967296"
    using mod_less_divisor [of 256 "unat w div 256"] by simp
  then have 2: "unat (push_bit 8 (w AND 0xff00)) = (unat w div 256 mod 256) * 65536"
    by (simp only: unat_push_bit_u32 unat_and_ff00) simp
  have "drop_bit 8 (w AND 0xff0000) = drop_bit 8 w AND 0xff00" by (simp add: drop_bit_and)
  then have 3: "unat (drop_bit 8 (w AND 0xff0000)) = (unat w div 65536 mod 256) * 256"
    by (simp add: unat_and_ff00 unat_drop_bit_word div_mult2_eq [symmetric])
  have "drop_bit 24 (w AND 0xff000000) = drop_bit 24 w AND 0xff" by (simp add: drop_bit_and)
  moreover have lt: "unat w div 16777216 < 256" using u32_lt [of w] by (simp add: div_less_iff_less_mult)
  ultimately have 4: "unat (drop_bit 24 (w AND 0xff000000)) = unat w div 16777216"
    by (simp add: unat_and_ff_u32 unat_drop_bit_word)
  show ?thesis
    unfolding lwip_htonl_def unsigned_or_eq 1 2 3 4 using lt by (intro or_bytes [unfolded or.assoc]) simp_all
qed

text \<open>The address a dotted quad stands for, as \<^verbatim>\<open>htonl\<close> of the value \<^verbatim>\<open>ipaddr_aton\<close> builds.\<close>

lemma bytes_of_sum:
  fixes a b c d :: nat
  assumes "b < 256" and "c < 256" and "d < 256"
  defines "n \<equiv> a * 16777216 + b * 65536 + c * 256 + d"
  shows "n mod 256 = d" and "n div 256 mod 256 = c" and "n div 65536 mod 256 = b" and "n div 16777216 = a"
proof -
  have n: "n = 256 * (a * 65536 + b * 256 + c) + d" by (simp add: n_def)
  have 1: "n div 256 = a * 65536 + b * 256 + c" "n mod 256 = d"
    unfolding n using assms(3) by (simp_all only: div_mult_self4 mod_mult_self4 div_less mod_less)
  have m: "n div 256 = 256 * (a * 256 + b) + c" by (simp add: 1)
  have 2: "n div 256 div 256 = 0 + (a * 256 + b)" "n div 256 mod 256 = c"
    unfolding m using assms(2) by (simp_all only: div_mult_self4 mod_mult_self4 div_less mod_less)
  have "n div 65536 = a * 256 + b" using 2 by (simp add: div_mult2_eq [symmetric])
  moreover have "n div 16777216 = n div 65536 div 256" by (simp add: div_mult2_eq [symmetric])
  ultimately show "n div 65536 mod 256 = b" "n div 16777216 = a" using assms(1) by simp_all
  show "n mod 256 = d" "n div 256 mod 256 = c" by fact+
qed

lemma htonl_quad:
  "lwip_htonl (ucast (b3 :: u8) OR (push_bit 24 (ucast (b0 :: u8)) OR push_bit 16 (ucast (b1 :: u8)) OR
     push_bit 8 (ucast (b2 :: u8)))) = le32 b0 b1 b2 b3"
proof -
  let ?w = "ucast b3 OR (push_bit 24 (ucast b0) OR push_bit 16 (ucast b1) OR push_bit 8 (ucast b2)) :: u32"
  have w: "unat ?w = unat b0 * 16777216 + unat b1 * 65536 + unat b2 * 256 + unat b3"
    using or_bytes [of "unat b1" "unat b2" "unat b3" "unat b0"]
    by (simp add: unsigned_or_eq unat_push_byte unat_ucast_8_32 or.commute or.assoc or.left_commute)
  note bytes = bytes_of_sum [of "unat b1" "unat b2" "unat b3" "unat b0", folded w, simplified]
  have "unat (lwip_htonl ?w) = unat (le32 b0 b1 b2 b3)"
    unfolding unat_htonl bytes by (simp add: word_nat)
  then show ?thesis by (simp add: word_unat_eq_iff)
qed

lemma two_halves:
  assumes "256 * p + x = n" and "256 * q + y = p" and "256 * r + z = (q :: nat)"
  shows "x + 256 * y + 65536 * (z + 256 * r) = n"
  unfolding assms [symmetric] by simp

lemma addr_le32: "le32 (ucast a) (ucast (drop_bit 8 a)) (ucast (drop_bit 16 a)) (ucast (drop_bit 24 a)) = a"
proof -
  let ?n = "unat a"
  have lt: "?n div 16777216 < 256" using u32_lt [of a] by (simp add: div_less_iff_less_mult)
  moreover have "?n div 16777216 = ?n div 65536 div 256" "?n div 65536 = ?n div 256 div 256"
    by (simp_all add: div_mult2_eq [symmetric])
  ultimately have "?n mod 256 + 256 * (?n div 256 mod 256) +
      65536 * (?n div 65536 mod 256 + 256 * (?n div 16777216 mod 256)) = ?n"
    using mult_div_mod_eq [of 256 ?n] mult_div_mod_eq [of 256 "?n div 256"]
      mult_div_mod_eq [of 256 "?n div 65536"] by (metis mod_less two_halves)
  then have "unat (le32 (ucast a) (ucast (drop_bit 8 a)) (ucast (drop_bit 16 a)) (ucast (drop_bit 24 a))) = ?n"
    using mod_less [OF lt] by (simp add: unat_le32 unat_le16 unat_ucast_32_8 unat_drop_bit_word)
  then show ?thesis by (simp only: word_unat_eq_iff)
qed

section \<open>Properties\<close>

lemma scan_step:
  assumes "rest = [] \<or> char_at rest = 46"
  shows "scan_parts n parts (dec b @ rest) =
     (if char_at rest = 46 then (case n of 0 \<Rightarrow> None | Suc m \<Rightarrow> scan_parts m (parts @ [ucast b]) (tl rest))
      else Some (parts, ucast b, rest))"
  using scan_dec [OF assms, of b] by (subst scan_parts.simps) (auto simp: Let_def split: prod.splits)

lemma dec_length: "length (dec b) \<le> 3"
proof -
  have "unat b < 256" by simp
  then show ?thesis by (cases rule: digits_cases) (simp_all add: dec_def del: inv_digits.simps)
qed

lemma ntoa_fits: "length (dotted a) \<le> 15"
  using dec_length [of "ucast a"] dec_length [of "ucast (drop_bit 8 a)"]
    dec_length [of "ucast (drop_bit 16 a)"] dec_length [of "ucast (drop_bit 24 a)"]
  by (simp add: dotted_def addr_bytes_def)

lemma aton_dotted: "ipaddr_aton (dotted a) = Some a"
proof -
  have "scan_parts 3 [] (dotted a) =
      Some ([ucast (ucast a :: u8), ucast (ucast (drop_bit 8 a) :: u8), ucast (ucast (drop_bit 16 a) :: u8)],
            ucast (ucast (drop_bit 24 a) :: u8), [])"
    using scan_step [of "[]" 0 _ "ucast (drop_bit 24 a)"]
    by (simp add: dotted_def addr_bytes_def scan_step char_at_def numeral_3_eq_3 del: scan_parts.simps)
  moreover have "\<not> ucast (ucast (drop_bit 24 a) :: u8) > (0xff :: u32)"
    using u8_le [of "ucast (drop_bit 24 a)"] by (simp add: word_less_nat_alt unat_ucast_8_32 not_less)
  ultimately show ?thesis by (simp add: ipaddr_aton_def htonl_quad addr_le32 del: scan_parts.simps)
qed

text \<open>Property C11: \<^verbatim>\<open>ipaddr_aton\<close> reads back every address that \<^verbatim>\<open>ipaddr_ntoa\<close> prints.\<close>

theorem ipaddr_aton_ntoa:
  "\<exists>s. ipaddr_ntoa a = Some s \<and> ipaddr_aton s = Some a \<and> ipaddr_addr s = a"
  using aton_dotted [of a] ntoa_fits [of a] by (simp add: ipaddr_ntoa_def ntoa_dotted ipaddr_addr_def)

text \<open>\<^verbatim>\<open>ipaddr_ntoa_r\<close> prints the four bytes in decimal with dots and never writes more
  than \<^verbatim>\<open>buflen\<close> bytes: it returns NULL exactly when the string and its NUL do not fit, and
  sixteen bytes always do.\<close>

lemma ipaddr_ntoa_r_bounds:
  "ipaddr_ntoa_r a buflen = (if int (length (dotted a)) + 1 \<le> buflen then Some (dotted a) else None) \<and>
   length (dotted a) + 1 \<le> 16"
  using ntoa_fits [of a] by (simp add: ntoa_dotted)

lemma no_one_iff: "no_one w n \<longleftrightarrow> (\<forall>i < n. \<not> bit w i)"
  by (induction n) (auto simp: less_Suc_eq bit_iff_and_push_bit_not_eq_0)

lemma first_zero_spec:
  "first_zero w n \<le> n \<and> (\<forall>i. first_zero w n \<le> i \<and> i < n \<longrightarrow> bit w i) \<and>
   (first_zero w n = 0 \<or> \<not> bit w (first_zero w n - 1))"
proof (induction n)
  case (Suc n)
  then show ?case by (auto simp: less_Suc_eq bit_iff_and_push_bit_not_eq_0)
qed simp

lemma netmask_valid_bits:
  "ip4_addr_netmask_valid m \<longleftrightarrow> (\<exists>n \<le> 32. \<forall>i < 32. bit (lwip_htonl m) i = (32 - n \<le> i))"
proof -
  let ?w = "lwip_htonl m" and ?j = "first_zero (lwip_htonl m) 32"
  note j = first_zero_spec [of ?w 32]
  show ?thesis
  proof
    assume "ip4_addr_netmask_valid m"
    then have "\<forall>i < ?j. \<not> bit ?w i" by (simp add: ip4_addr_netmask_valid_def Let_def no_one_iff)
    then have "\<forall>i < 32. bit ?w i = (32 - (32 - ?j) \<le> i)" using j by (auto simp: not_le)
    then show "\<exists>n \<le> 32. \<forall>i < 32. bit ?w i = (32 - n \<le> i)" by (intro exI [of _ "32 - ?j"]) simp
  next
    assume "\<exists>n \<le> 32. \<forall>i < 32. bit ?w i = (32 - n \<le> i)"
    then obtain n where n: "n \<le> 32" "\<forall>i < 32. bit ?w i = (32 - n \<le> i)" by blast
    have "?j \<le> 32 - n"
    proof (rule ccontr)
      assume "\<not> ?j \<le> 32 - n"
      then have "?j \<noteq> 0" "32 - n \<le> ?j - 1" "?j - 1 < 32" using j by auto
      then show False using n(2) j by auto
    qed
    then have "no_one ?w ?j" using n(2) by (auto simp: no_one_iff)
    then show "ip4_addr_netmask_valid m" by (simp add: ip4_addr_netmask_valid_def Let_def)
  qed
qed

text \<open>\<^verbatim>\<open>ip4_addr_netmask_valid\<close> accepts exactly the 33 netmasks: \<open>n\<close> leading ones and
  then zeros in host order.\<close>

lemma ip4_addr_netmask_valid_iff:
  "ip4_addr_netmask_valid m \<longleftrightarrow> (\<exists>n \<le> 32. lwip_htonl m = NOT (mask (32 - n)))"
proof -
  have "(\<forall>i < 32. bit w i = (32 - n \<le> i)) \<longleftrightarrow> w = NOT (mask (32 - n))" for w :: u32 and n
    by (auto simp: bit_eq_iff bit_not_iff bit_mask_iff possible_bit_word dest: bit_imp_le_length)
  then show ?thesis by (simp add: netmask_valid_bits)
qed

text \<open>On an interface with broadcast, the broadcast addresses are all ones, all zeros
  and the address of the network with all host bits one, unless it is the interface's own.\<close>

lemma ip4_addr_isbroadcast_iff:
  assumes "nif_flags n AND NETIF_FLAG_BROADCAST \<noteq> 0"
  shows "ip4_addr_isbroadcast a n \<longleftrightarrow> a = 0 \<or> a = 0xffffffff \<or>
     (a \<noteq> nif_ip_addr n \<and> a = (nif_ip_addr n AND nif_netmask n) OR NOT (nif_netmask n))"
proof -
  have ones: "(0xffffffff :: u32) = - 1" by simp
  have "NOT a = 0 \<longleftrightarrow> a = - 1" by (metis bit.compl_zero bit.double_compl)
  moreover have "(a AND m = i AND m \<and> a AND NOT m = NOT m) \<longleftrightarrow> a = (i AND m) OR NOT m" for i m :: u32
    by (auto simp: bit_eq_iff bit_simps)
  ultimately show ?thesis
    using assms unfolding ip4_addr_isbroadcast_def ip_addr_netcmp_def ones by auto
qed

lemma ip4_addr_isbroadcast_iff_witness:
  "ip4_addr_isbroadcast 0xff00a8c0 \<lparr>nif_flags = 2, nif_ip_addr = 0x0100a8c0, nif_netmask = 0x00ffffff\<rparr>"
  by (subst ip4_addr_isbroadcast_iff) simp_all

end
