(* ===== verification/Asn1.thy ===== *)
theory Asn1
  imports Prelude
begin

text \<open>
  \<^verbatim>\<open>lwip/src/core/snmp/asn1_enc.c\<close> and \<^verbatim>\<open>asn1_dec.c\<close>: the ASN.1 BER fields of SNMP messages,
  read from and written into pbuf chains.  A chain is the list of the payloads of its pbufs.
  The position \<^verbatim>\<open>p\<close>, \<^verbatim>\<open>msg_ptr\<close>, \<^verbatim>\<open>ofs\<close>, \<^verbatim>\<open>plen\<close> of the C code is a \<open>cursor\<close>; the offsets are
  natural numbers, since a chain is at most 65535 bytes long (\<^verbatim>\<open>tot_len\<close>).  The code assumes
  that no pbuf is empty: moving to an empty pbuf points behind its payload.
  An \<^verbatim>\<open>s32_t\<close> is a \<open>u32\<close> read as two's complement.  Decoders return \<open>Inl\<close> the error or \<open>Inr\<close>
  the values they store.
\<close>

section \<open>The position in a chain\<close>

record cursor =
  bufs :: "u8 list list"
  buf_no :: nat
  msg_ptr :: nat
  c_ofs :: nat
  c_plen :: nat

text \<open>The \<^verbatim>\<open>while (p != NULL)\<close> loop every function starts with: from pbuf \<open>k\<close> on, \<open>plen\<close> bytes
  are behind.\<close>

fun locate :: "u8 list list \<Rightarrow> nat \<Rightarrow> u8 list list \<Rightarrow> nat \<Rightarrow> nat \<Rightarrow> cursor option" where
  "locate ps k [] plen ofs = None"
| "locate ps k (b # bs) plen ofs =
     (if ofs < plen + length b
      then Some \<lparr>bufs = ps, buf_no = k, msg_ptr = ofs - plen, c_ofs = ofs, c_plen = plen + length b\<rparr>
      else locate ps (Suc k) bs (plen + length b) ofs)"

definition find_ofs :: "u8 list list \<Rightarrow> nat \<Rightarrow> cursor option" where
  "find_ofs p ofs = locate p 0 p 0 ofs"

text \<open>\<^verbatim>\<open>*msg_ptr\<close>, writing it, and moving to the next octet.\<close>

definition get :: "cursor \<Rightarrow> u8" where
  "get c = bufs c ! buf_no c ! msg_ptr c"

definition put :: "u8 \<Rightarrow> cursor \<Rightarrow> cursor" where
  "put x c = c\<lparr>bufs := (bufs c)[buf_no c := (bufs c ! buf_no c)[msg_ptr c := x]]\<rparr>"

definition advance :: "cursor \<Rightarrow> cursor option" where
  "advance c =
     (let ofs = c_ofs c + 1
      in if ofs \<ge> c_plen c then
           if Suc (buf_no c) < length (bufs c)
           then Some (c\<lparr>c_ofs := ofs, buf_no := Suc (buf_no c), msg_ptr := 0,
                        c_plen := c_plen c + length (bufs c ! Suc (buf_no c))\<rparr>)
           else None
         else Some (c\<lparr>c_ofs := ofs, msg_ptr := msg_ptr c + 1\<rparr>))"

section \<open>Octet counts\<close>

definition snmp_asn1_enc_length_cnt :: "u16 \<Rightarrow> nat" where
  "snmp_asn1_enc_length_cnt len = (if len < 0x80 then 1 else if len < 0x100 then 2 else 3)"

definition snmp_asn1_enc_u32t_cnt :: "u32 \<Rightarrow> nat" where
  "snmp_asn1_enc_u32t_cnt value =
     (if value < 0x80 then 1 else if value < 0x8000 then 2 else if value < 0x800000 then 3
      else if value < 0x80000000 then 4 else 5)"

definition snmp_asn1_enc_s32t_cnt :: "u32 \<Rightarrow> nat" where
  "snmp_asn1_enc_s32t_cnt value =
     (let value = (if value <s 0 then NOT value else value)
      in if value <s 0x80 then 1 else if value <s 0x8000 then 2 else if value <s 0x800000 then 3 else 4)"

text \<open>The inner loop counts the further groups of seven bits (arithmetic shifts).\<close>

function sub_id_cnt :: "u32 \<Rightarrow> nat" where
  "sub_id_cnt sub_id = (if 0 <s sub_id then 1 + sub_id_cnt (signed_drop_bit 7 sub_id) else 0)"
  by auto
termination
proof (relation "measure (nat \<circ> sint)")
  fix s :: u32
  assume "0 <s s"
  then have "0 < sint s" by (simp add: word_sless_alt)
  moreover from this have "sint s div 2 ^ 7 < sint s" by simp
  ultimately show "(signed_drop_bit 7 s, s) \<in> measure (nat \<circ> sint)"
    by (simp add: sint_signed_drop_bit_eq drop_bit_eq_div)
qed simp

declare sub_id_cnt.simps [simp del]

fun ident_cnt :: "u32 list \<Rightarrow> nat" where
  "ident_cnt [] = 0"
| "ident_cnt (s # ident) = 1 + sub_id_cnt (signed_drop_bit 7 s) + ident_cnt ident"

definition snmp_asn1_enc_oid_cnt :: "u32 list \<Rightarrow> u8" where
  "snmp_asn1_enc_oid_cnt ident =
     of_nat (if length ident > 1 then 1 + ident_cnt (drop 2 ident) else ident_cnt ident)"

section \<open>Encoders\<close>

definition snmp_asn1_enc_type :: "u8 list list \<Rightarrow> nat \<Rightarrow> u8 \<Rightarrow> err_t \<times> u8 list list" where
  "snmp_asn1_enc_type p ofs ty =
     (case find_ofs p ofs of None \<Rightarrow> (ERR_ARG, p) | Some c \<Rightarrow> (ERR_OK, bufs (put ty c)))"

text \<open>Going on after the next octet has been reached, or giving up at the end of the chain.\<close>

definition then_next :: "cursor \<Rightarrow> (cursor \<Rightarrow> err_t \<times> u8 list list) \<Rightarrow> err_t \<times> u8 list list" where
  "then_next c k = (case advance c of None \<Rightarrow> (ERR_ARG, bufs c) | Some c \<Rightarrow> k c)"

definition snmp_asn1_enc_length :: "u8 list list \<Rightarrow> nat \<Rightarrow> u16 \<Rightarrow> err_t \<times> u8 list list" where
  "snmp_asn1_enc_length p ofs len =
     (case find_ofs p ofs of
        None \<Rightarrow> (ERR_ARG, p)
      | Some c \<Rightarrow>
          if len < 0x80 then (ERR_OK, bufs (put (ucast len) c))
          else if len < 0x100 then
            then_next (put 0x81 c) (\<lambda>c. (ERR_OK, bufs (put (ucast len) c)))
          else
            then_next (put 0x82 c) (\<lambda>c.
              then_next (put (ucast (drop_bit 8 len)) c) (\<lambda>c. (ERR_OK, bufs (put (ucast len) c)))))"

text \<open>The loop over the octets of an integer, most significant first; \<open>shift\<close> is the C operator
  \<^verbatim>\<open>>>\<close> of the value's type.\<close>

fun enc_octets :: "(nat \<Rightarrow> u32 \<Rightarrow> u32) \<Rightarrow> nat \<Rightarrow> u32 \<Rightarrow> cursor \<Rightarrow> err_t \<times> u8 list list" where
  "enc_octets shift (Suc (Suc n)) value c =
     then_next (put (ucast (shift (8 * Suc n) value)) c) (enc_octets shift (Suc n) value)"
| "enc_octets shift n value c = (ERR_OK, bufs (put (ucast value) c))"

definition snmp_asn1_enc_u32t :: "u8 list list \<Rightarrow> nat \<Rightarrow> nat \<Rightarrow> u32 \<Rightarrow> err_t \<times> u8 list list" where
  "snmp_asn1_enc_u32t p ofs octets_needed value =
     (case find_ofs p ofs of
        None \<Rightarrow> (ERR_ARG, p)
      | Some c \<Rightarrow>
          if octets_needed = 5 then then_next (put 0 c) (enc_octets drop_bit 4 value)
          else enc_octets drop_bit octets_needed value c)"

definition snmp_asn1_enc_s32t :: "u8 list list \<Rightarrow> nat \<Rightarrow> nat \<Rightarrow> u32 \<Rightarrow> err_t \<times> u8 list list" where
  "snmp_asn1_enc_s32t p ofs octets_needed value =
     (case find_ofs p ofs of
        None \<Rightarrow> (ERR_ARG, p)
      | Some c \<Rightarrow> enc_octets signed_drop_bit octets_needed value c)"

text \<open>One sub-identifier: the groups for the shifts that are left, without leading zero groups.\<close>

fun enc_sub_id :: "u32 \<Rightarrow> nat list \<Rightarrow> bool \<Rightarrow> cursor \<Rightarrow> (cursor \<Rightarrow> err_t \<times> u8 list list) \<Rightarrow> err_t \<times> u8 list list" where
  "enc_sub_id sub_id [] tail c k = k (put (ucast sub_id AND 0x7f) c)"
| "enc_sub_id sub_id (shift # shifts) tail c k =
     (let code = ucast (signed_drop_bit shift sub_id) :: u8
      in if code \<noteq> 0 \<or> tail
         then then_next (put (code OR 0x80) c) (\<lambda>c. enc_sub_id sub_id shifts True c k)
         else enc_sub_id sub_id shifts tail c k)"

fun enc_sub_ids :: "u32 list \<Rightarrow> cursor \<Rightarrow> err_t \<times> u8 list list" where
  "enc_sub_ids [] c = (ERR_OK, bufs c)"
| "enc_sub_ids (s # ident) c =
     enc_sub_id s [28, 21, 14, 7] False c
       (\<lambda>c. if ident \<noteq> [] then then_next c (enc_sub_ids ident) else enc_sub_ids ident c)"

definition snmp_asn1_enc_oid :: "u8 list list \<Rightarrow> nat \<Rightarrow> u32 list \<Rightarrow> err_t \<times> u8 list list" where
  "snmp_asn1_enc_oid p ofs ident =
     (case find_ofs p ofs of
        None \<Rightarrow> (ERR_ARG, p)
      | Some c \<Rightarrow>
          (case ident of
             i0 # i1 # ident' \<Rightarrow>
               then_next
                 (put (if i0 = 1 \<and> i1 = 3 then 0x2b else ucast (i0 * 40 + i1)) c)
                 (enc_sub_ids ident')
           | _ \<Rightarrow> (ERR_ARG, p)))"

fun enc_raw_loop :: "u8 list \<Rightarrow> cursor \<Rightarrow> err_t \<times> u8 list list" where
  "enc_raw_loop [] c = (ERR_OK, bufs c)"
| "enc_raw_loop [x] c = (ERR_OK, bufs (put x c))"
| "enc_raw_loop (x # xs) c = then_next (put x c) (enc_raw_loop xs)"

definition snmp_asn1_enc_raw :: "u8 list list \<Rightarrow> nat \<Rightarrow> u8 list \<Rightarrow> err_t \<times> u8 list list" where
  "snmp_asn1_enc_raw p ofs raw =
     (case find_ofs p ofs of None \<Rightarrow> (ERR_ARG, p) | Some c \<Rightarrow> enc_raw_loop raw c)"

section \<open>Decoders\<close>

definition dec_next :: "cursor \<Rightarrow> (cursor \<Rightarrow> err_t + 'a) \<Rightarrow> err_t + 'a" where
  "dec_next c k = (case advance c of None \<Rightarrow> Inl ERR_ARG | Some c \<Rightarrow> k c)"

definition dec_at :: "u8 list list \<Rightarrow> nat \<Rightarrow> (cursor \<Rightarrow> err_t + 'a) \<Rightarrow> err_t + 'a" where
  "dec_at p ofs k = (case find_ofs p ofs of None \<Rightarrow> Inl ERR_ARG | Some c \<Rightarrow> k c)"

definition snmp_asn1_dec_type :: "u8 list list \<Rightarrow> nat \<Rightarrow> err_t + u8" where
  "snmp_asn1_dec_type p ofs = dec_at p ofs (\<lambda>c. Inr (get c))"

text \<open>The indefinite form counts octets up to and including two zero octets in a row (the inner
  \<^verbatim>\<open>while\<close> only restarts the outer one).  It runs to the end of the chain at most.\<close>

partial_function (option) dec_indefinite :: "u16 \<Rightarrow> nat \<Rightarrow> cursor \<Rightarrow> (err_t + nat \<times> u16) option" where
  "dec_indefinite len zeros c =
     (if zeros = 2 then Some (Inr (1, len))
      else case advance c of
             None \<Rightarrow> Some (Inl ERR_ARG)
           | Some c \<Rightarrow> dec_indefinite (len + 1) (if get c = 0 then zeros + 1 else 0) c)"

definition snmp_asn1_dec_length :: "u8 list list \<Rightarrow> nat \<Rightarrow> (err_t + nat \<times> u16) option" where
  "snmp_asn1_dec_length p ofs =
     (case find_ofs p ofs of
        None \<Rightarrow> Some (Inl ERR_ARG)
      | Some c \<Rightarrow>
          if get c < 0x80 then Some (Inr (1, ucast (get c)))
          else if get c = 0x80 then dec_indefinite 0 0 c
          else if get c = 0x81 then Some (dec_next c (\<lambda>c. Inr (2, ucast (get c))))
          else if get c = 0x82 then
            Some (dec_next c (\<lambda>c. let len = push_bit 8 (ucast (get c)) in
                    dec_next c (\<lambda>c. Inr (3, len OR ucast (get c)))))
          else Some (Inl ERR_ARG))"

fun dec_u32_loop :: "nat \<Rightarrow> u32 \<Rightarrow> cursor \<Rightarrow> err_t + u32" where
  "dec_u32_loop (Suc (Suc n)) value c =
     dec_next c (dec_u32_loop (Suc n) (push_bit 8 (value OR ucast (get c))))"
| "dec_u32_loop n value c = Inr (value OR ucast (get c))"

definition snmp_asn1_dec_u32t :: "u8 list list \<Rightarrow> nat \<Rightarrow> nat \<Rightarrow> err_t + u32" where
  "snmp_asn1_dec_u32t p ofs len =
     dec_at p ofs (\<lambda>c.
       if 0 < len \<and> len < 6 then
         if get c AND 0x80 \<noteq> 0 then Inl ERR_ARG
         else if len > 1 \<and> get c = 0 then dec_next c (dec_u32_loop (len - 1) 0)
         else dec_u32_loop len 0 c
       else Inl ERR_ARG)"

text \<open>\<^verbatim>\<open>*lsb_ptr &= b\<close> and \<^verbatim>\<open>*lsb_ptr |= b\<close> on the least significant byte.\<close>

definition lsb_and :: "u32 \<Rightarrow> u8 \<Rightarrow> u32" where
  "lsb_and v b = v AND (0xffffff00 OR ucast b)"

definition lsb_or :: "u32 \<Rightarrow> u8 \<Rightarrow> u32" where
  "lsb_or v b = v OR ucast b"

fun dec_s32_loop :: "nat \<Rightarrow> bool \<Rightarrow> u32 \<Rightarrow> cursor \<Rightarrow> err_t + u32" where
  "dec_s32_loop (Suc (Suc n)) sign value c =
     (let value = (if sign then lsb_or (push_bit 8 (lsb_and value (get c))) 255
                   else push_bit 8 (lsb_or value (get c)))
      in dec_next c (dec_s32_loop (Suc n) sign value))"
| "dec_s32_loop n sign value c = Inr (if sign then lsb_and value (get c) else lsb_or value (get c))"

definition snmp_asn1_dec_s32t :: "u8 list list \<Rightarrow> nat \<Rightarrow> nat \<Rightarrow> err_t + u32" where
  "snmp_asn1_dec_s32t p ofs len =
     dec_at p ofs (\<lambda>c.
       if 0 < len \<and> len < 5 then
         if get c AND 0x80 \<noteq> 0 then dec_s32_loop len True (- 1) c else dec_s32_loop len False 0 c
       else Inl ERR_ARG)"

text \<open>Object identifiers: the array \<^verbatim>\<open>oid->id\<close> and the number of its entries in use.\<close>

definition LWIP_SNMP_OBJ_ID_LEN :: nat where [simp]: "LWIP_SNMP_OBJ_ID_LEN = 32"

text \<open>The octets of a sub-identifier with the continuation bit, while more octets are left.\<close>

fun dec_groups :: "nat \<Rightarrow> u32 \<Rightarrow> cursor \<Rightarrow> err_t + nat \<times> u32 \<times> cursor" where
  "dec_groups (Suc (Suc n)) sub_id c =
     (if get c AND 0x80 \<noteq> 0
      then dec_next c (dec_groups (Suc n) (push_bit 7 sub_id + ucast (get c AND 0x7f)))
      else Inr (Suc (Suc n), sub_id, c))"
| "dec_groups n sub_id c = Inr (n, sub_id, c)"

text \<open>The loop over the sub-identifiers: \<open>slots\<close> entries of the array are still free.\<close>

fun dec_sub_ids :: "nat \<Rightarrow> nat \<Rightarrow> u32 list \<Rightarrow> nat \<Rightarrow> cursor \<Rightarrow> err_t + u32 list \<times> nat" where
  "dec_sub_ids slots 0 ids oid_len c = Inr (ids, oid_len)"
| "dec_sub_ids 0 (Suc len) ids oid_len c = Inl ERR_ARG"
| "dec_sub_ids (Suc slots) (Suc len) ids oid_len c =
     (case (if get c AND 0x80 \<noteq> 0 then dec_groups (Suc len) 0 c else Inr (Suc len, 0, c)) of
        Inl e \<Rightarrow> Inl e
      | Inr (n, sub_id, c') \<Rightarrow>
          let (n', ids) =
                (if get c AND 0x80 \<noteq> 0 then
                   if get c' AND 0x80 = 0 \<and> n > 0
                   then (n - 1, ids[oid_len := push_bit 7 sub_id + ucast (get c')]) else (n, ids)
                 else (len, ids[oid_len := ucast (get c)]))
          in if n' > 0 then dec_next c' (dec_sub_ids slots n' ids (Suc oid_len))
             else dec_sub_ids slots n' ids (Suc oid_len) c')"

definition snmp_asn1_dec_oid :: "u8 list list \<Rightarrow> nat \<Rightarrow> nat \<Rightarrow> u32 list \<Rightarrow> err_t + u32 list \<times> nat" where
  "snmp_asn1_dec_oid p ofs len ids =
     dec_at p ofs (\<lambda>c.
       if len > 0 then
         let b = get c;
             ids = (if b = 0x2b then ids[0 := 1, 1 := 3]
                    else if b < 40 then ids[0 := 0, 1 := ucast b]
                    else if b < 80 then ids[0 := 1, 1 := ucast b - 40]
                    else ids[0 := 2, 1 := ucast b - 80]);
             len = len - 1
         in if len > 0 then dec_next c (dec_sub_ids (LWIP_SNMP_OBJ_ID_LEN - 2) len ids 2)
            else dec_sub_ids (LWIP_SNMP_OBJ_ID_LEN - 2) len ids 2 c
       else Inr (ids, 0))"

fun dec_raw_loop :: "nat \<Rightarrow> cursor \<Rightarrow> err_t + u8 list" where
  "dec_raw_loop (Suc (Suc n)) c =
     dec_next c (\<lambda>c'. case dec_raw_loop (Suc n) c' of Inl e \<Rightarrow> Inl e | Inr r \<Rightarrow> Inr (get c # r))"
| "dec_raw_loop n c = Inr [get c]"

definition snmp_asn1_dec_raw :: "u8 list list \<Rightarrow> nat \<Rightarrow> nat \<Rightarrow> nat \<Rightarrow> err_t + u8 list" where
  "snmp_asn1_dec_raw p ofs len raw_len =
     (if len > 0 then dec_at p ofs (\<lambda>c. if raw_len \<ge> len then dec_raw_loop len c else Inl ERR_ARG)
      else Inr [])"

section \<open>The position as an offset in the bytes of the chain\<close>

abbreviation chain_bytes :: "u8 list list \<Rightarrow> u8 list" where
  "chain_bytes p \<equiv> concat p"

definition cur_ok :: "cursor \<Rightarrow> bool" where
  "cur_ok c \<longleftrightarrow>
     [] \<notin> set (bufs c) \<and> buf_no c < length (bufs c) \<and> msg_ptr c < length (bufs c ! buf_no c) \<and>
     c_ofs c = length (concat (take (buf_no c) (bufs c))) + msg_ptr c \<and>
     c_plen c = length (concat (take (Suc (buf_no c)) (bufs c)))"

lemma length_concat_split:
  assumes "k < length ps"
  shows "concat ps = concat (take k ps) @ ps ! k @ concat (drop (Suc k) ps)"
  using assms by (metis append_take_drop_id Cons_nth_drop_Suc concat.simps(2) concat_append)

lemma concat_take_Suc:
  "k < length ps \<Longrightarrow> concat (take (Suc k) ps) = concat (take k ps) @ ps ! k"
  by (simp add: take_Suc_conv_app_nth)

lemma locate_spec:
  assumes "k \<le> length ps" "[] \<notin> set ps" "length (concat (take k ps)) \<le> ofs"
  shows "(case locate ps k (drop k ps) (length (concat (take k ps))) ofs of
            None \<Rightarrow> length (concat ps) \<le> ofs
          | Some c \<Rightarrow> ofs < length (concat ps) \<and> cur_ok c \<and> bufs c = ps \<and> c_ofs c = ofs)"
  using assms
proof (induction "length ps - k" arbitrary: k)
  case 0
  then show ?case by simp
next
  case (Suc n)
  then have k: "k < length ps" by linarith
  then have d: "drop k ps = ps ! k # drop (Suc k) ps" by (rule Cons_nth_drop_Suc [symmetric])
  note c = concat_take_Suc [OF k]
  show ?case
  proof (cases "ofs < length (concat (take k ps)) + length (ps ! k)")
    case True
    moreover have "length (concat (take k ps)) + length (ps ! k) \<le> length (concat ps)"
      by (simp add: length_concat_split [OF k])
    ultimately show ?thesis
      using Suc.prems k by (auto simp: d cur_ok_def c)
  next
    case False
    with Suc.hyps(1) [of "Suc k"] Suc.hyps(2) Suc.prems k show ?thesis
      by (simp add: d c)
  qed
qed

lemma find_ofs_spec:
  assumes "[] \<notin> set p"
  shows "(case find_ofs p ofs of
            None \<Rightarrow> length (chain_bytes p) \<le> ofs
          | Some c \<Rightarrow> ofs < length (chain_bytes p) \<and> cur_ok c \<and> bufs c = p \<and> c_ofs c = ofs)"
  using locate_spec [of 0 p ofs] assms by (simp add: find_ofs_def)

lemma cur_ok_ofs: "cur_ok c \<Longrightarrow> c_ofs c < length (chain_bytes (bufs c))"
  by (auto simp: cur_ok_def length_concat_split [of "buf_no c" "bufs c"])

lemma get_nth: "cur_ok c \<Longrightarrow> get c = chain_bytes (bufs c) ! c_ofs c"
  by (auto simp: cur_ok_def get_def length_concat_split [of "buf_no c" "bufs c"] nth_append)

lemma put_spec:
  assumes "cur_ok c"
  shows "cur_ok (put x c)" "c_ofs (put x c) = c_ofs c"
    "map length (bufs (put x c)) = map length (bufs c)"
    "chain_bytes (bufs (put x c)) = (chain_bytes (bufs c))[c_ofs c := x]"
proof -
  from assms have k: "buf_no c < length (bufs c)" by (simp add: cur_ok_def)
  have ne: "[] \<notin> set ((bufs c)[buf_no c := (bufs c ! buf_no c)[msg_ptr c := x]])"
  proof
    assume "[] \<in> set ((bufs c)[buf_no c := (bufs c ! buf_no c)[msg_ptr c := x]])"
    from subsetD [OF set_update_subset_insert this] assms show False
      by (auto simp: cur_ok_def dest!: arg_cong [of "[]" _ length])
  qed
  have t: "concat (take (buf_no c) ((bufs c)[buf_no c := b])) = concat (take (buf_no c) (bufs c))" for b
    by simp
  show "cur_ok (put x c)"
    using assms k ne by (simp add: cur_ok_def put_def concat_take_Suc t)
  show "c_ofs (put x c) = c_ofs c" by (simp add: put_def)
  show "map length (bufs (put x c)) = map length (bufs c)"
    using k by (simp add: put_def map_update list_update_same_conv)
  show "chain_bytes (bufs (put x c)) = (chain_bytes (bufs c))[c_ofs c := x]"
    using assms k
    by (simp add: cur_ok_def put_def length_concat_split [of "buf_no c" "bufs c"]
        length_concat_split [of "buf_no c" "(bufs c)[buf_no c := (bufs c ! buf_no c)[msg_ptr c := x]]"]
        list_update_append)
qed

lemma advance_spec:
  assumes "cur_ok c"
  shows "(case advance c of
            None \<Rightarrow> length (chain_bytes (bufs c)) = Suc (c_ofs c)
          | Some c' \<Rightarrow> cur_ok c' \<and> bufs c' = bufs c \<and> c_ofs c' = Suc (c_ofs c))"
proof -
  let ?ps = "bufs c" and ?k = "buf_no c"
  from assms have k: "?k < length ?ps" and m: "msg_ptr c < length (?ps ! ?k)" and ne: "[] \<notin> set ?ps"
    and o: "c_ofs c = length (concat (take ?k ?ps)) + msg_ptr c"
    and l: "c_plen c = length (concat (take ?k ?ps)) + length (?ps ! ?k)"
    by (auto simp: cur_ok_def concat_take_Suc)
  show ?thesis
  proof (cases "Suc (c_ofs c) \<ge> c_plen c")
    case True
    with o l m have s: "Suc (msg_ptr c) = length (?ps ! ?k)" by linarith
    show ?thesis
    proof (cases "Suc ?k < length ?ps")
      case True
      with ne have "?ps ! Suc ?k \<noteq> []" by (metis nth_mem)
      with True \<open>Suc (c_ofs c) \<ge> c_plen c\<close> assms s k show ?thesis
        by (simp add: advance_def cur_ok_def concat_take_Suc)
    next
      case False
      with \<open>Suc (c_ofs c) \<ge> c_plen c\<close> o s show ?thesis
        by (simp add: advance_def length_concat_split [OF k])
    qed
  next
    case False
    with assms o l show ?thesis by (auto simp: advance_def cur_ok_def Let_def)
  qed
qed

section \<open>Writing and reading a run of octets\<close>

text \<open>Replacing the bytes from offset \<open>n\<close> on.\<close>

definition patch :: "nat \<Rightarrow> 'a list \<Rightarrow> 'a list \<Rightarrow> 'a list" where
  "patch n xs bs = take n bs @ xs @ drop (n + length xs) bs"

lemma length_patch [simp]: "n + length xs \<le> length bs \<Longrightarrow> length (patch n xs bs) = length bs"
  by (simp add: patch_def)

lemma take_drop_patch [simp]:
  "n + length xs \<le> length bs \<Longrightarrow> take (length xs) (drop n (patch n xs bs)) = xs"
  by (simp add: patch_def)

lemma patch_Cons:
  assumes "n < length bs"
  shows "patch n (x # xs) bs = patch (Suc n) xs (bs[n := x])"
  using assms by (simp add: patch_def take_Suc_conv_app_nth)

lemma patch_Nil [simp]: "patch n [] bs = bs"
  by (simp add: patch_def)

lemma nonempty_lengths: "[] \<in> set xs \<longleftrightarrow> 0 \<in> set (map length xs)"
  by force

lemma same_lengths_nonempty: "map length ps = map length qs \<Longrightarrow> [] \<in> set ps \<longleftrightarrow> [] \<in> set qs"
  by (simp only: nonempty_lengths)

lemma same_lengths_total:
  "map length ps = map length qs \<Longrightarrow> length (concat ps) = length (concat qs)"
  by (simp add: length_concat)

text \<open>What every encoder does once its position is found: \<open>xs\<close> is written if it fits.\<close>

definition writes :: "u8 list \<Rightarrow> nat \<Rightarrow> u8 list list \<Rightarrow> err_t \<times> u8 list list \<Rightarrow> bool" where
  "writes xs ofs p r \<longleftrightarrow>
     map length (snd r) = map length p \<and>
     (if ofs + length xs \<le> length (chain_bytes p)
      then fst r = ERR_OK \<and> chain_bytes (snd r) = patch ofs xs (chain_bytes p)
      else fst r = ERR_ARG)"

lemma enc_raw_loop_writes:
  "cur_ok c \<Longrightarrow> xs \<noteq> [] \<Longrightarrow> writes xs (c_ofs c) (bufs c) (enc_raw_loop xs c)"
proof (induction xs c rule: enc_raw_loop.induct)
  case (2 x c)
  with cur_ok_ofs [OF 2(1)] put_spec [OF 2(1), of x] show ?case
    by (simp add: writes_def patch_Cons)
next
  case (3 x y ys c)
  note pt = put_spec [OF 3(2), of x]
  show ?case
  proof (cases "advance (put x c)")
    case None
    with advance_spec [OF pt(1)] pt show ?thesis by (simp add: writes_def then_next_def)
  next
    case (Some c')
    with advance_spec [OF pt(1)] pt
    have c': "cur_ok c'" "bufs c' = bufs (put x c)" "c_ofs c' = Suc (c_ofs c)" by auto
    from same_lengths_total [OF pt(3)] cur_ok_ofs [OF 3(2)] 3(1) [OF c'(1)] c' pt Some
    show ?thesis by (auto simp: writes_def then_next_def patch_Cons)
  qed
qed auto

lemma enc_at_writes:
  assumes "[] \<notin> set p" "xs \<noteq> []"
  shows "writes xs ofs p (case find_ofs p ofs of None \<Rightarrow> (ERR_ARG, p) | Some c \<Rightarrow> enc_raw_loop xs c)"
proof (cases "find_ofs p ofs")
  case None
  with find_ofs_spec [OF assms(1), of ofs] assms(2) show ?thesis by (cases xs) (auto simp: writes_def)
next
  case (Some c)
  with find_ofs_spec [OF assms(1), of ofs] enc_raw_loop_writes [of c xs] assms(2) show ?thesis by auto
qed

text \<open>What a decoder of a field of \<open>n\<close> octets does with them.\<close>

definition read_at :: "nat \<Rightarrow> nat \<Rightarrow> u8 list list \<Rightarrow> (u8 list \<Rightarrow> err_t + 'a) \<Rightarrow> err_t + 'a" where
  "read_at ofs n p f =
     (if ofs + n \<le> length (chain_bytes p) then f (take n (drop ofs (chain_bytes p))) else Inl ERR_ARG)"

lemma take_drop_nth: "n < length bs \<Longrightarrow> take (Suc k) (drop n bs) = bs ! n # take k (drop (Suc n) bs)"
  by (simp add: Cons_nth_drop_Suc [symmetric])

lemma dec_raw_loop_read:
  "cur_ok c \<Longrightarrow> 0 < n \<Longrightarrow> dec_raw_loop n c = read_at (c_ofs c) n (bufs c) Inr"
proof (induction n c rule: dec_raw_loop.induct)
  case (1 n c)
  note g = get_nth [OF 1(2)] cur_ok_ofs [OF 1(2)]
  show ?case
  proof (cases "advance c")
    case None
    with advance_spec [OF 1(2)] show ?thesis by (simp add: dec_next_def read_at_def)
  next
    case (Some c')
    with advance_spec [OF 1(2)] 1(1) [of c'] g show ?thesis
      by (auto simp: dec_next_def read_at_def take_drop_nth)
  qed
qed (use get_nth cur_ok_ofs in \<open>auto simp: read_at_def take_drop_nth Suc_le_eq\<close>)

lemma dec_at_raw:
  assumes "[] \<notin> set p" "0 < n"
  shows "dec_at p ofs (dec_raw_loop n) = read_at ofs n p Inr"
  using find_ofs_spec [OF assms(1), of ofs] assms(2) dec_raw_loop_read
  by (auto simp: dec_at_def read_at_def split: option.splits)

section \<open>Integers\<close>

fun octets :: "(nat \<Rightarrow> u32 \<Rightarrow> u32) \<Rightarrow> nat \<Rightarrow> u32 \<Rightarrow> u8 list" where
  "octets shift (Suc (Suc n)) v = ucast (shift (8 * Suc n) v) # octets shift (Suc n) v"
| "octets shift n v = [ucast v]"

lemma octets_nonempty [simp]: "octets shift n v \<noteq> []"
  by (induction shift n v rule: octets.induct) auto

lemma length_octets: "0 < n \<Longrightarrow> length (octets shift n v) = n"
  by (induction shift n v rule: octets.induct) auto

lemma enc_raw_loop_Cons: "xs \<noteq> [] \<Longrightarrow> enc_raw_loop (x # xs) c = then_next (put x c) (enc_raw_loop xs)"
  by (cases xs) auto

lemma enc_octets_raw: "enc_octets shift n v = enc_raw_loop (octets shift n v)"
proof (induction shift n v rule: octets.induct)
  case (1 shift n v)
  then show ?case by (intro ext) (simp add: enc_raw_loop_Cons)
qed (auto intro!: ext)

fun u32_of :: "u32 \<Rightarrow> u8 list \<Rightarrow> u32" where
  "u32_of v [] = v"
| "u32_of v [b] = v OR ucast b"
| "u32_of v (b # bs) = u32_of (push_bit 8 (v OR ucast b)) bs"

fun s32_of :: "bool \<Rightarrow> u32 \<Rightarrow> u8 list \<Rightarrow> u32" where
  "s32_of sign v [] = v"
| "s32_of sign v [b] = (if sign then lsb_and v b else lsb_or v b)"
| "s32_of sign v (b # bs) =
     s32_of sign (if sign then lsb_or (push_bit 8 (lsb_and v b)) 255 else push_bit 8 (lsb_or v b)) bs"

lemma dec_loop_read:
  assumes "cur_ok c" "\<And>c. cur_ok c \<Longrightarrow> D c = read_at (c_ofs c) n (bufs c) f" "0 < n"
  shows "dec_next c D =
    (if Suc (c_ofs c) + n \<le> length (chain_bytes (bufs c))
     then f (take n (drop (Suc (c_ofs c)) (chain_bytes (bufs c)))) else Inl ERR_ARG)"
proof (cases "advance c")
  case None
  with advance_spec [OF assms(1)] assms(3) show ?thesis by (simp add: dec_next_def)
next
  case (Some c')
  with advance_spec [OF assms(1)] assms(2) [of c'] show ?thesis by (auto simp: dec_next_def read_at_def)
qed

lemma take_pos_Cons: "0 < n \<Longrightarrow> ofs < length bs \<Longrightarrow> take n (drop ofs bs) \<noteq> []"
  by simp

lemma dec_u32_loop_read:
  "cur_ok c \<Longrightarrow> 0 < n \<Longrightarrow> dec_u32_loop n v c = read_at (c_ofs c) n (bufs c) (\<lambda>bs. Inr (u32_of v bs))"
proof (induction n arbitrary: v c rule: nat_less_induct)
  case (1 n)
  note g = get_nth [OF 1(2)] cur_ok_ofs [OF 1(2)]
  consider "n = 1" | k where "n = Suc (Suc k)" using 1(3) by (cases n; cases "n - 1") auto
  then show ?case
  proof cases
    case 1
    with g show ?thesis by (simp add: read_at_def take_drop_nth)
  next
    case 2
    let ?v = "push_bit 8 (v OR ucast (get c))"
    have "dec_u32_loop n v c = dec_next c (dec_u32_loop (Suc k) ?v)" using 2 by simp
    also have "\<dots> = (if Suc (c_ofs c) + Suc k \<le> length (chain_bytes (bufs c))
        then Inr (u32_of ?v (take (Suc k) (drop (Suc (c_ofs c)) (chain_bytes (bufs c))))) else Inl ERR_ARG)"
      by (rule dec_loop_read [OF 1(2)]) (use 1(1) 2 in auto)
    finally show ?thesis
      using g 2 by (simp add: read_at_def take_drop_nth)
  qed
qed

lemma dec_s32_loop_read:
  "cur_ok c \<Longrightarrow> 0 < n \<Longrightarrow>
     dec_s32_loop n sign v c = read_at (c_ofs c) n (bufs c) (\<lambda>bs. Inr (s32_of sign v bs))"
proof (induction n arbitrary: v c rule: nat_less_induct)
  case (1 n)
  note g = get_nth [OF 1(2)] cur_ok_ofs [OF 1(2)]
  consider "n = 1" | k where "n = Suc (Suc k)" using 1(3) by (cases n; cases "n - 1") auto
  then show ?case
  proof cases
    case 1
    with g show ?thesis by (simp add: read_at_def take_drop_nth)
  next
    case 2
    let ?v = "if sign then lsb_or (push_bit 8 (lsb_and v (get c))) 255 else push_bit 8 (lsb_or v (get c))"
    have "dec_s32_loop n sign v c = dec_next c (dec_s32_loop (Suc k) sign ?v)" using 2 by simp
    also have "\<dots> = (if Suc (c_ofs c) + Suc k \<le> length (chain_bytes (bufs c))
        then Inr (s32_of sign ?v (take (Suc k) (drop (Suc (c_ofs c)) (chain_bytes (bufs c))))) else Inl ERR_ARG)"
      by (rule dec_loop_read [OF 1(2)]) (use 1(1) 2 in auto)
    finally show ?thesis
      using g 2 by (simp add: read_at_def take_drop_nth)
  qed
qed

text \<open>The accumulator holds the higher octets of the value, shifted by one octet.\<close>

lemma u32_acc: "push_bit 8 (drop_bit (8 * Suc k) v) OR ucast (ucast (drop_bit (8 * k) v) :: u8) = drop_bit (8 * k) (v :: u32)"
  by (rule bit_word_eqI) (auto simp: bit_simps)

lemma u32_of_octets:
  "0 < n \<Longrightarrow> u32_of (push_bit 8 (drop_bit (8 * n) v)) (octets drop_bit n v) = v"
proof (induction n)
  case (Suc n)
  show ?case
  proof (cases n)
    case 0
    with u32_acc [of 0 v] show ?thesis by simp
  next
    case (Suc k)
    with \<open>0 < n \<Longrightarrow> _\<close> u32_acc [of n v] show ?thesis
      by (cases "octets drop_bit n v") (simp_all del: mult_Suc_right)
  qed
qed simp

lemma bit_ff: "bit (0xff :: int) n \<longleftrightarrow> n < 8"
proof -
  have m: "(0xff :: int) = mask 8" by (simp add: mask_eq_exp_minus_1)
  show ?thesis unfolding m bit_mask_iff by auto
qed

lemma bit_ffffff00: "bit (0xffffff00 :: int) n \<longleftrightarrow> 8 \<le> n \<and> n < 32"
proof -
  have m: "(0xffffff00 :: int) = push_bit 8 (mask 24)" by (simp add: mask_eq_exp_minus_1 push_bit_eq_mult)
  show ?thesis unfolding m bit_push_bit_iff bit_mask_iff by auto
qed

lemma s32_acc_pos:
  "lsb_or (push_bit 8 (signed_drop_bit (8 * Suc k) v)) (ucast (signed_drop_bit (8 * k) v)) = signed_drop_bit (8 * k) (v :: u32)"
  by (rule bit_word_eqI) (auto simp: lsb_or_def bit_simps bit_ff)

lemma s32_acc_neg:
  "lsb_and (lsb_or (push_bit 8 (signed_drop_bit (8 * Suc k) v)) 255) (ucast (signed_drop_bit (8 * k) v)) = signed_drop_bit (8 * k) (v :: u32)"
  by (rule bit_word_eqI) (auto simp: lsb_or_def lsb_and_def bit_simps bit_ff bit_ffffff00)

lemma and_80: "(b :: u8) AND 0x80 = 0 \<longleftrightarrow> \<not> bit b 7"
  using and_exp_eq_0_iff_not_bit [of b 7] by simp

lemma hd_octets: "0 < n \<Longrightarrow> hd (octets shift n v) = (if n = 1 then ucast v else ucast (shift (8 * (n - 1)) v))"
  by (cases "(shift, n, v)" rule: octets.cases) auto

lemma tl_octets: "1 < n \<Longrightarrow> tl (octets shift n v) = octets shift (n - 1) v"
  by (cases "(shift, n, v)" rule: octets.cases) auto

text \<open>The octets of an unsigned integer in \<open>n\<close> octets.\<close>

definition u32_octets :: "nat \<Rightarrow> u32 \<Rightarrow> u8 list" where
  "u32_octets n v = (if n = 5 then 0 # octets drop_bit 4 v else octets drop_bit n v)"

lemma u32_octets_nonempty [simp]: "u32_octets n v \<noteq> []"
  by (simp add: u32_octets_def)

lemma length_u32_octets: "0 < n \<Longrightarrow> length (u32_octets n v) = n"
  by (simp add: u32_octets_def length_octets)

lemma enc_u32t_writes:
  assumes "[] \<notin> set p"
  shows "writes (u32_octets n v) ofs p (snmp_asn1_enc_u32t p ofs n v)"
proof -
  have "snmp_asn1_enc_u32t p ofs n v =
      (case find_ofs p ofs of None \<Rightarrow> (ERR_ARG, p) | Some c \<Rightarrow> enc_raw_loop (u32_octets n v) c)"
    by (simp add: snmp_asn1_enc_u32t_def u32_octets_def enc_octets_raw enc_raw_loop_Cons split: option.split)
  then show ?thesis using enc_at_writes [OF assms, of "u32_octets n v" ofs] by simp
qed

lemma dec_u32t_read:
  assumes "[] \<notin> set p" "0 < n" "n < 6" "ofs + n \<le> length (chain_bytes p)"
    and bs: "bs = take n (drop ofs (chain_bytes p))"
  shows "snmp_asn1_dec_u32t p ofs n =
    (if bit (hd bs) 7 then Inl ERR_ARG
     else if 1 < n \<and> hd bs = 0 then Inr (u32_of 0 (tl bs)) else Inr (u32_of 0 bs))"
proof -
  from find_ofs_spec [OF assms(1), of ofs] assms(2,4)
  obtain c where f: "find_ofs p ofs = Some c" and c: "cur_ok c" "bufs c = p" "c_ofs c = ofs"
    by (cases "find_ofs p ofs") auto
  obtain m where n: "n = Suc m" using assms(2) by (cases n) auto
  from assms(4) n have b: "bs = chain_bytes p ! ofs # take m (drop (Suc ofs) (chain_bytes p))"
    by (simp add: bs take_drop_nth)
  have g: "get c = hd bs" using get_nth [OF c(1)] c b by simp
  have "dec_next c (dec_u32_loop m 0) = Inr (u32_of 0 (tl bs))" if "0 < m"
    using dec_loop_read [OF c(1), of "dec_u32_loop m 0" m "\<lambda>bs. Inr (u32_of 0 bs)"]
      dec_u32_loop_read that assms(4) c b n by auto
  moreover have "dec_u32_loop n 0 c = Inr (u32_of 0 bs)"
    using dec_u32_loop_read [OF c(1) assms(2), of 0] assms(4) c bs by (simp add: read_at_def)
  ultimately show ?thesis
    using assms(2,3) n by (auto simp: snmp_asn1_dec_u32t_def dec_at_def f g and_80)
qed

lemma u32_octets_value:
  assumes "0 < n" "n < 6" "n < 5 \<Longrightarrow> drop_bit (8 * n - 1) v = 0"
  defines "bs \<equiv> u32_octets n v"
  shows "\<not> bit (hd bs) 7" "u32_of 0 (if 1 < n \<and> hd bs = 0 then tl bs else bs) = v"
proof -
  have hi: "\<not> bit v i" if "n < 5" "8 * n - 1 \<le> i" for i
  proof -
    from that have "\<not> bit (drop_bit (8 * n - 1) v) (i - (8 * n - 1))"
      using assms(3) by (simp del: One_nat_def)
    with that show ?thesis by (simp add: bit_drop_bit_eq)
  qed
  have start: "push_bit 8 (drop_bit (8 * k) v) = 0"
    if "\<And>i. 8 * k \<le> i \<Longrightarrow> \<not> bit v i" for k
    by (rule bit_word_eqI) (auto simp: bit_simps that)
  show "\<not> bit (hd bs) 7"
    using assms(1,2) hi by (auto simp: bs_def u32_octets_def hd_octets bit_simps algebra_simps)
  have five: "u32_of 0 (octets drop_bit 4 v) = v"
    using u32_of_octets [of 4 v] start [of 4] by (auto dest: bit_imp_le_length)
  have full: "u32_of 0 (octets drop_bit n v) = v" if "n < 5"
    using u32_of_octets [of n v] start [of n] hi assms(1) that by simp
  have short: "u32_of 0 (octets drop_bit (n - 1) v) = v" if "1 < n" "n < 5" "hd bs = 0"
  proof -
    have "\<not> bit v i" if i: "8 * (n - 1) \<le> i" for i
    proof (cases "i < 8 * n")
      case True
      from \<open>hd bs = 0\<close> have "\<not> bit (ucast (drop_bit (8 * (n - 1)) v) :: u8) (i - 8 * (n - 1))"
        using \<open>1 < n\<close> \<open>n < 5\<close> by (simp add: bs_def u32_octets_def hd_octets)
      with i True show ?thesis by (simp add: bit_simps)
    qed (use hi [of i] \<open>n < 5\<close> in auto)
    then show ?thesis using u32_of_octets [of "n - 1" v] start [of "n - 1"] that by simp
  qed
  show "u32_of 0 (if 1 < n \<and> hd bs = 0 then tl bs else bs) = v"
    using five full short assms(1,2) by (cases "n = 5") (auto simp: bs_def u32_octets_def tl_octets)
qed

lemma drop_bit_0_iff: "drop_bit k v = 0 \<longleftrightarrow> unat v < 2 ^ k" for v :: "'a::len word"
  by (simp add: word_unat_eq_iff unat_drop_bit_word div_eq_0_iff)

lemma u32t_cnt_fits:
  assumes "n = snmp_asn1_enc_u32t_cnt v"
  shows "0 < n" "n < 6" "n < 5 \<Longrightarrow> drop_bit (8 * n - 1) v = 0"
  using assms
  by (auto simp: snmp_asn1_enc_u32t_cnt_def drop_bit_0_iff word_less_nat_alt split: if_splits)

text \<open>The s32 octets are those of the arithmetic shift.\<close>

lemma enc_s32t_writes:
  assumes "[] \<notin> set p"
  shows "writes (octets signed_drop_bit n v) ofs p (snmp_asn1_enc_s32t p ofs n v)"
  unfolding snmp_asn1_enc_s32t_def enc_octets_raw by (rule enc_at_writes) (use assms in auto)

lemma dec_s32t_read:
  assumes "[] \<notin> set p" "0 < n" "n < 5" "ofs + n \<le> length (chain_bytes p)"
    and bs: "bs = take n (drop ofs (chain_bytes p))"
  shows "snmp_asn1_dec_s32t p ofs n =
    Inr (if bit (hd bs) 7 then s32_of True (- 1) bs else s32_of False 0 bs)"
proof -
  from find_ofs_spec [OF assms(1), of ofs] assms(2,4)
  obtain c where f: "find_ofs p ofs = Some c" and c: "cur_ok c" "bufs c = p" "c_ofs c = ofs"
    by (cases "find_ofs p ofs") auto
  from assms(2,4) have "hd bs = chain_bytes p ! ofs" by (simp add: bs hd_drop_conv_nth)
  then have g: "get c = hd bs" using get_nth [OF c(1)] c by simp
  show ?thesis
    using dec_s32_loop_read [OF c(1) assms(2)] c assms(2,3,4)
    by (simp add: snmp_asn1_dec_s32t_def dec_at_def f g and_80 read_at_def bs)
qed

lemma s32_of_octets:
  assumes "0 < n"
  shows "s32_of False (push_bit 8 (signed_drop_bit (8 * n) v)) (octets signed_drop_bit n v) = v"
    and "s32_of True (lsb_or (push_bit 8 (signed_drop_bit (8 * n) v)) 255) (octets signed_drop_bit n v) = v"
  using assms
proof (induction n)
  case (Suc n)
  {
    case 1
    with Suc.IH(1) s32_acc_pos [of n v] s32_acc_pos [of 0 v] show ?case
      by (cases n; cases "octets signed_drop_bit n v") (simp_all del: mult_Suc_right)
  next
    case 2
    with Suc.IH(2) s32_acc_neg [of n v] s32_acc_neg [of 0 v] show ?case
      by (cases n; cases "octets signed_drop_bit n v") (simp_all del: mult_Suc_right)
  }
qed simp_all

lemma s32_octets_value:
  assumes "0 < n" "n < 5" "signed_drop_bit (8 * n - 1) v = 0 \<or> signed_drop_bit (8 * n - 1) v = - 1"
  defines "bs \<equiv> octets signed_drop_bit n v"
  shows "(if bit (hd bs) 7 then s32_of True (- 1) bs else s32_of False 0 bs) = v"
proof -
  have sgn: "bit v (8 * n - 1) \<longleftrightarrow> signed_drop_bit (8 * n - 1) v = - 1"
  proof -
    have "bit (signed_drop_bit (8 * n - 1) v) 0 = bit v (8 * n - 1)"
      using assms(1,2) by (auto simp: bit_simps)
    with assms(3) show ?thesis by auto
  qed
  have hd7: "bit (hd bs) 7 \<longleftrightarrow> bit v (8 * n - 1)"
    using assms(1,2) by (auto simp: bs_def hd_octets bit_simps algebra_simps)
  have more: "signed_drop_bit (8 * n) v = signed_drop_bit 1 (signed_drop_bit (8 * n - 1) v)"
    using assms(1) by simp
  have "lsb_or (push_bit 8 (- 1)) 255 = - 1"
    by (rule bit_word_eqI) (auto simp: lsb_or_def bit_simps bit_ff)
  note neg = this
  show ?thesis
  proof (cases "bit v (8 * n - 1)")
    case True
    then have "signed_drop_bit (8 * n) v = - 1" using sgn by (simp only: more signed_drop_bit_of_minus_1)
    with s32_of_octets(2) [OF assms(1), of v] neg True hd7 show ?thesis by (simp only: bs_def if_True)
  next
    case False
    then have "signed_drop_bit (8 * n) v = 0"
      using sgn assms(3) by (simp only: more signed_drop_bit_of_0 simp_thms)
    with s32_of_octets(1) [OF assms(1), of v] False hd7 show ?thesis
      by (simp only: bs_def if_False push_bit_of_0)
  qed
qed

lemma sint_not: "sint (NOT v) = - sint v - 1" for v :: u32
  using sint_ge [of v] sint_lt [of v]
  by (simp add: signed_not_eq signed_take_bit_int_eq_self_iff not_int_def)

lemma sdb_small:
  fixes v :: "'a::len word"
  assumes "- (2 ^ k) \<le> sint v" "sint v < 2 ^ k"
  shows "signed_drop_bit k v = 0 \<or> signed_drop_bit k v = - 1"
proof -
  have "sint (signed_drop_bit k v) = sint v div 2 ^ k"
    by (simp add: sint_signed_drop_bit_eq drop_bit_eq_div)
  moreover have "sint v div 2 ^ k = 0 \<or> sint v div 2 ^ k = - 1"
  proof (cases "0 \<le> sint v")
    case True
    then show ?thesis using assms by (simp add: div_pos_pos_trivial)
  next
    case False
    then show ?thesis using assms int_div_pos_eq [of "sint v" "2 ^ k" "- 1" "sint v + 2 ^ k"] by simp
  qed
  ultimately show ?thesis by (auto intro: signed_word_eqI)
qed

lemma s32t_cnt_sint:
  "snmp_asn1_enc_s32t_cnt v =
     (let m = (if sint v < 0 then - sint v - 1 else sint v)
      in if m < 0x80 then 1 else if m < 0x8000 then 2 else if m < 0x800000 then 3 else 4)"
  by (simp add: snmp_asn1_enc_s32t_cnt_def Let_def word_sless_alt sint_not)

lemma s32t_cnt_fits:
  assumes "n = snmp_asn1_enc_s32t_cnt v"
  shows "0 < n" "n < 5" "signed_drop_bit (8 * n - 1) v = 0 \<or> signed_drop_bit (8 * n - 1) v = - 1"
proof -
  from assms sint_ge [of v] sint_lt [of v]
  have "n = 1 \<and> - (2 ^ 7) \<le> sint v \<and> sint v < 2 ^ 7 \<or> n = 2 \<and> - (2 ^ 15) \<le> sint v \<and> sint v < 2 ^ 15
      \<or> n = 3 \<and> - (2 ^ 23) \<le> sint v \<and> sint v < 2 ^ 23 \<or> n = 4 \<and> - (2 ^ 31) \<le> sint v \<and> sint v < 2 ^ 31"
    by (auto simp: s32t_cnt_sint Let_def split: if_splits)
  then show "0 < n" "n < 5" "signed_drop_bit (8 * n - 1) v = 0 \<or> signed_drop_bit (8 * n - 1) v = - 1"
    using sdb_small [of 7 v] sdb_small [of 15 v] sdb_small [of 23 v] sdb_small [of 31 v] by auto
qed

lemma writes_fit:
  assumes "writes xs ofs p (r, p')" "[] \<notin> set p" "ofs + length xs \<le> length (chain_bytes p)"
  shows "r = ERR_OK" "[] \<notin> set p'" "length (chain_bytes p') = length (chain_bytes p)"
    "take (length xs) (drop ofs (chain_bytes p')) = xs"
    "take ofs (chain_bytes p') = take ofs (chain_bytes p)"
    "drop (ofs + length xs) (chain_bytes p') = drop (ofs + length xs) (chain_bytes p)"
  using assms same_lengths_nonempty [of p' p] by (auto simp: writes_def) (simp_all add: patch_def)

text \<open>Property C12: an unsigned integer written with the number of octets the count function asks
  for reads back as the same value, wherever the octets lie in the chain, and the bytes before and
  behind it are untouched; when it does not fit in the chain the encoder returns \<^verbatim>\<open>ERR_ARG\<close>.\<close>

theorem snmp_asn1_u32t_roundtrip:
  assumes "[] \<notin> set p"
    and "snmp_asn1_enc_u32t p ofs (snmp_asn1_enc_u32t_cnt v) v = (r, p')"
  defines "n \<equiv> snmp_asn1_enc_u32t_cnt v"
  shows "(r = ERR_OK) = (ofs + n \<le> length (chain_bytes p)) \<and> (r \<noteq> ERR_OK \<longrightarrow> r = ERR_ARG) \<and>
    (r = ERR_OK \<longrightarrow> snmp_asn1_dec_u32t p' ofs n = Inr v \<and>
       take ofs (chain_bytes p') = take ofs (chain_bytes p) \<and>
       drop (ofs + n) (chain_bytes p') = drop (ofs + n) (chain_bytes p))"
proof -
  note n = u32t_cnt_fits [OF n_def [THEN meta_eq_to_obj_eq]]
  have w: "writes (u32_octets n v) ofs p (r, p')"
    using enc_u32t_writes [OF assms(1), of n v ofs] assms(2) by (simp add: n_def)
  show ?thesis
  proof (cases "ofs + n \<le> length (chain_bytes p)")
    case True
    note f = writes_fit [OF w assms(1), unfolded length_u32_octets [OF n(1)], OF True]
    from f(3) True have "ofs + n \<le> length (chain_bytes p')" by simp
    from dec_u32t_read [OF f(2) n(1,2) this] u32_octets_value [OF n] f
    show ?thesis using True by (auto split: if_splits)
  next
    case False
    with w show ?thesis by (simp add: writes_def length_u32_octets [OF n(1)])
  qed
qed

lemma snmp_asn1_u32t_roundtrip_witness:
  "fst (snmp_asn1_enc_u32t [[1, 2], [3], [4, 5]] 1 (snmp_asn1_enc_u32t_cnt 0x8000) 0x8000) = ERR_OK"
  using snmp_asn1_u32t_roundtrip [of "[[1, 2], [3], [4, 5]]" 1 "0x8000"
      "fst (snmp_asn1_enc_u32t [[1, 2], [3], [4, 5]] 1 (snmp_asn1_enc_u32t_cnt 0x8000) 0x8000)"
      "snd (snmp_asn1_enc_u32t [[1, 2], [3], [4, 5]] 1 (snmp_asn1_enc_u32t_cnt 0x8000) 0x8000)"]
  by (simp add: snmp_asn1_enc_u32t_cnt_def)

text \<open>The same for signed integers.\<close>

lemma snmp_asn1_s32t_roundtrip:
  assumes "[] \<notin> set p"
    and "snmp_asn1_enc_s32t p ofs (snmp_asn1_enc_s32t_cnt v) v = (r, p')"
  defines "n \<equiv> snmp_asn1_enc_s32t_cnt v"
  shows "(r = ERR_OK) = (ofs + n \<le> length (chain_bytes p)) \<and> (r \<noteq> ERR_OK \<longrightarrow> r = ERR_ARG) \<and>
    (r = ERR_OK \<longrightarrow> snmp_asn1_dec_s32t p' ofs n = Inr v \<and>
       take ofs (chain_bytes p') = take ofs (chain_bytes p) \<and>
       drop (ofs + n) (chain_bytes p') = drop (ofs + n) (chain_bytes p))"
proof -
  note n = s32t_cnt_fits [OF n_def [THEN meta_eq_to_obj_eq]]
  have w: "writes (octets signed_drop_bit n v) ofs p (r, p')"
    using enc_s32t_writes [OF assms(1), of n v ofs] assms(2) by (simp add: n_def)
  show ?thesis
  proof (cases "ofs + n \<le> length (chain_bytes p)")
    case True
    note f = writes_fit [OF w assms(1), unfolded length_octets [OF n(1)], OF True]
    from f(3) True have "ofs + n \<le> length (chain_bytes p')" by simp
    from dec_s32t_read [OF f(2) n(1,2) this] s32_octets_value [OF n] f
    show ?thesis using True by simp
  next
    case False
    with w show ?thesis by (simp add: writes_def length_octets [OF n(1)])
  qed
qed

lemma snmp_asn1_s32t_roundtrip_witness:
  "fst (snmp_asn1_enc_s32t [[1, 2], [3], [4, 5]] 1 (snmp_asn1_enc_s32t_cnt (- 129)) (- 129)) = ERR_OK"
  using snmp_asn1_s32t_roundtrip [of "[[1, 2], [3], [4, 5]]" 1 "- 129"
      "fst (snmp_asn1_enc_s32t [[1, 2], [3], [4, 5]] 1 (snmp_asn1_enc_s32t_cnt (- 129)) (- 129))"
      "snd (snmp_asn1_enc_s32t [[1, 2], [3], [4, 5]] 1 (snmp_asn1_enc_s32t_cnt (- 129)) (- 129))"]
  by (simp add: s32t_cnt_sint)

section \<open>Lengths\<close>

text \<open>A decoder step inside the chain: the cursor \<open>c\<close> is at offset \<open>n\<close> of the bytes \<open>bs\<close>.\<close>

definition at :: "cursor \<Rightarrow> nat \<Rightarrow> u8 list \<Rightarrow> bool" where
  "at c n bs \<longleftrightarrow> cur_ok c \<and> c_ofs c = n \<and> chain_bytes (bufs c) = bs"

lemma atD: "at c n bs \<Longrightarrow> n < length bs \<and> get c = bs ! n"
  using cur_ok_ofs get_nth by (auto simp: at_def)

lemma dec_nextE:
  assumes "at c n bs" "Suc n < length bs"
  obtains c' where "at c' (Suc n) bs" "\<And>k :: cursor \<Rightarrow> err_t + 'a. dec_next c k = k c'"
proof -
  from advance_spec [of c] assms
  obtain c' where "advance c = Some c'" "at c' (Suc n) bs"
    by (cases "advance c") (auto simp: at_def)
  then show thesis by (intro that [of c']) (auto simp: dec_next_def)
qed

lemma dec_atE:
  assumes "[] \<notin> set p" "ofs < length (chain_bytes p)"
  obtains c where "at c ofs (chain_bytes p)" "find_ofs p ofs = Some c"
    "\<And>k :: cursor \<Rightarrow> err_t + 'a. dec_at p ofs k = k c"
proof -
  from find_ofs_spec [OF assms(1), of ofs] assms(2)
  obtain c where "find_ofs p ofs = Some c" "at c ofs (chain_bytes p)"
    by (cases "find_ofs p ofs") (auto simp: at_def)
  then show thesis by (intro that [of c]) (auto simp: dec_at_def)
qed

definition len_octets :: "u16 \<Rightarrow> u8 list" where
  "len_octets len =
     (if len < 0x80 then [ucast len] else if len < 0x100 then [0x81, ucast len]
      else [0x82, ucast (drop_bit 8 len), ucast len])"

lemma length_len_octets: "length (len_octets len) = snmp_asn1_enc_length_cnt len"
  by (simp add: len_octets_def snmp_asn1_enc_length_cnt_def)

lemma enc_length_writes:
  assumes "[] \<notin> set p"
  shows "writes (len_octets len) ofs p (snmp_asn1_enc_length p ofs len)"
proof -
  have step: "enc_raw_loop [x] = (\<lambda>c. (ERR_OK, bufs (put x c)))"
    "enc_raw_loop [x, y] = (\<lambda>c. then_next (put x c) (enc_raw_loop [y]))" for x y
    by auto
  have "snmp_asn1_enc_length p ofs len =
      (case find_ofs p ofs of None \<Rightarrow> (ERR_ARG, p) | Some c \<Rightarrow> enc_raw_loop (len_octets len) c)"
    unfolding snmp_asn1_enc_length_def len_octets_def by (auto simp: step split: option.split)
  then show ?thesis
    using enc_at_writes [OF assms, of "len_octets len" ofs] by (simp add: len_octets_def)
qed

lemma dec_length_read:
  assumes "[] \<notin> set p" "take (length (len_octets len)) (drop ofs (chain_bytes p)) = len_octets len"
  shows "snmp_asn1_dec_length p ofs = Some (Inr (snmp_asn1_enc_length_cnt len, len))"
proof -
  let ?bs = "chain_bytes p"
  have nth: "?bs ! (ofs + i) = len_octets len ! i \<and> ofs + i < length ?bs" if "i < length (len_octets len)" for i
  proof -
    from arg_cong [OF assms(2), of length] that have "ofs + i < length ?bs" by auto
    moreover from this that have "take (length (len_octets len)) (drop ofs ?bs) ! i = ?bs ! (ofs + i)" by simp
    ultimately show ?thesis using assms(2) by simp
  qed
  have "0 < length (len_octets len)" by (simp add: len_octets_def)
  with nth [of 0] have "ofs < length ?bs" by simp
  from dec_atE [OF assms(1) this] obtain c where c: "at c ofs ?bs" "find_ofs p ofs = Some c" by blast
  have g: "get c = len_octets len ! 0"
    using atD [OF c(1)] nth [of 0] \<open>0 < length (len_octets len)\<close> by simp
  consider "len < 0x80" | "\<not> len < 0x80" "len < 0x100" | "\<not> len < 0x80" "\<not> len < 0x100" by blast
  then show ?thesis
  proof cases
    case 1
    then have l: "unat len < 0x80" by (simp add: word_less_nat_alt)
    then have "(ucast len :: u8) < 0x80" "ucast (ucast len :: u8) = len"
      by (simp_all add: word_less_nat_alt word_unat_eq_iff word_nat)
    with 1 g c show ?thesis
      by (simp add: snmp_asn1_dec_length_def len_octets_def snmp_asn1_enc_length_cnt_def)
  next
    case 2
    then have l: "unat len < 0x100" by (simp add: word_less_nat_alt)
    then have u: "ucast (ucast len :: u8) = len" by (simp add: word_unat_eq_iff word_nat)
    from nth [of 1] 2 have "Suc ofs < length ?bs" by (simp add: len_octets_def)
    from dec_nextE [OF c(1) this] obtain c' where c': "at c' (Suc ofs) ?bs"
      "\<And>k :: cursor \<Rightarrow> err_t + nat \<times> u16. dec_next c k = k c'" by blast
    from atD [OF c'(1)] nth [of 1] 2 have "get c' = ucast len" by (simp add: len_octets_def)
    with 2 g c c' u show ?thesis
      by (simp add: snmp_asn1_dec_length_def len_octets_def snmp_asn1_enc_length_cnt_def)
  next
    case 3
    from nth [of 1] nth [of 2] 3 have l: "Suc ofs < length ?bs" "Suc (Suc ofs) < length ?bs"
      by (auto simp: len_octets_def)
    from dec_nextE [OF c(1) l(1)] obtain c' where c': "at c' (Suc ofs) ?bs"
      "\<And>k :: cursor \<Rightarrow> err_t + nat \<times> u16. dec_next c k = k c'" by blast
    from dec_nextE [OF c'(1) l(2)] obtain c'' where c'': "at c'' (Suc (Suc ofs)) ?bs"
      "\<And>k :: cursor \<Rightarrow> err_t + nat \<times> u16. dec_next c' k = k c''" by blast
    from atD [OF c'(1)] atD [OF c''(1)] nth [of 1] nth [of 2] 3
    have "get c' = ucast (drop_bit 8 len)" "get c'' = ucast len" by (simp_all add: len_octets_def)
    moreover have "push_bit 8 (ucast (ucast (drop_bit 8 len) :: u8)) OR ucast (ucast len :: u8) = len"
      by (rule bit_word_eqI) (auto simp: bit_simps)
    ultimately show ?thesis
      using 3 g c c' c'' by (simp add: snmp_asn1_dec_length_def len_octets_def snmp_asn1_enc_length_cnt_def)
  qed
qed

text \<open>A length field reads back with the number of octets the count function gives,
  for every 16 bit length; the encoder fails exactly when the octets do not fit in the chain.\<close>

lemma snmp_asn1_length_roundtrip:
  assumes "[] \<notin> set p" "snmp_asn1_enc_length p ofs len = (r, p')"
  defines "n \<equiv> snmp_asn1_enc_length_cnt len"
  shows "(r = ERR_OK) = (ofs + n \<le> length (chain_bytes p)) \<and> (r \<noteq> ERR_OK \<longrightarrow> r = ERR_ARG) \<and>
    (r = ERR_OK \<longrightarrow> snmp_asn1_dec_length p' ofs = Some (Inr (n, len)) \<and>
       take ofs (chain_bytes p') = take ofs (chain_bytes p) \<and>
       drop (ofs + n) (chain_bytes p') = drop (ofs + n) (chain_bytes p))"
proof (cases "ofs + n \<le> length (chain_bytes p)")
  case True
  have w: "writes (len_octets len) ofs p (r, p')" using enc_length_writes [OF assms(1), of len ofs] assms(2) by simp
  note f = writes_fit [OF w assms(1), unfolded length_len_octets n_def [symmetric], OF True]
  from dec_length_read [OF f(2), of len ofs] f(4) have "snmp_asn1_dec_length p' ofs = Some (Inr (n, len))"
    by (simp add: length_len_octets n_def)
  with f True show ?thesis by simp
next
  case False
  with enc_length_writes [OF assms(1), of len ofs] assms(2) show ?thesis
    by (simp add: writes_def length_len_octets n_def)
qed

lemma snmp_asn1_length_roundtrip_witness:
  "fst (snmp_asn1_enc_length [[1, 2], [3], [4, 5]] 1 0x1234) = ERR_OK"
  using snmp_asn1_length_roundtrip [of "[[1, 2], [3], [4, 5]]" 1 "0x1234"
      "fst (snmp_asn1_enc_length [[1, 2], [3], [4, 5]] 1 0x1234)"
      "snd (snmp_asn1_enc_length [[1, 2], [3], [4, 5]] 1 0x1234)"]
  by (simp add: snmp_asn1_enc_length_cnt_def)

text \<open>The indefinite form: \<open>ends_at bs ofs k\<close> when octet \<open>k\<close> behind the length octet is the second of
  two zero octets.\<close>

definition ends_at :: "u8 list \<Rightarrow> nat \<Rightarrow> nat \<Rightarrow> bool" where
  "ends_at bs ofs k \<longleftrightarrow> 0 < k \<and> ofs + k < length bs \<and> bs ! (ofs + k - 1) = 0 \<and> bs ! (ofs + k) = 0"

lemma dec_indefinite_spec:
  assumes "at c (ofs + j) bs" "z = (if bs ! (ofs + j) = 0 then 1 else 0)" "\<And>i. i \<le> j \<Longrightarrow> \<not> ends_at bs ofs i"
  shows "dec_indefinite (of_nat j) z c =
    Some (if \<exists>k. ends_at bs ofs k then Inr (1, of_nat (LEAST k. ends_at bs ofs k)) else Inl ERR_ARG)"
  using assms
proof (induction "length bs - (ofs + j)" arbitrary: j z c)
  case 0
  then show ?case using atD [OF 0(2)] by simp
next
  case (Suc d)
  from Suc.prems(2) have z: "z \<noteq> 2" by (simp split: if_splits)
  show ?case
  proof (cases "advance c")
    case None
    with advance_spec [of c] Suc.prems(1) have "length bs = Suc (ofs + j)" by (simp add: at_def)
    with Suc.prems(3) have "\<not> ends_at bs ofs k" for k
      by (cases "k \<le> j") (auto simp: ends_at_def)
    with None z show ?thesis by (simp add: dec_indefinite.simps)
  next
    case (Some c')
    with advance_spec [of c] Suc.prems(1) have c': "at c' (ofs + Suc j) bs" by (simp add: at_def)
    let ?b = "bs ! (ofs + Suc j)"
    have g: "get c' = ?b" "ofs + Suc j < length bs" using atD [OF c'] by simp_all
    have e: "ends_at bs ofs (Suc j) \<longleftrightarrow> ?b = 0 \<and> z = 1"
      using g(2) Suc.prems(2) by (auto simp: ends_at_def)
    have step: "dec_indefinite (of_nat j) z c =
        dec_indefinite (of_nat (Suc j)) (if ?b = 0 then z + 1 else 0) c'"
      using Some z g by (subst dec_indefinite.simps) (simp add: add.commute)
    show ?thesis
    proof (cases "ends_at bs ofs (Suc j)")
      case True
      have "(LEAST k. ends_at bs ofs k) = Suc j"
        by (rule Least_equality [where P = "ends_at bs ofs", OF True]) (use Suc.prems(3) not_less_eq_eq in blast)
      with True e show ?thesis unfolding step
        by (subst dec_indefinite.simps) (auto simp del: of_nat_Suc)
    next
      case False
      have "dec_indefinite (of_nat (Suc j)) (if ?b = 0 then z + 1 else 0) c' =
        Some (if \<exists>k. ends_at bs ofs k then Inr (1, of_nat (LEAST k. ends_at bs ofs k)) else Inl ERR_ARG)"
      proof (rule Suc.hyps(1))
        show "d = length bs - (ofs + Suc j)" using Suc.hyps(2) by simp
        show "at c' (ofs + Suc j) bs" by (rule c')
        show "(if ?b = 0 then z + 1 else 0) = (if ?b = 0 then 1 else 0)"
          using False e Suc.prems(2) by (auto split: if_splits)
        show "\<not> ends_at bs ofs i" if "i \<le> Suc j" for i
          using that False Suc.prems(3) by (cases "i = Suc j") auto
      qed
      with step show ?thesis by simp
    qed
  qed
qed

text \<open>\<^verbatim>\<open>snmp_asn1_dec_length\<close> returns for every chain, and for the indefinite form the
  length it stores counts the octets up to and including the first two zero octets in a row (mod
  65536); a chain without them is rejected.\<close>

lemma snmp_asn1_dec_length_total:
  assumes "[] \<notin> set p"
  shows "snmp_asn1_dec_length p ofs \<noteq> None \<and>
    (ofs < length (chain_bytes p) \<and> chain_bytes p ! ofs = 0x80 \<longrightarrow>
       snmp_asn1_dec_length p ofs =
         Some (if \<exists>k. ends_at (chain_bytes p) ofs k
               then Inr (1, of_nat (LEAST k. ends_at (chain_bytes p) ofs k)) else Inl ERR_ARG))"
proof (cases "ofs < length (chain_bytes p)")
  case True
  from dec_atE [OF assms this] obtain c where c: "at c ofs (chain_bytes p)" "find_ofs p ofs = Some c" by blast
  note g = atD [OF c(1)]
  have "dec_indefinite 0 0 c = Some (if \<exists>k. ends_at (chain_bytes p) ofs k
      then Inr (1, of_nat (LEAST k. ends_at (chain_bytes p) ofs k)) else Inl ERR_ARG)"
    if "chain_bytes p ! ofs = 0x80"
    using dec_indefinite_spec [of c ofs 0 "chain_bytes p" 0] c(1) that by (simp add: ends_at_def)
  with g c(2) True show ?thesis by (simp add: snmp_asn1_dec_length_def)
next
  case False
  with find_ofs_spec [OF assms, of ofs] have "find_ofs p ofs = None" by (simp split: option.splits)
  with False show ?thesis by (simp add: snmp_asn1_dec_length_def)
qed

lemma snmp_asn1_dec_length_total_witness:
  "snmp_asn1_dec_length [[0x80, 5], [0], [0, 7]] 0 \<noteq> None"
  using snmp_asn1_dec_length_total [of "[[0x80, 5], [0], [0, 7]]" 0] by simp

section \<open>Object identifiers\<close>

text \<open>The octets of a sub-identifier, for the shifts that are left.\<close>

fun sub_octets :: "u32 \<Rightarrow> nat list \<Rightarrow> bool \<Rightarrow> u8 list" where
  "sub_octets s [] tail = [ucast s AND 0x7f]"
| "sub_octets s (shift # shifts) tail =
     (let code = ucast (signed_drop_bit shift s) :: u8
      in if code \<noteq> 0 \<or> tail then (code OR 0x80) # sub_octets s shifts True else sub_octets s shifts tail)"

lemma sub_octets_nonempty [simp]: "sub_octets s sh tail \<noteq> []"
  by (induction s sh tail rule: sub_octets.induct) (auto simp: Let_def)

fun write_k :: "u8 list \<Rightarrow> cursor \<Rightarrow> (cursor \<Rightarrow> err_t \<times> u8 list list) \<Rightarrow> err_t \<times> u8 list list" where
  "write_k [] c k = k c"
| "write_k [x] c k = k (put x c)"
| "write_k (x # xs) c k = then_next (put x c) (\<lambda>c. write_k xs c k)"

lemma write_k_Cons: "xs \<noteq> [] \<Longrightarrow> write_k (x # xs) c k = then_next (put x c) (\<lambda>c. write_k xs c k)"
  by (cases xs) auto

lemma enc_sub_id_write: "enc_sub_id s sh tail c k = write_k (sub_octets s sh tail) c k"
proof (induction sh arbitrary: tail c)
  case (Cons a sh)
  then have "(\<lambda>c. enc_sub_id s sh True c k) = (\<lambda>c. write_k (sub_octets s sh True) c k)" by auto
  with Cons show ?case by (simp add: Let_def write_k_Cons)
qed simp

lemma write_k_raw: "xs \<noteq> [] \<Longrightarrow> write_k xs c (\<lambda>c. (ERR_OK, bufs c)) = enc_raw_loop xs c"
proof (induction xs arbitrary: c)
  case (Cons x xs)
  show ?case
  proof (cases "xs = []")
    case False
    with Cons.IH have "(\<lambda>c. write_k xs c (\<lambda>c. (ERR_OK, bufs c))) = enc_raw_loop xs" by auto
    with False show ?thesis by (simp add: write_k_Cons enc_raw_loop_Cons)
  qed simp
qed simp

lemma write_k_then: "xs \<noteq> [] \<Longrightarrow> ys \<noteq> [] \<Longrightarrow>
  write_k xs c (\<lambda>c. then_next c (enc_raw_loop ys)) = enc_raw_loop (xs @ ys) c"
proof (induction xs arbitrary: c)
  case (Cons x xs)
  show ?case
  proof (cases "xs = []")
    case True
    with Cons.prems show ?thesis by (simp add: enc_raw_loop_Cons)
  next
    case False
    with Cons have "(\<lambda>c. write_k xs c (\<lambda>c. then_next c (enc_raw_loop ys))) = enc_raw_loop (xs @ ys)" by auto
    with False show ?thesis by (simp add: write_k_Cons enc_raw_loop_Cons)
  qed
qed simp

fun shifts :: "nat \<Rightarrow> nat list" where
  "shifts 0 = []"
| "shifts (Suc k) = 7 * Suc k # shifts k"

lemma shifts_4: "[28, 21, 14, 7] = shifts 4"
  by (simp add: eval_nat_numeral)

abbreviation id_octets :: "u32 \<Rightarrow> u8 list" where
  "id_octets s \<equiv> sub_octets s (shifts 4) False"

lemma enc_sub_ids_raw:
  "ident \<noteq> [] \<Longrightarrow> enc_sub_ids ident = enc_raw_loop (concat (map id_octets ident))"
proof (induction ident)
  case (Cons s ident)
  show ?case
  proof (cases "ident = []")
    case True
    then show ?thesis by (intro ext) (simp add: enc_sub_id_write shifts_4 write_k_raw del: shifts.simps)
  next
    case False
    then have "concat (map id_octets ident) \<noteq> []" by (cases ident) auto
    with False Cons show ?thesis
      by (intro ext) (simp add: enc_sub_id_write shifts_4 write_k_then)
  qed
qed simp

definition first_octet :: "u32 \<Rightarrow> u32 \<Rightarrow> u8" where
  "first_octet i0 i1 = ucast (i0 * 40 + i1)"

definition oid_octets :: "u32 list \<Rightarrow> u8 list" where
  "oid_octets ident = first_octet (ident ! 0) (ident ! 1) # concat (map id_octets (drop 2 ident))"

lemma enc_oid_writes:
  assumes "[] \<notin> set p" "2 < length ident"
  shows "writes (oid_octets ident) ofs p (snmp_asn1_enc_oid p ofs ident)"
proof -
  obtain i0 i1 ident' where i: "ident = i0 # i1 # ident'" "ident' \<noteq> []"
    using assms(2) by (cases ident rule: remdups_adj.cases) auto
  have "first_octet i0 i1 = (if i0 = 1 \<and> i1 = 3 then 0x2b else ucast (i0 * 40 + i1))"
    by (simp add: first_octet_def)
  moreover from i(2) have "concat (map id_octets ident') \<noteq> []" by (cases ident') auto
  ultimately have "snmp_asn1_enc_oid p ofs ident =
      (case find_ofs p ofs of None \<Rightarrow> (ERR_ARG, p) | Some c \<Rightarrow> enc_raw_loop (oid_octets ident) c)"
    using i by (simp add: snmp_asn1_enc_oid_def oid_octets_def enc_sub_ids_raw enc_raw_loop_Cons split: option.split)
  then show ?thesis using enc_at_writes [OF assms(1), of "oid_octets ident" ofs] by (simp add: oid_octets_def)
qed

text \<open>The decoder's accumulator holds the groups above the next one.\<close>

lemma bit_7f: "bit (0x7f :: int) n \<longleftrightarrow> n < 7"
proof -
  have m: "(0x7f :: int) = mask 7" by (simp add: mask_eq_exp_minus_1)
  show ?thesis unfolding m bit_mask_iff by auto
qed

lemma bit_80: "bit (0x80 :: int) n \<longleftrightarrow> n = 7"
proof -
  have m: "(0x80 :: int) = 2 ^ 7" by simp
  show ?thesis unfolding m bit_exp_iff by auto
qed

lemma group_or:
  fixes w :: u32 and b :: u8
  assumes "\<And>n. n < 7 \<Longrightarrow> bit b n = bit w n"
  shows "push_bit 7 (signed_drop_bit 7 w) + ucast (b AND 0x7f) = w"
proof -
  have "push_bit 7 (signed_drop_bit 7 w) AND ucast (b AND 0x7f) = 0"
    by (rule bit_word_eqI) (auto simp: bit_simps bit_7f)
  then have "push_bit 7 (signed_drop_bit 7 w) + ucast (b AND 0x7f) =
      push_bit 7 (signed_drop_bit 7 w) OR ucast (b AND 0x7f)"
    by (rule disjunctive_add_eq_or)
  also have "\<dots> = w"
  proof (rule bit_word_eqI)
    fix n assume "n < LENGTH(32)"
    then show "bit (push_bit 7 (signed_drop_bit 7 w) OR ucast (b AND 0x7f)) n = bit w n"
      using assms [of n] by (cases "n < 7") (auto simp: bit_simps bit_7f)
  qed
  finally show ?thesis .
qed

lemma group_step:
  "push_bit 7 (signed_drop_bit (7 * Suc (Suc k)) s) + ucast ((ucast (signed_drop_bit (7 * Suc k) s) OR 0x80 :: u8) AND 0x7f)
   = signed_drop_bit (7 * Suc k) (s :: u32)"
proof -
  have "signed_drop_bit (7 * Suc (Suc k)) s = signed_drop_bit 7 (signed_drop_bit (7 * Suc k) s)" by simp
  moreover have "bit (ucast (signed_drop_bit (7 * Suc k) s) OR 0x80 :: u8) n = bit (signed_drop_bit (7 * Suc k) s) n"
    if "n < 7" for n
    using that by (auto simp: bit_simps bit_80)
  ultimately show ?thesis by (simp only: group_or)
qed

lemma group_last: "push_bit 7 (signed_drop_bit 7 s) + ucast (ucast s AND 0x7f :: u8) = (s :: u32)"
  by (rule group_or) (auto simp: bit_simps)

lemma group_skip:
  assumes "signed_drop_bit (7 * Suc (Suc k)) s = 0" "(ucast (signed_drop_bit (7 * Suc k) s) :: u8) = 0"
  shows "signed_drop_bit (7 * Suc k) (s :: u32) = 0"
  using group_step [of k s] assms by simp

text \<open>The bytes \<open>xs\<close> are at offset \<open>n\<close>.\<close>

definition holds :: "u8 list \<Rightarrow> nat \<Rightarrow> u8 list \<Rightarrow> bool" where
  "holds bs n xs \<longleftrightarrow> take (length xs) (drop n bs) = xs"

lemma holds_Cons: "holds bs n (x # xs) \<longleftrightarrow> n < length bs \<and> bs ! n = x \<and> holds bs (Suc n) xs"
proof (cases "n < length bs")
  case True
  then show ?thesis by (simp add: holds_def take_drop_nth)
qed (simp add: holds_def)

lemma holds_append: "holds bs n (xs @ ys) \<longleftrightarrow> holds bs n xs \<and> holds bs (n + length xs) ys"
  by (induction xs arbitrary: n) (auto simp: holds_Cons, simp_all add: holds_def)

lemma holds_length: "holds bs n xs \<Longrightarrow> xs \<noteq> [] \<Longrightarrow> n + length xs \<le> length bs"
proof (induction xs arbitrary: n)
  case (Cons x xs)
  from Cons.prems(1) have "n < length bs" "holds bs (Suc n) xs" by (simp_all add: holds_Cons)
  with Cons.IH [of "Suc n"] show ?case by (cases "xs = []") simp_all
qed simp

lemma code_cont: "((code OR 0x80) AND 0x80) \<noteq> (0 :: u8)"
  by (simp add: and_80 bit_simps bit_80)

lemma last_octet: "(ucast s AND 0x7f :: u8) AND 0x80 = 0"
  by (simp add: and_80 bit_simps bit_7f)

lemma dec_groups_stop: "get c AND 0x80 = 0 \<Longrightarrow> dec_groups n acc c = Inr (n, acc, c)"
  by (cases "(n, acc, c)" rule: dec_groups.cases) auto

lemma dec_groups_spec:
  assumes "at c o' bs" "holds bs o' (sub_octets s (shifts k) tail)"
    and "length (sub_octets s (shifts k) tail) \<le> n"
    and "acc = signed_drop_bit (7 * Suc k) s" "tail \<or> acc = 0"
  shows "\<exists>c'. dec_groups n acc c = Inr (Suc n - length (sub_octets s (shifts k) tail), signed_drop_bit 7 s, c') \<and>
    at c' (o' + length (sub_octets s (shifts k) tail) - 1) bs \<and> get c' = ucast s AND 0x7f"
  using assms
proof (induction k arbitrary: tail n acc c o')
  case 0
  then have g: "get c = ucast s AND 0x7f" using atD [OF 0(1)] by (simp add: holds_Cons)
  then have "dec_groups n acc c = Inr (n, acc, c)" by (intro dec_groups_stop) (simp add: last_octet)
  with g 0 show ?case by auto
next
  case (Suc k)
  let ?code = "ucast (signed_drop_bit (7 * Suc k) s) :: u8"
  show ?case
  proof (cases "?code \<noteq> 0 \<or> tail")
    case True
    then have so: "sub_octets s (shifts (Suc k)) tail = (?code OR 0x80) # sub_octets s (shifts k) True"
      by (simp del: mult_Suc_right)
    from Suc.prems(2) so have h: "bs ! o' = ?code OR 0x80" "holds bs (Suc o') (sub_octets s (shifts k) True)"
      by (simp_all only: holds_Cons)
    then have g: "get c = ?code OR 0x80" using atD [OF Suc.prems(1)] by simp
    have "0 < length (sub_octets s (shifts k) True)" by simp
    with Suc.prems(3) so obtain n' where n: "n = Suc (Suc n')"
      by (cases n; cases "n - 1") (auto simp del: shifts.simps)
    from holds_length [OF h(2) sub_octets_nonempty] \<open>0 < length (sub_octets s (shifts k) True)\<close>
    have "Suc o' < length bs" by linarith
    from dec_nextE [OF Suc.prems(1) this]
    obtain c' where c': "at c' (Suc o') bs"
      "\<And>k :: cursor \<Rightarrow> err_t + nat \<times> u32 \<times> cursor. dec_next c k = k c'" by blast
    have acc: "push_bit 7 acc + ucast (get c AND 0x7f) = signed_drop_bit (7 * Suc k) s"
      using group_step [of k s] Suc.prems(4) g by simp
    have "get c AND 0x80 \<noteq> 0" unfolding g by (rule code_cont)
    then have "dec_groups n acc c = dec_groups (Suc n') (signed_drop_bit (7 * Suc k) s) c'"
      using n c'(2) acc by (simp del: mult_Suc_right)
    moreover from Suc.prems(3) so n have "length (sub_octets s (shifts k) True) \<le> Suc n'"
      by (simp del: shifts.simps)
    ultimately show ?thesis
      using Suc.IH [OF c'(1) h(2), of "Suc n'" "signed_drop_bit (7 * Suc k) s"] so n
      by (simp del: shifts.simps mult_Suc_right)
  next
    case False
    then have so: "sub_octets s (shifts (Suc k)) tail = sub_octets s (shifts k) tail" and a: "acc = 0"
      using Suc.prems(5) by (simp_all del: mult_Suc_right)
    from False group_skip [of k s] Suc.prems(4) a have z: "signed_drop_bit (7 * Suc k) s = 0" by simp
    show ?thesis unfolding so
      by (rule Suc.IH [OF Suc.prems(1)]) (use Suc.prems(2,3) so a z in \<open>simp_all del: shifts.simps mult_Suc_right\<close>)
  qed
qed

lemma sdb_35: "0 \<le> sint s \<Longrightarrow> signed_drop_bit 35 s = 0" for s :: u32
proof (rule signed_word_eqI)
  assume "0 \<le> sint s"
  then show "sint (signed_drop_bit 35 s) = sint (0 :: u32)"
    using sint_lt [of s] by (simp add: sint_signed_drop_bit_eq drop_bit_eq_div div_pos_pos_trivial)
qed

lemma dec_sub_ids_step:
  assumes "at c o' bs" "holds bs o' (id_octets s)" "length (id_octets s) \<le> Suc len" "0 \<le> sint s"
  defines "n \<equiv> Suc len - length (id_octets s)"
  obtains c' where "at c' (o' + length (id_octets s) - 1) bs"
    "dec_sub_ids (Suc slots) (Suc len) ids k c =
      (if 0 < n then dec_next c' (dec_sub_ids slots n (ids[k := s]) (Suc k))
       else dec_sub_ids slots n (ids[k := s]) (Suc k) c')"
proof -
  have z: "signed_drop_bit (7 * Suc 4) s = 0" using sdb_35 [OF assms(4)] by simp
  from dec_groups_spec [OF assms(1,2,3) z [symmetric]] obtain c'
    where G: "dec_groups (Suc len) 0 c = Inr (Suc (Suc len) - length (id_octets s), signed_drop_bit 7 s, c')"
    and c': "at c' (o' + length (id_octets s) - 1) bs" and g: "get c' = ucast s AND 0x7f" by blast
  have g7: "get c' AND 0x80 = 0" unfolding g by (rule last_octet)
  have val: "push_bit 7 (signed_drop_bit 7 s) + ucast (get c') = s" unfolding g by (rule group_last)
  have pos: "0 < Suc (Suc len) - length (id_octets s)" "Suc (Suc len) - length (id_octets s) - 1 = n"
    using assms(3) by (simp_all add: n_def del: shifts.simps)
  show thesis
  proof (rule that [OF c'], cases "get c AND 0x80 = 0")
    case True
    from dec_groups_stop [OF this, of "Suc len" 0] G
    have one: "Suc (Suc len) - length (id_octets s) = Suc len" "signed_drop_bit 7 s = 0" "c' = c" by simp_all
    then have "n = len" "ucast (get c) = s" using val pos by simp_all
    with True one show "dec_sub_ids (Suc slots) (Suc len) ids k c =
      (if 0 < n then dec_next c' (dec_sub_ids slots n (ids[k := s]) (Suc k))
       else dec_sub_ids slots n (ids[k := s]) (Suc k) c')" by simp
  next
    case False
    with G g7 val pos show "dec_sub_ids (Suc slots) (Suc len) ids k c =
      (if 0 < n then dec_next c' (dec_sub_ids slots n (ids[k := s]) (Suc k))
       else dec_sub_ids slots n (ids[k := s]) (Suc k) c')"
      by (simp only: dec_sub_ids.simps sum.case prod.case Let_def if_True if_False simp_thms not_False_eq_True)
  qed
qed

lemma dec_sub_ids_read:
  assumes "at c o' bs" "holds bs o' (concat (map id_octets ss))" "ss \<noteq> []"
    "length ss \<le> slots" "\<And>s. s \<in> set ss \<Longrightarrow> 0 \<le> sint s" "k + length ss \<le> length ids"
  shows "dec_sub_ids slots (length (concat (map id_octets ss))) ids k c = Inr (patch k ss ids, k + length ss)"
  using assms
proof (induction ss arbitrary: slots c o' ids k)
  case (Cons s ss)
  let ?m = "length (id_octets s)" and ?r = "concat (map id_octets ss)"
  obtain slots' where sl: "slots = Suc slots'" using Cons.prems(4) by (cases slots) auto
  have m: "0 < ?m" by simp
  then have "0 < ?m + length ?r" by linarith
  then obtain len where len: "?m + length ?r = Suc len" by (metis gr0_implies_Suc)
  have h: "holds bs o' (id_octets s)" "holds bs (o' + ?m) ?r"
    using Cons.prems(2) by (simp_all add: holds_append)
  from len have le: "?m \<le> Suc len" "Suc len - ?m = length ?r" by linarith+
  from Cons.prems(5) have s: "0 \<le> sint s" by simp
  from Cons.prems(6) have k: "patch k (s # ss) ids = patch (Suc k) ss (ids[k := s])" by (simp add: patch_Cons)
  from dec_sub_ids_step [OF Cons.prems(1) h(1) le(1) s, of slots' ids k] le(2)
  obtain c' where c': "at c' (o' + ?m - 1) bs"
    "dec_sub_ids slots (Suc len) ids k c =
      (if 0 < length ?r then dec_next c' (dec_sub_ids slots' (length ?r) (ids[k := s]) (Suc k))
       else dec_sub_ids slots' (length ?r) (ids[k := s]) (Suc k) c')" unfolding sl by metis
  show ?case
  proof (cases "ss = []")
    case True
    with c' len k show ?thesis by simp
  next
    case False
    then have r: "?r \<noteq> []" by (cases ss) auto
    then have r0: "0 < length ?r" by (rule length_greater_0_conv [THEN iffD2])
    from holds_length [OF h(2) r] r0 m have "Suc (o' + ?m - 1) < length bs" by linarith
    from dec_nextE [OF c'(1) this] obtain c'' where c'': "at c'' (Suc (o' + ?m - 1)) bs"
      "\<And>k :: cursor \<Rightarrow> err_t + u32 list \<times> nat. dec_next c' k = k c''" by blast
    from m have "Suc (o' + ?m - 1) = o' + ?m" by linarith
    with c''(1) have at': "at c'' (o' + ?m) bs" by (simp only:)
    have "dec_sub_ids slots' (length ?r) (ids[k := s]) (Suc k) c'' =
        Inr (patch (Suc k) ss (ids[k := s]), Suc k + length ss)"
      by (rule Cons.IH [OF at' h(2) False]) (use Cons.prems(4,5,6) sl in auto)
    then have "dec_sub_ids slots (Suc len) ids k c = Inr (patch k (s # ss) ids, Suc k + length ss)"
      unfolding c'(2) if_P [OF r0] c''(2) k .
    then show ?thesis using len by simp
  qed
qed simp

subsection \<open>The octet count\<close>

lemma sub_id_cnt_run:
  "0 \<le> sint s \<Longrightarrow> signed_drop_bit (7 * (j + d)) s = 0 \<Longrightarrow>
   (0 < d \<Longrightarrow> signed_drop_bit (7 * (j + d - 1)) s \<noteq> 0) \<Longrightarrow> sub_id_cnt (signed_drop_bit (7 * j) s) = d"
proof (induction d arbitrary: j)
  case 0
  then show ?case by (simp add: sub_id_cnt.simps)
next
  case (Suc d)
  have "signed_drop_bit (7 * j) s \<noteq> 0"
  proof
    assume "signed_drop_bit (7 * j) s = 0"
    then have "signed_drop_bit (7 * d) (signed_drop_bit (7 * j) s) = 0" by simp
    with Suc.prems(3) show False by (simp add: algebra_simps)
  qed
  moreover have "0 \<le> sint (signed_drop_bit (7 * j) s)"
    using Suc.prems(1) by (simp add: sint_signed_drop_bit_eq)
  moreover have "sint (signed_drop_bit (7 * j) s) \<noteq> 0"
    using calculation(1) signed_word_eqI [of "signed_drop_bit (7 * j) s" 0] by auto
  ultimately have "0 <s signed_drop_bit (7 * j) s" by (simp add: word_sless_alt)
  then have "sub_id_cnt (signed_drop_bit (7 * j) s) = 1 + sub_id_cnt (signed_drop_bit (7 * Suc j) s)"
    by (subst sub_id_cnt.simps) simp
  also have "sub_id_cnt (signed_drop_bit (7 * Suc j) s) = d"
    by (rule Suc.IH) (use Suc.prems in \<open>auto simp: algebra_simps\<close>)
  finally show ?case by simp
qed

lemma length_sub_octets_tail: "length (sub_octets s sh True) = Suc (length sh)"
  by (induction sh) (simp_all add: Let_def)

lemma length_shifts [simp]: "length (shifts k) = k"
  by (induction k) auto

lemma length_sub_octets:
  assumes "0 \<le> sint s" "signed_drop_bit (7 * Suc k) s = 0"
  shows "length (sub_octets s (shifts k) False) = Suc (sub_id_cnt (signed_drop_bit 7 s))"
  using assms(2)
proof (induction k)
  case 0
  then show ?case by (simp add: sub_id_cnt.simps)
next
  case (Suc k)
  show ?case
  proof (cases "signed_drop_bit (7 * Suc k) s = 0")
    case True
    then have "(ucast (signed_drop_bit (7 * Suc k) s) :: u8) = 0" by simp
    with Suc.IH [OF True] show ?thesis by (simp del: mult_Suc_right)
  next
    case False
    with group_skip [of k s] Suc.prems have "(ucast (signed_drop_bit (7 * Suc k) s) :: u8) \<noteq> 0" by blast
    then have "length (sub_octets s (shifts (Suc k)) False) = Suc (Suc k)"
      by (simp add: length_sub_octets_tail del: mult_Suc_right)
    moreover have "sub_id_cnt (signed_drop_bit (7 * 1) s) = Suc k"
      by (rule sub_id_cnt_run [OF assms(1)]) (use Suc.prems False in \<open>simp_all\<close>)
    ultimately show ?thesis by simp
  qed
qed

lemma id_octets_negative:
  assumes "sint s < 0"
  shows "length (id_octets s) = 5" "sub_id_cnt (signed_drop_bit 7 s) = 0"
proof -
  from assms have b: "bit s 31" using bit_last_iff [of s] by simp
  have "bit (ucast (signed_drop_bit 28 s) :: u8) 7" using b by (simp add: bit_simps)
  then have "(ucast (signed_drop_bit 28 s) :: u8) \<noteq> 0" by auto
  then show "length (id_octets s) = 5"
    by (simp add: shifts_4 [symmetric] length_sub_octets_tail)
  have "drop_bit 7 (sint s) \<le> 0" using assms drop_bit_negative_int_iff [of 7 "sint s"] by linarith
  then show "sub_id_cnt (signed_drop_bit 7 s) = 0"
    by (subst sub_id_cnt.simps) (simp add: word_sless_alt sint_signed_drop_bit_eq)
qed

lemma ident_cnt_octets:
  "ident_cnt ident + 4 * length (filter (\<lambda>s. sint s < 0) ident) = length (concat (map id_octets ident))"
proof (induction ident)
  case (Cons s ident)
  show ?case
  proof (cases "sint s < 0")
    case True
    with Cons id_octets_negative [OF True] show ?thesis by simp
  next
    case False
    then have "signed_drop_bit (7 * Suc 4) s = 0" using sdb_35 [of s] by simp
    with Cons False length_sub_octets [of s 4] show ?thesis by simp
  qed
qed simp

lemma sub_octets_le: "length (sub_octets s sh tail) \<le> Suc (length sh)"
  by (induction s sh tail rule: sub_octets.induct) (auto simp: Let_def)

lemma concat_octets_le: "length (concat (map id_octets ident)) \<le> 5 * length ident"
proof (induction ident)
  case (Cons s ident)
  with sub_octets_le [of s "shifts 4" False] show ?case by simp
qed simp

text \<open>The octet count of an object identifier is the number of octets the encoder writes
  when all sub-identifiers are below \<open>2 ^ 31\<close>; each sub-identifier of \<open>2 ^ 31\<close> or more is counted as
  one octet although five are written.\<close>

lemma snmp_asn1_oid_cnt_exact:
  assumes "2 \<le> length ident" "length ident \<le> LWIP_SNMP_OBJ_ID_LEN"
  shows "unat (snmp_asn1_enc_oid_cnt ident) + 4 * length (filter (\<lambda>s. sint s < 0) (drop 2 ident)) =
    length (oid_octets ident)"
proof -
  have "ident_cnt (drop 2 ident) \<le> 5 * length (drop 2 ident)"
    using concat_octets_le [of "drop 2 ident"] ident_cnt_octets [of "drop 2 ident"] by linarith
  with assms have "1 + ident_cnt (drop 2 ident) < 256" by simp
  then have "unat (snmp_asn1_enc_oid_cnt ident) = 1 + ident_cnt (drop 2 ident)"
    using assms by (simp add: snmp_asn1_enc_oid_cnt_def unat_of_nat_u8 del: of_nat_add of_nat_Suc)
  with ident_cnt_octets [of "drop 2 ident"] show ?thesis by (simp add: oid_octets_def)
qed

lemma snmp_asn1_oid_cnt_exact_witness:
  "unat (snmp_asn1_enc_oid_cnt [1, 3, 6, 1]) = length (oid_octets [1, 3, 6, 1])"
  using snmp_asn1_oid_cnt_exact [of "[1, 3, 6, 1]"] by simp

subsection \<open>Round trip\<close>

text \<open>The two components the first octet can carry.\<close>

definition prefix_ok :: "u32 list \<Rightarrow> bool" where
  "prefix_ok ident \<longleftrightarrow> 2 \<le> length ident \<and>
     (unat (ident ! 0) < 2 \<and> unat (ident ! 1) < 40 \<or> unat (ident ! 0) = 2 \<and> unat (ident ! 1) < 176)"

definition dec_prefix :: "u8 \<Rightarrow> u32 list \<Rightarrow> u32 list" where
  "dec_prefix b ids =
     (if b = 0x2b then ids[0 := 1, 1 := 3]
      else if b < 40 then ids[0 := 0, 1 := ucast b]
      else if b < 80 then ids[0 := 1, 1 := ucast b - 40]
      else ids[0 := 2, 1 := ucast b - 80])"

lemma dec_first_octet:
  assumes c: "unat a = 0 \<and> unat b < 40 \<or> unat a = 1 \<and> unat b < 40 \<or> unat a = 2 \<and> unat b < 176"
  shows "dec_prefix (first_octet a b) ids = ids[0 := a, 1 := b]"
proof -
  let ?f = "first_octet a b"
  from c have lt: "unat a * 40 + unat b < 256" by auto
  then have u: "unat ?f = unat a * 40 + unat b"
    by (simp add: first_octet_def word_nat unat_word_ariths)
  have sub: "unat (ucast x - k :: u32) = unat x - unat k" if "unat k \<le> unat x" for x :: u8 and k
    using that by (simp add: unat_sub word_le_nat_alt unat_ucast_8_32)
  have eq: "x = y \<longleftrightarrow> unat x = unat y" for x y :: u32 by (rule word_unat_eq_iff)
  have eq8: "x = y \<longleftrightarrow> unat x = unat y" for x y :: u8 by (rule word_unat_eq_iff)
  from c u have d: "a = 0 \<and> unat b < 40 \<and> unat ?f = unat b \<or> a = 1 \<and> unat b < 40 \<and> unat ?f = 40 + unat b
      \<or> a = 2 \<and> unat b < 176 \<and> unat ?f = 80 + unat b"
    by (auto simp: eq)
  have "(if ?f = 0x2b then 1 else if ?f < 40 then 0 else if ?f < 80 then 1 else 2) = a"
    using d by (auto simp: eq8 [of ?f] word_less_nat_alt)
  moreover have "(if ?f = 0x2b then 3 else if ?f < 40 then ucast ?f else if ?f < 80 then ucast ?f - 40
      else ucast ?f - 80) = b"
    using d by (auto simp: eq eq8 [of ?f] word_less_nat_alt sub unat_ucast_8_32)
  moreover have "dec_prefix ?f ids =
      ids[0 := (if ?f = 0x2b then 1 else if ?f < 40 then 0 else if ?f < 80 then 1 else 2),
          1 := (if ?f = 0x2b then 3 else if ?f < 40 then ucast ?f else if ?f < 80 then ucast ?f - 40
                else ucast ?f - 80)]"
    by (simp add: dec_prefix_def)
  ultimately show ?thesis by (simp only:)
qed

lemma dec_prefix_first:
  "prefix_ok ident \<Longrightarrow>
    dec_prefix (first_octet (ident ! 0) (ident ! 1)) ids = ids[0 := ident ! 0, 1 := ident ! 1]"
  by (rule dec_first_octet) (auto simp: prefix_ok_def less_2_cases_iff)

lemma dec_oid_prefix:
  "snmp_asn1_dec_oid p ofs len ids =
     dec_at p ofs (\<lambda>c.
       if len > 0 then
         (if len - 1 > 0 then dec_next c (dec_sub_ids 30 (len - 1) (dec_prefix (get c) ids) 2)
          else dec_sub_ids 30 (len - 1) (dec_prefix (get c) ids) 2 c)
       else Inr (ids, 0))"
  by (simp add: snmp_asn1_dec_oid_def dec_prefix_def Let_def cong: if_cong)

lemma dec_oid_read:
  assumes "[] \<notin> set p" "prefix_ok ident" "2 < length ident" "length ident \<le> length ids" "length ids = 32"
    and h: "holds (chain_bytes p) ofs (oid_octets ident)"
    and small: "\<And>s. s \<in> set (drop 2 ident) \<Longrightarrow> 0 \<le> sint s"
  shows "snmp_asn1_dec_oid p ofs (length (oid_octets ident)) ids = Inr (patch 0 ident ids, length ident)"
proof -
  let ?ss = "drop 2 ident" and ?bs = "chain_bytes p"
  let ?r = "concat (map id_octets ?ss)"
  from assms(3) have ne: "?ss \<noteq> []" by simp
  then have r: "0 < length ?r" by (cases ?ss) auto
  from h have h': "ofs < length ?bs" "?bs ! ofs = first_octet (ident ! 0) (ident ! 1)" "holds ?bs (Suc ofs) ?r"
    by (simp_all add: oid_octets_def holds_Cons)
  from r have "?r \<noteq> []" by blast
  with holds_length [OF h'(3)] r have l: "Suc ofs < length ?bs" by linarith
  from dec_atE [OF assms(1) h'(1)] obtain c where c: "at c ofs ?bs"
    "\<And>k :: cursor \<Rightarrow> err_t + u32 list \<times> nat. dec_at p ofs k = k c" by blast
  from dec_nextE [OF c(1) l] obtain c' where c': "at c' (Suc ofs) ?bs"
    "\<And>k :: cursor \<Rightarrow> err_t + u32 list \<times> nat. dec_next c k = k c'" by blast
  let ?ids = "ids[0 := ident ! 0, 1 := ident ! 1]"
  have g: "dec_prefix (get c) ids = ?ids" using atD [OF c(1)] h'(2) dec_prefix_first [OF assms(2)] by simp
  have "snmp_asn1_dec_oid p ofs (length (oid_octets ident)) ids = dec_sub_ids 30 (length ?r) ?ids 2 c'"
    using r by (simp add: dec_oid_prefix c(2) c'(2) g oid_octets_def)
  also have "\<dots> = Inr (patch 2 ?ss ?ids, 2 + length ?ss)"
    by (rule dec_sub_ids_read [OF c'(1) h'(3) ne]) (use assms(3,4,5) small in auto)
  also have "patch 2 ?ss ?ids = patch 0 ident ids"
  proof -
    have "ident = ident ! 0 # ident ! 1 # ?ss"
      using assms(3) by (cases ident rule: remdups_adj.cases) auto
    then have "patch 0 ident ids = patch 0 (ident ! 0 # ident ! 1 # ?ss) ids" by simp
    also have "\<dots> = patch 2 ?ss ?ids" using assms(5) by (simp add: patch_Cons numeral_2_eq_2)
    finally show ?thesis by simp
  qed
  finally show ?thesis using assms(3) by simp
qed

text \<open>An object identifier of at least three components reads back: with the octet count
  of the count function, the decoder stores the components the encoder was given at the start of
  the array, and their number.  The first two components must be ones the first octet can carry
  and the others below \<open>2 ^ 31\<close>; the encoder fails exactly when the octets do not fit.\<close>

lemma snmp_asn1_oid_roundtrip:
  assumes "[] \<notin> set p" "prefix_ok ident" "2 < length ident" "length ident \<le> LWIP_SNMP_OBJ_ID_LEN"
    and "\<forall>s\<in>set (drop 2 ident). 0 \<le> sint s" "length ids = LWIP_SNMP_OBJ_ID_LEN"
    and enc: "snmp_asn1_enc_oid p ofs ident = (r, p')"
  defines "n \<equiv> unat (snmp_asn1_enc_oid_cnt ident)"
  shows "(r = ERR_OK) = (ofs + n \<le> length (chain_bytes p)) \<and> (r \<noteq> ERR_OK \<longrightarrow> r = ERR_ARG) \<and>
    (r = ERR_OK \<longrightarrow> snmp_asn1_dec_oid p' ofs n ids = Inr (patch 0 ident ids, length ident) \<and>
       take ofs (chain_bytes p') = take ofs (chain_bytes p) \<and>
       drop (ofs + n) (chain_bytes p') = drop (ofs + n) (chain_bytes p))"
proof -
  have "ident_cnt (drop 2 ident) = length (concat (map id_octets (drop 2 ident)))"
    using ident_cnt_octets [of "drop 2 ident"] assms(5) by (simp add: filter_empty_conv not_less)
  moreover from this have "1 + ident_cnt (drop 2 ident) < 256"
    using concat_octets_le [of "drop 2 ident"] assms(4) by simp
  ultimately have n: "length (oid_octets ident) = n"
    using assms(3) by (simp add: n_def snmp_asn1_enc_oid_cnt_def unat_of_nat_u8 oid_octets_def
        del: of_nat_add of_nat_Suc)
  have w: "writes (oid_octets ident) ofs p (r, p')" using enc_oid_writes [OF assms(1,3), of ofs] enc by simp
  show ?thesis
  proof (cases "ofs + n \<le> length (chain_bytes p)")
    case True
    note f = writes_fit [OF w assms(1), unfolded n, OF True]
    from f(4) n have "holds (chain_bytes p') ofs (oid_octets ident)" by (simp add: holds_def)
    from dec_oid_read [OF f(2) assms(2,3) _ _ this, of ids] assms(4,5,6) n
    have "snmp_asn1_dec_oid p' ofs n ids = Inr (patch 0 ident ids, length ident)" by simp
    with w f True n show ?thesis by (simp add: writes_def)
  next
    case False
    with w n show ?thesis by (simp add: writes_def)
  qed
qed

lemma snmp_asn1_oid_roundtrip_witness:
  "fst (snmp_asn1_enc_oid [[1, 2], [3], [4, 5]] 1 [1, 3, 6, 1]) = ERR_OK"
proof -
  have "prefix_ok [1, 3, 6, 1]" by (simp add: prefix_ok_def)
  moreover have "unat (snmp_asn1_enc_oid_cnt [1, 3, 6, 1]) = 3"
    using snmp_asn1_oid_cnt_exact_witness
    by (simp add: snmp_asn1_enc_oid_cnt_def sub_id_cnt.simps)
  ultimately show ?thesis
    using snmp_asn1_oid_roundtrip [of "[[1, 2], [3], [4, 5]]" "[1, 3, 6, 1]" "replicate 32 0" 1
        "fst (snmp_asn1_enc_oid [[1, 2], [3], [4, 5]] 1 [1, 3, 6, 1])"
        "snd (snmp_asn1_enc_oid [[1, 2], [3], [4, 5]] 1 [1, 3, 6, 1])"]
    by simp
qed

text \<open>A field whose last octet still has the continuation bit is accepted: the decoder
  reads the octet behind the field as one more component, and the component that was cut off
  is counted although its entry is not written.\<close>

lemma snmp_asn1_dec_oid_truncated:
  assumes "[] \<notin> set p" "length ids = LWIP_SNMP_OBJ_ID_LEN"
    and "holds (chain_bytes p) ofs [b0, b1, b2]" "b1 AND 0x80 \<noteq> 0" "b2 AND 0x80 = 0"
  shows "\<exists>ids'. snmp_asn1_dec_oid p ofs 2 ids = Inr (ids', 4) \<and>
    ids' ! 2 = ids ! 2 \<and> ids' ! 3 = ucast b2"
proof -
  let ?bs = "chain_bytes p"
  from assms(3) have h: "ofs < length ?bs" "Suc ofs < length ?bs" "Suc (Suc ofs) < length ?bs"
    "?bs ! Suc ofs = b1" "?bs ! Suc (Suc ofs) = b2" by (simp_all add: holds_Cons)
  from dec_atE [OF assms(1) h(1)] obtain c where c: "at c ofs ?bs"
    "\<And>k :: cursor \<Rightarrow> err_t + u32 list \<times> nat. dec_at p ofs k = k c" by blast
  from dec_nextE [OF c(1) h(2)] obtain c' where c': "at c' (Suc ofs) ?bs"
    "\<And>k :: cursor \<Rightarrow> err_t + u32 list \<times> nat. dec_next c k = k c'" by blast
  from dec_nextE [OF c'(1) h(3)] obtain c'' where c'': "at c'' (Suc (Suc ofs)) ?bs"
    "\<And>k :: cursor \<Rightarrow> err_t + u32 list \<times> nat. dec_next c' k = k c''" by blast
  have g: "get c' = b1" "get c'' = b2" using atD [OF c'(1)] atD [OF c''(1)] h by simp_all
  let ?ids = "dec_prefix (get c) ids"
  have step: "dec_sub_ids (Suc sl) 1 ids k c' = dec_sub_ids sl 1 ids (Suc k) c''" for sl ids k
    using assms(4) g c''(2) by simp
  have last: "dec_sub_ids (Suc sl) 1 ids k c'' = Inr (ids[k := ucast b2], Suc k)" for sl ids k
    using assms(5) g by simp
  have "snmp_asn1_dec_oid p ofs 2 ids = dec_sub_ids (Suc (Suc 28)) 1 ?ids 2 c'"
    by (simp add: dec_oid_prefix c(2) c'(2))
  also have "\<dots> = Inr (?ids[3 := ucast b2], 4)" unfolding step last by simp
  finally show ?thesis using assms(2) by (auto simp: dec_prefix_def)
qed

lemma snmp_asn1_dec_oid_truncated_witness:
  "\<exists>ids. snmp_asn1_dec_oid [[0x2b, 0x81], [5]] 0 2 (replicate 32 7) = Inr (ids, 4) \<and> ids ! 2 = 7 \<and> ids ! 3 = 5"
  using snmp_asn1_dec_oid_truncated [of "[[0x2b, 0x81], [5]]" "replicate 32 7" 0 "0x2b" "0x81" 5]
  by (auto simp: holds_def)

text \<open>A string read back from where it was written is the string, when it is not empty, it
  fits in the chain and the buffer of the reader is large enough.\<close>

lemma snmp_asn1_raw_roundtrip:
  assumes "[] \<notin> set p" "raw \<noteq> []" "snmp_asn1_enc_raw p ofs raw = (r, p')"
  shows "(r = ERR_OK) = (ofs + length raw \<le> length (chain_bytes p)) \<and>
    (r = ERR_OK \<longrightarrow> snmp_asn1_dec_raw p' ofs (length raw) raw_len =
       (if length raw \<le> raw_len then Inr raw else Inl ERR_ARG))"
proof -
  have w: "writes raw ofs p (r, p')"
    using enc_at_writes [OF assms(1,2), of ofs] assms(3) by (simp add: snmp_asn1_enc_raw_def)
  show ?thesis
  proof (cases "ofs + length raw \<le> length (chain_bytes p)")
    case True
    note f = writes_fit [OF w assms(1) True]
    from True f(3) assms(2) have o: "ofs < length (chain_bytes p')" by (cases raw) auto
    from dec_atE [OF f(2) o] obtain c where c: "at c ofs (chain_bytes p')" "find_ofs p' ofs = Some c" by blast
    from dec_at_raw [OF f(2), of "length raw" ofs] assms(2) f True
    have "dec_raw_loop (length raw) c = Inr raw" using c(2) by (simp add: dec_at_def read_at_def)
    with w True c assms(2) show ?thesis by (simp add: writes_def snmp_asn1_dec_raw_def dec_at_def)
  next
    case False
    with w show ?thesis by (simp add: writes_def)
  qed
qed

lemma snmp_asn1_raw_roundtrip_witness:
  "fst (snmp_asn1_enc_raw [[1, 2], [3], [4, 5]] 1 [7, 8, 9]) = ERR_OK"
  using snmp_asn1_raw_roundtrip [of "[[1, 2], [3], [4, 5]]" "[7, 8, 9]" 1
      "fst (snmp_asn1_enc_raw [[1, 2], [3], [4, 5]] 1 [7, 8, 9])"
      "snd (snmp_asn1_enc_raw [[1, 2], [3], [4, 5]] 1 [7, 8, 9])" 3]
  by simp

end
