(* ===== verification/Pbuf.thy ===== *)
theory Pbuf
  imports Memp Mem Inet_Chksum
begin

text \<open>
  \<^verbatim>\<open>lwip/src/core/pbuf.c\<close>: packet buffers, chains of \<^verbatim>\<open>struct pbuf\<close> linked by \<^verbatim>\<open>next\<close> with a
  reference count each.  A pointer is an address; the structures are a map from addresses, the
  bytes the payload pointers point to are a second map.  The memory comes from the pools of
  \<open>Memp\<close> and the heap of \<open>Mem\<close> (whose offsets start at the address \<open>ram\<close>).  Lengths are
  natural numbers with the reduction to \<^verbatim>\<open>u16_t\<close> written out where the C code can overflow.
  Loops along \<^verbatim>\<open>next\<close> are partial functions: \<open>None\<close> is a loop that does not end, or an access
  through a null pointer.  What the code calls through pointers, the free function of a custom
  pbuf and \<^verbatim>\<open>tcpip_callback\<close>, is in \<open>pbuf_env\<close>.  The assertions are left out.
\<close>

section \<open>Data\<close>

datatype pbuf_layer = PBUF_TRANSPORT | PBUF_IP | PBUF_LINK | PBUF_RAW

datatype pbuf_type = PBUF_RAM | PBUF_ROM | PBUF_REF | PBUF_POOL

record pbuf =
  p_next :: "nat option"
  p_payload :: nat
  p_tot_len :: nat
  p_len :: nat
  p_type :: pbuf_type
  p_flags :: u8
  p_ref :: nat

definition PBUF_FLAG_IS_CUSTOM :: u8 where
  "PBUF_FLAG_IS_CUSTOM = 2"

record pbuf_cfg =
  mcfg :: mem_cfg
  ram :: nat
  PBUF_LINK_HLEN :: nat
  PBUF_POOL_BUFSIZE :: nat

record pst =
  pbufs :: "nat \<Rightarrow> pbuf"
  payload_bytes :: "nat \<Rightarrow> u8"
  pbuf_pools :: memp
  pbuf_heap :: heap
  ooseq_pending :: bool

record pbuf_env =
  custom_free_function :: "nat \<Rightarrow> pst \<Rightarrow> pst"
  tcpip_callback :: "pst \<Rightarrow> bool \<times> pst"

definition MEMP_PBUF :: nat where
  "MEMP_PBUF = 10"

definition MEMP_PBUF_POOL :: nat where
  "MEMP_PBUF_POOL = 11"

definition align :: "pbuf_cfg \<Rightarrow> nat \<Rightarrow> nat" where
  "align c n = LWIP_MEM_ALIGN_SIZE (mcfg c) n"

definition SIZEOF_STRUCT_PBUF :: "pbuf_cfg \<Rightarrow> nat" where
  "SIZEOF_STRUCT_PBUF c = align c 16"

definition PBUF_POOL_BUFSIZE_ALIGNED :: "pbuf_cfg \<Rightarrow> nat" where
  "PBUF_POOL_BUFSIZE_ALIGNED c = align c (PBUF_POOL_BUFSIZE c)"

definition u16 :: "nat \<Rightarrow> nat" where
  "u16 n = n mod 65536"

definition upd_pbuf :: "nat \<Rightarrow> (pbuf \<Rightarrow> pbuf) \<Rightarrow> pst \<Rightarrow> pst" where
  "upd_pbuf a f st = st\<lparr>pbufs := (pbufs st)(a := f (pbufs st a))\<rparr>"

text \<open>\<^verbatim>\<open>MEMCPY\<close> to address \<open>d\<close> of the bytes \<open>xs\<close>, and the \<open>n\<close> bytes at address \<open>s\<close>.\<close>

fun store_bytes :: "nat \<Rightarrow> u8 list \<Rightarrow> (nat \<Rightarrow> u8) \<Rightarrow> nat \<Rightarrow> u8" where
  "store_bytes d [] m = m"
| "store_bytes d (x # xs) m = store_bytes (Suc d) xs (m(d := x))"

definition load_bytes :: "nat \<Rightarrow> nat \<Rightarrow> (nat \<Rightarrow> u8) \<Rightarrow> u8 list" where
  "load_bytes s n m = map m [s..<s + n]"

definition write_bytes :: "nat \<Rightarrow> u8 list \<Rightarrow> pst \<Rightarrow> pst" where
  "write_bytes d xs st = st\<lparr>payload_bytes := store_bytes d xs (payload_bytes st)\<rparr>"

section \<open>Allocation and release\<close>

definition pbuf_pool_is_empty :: "pbuf_env \<Rightarrow> pst \<Rightarrow> pst" where
  "pbuf_pool_is_empty env st =
     (let queued = ooseq_pending st; st = st\<lparr>ooseq_pending := True\<rparr>
      in if \<not> queued then
           let (ok, st) = tcpip_callback env st in if ok then st else st\<lparr>ooseq_pending := False\<rparr>
         else st)"

definition release_pbuf :: "pbuf_cfg \<Rightarrow> pbuf_env \<Rightarrow> nat \<Rightarrow> pst \<Rightarrow> pst" where
  "release_pbuf c env a st =
     (let p = pbufs st a
      in if p_flags p AND PBUF_FLAG_IS_CUSTOM \<noteq> 0 then custom_free_function env a st
         else case p_type p of
                PBUF_POOL \<Rightarrow> st\<lparr>pbuf_pools := memp_free MEMP_PBUF_POOL (Some a) (pbuf_pools st)\<rparr>
              | PBUF_ROM \<Rightarrow> st\<lparr>pbuf_pools := memp_free MEMP_PBUF (Some a) (pbuf_pools st)\<rparr>
              | PBUF_REF \<Rightarrow> st\<lparr>pbuf_pools := memp_free MEMP_PBUF (Some a) (pbuf_pools st)\<rparr>
              | PBUF_RAM \<Rightarrow> st\<lparr>pbuf_heap := mem_free (mcfg c) (Some (int a - int (ram c))) (pbuf_heap st)\<rparr>)"

partial_function (option) pbuf_free_loop ::
    "pbuf_cfg \<Rightarrow> pbuf_env \<Rightarrow> nat option \<Rightarrow> nat \<Rightarrow> pst \<Rightarrow> (nat \<times> pst) option" where
  "pbuf_free_loop c env p count st =
     (case p of
        None \<Rightarrow> Some (count, st)
      | Some a \<Rightarrow>
          (let r = (p_ref (pbufs st a) + 65535) mod 65536;
               st = upd_pbuf a (\<lambda>p. p\<lparr>p_ref := r\<rparr>) st
           in if r = 0 then pbuf_free_loop c env (p_next (pbufs st a)) ((count + 1) mod 256) (release_pbuf c env a st)
              else Some (count, st)))"

definition pbuf_free :: "pbuf_cfg \<Rightarrow> pbuf_env \<Rightarrow> nat option \<Rightarrow> pst \<Rightarrow> (nat \<times> pst) option" where
  "pbuf_free c env p st = pbuf_free_loop c env p 0 st"

definition header_offset :: "pbuf_cfg \<Rightarrow> pbuf_layer \<Rightarrow> nat" where
  "header_offset c layer =
     (case layer of
        PBUF_TRANSPORT \<Rightarrow> PBUF_LINK_HLEN c + 20 + 20
      | PBUF_IP \<Rightarrow> PBUF_LINK_HLEN c + 20
      | PBUF_LINK \<Rightarrow> PBUF_LINK_HLEN c
      | PBUF_RAW \<Rightarrow> 0)"

text \<open>The loop of \<^verbatim>\<open>PBUF_POOL\<close> allocation: \<open>p\<close> is the first pbuf, \<open>r\<close> the last so far.\<close>

partial_function (option) pool_tail ::
    "pbuf_cfg \<Rightarrow> pbuf_env \<Rightarrow> nat \<Rightarrow> nat \<Rightarrow> nat \<Rightarrow> pst \<Rightarrow> (nat option \<times> pst) option" where
  "pool_tail c env p r rem_len st =
     (if rem_len > 0 then
        (case memp_malloc MEMP_PBUF_POOL (pbuf_pools st) of
           (None, pools) \<Rightarrow>
             (case pbuf_free c env (Some p) (pbuf_pool_is_empty env (st\<lparr>pbuf_pools := pools\<rparr>)) of
                None \<Rightarrow> None
              | Some (_, st) \<Rightarrow> Some (None, st))
         | (Some q, pools) \<Rightarrow>
             (let n = min (u16 rem_len) (PBUF_POOL_BUFSIZE_ALIGNED c);
                  st = st\<lparr>pbuf_pools := pools\<rparr>;
                  st = upd_pbuf q (\<lambda>b. b\<lparr>p_type := PBUF_POOL, p_flags := 0, p_next := None\<rparr>) st;
                  st = upd_pbuf r (\<lambda>b. b\<lparr>p_next := Some q\<rparr>) st;
                  st = upd_pbuf q (\<lambda>b. b\<lparr>p_tot_len := u16 rem_len, p_len := n,
                                          p_payload := q + SIZEOF_STRUCT_PBUF c, p_ref := 1\<rparr>) st
              in pool_tail c env p q (rem_len - n) st))
      else Some (Some p, st))"

definition alloc_pool ::
    "pbuf_cfg \<Rightarrow> pbuf_env \<Rightarrow> nat \<Rightarrow> nat \<Rightarrow> pst \<Rightarrow> (nat option \<times> pst) option" where
  "alloc_pool c env offset len st =
     (case memp_malloc MEMP_PBUF_POOL (pbuf_pools st) of
        (None, pools) \<Rightarrow> Some (None, pbuf_pool_is_empty env (st\<lparr>pbuf_pools := pools\<rparr>))
      | (Some p, pools) \<Rightarrow>
          (let n = min len (PBUF_POOL_BUFSIZE_ALIGNED c - align c offset);
               st = upd_pbuf p (\<lambda>b. b\<lparr>p_type := PBUF_POOL, p_next := None,
                        p_payload := align c (p + (SIZEOF_STRUCT_PBUF c + offset)),
                        p_tot_len := len, p_len := n, p_ref := 1\<rparr>) (st\<lparr>pbuf_pools := pools\<rparr>)
           in pool_tail c env p p (len - n) st))"

definition alloc_ram :: "pbuf_cfg \<Rightarrow> nat \<Rightarrow> nat \<Rightarrow> pst \<Rightarrow> (nat option \<times> pst) option" where
  "alloc_ram c offset len st =
     (case mem_malloc (mcfg c) (mem_size_t (align c (SIZEOF_STRUCT_PBUF c + offset) + align c len)) (pbuf_heap st) of
        None \<Rightarrow> None
      | Some (None, h) \<Rightarrow> Some (None, st\<lparr>pbuf_heap := h\<rparr>)
      | Some (Some o', h) \<Rightarrow>
          (let p = ram c + o'
           in Some (Some p, upd_pbuf p (\<lambda>b. b\<lparr>p_payload := align c (p + SIZEOF_STRUCT_PBUF c + offset),
                p_len := len, p_tot_len := len, p_next := None, p_type := PBUF_RAM\<rparr>) (st\<lparr>pbuf_heap := h\<rparr>))))"

definition alloc_ref :: "pbuf_type \<Rightarrow> nat \<Rightarrow> pst \<Rightarrow> nat option \<times> pst" where
  "alloc_ref ty len st =
     (case memp_malloc MEMP_PBUF (pbuf_pools st) of
        (None, pools) \<Rightarrow> (None, st\<lparr>pbuf_pools := pools\<rparr>)
      | (Some p, pools) \<Rightarrow>
          (Some p, upd_pbuf p (\<lambda>b. b\<lparr>p_payload := 0, p_len := len, p_tot_len := len, p_next := None,
                      p_type := ty\<rparr>) (st\<lparr>pbuf_pools := pools\<rparr>)))"

definition pbuf_alloc ::
    "pbuf_cfg \<Rightarrow> pbuf_env \<Rightarrow> pbuf_layer \<Rightarrow> nat \<Rightarrow> pbuf_type \<Rightarrow> pst \<Rightarrow> (nat option \<times> pst) option" where
  "pbuf_alloc c env layer len ty st =
     (let offset = header_offset c layer
      in case (case ty of
                 PBUF_POOL \<Rightarrow> alloc_pool c env offset len st
               | PBUF_RAM \<Rightarrow> alloc_ram c offset len st
               | _ \<Rightarrow> Some (alloc_ref ty len st)) of
           None \<Rightarrow> None
         | Some (None, st) \<Rightarrow> Some (None, st)
         | Some (Some p, st) \<Rightarrow> Some (Some p, upd_pbuf p (\<lambda>b. b\<lparr>p_ref := 1, p_flags := 0\<rparr>) st))"

text \<open>The custom pbuf is at \<open>p\<close>, its payload memory at \<open>mem\<close> (\<open>None\<close>: to be set later).\<close>

definition pbuf_alloced_custom ::
    "pbuf_cfg \<Rightarrow> pbuf_layer \<Rightarrow> nat \<Rightarrow> pbuf_type \<Rightarrow> nat \<Rightarrow> nat option \<Rightarrow> nat \<Rightarrow> pst \<Rightarrow> nat option \<times> pst" where
  "pbuf_alloced_custom c layer len ty p mem mem_len st =
     (let offset = header_offset c layer
      in if align c offset + len > mem_len then (None, st)
         else (Some p, upd_pbuf p (\<lambda>b. b\<lparr>p_next := None,
                 p_payload := (case mem of Some m \<Rightarrow> m + align c offset | None \<Rightarrow> 0),
                 p_flags := PBUF_FLAG_IS_CUSTOM, p_len := len, p_tot_len := len,
                 p_type := ty, p_ref := 1\<rparr>) st))"

section \<open>Changing chains\<close>

text \<open>\<^verbatim>\<open>pbuf_realloc\<close>: the loop over the pbufs that stay (\<open>d\<close> bytes less), then the new last one.\<close>

partial_function (option) realloc_skip :: "nat \<Rightarrow> nat \<Rightarrow> nat option \<Rightarrow> pst \<Rightarrow> (nat \<times> nat \<times> pst) option" where
  "realloc_skip d rem_len q st =
     (case q of
        None \<Rightarrow> None
      | Some a \<Rightarrow>
          if rem_len > p_len (pbufs st a) then
            realloc_skip d (rem_len - p_len (pbufs st a)) (p_next (pbufs st a))
              (upd_pbuf a (\<lambda>b. b\<lparr>p_tot_len := (p_tot_len b + 65536 - d) mod 65536\<rparr>) st)
          else Some (a, rem_len, st))"

definition realloc_last :: "pbuf_cfg \<Rightarrow> pbuf_env \<Rightarrow> nat \<Rightarrow> nat \<Rightarrow> pst \<Rightarrow> pst option" where
  "realloc_last c env q rem_len st =
     (case (if p_type (pbufs st q) = PBUF_RAM \<and> rem_len \<noteq> p_len (pbufs st q) then
              (case mem_trim (mcfg c) (int q - int (ram c))
                      (mem_size_t (u16 (p_payload (pbufs st q) - q) + rem_len)) (pbuf_heap st) of
                 (None, h) \<Rightarrow> (None, st\<lparr>pbuf_heap := h\<rparr>)
               | (Some r, h) \<Rightarrow> (Some (nat (r + int (ram c))), st\<lparr>pbuf_heap := h\<rparr>))
            else (Some q, st)) of
        (None, st) \<Rightarrow> None
      | (Some q, st) \<Rightarrow>
          (let st = upd_pbuf q (\<lambda>b. b\<lparr>p_len := rem_len, p_tot_len := rem_len\<rparr>) st
           in case p_next (pbufs st q) of
                None \<Rightarrow> Some st
              | Some n \<Rightarrow>
                  (case pbuf_free c env (Some n) st of
                     None \<Rightarrow> None
                   | Some (_, st) \<Rightarrow> Some (upd_pbuf q (\<lambda>b. b\<lparr>p_next := None\<rparr>) st))))"

definition pbuf_realloc :: "pbuf_cfg \<Rightarrow> pbuf_env \<Rightarrow> nat \<Rightarrow> nat \<Rightarrow> pst \<Rightarrow> pst option" where
  "pbuf_realloc c env p new_len st =
     (if new_len \<ge> p_tot_len (pbufs st p) then Some st
      else case realloc_skip (p_tot_len (pbufs st p) - new_len) new_len (Some p) st of
             None \<Rightarrow> None
           | Some (q, rem_len, st) \<Rightarrow> realloc_last c env q rem_len st)"

text \<open>\<^verbatim>\<open>pbuf_header\<close> with its \<^verbatim>\<open>s16_t\<close> argument; the result is 0 on success.\<close>

definition pbuf_header :: "pbuf_cfg \<Rightarrow> nat option \<Rightarrow> int \<Rightarrow> pst \<Rightarrow> nat \<times> pst" where
  "pbuf_header c p inc st =
     (case p of
        None \<Rightarrow> (0, st)
      | Some a \<Rightarrow>
          let b = pbufs st a; payload = int (p_payload b) - inc;
              done = upd_pbuf a (\<lambda>b. b\<lparr>p_payload := nat payload,
                        p_len := nat ((int (p_len b) + inc) mod 65536),
                        p_tot_len := nat ((int (p_tot_len b) + inc) mod 65536)\<rparr>) st
          in if inc = 0 then (0, st)
             else if inc < 0 \<and> - inc > int (p_len b) then (1, st)
             else if p_type b \<in> {PBUF_RAM, PBUF_POOL} then
               if payload < int (a + SIZEOF_STRUCT_PBUF c) then (1, st) else (0, done)
             else if inc < 0 then (0, done) else (1, st))"

partial_function (option) pbuf_clen_loop :: "nat \<Rightarrow> nat option \<Rightarrow> pst \<Rightarrow> nat option" where
  "pbuf_clen_loop len p st =
     (case p of None \<Rightarrow> Some len | Some a \<Rightarrow> pbuf_clen_loop ((len + 1) mod 256) (p_next (pbufs st a)) st)"

definition pbuf_clen :: "nat option \<Rightarrow> pst \<Rightarrow> nat option" where
  "pbuf_clen p st = pbuf_clen_loop 0 p st"

definition pbuf_ref :: "nat option \<Rightarrow> pst \<Rightarrow> pst" where
  "pbuf_ref p st = (case p of None \<Rightarrow> st | Some a \<Rightarrow> upd_pbuf a (\<lambda>b. b\<lparr>p_ref := u16 (p_ref b + 1)\<rparr>) st)"

partial_function (option) pbuf_cat :: "nat \<Rightarrow> nat \<Rightarrow> pst \<Rightarrow> pst option" where
  "pbuf_cat p t st =
     (let n = p_tot_len (pbufs st t);
          st = upd_pbuf p (\<lambda>b. b\<lparr>p_tot_len := u16 (p_tot_len b + n)\<rparr>) st
      in case p_next (pbufs st p) of
           Some q \<Rightarrow> pbuf_cat q t st
         | None \<Rightarrow> Some (upd_pbuf p (\<lambda>b. b\<lparr>p_next := Some t\<rparr>) st))"

definition pbuf_chain :: "nat \<Rightarrow> nat \<Rightarrow> pst \<Rightarrow> pst option" where
  "pbuf_chain h t st = (case pbuf_cat h t st of None \<Rightarrow> None | Some st \<Rightarrow> Some (pbuf_ref (Some t) st))"

definition pbuf_dechain :: "pbuf_cfg \<Rightarrow> pbuf_env \<Rightarrow> nat \<Rightarrow> pst \<Rightarrow> (nat option \<times> pst) option" where
  "pbuf_dechain c env p st =
     (case p_next (pbufs st p) of
        None \<Rightarrow> Some (None, st)
      | Some q \<Rightarrow>
          (let n = (p_tot_len (pbufs st p) + 65536 - p_len (pbufs st p)) mod 65536;
               st = upd_pbuf q (\<lambda>b. b\<lparr>p_tot_len := n\<rparr>) st;
               st = upd_pbuf p (\<lambda>b. b\<lparr>p_next := None, p_tot_len := p_len b\<rparr>) st
           in case pbuf_free c env (Some q) st of
                None \<Rightarrow> None
              | Some (tail_gone, st) \<Rightarrow> Some (if tail_gone > 0 then None else Some q, st)))"

section \<open>Copying\<close>

partial_function (option) pbuf_copy_loop :: "nat \<Rightarrow> nat \<Rightarrow> nat \<Rightarrow> nat \<Rightarrow> pst \<Rightarrow> (err_t \<times> pst) option" where
  "pbuf_copy_loop p_to p_from offset_to offset_from st =
     (let to = pbufs st p_to; fr = pbufs st p_from;
          n = (if int (p_len to) - int offset_to \<ge> int (p_len fr) - int offset_from
               then p_len fr - offset_from else p_len to - offset_to);
          st = write_bytes (p_payload to + offset_to)
                 (load_bytes (p_payload fr + offset_from) n (payload_bytes st)) st;
          ot = u16 (offset_to + n); of' = u16 (offset_from + n);
          (of', p_from) = (if of' \<ge> p_len fr then (0, p_next fr) else (of', Some p_from));
          (ot, p_to) = (if ot = p_len to then (0, p_next to) else (ot, Some p_to));
          last = (\<lambda>a. p_len (pbufs st a) = p_tot_len (pbufs st a) \<and> p_next (pbufs st a) \<noteq> None)
      in case p_from of
           None \<Rightarrow> Some (if p_to \<noteq> None \<and> last (the p_to) then ERR_VAL else ERR_OK, st)
         | Some f \<Rightarrow>
             (case p_to of
                None \<Rightarrow> Some (ERR_ARG, st)
              | Some t \<Rightarrow> if last f \<or> last t then Some (ERR_VAL, st) else pbuf_copy_loop t f ot of' st))"

definition pbuf_copy :: "nat option \<Rightarrow> nat option \<Rightarrow> pst \<Rightarrow> (err_t \<times> pst) option" where
  "pbuf_copy p_to p_from st =
     (case (p_to, p_from) of
        (Some t, Some f) \<Rightarrow>
          if p_tot_len (pbufs st t) \<ge> p_tot_len (pbufs st f) then pbuf_copy_loop t f 0 0 st
          else Some (ERR_ARG, st)
      | _ \<Rightarrow> Some (ERR_ARG, st))"

text \<open>The application's buffer is a list: the bytes \<^verbatim>\<open>pbuf_copy_partial\<close> stores, in order; their
  number is its result.\<close>

partial_function (option) copy_partial_loop :: "nat option \<Rightarrow> nat \<Rightarrow> nat \<Rightarrow> u8 list \<Rightarrow> pst \<Rightarrow> u8 list option" where
  "copy_partial_loop p len offset out st =
     (case p of
        None \<Rightarrow> Some out
      | Some a \<Rightarrow>
          if len = 0 then Some out
          else if offset \<noteq> 0 \<and> offset \<ge> p_len (pbufs st a) then
            copy_partial_loop (p_next (pbufs st a)) len (offset - p_len (pbufs st a)) out st
          else
            (let n = min (p_len (pbufs st a) - offset) len
             in copy_partial_loop (p_next (pbufs st a)) (len - n) 0
                  (out @ load_bytes (p_payload (pbufs st a) + offset) n (payload_bytes st)) st))"

definition pbuf_copy_partial :: "nat option \<Rightarrow> nat \<Rightarrow> nat \<Rightarrow> pst \<Rightarrow> u8 list option" where
  "pbuf_copy_partial buf len offset st = copy_partial_loop buf len offset [] st"

partial_function (option) take_loop :: "nat option \<Rightarrow> u8 list \<Rightarrow> pst \<Rightarrow> pst option" where
  "take_loop p data st =
     (if data = [] then Some st
      else case p of
             None \<Rightarrow> None
           | Some a \<Rightarrow>
               (let n = min (length data) (p_len (pbufs st a))
                in take_loop (p_next (pbufs st a)) (drop n data)
                     (write_bytes (p_payload (pbufs st a)) (take n data) st)))"

definition pbuf_take :: "nat option \<Rightarrow> u8 list \<Rightarrow> pst \<Rightarrow> (err_t \<times> pst) option" where
  "pbuf_take buf data st =
     (case buf of
        None \<Rightarrow> Some (ERR_OK, st)
      | Some a \<Rightarrow>
          if p_tot_len (pbufs st a) < length data then Some (ERR_ARG, st)
          else case take_loop (Some a) data st of None \<Rightarrow> None | Some st \<Rightarrow> Some (ERR_OK, st))"

definition pbuf_coalesce :: "pbuf_cfg \<Rightarrow> pbuf_env \<Rightarrow> nat \<Rightarrow> pbuf_layer \<Rightarrow> pst \<Rightarrow> (nat \<times> pst) option" where
  "pbuf_coalesce c env p layer st =
     (if p_next (pbufs st p) = None then Some (p, st)
      else case pbuf_alloc c env layer (p_tot_len (pbufs st p)) PBUF_RAM st of
             None \<Rightarrow> None
           | Some (None, st) \<Rightarrow> Some (p, st)
           | Some (Some q, st) \<Rightarrow>
               (case pbuf_copy (Some q) (Some p) st of
                  None \<Rightarrow> None
                | Some (_, st) \<Rightarrow>
                    (case pbuf_free c env (Some p) st of None \<Rightarrow> None | Some (_, st) \<Rightarrow> Some (q, st))))"

text \<open>\<^verbatim>\<open>pbuf_fill_chksum\<close>: copies into one pbuf and adds the data to a running checksum.  \<open>chk\<close> is the
  \<^verbatim>\<open>LWIP_CHKSUM\<close> of the configuration.\<close>

definition pbuf_fill_chksum ::
    "(nat \<Rightarrow> u8 list \<Rightarrow> u16) \<Rightarrow> nat \<Rightarrow> nat \<Rightarrow> u8 list \<Rightarrow> u16 \<Rightarrow> pst \<Rightarrow> err_t \<times> u16 \<times> pst" where
  "pbuf_fill_chksum chk p start_offset data chksum st =
     (let b = pbufs st p
      in if start_offset \<ge> p_len b \<or> start_offset + length data > p_len b then (ERR_ARG, chksum, st)
         else let dst_ptr = p_payload b + start_offset;
                  (d, copy_chksum) = lwip_chksum_copy chk dst_ptr data;
                  copy_chksum = (if odd start_offset then ucast (SWAP_BYTES_IN_WORD (ucast copy_chksum)) else copy_chksum);
                  acc = ucast chksum + ucast copy_chksum :: u32
              in (ERR_OK, ucast (FOLD_U32T acc), write_bytes dst_ptr d st))"

section \<open>Giving back out-of-sequence data\<close>

text \<open>A segment of \<^verbatim>\<open>tcp.c\<close>: its address and its pbuf.  \<open>ooseqs\<close> has the out-of-sequence queue of
  each pcb of \<^verbatim>\<open>tcp_active_pcbs\<close>, in the order of the list.\<close>

type_synonym seg = "nat \<times> nat option"

definition MEMP_TCP_SEG :: nat where
  "MEMP_TCP_SEG = 4"

definition tcp_seg_free :: "pbuf_cfg \<Rightarrow> pbuf_env \<Rightarrow> seg \<Rightarrow> pst \<Rightarrow> pst option" where
  "tcp_seg_free c env sg st =
     (case (case snd sg of None \<Rightarrow> Some st
            | Some p \<Rightarrow> (case pbuf_free c env (Some p) st of None \<Rightarrow> None | Some (_, st) \<Rightarrow> Some st)) of
        None \<Rightarrow> None
      | Some st \<Rightarrow> Some (st\<lparr>pbuf_pools := memp_free MEMP_TCP_SEG (Some (fst sg)) (pbuf_pools st)\<rparr>))"

fun tcp_segs_free :: "pbuf_cfg \<Rightarrow> pbuf_env \<Rightarrow> seg list \<Rightarrow> pst \<Rightarrow> pst option" where
  "tcp_segs_free c env [] st = Some st"
| "tcp_segs_free c env (sg # sgs) st =
     (case tcp_seg_free c env sg st of None \<Rightarrow> None | Some st \<Rightarrow> tcp_segs_free c env sgs st)"

fun free_first_ooseq :: "pbuf_cfg \<Rightarrow> pbuf_env \<Rightarrow> seg list list \<Rightarrow> pst \<Rightarrow> (seg list list \<times> pst) option" where
  "free_first_ooseq c env [] st = Some ([], st)"
| "free_first_ooseq c env (q # qs) st =
     (if q \<noteq> [] then
        (case tcp_segs_free c env q st of None \<Rightarrow> None | Some st \<Rightarrow> Some ([] # qs, st))
      else case free_first_ooseq c env qs st of None \<Rightarrow> None | Some (qs, st) \<Rightarrow> Some (q # qs, st))"

definition pbuf_free_ooseq :: "pbuf_cfg \<Rightarrow> pbuf_env \<Rightarrow> seg list list \<Rightarrow> pst \<Rightarrow> (seg list list \<times> pst) option" where
  "pbuf_free_ooseq c env ooseqs st = free_first_ooseq c env ooseqs (st\<lparr>ooseq_pending := False\<rparr>)"

section \<open>Reading and searching\<close>

partial_function (option) find_pos :: "nat option \<Rightarrow> nat \<Rightarrow> pst \<Rightarrow> (nat option \<times> nat) option" where
  "find_pos q pos st =
     (case q of
        None \<Rightarrow> Some (None, pos)
      | Some a \<Rightarrow>
          if p_len (pbufs st a) \<le> pos then find_pos (p_next (pbufs st a)) (pos - p_len (pbufs st a)) st
          else Some (Some a, pos))"

definition pbuf_get_at :: "nat option \<Rightarrow> nat \<Rightarrow> pst \<Rightarrow> u8 option" where
  "pbuf_get_at p offset st =
     (case find_pos p offset st of
        None \<Rightarrow> None
      | Some (Some a, pos) \<Rightarrow> Some (payload_bytes st (p_payload (pbufs st a) + pos))
      | Some (None, pos) \<Rightarrow> Some 0)"

fun memcmp_loop :: "nat \<Rightarrow> nat \<Rightarrow> nat \<Rightarrow> u8 list \<Rightarrow> pst \<Rightarrow> nat option" where
  "memcmp_loop q start i [] st = Some 0"
| "memcmp_loop q start i (b # bs) st =
     (case pbuf_get_at (Some q) (u16 (start + i)) st of
        None \<Rightarrow> None
      | Some a \<Rightarrow> if a \<noteq> b then Some (u16 (i + 1)) else memcmp_loop q start (Suc i) bs st)"

definition pbuf_memcmp :: "nat option \<Rightarrow> nat \<Rightarrow> u8 list \<Rightarrow> pst \<Rightarrow> nat option" where
  "pbuf_memcmp p offset s2 st =
     (case find_pos p offset st of
        None \<Rightarrow> None
      | Some (Some q, start) \<Rightarrow> memcmp_loop q start 0 s2 st
      | Some (None, start) \<Rightarrow> Some 0xffff)"

partial_function (option) memfind_loop :: "nat \<Rightarrow> u8 list \<Rightarrow> nat \<Rightarrow> nat \<Rightarrow> pst \<Rightarrow> nat option" where
  "memfind_loop p mem i mx st =
     (if i \<le> mx then
        (case pbuf_memcmp (Some p) i mem st of
           None \<Rightarrow> None
         | Some step \<Rightarrow> if step = 0 then Some i else memfind_loop p mem (u16 (i + step)) mx st)
      else Some 0xffff)"

definition pbuf_memfind :: "nat \<Rightarrow> u8 list \<Rightarrow> nat \<Rightarrow> pst \<Rightarrow> nat option" where
  "pbuf_memfind p mem start_offset st =
     (let tot = p_tot_len (pbufs st p); mx = (tot + 65536 - length mem) mod 65536
      in if tot \<ge> length mem + start_offset then memfind_loop p mem start_offset mx st else Some 0xffff)"

definition pbuf_strstr :: "nat \<Rightarrow> u8 list option \<Rightarrow> pst \<Rightarrow> nat option" where
  "pbuf_strstr p substr st =
     (case substr of
        None \<Rightarrow> Some 0xffff
      | Some s \<Rightarrow>
          if s = [] \<or> p_tot_len (pbufs st p) = 0xffff \<or> length s \<ge> 0xffff then Some 0xffff
          else pbuf_memfind p s 0 st)"

end
