(* ===== verification/Pbuf_Spec.thy ===== *)
theory Pbuf_Spec
  imports Pbuf
begin

text \<open>
  Packets: a chain of pbufs as the list of their addresses (\<open>Memp.chain\<close> along \<^verbatim>\<open>next\<close>), with
  the invariant of \<^verbatim>\<open>pbuf.h\<close> on \<^verbatim>\<open>tot_len\<close>, and its contents as a byte list.  The operations of
  \<^verbatim>\<open>pbuf.c\<close> are shown to work on these.
\<close>

section \<open>Packets\<close>

abbreviation links :: "pst \<Rightarrow> nat \<Rightarrow> nat option" where
  "links st \<equiv> \<lambda>a. p_next (pbufs st a)"

abbreviation len_of :: "pst \<Rightarrow> nat \<Rightarrow> nat" where
  "len_of st a \<equiv> p_len (pbufs st a)"

definition total :: "pst \<Rightarrow> nat list \<Rightarrow> nat" where
  "total st xs = sum_list (map (len_of st) xs)"

fun tots :: "pst \<Rightarrow> nat list \<Rightarrow> bool" where
  "tots st [] = True"
| "tots st (a # as) \<longleftrightarrow> p_tot_len (pbufs st a) = len_of st a + total st as \<and> tots st as"

definition packet :: "pst \<Rightarrow> nat option \<Rightarrow> nat list \<Rightarrow> bool" where
  "packet st p xs \<longleftrightarrow> chain (links st) p xs \<and> tots st xs \<and> total st xs < 65536"

definition data_of :: "pst \<Rightarrow> nat \<Rightarrow> u8 list" where
  "data_of st a = load_bytes (p_payload (pbufs st a)) (len_of st a) (payload_bytes st)"

definition contents :: "pst \<Rightarrow> nat list \<Rightarrow> u8 list" where
  "contents st xs = concat (map (data_of st) xs)"

lemma length_load [simp]: "length (load_bytes s n m) = n"
  by (simp add: load_bytes_def)

lemma length_data [simp]: "length (data_of st a) = len_of st a"
  by (simp add: data_of_def)

lemma length_contents [simp]: "length (contents st xs) = total st xs"
  by (simp add: contents_def total_def length_concat comp_def)

lemma total_simps [simp]: "total st [] = 0" "total st (a # as) = len_of st a + total st as"
  "total st (xs @ ys) = total st xs + total st ys"
  by (simp_all add: total_def)

lemma contents_simps [simp]: "contents st [] = []" "contents st (a # as) = data_of st a @ contents st as"
  "contents st (xs @ ys) = contents st xs @ contents st ys"
  by (simp_all add: contents_def)

lemma chain_hd: "chain nx p (xs @ ys) \<Longrightarrow> \<exists>q. chain nx q ys"
  by (induction xs arbitrary: p) auto

lemma chain_distinct: "chain nx p xs \<Longrightarrow> distinct xs"
proof (induction xs arbitrary: p)
  case (Cons a xs)
  have "a \<notin> set xs"
  proof
    assume "a \<in> set xs"
    then obtain us vs where xs: "xs = us @ a # vs" by (auto simp: in_set_conv_decomp)
    from Cons.prems have t: "chain nx (nx a) (us @ a # vs)" by (simp add: xs)
    then obtain q where "chain nx q (a # vs)" using chain_hd by blast
    then have "chain nx (nx a) vs" by simp
    from chain_unique [OF t this] show False by (metis append_Cons append_is_Nil_conv length_Cons length_append lessI less_add_same_cancel2 nless_le not_add_less2 trans_less_add2)
  qed
  with Cons show ?case by auto
qed simp

lemma chain_cong: "(\<And>a. a \<in> set xs \<Longrightarrow> nx a = nx' a) \<Longrightarrow> chain nx p xs = chain nx' p xs"
  by (induction xs arbitrary: p) auto

lemma total_cong: "(\<And>a. a \<in> set xs \<Longrightarrow> len_of st a = len_of st' a) \<Longrightarrow> total st xs = total st' xs"
  by (induction xs) auto

lemma tots_cong:
  "(\<And>a. a \<in> set xs \<Longrightarrow> len_of st a = len_of st' a \<and> p_tot_len (pbufs st a) = p_tot_len (pbufs st' a)) \<Longrightarrow>
    tots st xs = tots st' xs"
  by (induction xs) (auto simp: total_cong [of _ st st'])

lemma data_cong:
  "len_of st a = len_of st' a \<Longrightarrow> p_payload (pbufs st a) = p_payload (pbufs st' a) \<Longrightarrow>
    payload_bytes st = payload_bytes st' \<Longrightarrow> data_of st a = data_of st' a"
  by (simp add: data_of_def)

lemma contents_cong:
  "(\<And>a. a \<in> set xs \<Longrightarrow> len_of st a = len_of st' a \<and> p_payload (pbufs st a) = p_payload (pbufs st' a)) \<Longrightarrow>
    payload_bytes st = payload_bytes st' \<Longrightarrow> contents st xs = contents st' xs"
  by (induction xs) (auto simp: data_cong [of st _ st'])

lemma upd_pbuf_simps [simp]:
  "pbufs (upd_pbuf a f st) b = (if b = a then f (pbufs st a) else pbufs st b)"
  "payload_bytes (upd_pbuf a f st) = payload_bytes st"
  "pbuf_pools (upd_pbuf a f st) = pbuf_pools st"
  "pbuf_heap (upd_pbuf a f st) = pbuf_heap st"
  "ooseq_pending (upd_pbuf a f st) = ooseq_pending st"
  by (simp_all add: upd_pbuf_def)

lemma links_upd: "links (upd_pbuf a f st) = (links st)(a := p_next (f (pbufs st a)))"
  by auto

lemma chain_same_links: "(\<And>a. a \<in> set xs \<Longrightarrow> links st a = links st' a) \<Longrightarrow>
    chain (links st) p xs = chain (links st') p xs"
  by (rule chain_cong) auto

lemma tots_pos: "tots st (xs @ ys) \<Longrightarrow> tots st ys"
  by (induction xs) auto

lemma packetD:
  assumes "packet st p xs"
  shows "chain (links st) p xs" "tots st xs" "total st xs < 65536" "distinct xs"
  using assms chain_distinct by (auto simp: packet_def)

lemma packet_Cons:
  "packet st (Some a) xs \<longleftrightarrow> (\<exists>as. xs = a # as \<and> packet st (links st a) as \<and>
     p_tot_len (pbufs st a) = len_of st a + total st as \<and> len_of st a + total st as < 65536)"
  by (cases xs) (auto simp: packet_def)

lemma packet_None [simp]: "packet st None xs \<longleftrightarrow> xs = []"
  by (cases xs) (auto simp: packet_def)

lemma tot_len_packet: "packet st (Some a) xs \<Longrightarrow> p_tot_len (pbufs st a) = total st xs"
  by (auto simp: packet_Cons)

section \<open>Concatenation\<close>

text \<open>The state after \<^verbatim>\<open>pbuf_cat\<close>: \<open>n\<close> is the total of the second chain \<open>t\<close>.\<close>

definition cat_state :: "nat list \<Rightarrow> nat \<Rightarrow> nat \<Rightarrow> pst \<Rightarrow> pst" where
  "cat_state xs t n st = st\<lparr>pbufs := \<lambda>a.
     if a \<in> set xs then (pbufs st a)\<lparr>p_tot_len := u16 (p_tot_len (pbufs st a) + n),
        p_next := (if a = last xs then Some t else p_next (pbufs st a))\<rparr>
     else pbufs st a\<rparr>"

lemma pbuf_cat_state:
  "chain (links st) (Some p) xs \<Longrightarrow> t \<notin> set xs \<Longrightarrow>
    pbuf_cat p t st = Some (cat_state xs t (p_tot_len (pbufs st t)) st)"
proof (induction xs arbitrary: p st)
  case (Cons a xs)
  let ?n = "p_tot_len (pbufs st t)"
  let ?st = "upd_pbuf p (\<lambda>b. b\<lparr>p_tot_len := u16 (p_tot_len b + ?n)\<rparr>) st"
  have d: "distinct (a # xs)" by (rule chain_distinct [OF Cons.prems(1)])
  from Cons.prems have a: "a = p" "chain (links st) (links st p) xs" "t \<noteq> p" "t \<notin> set xs" by auto
  show ?case
  proof (cases xs)
    case Nil
    with a have "p_next (pbufs st p) = None" by simp
    with a Nil show ?thesis
      by (simp add: pbuf_cat.simps cat_state_def Let_def) (simp add: upd_pbuf_def fun_eq_iff)
  next
    case (Cons q ys)
    with a have n: "p_next (pbufs st p) = Some q" by simp
    have "chain (links ?st) (Some q) xs"
      using a(2) n d a(1) by (subst chain_same_links [of _ _ st]) auto
    from Cons.IH [OF this a(4)] have "pbuf_cat q t ?st = Some (cat_state xs t ?n ?st)"
      using a by simp
    moreover have "pbuf_cat p t st = pbuf_cat q t ?st"
      using n by (subst pbuf_cat.simps) (simp add: Let_def)
    moreover have "cat_state xs t ?n ?st = cat_state (a # xs) t ?n st"
    proof (rule pst.equality)
      show "pbufs (cat_state xs t ?n ?st) = pbufs (cat_state (a # xs) t ?n st)"
        using d a(1) Cons by (intro ext) (auto simp: cat_state_def)
    qed (simp_all add: cat_state_def)
    ultimately show ?thesis by simp
  qed
qed simp

lemma chain_link:
  "chain nx p xs \<Longrightarrow> xs \<noteq> [] \<Longrightarrow> chain nx (Some t) ys \<Longrightarrow> set xs \<inter> set ys = {} \<Longrightarrow>
    chain (nx(last xs := Some t)) p (xs @ ys)"
proof (induction xs arbitrary: p)
  case (Cons a xs)
  show ?case
  proof (cases "xs = []")
    case True
    with Cons.prems chain_upd [of a ys nx "Some t" "Some t"] show ?thesis
      by (simp del: fun_upd_apply add: fun_upd_same)
  next
    case False
    moreover from chain_distinct [OF Cons.prems(1)] False have "a \<noteq> last xs" by auto
    ultimately show ?thesis using Cons by simp
  qed
qed simp

lemma packet_cat:
  assumes x: "packet st (Some h) xs" and y: "packet st (Some t) ys"
    and "set xs \<inter> set ys = {}" "total st xs + total st ys < 65536"
  shows "\<exists>st'. pbuf_cat h t st = Some st' \<and> packet st' (Some h) (xs @ ys) \<and>
    contents st' (xs @ ys) = contents st xs @ contents st ys \<and>
    st' = cat_state xs t (total st ys) st"
proof -
  let ?st = "cat_state xs t (total st ys) st"
  from y have "t \<in> set ys" by (auto simp: packet_Cons)
  with assms(3) have t: "t \<notin> set xs" by blast
  from x have ne: "xs \<noteq> []" by (auto simp: packet_Cons)
  have len: "len_of ?st a = len_of st a" "p_payload (pbufs ?st a) = p_payload (pbufs st a)" for a
    by (auto simp: cat_state_def)
  have tot: "total ?st zs = total st zs" for zs by (rule total_cong) (simp add: len)
  have "links ?st = (links st)(last xs := Some t)"
    using ne by (auto simp: cat_state_def)
  then have c: "chain (links ?st) (Some h) (xs @ ys)"
    using chain_link [OF packetD(1) [OF x] ne packetD(1) [OF y] assms(3)] by simp
  have "tots ?st ys" using packetD(2) [OF y] assms(3)
    by (subst tots_cong [of _ _ st]) (auto simp: cat_state_def)
  moreover have "set us \<subseteq> set xs \<Longrightarrow> tots st us \<Longrightarrow> total st us + total st ys < 65536 \<Longrightarrow>
      tots ?st ys \<Longrightarrow> tots ?st (us @ ys)" for us
    by (induction us) (auto simp: tot len, simp add: cat_state_def u16_def)
  ultimately have "tots ?st (xs @ ys)" using packetD(2) [OF x] assms(4) by blast
  with c assms(4) have "packet ?st (Some h) (xs @ ys)" by (simp add: packet_def tot)
  moreover have "contents ?st zs = contents st zs" for zs
    by (rule contents_cong) (simp_all add: len, simp add: cat_state_def)
  moreover have "pbuf_cat h t st = Some ?st"
    using pbuf_cat_state [OF packetD(1) [OF x] t] tot_len_packet [OF y] by simp
  ultimately show ?thesis by simp
qed

section \<open>Release\<close>

text \<open>Which pool a pbuf goes back to.\<close>

fun pool_of :: "pbuf_type \<Rightarrow> nat option" where
  "pool_of PBUF_POOL = Some MEMP_PBUF_POOL"
| "pool_of PBUF_RAM = None"
| "pool_of _ = Some MEMP_PBUF"

definition no_custom :: "pst \<Rightarrow> nat set \<Rightarrow> bool" where
  "no_custom st A \<longleftrightarrow> (\<forall>a \<in> A. p_flags (pbufs st a) AND PBUF_FLAG_IS_CUSTOM = 0)"

definition heap_free :: "pbuf_cfg \<Rightarrow> nat \<Rightarrow> heap \<Rightarrow> heap" where
  "heap_free c a = mem_free (mcfg c) (Some (int a - int (ram c)))"

definition in_pool :: "pst \<Rightarrow> nat \<Rightarrow> nat \<Rightarrow> bool" where
  "in_pool st i a \<longleftrightarrow> pool_of (p_type (pbufs st a)) = Some i"

definition in_heap :: "pst \<Rightarrow> nat \<Rightarrow> bool" where
  "in_heap st a \<longleftrightarrow> p_type (pbufs st a) = PBUF_RAM"

lemma release_simps:
  assumes "no_custom st {a}"
  shows "pbufs (release_pbuf c env a st) = pbufs st"
    "payload_bytes (release_pbuf c env a st) = payload_bytes st"
    "ooseq_pending (release_pbuf c env a st) = ooseq_pending st"
    "pbuf_pools (release_pbuf c env a st) =
      (case pool_of (p_type (pbufs st a)) of None \<Rightarrow> pbuf_pools st | Some i \<Rightarrow> memp_free i (Some a) (pbuf_pools st))"
    "pbuf_heap (release_pbuf c env a st) =
      (if in_heap st a then heap_free c a (pbuf_heap st) else pbuf_heap st)"
  using assms
  by (cases "p_type (pbufs st a)"; simp add: release_pbuf_def no_custom_def in_heap_def heap_free_def)+

lemma release_pools:
  assumes "no_custom st {a}" "pools_ok (pbuf_pools st) fl" "\<forall>i. a \<notin> set (fl i)"
  shows "pools_ok (pbuf_pools (release_pbuf c env a st)) (\<lambda>i. (if in_pool st i a then [a] else []) @ fl i)"
proof (cases "pool_of (p_type (pbufs st a))")
  case None
  with assms show ?thesis by (simp add: release_simps in_pool_def)
next
  case (Some i)
  then have "(\<lambda>i. (if in_pool st i a then [a] else []) @ fl i) = fl(i := a # fl i)"
    by (auto simp: in_pool_def)
  with Some assms memp_free_cons [OF assms(2), of a i] show ?thesis by (simp add: release_simps)
qed

text \<open>\<^verbatim>\<open>pbuf_free\<close> releases the longest prefix of pbufs with one reference and takes one
  reference from the next pbuf.\<close>

definition sole :: "pst \<Rightarrow> nat list \<Rightarrow> nat list" where
  "sole st xs = takeWhile (\<lambda>a. p_ref (pbufs st a) = 1) xs"

definition freed_pbufs :: "pst \<Rightarrow> nat list \<Rightarrow> nat \<Rightarrow> pbuf" where
  "freed_pbufs st xs a =
     (if a \<in> set (sole st xs) \<or> a \<in> set (take 1 (drop (length (sole st xs)) xs))
      then (pbufs st a)\<lparr>p_ref := p_ref (pbufs st a) - 1\<rparr> else pbufs st a)"

definition freed :: "pbuf_cfg \<Rightarrow> pst \<Rightarrow> nat list \<Rightarrow> pst \<Rightarrow> bool" where
  "freed c st xs st' \<longleftrightarrow>
     pbufs st' = freed_pbufs st xs \<and> payload_bytes st' = payload_bytes st \<and>
     ooseq_pending st' = ooseq_pending st \<and>
     pbuf_heap st' = fold (heap_free c) (filter (in_heap st) (sole st xs)) (pbuf_heap st)"

definition freed_lists :: "pst \<Rightarrow> nat list \<Rightarrow> (nat \<Rightarrow> nat list) \<Rightarrow> nat \<Rightarrow> nat list" where
  "freed_lists st xs fl = (\<lambda>i. rev (filter (in_pool st i) (sole st xs)) @ fl i)"

lemma sole_subset: "a \<in> set (sole st xs) \<Longrightarrow> a \<in> set xs"
  unfolding sole_def by (rule set_takeWhileD [THEN conjunct1])

lemma pbuf_free_loop_spec:
  assumes "chain (links st) p xs" "no_custom st (set xs)"
    and "\<forall>a \<in> set xs. 0 < p_ref (pbufs st a) \<and> p_ref (pbufs st a) < 65536"
    and "pools_ok (pbuf_pools st) fl" "\<forall>i. set xs \<inter> set (fl i) = {}" "n < 256"
  shows "\<exists>st'. pbuf_free_loop c env p n st = Some ((n + length (sole st xs)) mod 256, st') \<and>
    freed c st xs st' \<and> pools_ok (pbuf_pools st') (freed_lists st xs fl)"
  using assms
proof (induction xs arbitrary: p n st fl)
  case Nil
  then show ?case
    by (subst pbuf_free_loop.simps) (auto simp: freed_def sole_def freed_pbufs_def freed_lists_def)
next
  case (Cons a xs)
  define r where "r = p_ref (pbufs st a) - 1"
  let ?st = "upd_pbuf a (\<lambda>b. b\<lparr>p_ref := r\<rparr>) st"
  from Cons.prems(1) have p: "p = Some a" and c: "chain (links st) (links st a) xs" by auto
  have d: "a \<notin> set xs" "distinct xs" using chain_distinct [OF Cons.prems(1)] by auto
  from Cons.prems(3) have "0 < p_ref (pbufs st a)" "p_ref (pbufs st a) < 65536" by auto
  then have r: "(p_ref (pbufs st a) + 65535) mod 65536 = r"
    by (cases "p_ref (pbufs st a)") (auto simp: r_def)
  show ?case
  proof (cases "p_ref (pbufs st a) = 1")
    case False
    then have s: "sole st (a # xs) = []" by (simp add: sole_def)
    have "pbuf_free_loop c env p n st = Some (n, ?st)"
      using False r \<open>0 < p_ref (pbufs st a)\<close> r_def by (subst pbuf_free_loop.simps) (simp add: p Let_def)
    moreover have "freed c st (a # xs) ?st" by (auto simp: freed_def s freed_pbufs_def r_def)
    ultimately show ?thesis using Cons.prems(4,6) by (simp add: s freed_lists_def)
  next
    case True
    let ?st' = "release_pbuf c env a ?st"
    have nc: "no_custom ?st {a}" using Cons.prems(2) by (simp add: no_custom_def)
    have step: "pbuf_free_loop c env p n st = pbuf_free_loop c env (links st a) ((n + 1) mod 256) ?st'"
      using True r r_def by (subst pbuf_free_loop.simps) (simp add: p Let_def)
    have same: "pbufs ?st' b = pbufs st b" if "b \<noteq> a" for b using that by (simp add: release_simps(1) [OF nc])
    have same': "pbufs ?st' b = pbufs st b" if "b \<in> set xs" for b using that d(1) by (intro same) auto
    have s: "sole ?st' xs = sole st xs" unfolding sole_def by (rule takeWhile_cong) (simp_all add: same')
    have sa: "sole st (a # xs) = a # sole st xs" using True by (simp add: sole_def)
    have as: "a \<notin> set (sole st xs)" using d(1) sole_subset by blast
    have sames: "pbufs ?st' b = pbufs st b" if "b \<in> set (sole st xs)" for b
      using sole_subset [OF that] by (rule same')
    let ?fl = "\<lambda>i. (if in_pool ?st i a then [a] else []) @ fl i"
    have "\<exists>st'. pbuf_free_loop c env (links st a) ((n + 1) mod 256) ?st' =
        Some (((n + 1) mod 256 + length (sole ?st' xs)) mod 256, st') \<and>
      freed c ?st' xs st' \<and> pools_ok (pbuf_pools st') (freed_lists ?st' xs ?fl)"
    proof (rule Cons.IH)
      show "chain (links ?st') (links st a) xs" using c same' by (subst chain_same_links [of _ _ st]) auto
      show "no_custom ?st' (set xs)" using Cons.prems(2) same' by (auto simp: no_custom_def)
      show "\<forall>b \<in> set xs. 0 < p_ref (pbufs ?st' b) \<and> p_ref (pbufs ?st' b) < 65536"
        using Cons.prems(3) same' by simp
      show "pools_ok (pbuf_pools ?st') ?fl"
        by (rule release_pools [OF nc]) (use Cons.prems(4,5) in auto)
      show "\<forall>i. set xs \<inter> set (?fl i) = {}" using Cons.prems(5) d(1) by auto
      show "(n + 1) mod 256 < 256" by simp
    qed
    then obtain st' where st': "pbuf_free_loop c env (links st a) ((n + 1) mod 256) ?st' =
        Some (((n + 1) mod 256 + length (sole st xs)) mod 256, st')"
      "freed c ?st' xs st'" "pools_ok (pbuf_pools st') (freed_lists ?st' xs ?fl)" unfolding s by blast
    have at: "a \<notin> set (take (Suc 0) (drop k xs))" for k using d(1) by (meson in_set_takeD in_set_dropD)
    have "pbufs st' = freed_pbufs st (a # xs)"
      using st'(2) as d(1) at
      by (auto simp: freed_def freed_pbufs_def s sa release_simps(1) [OF nc]
          r_def [unfolded One_nat_def, symmetric] intro!: ext)
    moreover have ih: "filter (in_heap ?st') (sole st xs) = filter (in_heap st) (sole st xs)"
      by (rule filter_cong) (simp_all add: in_heap_def sames)
    moreover have ip: "filter (in_pool ?st' i) (sole st xs) = filter (in_pool st i) (sole st xs)" for i
      by (rule filter_cong) (simp_all add: in_pool_def sames)
    ultimately have "freed c st (a # xs) st'"
      using st'(2) by (simp add: freed_def s sa release_simps(2-) [OF nc] in_heap_def)
    moreover have "freed_lists ?st' xs ?fl = freed_lists st (a # xs) fl"
      by (simp add: freed_lists_def s sa ip fun_eq_iff in_pool_def)
    moreover have "((n + 1) mod 256 + length (sole st xs)) mod 256 = (n + length (sole st (a # xs))) mod 256"
      by (simp add: sa mod_simps)
    ultimately show ?thesis using st' step by simp
  qed
qed

section \<open>Allocation from the pool\<close>

definition pbuf_cfg_ok :: "pbuf_cfg \<Rightarrow> bool" where
  "pbuf_cfg_ok c \<longleftrightarrow> 0 < MEM_ALIGNMENT (mcfg c) \<and>
     align c (PBUF_LINK_HLEN c + 40) < PBUF_POOL_BUFSIZE_ALIGNED c"

text \<open>Posting the request to free out-of-sequence segments does not touch the pbufs.\<close>

definition quiet :: "pbuf_env \<Rightarrow> bool" where
  "quiet env \<longleftrightarrow> (\<forall>st. snd (tcpip_callback env st) = st)"

lemma pool_is_empty_quiet:
  assumes "quiet env"
  shows "\<exists>b. pbuf_pool_is_empty env st = st\<lparr>ooseq_pending := b\<rparr>"
proof -
  have "snd (tcpip_callback env (st\<lparr>ooseq_pending := True\<rparr>)) = st\<lparr>ooseq_pending := True\<rparr>"
    using assms by (simp add: quiet_def)
  then obtain ok where "tcpip_callback env (st\<lparr>ooseq_pending := True\<rparr>) = (ok, st\<lparr>ooseq_pending := True\<rparr>)"
    by (metis prod.collapse)
  then have "pbuf_pool_is_empty env st = st\<lparr>ooseq_pending := (ok \<or> ooseq_pending st)\<rparr>"
    by (simp add: pbuf_pool_is_empty_def Let_def)
  then show ?thesis by blast
qed

text \<open>The lengths of the pbufs behind the first one.\<close>

function pool_lens :: "nat \<Rightarrow> nat \<Rightarrow> nat list" where
  "pool_lens B n = (if n = 0 \<or> B = 0 then [] else min n B # pool_lens B (n - min n B))"
  by auto
termination by (relation "measure snd") auto

declare pool_lens.simps [simp del]

lemma sum_pool_lens: "0 < B \<Longrightarrow> sum_list (pool_lens B n) = n"
proof (induction B n rule: pool_lens.induct)
  case (1 B n)
  then show ?case by (cases "n = 0") (simp_all add: pool_lens.simps [of B n] pool_lens.simps [of B 0])
qed

lemma pool_lens_le: "k \<in> set (pool_lens B n) \<Longrightarrow> k \<le> B"
proof (induction B n rule: pool_lens.induct)
  case (1 B n)
  from 1(2) have "\<not> (n = 0 \<or> B = 0)" "k = min n B \<or> k \<in> set (pool_lens B (n - min n B))"
    by (simp_all add: pool_lens.simps [of B n] split: if_splits)
  with 1(1) show ?case by auto
qed

definition fresh :: "pbuf_cfg \<Rightarrow> pst \<Rightarrow> nat \<Rightarrow> nat \<Rightarrow> bool" where
  "fresh c st a n \<longleftrightarrow> p_type (pbufs st a) = PBUF_POOL \<and> p_flags (pbufs st a) = 0 \<and> p_ref (pbufs st a) = 1 \<and>
     p_payload (pbufs st a) = a + SIZEOF_STRUCT_PBUF c \<and> p_len (pbufs st a) = n"

text \<open>The invariant of the loop: the chain so far, \<open>k\<close> bytes still to come.\<close>

fun tots_plus :: "pst \<Rightarrow> nat \<Rightarrow> nat list \<Rightarrow> bool" where
  "tots_plus st k [] = True"
| "tots_plus st k (a # as) \<longleftrightarrow> p_tot_len (pbufs st a) = len_of st a + total st as + k \<and> tots_plus st k as"

lemma tots_plus_0: "tots_plus st 0 xs = tots st xs"
  by (induction xs) auto

definition building :: "pst \<Rightarrow> nat \<Rightarrow> nat list \<Rightarrow> nat \<Rightarrow> (nat \<Rightarrow> nat list) \<Rightarrow> bool" where
  "building st p xs k fl \<longleftrightarrow> chain (links st) (Some p) xs \<and> tots_plus st k xs \<and>
     (\<forall>a \<in> set xs. p_type (pbufs st a) = PBUF_POOL \<and> p_ref (pbufs st a) = 1) \<and> no_custom st (set xs) \<and>
     pools_ok (pbuf_pools st) fl \<and> (\<forall>i. set xs \<inter> set (fl i) = {})"

lemma building_ne: "building st p xs k fl \<Longrightarrow> xs \<noteq> []"
  by (auto simp: building_def)

text \<open>One more pbuf: the body of the loop.\<close>

definition add_pbuf :: "pbuf_cfg \<Rightarrow> nat \<Rightarrow> nat \<Rightarrow> nat \<Rightarrow> nat \<Rightarrow> memp \<Rightarrow> pst \<Rightarrow> pst" where
  "add_pbuf c r q k n pools st =
     (let st = st\<lparr>pbuf_pools := pools\<rparr>;
          st = upd_pbuf q (\<lambda>b. b\<lparr>p_type := PBUF_POOL, p_flags := 0, p_next := None\<rparr>) st;
          st = upd_pbuf r (\<lambda>b. b\<lparr>p_next := Some q\<rparr>) st
      in upd_pbuf q (\<lambda>b. b\<lparr>p_tot_len := k, p_len := n, p_payload := q + SIZEOF_STRUCT_PBUF c, p_ref := 1\<rparr>) st)"

lemma add_pbuf_simps:
  assumes "q \<noteq> r"
  shows "pbufs (add_pbuf c r q k n pools st) a =
      (if a = q then (pbufs st q)\<lparr>p_type := PBUF_POOL, p_flags := 0, p_next := None, p_tot_len := k,
          p_len := n, p_payload := q + SIZEOF_STRUCT_PBUF c, p_ref := 1\<rparr>
       else if a = r then (pbufs st r)\<lparr>p_next := Some q\<rparr> else pbufs st a)"
    "payload_bytes (add_pbuf c r q k n pools st) = payload_bytes st"
    "pbuf_pools (add_pbuf c r q k n pools st) = pools"
    "pbuf_heap (add_pbuf c r q k n pools st) = pbuf_heap st"
  using assms by (simp_all add: add_pbuf_def Let_def)

lemma building_step:
  fixes c :: pbuf_cfg
  assumes b: "building st p xs k fl" and e: "fl MEMP_PBUF_POOL = q # es" and n: "n \<le> k"
    and m: "memp_malloc MEMP_PBUF_POOL (pbuf_pools st) = (Some q, pools)"
      "pools_ok pools (fl(MEMP_PBUF_POOL := es))"
  defines "st' \<equiv> add_pbuf c (last xs) q k n pools st"
  shows "building st' p (xs @ [q]) (k - n) (fl(MEMP_PBUF_POOL := es))"
    "fresh c st' q n" "\<And>a. a \<in> set xs \<Longrightarrow> len_of st' a = len_of st a"
proof -
  have q: "q \<notin> set xs" using b e by (auto simp: building_def dest: spec [of _ MEMP_PBUF_POOL])
  have ne: "xs \<noteq> []" by (rule building_ne [OF b])
  then have qr: "q \<noteq> last xs" using q last_in_set by metis
  note s = add_pbuf_simps [OF qr, of c k n pools st, folded st'_def]
  show "fresh c st' q n" by (simp add: fresh_def s)
  show same: "len_of st' a = len_of st a" if "a \<in> set xs" for a using that q by (auto simp: s)
  have tot: "total st' as = total st as" if "set as \<subseteq> set xs" for as
    by (rule total_cong) (use that same in auto)
  have "chain (links st) (Some p) xs" using b by (simp add: building_def)
  then have "chain ((links st)(q := None)) (Some p) xs" using q by (subst chain_upd) auto
  moreover have "links st' = ((links st)(q := None))(last xs := Some q)" using qr by (auto simp: s)
  ultimately have "chain (links st') (Some p) (xs @ [q])"
    using chain_link [of "(links st)(q := None)" "Some p" xs q "[q]"] ne q by auto
  moreover have "set as \<subseteq> set xs \<Longrightarrow> tots_plus st k as \<Longrightarrow> tots_plus st' (k - n) (as @ [q])" for as
  proof (induction as)
    case (Cons a as)
    moreover from Cons.prems q have "a \<noteq> q" by auto
    ultimately show ?case using n same tot [of as] by (auto simp: s)
  qed (use n in \<open>simp add: s\<close>)
  moreover have "tots_plus st k xs" using b by (simp add: building_def)
  moreover have "set (xs @ [q]) \<inter> set ((fl(MEMP_PBUF_POOL := es)) i) = {}" for i
  proof -
    have "distinct (q # es)" "set xs \<inter> set (q # es) = {}" using b e by (metis building_def pools_ok_def)+
    moreover have "q \<notin> set (fl i)" if "i \<noteq> MEMP_PBUF_POOL"
      using b e that by (auto simp: building_def pools_ok_def dest: spec [of _ MEMP_PBUF_POOL])
    moreover have "set xs \<inter> set (fl i) = {}" using b by (simp add: building_def)
    ultimately show ?thesis by auto
  qed
  ultimately show "building st' p (xs @ [q]) (k - n) (fl(MEMP_PBUF_POOL := es))"
    using b m(2) q by (simp add: building_def s(3)) (auto simp: s no_custom_def)
qed

text \<open>What the loop leaves alone: of the pbufs that were not in the pool only \<^verbatim>\<open>next\<close> changes, and
  only for those of the chain.\<close>

definition only_links :: "nat list \<Rightarrow> nat list \<Rightarrow> pst \<Rightarrow> pst \<Rightarrow> bool" where
  "only_links xs es st st' \<longleftrightarrow> payload_bytes st' = payload_bytes st \<and>
     (\<forall>a. a \<notin> set es \<longrightarrow> pbufs st' a = (pbufs st a)\<lparr>p_next := links st' a\<rparr> \<and>
          (a \<notin> set xs \<longrightarrow> links st' a = links st a))"

lemma only_links_refl: "only_links xs es st st"
  by (simp add: only_links_def)

lemma only_links_step:
  assumes "q \<notin> set xs" "xs \<noteq> []"
    and "only_links (xs @ [q]) es (add_pbuf c (last xs) q k n pools st) st'"
  shows "only_links xs (q # es) st st'"
proof -
  have qr: "q \<noteq> last xs" using assms by auto
  note s = add_pbuf_simps [OF qr, of c k n pools st]
  have "pbufs st' a = (pbufs st a)\<lparr>p_next := links st' a\<rparr> \<and> (a \<notin> set xs \<longrightarrow> links st' a = links st a)"
    if "a \<notin> set (q # es)" for a
  proof -
    from that assms(3) have f: "pbufs st' a = (pbufs (add_pbuf c (last xs) q k n pools st) a)\<lparr>p_next := links st' a\<rparr>"
      "a \<notin> set xs \<longrightarrow> links st' a = links (add_pbuf c (last xs) q k n pools st) a"
      by (auto simp: only_links_def)
    from that have "(pbufs (add_pbuf c (last xs) q k n pools st) a)\<lparr>p_next := links st' a\<rparr> =
        (pbufs st a)\<lparr>p_next := links st' a\<rparr>" by (simp add: s(1))
    moreover have "a \<noteq> last xs" if "a \<notin> set xs" using that assms(2) by auto
    ultimately show ?thesis using f that by (simp add: s(1))
  qed
  then show ?thesis using assms(3) by (auto simp: only_links_def s(2))
qed

lemma building_free:
  assumes "quiet env" "building st p xs k fl"
  shows "\<exists>n st'. pbuf_free c env (Some p) (pbuf_pool_is_empty env st) = Some (n, st') \<and>
    pools_ok (pbuf_pools st') (fl(MEMP_PBUF_POOL := rev xs @ fl MEMP_PBUF_POOL)) \<and>
    payload_bytes st' = payload_bytes st \<and> no_custom st' (set xs) \<and>
    (\<forall>a. a \<notin> set xs \<longrightarrow> pbufs st' a = pbufs st a)"
proof -
  obtain b where b: "pbuf_pool_is_empty env st = st\<lparr>ooseq_pending := b\<rparr>"
    using pool_is_empty_quiet [OF assms(1)] by blast
  let ?st = "st\<lparr>ooseq_pending := b\<rparr>"
  from assms(2) have B: "chain (links ?st) (Some p) xs" "no_custom ?st (set xs)"
    "\<forall>a \<in> set xs. 0 < p_ref (pbufs ?st a) \<and> p_ref (pbufs ?st a) < 65536"
    "pools_ok (pbuf_pools ?st) fl" "\<forall>i. set xs \<inter> set (fl i) = {}"
    by (auto simp: building_def no_custom_def)
  from assms(2) have s: "sole ?st xs = xs"
    by (simp add: sole_def building_def)
  have f: "filter (in_pool ?st i) xs = (if i = MEMP_PBUF_POOL then xs else [])" for i
    using assms(2) by (auto simp: building_def in_pool_def filter_empty_conv filter_id_conv)
  have "freed_lists ?st xs fl = fl(MEMP_PBUF_POOL := rev xs @ fl MEMP_PBUF_POOL)"
    by (auto simp: freed_lists_def s f)
  moreover have "freed_pbufs ?st xs a = pbufs st a" if "a \<notin> set xs" for a
    using that by (simp add: freed_pbufs_def s)
  moreover have "p_flags (freed_pbufs ?st xs a) = p_flags (pbufs st a)" for a
    by (simp add: freed_pbufs_def)
  ultimately show ?thesis
    using pbuf_free_loop_spec [OF B, of 0 c env] assms(2) unfolding pbuf_free_def b
    by (fastforce simp: freed_def no_custom_def building_def)
qed

lemma pool_tail_spec:
  assumes "quiet env" "0 < PBUF_POOL_BUFSIZE_ALIGNED c"
    and "building st p xs k fl" "fl MEMP_PBUF_POOL = es" "k < 65536" "no_custom st (set es)"
  shows "\<exists>st'. let lens = pool_lens (PBUF_POOL_BUFSIZE_ALIGNED c) k; n = length lens in
    if n \<le> length es
    then pool_tail c env p (last xs) k st = Some (Some p, st') \<and>
      building st' p (xs @ take n es) 0 (fl(MEMP_PBUF_POOL := drop n es)) \<and>
      list_all2 (fresh c st') (take n es) lens \<and> only_links xs (take n es) st st'
    else pool_tail c env p (last xs) k st = Some (None, st') \<and>
      pools_ok (pbuf_pools st') (fl(MEMP_PBUF_POOL := rev (xs @ es))) \<and>
      payload_bytes st' = payload_bytes st \<and> no_custom st' (set (xs @ es)) \<and>
      (\<forall>a. a \<notin> set (xs @ es) \<longrightarrow> pbufs st' a = pbufs st a)"
  using assms(3-)
proof (induction es arbitrary: st xs k fl)
  case Nil
  have m: "memp_malloc MEMP_PBUF_POOL (pbuf_pools st) = (None, pbuf_pools st)"
    using memp_malloc_empty [of _ fl] Nil by (simp add: building_def)
  show ?case
  proof (cases "k = 0")
    case True
    with Nil(1,2) show ?thesis
      by (subst (1 2) pool_tail.simps) (auto simp: pool_lens.simps [of _ 0] fun_upd_idem only_links_refl intro!: exI [of _ st])
  next
    case False
    then have "pool_lens (PBUF_POOL_BUFSIZE_ALIGNED c) k \<noteq> []"
      using assms(2) by (simp add: pool_lens.simps [of _ k])
    with building_free [OF assms(1) Nil(1), where c = c] m False Nil(2) show ?thesis
      by (subst (1 2) pool_tail.simps) (auto simp: Let_def)
  qed
next
  case (Cons q es)
  let ?B = "PBUF_POOL_BUFSIZE_ALIGNED c"
  show ?case
  proof (cases "k = 0")
    case True
    with Cons.prems show ?thesis
      by (subst (1 2) pool_tail.simps)
        (auto simp: pool_lens.simps [of _ 0] fun_upd_idem only_links_refl intro!: exI [of _ st])
  next
    case False
    let ?n = "min k ?B"
    from Cons.prems have ok: "pools_ok (pbuf_pools st) fl" by (simp add: building_def)
    from memp_malloc_cons [OF ok Cons.prems(2)] obtain pools
      where m: "memp_malloc MEMP_PBUF_POOL (pbuf_pools st) = (Some q, pools)"
        "pools_ok pools (fl(MEMP_PBUF_POOL := es))" by blast
    let ?st = "add_pbuf c (last xs) q k ?n pools st"
    note bs = building_step [OF Cons.prems(1,2) _ m, where n = ?n and c = c]
    have lens: "pool_lens ?B k = ?n # pool_lens ?B (k - ?n)"
      using False assms(2) by (simp add: pool_lens.simps [of ?B k])
    have step: "pool_tail c env p (last xs) k st = pool_tail c env p (last (xs @ [q])) (k - ?n) ?st"
      using False m(1) Cons.prems(3)
      by (subst pool_tail.simps) (simp add: add_pbuf_def Let_def u16_def)
    have q: "q \<notin> set xs" "q \<notin> set es" using Cons.prems(1,2)
      by (auto simp: building_def pools_ok_def dest!: spec [of _ MEMP_PBUF_POOL])
    have ne: "xs \<noteq> []" by (rule building_ne [OF Cons.prems(1)])
    then have qr: "q \<noteq> last xs" using q by auto
    note s = add_pbuf_simps [OF qr, of c k ?n pools st]
    have nc: "no_custom ?st (set es)"
      using Cons.prems(4) q building_ne [OF Cons.prems(1)] by (auto simp: no_custom_def s(1))
    have "k - ?n < 65536" using Cons.prems(3) by simp
    from Cons.IH [OF bs(1) _ this nc] obtain st' where IH: "let lens = pool_lens ?B (k - ?n); n = length lens in
      if n \<le> length es
      then pool_tail c env p (last (xs @ [q])) (k - ?n) ?st = Some (Some p, st') \<and>
        building st' p ((xs @ [q]) @ take n es) 0 (fl(MEMP_PBUF_POOL := es, MEMP_PBUF_POOL := drop n es)) \<and>
        list_all2 (fresh c st') (take n es) lens \<and> only_links (xs @ [q]) (take n es) ?st st'
      else pool_tail c env p (last (xs @ [q])) (k - ?n) ?st = Some (None, st') \<and>
        pools_ok (pbuf_pools st') (fl(MEMP_PBUF_POOL := es, MEMP_PBUF_POOL := rev ((xs @ [q]) @ es))) \<and>
        payload_bytes st' = payload_bytes ?st \<and> no_custom st' (set ((xs @ [q]) @ es)) \<and>
        (\<forall>a. a \<notin> set ((xs @ [q]) @ es) \<longrightarrow> pbufs st' a = pbufs ?st a)" by auto
    have fr: "fresh c st' q ?n" if "only_links (xs @ [q]) ys ?st st'" "q \<notin> set ys" for ys
    proof -
      from that obtain x where "pbufs st' q = (pbufs ?st q)\<lparr>p_next := x\<rparr>" unfolding only_links_def by blast
      then show ?thesis using bs(2) by (simp add: fresh_def)
    qed
    show ?thesis
    proof (cases "length (pool_lens ?B (k - ?n)) \<le> length es")
      case True
      let ?ys = "take (length (pool_lens ?B (k - ?n))) es"
      from IH True have ol: "only_links (xs @ [q]) ?ys ?st st'" by (simp only: Let_def if_True)
      from q(2) have "q \<notin> set ?ys" by (auto dest: in_set_takeD)
      from fr [OF ol this] only_links_step [OF q(1) ne ol] IH True show ?thesis
        by (intro exI [of _ st']) (simp add: step lens Let_def)
    next
      case False
      have "pbufs ?st a = pbufs st a" if "a \<notin> set (xs @ q # es)" for a
        using that ne by (auto simp: s(1))
      with IH False show ?thesis by (intro exI [of _ st']) (auto simp: step lens Let_def s(2))
    qed
  qed
qed

lemma align_add:
  assumes "0 < MEM_ALIGNMENT (mcfg c)" "MEM_ALIGNMENT (mcfg c) dvd x"
  shows "align c (x + n) = x + align c n"
proof -
  let ?A = "MEM_ALIGNMENT (mcfg c)"
  have "x + n + ?A - 1 = x + (n + ?A - 1)" using assms(1) by simp
  moreover have "(x + m) mod ?A = m mod ?A" for m using assms(2) by (metis mod_add_left_eq add_0 dvd_imp_mod_0)
  moreover have "x + m - m mod ?A = x + (m - m mod ?A)" for m by simp
  ultimately show ?thesis unfolding align_def LWIP_MEM_ALIGN_SIZE_def by (simp only:)
qed

lemma align_mono_lt:
  assumes "m \<le> n"
  shows "align c m \<le> align c n"
proof -
  have "x - x mod A = A * (x div A)" for x A :: nat by (simp add: minus_mod_eq_mult_div)
  then show ?thesis using assms
    by (simp add: align_def LWIP_MEM_ALIGN_SIZE_def mult_le_mono2 div_le_mono diff_le_mono add_le_mono1)
qed

lemma header_fits: "pbuf_cfg_ok c \<Longrightarrow> align c (header_offset c layer) < PBUF_POOL_BUFSIZE_ALIGNED c"
  by (cases layer)
    (auto simp: pbuf_cfg_ok_def header_offset_def
      intro: le_less_trans [OF align_mono_lt [of _ "PBUF_LINK_HLEN c + 40" c]])

text \<open>A pbuf of the pool as \<^verbatim>\<open>pbuf_alloc\<close> hands it out: its data lie inside the element.\<close>

definition pool_pbuf :: "pbuf_cfg \<Rightarrow> pst \<Rightarrow> nat \<Rightarrow> bool" where
  "pool_pbuf c st a \<longleftrightarrow> p_type (pbufs st a) = PBUF_POOL \<and> p_flags (pbufs st a) = 0 \<and> p_ref (pbufs st a) = 1 \<and>
     a + SIZEOF_STRUCT_PBUF c \<le> p_payload (pbufs st a) \<and>
     p_payload (pbufs st a) + len_of st a \<le> a + SIZEOF_STRUCT_PBUF c + PBUF_POOL_BUFSIZE_ALIGNED c"

definition pool_need :: "pbuf_cfg \<Rightarrow> pbuf_layer \<Rightarrow> nat \<Rightarrow> nat list" where
  "pool_need c layer len =
     (let n = min len (PBUF_POOL_BUFSIZE_ALIGNED c - align c (header_offset c layer))
      in n # pool_lens (PBUF_POOL_BUFSIZE_ALIGNED c) (len - n))"

text \<open>The pools a packet can be allocated from: elements aligned, and no stale custom flag.\<close>

definition pool_ready :: "pbuf_cfg \<Rightarrow> pst \<Rightarrow> (nat \<Rightarrow> nat list) \<Rightarrow> bool" where
  "pool_ready c st fl \<longleftrightarrow> pools_ok (pbuf_pools st) fl \<and> no_custom st (set (fl MEMP_PBUF_POOL)) \<and>
     (\<forall>a \<in> set (fl MEMP_PBUF_POOL). MEM_ALIGNMENT (mcfg c) dvd a)"

text \<open>The first pbuf of the packet, with room for the headers in front of its data.\<close>

definition first_pbuf :: "pbuf_cfg \<Rightarrow> pbuf_layer \<Rightarrow> nat \<Rightarrow> nat \<Rightarrow> memp \<Rightarrow> pst \<Rightarrow> pst" where
  "first_pbuf c layer len p pools st =
     upd_pbuf p (\<lambda>b. b\<lparr>p_type := PBUF_POOL, p_next := None,
       p_payload := p + SIZEOF_STRUCT_PBUF c + align c (header_offset c layer), p_tot_len := len,
       p_len := min len (PBUF_POOL_BUFSIZE_ALIGNED c - align c (header_offset c layer)), p_ref := 1\<rparr>)
       (st\<lparr>pbuf_pools := pools\<rparr>)"

lemma first_payload:
  assumes "pbuf_cfg_ok c" "MEM_ALIGNMENT (mcfg c) dvd p"
  shows "align c (p + (SIZEOF_STRUCT_PBUF c + off)) = p + SIZEOF_STRUCT_PBUF c + align c off"
proof -
  have "MEM_ALIGNMENT (mcfg c) dvd SIZEOF_STRUCT_PBUF c"
    unfolding SIZEOF_STRUCT_PBUF_def align_def by (rule align_dvd)
  then have "MEM_ALIGNMENT (mcfg c) dvd p + SIZEOF_STRUCT_PBUF c" using assms(2) by simp
  from align_add [OF _ this, of off] assms(1) show ?thesis by (simp add: pbuf_cfg_ok_def add.assoc)
qed

lemma alloc_first:
  assumes c: "pbuf_cfg_ok c" and ready: "pool_ready c st fl" and fle: "fl MEMP_PBUF_POOL = p # es"
  obtains pools where "building (first_pbuf c layer len p pools st) p [p]
      (len - min len (PBUF_POOL_BUFSIZE_ALIGNED c - align c (header_offset c layer))) (fl(MEMP_PBUF_POOL := es))"
    "no_custom (first_pbuf c layer len p pools st) (set es)" "p \<notin> set es"
    "pbuf_alloc c env layer len PBUF_POOL st =
      (case pool_tail c env p p (len - min len (PBUF_POOL_BUFSIZE_ALIGNED c - align c (header_offset c layer)))
              (first_pbuf c layer len p pools st) of
         None \<Rightarrow> None | Some (None, st) \<Rightarrow> Some (None, st)
       | Some (Some p, st) \<Rightarrow> Some (Some p, upd_pbuf p (\<lambda>b. b\<lparr>p_ref := 1, p_flags := 0\<rparr>) st))"
proof -
  from ready have ok: "pools_ok (pbuf_pools st) fl" by (simp add: pool_ready_def)
  from memp_malloc_cons [OF ok fle] obtain pools
    where m: "memp_malloc MEMP_PBUF_POOL (pbuf_pools st) = (Some p, pools)"
      "pools_ok pools (fl(MEMP_PBUF_POOL := es))" by blast
  have "distinct (p # es)" using ok fle by (metis pools_ok_def)
  then have p: "p \<notin> set es" by simp
  have "p \<notin> set (fl i)" if "i \<noteq> MEMP_PBUF_POOL" for i
    using that ok fle by (fastforce simp: pools_ok_def)
  with m(2) ready fle p have "building (first_pbuf c layer len p pools st) p [p]
      (len - min len (PBUF_POOL_BUFSIZE_ALIGNED c - align c (header_offset c layer))) (fl(MEMP_PBUF_POOL := es))"
    by (auto simp: building_def first_pbuf_def no_custom_def pool_ready_def)
  moreover have "no_custom (first_pbuf c layer len p pools st) (set es)"
    using ready fle p by (auto simp: pool_ready_def no_custom_def first_pbuf_def)
  moreover have "MEM_ALIGNMENT (mcfg c) dvd p" using ready fle by (simp add: pool_ready_def)
  then have "align c (p + (SIZEOF_STRUCT_PBUF c + header_offset c layer)) =
      p + SIZEOF_STRUCT_PBUF c + align c (header_offset c layer)" by (rule first_payload [OF c])
  ultimately show ?thesis using that p by (simp add: pbuf_alloc_def alloc_pool_def m first_pbuf_def Let_def)
qed

text \<open>The finished packet: the first pbuf \<open>p\<close> and the full ones \<open>ys\<close> behind it.\<close>

lemma alloc_done:
  fixes c :: pbuf_cfg and layer :: pbuf_layer and len :: nat and st' :: pst and p :: nat
  assumes c: "pbuf_cfg_ok c" and len: "len < 65536" and bld: "building st' p (p # ys) 0 fl" and py: "p \<notin> set ys"
    and fy: "list_all2 (fresh c st') ys (tl (pool_need c layer len))"
    and fp: "pbufs st' p = (pbufs (first_pbuf c layer len p pools st) p)\<lparr>p_next := x\<rparr>"
  defines "st2 \<equiv> upd_pbuf p (\<lambda>b. b\<lparr>p_ref := 1, p_flags := 0\<rparr>) st'"
  shows "packet st2 (Some p) (p # ys) \<and> map (len_of st2) (p # ys) = pool_need c layer len \<and>
    (\<forall>a \<in> set (p # ys). pool_pbuf c st2 a)"
proof -
  let ?B = "PBUF_POOL_BUFSIZE_ALIGNED c" and ?off = "align c (header_offset c layer)"
  have fits: "?off < ?B" by (rule header_fits [OF c])
  have lp: "len_of st2 p = min len (?B - ?off)" "p_payload (pbufs st2 p) = p + SIZEOF_STRUCT_PBUF c + ?off"
    "p_type (pbufs st2 p) = PBUF_POOL"
    by (simp_all add: st2_def fp first_pbuf_def)
  have need: "pool_need c layer len = len_of st2 p # tl (pool_need c layer len)"
    by (simp add: pool_need_def Let_def lp)
  have "fresh c st2 a k" if "fresh c st' a k" "a \<in> set ys" for a k
    using that py by (auto simp: fresh_def st2_def)
  with fy have all: "list_all2 (fresh c st2) ys (tl (pool_need c layer len))"
    by (metis (mono_tags, lifting) list.rel_mono_strong)
  then have "map (len_of st2) ys = tl (pool_need c layer len)"
    by (induction rule: list_all2_induct) (auto simp: fresh_def)
  then have map: "map (len_of st2) (p # ys) = pool_need c layer len" using need by simp
  have "sum_list (pool_need c layer len) = len"
    using sum_pool_lens [of ?B "len - min len (?B - ?off)"] fits by (simp add: pool_need_def Let_def)
  then have "total st2 (p # ys) = len" unfolding total_def map .
  moreover have "chain (links st2) (Some p) (p # ys)"
    using bld by (subst chain_same_links [of _ _ st']) (auto simp: building_def st2_def)
  moreover have "tots st2 (p # ys)"
    using bld by (subst tots_cong [of _ _ st']) (auto simp: building_def tots_plus_0 st2_def)
  ultimately have "packet st2 (Some p) (p # ys)" using len by (simp add: packet_def)
  moreover have "pool_pbuf c st2 p" using lp fits by (auto simp: pool_pbuf_def st2_def)
  moreover have "pool_pbuf c st2 a" if a: "a \<in> set ys" for a
  proof -
    from a all obtain k where "fresh c st2 a k" "k \<in> set (tl (pool_need c layer len))"
      by (metis in_set_conv_nth list_all2_lengthD list_all2_nthD nth_mem)
    moreover have "tl (pool_need c layer len) = pool_lens ?B (len - min len (?B - ?off))"
      by (simp add: pool_need_def Let_def)
    ultimately show ?thesis using pool_lens_le [of k ?B] by (auto simp: pool_pbuf_def fresh_def)
  qed
  ultimately show ?thesis using map by auto
qed

lemma alloc_pool_spec:
  fixes layer :: pbuf_layer
  assumes c: "pbuf_cfg_ok c" and env: "quiet env" and ready: "pool_ready c st fl" and len: "len < 65536"
  defines "es \<equiv> fl MEMP_PBUF_POOL" and "n \<equiv> length (pool_need c layer len)"
  shows "\<exists>st'. if n \<le> length es
    then pbuf_alloc c env layer len PBUF_POOL st = Some (Some (hd es), st') \<and>
      packet st' (Some (hd es)) (take n es) \<and> map (len_of st') (take n es) = pool_need c layer len \<and>
      (\<forall>a \<in> set (take n es). pool_pbuf c st' a) \<and>
      pools_ok (pbuf_pools st') (fl(MEMP_PBUF_POOL := drop n es)) \<and>
      payload_bytes st' = payload_bytes st \<and> (\<forall>a. a \<notin> set (take n es) \<longrightarrow> pbufs st' a = pbufs st a)
    else pbuf_alloc c env layer len PBUF_POOL st = Some (None, st') \<and>
      pools_ok (pbuf_pools st') (fl(MEMP_PBUF_POOL := rev es)) \<and>
      payload_bytes st' = payload_bytes st \<and> no_custom st' (set es) \<and>
      (\<forall>a. a \<notin> set es \<longrightarrow> pbufs st' a = pbufs st a)"
proof (cases es)
  case Nil
  from ready have "memp_malloc MEMP_PBUF_POOL (pbuf_pools st) = (None, pbuf_pools st)"
    using memp_malloc_empty [of _ fl] Nil by (simp add: pool_ready_def es_def)
  with pool_is_empty_quiet [OF env, of st] Nil ready show ?thesis
    by (auto simp: n_def pool_need_def Let_def pbuf_alloc_def alloc_pool_def pool_ready_def es_def fun_upd_idem
      no_custom_def)
next
  case (Cons p es')
  let ?B = "PBUF_POOL_BUFSIZE_ALIGNED c"
  let ?k = "len - min len (?B - align c (header_offset c layer))"
  have fle: "fl MEMP_PBUF_POOL = p # es'" using Cons by (simp add: es_def)
  from alloc_first [OF c ready fle, of layer len env] obtain pools where
    bld: "building (first_pbuf c layer len p pools st) p [p] ?k (fl(MEMP_PBUF_POOL := es'))"
    and nc: "no_custom (first_pbuf c layer len p pools st) (set es')" and dis: "p \<notin> set es'"
    and eq: "pbuf_alloc c env layer len PBUF_POOL st =
      (case pool_tail c env p p ?k (first_pbuf c layer len p pools st) of
         None \<Rightarrow> None | Some (None, st) \<Rightarrow> Some (None, st)
       | Some (Some p, st) \<Rightarrow> Some (Some p, upd_pbuf p (\<lambda>b. b\<lparr>p_ref := 1, p_flags := 0\<rparr>) st))" by blast
  define st1 where "st1 = first_pbuf c layer len p pools st"
  have frame1: "payload_bytes st1 = payload_bytes st" "\<And>a. a \<noteq> p \<Longrightarrow> pbufs st1 a = pbufs st a"
    by (simp_all add: st1_def first_pbuf_def)
  have need: "tl (pool_need c layer len) = pool_lens ?B ?k" "n = Suc (length (pool_lens ?B ?k))"
    by (simp_all add: n_def pool_need_def Let_def)
  let ?m = "length (pool_lens ?B ?k)"
  have "?k < 65536" "0 < ?B" using len header_fits [OF c, of layer] by simp_all
  from pool_tail_spec [OF env this(2) bld fun_upd_same this(1) nc, folded st1_def] obtain st' where st': "if ?m \<le> length es'
    then pool_tail c env p p ?k st1 = Some (Some p, st') \<and>
      building st' p ([p] @ take ?m es') 0 (fl(MEMP_PBUF_POOL := drop ?m es')) \<and>
      list_all2 (fresh c st') (take ?m es') (pool_lens ?B ?k) \<and> only_links [p] (take ?m es') st1 st'
    else pool_tail c env p p ?k st1 = Some (None, st') \<and>
      pools_ok (pbuf_pools st') (fl(MEMP_PBUF_POOL := rev ([p] @ es'))) \<and>
      payload_bytes st' = payload_bytes st1 \<and> no_custom st' (set ([p] @ es')) \<and>
      (\<forall>a. a \<notin> set ([p] @ es') \<longrightarrow> pbufs st' a = pbufs st1 a)"
    by (simp only: Let_def fun_upd_upd last_ConsL) blast
  show ?thesis
  proof (cases "?m \<le> length es'")
    case False
    with st' frame1 show ?thesis by (intro exI [of _ st']) (simp add: need Cons eq [folded st1_def])
  next
    case True
    let ?ys = "take ?m es'"
    from st' True have S: "pool_tail c env p p ?k st1 = Some (Some p, st')"
      "building st' p (p # ?ys) 0 (fl(MEMP_PBUF_POOL := drop ?m es'))"
      "list_all2 (fresh c st') ?ys (tl (pool_need c layer len))" "only_links [p] ?ys st1 st'"
      by (simp_all add: need)
    have py: "p \<notin> set ?ys" using dis by (auto dest: in_set_takeD)
    from S(4) py obtain x where fp: "pbufs st' p = (pbufs (first_pbuf c layer len p pools st) p)\<lparr>p_next := x\<rparr>"
      by (auto simp: only_links_def st1_def)
    have "pbufs st' a = pbufs st a" if "a \<notin> set (p # ?ys)" for a
    proof -
      from S(4) that have "pbufs st' a = (pbufs st1 a)\<lparr>p_next := links st1 a\<rparr>" by (auto simp: only_links_def)
      with that frame1(2) show ?thesis by simp
    qed
    with alloc_done [OF c len S(2) py S(3) fp] S(1,2,4) frame1 True show ?thesis
      by (intro exI [of _ "upd_pbuf p (\<lambda>b. b\<lparr>p_ref := 1, p_flags := 0\<rparr>) st'"])
        (simp add: need Cons eq [folded st1_def] building_def only_links_def)
  qed
qed

section \<open>Shrinking\<close>

definition cut_tot :: "nat \<Rightarrow> pbuf \<Rightarrow> pbuf" where
  "cut_tot d b = b\<lparr>p_tot_len := (p_tot_len b + 65536 - d) mod 65536\<rparr>"

definition skip_state :: "nat \<Rightarrow> nat list \<Rightarrow> pst \<Rightarrow> pst" where
  "skip_state d us st = st\<lparr>pbufs := \<lambda>b. if b \<in> set us then cut_tot d (pbufs st b) else pbufs st b\<rparr>"

lemma skip_state_simps [simp]:
  "len_of (skip_state d us st) b = len_of st b" "links (skip_state d us st) b = links st b"
  "p_payload (pbufs (skip_state d us st) b) = p_payload (pbufs st b)"
  "p_type (pbufs (skip_state d us st) b) = p_type (pbufs st b)"
  "p_flags (pbufs (skip_state d us st) b) = p_flags (pbufs st b)"
  "p_ref (pbufs (skip_state d us st) b) = p_ref (pbufs st b)"
  "payload_bytes (skip_state d us st) = payload_bytes st" "pbuf_pools (skip_state d us st) = pbuf_pools st"
  "pbuf_heap (skip_state d us st) = pbuf_heap st"
  "b \<notin> set us \<Longrightarrow> pbufs (skip_state d us st) b = pbufs st b"
  by (simp_all add: skip_state_def cut_tot_def)

lemma realloc_skip_spec:
  "chain (links st) p xs \<Longrightarrow> xs \<noteq> [] \<Longrightarrow> n \<le> total st xs \<Longrightarrow>
    \<exists>us a vs r. xs = us @ a # vs \<and> n = total st us + r \<and> r \<le> len_of st a \<and>
      realloc_skip d n p st = Some (a, r, skip_state d us st)"
proof (induction xs arbitrary: p n st)
  case (Cons a xs)
  from Cons.prems(1) have p: "p = Some a" and c: "chain (links st) (links st a) xs" by auto
  have da: "a \<notin> set xs" using chain_distinct [OF Cons.prems(1)] by simp
  show ?case
  proof (cases "n > len_of st a")
    case False
    then have "realloc_skip d n p st = Some (a, n, skip_state d [] st)"
      by (subst realloc_skip.simps) (simp add: p skip_state_def)
    with False show ?thesis by (intro exI [of _ "[]"] exI [of _ a] exI [of _ xs] exI [of _ n]) simp
  next
    case True
    let ?st = "skip_state d [a] st"
    have tot: "total ?st ys = total st ys" for ys by (rule total_cong) simp
    have "xs \<noteq> []" using True Cons.prems(3) by auto
    moreover have "chain (links ?st) (links st a) xs" using c by simp
    moreover have "n - len_of st a \<le> total ?st xs" using Cons.prems(3) by (simp add: tot)
    ultimately have "\<exists>us b vs r. xs = us @ b # vs \<and> n - len_of st a = total ?st us + r \<and> r \<le> len_of ?st b \<and>
      realloc_skip d (n - len_of st a) (links st a) ?st = Some (b, r, skip_state d us ?st)"
      using Cons.IH [of ?st "links st a" "n - len_of st a"] by blast
    then obtain us b vs r where IH: "xs = us @ b # vs" "n - len_of st a = total st us + r" "r \<le> len_of st b"
      "realloc_skip d (n - len_of st a) (links st a) ?st = Some (b, r, skip_state d us ?st)"
      unfolding tot skip_state_simps by blast
    have "a \<notin> set us" using da IH(1) by auto
    then have "skip_state d us ?st = skip_state d (a # us) st"
      by (auto simp: skip_state_def fun_eq_iff intro!: pst.equality)
    moreover have "?st = upd_pbuf a (\<lambda>b. b\<lparr>p_tot_len := (p_tot_len b + 65536 - d) mod 65536\<rparr>) st"
      by (auto simp: skip_state_def cut_tot_def upd_pbuf_def fun_eq_iff intro!: pst.equality)
    ultimately have "realloc_skip d n p st = Some (b, r, skip_state d (a # us) st)"
      using True IH(4) by (subst realloc_skip.simps) (simp add: p)
    with IH True show ?thesis
      by (intro exI [of _ "a # us"] exI [of _ b] exI [of _ vs] exI [of _ r]) simp
  qed
qed simp

lemma contents_take:
  "n = total st us + r \<Longrightarrow> r \<le> len_of st a \<Longrightarrow>
    take n (contents st (us @ a # vs)) = contents st us @ take r (data_of st a)"
  by simp

lemma sole_state:
  "(\<And>a. a \<in> set xs \<Longrightarrow> p_ref (pbufs st a) = p_ref (pbufs st' a)) \<Longrightarrow> sole st xs = sole st' xs"
  unfolding sole_def by (rule takeWhile_cong) simp_all

lemma freed_lists_state:
  assumes "\<And>a. a \<in> set xs \<Longrightarrow> pbufs st a = pbufs st' a"
  shows "freed_lists st xs fl = freed_lists st' xs fl"
proof -
  have s: "sole st xs = sole st' xs" by (rule sole_state) (simp add: assms)
  have "filter (in_pool st i) (sole st' xs) = filter (in_pool st' i) (sole st' xs)" for i
    by (rule filter_cong) (auto simp: in_pool_def assms dest!: sole_subset)
  then show ?thesis by (simp add: freed_lists_def s)
qed

text \<open>The last step: the new last pbuf \<open>a\<close> keeps \<open>r\<close> bytes, the pbufs \<open>vs\<close> behind it are freed.\<close>

lemma realloc_last_spec:
  assumes c: "chain (links st) (Some a) (a # vs)" and ty: "p_type (pbufs st a) \<noteq> PBUF_RAM"
    and nc: "no_custom st (set vs)" and refs: "\<forall>b \<in> set vs. 0 < p_ref (pbufs st b) \<and> p_ref (pbufs st b) < 65536"
    and ok: "pools_ok (pbuf_pools st) fl" and dis: "\<forall>i. set vs \<inter> set (fl i) = {}"
  shows "\<exists>st'. realloc_last cf env a r st = Some st' \<and>
    pbufs st' a = (pbufs st a)\<lparr>p_len := r, p_tot_len := r, p_next := None\<rparr> \<and>
    (\<forall>b. b \<noteq> a \<longrightarrow> b \<notin> set vs \<longrightarrow> pbufs st' b = pbufs st b) \<and>
    payload_bytes st' = payload_bytes st \<and> pools_ok (pbuf_pools st') (freed_lists st vs fl)"
proof -
  let ?st = "upd_pbuf a (\<lambda>b. b\<lparr>p_len := r, p_tot_len := r\<rparr>) st"
  from chain_distinct [OF c] have a: "a \<notin> set vs" by simp
  have eq: "realloc_last cf env a r st = (case p_next (pbufs st a) of None \<Rightarrow> Some ?st
      | Some n \<Rightarrow> (case pbuf_free cf env (Some n) ?st of None \<Rightarrow> None
                   | Some (_, st) \<Rightarrow> Some (upd_pbuf a (\<lambda>b. b\<lparr>p_next := None\<rparr>) st)))"
    using ty by (simp add: realloc_last_def Let_def)
  show ?thesis
  proof (cases vs)
    case Nil
    with c have "p_next (pbufs st a) = None" by simp
    with Nil ok show ?thesis by (auto simp: eq freed_lists_def sole_def intro!: exI [of _ ?st])
  next
    case (Cons n ws)
    with c have n: "p_next (pbufs st a) = Some n" and c': "chain (links st) (Some n) vs" by auto
    have same: "pbufs ?st b = pbufs st b" if "b \<in> set vs" for b using that a by auto
    have "chain (links ?st) (Some n) vs" using c' same by (subst chain_same_links [of _ _ st]) auto
    moreover have "no_custom ?st (set vs)" using nc same by (auto simp: no_custom_def)
    ultimately obtain k st' where st': "pbuf_free cf env (Some n) ?st = Some (k, st')" "freed cf ?st vs st'"
      "pools_ok (pbuf_pools st') (freed_lists ?st vs fl)"
      using pbuf_free_loop_spec [of ?st "Some n" vs fl 0 cf env] refs same ok dis
      unfolding pbuf_free_def by auto
    have "a \<notin> set (sole ?st vs)" "\<And>k. a \<notin> set (take 1 (drop k vs))"
      using a sole_subset by (blast, meson in_set_takeD in_set_dropD)
    then have "pbufs st' a = pbufs ?st a" using st'(2) by (simp add: freed_def freed_pbufs_def)
    moreover have "pbufs st' b = pbufs ?st b" if "b \<notin> set vs" for b
    proof -
      have "b \<notin> set (sole ?st vs)" "b \<notin> set (take 1 (drop k vs))" for k
        using that sole_subset by (blast, meson in_set_takeD in_set_dropD)
      then show ?thesis using st'(2) by (simp add: freed_def freed_pbufs_def)
    qed
    moreover have "freed_lists ?st vs fl = freed_lists st vs fl"
      by (rule freed_lists_state) (rule same)
    ultimately show ?thesis using st' n
      by (intro exI [of _ "upd_pbuf a (\<lambda>b. b\<lparr>p_next := None\<rparr>) st'"]) (auto simp: eq freed_def)
  qed
qed

lemma chain_suffix: "chain nx p (us @ a # vs) \<Longrightarrow> chain nx (Some a) (a # vs)"
  using chain_hd by fastforce

lemma chain_cut: "chain nx p (us @ a # vs) \<Longrightarrow> chain (nx(a := None)) p (us @ [a])"
proof (induction us arbitrary: p)
  case (Cons b us)
  moreover from chain_distinct [OF Cons.prems] have "b \<noteq> a" by auto
  ultimately show ?case by simp
qed simp

text \<open>A packet all of whose pbufs can be freed, and are in no pool.\<close>

definition held :: "pst \<Rightarrow> nat list \<Rightarrow> (nat \<Rightarrow> nat list) \<Rightarrow> bool" where
  "held st xs fl \<longleftrightarrow> pools_ok (pbuf_pools st) fl \<and> (\<forall>i. set xs \<inter> set (fl i) = {}) \<and> no_custom st (set xs) \<and>
     (\<forall>a \<in> set xs. 0 < p_ref (pbufs st a) \<and> p_ref (pbufs st a) < 65536)"

lemma realloc_packet:
  assumes pk: "packet st (Some p) xs" and h: "held st xs fl"
    and ty: "\<forall>a \<in> set xs. p_type (pbufs st a) \<noteq> PBUF_RAM" and n: "n < total st xs"
  shows "\<exists>us a vs st'. xs = us @ a # vs \<and> pbuf_realloc c env p n st = Some st' \<and>
    packet st' (Some p) (us @ [a]) \<and> contents st' (us @ [a]) = take n (contents st xs) \<and>
    pools_ok (pbuf_pools st') (freed_lists st vs fl) \<and> payload_bytes st' = payload_bytes st \<and>
    (\<forall>b \<in> set (us @ [a]). p_type (pbufs st' b) = p_type (pbufs st b) \<and> p_flags (pbufs st' b) = p_flags (pbufs st b) \<and>
       p_ref (pbufs st' b) = p_ref (pbufs st b) \<and> p_payload (pbufs st' b) = p_payload (pbufs st b)) \<and>
    (\<forall>b. b \<notin> set xs \<longrightarrow> pbufs st' b = pbufs st b)"
proof -
  let ?d = "total st xs - n"
  from pk have ne: "xs \<noteq> []" by (auto simp: packet_Cons)
  from realloc_skip_spec [OF packetD(1) [OF pk] ne, of n ?d] n
  obtain us a vs r where xs: "xs = us @ a # vs" and r: "n = total st us + r" "r \<le> len_of st a"
    and skip: "realloc_skip ?d n (Some p) st = Some (a, r, skip_state ?d us st)" by auto
  let ?st = "skip_state ?d us st"
  from packetD(4) [OF pk] have a: "a \<notin> set us" "a \<notin> set vs" "set us \<inter> set vs = {}" by (auto simp: xs)
  have same: "pbufs ?st b = pbufs st b" if "b \<in> set vs" for b
    using that a(3) by (intro skip_state_simps(10)) auto
  have "\<exists>st'. realloc_last c env a r ?st = Some st' \<and>
    pbufs st' a = (pbufs ?st a)\<lparr>p_len := r, p_tot_len := r, p_next := None\<rparr> \<and>
    (\<forall>b. b \<noteq> a \<longrightarrow> b \<notin> set vs \<longrightarrow> pbufs st' b = pbufs ?st b) \<and>
    payload_bytes st' = payload_bytes ?st \<and> pools_ok (pbuf_pools st') (freed_lists ?st vs fl)"
    using chain_suffix [of "links st" "Some p" us a vs] packetD(1) [OF pk] h ty
    by (intro realloc_last_spec) (auto simp: xs held_def no_custom_def)
  then obtain st' where last: "realloc_last c env a r ?st = Some st'"
    and pa: "pbufs st' a = (pbufs st a)\<lparr>p_len := r, p_tot_len := r, p_next := None\<rparr>"
    and pb: "\<And>b. b \<noteq> a \<Longrightarrow> b \<notin> set vs \<Longrightarrow> pbufs st' b = pbufs ?st b"
    and rest: "payload_bytes st' = payload_bytes st" "pools_ok (pbuf_pools st') (freed_lists ?st vs fl)"
    using a(1) by auto
  have pu: "pbufs st' b = cut_tot ?d (pbufs st b)" if "b \<in> set us" for b
    using that a pb [of b] by (auto simp: skip_state_def)
  have ch: "chain (links st') (Some p) (us @ [a])"
  proof -
    have "chain ((links st)(a := None)) (Some p) (us @ [a])"
      using packetD(1) [OF pk] unfolding xs by (rule chain_cut)
    moreover have "((links st)(a := None)) b = links st' b" if "b \<in> set (us @ [a])" for b
      using that pa pu a(1) by (auto simp: cut_tot_def)
    ultimately show ?thesis using chain_cong by (metis (no_types, lifting))
  qed
  have lu: "len_of st' b = len_of st b" if "b \<in> set us" for b using pu [OF that] by (simp add: cut_tot_def)
  have la: "len_of st' a = r" using pa by simp
  have tot: "total st' ws = total st ws" if "set ws \<subseteq> set us" for ws
    by (rule total_cong) (use that lu in auto)
  have d: "total st (a # vs) = ?d + r" using r n by (simp add: xs)
  have "set ws \<subseteq> set us \<Longrightarrow> tots st (ws @ a # vs) \<Longrightarrow> total st (ws @ a # vs) < 65536 \<Longrightarrow> tots st' (ws @ [a])" for ws
  proof (induction ws)
    case (Cons b ws)
    have "len_of st b + (total st ws + (?d + r)) + 65536 - ?d = len_of st b + (total st ws + r) + 65536" by simp
    moreover have "len_of st b + (total st ws + r) < 65536" using Cons.prems(3) d by simp
    ultimately have "(len_of st b + (total st ws + (?d + r)) + 65536 - ?d) mod 65536 = len_of st b + (total st ws + r)"
      by (simp only: mod_add_self2 mod_less)
    with Cons d tot [of ws] la lu [of b] pu [of b] show ?case by (simp add: cut_tot_def)
  qed (use pa in simp)
  then have "tots st' (us @ [a])" using packetD(2,3) [OF pk] by (simp add: xs)
  moreover have t: "total st' (us @ [a]) = n" using tot [of us] la r by simp
  ultimately have "packet st' (Some p) (us @ [a])"
    using ch n packetD(3) [OF pk] by (simp add: packet_def)
  moreover have "contents st' (us @ [a]) = take n (contents st xs)"
  proof -
    have "contents st' us = contents st us"
      by (rule contents_cong) (use pu rest in \<open>auto simp: cut_tot_def\<close>)
    moreover have "data_of st' a = take r (data_of st a)"
      using r(2) rest by (simp add: data_of_def load_bytes_def pa take_map)
    ultimately show ?thesis using contents_take [OF r] by (simp add: xs)
  qed
  moreover have "pbuf_realloc c env p n st = Some st'"
    using n skip last tot_len_packet [OF pk] by (simp add: pbuf_realloc_def)
  moreover have "freed_lists ?st vs fl = freed_lists st vs fl" by (rule freed_lists_state) (rule same)
  moreover have "pbufs st' b = pbufs st b" if "b \<notin> set xs" for b
    using that pb [of b] by (simp add: xs)
  ultimately show ?thesis using xs rest pa pu a(1)
    by (intro exI [of _ us] exI [of _ a] exI [of _ vs] exI [of _ st']) (auto simp: cut_tot_def)
qed

section \<open>Properties\<close>

text \<open>A configuration and a state for the witnesses: two elements in the pool.\<close>

definition ex_cfg :: pbuf_cfg where
  "ex_cfg = \<lparr>mcfg = \<lparr>MEM_ALIGNMENT = 4, MEM_SIZE = 1600, MIN_SIZE = 12\<rparr>, ram = 4096,
     PBUF_LINK_HLEN = 14, PBUF_POOL_BUFSIZE = 64\<rparr>"

definition ex_env :: pbuf_env where
  "ex_env = \<lparr>custom_free_function = \<lambda>_ st. st, tcpip_callback = \<lambda>st. (True, st)\<rparr>"

definition ex_pbuf :: "nat option \<Rightarrow> nat \<Rightarrow> nat \<Rightarrow> nat \<Rightarrow> pbuf" where
  "ex_pbuf n pay tot len = \<lparr>p_next = n, p_payload = pay, p_tot_len = tot, p_len = len, p_type = PBUF_POOL,
     p_flags = 0, p_ref = 1\<rparr>"

definition ex_lists :: "nat \<Rightarrow> nat list" where
  "ex_lists = (\<lambda>_. [])(MEMP_PBUF_POOL := [200, 400])"

text \<open>Two pbufs in use, at 600 (linked to the one at 800) and 800, and two free ones.\<close>

definition ex_st :: pst where
  "ex_st = \<lparr>pbufs = (\<lambda>_. ex_pbuf None 0 0 0)(600 := ex_pbuf (Some 800) 616 7 4, 800 := ex_pbuf None 816 3 3),
     payload_bytes = of_nat,
     pbuf_pools = \<lparr>memp_tab = [MEMP_PBUF_POOL \<mapsto> 200], memp_next = [200 \<mapsto> 400]\<rparr>,
     pbuf_heap = \<lparr>mem_next = \<lambda>_. 0, mem_prev = \<lambda>_. 0, mem_used = \<lambda>_. False, lfree = 0, ram_data = \<lambda>_. 0\<rparr>,
     ooseq_pending = False\<rparr>"

lemma ex_facts:
  "pbuf_cfg_ok ex_cfg" "quiet ex_env" "pool_ready ex_cfg ex_st ex_lists" "packet ex_st (Some 600) [600, 800]"
  "held ex_st [600, 800] ex_lists" "total ex_st [600, 800] = 7" "align ex_cfg 16 = 16"
  "PBUF_POOL_BUFSIZE_ALIGNED ex_cfg = 64"
  by (auto simp: pbuf_cfg_ok_def ex_cfg_def align_def LWIP_MEM_ALIGN_SIZE_def PBUF_POOL_BUFSIZE_ALIGNED_def
      quiet_def ex_env_def pool_ready_def pools_ok_def ex_st_def ex_lists_def no_custom_def ex_pbuf_def
      packet_def held_def)

text \<open>Property C13: \<^verbatim>\<open>pbuf_alloc\<close> of type \<^verbatim>\<open>PBUF_POOL\<close> takes as many elements from the pool as the length
  and the layer's header need and builds a packet of exactly that length from them, each pbuf with one
  reference and its data inside its element, leaving all other pbufs alone.  When the pool has too few
  elements the result is NULL and all elements taken are back in the pool.\<close>

theorem pbuf_alloc_pool:
  assumes "pbuf_cfg_ok c" and "quiet env" and "pool_ready c st fl" and "len < 65536"
  shows "\<exists>st'. let es = fl MEMP_PBUF_POOL; n = length (pool_need c layer len) in
    if n \<le> length es
    then pbuf_alloc c env layer len PBUF_POOL st = Some (Some (hd es), st') \<and>
      packet st' (Some (hd es)) (take n es) \<and> total st' (take n es) = len \<and>
      set (take n es) \<subseteq> {a. pool_pbuf c st' a} \<and>
      pools_ok (pbuf_pools st') (fl(MEMP_PBUF_POOL := drop n es)) \<and>
      payload_bytes st' = payload_bytes st \<and> {a. pbufs st' a \<noteq> pbufs st a} \<subseteq> set (take n es)
    else pbuf_alloc c env layer len PBUF_POOL st = Some (None, st') \<and>
      pools_ok (pbuf_pools st') (fl(MEMP_PBUF_POOL := rev es)) \<and>
      payload_bytes st' = payload_bytes st \<and> {a. pbufs st' a \<noteq> pbufs st a} \<subseteq> set es"
proof -
  have "0 < PBUF_POOL_BUFSIZE_ALIGNED c" using header_fits [OF assms(1), of layer] by simp
  then have "sum_list (pool_need c layer len) = len"
    using sum_pool_lens by (simp add: pool_need_def Let_def)
  with alloc_pool_spec [OF assms, of layer] show ?thesis
    by (auto simp: Let_def total_def split: if_splits intro!: exI)
qed

lemma pbuf_alloc_pool_witness:
  "\<exists>st'. pbuf_alloc ex_cfg ex_env PBUF_RAW 100 PBUF_POOL ex_st = Some (Some 200, st') \<and>
     packet st' (Some 200) [200, 400]"
proof -
  have "pool_need ex_cfg PBUF_RAW 100 = [64, 36]"
    by (simp add: pool_need_def header_offset_def ex_facts(8) pool_lens.simps)
      (simp add: align_def ex_cfg_def LWIP_MEM_ALIGN_SIZE_def pool_lens.simps)
  then show ?thesis
    using pbuf_alloc_pool [OF ex_facts(1-3), of 100 PBUF_RAW] by (auto simp: ex_lists_def Let_def)
qed

text \<open>Property C14: \<^verbatim>\<open>pbuf_free\<close> ends, releases exactly the longest prefix of pbufs with a single reference
  to their pools (most recent first) or to the heap, takes one reference from the pbuf behind them,
  changes nothing else, and returns the number of pbufs released (mod 256).\<close>

theorem pbuf_free_correct:
  assumes "chain (links st) p xs" and "held st xs fl"
  shows "\<exists>st'. pbuf_free c env p st = Some (length (sole st xs) mod 256, st') \<and>
    pools_ok (pbuf_pools st') (\<lambda>i. rev (filter (in_pool st i) (sole st xs)) @ fl i) \<and>
    pbuf_heap st' = fold (heap_free c) (filter (in_heap st) (sole st xs)) (pbuf_heap st) \<and>
    pbufs st' = (\<lambda>a. if a \<in> set (take (length (sole st xs) + 1) xs)
      then (pbufs st a)\<lparr>p_ref := p_ref (pbufs st a) - 1\<rparr> else pbufs st a) \<and>
    payload_bytes st' = payload_bytes st"
proof -
  have "sole st xs = take (length (sole st xs)) xs" unfolding sole_def by (rule takeWhile_eq_take)
  then have "set (take (length (sole st xs) + 1) xs) =
      set (sole st xs) \<union> set (take 1 (drop (length (sole st xs)) xs))"
    by (metis set_append take_add)
  then have "freed_pbufs st xs = (\<lambda>a. if a \<in> set (take (length (sole st xs) + 1) xs)
      then (pbufs st a)\<lparr>p_ref := p_ref (pbufs st a) - 1\<rparr> else pbufs st a)"
    by (simp add: freed_pbufs_def fun_eq_iff)
  with pbuf_free_loop_spec [of st p xs fl 0 c env] assms show ?thesis
    by (auto simp: pbuf_free_def held_def freed_def freed_lists_def)
qed

lemma pbuf_free_correct_witness:
  "\<exists>st'. pbuf_free ex_cfg ex_env (Some 600) ex_st = Some (2, st') \<and>
     pools_ok (pbuf_pools st') (ex_lists(MEMP_PBUF_POOL := [800, 600, 200, 400]))"
proof -
  have "sole ex_st [600, 800] = [600, 800]" by (simp add: sole_def ex_st_def ex_pbuf_def)
  moreover have "(\<lambda>i. rev (filter (in_pool ex_st i) [600, 800]) @ ex_lists i) =
      ex_lists(MEMP_PBUF_POOL := [800, 600, 200, 400])"
    by (auto simp: in_pool_def ex_st_def ex_pbuf_def ex_lists_def)
  ultimately show ?thesis
    using pbuf_free_correct [OF packetD(1) [OF ex_facts(4)] ex_facts(5), of ex_cfg ex_env]
    by (auto simp del: filter.simps)
qed

text \<open>Property C15: \<^verbatim>\<open>pbuf_cat\<close> of two packets that share no pbuf and together fit in 65535 bytes makes
  one packet of their contents, in which the \<^verbatim>\<open>tot_len\<close> invariant of \<^verbatim>\<open>pbuf.h\<close> holds.\<close>

theorem pbuf_cat_packet:
  assumes "packet st (Some h) xs" and "packet st (Some t) ys"
    and "set xs \<inter> set ys = {}" and "total st xs + total st ys < 65536"
  shows "\<exists>st'. pbuf_cat h t st = Some st' \<and> packet st' (Some h) (xs @ ys) \<and>
    contents st' (xs @ ys) = contents st xs @ contents st ys \<and> packet st' (Some t) ys"
proof -
  from packet_cat [OF assms] obtain st' where st': "pbuf_cat h t st = Some st'" "packet st' (Some h) (xs @ ys)"
    "contents st' (xs @ ys) = contents st xs @ contents st ys" "st' = cat_state xs t (total st ys) st" by blast
  obtain zs where "ys = t # zs" using assms(2) by (auto simp: packet_Cons)
  with st'(2) chain_suffix [of "links st'" "Some h" xs t zs] tots_pos [of st' xs ys]
  have "packet st' (Some t) ys" by (simp add: packet_def)
  with st' show ?thesis by blast
qed

lemma pbuf_cat_packet_witness:
  "\<exists>st'. pbuf_cat 600 200 ex_st = Some st' \<and> packet st' (Some 600) [600, 800, 200]"
proof -
  have "packet ex_st (Some 200) [200]" by (simp add: packet_def ex_st_def ex_pbuf_def)
  then show ?thesis
    using pbuf_cat_packet [OF ex_facts(4), of 200 "[200]"] ex_facts(6)
    by (auto simp: ex_st_def ex_pbuf_def)
qed

text \<open>The function \<^verbatim>\<open>pbuf_realloc\<close> shortens a packet to its first \<open>n\<close> bytes: the pbufs they lie in stay, in
  order and with their payloads, the others are released.\<close>

lemma pbuf_realloc_packet:
  assumes "packet st (Some p) xs" and "held st xs fl"
    and "set xs \<subseteq> {a. p_type (pbufs st a) \<noteq> PBUF_RAM}" and "n < total st xs"
  shows "\<exists>k st'. 0 < k \<and> k \<le> length xs \<and> pbuf_realloc c env p n st = Some st' \<and>
    packet st' (Some p) (take k xs) \<and> contents st' (take k xs) = take n (contents st xs) \<and>
    pools_ok (pbuf_pools st') (freed_lists st (drop k xs) fl) \<and> payload_bytes st' = payload_bytes st"
proof -
  from assms(3) have "\<forall>a \<in> set xs. p_type (pbufs st a) \<noteq> PBUF_RAM" by auto
  from realloc_packet [OF assms(1,2) this assms(4), of c env] obtain us a vs st' where
    st': "xs = us @ a # vs" "pbuf_realloc c env p n st = Some st'" "packet st' (Some p) (us @ [a])"
      "contents st' (us @ [a]) = take n (contents st xs)" "pools_ok (pbuf_pools st') (freed_lists st vs fl)"
      "payload_bytes st' = payload_bytes st" by blast
  have "take (Suc (length us)) xs = us @ [a]" "drop (Suc (length us)) xs = vs" by (simp_all add: st'(1))
  with st' show ?thesis by (intro exI [of _ "Suc (length us)"] exI [of _ st']) simp
qed

lemma pbuf_realloc_packet_witness:
  "\<exists>k st'. pbuf_realloc ex_cfg ex_env 600 2 ex_st = Some st' \<and>
     contents st' (take k [600, 800]) = take 2 (contents ex_st [600, 800])"
proof -
  have "set [600, 800] \<subseteq> {a. p_type (pbufs ex_st a) \<noteq> PBUF_RAM}" by (simp add: ex_st_def ex_pbuf_def)
  then show ?thesis
    using pbuf_realloc_packet [OF ex_facts(4,5), of 2 ex_cfg ex_env] ex_facts(6) by auto
qed

end
