(* ===== verification/Pbuf_Data.thy ===== *)
theory Pbuf_Data
  imports Pbuf_Spec
begin

text \<open>
  Reading, writing, comparing and searching the contents of packets: the remaining functions of
  \<^verbatim>\<open>pbuf.c\<close> as functions of the byte list a packet holds.
\<close>

section \<open>Reading and writing\<close>

lemma copy_partial_spec:
  "chain (links st) p xs \<Longrightarrow>
    copy_partial_loop p len offset out st = Some (out @ take len (drop offset (contents st xs)))"
proof (induction xs arbitrary: p len offset out)
  case Nil
  then show ?case by (subst copy_partial_loop.simps) simp
next
  case (Cons a xs)
  then have p: "p = Some a" and c: "chain (links st) (links st a) xs" by auto
  show ?case
  proof (cases "len = 0 \<or> offset \<noteq> 0 \<and> offset \<ge> len_of st a")
    case True
    then show ?thesis using Cons.IH [OF c] by (subst copy_partial_loop.simps) (auto simp: p)
  next
    case False
    let ?n = "min (len_of st a - offset) len"
    have "load_bytes (p_payload (pbufs st a) + offset) ?n (payload_bytes st) = take len (drop offset (data_of st a))"
      by (rule nth_equalityI) (auto simp: load_bytes_def data_of_def add.assoc)
    moreover have "offset \<le> len_of st a" using False by auto
    moreover have "len - ?n = len - (len_of st a - offset)" by linarith
    ultimately show ?thesis using Cons.IH [OF c, of "len - ?n" 0] False
      by (subst copy_partial_loop.simps) (auto simp: p Let_def)
  qed
qed

lemma find_pos_spec:
  "chain (links st) p xs \<Longrightarrow>
    (\<exists>us a vs k. find_pos p pos st = Some (Some a, k) \<and> xs = us @ a # vs \<and> pos = total st us + k \<and> k < len_of st a) \<or>
    total st xs \<le> pos \<and> (\<exists>k. find_pos p pos st = Some (None, k))"
proof (induction xs arbitrary: p pos)
  case Nil
  then show ?case by (simp add: find_pos.simps)
next
  case (Cons a xs)
  then have p: "p = Some a" and c: "chain (links st) (links st a) xs" by auto
  show ?case
  proof (cases "len_of st a \<le> pos")
    case False
    then have "find_pos p pos st = Some (Some a, pos)" by (subst find_pos.simps) (simp add: p)
    with False show ?thesis by (intro disjI1 exI [of _ "[]"] exI [of _ a] exI [of _ xs] exI [of _ pos]) simp
  next
    case True
    then have s: "find_pos p pos st = find_pos (links st a) (pos - len_of st a) st"
      by (subst find_pos.simps) (simp add: p)
    from Cons.IH [OF c, of "pos - len_of st a"] show ?thesis
    proof (elim disjE exE conjE)
      fix us b vs k assume "find_pos (links st a) (pos - len_of st a) st = Some (Some b, k)"
        "xs = us @ b # vs" "pos - len_of st a = total st us + k" "k < len_of st b"
      with True show ?thesis
        by (intro disjI1 exI [of _ "a # us"] exI [of _ b] exI [of _ vs] exI [of _ k]) (simp add: s)
    qed (use True s in auto)
  qed
qed

lemma pbuf_get_at_spec:
  assumes "chain (links st) p xs"
  shows "pbuf_get_at p n st = Some (if n < total st xs then contents st xs ! n else 0)"
  using find_pos_spec [OF assms, of n]
proof (elim disjE exE conjE)
  fix us a vs k assume "find_pos p n st = Some (Some a, k)" "xs = us @ a # vs" "n = total st us + k" "k < len_of st a"
  then show ?thesis by (simp add: pbuf_get_at_def nth_append data_of_def load_bytes_def)
qed (simp add: pbuf_get_at_def)

lemma store_bytes_nth:
  "store_bytes d xs m i = (if d \<le> i \<and> i < d + length xs then xs ! (i - d) else m i)"
proof (induction d xs m rule: store_bytes.induct)
  case (2 d x xs m)
  show ?case unfolding store_bytes.simps 2 by (cases "i = d") (auto simp: nth_Cons')
qed auto

definition region :: "pst \<Rightarrow> nat \<Rightarrow> nat set" where
  "region st a = {p_payload (pbufs st a)..<p_payload (pbufs st a) + len_of st a}"

definition separate :: "pst \<Rightarrow> nat list \<Rightarrow> bool" where
  "separate st xs \<longleftrightarrow> (\<forall>a \<in> set xs. \<forall>b \<in> set xs. a \<noteq> b \<longrightarrow> region st a \<inter> region st b = {})"

lemma data_region: "(\<And>i. i \<in> region st a \<Longrightarrow> payload_bytes st i = payload_bytes st' i) \<Longrightarrow>
    pbufs st' a = pbufs st a \<Longrightarrow> data_of st' a = data_of st a"
  by (auto simp: data_of_def load_bytes_def region_def)

lemma data_write:
  assumes "length xs \<le> len_of st a"
  shows "data_of (write_bytes (p_payload (pbufs st a)) xs st) a = xs @ drop (length xs) (data_of st a)"
  using assms
  by (intro nth_equalityI)
    (auto simp: data_of_def load_bytes_def write_bytes_def store_bytes_nth nth_append)

lemma take_loop_spec:
  "chain (links st) p xs \<Longrightarrow> separate st xs \<Longrightarrow> length data \<le> total st xs \<Longrightarrow>
    \<exists>st'. take_loop p data st = Some st' \<and> pbufs st' = pbufs st \<and>
      contents st' xs = data @ drop (length data) (contents st xs) \<and>
      (\<forall>i. (\<forall>a \<in> set xs. i \<notin> region st a) \<longrightarrow> payload_bytes st' i = payload_bytes st i)"
proof (induction xs arbitrary: p data st)
  case Nil
  then show ?case by (simp add: take_loop.simps)
next
  case (Cons a xs)
  then have p: "p = Some a" and c: "chain (links st) (links st a) xs" by auto
  from chain_distinct [OF Cons.prems(1)] have a: "a \<notin> set xs" by simp
  show ?case
  proof (cases "data = []")
    case True
    then show ?thesis by (intro exI [of _ st]) (simp add: take_loop.simps)
  next
    case False
    let ?n = "min (length data) (len_of st a)"
    let ?st = "write_bytes (p_payload (pbufs st a)) (take ?n data) st"
    have pb: "pbufs ?st = pbufs st" by (simp add: write_bytes_def)
    then have reg: "region ?st = region st" by (simp add: region_def fun_eq_iff)
    have tot: "total ?st ys = total st ys" for ys by (rule total_cong) (simp add: pb)
    have "chain (links ?st) (links st a) xs" using c by (simp add: pb)
    moreover have "separate ?st xs" using Cons.prems(2) by (simp add: separate_def reg)
    moreover have "length (drop ?n data) \<le> total ?st xs" using Cons.prems(3) by (auto simp: tot)
    ultimately obtain st' where st': "take_loop (links st a) (drop ?n data) ?st = Some st'"
      "pbufs st' = pbufs ?st" "contents st' xs = drop ?n data @ drop (length (drop ?n data)) (contents ?st xs)"
      "\<forall>i. (\<forall>b \<in> set xs. i \<notin> region ?st b) \<longrightarrow> payload_bytes st' i = payload_bytes ?st i"
      using Cons.IH by blast
    have out: "i \<notin> region st b" if "i \<in> region st a" "b \<in> set xs" for i b
      using Cons.prems(2) that a by (fastforce simp: separate_def)
    have wr: "payload_bytes ?st i = payload_bytes st i" if "i \<notin> region st a" for i
      using that by (auto simp: write_bytes_def store_bytes_nth region_def)
    have "data_of st' a = data_of ?st a"
      by (rule data_region) (use st' out reg in auto)
    also have "\<dots> = take ?n data @ drop ?n (data_of st a)" using data_write [of "take ?n data" st a] by simp
    finally have da: "data_of st' a = take ?n data @ drop ?n (data_of st a)" .
    have "data_of ?st b = data_of st b" if "b \<in> set xs" for b
    proof (rule data_region)
      fix i assume "i \<in> region st b"
      with out that have "i \<notin> region st a" by blast
      then show "payload_bytes st i = payload_bytes ?st i" by (rule wr [symmetric])
    qed (simp add: pb)
    then have "contents ?st xs = contents st xs" by (simp add: contents_def cong: map_cong)
    with st'(3) da have "contents st' (a # xs) = data @ drop (length data) (contents st (a # xs))"
      by (cases "length data \<le> len_of st a") simp_all
    moreover have "take_loop p data st = Some st'"
      using False st'(1) by (subst take_loop.simps) (simp add: p Let_def)
    moreover have "\<forall>i. (\<forall>b \<in> set (a # xs). i \<notin> region st b) \<longrightarrow> payload_bytes st' i = payload_bytes st i"
      using st'(4) wr reg by simp
    moreover from st'(2) have "pbufs st' = pbufs st" by (simp only: pb)
    ultimately show ?thesis by blast
  qed
qed

text \<open>Pool elements whose payload areas do not overlap.\<close>

definition spaced :: "pbuf_cfg \<Rightarrow> nat set \<Rightarrow> bool" where
  "spaced c A \<longleftrightarrow> (\<forall>a \<in> A. \<forall>b \<in> A. a < b \<longrightarrow> a + SIZEOF_STRUCT_PBUF c + PBUF_POOL_BUFSIZE_ALIGNED c \<le> b)"

lemma spaced_separate:
  assumes "spaced c A" "set xs \<subseteq> A" "\<forall>a \<in> set xs. pool_pbuf c st a"
  shows "separate st xs"
proof -
  have "region st a \<inter> region st b = {}" if "a \<in> set xs" "b \<in> set xs" "a < b" for a b
  proof -
    from assms(1,2) that have "a + SIZEOF_STRUCT_PBUF c + PBUF_POOL_BUFSIZE_ALIGNED c \<le> b"
      by (auto simp: spaced_def)
    moreover from assms(3) that have "pool_pbuf c st a" "pool_pbuf c st b" by auto
    ultimately show ?thesis by (auto simp: region_def pool_pbuf_def)
  qed
  then show ?thesis
    unfolding separate_def by (metis inf_commute linorder_neqE_nat)
qed

lemma write_bytes_simps [simp]:
  "pbufs (write_bytes d ys st) = pbufs st" "pbuf_pools (write_bytes d ys st) = pbuf_pools st"
  "pbuf_heap (write_bytes d ys st) = pbuf_heap st"
  by (simp_all add: write_bytes_def)

lemma pool_lens_pos: "k \<in> set (pool_lens B n) \<Longrightarrow> 0 < k"
proof (induction B n rule: pool_lens.induct)
  case (1 B n)
  from 1(2) have "\<not> (n = 0 \<or> B = 0)" "k = min n B \<or> k \<in> set (pool_lens B (n - min n B))"
    by (simp_all add: pool_lens.simps [of B n] split: if_splits)
  with 1(1) show ?case by auto
qed

lemma sum_pool_need:
  assumes "pbuf_cfg_ok c"
  shows "sum_list (pool_need c layer n) = n"
proof -
  have "0 < PBUF_POOL_BUFSIZE_ALIGNED c" using header_fits [OF assms, of layer] by simp
  then show ?thesis using sum_pool_lens by (simp add: pool_need_def Let_def)
qed

lemma pool_pbuf_cong: "pbufs st a = pbufs st' a \<Longrightarrow> pool_pbuf c st a = pool_pbuf c st' a"
  by (simp add: pool_pbuf_def)

section \<open>Comparing and searching\<close>

fun mismatch :: "'a list \<Rightarrow> 'a list \<Rightarrow> nat option" where
  "mismatch (x # xs) (y # ys) = (if x \<noteq> y then Some 0 else map_option Suc (mismatch xs ys))"
| "mismatch _ _ = None"

lemma mismatch_None: "length ys \<le> length xs \<Longrightarrow> mismatch xs ys = None \<longleftrightarrow> take (length ys) xs = ys"
  by (induction xs ys rule: mismatch.induct) auto

lemma mismatch_less: "mismatch xs ys = Some k \<Longrightarrow> k < length ys"
  by (induction xs ys arbitrary: k rule: mismatch.induct) (auto split: if_splits)

lemma memcmp_loop_spec:
  assumes "chain (links st) (Some q) ys" "total st ys < 65536"
  shows "start + i + length bs \<le> total st ys \<Longrightarrow> memcmp_loop q start i bs st =
    Some (case mismatch (drop (start + i) (contents st ys)) bs of None \<Rightarrow> 0 | Some k \<Rightarrow> Suc (i + k))"
proof (induction bs arbitrary: i)
  case (Cons b bs)
  then have lt: "start + i < total st ys" by simp
  then have d: "drop (start + i) (contents st ys) = contents st ys ! (start + i) # drop (start + Suc i) (contents st ys)"
    by (simp add: Cons_nth_drop_Suc)
  have "i < 65535" using lt assms(2) by simp
  with pbuf_get_at_spec [OF assms(1), of "start + i"] Cons lt assms(2) show ?case
    by (auto simp: d u16_def split: option.split)
qed simp

lemma pbuf_memcmp_spec:
  assumes "chain (links st) p xs" "total st xs < 65536" "n + length bs \<le> total st xs" "bs \<noteq> []"
  shows "pbuf_memcmp p n bs st =
    Some (case mismatch (drop n (contents st xs)) bs of None \<Rightarrow> 0 | Some k \<Rightarrow> Suc k)"
  using find_pos_spec [OF assms(1), of n]
proof (elim disjE exE conjE)
  fix us a vs k assume f: "find_pos p n st = Some (Some a, k)" "xs = us @ a # vs" "n = total st us + k" "k < len_of st a"
  have "chain (links st) (Some a) (a # vs)" using assms(1) chain_suffix by (simp add: f(2))
  moreover have "total st (a # vs) < 65536" "k + 0 + length bs \<le> total st (a # vs)"
    using assms(2,3) f by simp_all
  ultimately have "memcmp_loop a k 0 bs st =
      Some (case mismatch (drop (k + 0) (contents st (a # vs))) bs of None \<Rightarrow> 0 | Some j \<Rightarrow> Suc (0 + j))"
    by (rule memcmp_loop_spec)
  moreover have "drop n (contents st xs) = drop k (contents st (a # vs))" using f by simp
  ultimately have "memcmp_loop a k 0 bs st =
      Some (case mismatch (drop n (contents st xs)) bs of None \<Rightarrow> 0 | Some j \<Rightarrow> Suc j)"
    by (simp only: add_0_right add_0)
  then show ?thesis using f(1) by (simp add: pbuf_memcmp_def)
next
  assume "total st xs \<le> n"
  with assms(3,4) show ?thesis by (cases bs) simp_all
qed

lemma memfind_step:
  assumes "chain (links st) (Some p) xs" "total st xs < 65536" "mx + length mem = total st xs" "mem \<noteq> []" "i \<le> mx"
  shows "memfind_loop p mem i mx st =
    (case mismatch (drop i (contents st xs)) mem of None \<Rightarrow> Some i | Some k \<Rightarrow> memfind_loop p mem (i + Suc k) mx st)"
proof -
  let ?m = "mismatch (drop i (contents st xs)) mem"
  have c: "pbuf_memcmp (Some p) i mem st = Some (case ?m of None \<Rightarrow> 0 | Some k \<Rightarrow> Suc k)"
    using assms by (intro pbuf_memcmp_spec) auto
  show ?thesis
  proof (cases ?m)
    case None
    with c assms(5) show ?thesis by (subst memfind_loop.simps) simp
  next
    case (Some k)
    then have "k < length mem" by (rule mismatch_less)
    then have "u16 (i + Suc k) = i + Suc k" using assms by (simp add: u16_def)
    with c Some assms(5) show ?thesis by (subst memfind_loop.simps) simp
  qed
qed

lemma memfind_stop: "mx < i \<Longrightarrow> memfind_loop p mem i mx st = Some 0xffff"
  by (subst memfind_loop.simps) simp

lemma memfind_loop_sound:
  assumes "chain (links st) (Some p) xs" "total st xs < 65536" "mx + length mem = total st xs" "mem \<noteq> []"
  shows "\<exists>r. memfind_loop p mem i mx st = Some r \<and>
    (r = 0xffff \<or> i \<le> r \<and> r \<le> mx \<and> take (length mem) (drop r (contents st xs)) = mem)"
proof (induction "Suc mx - i" arbitrary: i rule: less_induct)
  case less
  show ?case
  proof (cases "i \<le> mx")
    case False
    then show ?thesis by (simp add: memfind_stop)
  next
    case True
    with assms mismatch_None [of mem "drop i (contents st xs)"] less.hyps [of "i + Suc k" for k]
    show ?thesis by (fastforce simp: memfind_step [OF assms True] split: option.split)
  qed
qed

section \<open>Properties\<close>

lemma ex_separate: "separate ex_st [600, 800]"
  by (auto simp: separate_def region_def ex_st_def ex_pbuf_def)

text \<open>Property C16: \<^verbatim>\<open>pbuf_take\<close> stores the application's data at the start of a packet that is long enough,
  whatever the lengths of its pbufs, and leaves the rest of the packet and all memory outside the
  pbufs' data; \<^verbatim>\<open>pbuf_copy_partial\<close> reads any part of a packet back, cut off at its end.\<close>

theorem pbuf_take_copy_partial:
  assumes "packet st (Some p) xs" and "separate st xs" and "length data \<le> total st xs"
  shows "\<exists>st'. pbuf_take (Some p) data st = Some (ERR_OK, st') \<and> packet st' (Some p) xs \<and>
    contents st' xs = data @ drop (length data) (contents st xs) \<and>
    {i. payload_bytes st' i \<noteq> payload_bytes st i} \<subseteq> \<Union> (region st ` set xs) \<and>
    pbuf_copy_partial (Some p) n ofs st' = Some (take n (drop ofs (data @ drop (length data) (contents st xs))))"
proof -
  note c = packetD(1) [OF assms(1)]
  from take_loop_spec [OF c assms(2,3)] obtain st' where st': "take_loop (Some p) data st = Some st'"
    "pbufs st' = pbufs st" "contents st' xs = data @ drop (length data) (contents st xs)"
    "\<forall>i. (\<forall>a \<in> set xs. i \<notin> region st a) \<longrightarrow> payload_bytes st' i = payload_bytes st i" by blast
  have "pbuf_take (Some p) data st = Some (ERR_OK, st')"
    using assms(3) tot_len_packet [OF assms(1)] st'(1) by (simp add: pbuf_take_def)
  moreover have "total st' xs = total st xs" by (rule total_cong) (simp add: st'(2))
  moreover have "tots st' xs = tots st xs" by (rule tots_cong) (simp add: st'(2))
  ultimately show ?thesis
    using assms(1) st' copy_partial_spec [of st' "Some p" xs n ofs "[]"]
    by (intro exI [of _ st']) (auto simp: packet_def pbuf_copy_partial_def)
qed

lemma pbuf_take_copy_partial_witness:
  "\<exists>st'. pbuf_take (Some 600) [1, 2, 3, 4, 5] ex_st = Some (ERR_OK, st') \<and>
     pbuf_copy_partial (Some 600) 3 2 st' = Some [3, 4, 5]"
  using pbuf_take_copy_partial [OF ex_facts(4) ex_separate, of "[1, 2, 3, 4, 5]" 3 2] ex_facts(6) by auto

text \<open>\<^verbatim>\<open>pbuf_memfind\<close> ends, and a position it returns is at or behind the start offset and holds
  the bytes searched for.\<close>

lemma pbuf_memfind_sound:
  assumes "packet st (Some p) xs" and "mem \<noteq> []"
  shows "\<exists>r. pbuf_memfind p mem start st = Some r \<and>
    (r = 0xffff \<or> start \<le> r \<and> take (length mem) (drop r (contents st xs)) = mem)"
proof (cases "length mem + start \<le> total st xs")
  case True
  let ?mx = "total st xs - length mem"
  have "total st xs + 65536 - length mem = ?mx + 65536" using True by simp
  then have mx: "(total st xs + 65536 - length mem) mod 65536 = ?mx"
    using packetD(3) [OF assms(1)] by (simp only: mod_add_self2) simp
  have "?mx + length mem = total st xs" using True by simp
  from memfind_loop_sound [OF packetD(1,3) [OF assms(1)] this assms(2), of start] mx True
  show ?thesis by (auto simp: pbuf_memfind_def tot_len_packet [OF assms(1)] Let_def)
next
  case False
  then show ?thesis by (simp add: pbuf_memfind_def tot_len_packet [OF assms(1)] Let_def)
qed

lemma pbuf_memfind_sound_witness:
  "\<exists>r. pbuf_memfind 600 [105, 106] 0 ex_st = Some r"
  using pbuf_memfind_sound [OF ex_facts(4), of "[105, 106]" 0] by auto

text \<open>\<^verbatim>\<open>pbuf_memfind\<close> can miss an occurrence: after a mismatch it goes on behind the differing
  byte.  In a packet with the bytes \<open>aaabaaa\<close> it does not find \<open>aab\<close>, which is at offset 1.\<close>

lemma pbuf_memfind_misses:
  "let st = ex_st\<lparr>payload_bytes := \<lambda>i. if i = 619 then 98 else 97\<rparr> in
   packet st (Some 600) [600, 800] \<and> contents st [600, 800] = [97, 97, 97, 98, 97, 97, 97] \<and>
   pbuf_memfind 600 [97, 97, 98] 0 st = Some 0xffff"
proof -
  let ?st = "ex_st\<lparr>payload_bytes := \<lambda>i. if i = 619 then 98 else 97\<rparr>"
  have pk: "packet ?st (Some 600) [600, 800]" by (simp add: packet_def ex_st_def ex_pbuf_def)
  have ct: "contents ?st [600, 800] = [97, 97, 97, 98, 97, 97, 97]"
    by (simp add: data_of_def load_bytes_def ex_st_def ex_pbuf_def upt_rec)
  have tot: "total ?st [600, 800] = 7" by (simp add: ex_st_def ex_pbuf_def)
  define L where "L i = memfind_loop 600 [97, 97, 98] i 4 ?st" for i
  have st: "L i = (case mismatch (drop i [97, 97, 97, 98, 97, 97, 97 :: u8]) [97, 97, 98] of None \<Rightarrow> Some i
       | Some k \<Rightarrow> L (i + Suc k))" if "i \<le> 4" for i
  proof -
    have "4 + length [97, 97, 98 :: u8] = total ?st [600, 800]" by (simp only: tot) simp
    from memfind_step [OF packetD(1,3) [OF pk] this _ that] show ?thesis unfolding L_def by (simp only: ct) simp
  qed
  have "pbuf_memfind 600 [97, 97, 98] 0 ?st = L 0"
    unfolding pbuf_memfind_def tot_len_packet [OF pk] tot by (simp add: Let_def L_def)
  also have "\<dots> = L 3" by (subst st) (simp_all add: eval_nat_numeral)
  also have "\<dots> = L 4" by (subst st) (simp_all add: eval_nat_numeral)
  also have "\<dots> = L 7" by (subst st) (simp_all add: eval_nat_numeral)
  also have "\<dots> = Some 0xffff" by (simp add: memfind_stop L_def)
  finally show ?thesis using pk ct by simp
qed

end
