(* ===== verification/Slip_Spec.thy ===== *)
theory Slip_Spec
  imports Slip
begin

text \<open>
  Reception of SLIP frames: the invariant \<open>receiving\<close> ties the private data of the interface to
  the bytes received so far, \<open>rx_frame\<close> is what a whole frame does.
\<close>

section \<open>Sending\<close>

lemma output_loop_spec:
  "chain (links st) p xs \<Longrightarrow>
    output_loop p sent st = Some (sent @ concat (map slip_encode (contents st xs)))"
proof (induction xs arbitrary: p sent)
  case Nil
  then show ?case by (simp add: output_loop.simps)
next
  case (Cons a xs)
  then show ?case
    by (subst output_loop.simps) (simp add: data_of_def)
qed

lemma slipif_output_spec:
  "packet st (Some p) xs \<Longrightarrow>
    slipif_output p st = Some (SLIP_END # concat (map slip_encode (contents st xs)) @ [SLIP_END])"
  by (simp add: slipif_output_def output_loop_spec [OF packetD(1)])

section \<open>The buffers of the receiver\<close>

abbreviation rx_size :: "pbuf_cfg \<Rightarrow> nat" where
  "rx_size c \<equiv> PBUF_POOL_BUFSIZE c - PBUF_LINK_HLEN c"

abbreviation rx_need :: "pbuf_cfg \<Rightarrow> nat" where
  "rx_need c \<equiv> length (pool_need c PBUF_LINK (rx_size c))"

text \<open>The position \<open>p\<close>, \<open>i\<close> is where byte number \<open>n\<close> of the packet \<open>xs\<close> goes.\<close>

definition at_byte :: "pst \<Rightarrow> nat list \<Rightarrow> nat \<Rightarrow> nat option \<Rightarrow> nat \<Rightarrow> bool" where
  "at_byte st xs n p i \<longleftrightarrow>
     (case p of
        None \<Rightarrow> n = total st xs \<and> i = 0
      | Some a \<Rightarrow> \<exists>us vs. xs = us @ a # vs \<and> n = total st us + i \<and> i < len_of st a)"

definition receiving ::
    "pbuf_cfg \<Rightarrow> nat \<Rightarrow> slipif_priv \<Rightarrow> pst \<Rightarrow> nat list \<Rightarrow> u8 list \<Rightarrow> (nat \<Rightarrow> nat list) \<Rightarrow> bool" where
  "receiving c N priv st xs data fl \<longleftrightarrow>
     pool_ready c st fl \<and> (\<forall>i. set xs \<inter> set (fl i) = {}) \<and> spaced c (set xs \<union> set (fl MEMP_PBUF_POOL)) \<and>
     (\<forall>a \<in> set xs. pool_pbuf c st a \<and> 0 < len_of st a) \<and>
     packet st (sl_q priv) xs \<and> sl_recved priv = length data \<and> length data \<le> 1501 \<and>
     take (length data) (contents st xs) = data \<and> at_byte st xs (length data) (sl_p priv) (sl_i priv) \<and>
     (\<exists>k. total st xs = k * rx_size c \<and> (N - k) * rx_need c \<le> length (fl MEMP_PBUF_POOL) \<and> k \<le> N)"

lemma receivingD:
  assumes "receiving c N priv st xs data fl"
  shows "pool_ready c st fl" "\<forall>i. set xs \<inter> set (fl i) = {}" "spaced c (set xs \<union> set (fl MEMP_PBUF_POOL))"
    "\<forall>a \<in> set xs. pool_pbuf c st a" "\<forall>a \<in> set xs. 0 < len_of st a" "packet st (sl_q priv) xs"
    "sl_recved priv = length data" "length data \<le> 1501" "take (length data) (contents st xs) = data"
    "at_byte st xs (length data) (sl_p priv) (sl_i priv)"
    "\<exists>k. total st xs = k * rx_size c \<and> (N - k) * rx_need c \<le> length (fl MEMP_PBUF_POOL) \<and> k \<le> N"
  using assms by (auto simp: receiving_def)

lemma total_pos: "\<forall>a \<in> set xs. 0 < len_of st a \<Longrightarrow> xs \<noteq> [] \<Longrightarrow> 0 < total st xs"
  by (cases xs) auto

text \<open>What changing one byte of the data area of one pbuf does to the packet.\<close>

lemma write_contents:
  assumes xs: "xs = us @ a # vs" and d: "distinct xs" and sep: "separate st xs" and i: "i < len_of st a"
  shows "contents (write_bytes (p_payload (pbufs st a) + i) [ch] st) xs = (contents st xs)[total st us + i := ch]"
proof -
  let ?st = "write_bytes (p_payload (pbufs st a) + i) [ch] st"
  have same: "data_of ?st b = data_of st b" if "b \<in> set us \<union> set vs" for b
  proof -
    from that xs d have "b \<noteq> a" "b \<in> set xs" "a \<in> set xs" by auto
    with sep have "region st b \<inter> region st a = {}" unfolding separate_def by blast
    moreover have "p_payload (pbufs st a) + i \<in> region st a" using i by (simp add: region_def)
    ultimately show ?thesis
      by (intro data_region) (auto simp: write_bytes_def region_def)
  qed
  have "contents ?st us = contents st us" "contents ?st vs = contents st vs"
    using same by (auto simp: contents_def intro!: arg_cong [where f = concat])
  moreover have "data_of ?st a = (data_of st a)[i := ch]"
    using i by (intro nth_equalityI) (auto simp: data_of_def load_bytes_def write_bytes_def nth_list_update)
  ultimately show ?thesis using i by (simp add: xs list_update_append)
qed

lemma receiving_store:
  assumes r: "receiving c N priv st xs data fl" and p: "sl_p priv = Some p" and n: "length data \<le> 1500"
    and s: "rx_store ch priv st = (priv', st')"
  shows "receiving c N priv' st' xs (data @ [ch]) fl \<and> sl_state priv' = sl_state priv \<and> sl_q priv' = sl_q priv"
proof -
  note R = receivingD [OF r]
  from R(10) p obtain us vs where xs: "xs = us @ p # vs" and at: "length data = total st us + sl_i priv"
    and i: "sl_i priv < len_of st p" by (auto simp: at_byte_def)
  define s1 where "s1 = write_bytes (p_payload (pbufs st p) + sl_i priv) [ch] st"
  have pb: "pbufs s1 = pbufs st" "pbuf_pools s1 = pbuf_pools st" by (simp_all add: s1_def)
  have sep: "separate st xs" using R(3,4) by (intro spaced_separate) auto
  have ct: "contents s1 xs = (contents st xs)[length data := ch]"
    unfolding s1_def at using xs packetD(4) [OF R(6)] sep i by (rule write_contents)
  have tot: "total s1 ys = total st ys" for ys by (rule total_cong) (simp add: pb)
  have lt: "length data < total st xs" using at i by (simp add: xs)
  have data: "take (length (data @ [ch])) (contents s1 xs) = data @ [ch]"
    using R(9) lt by (simp add: ct take_Suc_conv_app_nth)
  have small: "len_of st p < 65536" "u16 (sl_recved priv + 1) = sl_recved priv + 1"
    using packetD(3) [OF R(6)] n R(7) by (simp_all add: xs u16_def)
  then have ui: "u16 (sl_i priv + 1) = sl_i priv + 1" using i by (simp add: u16_def)
  have links: "chain (links st) (links st p) vs" using packetD(1) [OF R(6)] xs chain_suffix by fastforce
  have e: "st' = s1" using s p n R(7) by (auto simp: rx_store_def SLIP_MAX_SIZE_def Let_def s1_def split: if_splits)
  note s = s [unfolded e]
  have same: "sl_q priv' = sl_q priv \<and> sl_recved priv' = length data + 1 \<and> sl_state priv' = sl_state priv \<and> st' = s1 \<and>
      at_byte st xs (length data + 1) (sl_p priv') (sl_i priv')"
  proof (cases "sl_i priv + 1 < len_of st p")
    case True
    then have "at_byte st xs (length data + 1) (Some p) (sl_i priv + 1)"
      using xs at by (auto simp: at_byte_def)
    with True s p n R(7) ui small(2) show ?thesis
      by (auto simp: rx_store_def SLIP_MAX_SIZE_def Let_def s1_def [symmetric] pb e)
  next
    case False
    then have full: "len_of st p = sl_i priv + 1" using i by simp
    have "at_byte st xs (length data + 1)
      (case links s1 p of Some n \<Rightarrow> if len_of s1 n > 0 then Some n else None | None \<Rightarrow> None) 0"
    proof (cases vs)
      case Nil
      with links at full show ?thesis by (simp add: at_byte_def xs pb)
    next
      case (Cons v vs')
      with links R(5) have "links st p = Some v" "0 < len_of st v" by (auto simp: xs)
      moreover have "at_byte st xs (length data + 1) (Some v) 0"
        unfolding at_byte_def option.case
        by (intro exI [of _ "us @ [p]"] exI [of _ vs']) (use at full calculation in \<open>simp add: xs Cons\<close>)
      ultimately show ?thesis by (simp add: pb)
    qed
    with full s p n R(7) ui small(2) show ?thesis
      by (auto simp: rx_store_def SLIP_MAX_SIZE_def Let_def s1_def [symmetric] pb e)
  qed
  have "packet s1 (sl_q priv) xs"
    using R(6) tot tots_cong [of xs st s1] by (simp add: packet_def pb)
  moreover have "pool_ready c s1 fl" "\<forall>a \<in> set xs. pool_pbuf c s1 a"
    using R(1,4) by (simp_all add: pool_ready_def no_custom_def pool_pbuf_def pb)
  moreover have "at_byte s1 xs m q j = at_byte st xs m q j" for m q j
    by (cases q) (simp_all add: at_byte_def tot pb)
  ultimately show ?thesis
    using same R n data unfolding receiving_def by (simp add: pb tot)
qed


lemma rx_size_pos: "pbuf_cfg_ok c \<Longrightarrow> 0 < rx_size c"
proof -
  assume "pbuf_cfg_ok c"
  then have "\<not> PBUF_POOL_BUFSIZE c \<le> PBUF_LINK_HLEN c + 40"
    using align_mono_lt [of "PBUF_POOL_BUFSIZE c" "PBUF_LINK_HLEN c + 40" c]
    by (auto simp: pbuf_cfg_ok_def PBUF_POOL_BUFSIZE_ALIGNED_def)
  then show ?thesis by simp
qed

lemma rx_need_pos:
  assumes "pbuf_cfg_ok c"
  shows "\<forall>k \<in> set (pool_need c PBUF_LINK (rx_size c)). 0 < k"
  using rx_size_pos [OF assms] header_fits [OF assms, of PBUF_LINK]
  by (auto simp: pool_need_def Let_def dest: pool_lens_pos)

text \<open>What \<open>pbuf_alloc\<close> gives, and the buffers behind those the packet has.\<close>

lemma rx_pbuf_alloc:
  assumes "pbuf_cfg_ok c" "quiet env" "pool_ready c st fl" "PBUF_POOL_BUFSIZE c < 64000"
    and "rx_need c \<le> length (fl MEMP_PBUF_POOL)"
  defines "new \<equiv> take (rx_need c) (fl MEMP_PBUF_POOL)" and "rest \<equiv> drop (rx_need c) (fl MEMP_PBUF_POOL)"
  obtains s1 where "pbuf_alloc c env PBUF_LINK (rx_size c) PBUF_POOL st = Some (Some (hd new), s1)"
    "packet s1 (Some (hd new)) new" "total s1 new = rx_size c"
    "\<forall>a \<in> set new. pool_pbuf c s1 a \<and> 0 < len_of s1 a"
    "pools_ok (pbuf_pools s1) (fl(MEMP_PBUF_POOL := rest))" "payload_bytes s1 = payload_bytes st"
    "\<And>a. a \<notin> set new \<Longrightarrow> pbufs s1 a = pbufs st a"
proof -
  from assms(4) have "rx_size c < 65536" by simp
  from alloc_pool_spec [OF assms(1-3) this, of PBUF_LINK] assms(5) obtain s1 where s1:
    "pbuf_alloc c env PBUF_LINK (rx_size c) PBUF_POOL st = Some (Some (hd (fl MEMP_PBUF_POOL)), s1)"
    "packet s1 (Some (hd (fl MEMP_PBUF_POOL))) new" "map (len_of s1) new = pool_need c PBUF_LINK (rx_size c)"
    "\<forall>a \<in> set new. pool_pbuf c s1 a" "pools_ok (pbuf_pools s1) (fl(MEMP_PBUF_POOL := rest))"
    "payload_bytes s1 = payload_bytes st" "\<forall>a. a \<notin> set new \<longrightarrow> pbufs s1 a = pbufs st a"
    unfolding new_def rest_def by (simp only: if_True) blast
  moreover from s1(2) have "hd (fl MEMP_PBUF_POOL) = hd new" by (auto simp: packet_Cons)
  moreover have "total s1 new = rx_size c"
    unfolding total_def s1(3) by (rule sum_pool_need [OF assms(1)])
  moreover have "\<forall>a \<in> set new. 0 < len_of s1 a"
    using rx_need_pos [OF assms(1)] unfolding s1(3) [symmetric] by simp
  ultimately show ?thesis using that by auto
qed

lemma rx_cat:
  assumes "packet st q xs" and "packet st (Some p) ys" and "set xs \<inter> set ys = {}" and "total st xs + total st ys < 65536"
  obtains s2 where "(case q of Some q \<Rightarrow> pbuf_cat q p st | None \<Rightarrow> Some st) = Some s2"
    "packet s2 (case q of Some q \<Rightarrow> Some q | None \<Rightarrow> Some p) (xs @ ys)"
    "contents s2 (xs @ ys) = contents st xs @ contents st ys" "pbuf_pools s2 = pbuf_pools st"
    "\<And>a. len_of s2 a = len_of st a" "\<And>a. p_flags (pbufs s2 a) = p_flags (pbufs st a)"
    "\<And>a. pool_pbuf c s2 a = pool_pbuf c st a"
proof (cases q)
  case None
  with assms(1) have "xs = []" by simp
  with None assms(2) that [of st] show ?thesis by simp
next
  case (Some h)
  with packet_cat [of st h xs p ys] assms obtain s2 where "pbuf_cat h p st = Some s2" "packet s2 (Some h) (xs @ ys)"
    "contents s2 (xs @ ys) = contents st xs @ contents st ys" "s2 = cat_state xs p (total st ys) st" by auto
  with Some that [of s2] show ?thesis by (auto simp: cat_state_def pool_pbuf_def)
qed

text \<open>A new buffer, the pool still having enough elements.\<close>

lemma receiving_alloc:
  assumes c: "pbuf_cfg_ok c" and env: "quiet env" and small: "PBUF_POOL_BUFSIZE c < 64000"
    and r: "receiving c N priv st xs data fl" and n: "sl_p priv \<noteq> None \<or> length data < N * rx_size c"
  shows "\<exists>priv' st' xs' fl'. rx_alloc c env priv st = Some (True, priv', st') \<and>
    receiving c N priv' st' xs' data fl' \<and> sl_p priv' \<noteq> None \<and> sl_state priv' = sl_state priv"
proof (cases "sl_p priv")
  case (Some p)
  with r show ?thesis by (auto simp: rx_alloc_def)
next
  case None
  note R = receivingD [OF r]
  define new rest where "new = take (rx_need c) (fl MEMP_PBUF_POOL)" and "rest = drop (rx_need c) (fl MEMP_PBUF_POOL)"
  from R(10) None have at: "length data = total st xs" by (simp add: at_byte_def)
  from R(11) obtain k where k: "total st xs = k * rx_size c" "(N - k) * rx_need c \<le> length (fl MEMP_PBUF_POOL)" "k \<le> N"
    by auto
  from n None k at have kN: "k < N" by auto
  then have "N - k = Suc (N - Suc k)" by simp
  then have room: "rx_need c \<le> length (fl MEMP_PBUF_POOL)" "(N - Suc k) * rx_need c \<le> length rest"
    using k(2) by (simp_all add: rest_def)
  from rx_pbuf_alloc [OF c env R(1) small room(1)] obtain s1 where
    al: "pbuf_alloc c env PBUF_LINK (rx_size c) PBUF_POOL st = Some (Some (hd new), s1)"
    and pk: "packet s1 (Some (hd new)) new" and t1: "total s1 new = rx_size c"
    and pp: "\<forall>a \<in> set new. pool_pbuf c s1 a \<and> 0 < len_of s1 a"
    and po: "pools_ok (pbuf_pools s1) (fl(MEMP_PBUF_POOL := rest))"
    and fr: "payload_bytes s1 = payload_bytes st" "\<And>a. a \<notin> set new \<Longrightarrow> pbufs s1 a = pbufs st a"
    unfolding new_def rest_def by blast
  have parts: "fl MEMP_PBUF_POOL = new @ rest" by (simp add: new_def rest_def)
  have "distinct (new @ rest)" using R(1) unfolding parts [symmetric] by (simp add: pool_ready_def pools_ok_def)
  then have dj: "set new \<inter> set rest = {}" by simp
  have xe: "set xs \<inter> set new = {}" "set xs \<inter> set rest = {}" using R(2) [THEN spec, of MEMP_PBUF_POOL] by (auto simp: parts)
  have old: "pbufs s1 a = pbufs st a" if "a \<in> set xs" for a using that xe fr(2) by blast
  have pk0: "packet s1 (sl_q priv) xs"
    using R(6) old total_cong [of xs st s1] tots_cong [of xs st s1] chain_same_links [of xs st s1 "sl_q priv"]
    by (simp add: packet_def)
  have t0: "total s1 xs = total st xs" by (rule total_cong) (simp add: old)
  have c0: "contents s1 xs = contents st xs" by (rule contents_cong) (simp_all add: old fr(1))
  have "total s1 xs + total s1 new < 65536" using t0 t1 at R(8) small by simp
  from rx_cat [OF pk0 pk xe(1) this, of c] obtain s2 where
    s2: "(case sl_q priv of Some q \<Rightarrow> pbuf_cat q (hd new) s1 | None \<Rightarrow> Some s1) = Some s2"
    "packet s2 (case sl_q priv of Some q \<Rightarrow> Some q | None \<Rightarrow> Some (hd new)) (xs @ new)"
    "contents s2 (xs @ new) = contents s1 xs @ contents s1 new" "pbuf_pools s2 = pbuf_pools s1"
    "\<And>a. len_of s2 a = len_of s1 a" "\<And>a. p_flags (pbufs s2 a) = p_flags (pbufs s1 a)"
    "\<And>a. pool_pbuf c s2 a = pool_pbuf c s1 a" by blast
  have tt: "total s2 ys = total s1 ys" for ys by (rule total_cong) (simp add: s2(5))
  let ?q = "case sl_q priv of Some q \<Rightarrow> Some q | None \<Rightarrow> Some (hd new)"
  let ?fl = "fl(MEMP_PBUF_POOL := rest)"
  have ne: "new \<noteq> []" using pk by (auto simp: packet_Cons)
  have "rx_alloc c env priv st = Some (True, priv\<lparr>sl_p := Some (hd new), sl_q := ?q\<rparr>, s2)"
    using None al s2(1) by (cases "sl_q priv") (auto simp: rx_alloc_def)
  moreover have "receiving c N (priv\<lparr>sl_p := Some (hd new), sl_q := ?q\<rparr>) s2 (xs @ new) data ?fl"
  proof -
    have "pbufs s1 a = pbufs st a" if "a \<in> set rest" for a using that dj fr(2) by blast
    then have "pool_ready c s2 ?fl"
      using R(1) po s2(4,6) by (auto simp: pool_ready_def no_custom_def parts)
    moreover have "\<forall>i. set (xs @ new) \<inter> set (?fl i) = {}"
    proof
      fix i
      have "set (fl MEMP_PBUF_POOL) \<inter> set (fl i) = {}" if "i \<noteq> MEMP_PBUF_POOL"
        using R(1) that by (auto simp: pool_ready_def pools_ok_def)
      then show "set (xs @ new) \<inter> set (?fl i) = {}" using R(2) [THEN spec, of i] dj xe by (auto simp: parts)
    qed
    moreover have "spaced c (set (xs @ new) \<union> set (?fl MEMP_PBUF_POOL))"
      using R(3) by (simp add: parts Un_assoc)
    moreover have "\<forall>a \<in> set (xs @ new). pool_pbuf c s2 a \<and> 0 < len_of s2 a"
      using R(4,5) pp old pool_pbuf_cong [OF old, of _ c] by (auto simp: s2(5,7))
    moreover have "take (length data) (contents s2 (xs @ new)) = data"
      unfolding s2(3) using R(9) by (simp add: c0 at)
    moreover have "at_byte s2 (xs @ new) (length data) (Some (hd new)) (sl_i priv)"
      unfolding at_byte_def option.case
      by (intro exI [of _ xs] exI [of _ "tl new"])
        (use R(10) None pp ne tt t0 s2(5) in \<open>simp add: at_byte_def\<close>)
    moreover have "\<exists>k. total s2 (xs @ new) = k * rx_size c \<and> (N - k) * rx_need c \<le> length (?fl MEMP_PBUF_POOL) \<and> k \<le> N"
      by (intro exI [of _ "Suc k"]) (use tt t0 t1 k(1) room(2) kN in simp)
    ultimately show ?thesis
      using R(7,8) s2(2) unfolding receiving_def by simp
  qed
  ultimately show ?thesis by auto
qed


section \<open>A frame\<close>

lemma rx_store_full: "1500 < sl_recved priv \<Longrightarrow> rx_store ch priv st = (priv, st)"
  by (simp add: rx_store_def SLIP_MAX_SIZE_def split: option.split)

text \<open>One byte of data, escaped or not.\<close>

lemma receiving_data:
  assumes c: "pbuf_cfg_ok c" "quiet env" "PBUF_POOL_BUFSIZE c < 64000"
    and r: "receiving c N priv st xs (take 1501 data) fl" and n: "length (take 1501 data) < N * rx_size c"
  shows "\<exists>priv' st' xs' fl'. rx_data c env ch priv st = Some (None, priv', st') \<and>
    receiving c N priv' st' xs' (take 1501 (data @ [ch])) fl' \<and> sl_state priv' = sl_state priv"
proof -
  from receiving_alloc [OF c r] n obtain p1 s1 x1 f1 where
    al: "rx_alloc c env priv st = Some (True, p1, s1)" "receiving c N p1 s1 x1 (take 1501 data) f1"
      "sl_p p1 \<noteq> None" "sl_state p1 = sl_state priv" by blast
  obtain p2 s2 where st: "rx_store ch p1 s1 = (p2, s2)" by (cases "rx_store ch p1 s1")
  show ?thesis
  proof (cases "length data \<le> 1500")
    case True
    with receiving_store [of c N p1 s1 x1 data f1 _ ch p2 s2] al(2,3) st
    have "receiving c N p2 s2 x1 (take 1501 (data @ [ch])) f1 \<and> sl_state p2 = sl_state p1" by auto
    with al st show ?thesis by (auto simp: rx_data_def)
  next
    case False
    with receivingD(7) [OF al(2)] have "rx_store ch p1 s1 = (p1, s1)" by (simp add: rx_store_full)
    with al False show ?thesis by (auto simp: rx_data_def)
  qed
qed

text \<open>A whole run of bytes: the packets that \<^verbatim>\<open>slipif_rxbyte\<close> returns.\<close>

fun rx_bytes :: "pbuf_cfg \<Rightarrow> pbuf_env \<Rightarrow> u8 list \<Rightarrow> slipif_priv \<Rightarrow> pst \<Rightarrow> (nat option list \<times> slipif_priv \<times> pst) option" where
  "rx_bytes c env [] priv st = Some ([], priv, st)"
| "rx_bytes c env (ch # chs) priv st =
     (case slipif_rxbyte c env ch priv st of
        None \<Rightarrow> None
      | Some (p, priv, st) \<Rightarrow>
          (case rx_bytes c env chs priv st of None \<Rightarrow> None | Some (ps, r) \<Rightarrow> Some (p # ps, r)))"

lemma rx_bytes_append:
  "rx_bytes c env (xs @ ys) priv st =
     (case rx_bytes c env xs priv st of
        None \<Rightarrow> None
      | Some (ps, priv, st) \<Rightarrow>
          (case rx_bytes c env ys priv st of None \<Rightarrow> None | Some (qs, r) \<Rightarrow> Some (ps @ qs, r)))"
  by (induction xs arbitrary: priv st) (auto split: option.split)

lemma rx_encoded:
  assumes "sl_state priv = SLIP_RECV_NORMAL" "rx_data c env ch priv st = Some (None, priv', st')"
  shows "rx_bytes c env (slip_encode ch) priv st = Some (replicate (length (slip_encode ch)) None, priv', st')"
proof -
  have e: "priv\<lparr>sl_state := SLIP_RECV_NORMAL\<rparr> = priv" using assms(1) by simp
  show ?thesis
    using assms by (auto simp: e slip_encode_def slipif_rxbyte_def unescape_def slip_chars)
qed

lemma rx_encoded_data:
  assumes c: "pbuf_cfg_ok c" "quiet env" "PBUF_POOL_BUFSIZE c < 64000"
  shows "receiving c N priv st xs (take 1501 data) fl \<Longrightarrow> sl_state priv = SLIP_RECV_NORMAL \<Longrightarrow>
    length (data @ ys) \<le> N * rx_size c \<Longrightarrow>
    \<exists>priv' st' xs' fl'. rx_bytes c env (concat (map slip_encode ys)) priv st =
        Some (replicate (length (concat (map slip_encode ys))) None, priv', st') \<and>
      receiving c N priv' st' xs' (take 1501 (data @ ys)) fl' \<and> sl_state priv' = SLIP_RECV_NORMAL"
proof (induction ys arbitrary: priv st xs fl data)
  case Nil
  then show ?case by auto
next
  case (Cons y ys)
  from Cons.prems(3) have "length (take 1501 data) < N * rx_size c" by simp
  from receiving_data [OF c Cons.prems(1) this, of y] Cons.prems(2) obtain p1 s1 x1 f1 where
    d: "rx_data c env y priv st = Some (None, p1, s1)" "receiving c N p1 s1 x1 (take 1501 (data @ [y])) f1"
      "sl_state p1 = SLIP_RECV_NORMAL" by auto
  from Cons.IH [OF d(2,3)] Cons.prems(3) obtain p2 s2 x2 f2 where
    r: "rx_bytes c env (concat (map slip_encode ys)) p1 s1 =
        Some (replicate (length (concat (map slip_encode ys))) None, p2, s2)"
      "receiving c N p2 s2 x2 (take 1501 (data @ y # ys)) f2" "sl_state p2 = SLIP_RECV_NORMAL" by auto
  with rx_encoded [OF Cons.prems(2) d(1)] show ?case
    by (auto simp: rx_bytes_append replicate_add)
qed

lemma rx_end:
  assumes r: "receiving c N priv st xs data fl" and s: "sl_state priv = SLIP_RECV_NORMAL" and d: "data \<noteq> []"
  shows "\<exists>q st' ys. slipif_rxbyte c env SLIP_END priv st =
      Some (Some q, priv\<lparr>sl_p := None, sl_q := None, sl_i := 0, sl_recved := 0\<rparr>, st') \<and>
    packet st' (Some q) ys \<and> contents st' ys = data \<and> set ys \<subseteq> set xs"
proof -
  note R = receivingD [OF r]
  have le: "length data \<le> total st xs"
    using arg_cong [OF R(9), of length] by simp
  then have "xs \<noteq> []" using d by auto
  then obtain q where q: "sl_q priv = Some q" using R(6) by (cases "sl_q priv") auto
  have "\<exists>st' ys. pbuf_realloc c env q (length data) st = Some st' \<and> packet st' (Some q) ys \<and>
    contents st' ys = data \<and> set ys \<subseteq> set xs"
  proof (cases "length data < total st xs")
    case True
    have "held st xs fl"
      using R(1,2,4) by (auto simp: held_def pool_ready_def no_custom_def pool_pbuf_def)
    moreover have "\<forall>a \<in> set xs. p_type (pbufs st a) \<noteq> PBUF_RAM" using R(4) by (simp add: pool_pbuf_def)
    ultimately obtain us a vs st' where "xs = us @ a # vs" "pbuf_realloc c env q (length data) st = Some st'"
      "packet st' (Some q) (us @ [a])" "contents st' (us @ [a]) = take (length data) (contents st xs)"
      using realloc_packet [of st q xs fl "length data" c env] R(6) q True by auto
    then show ?thesis using R(9) by (intro exI [of _ st'] exI [of _ "us @ [a]"]) auto
  next
    case False
    then have "pbuf_realloc c env q (length data) st = Some st"
      using tot_len_packet [of st q xs] R(6) q le by (simp add: pbuf_realloc_def)
    moreover have "contents st xs = data" using False le R(9) by simp
    ultimately show ?thesis using R(6) q by auto
  qed
  then show ?thesis using s q d R(7) by (auto simp: slipif_rxbyte_def slip_chars)
qed


definition slip_idle :: "slipif_priv \<Rightarrow> bool" where
  "slip_idle priv \<longleftrightarrow> sl_p priv = None \<and> sl_q priv = None \<and> sl_state priv = SLIP_RECV_NORMAL \<and>
     sl_i priv = 0 \<and> sl_recved priv = 0"

lemma receiving_idle:
  "slip_idle priv \<Longrightarrow> pool_ready c st fl \<Longrightarrow> spaced c (set (fl MEMP_PBUF_POOL)) \<Longrightarrow>
    N * rx_need c \<le> length (fl MEMP_PBUF_POOL) \<Longrightarrow> receiving c N priv st [] [] fl"
  by (auto simp: slip_idle_def receiving_def at_byte_def)

lemma rx_start: "slip_idle priv \<Longrightarrow> slipif_rxbyte c env SLIP_END priv st = Some (None, priv, st)"
  by (simp add: slip_idle_def slipif_rxbyte_def)

lemma last_pbuf_spec: "chain (links st) (Some p) xs \<Longrightarrow> last_pbuf p st = Some (last xs)"
proof (induction xs arbitrary: p)
  case (Cons a xs)
  then show ?case
    by (subst last_pbuf.simps) (cases xs; auto)
qed simp

text \<open>A list whose last element points back to the first one has no end.\<close>

lemma no_end_shorter:
  assumes "chain nx (Some z) (us @ zs)" "zs \<noteq> []" "chain (nx(last (us @ zs) := Some z)) (Some (hd zs)) ys"
  shows "\<exists>ws. chain (nx(last (us @ zs) := Some z)) (Some z) ws \<and> length ws < length ys"
  using assms
proof (induction zs arbitrary: us ys)
  case (Cons a zs)
  let ?nx = "nx(last (us @ a # zs) := Some z)"
  from Cons.prems(3) obtain ys' where ys: "ys = a # ys'" "chain ?nx (?nx a) ys'"
    by (cases ys) (auto simp del: fun_upd_apply last.simps)
  show ?case
  proof (cases zs)
    case Nil
    with ys show ?thesis by (auto simp del: fun_upd_apply simp: fun_upd_same)
  next
    case (Cons b bs)
    from chain_suffix [OF Cons.prems(1)] Cons have nxa: "nx a = Some b" by simp
    have "distinct (us @ a # zs)" by (rule chain_distinct [OF Cons.prems(1)])
    then have "a \<noteq> last (us @ a # zs)" using Cons by auto
    then have "?nx a = Some b" using nxa by simp
    with ys(2) have "chain ?nx (Some b) ys'" by (simp only:)
    moreover have e: "(us @ [a]) @ zs = us @ a # zs" "hd zs = b" "zs \<noteq> []" using Cons by simp_all
    ultimately obtain ws where "chain ?nx (Some z) ws" "length ws < length ys'"
      using Cons.IH [of "us @ [a]" ys', unfolded e(1,2), OF Cons.prems(1) e(3)] by blast
    moreover from this(2) have "length ws < length ys" by (simp add: ys(1))
    ultimately show ?thesis by blast
  qed
qed simp

lemma no_end: "chain nx (Some z) zs \<Longrightarrow> \<not> chain (nx(last zs := Some z)) (Some z) ys"
proof (induction ys rule: length_induct)
  case (1 ys)
  show ?case
  proof
    assume a: "chain (nx(last zs := Some z)) (Some z) ys"
    obtain zs' where "zs = z # zs'" using 1(2) by (cases zs) auto
    with no_end_shorter [of nx z "[]" zs ys] 1(2) a obtain ws where
      "chain (nx(last zs := Some z)) (Some z) ws" "length ws < length ys" by auto
    with 1 show False by blast
  qed
qed

section \<open>Properties\<close>

text \<open>Property C17: the bytes that \<^verbatim>\<open>slipif_output\<close> sends for a packet, given to \<^verbatim>\<open>slipif_rxbyte\<close> of an idle
  receiver with enough pool elements, give no packet before the last byte and then one packet with the
  same contents, cut off after 1501 bytes (one more than \<^verbatim>\<open>SLIP_MAX_SIZE\<close>); the receiver is idle again.\<close>

theorem slip_roundtrip:
  assumes "pbuf_cfg_ok c" and "quiet env" and "PBUF_POOL_BUFSIZE c < 64000"
    and "packet sender (Some p) xs" and "0 < total sender xs"
    and "slip_idle priv" and "pool_ready c st fl" and "spaced c (set (fl MEMP_PBUF_POOL))"
    and "total sender xs \<le> N * rx_size c" and "N * rx_need c \<le> length (fl MEMP_PBUF_POOL)"
  shows "\<exists>sent q priv' st' ys. slipif_output p sender = Some sent \<and>
    rx_bytes c env sent priv st = Some (replicate (length sent - 1) None @ [Some q], priv', st') \<and>
    packet st' (Some q) ys \<and> contents st' ys = take 1501 (contents sender xs) \<and> slip_idle priv'"
proof -
  let ?data = "contents sender xs"
  let ?enc = "concat (map slip_encode ?data)"
  from rx_encoded_data [OF assms(1-3), of N priv st "[]" "[]" fl ?data] receiving_idle [OF assms(6-8,10)] assms(6,9)
  obtain p1 s1 x1 f1 where r: "rx_bytes c env ?enc priv st = Some (replicate (length ?enc) None, p1, s1)"
    "receiving c N p1 s1 x1 (take 1501 ?data) f1" "sl_state p1 = SLIP_RECV_NORMAL"
    by (auto simp: slip_idle_def)
  have "?data \<noteq> []" using assms(5) by (metis length_contents less_irrefl list.size(3))
  then have "take 1501 ?data \<noteq> []" by simp
  from rx_end [OF r(2,3) this, of env] obtain q st' ys where
    "slipif_rxbyte c env SLIP_END p1 s1 = Some (Some q, p1\<lparr>sl_p := None, sl_q := None, sl_i := 0, sl_recved := 0\<rparr>, st')"
    "packet st' (Some q) ys" "contents st' ys = take 1501 ?data" by blast
  moreover from this r rx_start [OF assms(6), of c env st] have
    "rx_bytes c env (SLIP_END # ?enc @ [SLIP_END]) priv st =
      Some (replicate (Suc (length ?enc)) None @ [Some q], p1\<lparr>sl_p := None, sl_q := None, sl_i := 0, sl_recved := 0\<rparr>, st')"
    by (simp add: rx_bytes_append)
  moreover have "slipif_output p sender = Some (SLIP_END # ?enc @ [SLIP_END])" by (rule slipif_output_spec [OF assms(4)])
  ultimately show ?thesis using r(3) by (auto simp: slip_idle_def simp del: rx_bytes.simps replicate_Suc)
qed

lemma slip_roundtrip_witness:
  "\<exists>sent q priv' st' ys. slipif_output 600 ex_st = Some sent \<and>
     rx_bytes ex_cfg ex_env sent \<lparr>sl_p = None, sl_q = None, sl_state = SLIP_RECV_NORMAL, sl_i = 0, sl_recved = 0,
       sl_rxpackets = None\<rparr> ex_st = Some (replicate (length sent - 1) None @ [Some q], priv', st') \<and>
     contents st' ys = contents ex_st [600, 800]"
proof -
  let ?priv = "\<lparr>sl_p = None, sl_q = None, sl_state = SLIP_RECV_NORMAL, sl_i = 0, sl_recved = 0, sl_rxpackets = None\<rparr>"
  have s: "rx_size ex_cfg = 50" by (simp add: ex_cfg_def)
  have "pool_need ex_cfg PBUF_LINK 50 = [48, 2]"
    by (simp add: pool_need_def header_offset_def ex_facts(8) pool_lens.simps)
      (simp add: align_def ex_cfg_def LWIP_MEM_ALIGN_SIZE_def pool_lens.simps)
  then have n: "length (pool_need ex_cfg PBUF_LINK 50) = 2" by simp
  have sp: "spaced ex_cfg (set (ex_lists MEMP_PBUF_POOL))"
    by (auto simp: spaced_def ex_lists_def SIZEOF_STRUCT_PBUF_def ex_facts(7,8))
  have idle: "slip_idle ?priv" by (simp add: slip_idle_def)
  have small: "PBUF_POOL_BUFSIZE ex_cfg < 64000" by (simp add: ex_cfg_def)
  have all: "take 1501 (contents ex_st [600, 800]) = contents ex_st [600, 800]"
    by (rule take_all) (simp add: ex_facts(6) del: contents_simps total_simps)
  have "0 < total ex_st [600, 800]" "total ex_st [600, 800] \<le> 1 * rx_size ex_cfg"
    "1 * rx_need ex_cfg \<le> length (ex_lists MEMP_PBUF_POOL)"
    by (simp_all only: ex_facts(6) s n ex_lists_def) simp_all
  from slip_roundtrip [OF ex_facts(1,2) small ex_facts(4) this(1) idle ex_facts(3) sp this(2,3)]
  show ?thesis unfolding all by blast
qed

text \<open>With \<^verbatim>\<open>SLIP_RX_QUEUE\<close>, a packet completed while another one waits is lost: the queue stays
  as it is and the last pbuf of the new packet is linked to its own first one, a chain without end.\<close>

lemma slip_rx_queue_loses:
  assumes "slipif_rxbyte c env ch priv st = Some (Some p, priv1, st1)" and "chain (links st1) (Some p) xs"
    and "sl_rxpackets priv1 = Some old"
  shows "\<exists>st'. slipif_rxbyte_enqueue c env True ch priv st = Some (priv1, st') \<and>
    st' = upd_pbuf (last xs) (\<lambda>b. b\<lparr>p_next := Some p\<rparr>) st1 \<and> {ys. chain (links st') (Some p) ys} = {}"
proof -
  let ?st' = "upd_pbuf (last xs) (\<lambda>b. b\<lparr>p_next := Some p\<rparr>) st1"
  have "links ?st' = (links st1)(last xs := Some p)" by auto
  then have "chain (links ?st') (Some p) ys = chain ((links st1)(last xs := Some p)) (Some p) ys" for ys
    by (rule arg_cong)
  then have "{ys. chain (links ?st') (Some p) ys} = {}" using no_end [OF assms(2)] by blast
  moreover have "slipif_rxbyte_enqueue c env True ch priv st = Some (priv1, ?st')"
    using assms last_pbuf_spec [OF assms(2)] by (simp add: slipif_rxbyte_enqueue_def)
  ultimately show ?thesis by blast
qed

lemma slip_rx_queue_loses_witness:
  "\<exists>priv priv' st'. slipif_rxbyte_enqueue ex_cfg ex_env True SLIP_END priv ex_st = Some (priv', st') \<and>
     sl_rxpackets priv' = Some 400 \<and> {ys. chain (links st') (Some 600) ys} = {}"
proof -
  let ?priv = "\<lparr>sl_p = None, sl_q = Some 600, sl_state = SLIP_RECV_NORMAL, sl_i = 0, sl_recved = 7, sl_rxpackets = Some 400\<rparr>"
  have "pbuf_realloc ex_cfg ex_env 600 7 ex_st = Some ex_st"
    using tot_len_packet [OF ex_facts(4)] ex_facts(6) by (simp add: pbuf_realloc_def)
  then have "slipif_rxbyte ex_cfg ex_env SLIP_END ?priv ex_st =
      Some (Some 600, ?priv\<lparr>sl_p := None, sl_q := None, sl_i := 0, sl_recved := 0\<rparr>, ex_st)"
    by (simp add: slipif_rxbyte_def)
  from slip_rx_queue_loses [OF this packetD(1) [OF ex_facts(4)], of 400]
  obtain st' where "slipif_rxbyte_enqueue ex_cfg ex_env True SLIP_END ?priv ex_st =
      Some (?priv\<lparr>sl_p := None, sl_q := None, sl_i := 0, sl_recved := 0\<rparr>, st')"
    "{ys. chain (links st') (Some 600) ys} = {}" by auto
  then show ?thesis by (intro exI conjI) (assumption, simp, assumption)
qed

end
