(* ===== verification/Eth.thy ===== *)
theory Eth
  imports Pbuf_Data
begin

text \<open>
  The Ethernet driver of the board: the descriptor functions of
  \<^verbatim>\<open>STM32F4x7_ETH_Driver/src/stm32f4x7_eth.c\<close>, the packet functions and interrupt handler of
  \<^verbatim>\<open>lwip/ports/lan8720/lan8720.c\<close> and the input path of \<^verbatim>\<open>lwip/src/netif/ethernetif.c\<close>.

  Descriptors are a map from their addresses, 32 bytes apart (\<^verbatim>\<open>USE_ENHANCED_DMA_DESCRIPTORS\<close>);
  the frame buffers are in the same memory as the payloads of the pbufs.  Of the registers there
  are those the functions use: bits of \<^verbatim>\<open>DMASR\<close> are cleared by writing ones, and any write to
  \<^verbatim>\<open>DMARPDR\<close> or \<^verbatim>\<open>DMATPDR\<close> makes the DMA look at its descriptors again.  What the DMA does with
  the descriptors it owns is described by \<open>dma_fills\<close> in \<open>Eth_Spec\<close>.
\<close>

section \<open>Descriptors and registers\<close>

record dma_desc =
  Status :: u32
  ControlBufferSize :: u32
  Buffer1Addr :: nat
  Buffer2NextDescAddr :: nat

record rx_infos =
  FS_Rx_Desc :: "nat option"
  LS_Rx_Desc :: "nat option"
  Seg_Count :: u32

record eth =
  descs :: "nat \<Rightarrow> dma_desc"
  DMARxDescToGet :: nat
  DMATxDescToSet :: nat
  DMA_RX_FRAME_infos :: rx_infos
  DMASR :: u32
  DMAOMR :: u32
  MACCR :: u32
  DMARDLAR :: nat
  DMATDLAR :: nat
  rx_resumed :: bool
  tx_resumed :: bool
  mac_addr :: "nat \<Rightarrow> u32"

definition ETH_DMARxDesc_OWN :: u32 where "ETH_DMARxDesc_OWN = 0x80000000"

definition ETH_DMARxDesc_FL :: u32 where "ETH_DMARxDesc_FL = 0x3FFF0000"

definition ETH_DMARxDesc_ES :: u32 where "ETH_DMARxDesc_ES = 0x8000"

definition ETH_DMARxDesc_FS :: u32 where "ETH_DMARxDesc_FS = 0x200"

definition ETH_DMARxDesc_LS :: u32 where "ETH_DMARxDesc_LS = 0x100"

definition ETH_DMARxDesc_RCH :: u32 where "ETH_DMARxDesc_RCH = 0x4000"

definition ETH_DMARxDesc_DIC :: u32 where "ETH_DMARxDesc_DIC = 0x80000000"

definition ETH_DMATxDesc_OWN :: u32 where "ETH_DMATxDesc_OWN = 0x80000000"

definition ETH_DMATxDesc_IC :: u32 where "ETH_DMATxDesc_IC = 0x40000000"

definition ETH_DMATxDesc_LS :: u32 where "ETH_DMATxDesc_LS = 0x20000000"

definition ETH_DMATxDesc_FS :: u32 where "ETH_DMATxDesc_FS = 0x10000000"

definition ETH_DMATxDesc_TCH :: u32 where "ETH_DMATxDesc_TCH = 0x00100000"

definition ETH_DMATxDesc_TBS1 :: u32 where "ETH_DMATxDesc_TBS1 = 0x1FFF"

definition ETH_DMASR_RBUS :: u32 where "ETH_DMASR_RBUS = 0x80"

definition ETH_DMASR_TBUS :: u32 where "ETH_DMASR_TBUS = 0x4"

definition ETH_BUF_SIZE :: nat where "ETH_BUF_SIZE = 1524"

definition SIZEOF_DMADESC :: nat where "SIZEOF_DMADESC = 32"

lemmas rx_flags = ETH_DMARxDesc_OWN_def ETH_DMARxDesc_FL_def ETH_DMARxDesc_ES_def ETH_DMARxDesc_FS_def
  ETH_DMARxDesc_LS_def ETH_DMARxDesc_RCH_def

lemmas tx_flags = ETH_DMATxDesc_OWN_def ETH_DMATxDesc_LS_def ETH_DMATxDesc_FS_def ETH_DMATxDesc_TCH_def
  ETH_DMATxDesc_TBS1_def ETH_DMATxDesc_IC_def

definition upd_desc :: "nat \<Rightarrow> (dma_desc \<Rightarrow> dma_desc) \<Rightarrow> eth \<Rightarrow> eth" where
  "upd_desc a f e = e\<lparr>descs := (descs e)(a := f (descs e a))\<rparr>"

definition rx_desc :: "eth \<Rightarrow> dma_desc" where
  "rx_desc e = descs e (DMARxDescToGet e)"

definition next_rx :: "eth \<Rightarrow> eth" where
  "next_rx e = e\<lparr>DMARxDescToGet := Buffer2NextDescAddr (rx_desc e)\<rparr>"

text \<open>Writing \<open>v\<close> to \<^verbatim>\<open>DMASR\<close> clears the bits of \<open>v\<close>.\<close>

definition write_DMASR :: "u32 \<Rightarrow> eth \<Rightarrow> eth" where
  "write_DMASR v e = e\<lparr>DMASR := DMASR e AND NOT v\<rparr>"

text \<open>When the DMA is suspended for lack of descriptors: clear the flag and resume.\<close>

definition resume_rx :: "eth \<Rightarrow> eth" where
  "resume_rx e = (if DMASR e AND ETH_DMASR_RBUS \<noteq> 0 then (write_DMASR ETH_DMASR_RBUS e)\<lparr>rx_resumed := True\<rparr> else e)"

definition resume_tx :: "eth \<Rightarrow> eth" where
  "resume_tx e = (if DMASR e AND ETH_DMASR_TBUS \<noteq> 0 then (write_DMASR ETH_DMASR_TBUS e)\<lparr>tx_resumed := True\<rparr> else e)"

section \<open>Setting up the rings\<close>

definition rx_entry :: "nat \<Rightarrow> nat \<Rightarrow> nat \<Rightarrow> nat \<Rightarrow> dma_desc" where
  "rx_entry tab buff n i =
     \<lparr>Status = ETH_DMARxDesc_OWN, ControlBufferSize = ETH_DMARxDesc_RCH OR of_nat ETH_BUF_SIZE,
      Buffer1Addr = buff + i * ETH_BUF_SIZE,
      Buffer2NextDescAddr = (if i < n - 1 then tab + SIZEOF_DMADESC * (i + 1) else tab)\<rparr>"

fun rx_init_loop :: "nat \<Rightarrow> nat \<Rightarrow> nat \<Rightarrow> nat list \<Rightarrow> eth \<Rightarrow> eth" where
  "rx_init_loop tab buff n [] e = e"
| "rx_init_loop tab buff n (i # is) e =
     rx_init_loop tab buff n is (upd_desc (tab + SIZEOF_DMADESC * i) (\<lambda>_. rx_entry tab buff n i) e)"

definition ETH_DMARxDescChainInit :: "nat \<Rightarrow> nat \<Rightarrow> nat \<Rightarrow> eth \<Rightarrow> eth" where
  "ETH_DMARxDescChainInit tab buff n e =
     (rx_init_loop tab buff n [0..<n] (e\<lparr>DMARxDescToGet := tab\<rparr>))\<lparr>DMARDLAR := tab\<rparr>"

definition tx_entry :: "nat \<Rightarrow> nat \<Rightarrow> nat \<Rightarrow> nat \<Rightarrow> dma_desc \<Rightarrow> dma_desc" where
  "tx_entry tab buff n i d =
     d\<lparr>Status := ETH_DMATxDesc_TCH, Buffer1Addr := buff + i * ETH_BUF_SIZE,
       Buffer2NextDescAddr := (if i < n - 1 then tab + SIZEOF_DMADESC * (i + 1) else tab)\<rparr>"

fun tx_init_loop :: "nat \<Rightarrow> nat \<Rightarrow> nat \<Rightarrow> nat list \<Rightarrow> eth \<Rightarrow> eth" where
  "tx_init_loop tab buff n [] e = e"
| "tx_init_loop tab buff n (i # is) e =
     tx_init_loop tab buff n is (upd_desc (tab + SIZEOF_DMADESC * i) (tx_entry tab buff n i) e)"

definition ETH_DMATxDescChainInit :: "nat \<Rightarrow> nat \<Rightarrow> nat \<Rightarrow> eth \<Rightarrow> eth" where
  "ETH_DMATxDescChainInit tab buff n e =
     (tx_init_loop tab buff n [0..<n] (e\<lparr>DMATxDescToSet := tab\<rparr>))\<lparr>DMATDLAR := tab\<rparr>"

section \<open>Receiving\<close>

definition ETH_GetDMARxDescFrameLength :: "dma_desc \<Rightarrow> u32" where
  "ETH_GetDMARxDescFrameLength d = drop_bit 16 (Status d AND ETH_DMARxDesc_FL)"

definition ETH_GetRxPktSize :: "dma_desc \<Rightarrow> u32" where
  "ETH_GetRxPktSize d =
     (if Status d AND ETH_DMARxDesc_OWN = 0 \<and> Status d AND ETH_DMARxDesc_ES = 0 \<and> Status d AND ETH_DMARxDesc_LS \<noteq> 0
      then ETH_GetDMARxDescFrameLength d else 0)"

text \<open>\<^verbatim>\<open>FrameTypeDef\<close>: length, buffer and descriptor, which may be null.\<close>

record frame =
  f_length :: u32
  f_buffer :: nat
  f_descriptor :: "nat option"

definition ETH_Rx_Packet :: "eth \<Rightarrow> frame \<times> eth" where
  "ETH_Rx_Packet e =
     (let d = rx_desc e
      in if Status d AND ETH_DMARxDesc_OWN \<noteq> 0 then
           (\<lparr>f_length = 0, f_buffer = 0, f_descriptor = None\<rparr>, resume_rx e)
         else
           let ok = (Status d AND ETH_DMARxDesc_ES = 0 \<and> Status d AND ETH_DMARxDesc_LS \<noteq> 0 \<and> Status d AND ETH_DMARxDesc_FS \<noteq> 0)
           in (\<lparr>f_length = (if ok then drop_bit 16 (Status d AND ETH_DMARxDesc_FL) - 4 else 0),
                f_buffer = (if ok then Buffer1Addr d else 0), f_descriptor = Some (DMARxDescToGet e)\<rparr>,
               next_rx e))"

text \<open>\<^verbatim>\<open>low_level_input\<close>: the frame goes into a chain of pool pbufs; the descriptor goes back to the DMA.
  \<open>None\<close> is the store through a null descriptor.\<close>

partial_function (option) copy_frame :: "nat option \<Rightarrow> nat \<Rightarrow> pst \<Rightarrow> pst option" where
  "copy_frame q src st =
     (case q of
        None \<Rightarrow> Some st
      | Some a \<Rightarrow> copy_frame (p_next (pbufs st a)) (src + p_len (pbufs st a))
          (write_bytes (p_payload (pbufs st a)) (load_bytes src (p_len (pbufs st a)) (payload_bytes st)) st))"

definition give_back :: "frame \<Rightarrow> eth \<Rightarrow> eth option" where
  "give_back f e =
     (case f_descriptor f of
        None \<Rightarrow> None
      | Some a \<Rightarrow> Some (resume_rx (upd_desc a (\<lambda>d. d\<lparr>Status := ETH_DMARxDesc_OWN\<rparr>) e)))"

definition low_level_input :: "pbuf_cfg \<Rightarrow> pbuf_env \<Rightarrow> eth \<Rightarrow> pst \<Rightarrow> (nat option \<times> eth \<times> pst) option" where
  "low_level_input c env e st =
     (let (f, e) = ETH_Rx_Packet e
      in case pbuf_alloc c env PBUF_RAW (unat (ucast (f_length f) :: u16)) PBUF_POOL st of
           None \<Rightarrow> None
         | Some (p, st) \<Rightarrow>
             (case (case p of None \<Rightarrow> Some st | Some a \<Rightarrow> copy_frame (Some a) (f_buffer f) st) of
                None \<Rightarrow> None
              | Some st \<Rightarrow> (case give_back f e of None \<Rightarrow> None | Some e \<Rightarrow> Some (p, e, st))))"

definition ETHTYPE_IP :: nat where "ETHTYPE_IP = 0x0800"

definition ETHTYPE_ARP :: nat where "ETHTYPE_ARP = 0x0806"

text \<open>\<^verbatim>\<open>htons(ethhdr->type)\<close>: bytes 12 and 13 of the frame.\<close>

definition eth_type :: "nat \<Rightarrow> pst \<Rightarrow> nat" where
  "eth_type p st =
     256 * unat (payload_bytes st (p_payload (pbufs st p) + 12)) + unat (payload_bytes st (p_payload (pbufs st p) + 13))"

type_synonym eth_input = "nat \<Rightarrow> pst \<Rightarrow> err_t \<times> pst"

definition free_packet :: "pbuf_cfg \<Rightarrow> pbuf_env \<Rightarrow> nat \<Rightarrow> pst \<Rightarrow> pst option" where
  "free_packet c env p st = (case pbuf_free c env (Some p) st of None \<Rightarrow> None | Some (_, st) \<Rightarrow> Some st)"

definition ethernetif_input :: "pbuf_cfg \<Rightarrow> pbuf_env \<Rightarrow> eth_input \<Rightarrow> eth \<Rightarrow> pst \<Rightarrow> (eth \<times> pst) option" where
  "ethernetif_input c env input e st =
     (case low_level_input c env e st of
        None \<Rightarrow> None
      | Some (None, e, st) \<Rightarrow> Some (e, st)
      | Some (Some p, e, st) \<Rightarrow>
          (case (if eth_type p st \<in> {ETHTYPE_IP, ETHTYPE_ARP}
                 then (case input p st of (ERR_OK, st) \<Rightarrow> Some st | (_, st) \<Rightarrow> free_packet c env p st)
                 else free_packet c env p st) of
             None \<Rightarrow> None
           | Some st \<Rightarrow> Some (e, st)))"

definition lwip_pkt_handle :: "pbuf_cfg \<Rightarrow> pbuf_env \<Rightarrow> eth_input \<Rightarrow> eth \<Rightarrow> pst \<Rightarrow> (eth \<times> pst) option" where
  "lwip_pkt_handle c env input e st = ethernetif_input c env input e st"

definition ETH_DMAClearITPendingBit :: "u32 \<Rightarrow> eth \<Rightarrow> eth" where
  "ETH_DMAClearITPendingBit it e = write_DMASR it e"

partial_function (option) irq_loop :: "pbuf_cfg \<Rightarrow> pbuf_env \<Rightarrow> eth_input \<Rightarrow> eth \<Rightarrow> pst \<Rightarrow> (eth \<times> pst) option" where
  "irq_loop c env input e st =
     (if ETH_GetRxPktSize (rx_desc e) \<noteq> 0 then
        (case lwip_pkt_handle c env input e st of None \<Rightarrow> None | Some (e, st) \<Rightarrow> irq_loop c env input e st)
      else Some (e, st))"

definition ETH_DMA_IT_R :: u32 where "ETH_DMA_IT_R = 0x40"

definition ETH_DMA_IT_NIS :: u32 where "ETH_DMA_IT_NIS = 0x10000"

definition ETH_IRQHandler :: "pbuf_cfg \<Rightarrow> pbuf_env \<Rightarrow> eth_input \<Rightarrow> eth \<Rightarrow> pst \<Rightarrow> (eth \<times> pst) option" where
  "ETH_IRQHandler c env input e st =
     (case irq_loop c env input e st of
        None \<Rightarrow> None
      | Some (e, st) \<Rightarrow> Some (ETH_DMAClearITPendingBit ETH_DMA_IT_NIS (ETH_DMAClearITPendingBit ETH_DMA_IT_R e), st))"

section \<open>Receiving with the functions of the driver\<close>

text \<open>Frames may consist of several segments; \<^verbatim>\<open>ETH_RXBUFNB\<close> is 5.\<close>

definition seg_bits :: "dma_desc \<Rightarrow> bool \<times> bool" where
  "seg_bits d = (Status d AND ETH_DMARxDesc_FS \<noteq> 0, Status d AND ETH_DMARxDesc_LS \<noteq> 0)"

definition upd_infos :: "(rx_infos \<Rightarrow> rx_infos) \<Rightarrow> eth \<Rightarrow> eth" where
  "upd_infos f e = e\<lparr>DMA_RX_FRAME_infos := f (DMA_RX_FRAME_infos e)\<rparr>"

definition ETH_CheckFrameReceived :: "eth \<Rightarrow> bool \<times> eth" where
  "ETH_CheckFrameReceived e =
     (let d = rx_desc e; a = DMARxDescToGet e
      in if Status d AND ETH_DMARxDesc_OWN \<noteq> 0 then (False, e)
         else case seg_bits d of
                (_, True) \<Rightarrow>
                  (True, upd_infos (\<lambda>r. let r = r\<lparr>Seg_Count := Seg_Count r + 1\<rparr>
                                     in r\<lparr>FS_Rx_Desc := (if Seg_Count r = 1 then Some a else FS_Rx_Desc r),
                                          LS_Rx_Desc := Some a\<rparr>) e)
              | (True, False) \<Rightarrow> (False, next_rx (upd_infos (\<lambda>_. \<lparr>FS_Rx_Desc = Some a, LS_Rx_Desc = None, Seg_Count = 1\<rparr>) e))
              | (False, False) \<Rightarrow> (False, next_rx (upd_infos (\<lambda>r. r\<lparr>Seg_Count := Seg_Count r + 1\<rparr>) e)))"

definition ETH_Get_Received_Frame :: "eth \<Rightarrow> (frame \<times> eth) option" where
  "ETH_Get_Received_Frame e =
     (case FS_Rx_Desc (DMA_RX_FRAME_infos e) of
        None \<Rightarrow> None
      | Some fs \<Rightarrow>
          Some (\<lparr>f_length = drop_bit 16 (Status (rx_desc e) AND ETH_DMARxDesc_FL) - 4, f_buffer = Buffer1Addr (descs e fs),
                 f_descriptor = Some fs\<rparr>, next_rx e))"

text \<open>\<open>k\<close> descriptors may still be looked at; \<open>None\<close> is a null first descriptor.\<close>

fun scan_descs :: "nat \<Rightarrow> eth \<Rightarrow> (frame \<times> eth) option" where
  "scan_descs 0 e = Some (\<lparr>f_length = 0, f_buffer = 0, f_descriptor = None\<rparr>, e)"
| "scan_descs (Suc k) e =
     (let d = rx_desc e; a = DMARxDescToGet e
      in if Status d AND ETH_DMARxDesc_OWN \<noteq> 0 then Some (\<lparr>f_length = 0, f_buffer = 0, f_descriptor = None\<rparr>, e)
         else case seg_bits d of
                (True, False) \<Rightarrow> scan_descs k (next_rx (upd_infos (\<lambda>r. r\<lparr>FS_Rx_Desc := Some a, Seg_Count := 1\<rparr>) e))
              | (False, False) \<Rightarrow> scan_descs k (next_rx (upd_infos (\<lambda>r. r\<lparr>Seg_Count := Seg_Count r + 1\<rparr>) e))
              | _ \<Rightarrow>
                  (let e = upd_infos (\<lambda>r. let r = r\<lparr>LS_Rx_Desc := Some a, Seg_Count := Seg_Count r + 1\<rparr>
                                    in r\<lparr>FS_Rx_Desc := (if Seg_Count r = 1 then Some a else FS_Rx_Desc r)\<rparr>) e;
                       infos = DMA_RX_FRAME_infos e; len = drop_bit 16 (Status d AND ETH_DMARxDesc_FL) - 4
                   in if Seg_Count infos > 1 then
                        (case FS_Rx_Desc infos of
                           None \<Rightarrow> None
                         | Some fs \<Rightarrow>
                             Some (\<lparr>f_length = len, f_buffer = Buffer1Addr (descs e fs), f_descriptor = Some fs\<rparr>, next_rx e))
                      else Some (\<lparr>f_length = len, f_buffer = Buffer1Addr d, f_descriptor = FS_Rx_Desc infos\<rparr>, next_rx e)))"

definition ETH_Get_Received_Frame_interrupt :: "eth \<Rightarrow> (frame \<times> eth) option" where
  "ETH_Get_Received_Frame_interrupt e = scan_descs 5 e"

section \<open>Sending\<close>

definition tx_desc :: "eth \<Rightarrow> dma_desc" where
  "tx_desc e = descs e (DMATxDescToSet e)"

definition ETH_GetCurrentTxBuffer :: "eth \<Rightarrow> nat" where
  "ETH_GetCurrentTxBuffer e = Buffer1Addr (tx_desc e)"

definition ETH_Tx_Packet :: "nat \<Rightarrow> eth \<Rightarrow> bool \<times> eth" where
  "ETH_Tx_Packet FrameLength e =
     (if Status (tx_desc e) AND ETH_DMATxDesc_OWN \<noteq> 0 then (False, e)
      else let e = upd_desc (DMATxDescToSet e) (\<lambda>d. d\<lparr>ControlBufferSize := of_nat FrameLength AND ETH_DMATxDesc_TBS1\<rparr>) e;
               e = upd_desc (DMATxDescToSet e) (\<lambda>d. d\<lparr>Status := Status d OR (ETH_DMATxDesc_LS OR ETH_DMATxDesc_FS)\<rparr>) e;
               e = upd_desc (DMATxDescToSet e) (\<lambda>d. d\<lparr>Status := Status d OR ETH_DMATxDesc_OWN\<rparr>) e;
               e = resume_tx e
           in (True, e\<lparr>DMATxDescToSet := Buffer2NextDescAddr (tx_desc e)\<rparr>))"

text \<open>One segment of a frame in several buffers: \<open>i\<close> of \<open>n\<close>.\<close>

definition tx_segment :: "nat \<Rightarrow> nat \<Rightarrow> nat \<Rightarrow> dma_desc \<Rightarrow> dma_desc" where
  "tx_segment FrameLength n i d =
     (let d = d\<lparr>Status := Status d AND NOT (ETH_DMATxDesc_FS OR ETH_DMATxDesc_LS)\<rparr>;
          d = (if i = 0 then d\<lparr>Status := Status d OR ETH_DMATxDesc_FS\<rparr> else d);
          d = d\<lparr>ControlBufferSize := of_nat ETH_BUF_SIZE AND ETH_DMATxDesc_TBS1\<rparr>;
          d = (if i = n - 1 then
                 d\<lparr>Status := Status d OR ETH_DMATxDesc_LS,
                   ControlBufferSize := of_nat (FrameLength - (n - 1) * ETH_BUF_SIZE) AND ETH_DMATxDesc_TBS1\<rparr>
               else d)
      in d\<lparr>Status := Status d OR ETH_DMATxDesc_OWN\<rparr>)"

fun tx_segments :: "nat \<Rightarrow> nat \<Rightarrow> nat list \<Rightarrow> nat \<Rightarrow> eth \<Rightarrow> nat \<times> eth" where
  "tx_segments FrameLength n [] a e = (a, e)"
| "tx_segments FrameLength n (i # is) a e =
     (let e = upd_desc a (tx_segment FrameLength n i) e
      in tx_segments FrameLength n is (Buffer2NextDescAddr (descs e a)) e)"

definition ETH_Prepare_Transmit_Descriptors :: "nat \<Rightarrow> eth \<Rightarrow> bool \<times> eth" where
  "ETH_Prepare_Transmit_Descriptors FrameLength e =
     (if Status (tx_desc e) AND ETH_DMATxDesc_OWN \<noteq> 0 then (False, e)
      else let buf_count = (if FrameLength > ETH_BUF_SIZE
                            then FrameLength div ETH_BUF_SIZE + (if FrameLength mod ETH_BUF_SIZE \<noteq> 0 then 1 else 0) else 1);
               (a, e) = (if buf_count = 1 then
                           let a = DMATxDescToSet e;
                               e = upd_desc a (\<lambda>d. d\<lparr>Status := Status d OR (ETH_DMATxDesc_FS OR ETH_DMATxDesc_LS)\<rparr>) e;
                               e = upd_desc a (\<lambda>d. d\<lparr>ControlBufferSize := of_nat FrameLength AND ETH_DMATxDesc_TBS1\<rparr>) e;
                               e = upd_desc a (\<lambda>d. d\<lparr>Status := Status d OR ETH_DMATxDesc_OWN\<rparr>) e
                           in (Buffer2NextDescAddr (descs e a), e)
                         else tx_segments FrameLength buf_count [0..<buf_count] (DMATxDescToSet e) e)
           in (True, resume_tx (e\<lparr>DMATxDescToSet := a\<rparr>)))"

section \<open>Bits of descriptors and registers\<close>

definition ETH_GetDMATxDescFlagStatus :: "dma_desc \<Rightarrow> u32 \<Rightarrow> bool" where
  "ETH_GetDMATxDescFlagStatus d flag = (Status d AND flag \<noteq> 0)"

definition ETH_GetDMARxDescFlagStatus :: "dma_desc \<Rightarrow> u32 \<Rightarrow> bool" where
  "ETH_GetDMARxDescFlagStatus d flag = (Status d AND flag \<noteq> 0)"

definition ETH_GetDMATxDescCollisionCount :: "dma_desc \<Rightarrow> u32" where
  "ETH_GetDMATxDescCollisionCount d = drop_bit 3 (Status d AND 0x78)"

definition ETH_SetDMATxDescOwnBit :: "dma_desc \<Rightarrow> dma_desc" where
  "ETH_SetDMATxDescOwnBit d = d\<lparr>Status := Status d OR ETH_DMATxDesc_OWN\<rparr>"

definition ETH_SetDMARxDescOwnBit :: "dma_desc \<Rightarrow> dma_desc" where
  "ETH_SetDMARxDescOwnBit d = d\<lparr>Status := Status d OR ETH_DMARxDesc_OWN\<rparr>"

definition ETH_DMATxDescTransmitITConfig :: "bool \<Rightarrow> dma_desc \<Rightarrow> dma_desc" where
  "ETH_DMATxDescTransmitITConfig enable d =
     d\<lparr>Status := (if enable then Status d OR ETH_DMATxDesc_IC else Status d AND NOT ETH_DMATxDesc_IC)\<rparr>"

definition ETH_DMATxDescFrameSegmentConfig :: "u32 \<Rightarrow> dma_desc \<Rightarrow> dma_desc" where
  "ETH_DMATxDescFrameSegmentConfig bits d = d\<lparr>Status := Status d OR bits\<rparr>"

definition ETH_DMATxDescChecksumInsertionConfig :: "u32 \<Rightarrow> dma_desc \<Rightarrow> dma_desc" where
  "ETH_DMATxDescChecksumInsertionConfig cs d = d\<lparr>Status := Status d OR cs\<rparr>"

definition ETH_DMATxDescCRCCmd :: "bool \<Rightarrow> dma_desc \<Rightarrow> dma_desc" where
  "ETH_DMATxDescCRCCmd enable d =
     d\<lparr>Status := (if enable then Status d AND NOT 0x08000000 else Status d OR 0x08000000)\<rparr>"

definition ETH_DMATxDescSecondAddressChainedCmd :: "bool \<Rightarrow> dma_desc \<Rightarrow> dma_desc" where
  "ETH_DMATxDescSecondAddressChainedCmd enable d =
     d\<lparr>Status := (if enable then Status d OR ETH_DMATxDesc_TCH else Status d AND NOT ETH_DMATxDesc_TCH)\<rparr>"

definition ETH_DMATxDescShortFramePaddingCmd :: "bool \<Rightarrow> dma_desc \<Rightarrow> dma_desc" where
  "ETH_DMATxDescShortFramePaddingCmd enable d =
     d\<lparr>Status := (if enable then Status d AND NOT 0x04000000 else Status d OR 0x04000000)\<rparr>"

definition ETH_DMATxDescBufferSizeConfig :: "u32 \<Rightarrow> u32 \<Rightarrow> dma_desc \<Rightarrow> dma_desc" where
  "ETH_DMATxDescBufferSizeConfig size1 size2 d =
     d\<lparr>ControlBufferSize := ControlBufferSize d OR (size1 OR push_bit 16 size2)\<rparr>"

definition ETH_DMARxDescReceiveITConfig :: "bool \<Rightarrow> dma_desc \<Rightarrow> dma_desc" where
  "ETH_DMARxDescReceiveITConfig enable d =
     d\<lparr>ControlBufferSize := (if enable then ControlBufferSize d AND NOT ETH_DMARxDesc_DIC
                              else ControlBufferSize d OR ETH_DMARxDesc_DIC)\<rparr>"

definition ETH_GetDMARxDescBufferSize :: "dma_desc \<Rightarrow> bool \<Rightarrow> u32" where
  "ETH_GetDMARxDescBufferSize d buffer2 =
     (if buffer2 then drop_bit 16 (ControlBufferSize d AND 0x1FFF0000) else ControlBufferSize d AND 0x1FFF)"

text \<open>The registers of MAC address number \<open>k\<close> (offset \<open>8 * k\<close>): high word at 0, low word at 4.\<close>

definition ETH_MACAddressConfig :: "nat \<Rightarrow> u8 list \<Rightarrow> eth \<Rightarrow> eth" where
  "ETH_MACAddressConfig MacAddr a e =
     (let e = e\<lparr>mac_addr := (mac_addr e)(MacAddr := push_bit 8 (ucast (a ! 5)) OR ucast (a ! 4))\<rparr>
      in e\<lparr>mac_addr := (mac_addr e)(MacAddr + 4 :=
             push_bit 24 (ucast (a ! 3)) OR push_bit 16 (ucast (a ! 2)) OR push_bit 8 (ucast (a ! 1)) OR ucast (a ! 0))\<rparr>)"

definition ETH_GetMACAddress :: "nat \<Rightarrow> eth \<Rightarrow> u8 list" where
  "ETH_GetMACAddress MacAddr e =
     (let h = mac_addr e MacAddr; l = mac_addr e (MacAddr + 4)
      in [ucast (l AND 0xFF), ucast (drop_bit 8 l AND 0xFF), ucast (drop_bit 16 l AND 0xFF), ucast (drop_bit 24 l AND 0xFF),
          ucast (h AND 0xFF), ucast (drop_bit 8 h AND 0xFF)])"

definition ETH_MACTransmissionCmd :: "bool \<Rightarrow> eth \<Rightarrow> eth" where
  "ETH_MACTransmissionCmd enable e = e\<lparr>MACCR := (if enable then MACCR e OR 0x8 else MACCR e AND NOT 0x8)\<rparr>"

definition ETH_MACReceptionCmd :: "bool \<Rightarrow> eth \<Rightarrow> eth" where
  "ETH_MACReceptionCmd enable e = e\<lparr>MACCR := (if enable then MACCR e OR 0x4 else MACCR e AND NOT 0x4)\<rparr>"

definition ETH_FlushTransmitFIFO :: "eth \<Rightarrow> eth" where
  "ETH_FlushTransmitFIFO e = e\<lparr>DMAOMR := DMAOMR e OR 0x00100000\<rparr>"

definition ETH_DMATransmissionCmd :: "bool \<Rightarrow> eth \<Rightarrow> eth" where
  "ETH_DMATransmissionCmd enable e = e\<lparr>DMAOMR := (if enable then DMAOMR e OR 0x2000 else DMAOMR e AND NOT 0x2000)\<rparr>"

definition ETH_DMAReceptionCmd :: "bool \<Rightarrow> eth \<Rightarrow> eth" where
  "ETH_DMAReceptionCmd enable e = e\<lparr>DMAOMR := (if enable then DMAOMR e OR 0x2 else DMAOMR e AND NOT 0x2)\<rparr>"

definition ETH_Start :: "eth \<Rightarrow> eth" where
  "ETH_Start e =
     ETH_DMAReceptionCmd True (ETH_DMATransmissionCmd True (ETH_FlushTransmitFIFO
       (ETH_MACReceptionCmd True (ETH_MACTransmissionCmd True e))))"

definition ETH_Stop :: "eth \<Rightarrow> eth" where
  "ETH_Stop e =
     ETH_MACTransmissionCmd False (ETH_FlushTransmitFIFO (ETH_MACReceptionCmd False
       (ETH_DMAReceptionCmd False (ETH_DMATransmissionCmd False e))))"

text \<open>The fields of \<^verbatim>\<open>struct netif\<close> the driver sets; \<open>mac\<close> is the content of the local array that
  \<^verbatim>\<open>low_level_init\<close> never initialises.\<close>

record eth_netif =
  en_name :: string
  en_hwaddr_len :: nat
  en_hwaddr :: "u8 list"
  en_mtu :: nat
  en_flags :: u8

definition low_level_init ::
    "nat \<Rightarrow> nat \<Rightarrow> nat \<Rightarrow> nat \<Rightarrow> u8 list \<Rightarrow> eth_netif \<Rightarrow> eth \<Rightarrow> eth_netif \<times> eth" where
  "low_level_init DMARxDscrTab DMATxDscrTab Rx_Buff Tx_Buff mac netif e =
     (let netif = netif\<lparr>en_hwaddr_len := 6, en_hwaddr := mac, en_mtu := 1500, en_flags := 0x02 OR 0x20 OR 0x10\<rparr>;
          e = ETH_MACAddressConfig 0 (en_hwaddr netif) e;
          e = ETH_DMATxDescChainInit DMATxDscrTab Tx_Buff 5 e;
          e = ETH_DMARxDescChainInit DMARxDscrTab Rx_Buff 5 e
      in (netif, ETH_Start e))"

definition ethernetif_init ::
    "nat \<Rightarrow> nat \<Rightarrow> nat \<Rightarrow> nat \<Rightarrow> u8 list \<Rightarrow> eth_netif \<Rightarrow> eth \<Rightarrow> err_t \<times> eth_netif \<times> eth" where
  "ethernetif_init DMARxDscrTab DMATxDscrTab Rx_Buff Tx_Buff mac netif e =
     (let netif = netif\<lparr>en_name := ''ZH''\<rparr>;
          (netif, e) = low_level_init DMARxDscrTab DMATxDscrTab Rx_Buff Tx_Buff mac netif e
      in (ERR_OK, netif, e))"

end
