(* ===== verification/Eth_Spec.thy ===== *)
theory Eth_Spec
  imports Eth
begin

text \<open>
  The receive ring as a queue of frames.  \<open>rx_ring\<close> is its invariant, \<open>dma_fills\<close> what the DMA
  does with a descriptor it owns (a frame in one buffer, without errors).  The driver takes the
  frames out in the order the DMA put them in and hands each to the stack as a packet.
\<close>

section \<open>The ring\<close>

definition slot :: "nat \<Rightarrow> nat \<Rightarrow> nat" where
  "slot tab i = tab + SIZEOF_DMADESC * i"

lemma slot_eq [simp]: "slot tab i = slot tab j \<longleftrightarrow> i = j"
  by (simp add: slot_def SIZEOF_DMADESC_def)

text \<open>A descriptor the CPU owns that holds the frame \<open>f\<close> (and the checksum behind it).\<close>

definition filled :: "dma_desc \<Rightarrow> (nat \<Rightarrow> u8) \<Rightarrow> u8 list \<Rightarrow> bool" where
  "filled d m f \<longleftrightarrow> Status d AND ETH_DMARxDesc_OWN = 0 \<and> Status d AND ETH_DMARxDesc_ES = 0 \<and>
     Status d AND ETH_DMARxDesc_LS \<noteq> 0 \<and> Status d AND ETH_DMARxDesc_FS \<noteq> 0 \<and>
     drop_bit 16 (Status d AND ETH_DMARxDesc_FL) = of_nat (length f + 4) \<and> length f + 4 \<le> ETH_BUF_SIZE \<and>
     load_bytes (Buffer1Addr d) (length f) m = f"

definition dma_owned :: "dma_desc \<Rightarrow> bool" where
  "dma_owned d \<longleftrightarrow> Status d AND ETH_DMARxDesc_OWN \<noteq> 0"

text \<open>\<open>n\<close> descriptors from \<open>tab\<close>; the frames \<open>q\<close> wait from number \<open>g\<close> on.\<close>

definition rx_ring ::
    "nat \<Rightarrow> nat \<Rightarrow> nat \<Rightarrow> eth \<Rightarrow> (nat \<Rightarrow> u8) \<Rightarrow> nat \<Rightarrow> u8 list list \<Rightarrow> bool" where
  "rx_ring tab buff n e m g q \<longleftrightarrow> g < n \<and> length q \<le> n \<and> DMARxDescToGet e = slot tab g \<and>
     (\<forall>i < n. Buffer1Addr (descs e (slot tab i)) = buff + i * ETH_BUF_SIZE \<and>
              Buffer2NextDescAddr (descs e (slot tab i)) = slot tab (Suc i mod n)) \<and>
     (\<forall>k < n. if k < length q then filled (descs e (slot tab ((g + k) mod n))) m (q ! k)
              else dma_owned (descs e (slot tab ((g + k) mod n))))"

lemma rx_ringD:
  assumes "rx_ring tab buff n e m g q"
  shows "g < n" "length q \<le> n" "DMARxDescToGet e = slot tab g"
    "\<And>i. i < n \<Longrightarrow> Buffer1Addr (descs e (slot tab i)) = buff + i * ETH_BUF_SIZE"
    "\<And>i. i < n \<Longrightarrow> Buffer2NextDescAddr (descs e (slot tab i)) = slot tab (Suc i mod n)"
    "\<And>k. k < length q \<Longrightarrow> filled (descs e (slot tab ((g + k) mod n))) m (q ! k)"
    "\<And>k. length q \<le> k \<Longrightarrow> k < n \<Longrightarrow> dma_owned (descs e (slot tab ((g + k) mod n)))"
  using assms by (auto simp: rx_ring_def dest: spec [where P = "\<lambda>k. k < n \<longrightarrow> (if k < _ then _ k else _ k)"])

definition ring_memory :: "nat \<Rightarrow> nat \<Rightarrow> nat set" where
  "ring_memory buff n = {buff..<buff + n * ETH_BUF_SIZE}"

lemma mod_shift_inj:
  fixes g k k' n :: nat
  assumes "k < n" "k' < n"
  shows "(g + k) mod n = (g + k') mod n \<longleftrightarrow> k = k'"
proof
  assume "(g + k) mod n = (g + k') mod n"
  then obtain i j where "g + k + n * i = g + k' + n * j" unfolding nat_mod_eq_iff by blast
  then have "k mod n = k' mod n" unfolding nat_mod_eq_iff by (metis add.assoc add_left_cancel)
  with assms show "k = k'" by simp
qed simp

lemma next_slot: "(Suc g mod n + k) mod n = (g + Suc k) mod (n :: nat)"
  by (simp add: mod_add_left_eq)

lemma upd_desc_simps [simp]:
  "descs (upd_desc a f e) = (descs e)(a := f (descs e a))" "DMARxDescToGet (upd_desc a f e) = DMARxDescToGet e"
  "DMASR (upd_desc a f e) = DMASR e"
  by (simp_all add: upd_desc_def)

lemma resume_rx_simps [simp]:
  "descs (resume_rx e) = descs e" "DMARxDescToGet (resume_rx e) = DMARxDescToGet e"
  by (simp_all add: resume_rx_def write_DMASR_def)

lemma next_rx_simps [simp]:
  "descs (next_rx e) = descs e" "DMARxDescToGet (next_rx e) = Buffer2NextDescAddr (rx_desc e)"
  by (simp_all add: next_rx_def)

lemma rx_ring_regs:
  "descs e' = descs e \<Longrightarrow> DMARxDescToGet e' = DMARxDescToGet e \<Longrightarrow>
    rx_ring tab buff n e' m g q = rx_ring tab buff n e m g q"
  by (simp add: rx_ring_def)

text \<open>The frames do not change when memory outside the buffers of the ring is written.\<close>

lemma rx_ring_memory:
  assumes r: "rx_ring tab buff n e m g q" and m: "\<And>i. i \<in> ring_memory buff n \<Longrightarrow> m' i = m i"
  shows "rx_ring tab buff n e m' g q"
proof -
  note R = rx_ringD [OF r]
  have "filled (descs e (slot tab ((g + k) mod n))) m' (q ! k)" if "k < length q" for k
  proof -
    let ?i = "(g + k) mod n"
    have i: "?i < n" using R(1) by simp
    from R(6) [OF that] have f: "filled (descs e (slot tab ?i)) m (q ! k)" .
    have "{buff + ?i * ETH_BUF_SIZE..<buff + ?i * ETH_BUF_SIZE + length (q ! k)} \<subseteq> ring_memory buff n"
    proof -
      have "Suc ?i * ETH_BUF_SIZE \<le> n * ETH_BUF_SIZE" using i by (intro mult_le_mono1) simp
      moreover have "length (q ! k) \<le> ETH_BUF_SIZE" using f by (simp add: filled_def)
      ultimately show ?thesis by (auto simp: ring_memory_def)
    qed
    then have "load_bytes (Buffer1Addr (descs e (slot tab ?i))) (length (q ! k)) m' =
        load_bytes (Buffer1Addr (descs e (slot tab ?i))) (length (q ! k)) m"
      unfolding R(4) [OF i] load_bytes_def by (intro map_cong) (auto intro!: m)
    with f show ?thesis by (simp add: filled_def)
  qed
  with R show ?thesis by (simp add: rx_ring_def)
qed

section \<open>Initialisation\<close>

lemma rx_init_loop_descs:
  "distinct is \<Longrightarrow> descs (rx_init_loop tab buff n is e) a =
     (if \<exists>i \<in> set is. a = slot tab i then rx_entry tab buff n (THE i. a = slot tab i) else descs e a)"
proof (induction "is" arbitrary: e)
  case (Cons j js)
  have "(THE i. slot tab j = slot tab i) = j" by (rule the_equality) auto
  with Cons show ?case by (auto simp: slot_def SIZEOF_DMADESC_def)
qed simp

lemma rx_init_loop_get: "DMARxDescToGet (rx_init_loop tab buff n is e) = DMARxDescToGet e"
  by (induction "is" arbitrary: e) auto

lemma rx_init_ring:
  assumes "0 < n"
  shows "rx_ring tab buff n (ETH_DMARxDescChainInit tab buff n e) m 0 []"
proof -
  have d: "descs (ETH_DMARxDescChainInit tab buff n e) (slot tab i) = rx_entry tab buff n i" if "i < n" for i
    using that rx_init_loop_descs [of "[0..<n]" tab buff n "e\<lparr>DMARxDescToGet := tab\<rparr>" "slot tab i"]
    by (auto simp: ETH_DMARxDescChainInit_def)
  have "DMARxDescToGet (ETH_DMARxDescChainInit tab buff n e) = slot tab 0"
    by (simp add: ETH_DMARxDescChainInit_def rx_init_loop_get slot_def)
  with assms d show ?thesis
    by (auto simp: rx_ring_def rx_entry_def dma_owned_def slot_def rx_flags less_Suc_eq_le mod_Suc not_less)
qed

section \<open>The DMA fills a descriptor\<close>

text \<open>The frame \<open>f\<close> arrives in the descriptor at \<open>a\<close>: the DMA owned it, now the CPU does; its buffer
  and its status are all that changes.\<close>

definition dma_fills :: "nat \<Rightarrow> u8 list \<Rightarrow> eth \<times> (nat \<Rightarrow> u8) \<Rightarrow> eth \<times> (nat \<Rightarrow> u8) \<Rightarrow> bool" where
  "dma_fills a f s s' \<longleftrightarrow>
     dma_owned (descs (fst s) a) \<and> filled (descs (fst s') a) (snd s') f \<and>
     descs (fst s') = (descs (fst s))(a := (descs (fst s) a)\<lparr>Status := Status (descs (fst s') a)\<rparr>) \<and>
     DMARxDescToGet (fst s') = DMARxDescToGet (fst s) \<and>
     (\<forall>i. i \<notin> {Buffer1Addr (descs (fst s) a)..<Buffer1Addr (descs (fst s) a) + ETH_BUF_SIZE} \<longrightarrow> snd s' i = snd s i)"

lemma rx_ring_fill:
  assumes r: "rx_ring tab buff n e m g q" and full: "length q < n"
    and f: "dma_fills (slot tab ((g + length q) mod n)) f (e, m) (e', m')"
  shows "rx_ring tab buff n e' m' g (q @ [f])"
proof -
  note R = rx_ringD [OF r]
  let ?j = "(g + length q) mod n"
  have j: "?j < n" using R(1) by simp
  from f have F: "filled (descs e' (slot tab ?j)) m' f" "DMARxDescToGet e' = DMARxDescToGet e"
    "descs e' = (descs e)(slot tab ?j := (descs e (slot tab ?j))\<lparr>Status := Status (descs e' (slot tab ?j))\<rparr>)"
    and mem: "\<And>i. i \<notin> {Buffer1Addr (descs e (slot tab ?j))..<Buffer1Addr (descs e (slot tab ?j)) + ETH_BUF_SIZE} \<Longrightarrow> m' i = m i"
    by (auto simp: dma_fills_def)
  have other: "descs e' (slot tab i) = descs e (slot tab i)" if "i \<noteq> ?j" for i
    using that by (subst F(3)) simp
  have same: "Buffer1Addr (descs e' a) = Buffer1Addr (descs e a)"
    "Buffer2NextDescAddr (descs e' a) = Buffer2NextDescAddr (descs e a)" for a
    by (subst F(3), simp)+
  have "filled (descs e' (slot tab ((g + k) mod n))) m' (q ! k)" if k: "k < length q" for k
  proof -
    let ?i = "(g + k) mod n"
    have i: "?i < n" "?i \<noteq> ?j" using R(1) full k mod_shift_inj [of k n "length q" g] by auto
    from R(6) [OF k] have f: "filled (descs e (slot tab ?i)) m (q ! k)" .
    have "Suc ?i \<le> ?j \<or> Suc ?j \<le> ?i" using i(2) by linarith
    then have "Suc ?i * ETH_BUF_SIZE \<le> ?j * ETH_BUF_SIZE \<or> Suc ?j * ETH_BUF_SIZE \<le> ?i * ETH_BUF_SIZE"
      using mult_le_mono1 by blast
    moreover have "length (q ! k) \<le> ETH_BUF_SIZE" using f by (simp add: filled_def)
    ultimately have "load_bytes (Buffer1Addr (descs e (slot tab ?i))) (length (q ! k)) m' =
        load_bytes (Buffer1Addr (descs e (slot tab ?i))) (length (q ! k)) m"
      unfolding R(4) [OF i(1)] load_bytes_def
      by (intro map_cong) (auto intro!: mem simp: R(4) [OF j])
    with f other [OF i(2)] show ?thesis by (simp add: filled_def)
  qed
  moreover have "dma_owned (descs e' (slot tab ((g + k) mod n)))" if "Suc (length q) \<le> k" "k < n" for k
    using that R(7) [of k] other [of "(g + k) mod n"] mod_shift_inj [of k n "length q" g] by simp
  ultimately show ?thesis
    using R F(1,2) full same by (auto simp: rx_ring_def nth_append less_Suc_eq)
qed

section \<open>Taking a frame out\<close>

lemma rx_packet_ring:
  assumes r: "rx_ring tab buff n e m g (f # q)"
  shows "\<exists>fr e1 e2. ETH_Rx_Packet e = (fr, e1) \<and> unat (ucast (f_length fr) :: u16) = length f \<and>
    load_bytes (f_buffer fr) (length f) m = f \<and>
    {f_buffer fr..<f_buffer fr + length f} \<subseteq> ring_memory buff n \<and>
    give_back fr e1 = Some e2 \<and> rx_ring tab buff n e2 m (Suc g mod n) q"
proof -
  note R = rx_ringD [OF r]
  let ?d = "descs e (slot tab g)"
  have fl: "filled ?d m f" using R(1) R(6) [of 0] by simp
  have get: "rx_desc e = ?d" by (simp add: rx_desc_def R(3))
  let ?fr = "\<lparr>f_length = drop_bit 16 (Status ?d AND ETH_DMARxDesc_FL) - 4, f_buffer = Buffer1Addr ?d,
    f_descriptor = Some (slot tab g)\<rparr>"
  let ?e2 = "resume_rx (upd_desc (slot tab g) (\<lambda>d. d\<lparr>Status := ETH_DMARxDesc_OWN\<rparr>) (next_rx e))"
  have "ETH_Rx_Packet e = (?fr, next_rx e)" using fl by (simp add: ETH_Rx_Packet_def get R(3) filled_def)
  moreover have "unat (ucast (f_length ?fr) :: u16) = length f"
  proof -
    have "f_length ?fr = of_nat (length f)" using fl by (simp add: filled_def)
    then show ?thesis using fl by (simp add: filled_def ETH_BUF_SIZE_def unsigned_ucast_eq unat_of_nat take_bit_eq_mod)
  qed
  moreover have "load_bytes (f_buffer ?fr) (length f) m = f" using fl by (simp add: filled_def)
  moreover have "{f_buffer ?fr..<f_buffer ?fr + length f} \<subseteq> ring_memory buff n"
  proof -
    have "Suc g * ETH_BUF_SIZE \<le> n * ETH_BUF_SIZE" using R(1) by (intro mult_le_mono1) simp
    then show ?thesis using fl by (auto simp: ring_memory_def R(4) [OF R(1)] filled_def)
  qed
  moreover have "give_back ?fr (next_rx e) = Some ?e2" by (simp add: give_back_def)
  moreover have "rx_ring tab buff n ?e2 m (Suc g mod n) q"
  proof -
    have other: "descs ?e2 (slot tab i) = descs e (slot tab i)" if "i \<noteq> g" for i using that by simp
    have "filled (descs ?e2 (slot tab ((g + Suc k) mod n))) m (q ! k)" if k: "k < length q" for k
      using k R(1,2) R(6) [of "Suc k"] other [of "(g + Suc k) mod n"] mod_shift_inj [of "Suc k" n 0 g] by simp
    moreover have "dma_owned (descs ?e2 (slot tab ((g + Suc k) mod n)))" if "length q \<le> k" "k < n" for k
    proof (cases "Suc k = n")
      case True
      then show ?thesis using R(1) by (simp add: dma_owned_def rx_flags)
    next
      case False
      then show ?thesis using that R(1) R(7) [of "Suc k"] other [of "(g + Suc k) mod n"]
          mod_shift_inj [of "Suc k" n 0 g] by simp
    qed
    moreover have "Suc g mod n < n" using R(1) by simp
    ultimately show ?thesis
      using R unfolding rx_ring_def next_slot by (auto simp: get)
  qed
  ultimately show ?thesis by blast
qed

lemma rx_packet_empty:
  assumes "rx_ring tab buff n e m g []"
  shows "ETH_Rx_Packet e = (\<lparr>f_length = 0, f_buffer = 0, f_descriptor = None\<rparr>, resume_rx e)"
  using rx_ringD(1,3) [OF assms] rx_ringD(7) [OF assms, of 0]
  by (simp add: ETH_Rx_Packet_def rx_desc_def dma_owned_def)

section \<open>Copying a frame into a packet\<close>

lemma write_nil [simp]: "write_bytes d [] st = st"
  by (simp add: write_bytes_def)

lemma take_loop_pools:
  "chain (links st) p xs \<Longrightarrow> take_loop p data st = Some st' \<Longrightarrow> pbuf_pools st' = pbuf_pools st"
proof (induction xs arbitrary: p data st)
  case Nil
  then show ?case by (simp add: take_loop.simps split: if_splits)
next
  case (Cons a xs)
  let ?n = "min (length data) (len_of st a)"
  let ?st = "write_bytes (p_payload (pbufs st a)) (take ?n data) st"
  from Cons.prems have "p = Some a" "chain (links ?st) (links st a) xs" by simp_all
  with Cons.prems(2) Cons.IH [of ?st "links st a" "drop ?n data"] show ?case
    by (subst (asm) take_loop.simps) (auto simp: Let_def split: if_splits)
qed

lemma copy_frame_take:
  "chain (links st) p xs \<Longrightarrow> (\<And>a. a \<in> set xs \<Longrightarrow> region st a \<inter> {src..<src + total st xs} = {}) \<Longrightarrow>
    copy_frame p src st = take_loop p (load_bytes src (total st xs) (payload_bytes st)) st"
proof (induction xs arbitrary: p src st)
  case Nil
  then show ?case by (simp add: copy_frame.simps take_loop.simps load_bytes_def)
next
  case (Cons a xs)
  from Cons.prems(1) have p: "p = Some a" "chain (links st) (links st a) xs" by auto
  let ?n = "len_of st a" and ?t = "total st xs"
  let ?st = "write_bytes (p_payload (pbufs st a)) (load_bytes src ?n (payload_bytes st)) st"
  have tot: "total ?st ys = total st ys" for ys by (rule total_cong) simp
  have load: "load_bytes (src + ?n) ?t (payload_bytes ?st) = load_bytes (src + ?n) ?t (payload_bytes st)"
  proof -
    have "i \<notin> region st a" if "src \<le> i" "i < src + (?n + ?t)" for i
      using Cons.prems(2) [of a] that by auto
    then show ?thesis
      by (auto simp: load_bytes_def write_bytes_def store_bytes_nth region_def)
  qed
  have "region ?st b \<inter> {src + ?n..<src + ?n + total ?st xs} = {}" if "b \<in> set xs" for b
    using Cons.prems(2) [of b] that by (auto simp: region_def tot)
  with p(2) Cons.IH [of ?st "links st a" "src + ?n"]
  have IH: "copy_frame (links st a) (src + ?n) ?st = take_loop (links st a) (load_bytes (src + ?n) ?t (payload_bytes st)) ?st"
    by (simp add: tot load)
  have split: "load_bytes src (?n + ?t) m = load_bytes src ?n m @ load_bytes (src + ?n) ?t m" for m
    using upt_add_eq_append [of src "src + ?n" ?t] by (simp add: load_bytes_def add.assoc)
  show ?case
  proof (cases "?n + ?t = 0")
    case True
    then show ?thesis using IH by (simp add: copy_frame.simps [of "Some a"] take_loop.simps p load_bytes_def)
  next
    case False
    then have "load_bytes src (?n + ?t) (payload_bytes st) \<noteq> []"
      by (metis length_load list.size(3))
    with IH show ?thesis
      by (auto simp: copy_frame.simps [of "Some a"] take_loop.simps [of "Some a"] p split Let_def)
  qed
qed


section \<open>The input function of the interface\<close>

text \<open>The pool's elements \<open>E\<close> do not overlap each other or the buffers of the ring.\<close>

definition rx_pool :: "pbuf_cfg \<Rightarrow> nat \<Rightarrow> nat \<Rightarrow> nat set \<Rightarrow> pst \<Rightarrow> (nat \<Rightarrow> nat list) \<Rightarrow> bool" where
  "rx_pool c buff n E st fl \<longleftrightarrow> pool_ready c st fl \<and> set (fl MEMP_PBUF_POOL) \<subseteq> E \<and> spaced c E \<and>
     (\<forall>a \<in> E. {a..<a + SIZEOF_STRUCT_PBUF c + PBUF_POOL_BUFSIZE_ALIGNED c} \<inter> ring_memory buff n = {})"

lemma pool_region:
  assumes "rx_pool c buff n E st fl" "a \<in> E" "pool_pbuf c st' a"
  shows "region st' a \<inter> ring_memory buff n = {}"
proof -
  have "region st' a \<subseteq> {a..<a + SIZEOF_STRUCT_PBUF c + PBUF_POOL_BUFSIZE_ALIGNED c}"
    using assms(3) by (auto simp: region_def pool_pbuf_def)
  with assms(1,2) show ?thesis unfolding rx_pool_def by blast
qed

lemma low_level_input_spec:
  assumes c: "pbuf_cfg_ok c" "quiet env" and r: "rx_ring tab buff n e (payload_bytes st) g (f # q)"
    and pool: "rx_pool c buff n E st fl"
  defines "es \<equiv> fl MEMP_PBUF_POOL" and "k \<equiv> length (pool_need c PBUF_RAW (length f))"
  shows "\<exists>e' st'. if k \<le> length es
    then low_level_input c env e st = Some (Some (hd es), e', st') \<and> packet st' (Some (hd es)) (take k es) \<and>
      contents st' (take k es) = f \<and> (\<forall>a \<in> set (take k es). pool_pbuf c st' a) \<and>
      pools_ok (pbuf_pools st') (fl(MEMP_PBUF_POOL := drop k es)) \<and>
      (\<forall>a. a \<notin> set (take k es) \<longrightarrow> pbufs st' a = pbufs st a) \<and>
      rx_ring tab buff n e' (payload_bytes st') (Suc g mod n) q
    else low_level_input c env e st = Some (None, e', st') \<and>
      pools_ok (pbuf_pools st') (fl(MEMP_PBUF_POOL := rev es)) \<and> no_custom st' (set es) \<and>
      (\<forall>a. a \<notin> set es \<longrightarrow> pbufs st' a = pbufs st a) \<and>
      rx_ring tab buff n e' (payload_bytes st') (Suc g mod n) q"
proof -
  from rx_packet_ring [OF r] obtain fr e1 e2 where F: "ETH_Rx_Packet e = (fr, e1)"
    "unat (ucast (f_length fr) :: u16) = length f" "load_bytes (f_buffer fr) (length f) (payload_bytes st) = f"
    "{f_buffer fr..<f_buffer fr + length f} \<subseteq> ring_memory buff n" "give_back fr e1 = Some e2"
    "rx_ring tab buff n e2 (payload_bytes st) (Suc g mod n) q" by blast
  have ready: "pool_ready c st fl" using pool by (simp add: rx_pool_def)
  have len: "length f < 65536" using u16_lt [of "ucast (f_length fr)"] unfolding F(2) .
  from alloc_pool_spec [OF c ready len, of PBUF_RAW, folded es_def, folded k_def] obtain s1 where A: "if k \<le> length es
    then pbuf_alloc c env PBUF_RAW (length f) PBUF_POOL st = Some (Some (hd es), s1) \<and>
      packet s1 (Some (hd es)) (take k es) \<and> map (len_of s1) (take k es) = pool_need c PBUF_RAW (length f) \<and>
      (\<forall>a \<in> set (take k es). pool_pbuf c s1 a) \<and>
      pools_ok (pbuf_pools s1) (fl(MEMP_PBUF_POOL := drop k es)) \<and>
      payload_bytes s1 = payload_bytes st \<and> (\<forall>a. a \<notin> set (take k es) \<longrightarrow> pbufs s1 a = pbufs st a)
    else pbuf_alloc c env PBUF_RAW (length f) PBUF_POOL st = Some (None, s1) \<and>
      pools_ok (pbuf_pools s1) (fl(MEMP_PBUF_POOL := rev es)) \<and>
      payload_bytes s1 = payload_bytes st \<and> no_custom s1 (set es) \<and> (\<forall>a. a \<notin> set es \<longrightarrow> pbufs s1 a = pbufs st a)"
    by blast
  show ?thesis
  proof (cases "k \<le> length es")
    case False
    with A F show ?thesis by (intro exI [of _ e2] exI [of _ s1]) (simp add: low_level_input_def)
  next
    case True
    let ?xs = "take k es"
    from A True have B: "pbuf_alloc c env PBUF_RAW (length f) PBUF_POOL st = Some (Some (hd es), s1)"
      "packet s1 (Some (hd es)) ?xs" "map (len_of s1) ?xs = pool_need c PBUF_RAW (length f)"
      "\<forall>a \<in> set ?xs. pool_pbuf c s1 a" "pools_ok (pbuf_pools s1) (fl(MEMP_PBUF_POOL := drop k es))"
      "payload_bytes s1 = payload_bytes st" "\<forall>a. a \<notin> set ?xs \<longrightarrow> pbufs s1 a = pbufs st a" by simp_all
    have E: "set ?xs \<subseteq> E" using pool set_take_subset [of k es] by (auto simp: rx_pool_def es_def)
    have sep: "separate s1 ?xs" using pool E B(4) by (intro spaced_separate [of c E]) (auto simp: rx_pool_def)
    have tot: "total s1 ?xs = length f" unfolding total_def B(3) by (rule sum_pool_need [OF c(1)])
    have out: "region s1 a \<inter> ring_memory buff n = {}" if "a \<in> set ?xs" for a
      using pool_region [OF pool, of a s1] that E B(4) by blast
    have "copy_frame (Some (hd es)) (f_buffer fr) s1 =
        take_loop (Some (hd es)) (load_bytes (f_buffer fr) (total s1 ?xs) (payload_bytes s1)) s1"
      using F(4) out by (intro copy_frame_take [OF packetD(1) [OF B(2)]]) (unfold tot, blast)
    then have cf: "copy_frame (Some (hd es)) (f_buffer fr) s1 = take_loop (Some (hd es)) f s1"
      by (simp add: tot B(6) F(3))
    from take_loop_spec [OF packetD(1) [OF B(2)] sep, of f] tot obtain s2 where T: "take_loop (Some (hd es)) f s1 = Some s2"
      "pbufs s2 = pbufs s1" "contents s2 ?xs = f @ drop (length f) (contents s1 ?xs)"
      "\<forall>i. (\<forall>a \<in> set ?xs. i \<notin> region s1 a) \<longrightarrow> payload_bytes s2 i = payload_bytes s1 i" by auto
    have ct: "contents s2 ?xs = f" unfolding T(3) by (simp add: tot)
    have tt: "total s2 ?xs = total s1 ?xs" by (rule total_cong) (simp add: T(2))
    have "packet s2 (Some (hd es)) ?xs"
      using B(2) tt tots_cong [of ?xs s2 s1] by (simp add: packet_def T(2))
    moreover have "rx_ring tab buff n e2 (payload_bytes s2) (Suc g mod n) q"
      using F(6) by (rule rx_ring_memory) (use T(4) out B(6) in fastforce)
    moreover have "pbuf_pools s2 = pbuf_pools s1" using take_loop_pools [OF packetD(1) [OF B(2)] T(1)] .
    ultimately show ?thesis
      using True B F ct T(1,2) cf by (intro exI [of _ e2] exI [of _ s2]) (auto simp: low_level_input_def pool_pbuf_def)
  qed
qed


section \<open>The interrupt handler\<close>

text \<open>A packet of pool pbufs that its owner may free.\<close>

definition owned :: "pbuf_cfg \<Rightarrow> nat set \<Rightarrow> pst \<Rightarrow> nat \<Rightarrow> nat list \<Rightarrow> (nat \<Rightarrow> nat list) \<Rightarrow> bool" where
  "owned c E st p xs fl \<longleftrightarrow> packet st (Some p) xs \<and> held st xs fl \<and>
     (\<forall>a \<in> set xs. a \<in> E \<and> MEM_ALIGNMENT (mcfg c) dvd a)"

lemma free_owned:
  assumes o: "owned c E st p xs fl" and pool: "rx_pool c buff n E st fl"
  shows "\<exists>st' fl'. free_packet c env p st = Some st' \<and> rx_pool c buff n E st' fl' \<and>
    payload_bytes st' = payload_bytes st"
proof -
  have h: "chain (links st) (Some p) xs" "no_custom st (set xs)"
    "\<forall>a \<in> set xs. 0 < p_ref (pbufs st a) \<and> p_ref (pbufs st a) < 65536"
    "pools_ok (pbuf_pools st) fl" "\<forall>i. set xs \<inter> set (fl i) = {}"
    using o packetD(1) by (auto simp: owned_def held_def)
  from pbuf_free_loop_spec [OF h, of 0 c env] obtain m st' where
    st': "pbuf_free c env (Some p) st = Some (m, st')" "freed c st xs st'" "pools_ok (pbuf_pools st') (freed_lists st xs fl)"
    by (auto simp: pbuf_free_def)
  have flags: "p_flags (pbufs st' a) = p_flags (pbufs st a)" for a
    using st'(2) by (simp add: freed_def freed_pbufs_def)
  have sub: "set (freed_lists st xs fl MEMP_PBUF_POOL) \<subseteq> set xs \<union> set (fl MEMP_PBUF_POOL)"
    by (auto simp: freed_lists_def dest: sole_subset)
  have "rx_pool c buff n E st' (freed_lists st xs fl)"
    using pool o st'(3) sub h(2) unfolding rx_pool_def pool_ready_def owned_def no_custom_def
    by (auto simp: flags)
  then show ?thesis using st' by (auto simp: free_packet_def freed_def)
qed

text \<open>What \<^verbatim>\<open>netif->input\<close> has to do: with \<^verbatim>\<open>ERR_OK\<close> it has taken the packet over, otherwise the packet is
  still the caller's; the pool stays in order and the frame buffers are not written.\<close>

definition input_ok :: "pbuf_cfg \<Rightarrow> nat \<Rightarrow> nat \<Rightarrow> nat set \<Rightarrow> eth_input \<Rightarrow> bool" where
  "input_ok c buff n E input \<longleftrightarrow>
     (\<forall>st p xs fl r st'. rx_pool c buff n E st fl \<longrightarrow> owned c E st p xs fl \<longrightarrow> input p st = (r, st') \<longrightarrow>
        (\<forall>i \<in> ring_memory buff n. payload_bytes st' i = payload_bytes st i) \<and>
        (\<exists>fl'. rx_pool c buff n E st' fl' \<and> (r \<noteq> ERR_OK \<longrightarrow> owned c E st' p xs fl')))"

lemma owned_alloc:
  assumes c: "pbuf_cfg_ok c" and pool: "rx_pool c buff n E st fl" and k: "k \<le> length (fl MEMP_PBUF_POOL)"
    and pk: "packet st' (Some p) (take k (fl MEMP_PBUF_POOL))"
    and pp: "\<forall>a \<in> set (take k (fl MEMP_PBUF_POOL)). pool_pbuf c st' a"
    and po: "pools_ok (pbuf_pools st') (fl(MEMP_PBUF_POOL := drop k (fl MEMP_PBUF_POOL)))"
    and fr: "\<forall>a. a \<notin> set (take k (fl MEMP_PBUF_POOL)) \<longrightarrow> pbufs st' a = pbufs st a"
  shows "rx_pool c buff n E st' (fl(MEMP_PBUF_POOL := drop k (fl MEMP_PBUF_POOL)))"
    "owned c E st' p (take k (fl MEMP_PBUF_POOL)) (fl(MEMP_PBUF_POOL := drop k (fl MEMP_PBUF_POOL)))"
proof -
  let ?new = "take k (fl MEMP_PBUF_POOL)" and ?rest = "drop k (fl MEMP_PBUF_POOL)"
  have "distinct (fl MEMP_PBUF_POOL)" using pool by (simp add: rx_pool_def pool_ready_def pools_ok_def)
  then have dj: "set ?new \<inter> set ?rest = {}" by (rule set_take_disj_set_drop_if_distinct) simp
  have sub: "set ?new \<subseteq> set (fl MEMP_PBUF_POOL)" "set ?rest \<subseteq> set (fl MEMP_PBUF_POOL)"
    by (simp_all add: set_take_subset set_drop_subset)
  have nc: "p_flags (pbufs st' a) AND PBUF_FLAG_IS_CUSTOM = 0" if "a \<in> set (fl MEMP_PBUF_POOL)" for a
    using that pool pp fr by (cases "a \<in> set ?new") (auto simp: rx_pool_def pool_ready_def no_custom_def pool_pbuf_def)
  show "rx_pool c buff n E st' (fl(MEMP_PBUF_POOL := ?rest))"
    using pool po sub(2) nc by (auto simp: rx_pool_def pool_ready_def no_custom_def)
  have "set ?new \<inter> set ((fl(MEMP_PBUF_POOL := ?rest)) i) = {}" for i
  proof (cases "i = MEMP_PBUF_POOL")
    case False
    then have "set (fl MEMP_PBUF_POOL) \<inter> set (fl i) = {}"
      using pool by (simp add: rx_pool_def pool_ready_def pools_ok_def)
    with False sub(1) show ?thesis by auto
  qed (use dj in simp)
  then show "owned c E st' p ?new (fl(MEMP_PBUF_POOL := ?rest))"
    using pk pp po sub(1) pool nc unfolding owned_def held_def no_custom_def rx_pool_def pool_ready_def
    by (auto simp: pool_pbuf_def)
qed

lemma pkt_handle_ring:
  assumes c: "pbuf_cfg_ok c" "quiet env" and r: "rx_ring tab buff n e (payload_bytes st) g (f # q)"
    and pool: "rx_pool c buff n E st fl" and inp: "input_ok c buff n E input"
  shows "\<exists>e' st' fl'. lwip_pkt_handle c env input e st = Some (e', st') \<and> rx_pool c buff n E st' fl' \<and>
    rx_ring tab buff n e' (payload_bytes st') (Suc g mod n) q"
proof (cases "length (pool_need c PBUF_RAW (length f)) \<le> length (fl MEMP_PBUF_POOL)")
  case False
  with low_level_input_spec [OF c r pool] obtain e' st' where L:
    "low_level_input c env e st = Some (None, e', st')" "pools_ok (pbuf_pools st') (fl(MEMP_PBUF_POOL := rev (fl MEMP_PBUF_POOL)))"
    "no_custom st' (set (fl MEMP_PBUF_POOL))" "rx_ring tab buff n e' (payload_bytes st') (Suc g mod n) q" by auto
  have "rx_pool c buff n E st' (fl(MEMP_PBUF_POOL := rev (fl MEMP_PBUF_POOL)))"
    using pool L(2,3) by (auto simp: rx_pool_def pool_ready_def)
  with L show ?thesis by (auto simp: lwip_pkt_handle_def ethernetif_input_def)
next
  case True
  define k where "k = length (pool_need c PBUF_RAW (length f))"
  let ?p = "hd (fl MEMP_PBUF_POOL)" and ?xs = "take k (fl MEMP_PBUF_POOL)"
  from low_level_input_spec [OF c r pool, folded k_def] True obtain e1 s1 where L:
    "low_level_input c env e st = Some (Some ?p, e1, s1)" "packet s1 (Some ?p) ?xs" "\<forall>a \<in> set ?xs. pool_pbuf c s1 a"
    "pools_ok (pbuf_pools s1) (fl(MEMP_PBUF_POOL := drop k (fl MEMP_PBUF_POOL)))"
    "\<forall>a. a \<notin> set ?xs \<longrightarrow> pbufs s1 a = pbufs st a"
    and ring: "rx_ring tab buff n e1 (payload_bytes s1) (Suc g mod n) q" by (auto simp: k_def)
  from True have "k \<le> length (fl MEMP_PBUF_POOL)" by (simp add: k_def)
  note O = owned_alloc [OF c(1) pool this L(2-5)]
  have fin: "\<exists>e' st' fl'. (case free_packet c env ?p s2 of None \<Rightarrow> None | Some st \<Rightarrow> Some (e1, st)) = Some (e', st') \<and>
      rx_pool c buff n E st' fl' \<and> rx_ring tab buff n e' (payload_bytes st') (Suc g mod n) q"
    if o2: "owned c E s2 ?p ?xs f2" "rx_pool c buff n E s2 f2"
      and m2: "\<forall>i \<in> ring_memory buff n. payload_bytes s2 i = payload_bytes s1 i" for s2 f2
  proof -
    from free_owned [OF o2, of env] obtain s3 f3 where "free_packet c env ?p s2 = Some s3" "rx_pool c buff n E s3 f3"
      "payload_bytes s3 = payload_bytes s2" by blast
    moreover from rx_ring_memory [OF ring] m2 this(3) have "rx_ring tab buff n e1 (payload_bytes s3) (Suc g mod n) q" by simp
    ultimately show ?thesis by auto
  qed
  show ?thesis
  proof (cases "eth_type ?p s1 \<in> {ETHTYPE_IP, ETHTYPE_ARP}")
    case False
    with L(1) fin [OF O(2,1)] show ?thesis by (simp add: lwip_pkt_handle_def ethernetif_input_def)
  next
    case True
    obtain res s2 where i: "input ?p s1 = (res, s2)" by (cases "input ?p s1")
    with inp O obtain f2 where I: "\<forall>i \<in> ring_memory buff n. payload_bytes s2 i = payload_bytes s1 i"
      "rx_pool c buff n E s2 f2" "res \<noteq> ERR_OK \<longrightarrow> owned c E s2 ?p ?xs f2"
      unfolding input_ok_def by blast
    show ?thesis
    proof (cases "res = ERR_OK")
      case ok: True
      from rx_ring_memory [OF ring] I(1) have "rx_ring tab buff n e1 (payload_bytes s2) (Suc g mod n) q" by simp
      with L(1) True i ok I(2) show ?thesis by (auto simp: lwip_pkt_handle_def ethernetif_input_def)
    next
      case err: False
      then have "lwip_pkt_handle c env input e st =
          (case free_packet c env ?p s2 of None \<Rightarrow> None | Some st \<Rightarrow> Some (e1, st))"
        using L(1) True i by (cases res) (simp_all add: lwip_pkt_handle_def ethernetif_input_def)
      with fin [of s2 f2] I err show ?thesis by simp
    qed
  qed
qed

lemma rx_size_ring:
  assumes "rx_ring tab buff n e m g q"
  shows "ETH_GetRxPktSize (rx_desc e) \<noteq> 0 \<longleftrightarrow> q \<noteq> []"
proof (cases q)
  case Nil
  with rx_packet_empty assms rx_ringD(1,3) [OF assms] rx_ringD(7) [OF assms, of 0] show ?thesis
    by (simp add: ETH_GetRxPktSize_def rx_desc_def dma_owned_def)
next
  case (Cons f fs)
  with rx_ringD(1,3) [OF assms] rx_ringD(6) [OF assms, of 0] have f: "filled (rx_desc e) m f" by (simp add: rx_desc_def)
  then have "length f + 4 < 4294967296" by (simp add: filled_def ETH_BUF_SIZE_def)
  then have "unat (of_nat (length f + 4) :: u32) = length f + 4" by (simp only: unat_of_nat_u32 mod_less)
  then have "(of_nat (length f + 4) :: u32) \<noteq> 0" by (metis add_is_0 unsigned_0 zero_neq_numeral)
  with f Cons show ?thesis by (simp add: ETH_GetRxPktSize_def ETH_GetDMARxDescFrameLength_def filled_def)
qed

lemma irq_loop_ring:
  assumes c: "pbuf_cfg_ok c" "quiet env" and inp: "input_ok c buff n E input"
  shows "rx_ring tab buff n e (payload_bytes st) g q \<Longrightarrow> rx_pool c buff n E st fl \<Longrightarrow>
    \<exists>e' st' fl'. irq_loop c env input e st = Some (e', st') \<and> rx_pool c buff n E st' fl' \<and>
      rx_ring tab buff n e' (payload_bytes st') ((g + length q) mod n) []"
proof (induction q arbitrary: e st g fl)
  case Nil
  then have "g mod n = g" using rx_ringD(1) by simp
  with Nil rx_size_ring [OF Nil.prems(1)] show ?case by (subst irq_loop.simps) auto
next
  case (Cons f q)
  from pkt_handle_ring [OF c Cons.prems inp] obtain e1 s1 f1 where
    "lwip_pkt_handle c env input e st = Some (e1, s1)" "rx_pool c buff n E s1 f1"
    "rx_ring tab buff n e1 (payload_bytes s1) (Suc g mod n) q" by blast
  with Cons.IH [of e1 s1 "Suc g mod n" f1] rx_size_ring [OF Cons.prems(1)] show ?case
    by (subst irq_loop.simps) (auto simp: mod_add_left_eq)
qed


section \<open>Sending, and the MAC address\<close>

text \<open>\<^verbatim>\<open>ETH_Tx_Packet\<close> marks the descriptor as a whole frame and hands it to the DMA; a MAC address is
  read back from the registers as it was set.\<close>

lemma mac_bytes:
  fixes b0 b1 b2 b3 :: u8
  defines "w \<equiv> push_bit 24 (ucast b3) OR push_bit 16 (ucast b2) OR push_bit 8 (ucast b1) OR ucast b0 :: u32"
  shows "ucast (w AND 0xFF) = b0" "ucast (drop_bit 8 w AND 0xFF) = b1" "ucast (drop_bit 16 w AND 0xFF) = b2"
    "ucast (drop_bit 24 w AND 0xFF) = b3"
proof -
  have ff: "(0xFF :: u32) = mask 8" by (simp add: mask_eq_decr_exp)
  show "ucast (w AND 0xFF) = b0" "ucast (drop_bit 8 w AND 0xFF) = b1" "ucast (drop_bit 16 w AND 0xFF) = b2"
    "ucast (drop_bit 24 w AND 0xFF) = b3"
    unfolding w_def ff by (rule bit_word_eqI, auto simp: bit_simps dest: bit_imp_le_length)+
qed

lemma eth_mac_roundtrip:
  assumes "length a = 6"
  shows "ETH_GetMACAddress k (ETH_MACAddressConfig k a e) = a"
proof -
  obtain b0 b1 b2 b3 b4 b5 where a: "a = [b0, b1, b2, b3, b4, b5]"
    using assms by (auto simp: length_Suc_conv eval_nat_numeral)
  have "push_bit 8 (ucast b5) OR ucast b4 = (push_bit 24 (ucast (0 :: u8)) OR push_bit 16 (ucast (0 :: u8)) OR
      push_bit 8 (ucast b5) OR ucast b4 :: u32)" by simp
  then have "ucast ((push_bit 8 (ucast b5) OR ucast b4 :: u32) AND 0xFF) = b4"
    "ucast (drop_bit 8 (push_bit 8 (ucast b5) OR ucast b4 :: u32) AND 0xFF) = b5"
    using mac_bytes(1,2) [where ?b3.0 = 0 and ?b2.0 = 0 and ?b1.0 = b5 and ?b0.0 = b4] by (simp_all del: drop_bit_or)
  then show ?thesis
    unfolding a by (simp add: ETH_GetMACAddress_def ETH_MACAddressConfig_def Let_def mac_bytes nth_Cons' del: drop_bit_or)
qed

lemma tx_packet_spec:
  assumes "Status (tx_desc e) AND ETH_DMATxDesc_OWN = 0" "len < 8192"
  shows "\<exists>e'. ETH_Tx_Packet len e = (True, e') \<and> DMATxDescToSet e' = Buffer2NextDescAddr (tx_desc e) \<and>
    descs e' = (descs e)(DMATxDescToSet e := (tx_desc e)\<lparr>ControlBufferSize := of_nat len,
      Status := Status (tx_desc e) OR 0xB0000000\<rparr>)"
proof -
  have "(of_nat len :: u32) AND 0x1FFF = of_nat len"
  proof -
    have "(0x1FFF :: u32) = mask 13" by (simp add: mask_eq_decr_exp)
    moreover have "take_bit 13 (of_nat len :: u32) = of_nat len"
      using assms(2) by (simp add: take_bit_of_nat take_bit_nat_eq_self)
    ultimately show ?thesis by (simp only: take_bit_eq_mask [symmetric])
  qed
  then show ?thesis
    using assms(1)
    by (auto simp: ETH_Tx_Packet_def Let_def tx_desc_def upd_desc_def resume_tx_def write_DMASR_def tx_flags or.assoc)
qed

section \<open>Runs of the receiver\<close>

text \<open>The DMA fills the descriptors in turn, the driver takes frames out and gives the descriptors
  back, and everything else may write outside the buffers.  \<open>arr\<close> are the frames that arrived so
  far, \<open>out\<close> those taken.\<close>

inductive rx_run ::
    "nat \<Rightarrow> nat \<Rightarrow> nat \<Rightarrow> eth \<times> (nat \<Rightarrow> u8) \<Rightarrow> u8 list list \<Rightarrow> u8 list list \<Rightarrow> bool"
  for tab buff n where
  rx_start: "rx_run tab buff n (ETH_DMARxDescChainInit tab buff n e, m) [] []"
| rx_fill: "rx_run tab buff n s arr out \<Longrightarrow> dma_fills (slot tab (length arr mod n)) f s s' \<Longrightarrow>
    rx_run tab buff n s' (arr @ [f]) out"
| rx_take: "rx_run tab buff n (e, m) arr out \<Longrightarrow> ETH_Rx_Packet e = (fr, e1) \<Longrightarrow> give_back fr e1 = Some e2 \<Longrightarrow>
    rx_run tab buff n (e2, m) arr (out @ [load_bytes (f_buffer fr) (unat (ucast (f_length fr) :: u16)) m])"
| rx_other: "rx_run tab buff n (e, m) arr out \<Longrightarrow> (\<forall>i \<in> ring_memory buff n. m' i = m i) \<Longrightarrow>
    rx_run tab buff n (e, m') arr out"

lemma rx_run_ring:
  assumes "rx_run tab buff n s arr out" "0 < n"
  shows "\<exists>q. arr = out @ q \<and> rx_ring tab buff n (fst s) (snd s) (length out mod n) q"
  using assms
proof (induction rule: rx_run.induct)
  case (rx_start e m)
  then show ?case using rx_init_ring by simp
next
  case (rx_fill s arr out f s')
  then obtain q where q: "arr = out @ q" "rx_ring tab buff n (fst s) (snd s) (length out mod n) q" by blast
  note R = rx_ringD [OF q(2)]
  have pos: "(length out mod n + length q) mod n = length arr mod n" by (simp add: q(1) mod_add_left_eq)
  have "length q < n"
  proof (rule ccontr)
    assume "\<not> length q < n"
    with R(2) have full: "length q = n" by simp
    then have "filled (descs (fst s) (slot tab (length arr mod n))) (snd s) (q ! 0)"
      using R(6) [of 0] pos rx_fill.prems by (simp add: mod_add_left_eq)
    with rx_fill.hyps(2) show False by (auto simp: dma_fills_def dma_owned_def filled_def)
  qed
  with rx_ring_fill [OF q(2) _, of f "fst s'" "snd s'"] rx_fill.hyps(2) pos q(1) show ?case by simp
next
  case (rx_take e m arr out fr e1 e2)
  then obtain q where q: "arr = out @ q" "rx_ring tab buff n e m (length out mod n) q" by auto
  show ?case
  proof (cases q)
    case Nil
    with rx_packet_empty q(2) rx_take.hyps(2,3) show ?thesis by (auto simp: give_back_def)
  next
    case (Cons f fs)
    from rx_packet_ring [OF q(2) [unfolded Cons]] rx_take.hyps(2,3)
    have "unat (ucast (f_length fr) :: u16) = length f" "load_bytes (f_buffer fr) (length f) m = f"
      "rx_ring tab buff n e2 m (Suc (length out mod n) mod n) fs" by auto
    with q(1) Cons show ?thesis by (simp add: mod_Suc_eq)
  qed
next
  case (rx_other e m arr out m')
  then show ?case using rx_ring_memory by (metis fst_conv snd_conv)
qed

text \<open>What happens to the state of the receiver from outside: the DMA changes no descriptor that the CPU
  owns, and interrupts occur.\<close>

inductive rx_events :: "pbuf_cfg \<Rightarrow> pbuf_env \<Rightarrow> eth_input \<Rightarrow> eth \<times> pst \<Rightarrow> eth \<times> pst \<Rightarrow> bool" for c env input where
  ev_none: "rx_events c env input s s"
| ev_dma: "rx_events c env input s (e, st) \<Longrightarrow> DMARxDescToGet e' = DMARxDescToGet e \<Longrightarrow>
    (\<forall>a. \<not> dma_owned (descs e a) \<longrightarrow> descs e' a = descs e a) \<Longrightarrow> rx_events c env input s (e', st')"
| ev_irq: "rx_events c env input s (e, st) \<Longrightarrow> ETH_IRQHandler c env input e st = Some (e', st') \<Longrightarrow>
    rx_events c env input s (e', st')"

lemma irq_error:
  assumes "\<not> dma_owned (rx_desc e)"
    "Status (rx_desc e) AND ETH_DMARxDesc_ES \<noteq> 0 \<or> Status (rx_desc e) AND ETH_DMARxDesc_LS = 0"
  shows "\<exists>e'. ETH_IRQHandler c env input e st = Some (e', st) \<and> descs e' = descs e \<and>
    DMARxDescToGet e' = DMARxDescToGet e"
  using assms
  by (subst ETH_IRQHandler_def, subst irq_loop.simps)
    (auto simp: ETH_GetRxPktSize_def ETH_DMAClearITPendingBit_def write_DMASR_def)

text \<open>For the witnesses: a ring of one descriptor, without and with a frame of one byte.\<close>

definition ex_eth0 :: eth where
  "ex_eth0 = ETH_DMARxDescChainInit 0 100000 1 \<lparr>descs = (\<lambda>_. rx_entry 0 0 1 0), DMARxDescToGet = 0, DMATxDescToSet = 0,
     DMA_RX_FRAME_infos = \<lparr>FS_Rx_Desc = None, LS_Rx_Desc = None, Seg_Count = 0\<rparr>, DMASR = 0, DMAOMR = 0, MACCR = 0,
     DMARDLAR = 0, DMATDLAR = 0, rx_resumed = False, tx_resumed = False, mac_addr = (\<lambda>_. 0)\<rparr>"

definition ex_eth1 :: eth where
  "ex_eth1 = upd_desc 0 (\<lambda>d. d\<lparr>Status := 0x00050300\<rparr>) ex_eth0"

lemma ex_eth_simps:
  "descs ex_eth0 0 = rx_entry 0 100000 1 0" "DMARxDescToGet ex_eth0 = 0"
  by (simp_all add: ex_eth0_def ETH_DMARxDescChainInit_def)

lemma ex_fills: "dma_fills 0 [160] (ex_eth0, of_nat) (ex_eth1, of_nat)"
  by (auto simp: dma_fills_def dma_owned_def filled_def ex_eth1_def ex_eth_simps rx_entry_def rx_flags
      ETH_BUF_SIZE_def load_bytes_def)

lemma ex_ring: "rx_ring 0 100000 1 ex_eth1 (payload_bytes ex_st) 0 [[160]]"
proof -
  have "rx_ring 0 100000 1 ex_eth0 of_nat 0 []" unfolding ex_eth0_def by (rule rx_init_ring) simp
  from rx_ring_fill [OF this, of "[160]" ex_eth1 of_nat] ex_fills show ?thesis
    by (simp add: ex_st_def slot_def)
qed

lemma ex_rx_pool: "rx_pool ex_cfg 100000 1 {200, 400} ex_st ex_lists"
proof -
  have "SIZEOF_STRUCT_PBUF ex_cfg = 16" by (simp add: SIZEOF_STRUCT_PBUF_def ex_facts(7))
  with ex_facts(3,8) show ?thesis
    by (auto simp: rx_pool_def spaced_def ex_lists_def ring_memory_def)
qed

section \<open>Properties\<close>

text \<open>Property C18: in every run from \<^verbatim>\<open>ETH_DMARxDescChainInit\<close> on, the frames that \<^verbatim>\<open>ETH_Rx_Packet\<close> has
  returned are those that arrived, in order, without loss or repetition, except for at most \<open>n\<close> that
  still wait in the ring.\<close>

theorem eth_rx_fifo:
  assumes "rx_run tab buff n s arr out" and "0 < n"
  shows "out = take (length out) arr \<and> length arr \<le> length out + n"
proof -
  from rx_run_ring [OF assms] obtain q where "arr = out @ q" "rx_ring tab buff n (fst s) (snd s) (length out mod n) q"
    by blast
  with rx_ringD(2) show ?thesis by fastforce
qed

lemma eth_rx_fifo_witness:
  "\<exists>s out. rx_run 0 100000 1 s [[160]] out \<and> length out = 1 \<and> out = take 1 [[160]]"
proof -
  have "rx_run 0 100000 1 (ex_eth0, of_nat) [] []" unfolding ex_eth0_def by (rule rx_start)
  from rx_fill [OF this, of "[160]" "(ex_eth1, of_nat)"] ex_fills
  have "rx_run 0 100000 1 (ex_eth1, of_nat) [[160]] []" by (simp add: slot_def)
  moreover from rx_packet_ring [OF ex_ring] obtain fr e1 e2 where
    "ETH_Rx_Packet ex_eth1 = (fr, e1)" "give_back fr e1 = Some e2" by blast
  ultimately have "\<exists>s out. rx_run 0 100000 1 s [[160]] out \<and> length out = 1"
    using rx_take by fastforce
  then show ?thesis using eth_rx_fifo [of 0 100000 1 _ "[[160]]"] by fastforce
qed

text \<open>Property C19: \<^verbatim>\<open>low_level_input\<close> turns the oldest frame of the ring into a packet with the same bytes, made
  of as few pool elements as possible, or into NULL when the pool has too few; in both cases the
  descriptor goes back to the DMA and the other frames stay.\<close>

theorem low_level_input_delivers:
  assumes "pbuf_cfg_ok c" and "quiet env" and "rx_ring tab buff n e (payload_bytes st) g (f # q)"
    and "rx_pool c buff n E st fl"
  shows "\<exists>p e' st'. low_level_input c env e st = Some (p, e', st') \<and>
    rx_ring tab buff n e' (payload_bytes st') (Suc g mod n) q \<and>
    (let es = fl MEMP_PBUF_POOL; k = length (pool_need c PBUF_RAW (length f))
     in if k \<le> length es then p = Some (hd es) \<and> packet st' p (take k es) \<and> contents st' (take k es) = f else p = None)"
proof -
  from low_level_input_spec [OF assms] obtain e' st' where "if length (pool_need c PBUF_RAW (length f)) \<le> length (fl MEMP_PBUF_POOL)
    then low_level_input c env e st = Some (Some (hd (fl MEMP_PBUF_POOL)), e', st') \<and>
      packet st' (Some (hd (fl MEMP_PBUF_POOL))) (take (length (pool_need c PBUF_RAW (length f))) (fl MEMP_PBUF_POOL)) \<and>
      contents st' (take (length (pool_need c PBUF_RAW (length f))) (fl MEMP_PBUF_POOL)) = f \<and>
      rx_ring tab buff n e' (payload_bytes st') (Suc g mod n) q
    else low_level_input c env e st = Some (None, e', st') \<and>
      rx_ring tab buff n e' (payload_bytes st') (Suc g mod n) q"
    by (auto split: if_splits)
  then show ?thesis by (auto simp: Let_def split: if_splits)
qed

lemma low_level_input_delivers_witness:
  "\<exists>e' st'. low_level_input ex_cfg ex_env ex_eth1 ex_st = Some (Some 200, e', st') \<and> contents st' [200] = [160]"
proof -
  have "pool_need ex_cfg PBUF_RAW 1 = [1]"
    by (simp add: pool_need_def header_offset_def ex_facts(8) pool_lens.simps)
      (simp add: align_def ex_cfg_def LWIP_MEM_ALIGN_SIZE_def pool_lens.simps)
  then show ?thesis
    using low_level_input_delivers [OF ex_facts(1,2) ex_ring ex_rx_pool] by (auto simp: ex_lists_def Let_def)
qed

text \<open>Property C20: with a ring of error-free frames in one buffer each (\<open>rx_ring\<close>) the interrupt handler ends and
  leaves no frame in the ring: each one has been passed to the stack or dropped, and all descriptors belong to the DMA
  again.  This holds for every \<^verbatim>\<open>netif->input\<close> that keeps its contract (\<open>input_ok\<close>): with \<^verbatim>\<open>ERR_OK\<close> it has taken the
  packet over, otherwise the packet is still the caller's, the pool is in order and the frame buffers are not
  written.\<close>

theorem eth_irq_drains:
  assumes "pbuf_cfg_ok c" and "quiet env" and "input_ok c buff n E input"
    and "rx_ring tab buff n e (payload_bytes st) g q" and "rx_pool c buff n E st fl"
  shows "\<exists>e' st' fl'. ETH_IRQHandler c env input e st = Some (e', st') \<and> rx_pool c buff n E st' fl' \<and>
    rx_ring tab buff n e' (payload_bytes st') ((g + length q) mod n) []"
proof -
  from irq_loop_ring [OF assms] obtain e' st' fl' where "irq_loop c env input e st = Some (e', st')"
    "rx_pool c buff n E st' fl'" "rx_ring tab buff n e' (payload_bytes st') ((g + length q) mod n) []" by blast
  then show ?thesis
    by (auto simp: ETH_IRQHandler_def ETH_DMAClearITPendingBit_def write_DMASR_def rx_ring_def)
qed

lemma eth_irq_drains_witness:
  "\<exists>e' st'. ETH_IRQHandler ex_cfg ex_env (\<lambda>_ st. (ERR_VAL, st)) ex_eth1 ex_st = Some (e', st') \<and>
     rx_ring 0 100000 1 e' (payload_bytes st') 0 []"
proof -
  have "input_ok ex_cfg 100000 1 {200, 400} (\<lambda>_ st. (ERR_VAL, st))" by (auto simp: input_ok_def)
  from eth_irq_drains [OF ex_facts(1,2) this ex_ring ex_rx_pool] show ?thesis by auto
qed

text \<open>Property C21: a frame with an error, or one that needs a second buffer, blocks the receiver: once the
  descriptor the driver looks at has the error bit or lacks the last-segment bit, no number of further interrupts moves the driver on, whatever the DMA does with the other
  descriptors.\<close>

theorem eth_error_frame_stalls:
  assumes "rx_events c env input (e, st) (e', st')"
    and "Status (rx_desc e) AND ETH_DMARxDesc_OWN = 0"
    and "Status (rx_desc e) AND ETH_DMARxDesc_ES \<noteq> 0 \<or> Status (rx_desc e) AND ETH_DMARxDesc_LS = 0"
  shows "DMARxDescToGet e' = DMARxDescToGet e \<and> rx_desc e' = rx_desc e \<and>
    ETH_GetRxPktSize (rx_desc e') = 0"
proof -
  have "DMARxDescToGet (fst s') = DMARxDescToGet (fst s) \<and> rx_desc (fst s') = rx_desc (fst s)"
    if "rx_events c env input s s'" "\<not> dma_owned (rx_desc (fst s))"
      "Status (rx_desc (fst s)) AND ETH_DMARxDesc_ES \<noteq> 0 \<or> Status (rx_desc (fst s)) AND ETH_DMARxDesc_LS = 0"
    for s s'
    using that
  proof (induction rule: rx_events.induct)
    case (ev_irq s e st e' st')
    with irq_error [of e c env input st] show ?case by (auto simp: rx_desc_def)
  qed (auto simp: rx_desc_def)
  from this [OF assms(1)] assms(2,3) show ?thesis by (auto simp: dma_owned_def ETH_GetRxPktSize_def)
qed


lemma eth_error_frame_stalls_witness:
  "\<exists>e e' st'. rx_events ex_cfg ex_env (\<lambda>_ st. (ERR_OK, st)) (e, ex_st) (e', st') \<and>
     Status (rx_desc e) = 0x00408300 \<and> rx_desc e' = rx_desc e"
proof -
  let ?e = "upd_desc 0 (\<lambda>d. d\<lparr>Status := 0x00408300\<rparr>) ex_eth0"
  have d: "Status (rx_desc ?e) = 0x00408300" by (simp add: rx_desc_def ex_eth_simps)
  then have c: "Status (rx_desc ?e) AND ETH_DMARxDesc_OWN = 0"
    "Status (rx_desc ?e) AND ETH_DMARxDesc_ES \<noteq> 0 \<or> Status (rx_desc ?e) AND ETH_DMARxDesc_LS = 0"
    by (simp_all add: rx_flags)
  from irq_error [of ?e ex_cfg ex_env "\<lambda>_ st. (ERR_OK, st)" ex_st] c obtain e' where
    "ETH_IRQHandler ex_cfg ex_env (\<lambda>_ st. (ERR_OK, st)) ?e ex_st = Some (e', ex_st)" by (auto simp: dma_owned_def)
  then have ev: "rx_events ex_cfg ex_env (\<lambda>_ st. (ERR_OK, st)) (?e, ex_st) (e', ex_st)"
    using ev_irq [OF ev_none] by blast
  from eth_error_frame_stalls [OF this c] d ev show ?thesis by blast
qed

end
