(* ===== verification/Etharp.thy ===== *)
theory Etharp
  imports Pbuf_Data Ip_Addr "HOL-Library.Monad_Syntax"
begin

text \<open>
  \<^verbatim>\<open>lwip/src/netif/etharp.c\<close>: the ARP table, ARP messages, and sending and receiving IP packets over
  Ethernet, in the default configuration (one queued packet per entry, no static entries, no VLAN tags,
  one cached entry, DHCP and AutoIP off).

  The state is the table, the cached index, the packet buffers, and the frames handed to
  \<^verbatim>\<open>netif->linkoutput\<close>, whose result is the argument \<open>lo\<close>.  An Ethernet address is a list of six bytes;
  a packet's headers are the bytes at its payload.  A function's result is \<open>None\<close> when a packet buffer
  function does not return.  The index \<open>ERR_MEM\<close> of \<^verbatim>\<open>etharp_find_entry\<close> is \<open>None\<close>.
\<close>

section \<open>State\<close>

datatype etharp_state =
  ETHARP_STATE_EMPTY | ETHARP_STATE_PENDING | ETHARP_STATE_STABLE | ETHARP_STATE_STABLE_REREQUESTING

definition stable :: "etharp_state \<Rightarrow> bool" where
  "stable s \<longleftrightarrow> s = ETHARP_STATE_STABLE \<or> s = ETHARP_STATE_STABLE_REREQUESTING"

record etharp_entry =
  e_q :: "nat option"
  e_ipaddr :: u32
  e_netif :: nat
  e_ethaddr :: "u8 list"
  e_state :: etharp_state
  e_ctime :: nat

record arp =
  arp_table :: "etharp_entry list"
  etharp_cached_entry :: nat
  a_st :: pst
  a_sent :: "u8 list list"

record arp_netif = netif +
  nif_gw :: u32
  nif_hwaddr :: "u8 list"
  nif_id :: nat

definition ARP_TABLE_SIZE :: nat where "ARP_TABLE_SIZE = 10"

definition ARP_MAXAGE :: nat where "ARP_MAXAGE = 240"

definition ARP_AGE_REREQUEST_USED :: nat where "ARP_AGE_REREQUEST_USED = ARP_MAXAGE - 12"

definition ARP_MAXPENDING :: nat where "ARP_MAXPENDING = 2"

definition ETHARP_FLAG_TRY_HARD :: u8 where "ETHARP_FLAG_TRY_HARD = 1"

definition ETHARP_FLAG_FIND_ONLY :: u8 where "ETHARP_FLAG_FIND_ONLY = 2"

definition ethbroadcast :: "u8 list" where "ethbroadcast = replicate 6 0xFF"

definition ethzero :: "u8 list" where "ethzero = replicate 6 0"

definition ip_addr_isany :: "u32 \<Rightarrow> bool" where "ip_addr_isany a \<longleftrightarrow> a = 0"

definition ip_addr_ismulticast :: "u32 \<Rightarrow> bool" where "ip_addr_ismulticast a \<longleftrightarrow> a AND 0xF0 = 0xE0"

definition ip_addr_islinklocal :: "u32 \<Rightarrow> bool" where "ip_addr_islinklocal a \<longleftrightarrow> a AND 0xFFFF = 0xFEA9"

definition upd_entry :: "nat \<Rightarrow> (etharp_entry \<Rightarrow> etharp_entry) \<Rightarrow> arp \<Rightarrow> arp" where
  "upd_entry i f s = s\<lparr>arp_table := (arp_table s)[i := f (arp_table s ! i)]\<rparr>"

definition free_pbuf :: "pbuf_cfg \<Rightarrow> pbuf_env \<Rightarrow> nat \<Rightarrow> arp \<Rightarrow> arp option" where
  "free_pbuf c env p s = do { (_, st) \<leftarrow> pbuf_free c env (Some p) (a_st s); Some (s\<lparr>a_st := st\<rparr>) }"

text \<open>\<^verbatim>\<open>netif->linkoutput\<close> puts the bytes of the packet on the wire.\<close>

definition linkoutput :: "(u8 list \<Rightarrow> err_t) \<Rightarrow> nat \<Rightarrow> arp \<Rightarrow> (err_t \<times> arp) option" where
  "linkoutput lo p s = do {
     f \<leftarrow> pbuf_copy_partial (Some p) (p_tot_len (pbufs (a_st s) p)) 0 (a_st s);
     Some (lo f, s\<lparr>a_sent := a_sent s @ [f]\<rparr>) }"

text \<open>Writing \<open>bs\<close> at offset \<open>k\<close> of the payload of \<open>p\<close>, and reading there.\<close>

definition put_at :: "nat \<Rightarrow> nat \<Rightarrow> u8 list \<Rightarrow> arp \<Rightarrow> arp" where
  "put_at p k bs s = s\<lparr>a_st := write_bytes (p_payload (pbufs (a_st s) p) + k) bs (a_st s)\<rparr>"

definition get_at :: "nat \<Rightarrow> nat \<Rightarrow> nat \<Rightarrow> arp \<Rightarrow> u8 list" where
  "get_at p k n s = load_bytes (p_payload (pbufs (a_st s) p) + k) n (payload_bytes (a_st s))"

definition ip_of :: "u8 list \<Rightarrow> u32" where
  "ip_of bs = le32 (bs ! 0) (bs ! 1) (bs ! 2) (bs ! 3)"

section \<open>The table\<close>

definition etharp_free_entry :: "pbuf_cfg \<Rightarrow> pbuf_env \<Rightarrow> nat \<Rightarrow> arp \<Rightarrow> arp option" where
  "etharp_free_entry c env i s = do {
     s \<leftarrow> (case e_q (arp_table s ! i) of
            None \<Rightarrow> Some s
          | Some q \<Rightarrow> do { s \<leftarrow> free_pbuf c env q s; Some (upd_entry i (\<lambda>e. e\<lparr>e_q := None\<rparr>) s) });
     Some (upd_entry i (\<lambda>e. e\<lparr>e_state := ETHARP_STATE_EMPTY\<rparr>) s) }"

text \<open>The body of the loop of \<^verbatim>\<open>etharp_tmr\<close>.\<close>

definition tmr_entry :: "pbuf_cfg \<Rightarrow> pbuf_env \<Rightarrow> nat \<Rightarrow> arp \<Rightarrow> arp option" where
  "tmr_entry c env i s =
     (if e_state (arp_table s ! i) \<noteq> ETHARP_STATE_EMPTY then
        (let s = upd_entry i (\<lambda>e. e\<lparr>e_ctime := (e_ctime e + 1) mod 256\<rparr>) s; e = arp_table s ! i
         in if e_ctime e \<ge> ARP_MAXAGE \<or> e_state e = ETHARP_STATE_PENDING \<and> e_ctime e \<ge> ARP_MAXPENDING
            then etharp_free_entry c env i s
            else if e_state e = ETHARP_STATE_STABLE_REREQUESTING
            then Some (upd_entry i (\<lambda>e. e\<lparr>e_state := ETHARP_STATE_STABLE\<rparr>) s) else Some s)
      else Some s)"

fun tmr_loop :: "pbuf_cfg \<Rightarrow> pbuf_env \<Rightarrow> nat list \<Rightarrow> arp \<Rightarrow> arp option" where
  "tmr_loop c env [] s = Some s"
| "tmr_loop c env (i # is) s = do { s \<leftarrow> tmr_entry c env i s; tmr_loop c env is s }"

definition etharp_tmr :: "pbuf_cfg \<Rightarrow> pbuf_env \<Rightarrow> arp \<Rightarrow> arp option" where
  "etharp_tmr c env s = tmr_loop c env [0..<ARP_TABLE_SIZE] s"

text \<open>The candidates the search remembers (\<^verbatim>\<open>ARP_TABLE_SIZE\<close>: none) with their ages.\<close>

record cand =
  c_empty :: nat
  old_pending :: nat
  age_pending :: nat
  old_stable :: nat
  age_stable :: nat
  old_queue :: nat
  age_queue :: nat

definition no_cand :: cand where
  "no_cand = \<lparr>c_empty = ARP_TABLE_SIZE, old_pending = ARP_TABLE_SIZE, age_pending = 0, old_stable = ARP_TABLE_SIZE,
     age_stable = 0, old_queue = ARP_TABLE_SIZE, age_queue = 0\<rparr>"

definition note_old :: "nat \<Rightarrow> etharp_entry \<Rightarrow> cand \<Rightarrow> cand" where
  "note_old i e cd =
     (if e_state e = ETHARP_STATE_PENDING then
        if e_q e \<noteq> None then
          if e_ctime e \<ge> age_queue cd then cd\<lparr>old_queue := i, age_queue := e_ctime e\<rparr> else cd
        else if e_ctime e \<ge> age_pending cd then cd\<lparr>old_pending := i, age_pending := e_ctime e\<rparr> else cd
      else if stable (e_state e) then
        if e_ctime e \<ge> age_stable cd then cd\<lparr>old_stable := i, age_stable := e_ctime e\<rparr> else cd
      else cd)"

text \<open>\<open>Inl\<close> the entry that matches, or \<open>Inr\<close> the candidates.\<close>

fun find_scan :: "u32 option \<Rightarrow> etharp_entry list \<Rightarrow> nat \<Rightarrow> cand \<Rightarrow> nat + cand" where
  "find_scan ipaddr [] i cd = Inr cd"
| "find_scan ipaddr (e # es) i cd =
     (if c_empty cd = ARP_TABLE_SIZE \<and> e_state e = ETHARP_STATE_EMPTY
      then find_scan ipaddr es (Suc i) (cd\<lparr>c_empty := i\<rparr>)
      else if e_state e \<noteq> ETHARP_STATE_EMPTY then
        if ipaddr = Some (e_ipaddr e) then Inl i else find_scan ipaddr es (Suc i) (note_old i e cd)
      else find_scan ipaddr es (Suc i) cd)"

definition recyclable :: "cand \<Rightarrow> nat option" where
  "recyclable cd =
     (if old_stable cd < ARP_TABLE_SIZE then Some (old_stable cd)
      else if old_pending cd < ARP_TABLE_SIZE then Some (old_pending cd)
      else if old_queue cd < ARP_TABLE_SIZE then Some (old_queue cd) else None)"

definition etharp_find_entry ::
    "pbuf_cfg \<Rightarrow> pbuf_env \<Rightarrow> u32 option \<Rightarrow> u8 \<Rightarrow> arp \<Rightarrow> (nat option \<times> arp) option" where
  "etharp_find_entry c env ipaddr flags s =
     (case find_scan ipaddr (arp_table s) 0 no_cand of
        Inl i \<Rightarrow> Some (Some i, s)
      | Inr cd \<Rightarrow>
          if flags AND ETHARP_FLAG_FIND_ONLY \<noteq> 0 \<or> c_empty cd = ARP_TABLE_SIZE \<and> flags AND ETHARP_FLAG_TRY_HARD = 0
          then Some (None, s)
          else case (if c_empty cd < ARP_TABLE_SIZE then Some (c_empty cd) else recyclable cd) of
                 None \<Rightarrow> Some (None, s)
               | Some i \<Rightarrow> do {
                   s \<leftarrow> (if c_empty cd < ARP_TABLE_SIZE then Some s else etharp_free_entry c env i s);
                   Some (Some i, upd_entry i (\<lambda>e. e\<lparr>e_ipaddr := (case ipaddr of None \<Rightarrow> e_ipaddr e | Some a \<Rightarrow> a),
                                                   e_ctime := 0\<rparr>) s) })"

definition etharp_find_addr :: "pbuf_cfg \<Rightarrow> pbuf_env \<Rightarrow> u32 \<Rightarrow> arp \<Rightarrow> ((nat \<times> u8 list \<times> u32) option \<times> arp) option" where
  "etharp_find_addr c env ipaddr s = do {
     (i, s) \<leftarrow> etharp_find_entry c env (Some ipaddr) ETHARP_FLAG_FIND_ONLY s;
     case i of
       None \<Rightarrow> Some (None, s)
     | Some i \<Rightarrow>
         if stable (e_state (arp_table s ! i))
         then Some (Some (i, e_ethaddr (arp_table s ! i), e_ipaddr (arp_table s ! i)), s) else Some (None, s) }"

fun cleanup_loop :: "pbuf_cfg \<Rightarrow> pbuf_env \<Rightarrow> nat \<Rightarrow> nat list \<Rightarrow> arp \<Rightarrow> arp option" where
  "cleanup_loop c env nif [] s = Some s"
| "cleanup_loop c env nif (i # is) s = do {
     s \<leftarrow> (if e_state (arp_table s ! i) \<noteq> ETHARP_STATE_EMPTY \<and> e_netif (arp_table s ! i) = nif
           then etharp_free_entry c env i s else Some s);
     cleanup_loop c env nif is s }"

definition etharp_cleanup_netif :: "pbuf_cfg \<Rightarrow> pbuf_env \<Rightarrow> nat \<Rightarrow> arp \<Rightarrow> arp option" where
  "etharp_cleanup_netif c env nif s = cleanup_loop c env nif [0..<ARP_TABLE_SIZE] s"

section \<open>Sending IP packets and updating the table\<close>

definition etharp_send_ip ::
    "(u8 list \<Rightarrow> err_t) \<Rightarrow> nat \<Rightarrow> u8 list \<Rightarrow> u8 list \<Rightarrow> arp \<Rightarrow> (err_t \<times> arp) option" where
  "etharp_send_ip lo p src dst s =
     (let s = put_at p 0 dst s; s = put_at p 6 src s; s = put_at p 12 [0x08, 0x00] s in linkoutput lo p s)"

definition unicast :: "u32 \<Rightarrow> arp_netif \<Rightarrow> bool" where
  "unicast ipaddr n \<longleftrightarrow> \<not> (ip_addr_isany ipaddr \<or> ip4_addr_isbroadcast ipaddr (netif.truncate n) \<or> ip_addr_ismulticast ipaddr)"

definition etharp_update_arp_entry ::
    "pbuf_cfg \<Rightarrow> pbuf_env \<Rightarrow> (u8 list \<Rightarrow> err_t) \<Rightarrow> arp_netif \<Rightarrow> u32 \<Rightarrow> u8 list \<Rightarrow> u8 \<Rightarrow> arp \<Rightarrow> (err_t \<times> arp) option" where
  "etharp_update_arp_entry c env lo n ipaddr ethaddr flags s =
     (if \<not> unicast ipaddr n then Some (ERR_ARG, s)
      else do {
        (i, s) \<leftarrow> etharp_find_entry c env (Some ipaddr) flags s;
        case i of
          None \<Rightarrow> Some (ERR_MEM, s)
        | Some i \<Rightarrow>
            (let s = upd_entry i (\<lambda>e. e\<lparr>e_state := ETHARP_STATE_STABLE, e_netif := nif_id n, e_ethaddr := ethaddr,
                                       e_ctime := 0\<rparr>) s
             in case e_q (arp_table s ! i) of
                  None \<Rightarrow> Some (ERR_OK, s)
                | Some p \<Rightarrow> do {
                    let s = upd_entry i (\<lambda>e. e\<lparr>e_q := None\<rparr>) s;
                    (_, s) \<leftarrow> etharp_send_ip lo p (nif_hwaddr n) ethaddr s;
                    s \<leftarrow> free_pbuf c env p s;
                    Some (ERR_OK, s) }) })"

section \<open>ARP messages\<close>

definition SIZEOF_ETHARP_PACKET :: nat where "SIZEOF_ETHARP_PACKET = 42"

definition etharp_raw ::
    "pbuf_cfg \<Rightarrow> pbuf_env \<Rightarrow> (u8 list \<Rightarrow> err_t) \<Rightarrow> u8 list \<Rightarrow> u8 list \<Rightarrow> u8 list \<Rightarrow> u32 \<Rightarrow> u8 list \<Rightarrow> u32 \<Rightarrow> nat \<Rightarrow> arp \<Rightarrow>
      (err_t \<times> arp) option" where
  "etharp_raw c env lo ethsrc ethdst hwsrc ipsrc hwdst ipdst opcode s = do {
     (p, st) \<leftarrow> pbuf_alloc c env PBUF_RAW SIZEOF_ETHARP_PACKET PBUF_RAM (a_st s);
     let s = s\<lparr>a_st := st\<rparr>;
     case p of
       None \<Rightarrow> Some (ERR_MEM, s)
     | Some p \<Rightarrow> do {
         let s = put_at p 20 [of_nat (opcode div 256), of_nat opcode] s;
         let s = put_at p 22 hwsrc s;
         let s = put_at p 32 hwdst s;
         let s = put_at p 0 ethdst s;
         let s = put_at p 6 ethsrc s;
         let s = put_at p 28 (addr_bytes ipsrc) s;
         let s = put_at p 38 (addr_bytes ipdst) s;
         let s = put_at p 14 [0, 1] s;
         let s = put_at p 16 [0x08, 0x00] s;
         let s = put_at p 18 [6] s;
         let s = put_at p 19 [4] s;
         let s = put_at p 12 [0x08, 0x06] s;
         (result, s) \<leftarrow> linkoutput lo p s;
         s \<leftarrow> free_pbuf c env p s;
         Some (result, s) } }"

definition etharp_request ::
    "pbuf_cfg \<Rightarrow> pbuf_env \<Rightarrow> (u8 list \<Rightarrow> err_t) \<Rightarrow> arp_netif \<Rightarrow> u32 \<Rightarrow> arp \<Rightarrow> (err_t \<times> arp) option" where
  "etharp_request c env lo n ipaddr s =
     etharp_raw c env lo (nif_hwaddr n) ethbroadcast (nif_hwaddr n) (nif_ip_addr n) ethzero ipaddr 1 s"

text \<open>The answer is written into the request.\<close>

definition arp_reply ::
    "(u8 list \<Rightarrow> err_t) \<Rightarrow> arp_netif \<Rightarrow> u8 list \<Rightarrow> nat \<Rightarrow> arp \<Rightarrow> arp option" where
  "arp_reply lo n ethaddr p s = do {
     let s = put_at p 20 [0, 2] s;
     let s = put_at p 38 (get_at p 28 4 s) s;
     let s = put_at p 28 (addr_bytes (nif_ip_addr n)) s;
     let s = put_at p 32 (get_at p 22 6 s) s;
     let s = put_at p 0 (get_at p 22 6 s) s;
     let s = put_at p 22 ethaddr s;
     let s = put_at p 6 ethaddr s;
     (_, s) \<leftarrow> linkoutput lo p s;
     Some s }"

definition etharp_arp_input ::
    "pbuf_cfg \<Rightarrow> pbuf_env \<Rightarrow> (u8 list \<Rightarrow> err_t) \<Rightarrow> arp_netif \<Rightarrow> u8 list \<Rightarrow> nat \<Rightarrow> arp \<Rightarrow> arp option" where
  "etharp_arp_input c env lo n ethaddr p s =
     (if p_len (pbufs (a_st s) p) < SIZEOF_ETHARP_PACKET then free_pbuf c env p s
      else if get_at p 14 2 s \<noteq> [0, 1] \<or> get_at p 18 1 s \<noteq> [6] \<or> get_at p 19 1 s \<noteq> [4] \<or> get_at p 16 2 s \<noteq> [0x08, 0x00]
      then free_pbuf c env p s
      else do {
        let sipaddr = ip_of (get_at p 28 4 s);
        let dipaddr = ip_of (get_at p 38 4 s);
        let for_us = (\<not> ip_addr_isany (nif_ip_addr n) \<and> dipaddr = nif_ip_addr n);
        (_, s) \<leftarrow> etharp_update_arp_entry c env lo n sipaddr (get_at p 22 6 s)
                   (if for_us then ETHARP_FLAG_TRY_HARD else ETHARP_FLAG_FIND_ONLY) s;
        s \<leftarrow> (if get_at p 20 2 s = [0, 1] \<and> for_us then arp_reply lo n ethaddr p s else Some s);
        free_pbuf c env p s })"

text \<open>With \<^verbatim>\<open>ETHARP_TRUST_IP_MAC\<close>: the sender of an IP packet updates its entry.\<close>

definition etharp_ip_input ::
    "pbuf_cfg \<Rightarrow> pbuf_env \<Rightarrow> (u8 list \<Rightarrow> err_t) \<Rightarrow> arp_netif \<Rightarrow> nat \<Rightarrow> arp \<Rightarrow> arp option" where
  "etharp_ip_input c env lo n p s =
     (let src = ip_of (get_at p 26 4 s)
      in if \<not> ip_addr_netcmp src (nif_ip_addr n) (nif_netmask n) then Some s
         else map_option snd (etharp_update_arp_entry c env lo n src (get_at p 6 6 s) ETHARP_FLAG_FIND_ONLY s))"

section \<open>Output\<close>

definition etharp_output_to_arp_index ::
    "pbuf_cfg \<Rightarrow> pbuf_env \<Rightarrow> (u8 list \<Rightarrow> err_t) \<Rightarrow> arp_netif \<Rightarrow> nat \<Rightarrow> nat \<Rightarrow> arp \<Rightarrow> (err_t \<times> arp) option" where
  "etharp_output_to_arp_index c env lo n q i s = do {
     let e = arp_table s ! i;
     s \<leftarrow> (if e_state e = ETHARP_STATE_STABLE \<and> e_ctime e \<ge> ARP_AGE_REREQUEST_USED then do {
             (r, s) \<leftarrow> etharp_request c env lo n (e_ipaddr e) s;
             Some (if r = ERR_OK then upd_entry i (\<lambda>e. e\<lparr>e_state := ETHARP_STATE_STABLE_REREQUESTING\<rparr>) s else s) }
           else Some s);
     etharp_send_ip lo q (nif_hwaddr n) (e_ethaddr (arp_table s ! i)) s }"

text \<open>The first pbuf of the packet that is not \<^verbatim>\<open>PBUF_ROM\<close>.\<close>

partial_function (option) not_rom :: "nat option \<Rightarrow> pst \<Rightarrow> nat option option" where
  "not_rom p st =
     (case p of
        None \<Rightarrow> Some None
      | Some a \<Rightarrow> if p_type (pbufs st a) \<noteq> PBUF_ROM then Some (Some a) else not_rom (p_next (pbufs st a)) st)"

text \<open>What \<^verbatim>\<open>etharp_query\<close> queues: a copy, or the packet itself with one more reference.\<close>

definition take_over :: "pbuf_cfg \<Rightarrow> pbuf_env \<Rightarrow> nat \<Rightarrow> arp \<Rightarrow> (nat option \<times> arp) option" where
  "take_over c env q s = do {
     r \<leftarrow> not_rom (Some q) (a_st s);
     case r of
       None \<Rightarrow> Some (Some q, s\<lparr>a_st := pbuf_ref (Some q) (a_st s)\<rparr>)
     | Some p \<Rightarrow> do {
         (p, st) \<leftarrow> pbuf_alloc c env PBUF_RAW (p_tot_len (pbufs (a_st s) p)) PBUF_RAM (a_st s);
         case p of
           None \<Rightarrow> Some (None, s\<lparr>a_st := st\<rparr>)
         | Some p \<Rightarrow> do {
             (r, st) \<leftarrow> pbuf_copy (Some p) (Some q) st;
             if r = ERR_OK then Some (Some p, s\<lparr>a_st := st\<rparr>)
             else do { s \<leftarrow> free_pbuf c env p (s\<lparr>a_st := st\<rparr>); Some (None, s) } } } }"

text \<open>Queueing on a pending entry; the packet that waited there is dropped.\<close>

definition queue_packet :: "pbuf_cfg \<Rightarrow> pbuf_env \<Rightarrow> nat \<Rightarrow> nat \<Rightarrow> arp \<Rightarrow> (err_t \<times> arp) option" where
  "queue_packet c env q i s = do {
     (p, s) \<leftarrow> take_over c env q s;
     case p of
       None \<Rightarrow> Some (ERR_MEM, s)
     | Some p \<Rightarrow> do {
         s \<leftarrow> (case e_q (arp_table s ! i) of None \<Rightarrow> Some s | Some old \<Rightarrow> free_pbuf c env old s);
         Some (ERR_OK, upd_entry i (\<lambda>e. e\<lparr>e_q := Some p\<rparr>) s) } }"

text \<open>\<^verbatim>\<open>etharp_query\<close> with the entry \<open>i\<close> found, marked pending when it is new.\<close>

definition mark_pending :: "nat \<Rightarrow> arp \<Rightarrow> arp" where
  "mark_pending i s =
     (if e_state (arp_table s ! i) = ETHARP_STATE_EMPTY
      then upd_entry i (\<lambda>e. e\<lparr>e_state := ETHARP_STATE_PENDING\<rparr>) s else s)"

definition query_entry ::
    "pbuf_cfg \<Rightarrow> pbuf_env \<Rightarrow> (u8 list \<Rightarrow> err_t) \<Rightarrow> arp_netif \<Rightarrow> u32 \<Rightarrow> nat option \<Rightarrow> nat \<Rightarrow> arp \<Rightarrow> (err_t \<times> arp) option" where
  "query_entry c env lo n ipaddr q i s = do {
     (result, s) \<leftarrow> (if e_state (arp_table s ! i) = ETHARP_STATE_PENDING \<or> q = None
                     then etharp_request c env lo n ipaddr s else Some (ERR_MEM, s));
     case q of
       None \<Rightarrow> Some (result, s)
     | Some q \<Rightarrow>
         if stable (e_state (arp_table s ! i)) then
           etharp_send_ip lo q (nif_hwaddr n) (e_ethaddr (arp_table s ! i)) (s\<lparr>etharp_cached_entry := i\<rparr>)
         else if e_state (arp_table s ! i) = ETHARP_STATE_PENDING then queue_packet c env q i s
         else Some (result, s) }"

definition etharp_query ::
    "pbuf_cfg \<Rightarrow> pbuf_env \<Rightarrow> (u8 list \<Rightarrow> err_t) \<Rightarrow> arp_netif \<Rightarrow> u32 \<Rightarrow> nat option \<Rightarrow> arp \<Rightarrow> (err_t \<times> arp) option" where
  "etharp_query c env lo n ipaddr q s =
     (if \<not> unicast ipaddr n then Some (ERR_ARG, s)
      else do {
        (i, s) \<leftarrow> etharp_find_entry c env (Some ipaddr) ETHARP_FLAG_TRY_HARD s;
        case i of
          None \<Rightarrow> Some (ERR_MEM, s)
        | Some i \<Rightarrow> query_entry c env lo n ipaddr q i (mark_pending i s) })"

text \<open>The loop of \<^verbatim>\<open>etharp_output\<close>: the first stable entry with the address.\<close>

fun find_stable :: "u32 \<Rightarrow> etharp_entry list \<Rightarrow> nat \<Rightarrow> nat option" where
  "find_stable a [] i = None"
| "find_stable a (e # es) i = (if stable (e_state e) \<and> a = e_ipaddr e then Some i else find_stable a es (Suc i))"

definition multicast_addr :: "u32 \<Rightarrow> u8 list" where
  "multicast_addr a =
     (let b = addr_bytes a in [0x01, 0x00, 0x5e, (b ! 1) AND 0x7f, b ! 2, b ! 3])"

text \<open>The unicast branch, for the destination or the gateway.\<close>

definition output_unicast ::
    "pbuf_cfg \<Rightarrow> pbuf_env \<Rightarrow> (u8 list \<Rightarrow> err_t) \<Rightarrow> arp_netif \<Rightarrow> nat \<Rightarrow> u32 \<Rightarrow> arp \<Rightarrow> (err_t \<times> arp) option" where
  "output_unicast c env lo n q dst_addr s =
     (let e = arp_table s ! etharp_cached_entry s
      in if stable (e_state e) \<and> dst_addr = e_ipaddr e
         then etharp_output_to_arp_index c env lo n q (etharp_cached_entry s) s
         else case find_stable dst_addr (arp_table s) 0 of
                Some i \<Rightarrow> etharp_output_to_arp_index c env lo n q i (s\<lparr>etharp_cached_entry := i\<rparr>)
              | None \<Rightarrow> etharp_query c env lo n dst_addr (Some q) s)"

definition etharp_output ::
    "pbuf_cfg \<Rightarrow> pbuf_env \<Rightarrow> (u8 list \<Rightarrow> err_t) \<Rightarrow> arp_netif \<Rightarrow> nat \<Rightarrow> u32 \<Rightarrow> arp \<Rightarrow> (err_t \<times> arp) option" where
  "etharp_output c env lo n q ipaddr s =
     (let (r, st) = pbuf_header c (Some q) 14 (a_st s); s = s\<lparr>a_st := st\<rparr>
      in if r \<noteq> 0 then Some (ERR_BUF, s)
         else if ip4_addr_isbroadcast ipaddr (netif.truncate n)
         then etharp_send_ip lo q (nif_hwaddr n) ethbroadcast s
         else if ip_addr_ismulticast ipaddr then etharp_send_ip lo q (nif_hwaddr n) (multicast_addr ipaddr) s
         else if \<not> ip_addr_netcmp ipaddr (nif_ip_addr n) (nif_netmask n) \<and> \<not> ip_addr_islinklocal ipaddr then
           if \<not> ip_addr_isany (nif_gw n) then output_unicast c env lo n q (nif_gw n) s else Some (ERR_RTE, s)
         else output_unicast c env lo n q ipaddr s)"

section \<open>Input\<close>

definition PBUF_FLAG_LLBCAST :: u8 where "PBUF_FLAG_LLBCAST = 8"

definition PBUF_FLAG_LLMCAST :: u8 where "PBUF_FLAG_LLMCAST = 0x10"

definition NETIF_FLAG_ETHARP :: u8 where "NETIF_FLAG_ETHARP = 0x20"

definition mark_multicast :: "nat \<Rightarrow> arp \<Rightarrow> arp" where
  "mark_multicast p s =
     (let d = get_at p 0 6 s
      in if d ! 0 AND 1 = 0 then s
         else if d ! 0 = 0x01 then
           if d ! 1 = 0x00 \<and> d ! 2 = 0x5e
           then s\<lparr>a_st := upd_pbuf p (\<lambda>b. b\<lparr>p_flags := p_flags b OR PBUF_FLAG_LLMCAST\<rparr>) (a_st s)\<rparr> else s
         else if d = ethbroadcast
         then s\<lparr>a_st := upd_pbuf p (\<lambda>b. b\<lparr>p_flags := p_flags b OR PBUF_FLAG_LLBCAST\<rparr>) (a_st s)\<rparr> else s)"

text \<open>\<open>ip_in\<close> is \<^verbatim>\<open>ip_input\<close>, which works on the state of the whole stack; \<open>back\<close> puts the state of this
  module into it.\<close>

definition ethernet_input ::
    "pbuf_cfg \<Rightarrow> pbuf_env \<Rightarrow> (u8 list \<Rightarrow> err_t) \<Rightarrow> (arp \<Rightarrow> 's) \<Rightarrow> (nat \<Rightarrow> arp \<Rightarrow> 's option) \<Rightarrow> arp_netif \<Rightarrow> nat \<Rightarrow> arp \<Rightarrow> 's option" where
  "ethernet_input c env lo back ip_in n p s =
     (if p_len (pbufs (a_st s) p) \<le> 14 then map_option back (free_pbuf c env p s)
      else let s = mark_multicast p s
           in if get_at p 12 2 s = [0x08, 0x00] then
                if nif_flags n AND NETIF_FLAG_ETHARP = 0 then map_option back (free_pbuf c env p s)
                else let (r, st) = pbuf_header c (Some p) (- 14) (a_st s); s = s\<lparr>a_st := st\<rparr>
                     in if r \<noteq> 0 then map_option back (free_pbuf c env p s) else ip_in p s
              else if get_at p 12 2 s = [0x08, 0x06] then
                if nif_flags n AND NETIF_FLAG_ETHARP = 0 then map_option back (free_pbuf c env p s)
                else map_option back (etharp_arp_input c env lo n (nif_hwaddr n) p s)
              else map_option back (free_pbuf c env p s))"

end
