(* ===== verification/Etharp_Spec.thy ===== *)
theory Etharp_Spec
  imports Etharp
begin

text \<open>
  The ARP table: \<open>arp_ok\<close> is its invariant (one entry per address, packets wait on pending entries only,
  no entry older than its limit), kept by every operation.
\<close>

section \<open>What the parts of the operations leave alone\<close>

abbreviation entry :: "arp \<Rightarrow> nat \<Rightarrow> etharp_entry" where
  "entry s i \<equiv> arp_table s ! i"

lemma bind_SomeE:
  assumes "Option.bind m f = Some y"
  obtains x where "m = Some x" "f x = Some y"
  using assms by (auto simp: bind_eq_Some_conv)

lemma put_at_frame [frame, simp]:
  "arp_table (put_at p k bs s) = arp_table s" "etharp_cached_entry (put_at p k bs s) = etharp_cached_entry s"
  "a_sent (put_at p k bs s) = a_sent s" "pbufs (a_st (put_at p k bs s)) = pbufs (a_st s)"
  "pbuf_pools (a_st (put_at p k bs s)) = pbuf_pools (a_st s)"
  by (simp_all add: put_at_def write_bytes_def)

lemma free_pbuf_frame [frame]:
  "free_pbuf c env p s = Some s' \<Longrightarrow>
    arp_table s' = arp_table s \<and> etharp_cached_entry s' = etharp_cached_entry s \<and> a_sent s' = a_sent s"
  by (auto simp: free_pbuf_def elim!: bind_SomeE)

lemma linkoutput_frame [frame]:
  "linkoutput lo p s = Some (r, s') \<Longrightarrow>
    arp_table s' = arp_table s \<and> etharp_cached_entry s' = etharp_cached_entry s \<and> a_st s' = a_st s"
  by (auto simp: linkoutput_def elim!: bind_SomeE)

lemma send_ip_frame [frame]:
  "etharp_send_ip lo p src dst s = Some (r, s') \<Longrightarrow>
    arp_table s' = arp_table s \<and> etharp_cached_entry s' = etharp_cached_entry s"
  by (auto simp: etharp_send_ip_def Let_def dest!: linkoutput_frame)

lemma raw_frame [frame]:
  "etharp_raw c env lo a b c' d e f g s = Some (r, s') \<Longrightarrow>
    arp_table s' = arp_table s \<and> etharp_cached_entry s' = etharp_cached_entry s"
  by (auto simp: etharp_raw_def Let_def elim!: bind_SomeE split: option.splits dest!: linkoutput_frame free_pbuf_frame)

lemma request_frame [frame]:
  "etharp_request c env lo n a s = Some (r, s') \<Longrightarrow>
    arp_table s' = arp_table s \<and> etharp_cached_entry s' = etharp_cached_entry s"
  by (auto simp: etharp_request_def dest: raw_frame)

lemma arp_reply_frame [frame]:
  "arp_reply lo n h p s = Some s' \<Longrightarrow> arp_table s' = arp_table s \<and> etharp_cached_entry s' = etharp_cached_entry s"
  by (auto simp: arp_reply_def Let_def elim!: bind_SomeE dest!: linkoutput_frame)

lemma take_over_frame [frame]:
  "take_over c env q s = Some (r, s') \<Longrightarrow> arp_table s' = arp_table s \<and> etharp_cached_entry s' = etharp_cached_entry s"
  by (auto simp: take_over_def elim!: bind_SomeE split: option.splits if_splits dest!: free_pbuf_frame)

lemma upd_entry_simps [simp]:
  "arp_table (upd_entry i f s) = (arp_table s)[i := f (entry s i)]"
  "etharp_cached_entry (upd_entry i f s) = etharp_cached_entry s" "a_st (upd_entry i f s) = a_st s"
  "a_sent (upd_entry i f s) = a_sent s"
  by (simp_all add: upd_entry_def)

section \<open>The invariant\<close>

definition entry_ok :: "etharp_entry \<Rightarrow> bool" where
  "entry_ok e \<longleftrightarrow> (e_q e \<noteq> None \<longrightarrow> e_state e = ETHARP_STATE_PENDING) \<and>
     (stable (e_state e) \<longrightarrow> e_ctime e < ARP_MAXAGE) \<and>
     (e_state e = ETHARP_STATE_PENDING \<longrightarrow> e_ctime e < ARP_MAXPENDING)"

definition used :: "etharp_entry \<Rightarrow> bool" where
  "used e \<longleftrightarrow> e_state e \<noteq> ETHARP_STATE_EMPTY"

definition arp_ok :: "arp \<Rightarrow> bool" where
  "arp_ok s \<longleftrightarrow> length (arp_table s) = ARP_TABLE_SIZE \<and> etharp_cached_entry s < ARP_TABLE_SIZE \<and>
     (\<forall>e \<in> set (arp_table s). entry_ok e) \<and>
     (\<forall>i < ARP_TABLE_SIZE. \<forall>j < ARP_TABLE_SIZE. used (entry s i) \<longrightarrow> used (entry s j) \<longrightarrow>
        e_ipaddr (entry s i) = e_ipaddr (entry s j) \<longrightarrow> i = j)"

lemma arp_okD:
  assumes "arp_ok s"
  shows "length (arp_table s) = ARP_TABLE_SIZE" "etharp_cached_entry s < ARP_TABLE_SIZE"
    "i < ARP_TABLE_SIZE \<Longrightarrow> entry_ok (entry s i)"
    "i < ARP_TABLE_SIZE \<Longrightarrow> j < ARP_TABLE_SIZE \<Longrightarrow> used (entry s i) \<Longrightarrow> used (entry s j) \<Longrightarrow>
      e_ipaddr (entry s i) = e_ipaddr (entry s j) \<Longrightarrow> i = j"
  using assms by (auto simp: arp_ok_def)

lemma arp_ok_cong:
  "arp_table s' = arp_table s \<Longrightarrow> etharp_cached_entry s' = etharp_cached_entry s \<Longrightarrow> arp_ok s' = arp_ok s"
  by (simp add: arp_ok_def)

text \<open>Changing one entry.\<close>

lemma arp_ok_upd:
  assumes ok: "arp_ok s" and e: "entry_ok e"
    and new: "\<And>j. used e \<Longrightarrow> j < ARP_TABLE_SIZE \<Longrightarrow> j \<noteq> i \<Longrightarrow> used (entry s j) \<Longrightarrow> e_ipaddr (entry s j) \<noteq> e_ipaddr e"
    and s': "arp_table s' = (arp_table s)[i := e]" "etharp_cached_entry s' < ARP_TABLE_SIZE"
  shows "arp_ok s'"
proof -
  note O = arp_okD [OF ok]
  have "\<forall>x \<in> set (arp_table s'). entry_ok x"
    using ok e set_update_subset_insert [of "arp_table s" i e] unfolding s' arp_ok_def by blast
  moreover have "j = k" if "j < ARP_TABLE_SIZE" "k < ARP_TABLE_SIZE" "used (entry s' j)" "used (entry s' k)"
    "e_ipaddr (entry s' j) = e_ipaddr (entry s' k)" for j k
    using that O(4) [of j k] new [of j] new [of k] O(1) unfolding s'
    by (cases "j = i"; cases "k = i") (auto simp: nth_list_update)
  ultimately show ?thesis using O(1) s' by (simp add: arp_ok_def)
qed

lemma arp_ok_same_key:
  assumes "arp_ok s" "entry_ok e" "i < ARP_TABLE_SIZE" "used e \<longrightarrow> used (entry s i) \<and> e_ipaddr e = e_ipaddr (entry s i)"
    and "arp_table s' = (arp_table s)[i := e]" "etharp_cached_entry s' < ARP_TABLE_SIZE"
  shows "arp_ok s'"
  using assms(1,2) _ assms(5,6)
proof (rule arp_ok_upd)
  fix j
  assume "used e" "j < ARP_TABLE_SIZE" "j \<noteq> i" "used (entry s j)"
  then show "e_ipaddr (entry s j) \<noteq> e_ipaddr e" using arp_okD(4) [OF assms(1), of j i] assms(3,4) by auto
qed

lemma no_queue: "e_q e = None \<Longrightarrow> e\<lparr>e_q := None, e_state := x\<rparr> = e\<lparr>e_state := x\<rparr>"
  by (cases e) simp

lemma free_entry_spec:
  assumes "etharp_free_entry c env i s = Some s'"
  shows "arp_table s' = (arp_table s)[i := (entry s i)\<lparr>e_q := None, e_state := ETHARP_STATE_EMPTY\<rparr>]"
    "etharp_cached_entry s' = etharp_cached_entry s" "a_sent s' = a_sent s"
proof -
  have "arp_table s' = (arp_table s)[i := (entry s i)\<lparr>e_q := None, e_state := ETHARP_STATE_EMPTY\<rparr>] \<and>
      etharp_cached_entry s' = etharp_cached_entry s \<and> a_sent s' = a_sent s"
  proof (cases "i < length (arp_table s)")
    case True
    with assms show ?thesis
      by (auto simp: no_queue etharp_free_entry_def elim!: bind_SomeE split: option.splits dest!: free_pbuf_frame)
  next
    case False
    with assms show ?thesis
      by (auto simp: not_less list_update_beyond etharp_free_entry_def elim!: bind_SomeE split: option.splits dest!: free_pbuf_frame)
  qed
  then show "arp_table s' = (arp_table s)[i := (entry s i)\<lparr>e_q := None, e_state := ETHARP_STATE_EMPTY\<rparr>]"
    "etharp_cached_entry s' = etharp_cached_entry s" "a_sent s' = a_sent s" by blast+
qed

lemma free_entry_ok:
  assumes "arp_ok s" "i < ARP_TABLE_SIZE" "etharp_free_entry c env i s = Some s'"
  shows "arp_ok s'"
  using free_entry_spec [OF assms(3)] assms(1,2) arp_okD(2) [OF assms(1)]
  by (intro arp_ok_same_key [OF assms(1) _ assms(2)]) (auto simp: entry_ok_def used_def stable_def)

lemma distinct_map_filter_nth:
  assumes "\<And>i j. i < length xs \<Longrightarrow> j < length xs \<Longrightarrow> P (xs ! i) \<Longrightarrow> P (xs ! j) \<Longrightarrow> f (xs ! i) = f (xs ! j) \<Longrightarrow> i = j"
  shows "distinct (map f (filter P xs))"
  using assms
proof (induction xs)
  case (Cons x xs)
  have "distinct (map f (filter P xs))"
  proof (rule Cons.IH)
    fix i j assume "i < length xs" "j < length xs" "P (xs ! i)" "P (xs ! j)" "f (xs ! i) = f (xs ! j)"
    with Cons.prems [of "Suc i" "Suc j"] show "i = j" by simp
  qed
  moreover have "f x \<noteq> f y" if "P x" "y \<in> set xs" "P y" for y
  proof -
    from that(2) obtain j where "j < length xs" "y = xs ! j" by (auto simp: in_set_conv_nth)
    with that Cons.prems [of 0 "Suc j"] show ?thesis by auto
  qed
  ultimately show ?case by auto
qed simp

section \<open>The search\<close>

text \<open>Candidates of the entries before \<open>i\<close>: indices of entries of the right kind.\<close>

definition kind_ok :: "arp \<Rightarrow> nat \<Rightarrow> (etharp_entry \<Rightarrow> bool) \<Rightarrow> nat \<Rightarrow> nat \<Rightarrow> bool" where
  "kind_ok s i P k age \<longleftrightarrow>
     (if k < ARP_TABLE_SIZE then k < i \<and> P (entry s k) \<and> e_ctime (entry s k) = age \<and>
        (\<forall>j < i. P (entry s j) \<longrightarrow> e_ctime (entry s j) \<le> age)
      else k = ARP_TABLE_SIZE \<and> age = 0 \<and> (\<forall>j < i. \<not> P (entry s j)))"

abbreviation is_stable :: "etharp_entry \<Rightarrow> bool" where
  "is_stable e \<equiv> stable (e_state e)"

abbreviation is_pending :: "etharp_entry \<Rightarrow> bool" where
  "is_pending e \<equiv> e_state e = ETHARP_STATE_PENDING \<and> e_q e = None"

abbreviation is_queue :: "etharp_entry \<Rightarrow> bool" where
  "is_queue e \<equiv> e_state e = ETHARP_STATE_PENDING \<and> e_q e \<noteq> None"

definition cand_ok :: "arp \<Rightarrow> nat \<Rightarrow> cand \<Rightarrow> bool" where
  "cand_ok s i cd \<longleftrightarrow>
     kind_ok s i is_stable (old_stable cd) (age_stable cd) \<and> kind_ok s i is_pending (old_pending cd) (age_pending cd) \<and>
     kind_ok s i is_queue (old_queue cd) (age_queue cd) \<and>
     (if c_empty cd < ARP_TABLE_SIZE then c_empty cd < i \<and> \<not> used (entry s (c_empty cd))
      else c_empty cd = ARP_TABLE_SIZE \<and> (\<forall>j < i. used (entry s j)))"

lemma kind_ok_step:
  assumes "kind_ok s i P k age" "i < ARP_TABLE_SIZE"
  shows "kind_ok s (Suc i) P (if P (entry s i) \<and> age \<le> e_ctime (entry s i) then i else k)
    (if P (entry s i) \<and> age \<le> e_ctime (entry s i) then e_ctime (entry s i) else age)"
  using assms by (auto simp: kind_ok_def less_Suc_eq split: if_splits)

lemma note_old_simps:
  "old_stable (note_old i e cd) = (if is_stable e \<and> age_stable cd \<le> e_ctime e then i else old_stable cd)"
  "age_stable (note_old i e cd) = (if is_stable e \<and> age_stable cd \<le> e_ctime e then e_ctime e else age_stable cd)"
  "old_pending (note_old i e cd) = (if is_pending e \<and> age_pending cd \<le> e_ctime e then i else old_pending cd)"
  "age_pending (note_old i e cd) = (if is_pending e \<and> age_pending cd \<le> e_ctime e then e_ctime e else age_pending cd)"
  "old_queue (note_old i e cd) = (if is_queue e \<and> age_queue cd \<le> e_ctime e then i else old_queue cd)"
  "age_queue (note_old i e cd) = (if is_queue e \<and> age_queue cd \<le> e_ctime e then e_ctime e else age_queue cd)"
  "c_empty (note_old i e cd) = c_empty cd"
  by (auto simp: note_old_def stable_def)

lemma cand_ok_used:
  assumes "cand_ok s i cd" "i < ARP_TABLE_SIZE" "used (entry s i)"
  shows "cand_ok s (Suc i) (note_old i (entry s i) cd)"
  using assms kind_ok_step [of s i is_stable "old_stable cd" "age_stable cd"]
    kind_ok_step [of s i is_pending "old_pending cd" "age_pending cd"]
    kind_ok_step [of s i is_queue "old_queue cd" "age_queue cd"]
  unfolding cand_ok_def note_old_simps by (auto simp: less_Suc_eq)

lemma kind_ok_empty:
  assumes "kind_ok s i P k age" "\<not> P (entry s i)"
  shows "kind_ok s (Suc i) P k age"
  using assms by (auto simp: kind_ok_def less_Suc_eq)

lemma cand_ok_empty:
  assumes "cand_ok s i cd" "i < ARP_TABLE_SIZE" "\<not> used (entry s i)"
  shows "cand_ok s (Suc i) (if c_empty cd = ARP_TABLE_SIZE then cd\<lparr>c_empty := i\<rparr> else cd)"
proof -
  have e: "\<not> is_stable (entry s i)" "\<not> is_pending (entry s i)" "\<not> is_queue (entry s i)"
    using assms(3) by (auto simp: used_def stable_def)
  show ?thesis using assms kind_ok_empty [of s i is_stable] kind_ok_empty [of s i is_pending] kind_ok_empty [of s i is_queue] e
    by (auto simp: cand_ok_def split: if_splits)
qed

lemma find_scan_spec:
  assumes "length (arp_table s) = ARP_TABLE_SIZE"
  shows "cand_ok s i cd \<Longrightarrow> i \<le> ARP_TABLE_SIZE \<Longrightarrow>
    (case find_scan (Some a) (drop i (arp_table s)) i cd of
       Inl k \<Rightarrow> k < ARP_TABLE_SIZE \<and> used (entry s k) \<and> e_ipaddr (entry s k) = a
     | Inr cd \<Rightarrow> cand_ok s ARP_TABLE_SIZE cd \<and> (\<forall>k < ARP_TABLE_SIZE. i \<le> k \<longrightarrow> used (entry s k) \<longrightarrow> e_ipaddr (entry s k) \<noteq> a))"
proof (induction "ARP_TABLE_SIZE - i" arbitrary: i cd)
  case 0
  then show ?case using assms by simp
next
  case (Suc m)
  then have i: "i < ARP_TABLE_SIZE" by simp
  then have d: "drop i (arp_table s) = entry s i # drop (Suc i) (arp_table s)"
    using assms by (simp add: Cons_nth_drop_Suc)
  have IH: "case find_scan (Some a) (drop (Suc i) (arp_table s)) (Suc i) cd of
       Inl k \<Rightarrow> k < ARP_TABLE_SIZE \<and> used (entry s k) \<and> e_ipaddr (entry s k) = a
     | Inr cd \<Rightarrow> cand_ok s ARP_TABLE_SIZE cd \<and>
         (\<forall>k < ARP_TABLE_SIZE. Suc i \<le> k \<longrightarrow> used (entry s k) \<longrightarrow> e_ipaddr (entry s k) \<noteq> a)"
    if "cand_ok s (Suc i) cd" for cd
    using Suc.hyps(1) [of "Suc i" cd] Suc.hyps(2) that i by simp
  show ?case
  proof (cases "used (entry s i)")
    case False
    with IH [OF cand_ok_empty [OF Suc.prems(1) i False]] d show ?thesis
      by (auto simp: used_def Suc_le_eq le_less split: sum.splits if_splits)
  next
    case True
    show ?thesis
    proof (cases "e_ipaddr (entry s i) = a")
      case eq: True
      with True i d show ?thesis by (simp add: used_def)
    next
      case False
      with True IH [OF cand_ok_used [OF Suc.prems(1) i True]] d show ?thesis
        by (auto simp: used_def Suc_le_eq le_less split: sum.splits)
    qed
  qed
qed

lemma cand_ok_start: "cand_ok s 0 no_cand"
  by (simp add: cand_ok_def no_cand_def kind_ok_def)

text \<open>The entry returned is the one of the address, or a free one that now has the address.\<close>

lemma find_entry_spec:
  assumes ok: "arp_ok s" and f: "etharp_find_entry c env (Some a) flags s = Some (r, s')"
  shows "etharp_cached_entry s' = etharp_cached_entry s \<and> a_sent s' = a_sent s \<and> arp_ok s' \<and>
    (\<forall>i. r = Some i \<longrightarrow> i < ARP_TABLE_SIZE \<and> e_ipaddr (entry s' i) = a \<and>
       (\<forall>j < ARP_TABLE_SIZE. j \<noteq> i \<longrightarrow> used (entry s' j) \<longrightarrow> e_ipaddr (entry s' j) \<noteq> a) \<and>
       (used (entry s' i) \<longrightarrow> s' = s) \<and> (\<not> used (entry s' i) \<longrightarrow> e_ctime (entry s' i) = 0))"
proof -
  note len = arp_okD(1) [OF ok]
  have scan: "case find_scan (Some a) (arp_table s) 0 no_cand of
       Inl k \<Rightarrow> k < ARP_TABLE_SIZE \<and> used (entry s k) \<and> e_ipaddr (entry s k) = a
     | Inr cd \<Rightarrow> cand_ok s ARP_TABLE_SIZE cd \<and> (\<forall>k < ARP_TABLE_SIZE. used (entry s k) \<longrightarrow> e_ipaddr (entry s k) \<noteq> a)"
    using find_scan_spec [OF len cand_ok_start, of a] by (auto split: sum.splits)
  show ?thesis
  proof (cases "find_scan (Some a) (arp_table s) 0 no_cand")
    case (Inl k)
    with f have "r = Some k" "s' = s" by (auto simp: etharp_find_entry_def)
    moreover from scan Inl have "k < ARP_TABLE_SIZE" "used (entry s k)" "e_ipaddr (entry s k) = a" by auto
    ultimately show ?thesis using ok arp_okD(4) [OF ok, of k] by blast
  next
    case (Inr cd)
    with scan have cd: "cand_ok s ARP_TABLE_SIZE cd" and no: "\<And>k. k < ARP_TABLE_SIZE \<Longrightarrow> used (entry s k) \<Longrightarrow> e_ipaddr (entry s k) \<noteq> a"
      by auto
    show ?thesis
    proof (cases r)
      case None
      with Inr f ok show ?thesis
        by (auto simp: etharp_find_entry_def elim!: bind_SomeE split: if_splits option.splits)
    next
      case (Some i)
      with Inr f have "(if c_empty cd < ARP_TABLE_SIZE then Some (c_empty cd) else recyclable cd) = Some i"
        by (auto simp: etharp_find_entry_def elim!: bind_SomeE split: if_splits option.splits)
      then have i: "i < ARP_TABLE_SIZE" by (auto simp: recyclable_def split: if_splits)
      from Inr f Some obtain s1 where s1: "s1 = s \<and> \<not> used (entry s i) \<or> etharp_free_entry c env i s = Some s1"
        and s': "s' = upd_entry i (\<lambda>e. e\<lparr>e_ipaddr := a, e_ctime := 0\<rparr>) s1"
        using cd by (auto simp: etharp_find_entry_def cand_ok_def elim!: bind_SomeE split: if_splits option.splits)
      have "\<exists>x. arp_table s1 = (arp_table s)[i := x] \<and> \<not> used x \<and>
        etharp_cached_entry s1 = etharp_cached_entry s \<and> a_sent s1 = a_sent s"
        using s1
      proof (elim disjE conjE)
        assume F: "etharp_free_entry c env i s = Some s1"
        show ?thesis by (rule exI) (rule conjI [OF free_entry_spec(1) [OF F]], simp add: used_def free_entry_spec [OF F])
      qed (auto intro!: exI [of _ "entry s i"])
      then obtain x where t: "arp_table s1 = (arp_table s)[i := x]" "\<not> used x"
        "etharp_cached_entry s1 = etharp_cached_entry s" "a_sent s1 = a_sent s" by blast
      define x' where "x' = x\<lparr>e_ipaddr := a, e_ctime := 0\<rparr>"
      have s': "arp_table s' = (arp_table s)[i := x']" "etharp_cached_entry s' = etharp_cached_entry s" "a_sent s' = a_sent s"
        using i len by (simp_all add: s' t x'_def)
      have x: "entry s' i = x'" "\<not> used x'" "e_ipaddr x' = a" "e_ctime x' = 0"
        using i len t(2) by (simp_all add: s' x'_def used_def)
      have "arp_ok s1" using s1 ok free_entry_ok [OF ok i] by auto
      then have "entry_ok x" using i len arp_okD(3) [of s1 i] by (simp add: t)
      then have "entry_ok x'" by (simp add: entry_ok_def x'_def stable_def ARP_MAXAGE_def ARP_MAXPENDING_def)
      then have "arp_ok s'"
        using x s' i arp_okD(2) [OF ok] by (intro arp_ok_same_key [OF ok, of x' i]) auto
      moreover have "e_ipaddr (entry s' j) \<noteq> a" if "j < ARP_TABLE_SIZE" "j \<noteq> i" "used (entry s' j)" for j
        using that no by (simp add: s'(1))
      ultimately show ?thesis using Some i x s' by auto
    qed
  qed
qed

section \<open>Every operation keeps the invariant\<close>

text \<open>One tick of the timer on an entry.\<close>

definition aged :: "etharp_entry \<Rightarrow> etharp_entry" where
  "aged e =
     (let n = (e_ctime e + 1) mod 256
      in if e_state e = ETHARP_STATE_EMPTY then e
         else if ARP_MAXAGE \<le> n \<or> e_state e = ETHARP_STATE_PENDING \<and> ARP_MAXPENDING \<le> n
         then e\<lparr>e_ctime := n, e_q := None, e_state := ETHARP_STATE_EMPTY\<rparr>
         else e\<lparr>e_ctime := n, e_state := (if stable (e_state e) then ETHARP_STATE_STABLE else e_state e)\<rparr>)"

lemma state_same: "e_state e = x \<Longrightarrow> e\<lparr>e_state := x\<rparr> = e"
  by (cases e) auto

lemma tmr_entry_spec:
  assumes i: "i < length (arp_table s)" and t: "tmr_entry c env i s = Some s'"
  shows "arp_table s' = (arp_table s)[i := aged (entry s i)] \<and> etharp_cached_entry s' = etharp_cached_entry s \<and>
    a_sent s' = a_sent s"
proof (cases "e_state (entry s i) = ETHARP_STATE_EMPTY")
  case True
  with t show ?thesis by (simp add: tmr_entry_def aged_def Let_def)
next
  case used: False
  define n where "n = (e_ctime (entry s i) + 1) mod 256"
  let ?e = "entry s i"
  define s0 where "s0 = upd_entry i (\<lambda>e. e\<lparr>e_ctime := (e_ctime e + 1) mod 256\<rparr>) s"
  have s0: "arp_table s0 = (arp_table s)[i := ?e\<lparr>e_ctime := n\<rparr>]" "etharp_cached_entry s0 = etharp_cached_entry s"
    "a_sent s0 = a_sent s" "entry s0 i = ?e\<lparr>e_ctime := n\<rparr>"
    using i by (simp_all add: s0_def n_def)
  show ?thesis
  proof (cases "ARP_MAXAGE \<le> n \<or> e_state ?e = ETHARP_STATE_PENDING \<and> ARP_MAXPENDING \<le> n")
    case True
    with t used s0(4) have "etharp_free_entry c env i s0 = Some s'"
      by (simp only: tmr_entry_def Let_def s0_def [symmetric]) simp
    from free_entry_spec [OF this] s0 used True show ?thesis by (simp add: aged_def n_def)
  next
    case False
    with t used s0(4) have "s' = (if e_state ?e = ETHARP_STATE_STABLE_REREQUESTING
        then upd_entry i (\<lambda>e. e\<lparr>e_state := ETHARP_STATE_STABLE\<rparr>) s0 else s0)"
      by (simp only: tmr_entry_def Let_def s0_def [symmetric]) (simp split: if_splits)
    with s0 used False show ?thesis
      by (cases "e_state ?e") (simp_all add: aged_def n_def stable_def state_same)
  qed
qed

lemma tmr_loop_spec:
  "set is \<subseteq> {..<length (arp_table s)} \<Longrightarrow> distinct is \<Longrightarrow> tmr_loop c env is s = Some s' \<Longrightarrow>
    length (arp_table s') = length (arp_table s) \<and> etharp_cached_entry s' = etharp_cached_entry s \<and> a_sent s' = a_sent s \<and>
    (\<forall>k < length (arp_table s). entry s' k = (if k \<in> set is then aged (entry s k) else entry s k))"
proof (induction "is" arbitrary: s)
  case (Cons i js)
  from Cons.prems(3) obtain s1 where s1: "tmr_entry c env i s = Some s1" "tmr_loop c env js s1 = Some s'"
    by (auto elim!: bind_SomeE)
  from tmr_entry_spec [OF _ s1(1)] Cons.prems(1)
  have t: "arp_table s1 = (arp_table s)[i := aged (entry s i)]" "etharp_cached_entry s1 = etharp_cached_entry s"
    "a_sent s1 = a_sent s" by auto
  from Cons.IH [OF _ _ s1(2)] Cons.prems(1,2) t show ?case by (auto simp: nth_list_update)
qed simp

lemma etharp_tmr_spec:
  assumes ok: "arp_ok s" and t: "etharp_tmr c env s = Some s'"
  shows "arp_table s' = map aged (arp_table s)" "etharp_cached_entry s' = etharp_cached_entry s" "a_sent s' = a_sent s"
proof -
  have "set [0..<ARP_TABLE_SIZE] \<subseteq> {..<length (arp_table s)}" by (simp add: arp_okD(1) [OF ok] atLeast0LessThan)
  from tmr_loop_spec [OF this distinct_upt t [unfolded etharp_tmr_def]] arp_okD(1) [OF ok]
  show "arp_table s' = map aged (arp_table s)" "etharp_cached_entry s' = etharp_cached_entry s" "a_sent s' = a_sent s"
    by (auto intro!: nth_equalityI)
qed

lemma aged_simps: "used (aged e) \<Longrightarrow> used e" "e_ipaddr (aged e) = e_ipaddr e" "e_netif (aged e) = e_netif e"
  "e_ethaddr (aged e) = e_ethaddr e"
  by (auto simp: aged_def Let_def used_def split: if_splits)

lemma aged_ok: "entry_ok e \<Longrightarrow> entry_ok (aged e)"
  by (auto simp: aged_def entry_ok_def stable_def Let_def)

lemma etharp_tmr_ok: "arp_ok s \<Longrightarrow> etharp_tmr c env s = Some s' \<Longrightarrow> arp_ok s'"
  using etharp_tmr_spec [of s c env s'] aged_ok
  by (auto simp: arp_ok_def aged_simps dest: aged_simps(1))

lemma cleanup_loop_ok:
  "arp_ok s \<Longrightarrow> set is \<subseteq> {..<ARP_TABLE_SIZE} \<Longrightarrow> cleanup_loop c env nif is s = Some s' \<Longrightarrow> arp_ok s'"
proof (induction "is" arbitrary: s)
  case (Cons i js)
  from Cons.prems(3) obtain s1 where s1: "cleanup_loop c env nif js s1 = Some s'"
    "(if e_state (entry s i) \<noteq> ETHARP_STATE_EMPTY \<and> e_netif (entry s i) = nif then etharp_free_entry c env i s else Some s) = Some s1"
    by (auto elim!: bind_SomeE)
  then have "arp_ok s1" using free_entry_ok [OF Cons.prems(1)] Cons.prems(1,2) by (auto split: if_splits)
  then show ?case using Cons.IH [OF _ _ s1(1)] Cons.prems(2) by simp
qed simp

text \<open>Resolving an address: the entry found becomes stable and its packet is sent.\<close>

lemma update_spec:
  assumes "etharp_update_arp_entry c env lo n a h fl s = Some (r, s')"
  obtains (refused) "r \<noteq> ERR_OK" "\<not> unicast a n" "s' = s"
  | (full) "r \<noteq> ERR_OK" "unicast a n" "etharp_find_entry c env (Some a) fl s = Some (None, s')"
  | (resolved) i s1 where "r = ERR_OK" "unicast a n" "etharp_find_entry c env (Some a) fl s = Some (Some i, s1)"
    "arp_table s' = (arp_table s1)[i := (entry s1 i)\<lparr>e_state := ETHARP_STATE_STABLE, e_netif := nif_id n,
       e_ethaddr := h, e_ctime := 0, e_q := None\<rparr>]"
    "etharp_cached_entry s' = etharp_cached_entry s1"
proof (cases "unicast a n")
  case False
  with assms refused show thesis by (simp add: etharp_update_arp_entry_def)
next
  case u: True
  with assms obtain x s1 where f: "etharp_find_entry c env (Some a) fl s = Some (x, s1)"
    by (auto simp: etharp_update_arp_entry_def elim!: bind_SomeE)
  show thesis
  proof (cases x)
    case None
    with assms u f full show thesis by (auto simp: etharp_update_arp_entry_def)
  next
    case (Some i)
    define e where "e = (entry s1 i)\<lparr>e_state := ETHARP_STATE_STABLE, e_netif := nif_id n, e_ethaddr := h, e_ctime := 0\<rparr>"
    define s2 where "s2 = upd_entry i (\<lambda>e. e\<lparr>e_state := ETHARP_STATE_STABLE, e_netif := nif_id n, e_ethaddr := h, e_ctime := 0\<rparr>) s1"
    have s2: "arp_table s2 = (arp_table s1)[i := e]" "etharp_cached_entry s2 = etharp_cached_entry s1"
      by (simp_all add: s2_def e_def)
    have eq: "etharp_update_arp_entry c env lo n a h fl s =
       (case e_q (entry s2 i) of None \<Rightarrow> Some (ERR_OK, s2)
        | Some p \<Rightarrow> do { let s = upd_entry i (\<lambda>e. e\<lparr>e_q := None\<rparr>) s2;
                         (_, s) \<leftarrow> etharp_send_ip lo p (nif_hwaddr n) h s;
                         s \<leftarrow> free_pbuf c env p s; Some (ERR_OK, s) })"
      using u f Some unfolding s2_def etharp_update_arp_entry_def by (simp add: Let_def)
    have "r = ERR_OK \<and> arp_table s' = (arp_table s1)[i := e\<lparr>e_q := None\<rparr>] \<and> etharp_cached_entry s' = etharp_cached_entry s1"
    proof (cases "e_q (entry s2 i)")
      case None
      have "(arp_table s1)[i := e\<lparr>e_q := None\<rparr>] = (arp_table s1)[i := e]"
      proof (cases "i < length (arp_table s1)")
        case True
        with None s2 have "e_q e = None" by simp
        then have "e\<lparr>e_q := None\<rparr> = e" by (cases e) simp
        then show ?thesis by simp
      qed (simp add: list_update_beyond)
      with None assms s2 show ?thesis unfolding eq by simp
    next
      case (Some p)
      have up: "arp_table (upd_entry i (\<lambda>e. e\<lparr>e_q := None\<rparr>) s2) = (arp_table s1)[i := e\<lparr>e_q := None\<rparr>]"
        using s2 by (cases "i < length (arp_table s1)") (auto simp: list_update_beyond)
      show ?thesis using assms s2(2) Some up unfolding eq
        by (auto simp: Let_def simp del: upd_entry_simps(1) elim!: bind_SomeE dest!: send_ip_frame free_pbuf_frame)
    qed
    with f Some u resolved [of i s1] show thesis by (simp add: e_def)
  qed
qed

lemma update_ok:
  assumes ok: "arp_ok s" and u: "etharp_update_arp_entry c env lo n a h fl s = Some (r, s')"
  shows "arp_ok s'"
  using u
proof (cases rule: update_spec)
  case full
  with find_entry_spec [OF ok full(3)] show ?thesis by simp
next
  case (resolved i s1)
  from find_entry_spec [OF ok resolved(3)] have s1: "arp_ok s1" "i < ARP_TABLE_SIZE" "e_ipaddr (entry s1 i) = a"
    "\<And>j. j < ARP_TABLE_SIZE \<Longrightarrow> j \<noteq> i \<Longrightarrow> used (entry s1 j) \<Longrightarrow> e_ipaddr (entry s1 j) \<noteq> a" by auto
  show ?thesis
    by (rule arp_ok_upd [OF s1(1) _ _ resolved(4)])
      (use s1 arp_okD(2) [OF s1(1)] resolved(5) in \<open>auto simp: entry_ok_def stable_def ARP_MAXAGE_def\<close>)
qed (use ok in simp)

lemma to_index_ok:
  assumes ok: "arp_ok s" and i: "i < ARP_TABLE_SIZE" and t: "etharp_output_to_arp_index c env lo n q i s = Some (r, s')"
  shows "arp_ok s'"
proof -
  let ?e = "(entry s i)\<lparr>e_state := ETHARP_STATE_STABLE_REREQUESTING\<rparr>"
  have up: "arp_ok (upd_entry i (\<lambda>e. e\<lparr>e_state := ETHARP_STATE_STABLE_REREQUESTING\<rparr>) s1)"
    if "arp_table s1 = arp_table s" "etharp_cached_entry s1 = etharp_cached_entry s" "e_state (entry s i) = ETHARP_STATE_STABLE" for s1
    by (rule arp_ok_same_key [OF ok, of ?e i])
      (use that i arp_okD(2) [OF ok] arp_okD(3) [OF ok i] in \<open>auto simp: entry_ok_def used_def stable_def\<close>)
  have cong: "arp_ok s2" if "arp_table s2 = arp_table s1" "etharp_cached_entry s2 = etharp_cached_entry s1" "arp_ok s1" for s1 s2
    using that arp_ok_cong by blast
  obtain s1 where s1: "etharp_send_ip lo q (nif_hwaddr n) (e_ethaddr (entry s1 i)) s1 = Some (r, s')" "arp_ok s1"
  proof (cases "e_state (entry s i) = ETHARP_STATE_STABLE \<and> ARP_AGE_REREQUEST_USED \<le> e_ctime (entry s i)")
    case True
    with t obtain x s1 where x: "etharp_request c env lo n (e_ipaddr (entry s i)) s = Some (x, s1)"
      by (auto simp: etharp_output_to_arp_index_def Let_def elim!: bind_SomeE)
    let ?s2 = "if x = ERR_OK then upd_entry i (\<lambda>e. e\<lparr>e_state := ETHARP_STATE_STABLE_REREQUESTING\<rparr>) s1 else s1"
    from x t True have "etharp_send_ip lo q (nif_hwaddr n) (e_ethaddr (entry ?s2 i)) ?s2 = Some (r, s')"
      by (simp add: etharp_output_to_arp_index_def Let_def)
    moreover have "arp_ok ?s2" using request_frame [OF x] up [of s1] True cong [of s1 s] ok by auto
    ultimately show thesis by (rule that)
  next
    case False
    with t ok show thesis by (auto simp: etharp_output_to_arp_index_def Let_def intro!: that)
  qed
  with send_ip_frame [OF s1(1)] show ?thesis using cong by blast
qed

lemma arp_input_ok:
  assumes ok: "arp_ok s" and a: "etharp_arp_input c env lo n h p s = Some s'"
  shows "arp_ok s'"
proof -
  consider (drop) "free_pbuf c env p s = Some s'"
    | (go) r x y fl s1 s2 where "etharp_update_arp_entry c env lo n x y fl s = Some (r, s1)"
      "s2 = s1 \<or> arp_reply lo n h p s1 = Some s2" "free_pbuf c env p s2 = Some s'"
    using a unfolding etharp_arp_input_def Let_def by (auto elim!: bind_SomeE split: if_splits) blast+
  then show ?thesis
  proof cases
    case drop
    from free_pbuf_frame [OF this] arp_ok_cong [of s' s] ok show ?thesis by simp
  next
    case go
    from go(2) have "arp_table s2 = arp_table s1 \<and> etharp_cached_entry s2 = etharp_cached_entry s1"
      using arp_reply_frame by blast
    with free_pbuf_frame [OF go(3)] update_ok [OF ok go(1)] arp_ok_cong [of s' s1] show ?thesis by simp
  qed
qed

lemma queue_packet_ok:
  assumes ok: "arp_ok s" and i: "i < ARP_TABLE_SIZE" and pe: "e_state (entry s i) = ETHARP_STATE_PENDING"
    and q: "queue_packet c env q i s = Some (r, s')"
  shows "arp_ok s'"
proof -
  from q obtain y s1 where y: "take_over c env q s = Some (y, s1)"
    by (auto simp: queue_packet_def elim!: bind_SomeE)
  note t1 = take_over_frame [OF y]
  show ?thesis
  proof (cases y)
    case None
    with q y have "s' = s1" by (simp add: queue_packet_def)
    with t1 ok arp_ok_cong [of s1 s] show ?thesis by simp
  next
    case (Some p)
    with q y obtain s2 where f: "(case e_q (entry s1 i) of None \<Rightarrow> Some s1 | Some old \<Rightarrow> free_pbuf c env old s1) = Some s2"
      and s': "s' = upd_entry i (\<lambda>e. e\<lparr>e_q := Some p\<rparr>) s2"
      by (auto simp: queue_packet_def elim!: bind_SomeE)
    have s2: "arp_table s2 = arp_table s" "etharp_cached_entry s2 = etharp_cached_entry s"
      using f t1 free_pbuf_frame [of c env _ s1 s2] by (auto split: option.splits)
    show ?thesis
      by (rule arp_ok_same_key [OF ok, of "(entry s i)\<lparr>e_q := Some p\<rparr>" i])
        (use s2 s' pe i arp_okD(2) [OF ok] arp_okD(3) [OF ok i] in \<open>auto simp: entry_ok_def used_def\<close>)
  qed
qed

lemma query_entry_ok:
  assumes ok: "arp_ok s" and i: "i < ARP_TABLE_SIZE" and q: "query_entry c env lo n a q i s = Some (r, s')"
  shows "arp_ok s'"
proof -
  from q obtain x s1 where r: "(if e_state (entry s i) = ETHARP_STATE_PENDING \<or> q = None
        then etharp_request c env lo n a s else Some (ERR_MEM, s)) = Some (x, s1)"
    and rest: "(case q of None \<Rightarrow> Some (x, s1) | Some q \<Rightarrow>
        if stable (e_state (entry s1 i)) then
          etharp_send_ip lo q (nif_hwaddr n) (e_ethaddr (entry s1 i)) (s1\<lparr>etharp_cached_entry := i\<rparr>)
        else if e_state (entry s1 i) = ETHARP_STATE_PENDING then queue_packet c env q i s1
        else Some (x, s1)) = Some (r, s')"
    unfolding query_entry_def by (elim bind_SomeE) (simp only: split_paired_all prod.case)
  have s1: "arp_table s1 = arp_table s" "etharp_cached_entry s1 = etharp_cached_entry s"
    using r request_frame [of c env lo n a s x s1] by (auto split: if_splits)
  have ok1: "arp_ok s1" using s1 ok arp_ok_cong [of s1 s] by simp
  have hit: "arp_ok (s1\<lparr>etharp_cached_entry := i\<rparr>)" using ok1 i by (simp add: arp_ok_def)
  show ?thesis
  proof (cases q)
    case None
    with rest ok1 show ?thesis by simp
  next
    case (Some p)
    note rest = rest [unfolded Some option.case]
    show ?thesis
    proof (cases "stable (e_state (entry s1 i))")
      case True
      with rest have "etharp_send_ip lo p (nif_hwaddr n) (e_ethaddr (entry s1 i)) (s1\<lparr>etharp_cached_entry := i\<rparr>) = Some (r, s')"
        by (simp only: if_True)
      from send_ip_frame [OF this] arp_ok_cong [of s' "s1\<lparr>etharp_cached_entry := i\<rparr>"] hit show ?thesis by simp
    next
      case False
      with rest ok1 queue_packet_ok [OF ok1 i, of c env p r s'] show ?thesis by (simp split: if_splits)
    qed
  qed
qed

lemma query_ok:
  assumes ok: "arp_ok s" and q: "etharp_query c env lo n a q s = Some (r, s')"
  shows "arp_ok s'"
proof (cases "unicast a n")
  case False
  with ok q show ?thesis by (simp add: etharp_query_def)
next
  case u: True
  with q obtain x s1 where f: "etharp_find_entry c env (Some a) ETHARP_FLAG_TRY_HARD s = Some (x, s1)"
    by (auto simp: etharp_query_def elim!: bind_SomeE)
  note F = find_entry_spec [OF ok f]
  show ?thesis
  proof (cases x)
    case None
    with u q f F show ?thesis by (simp add: etharp_query_def)
  next
    case (Some i)
    with F have s1: "arp_ok s1" "i < ARP_TABLE_SIZE" "e_ipaddr (entry s1 i) = a"
      "\<And>j. j < ARP_TABLE_SIZE \<Longrightarrow> j \<noteq> i \<Longrightarrow> used (entry s1 j) \<Longrightarrow> e_ipaddr (entry s1 j) \<noteq> a"
      "\<not> used (entry s1 i) \<Longrightarrow> e_ctime (entry s1 i) = 0" by auto
    have "arp_ok (mark_pending i s1)"
    proof (cases "used (entry s1 i)")
      case False
      show ?thesis
        by (rule arp_ok_upd [OF s1(1), of "(entry s1 i)\<lparr>e_state := ETHARP_STATE_PENDING\<rparr>" i])
          (use False s1(2-5) arp_okD(2) [OF s1(1)] arp_okD(3) [OF s1(1) s1(2)] in
            \<open>auto simp: mark_pending_def entry_ok_def used_def stable_def ARP_MAXPENDING_def\<close>)
    qed (use s1(1) in \<open>simp add: mark_pending_def used_def\<close>)
    moreover have "query_entry c env lo n a q i (mark_pending i s1) = Some (r, s')"
      using u q f Some by (simp add: etharp_query_def)
    ultimately show ?thesis using query_entry_ok s1(2) by blast
  qed
qed

lemma cleanup_netif_ok: "arp_ok s \<Longrightarrow> etharp_cleanup_netif c env nif s = Some s' \<Longrightarrow> arp_ok s'"
  unfolding etharp_cleanup_netif_def by (rule cleanup_loop_ok) auto

lemma find_addr_ok: "arp_ok s \<Longrightarrow> etharp_find_addr c env a s = Some (r, s') \<Longrightarrow> arp_ok s'"
  using find_entry_spec [of s c env a ETHARP_FLAG_FIND_ONLY]
  by (auto simp: etharp_find_addr_def elim!: bind_SomeE split: option.splits if_splits)

lemma ip_input_ok:
  assumes "arp_ok s" "etharp_ip_input c env lo n p s = Some s'"
  shows "arp_ok s'"
  using assms update_ok [OF assms(1)] by (auto simp: etharp_ip_input_def Let_def split: if_splits)

lemma find_stable_spec:
  "find_stable a es i = Some k \<Longrightarrow> i \<le> k \<and> k < i + length es \<and> is_stable (es ! (k - i)) \<and> e_ipaddr (es ! (k - i)) = a"
  "find_stable a es i = None \<Longrightarrow> \<forall>e \<in> set es. is_stable e \<longrightarrow> e_ipaddr e \<noteq> a"
  by (induction es arbitrary: i) (fastforce simp: nth_Cons' split: if_splits)+

lemma output_unicast_ok:
  assumes ok: "arp_ok s" and u: "output_unicast c env lo n q a s = Some (r, s')"
  shows "arp_ok s'"
proof -
  consider (hit) "etharp_output_to_arp_index c env lo n q (etharp_cached_entry s) s = Some (r, s')"
    | (found) i where "find_stable a (arp_table s) 0 = Some i"
      "etharp_output_to_arp_index c env lo n q i (s\<lparr>etharp_cached_entry := i\<rparr>) = Some (r, s')"
    | (query) "etharp_query c env lo n a (Some q) s = Some (r, s')"
    using u unfolding output_unicast_def Let_def by (auto split: if_splits option.splits)
  then show ?thesis
  proof cases
    case hit
    with to_index_ok [OF ok arp_okD(2) [OF ok]] show ?thesis .
  next
    case (found i)
    then have i: "i < ARP_TABLE_SIZE" using find_stable_spec(1) [OF found(1)] arp_okD(1) [OF ok] by simp
    with ok have "arp_ok (s\<lparr>etharp_cached_entry := i\<rparr>)" by (simp add: arp_ok_def)
    from to_index_ok [OF this i found(2)] show ?thesis .
  next
    case query
    with query_ok [OF ok] show ?thesis .
  qed
qed

lemma output_ok:
  assumes ok: "arp_ok s" and t: "etharp_output c env lo n q a s = Some (r, s')"
  shows "arp_ok s'"
proof -
  have st: "arp_ok (s\<lparr>a_st := st\<rparr>)" for st using ok by (simp add: arp_ok_def)
  have send: "arp_ok s'" if "etharp_send_ip lo q h d (s\<lparr>a_st := st\<rparr>) = Some (r, s')" for h d st
    using send_ip_frame [OF that] arp_ok_cong [of s' s] ok by simp
  obtain x st1 where h: "pbuf_header c (Some q) 14 (a_st s) = (x, st1)" by fastforce
  show ?thesis
    using t st [of st1] send output_unicast_ok [OF st] unfolding etharp_output_def h Let_def
    by (simp split: if_splits)
qed

lemma mark_multicast_frame [frame]:
  "arp_table (mark_multicast p s) = arp_table s" "etharp_cached_entry (mark_multicast p s) = etharp_cached_entry s"
  "a_sent (mark_multicast p s) = a_sent s"
  by (simp_all add: mark_multicast_def Let_def)

lemma ethernet_input_ok:
  assumes ok: "arp_ok s" and keep: "\<And>p s s'. ip_in p s = Some s' \<Longrightarrow> arp_ok s \<Longrightarrow> arp_ok s'"
    and t: "ethernet_input c env lo (\<lambda>a. a) ip_in n p s = Some s'"
  shows "arp_ok s'"
proof -
  have m: "arp_ok (mark_multicast p s)" using ok arp_ok_cong mark_multicast_frame by blast
  then have st: "arp_ok ((mark_multicast p s)\<lparr>a_st := st\<rparr>)" for st by (simp add: arp_ok_def)
  have free: "arp_ok s'" if "free_pbuf c env p s1 = Some s'" "arp_ok s1" for s1
    using free_pbuf_frame [OF that(1)] arp_ok_cong [of s' s1] that(2) by simp
  obtain x st1 where h: "pbuf_header c (Some p) (- 14) (a_st (mark_multicast p s)) = (x, st1)" by fastforce
  show ?thesis
    using t unfolding ethernet_input_def h Let_def prod.case
    by (auto split: if_splits dest: keep [OF _ st] arp_input_ok [OF m] free [OF _ ok] free [OF _ m] free [OF _ st])
qed

text \<open>A run of the module: any order of its operations, and of changes of the packet buffers by the
  rest of the stack.\<close>

inductive arp_step :: "pbuf_cfg \<Rightarrow> pbuf_env \<Rightarrow> (u8 list \<Rightarrow> err_t) \<Rightarrow> arp \<Rightarrow> arp \<Rightarrow> bool" for c env lo where
  tmr: "etharp_tmr c env s = Some s' \<Longrightarrow> arp_step c env lo s s'"
| cleanup: "etharp_cleanup_netif c env k s = Some s' \<Longrightarrow> arp_step c env lo s s'"
| find_addr: "etharp_find_addr c env a s = Some (r, s') \<Longrightarrow> arp_step c env lo s s'"
| input: "ethernet_input c env lo (\<lambda>a. a) (\<lambda>_. Some) n p s = Some s' \<Longrightarrow> arp_step c env lo s s'"
| ip_input: "etharp_ip_input c env lo n p s = Some s' \<Longrightarrow> arp_step c env lo s s'"
| send: "etharp_output c env lo n p a s = Some (r, s') \<Longrightarrow> arp_step c env lo s s'"
| query: "etharp_query c env lo n a q s = Some (r, s') \<Longrightarrow> arp_step c env lo s s'"
| stack: "arp_step c env lo s (s\<lparr>a_st := st\<rparr>)"

lemma arp_step_ok: "arp_step c env lo s s' \<Longrightarrow> arp_ok s \<Longrightarrow> arp_ok s'"
proof (induction rule: arp_step.induct)
  case (input n p s s')
  show ?case by (rule ethernet_input_ok [OF input.prems _ input.hyps]) simp
next
  case (stack s st)
  then show ?case by (simp add: arp_ok_def)
qed (erule (1) etharp_tmr_ok cleanup_netif_ok find_addr_ok ip_input_ok output_ok query_ok)+

definition arp_init :: "pst \<Rightarrow> arp" where
  "arp_init st = \<lparr>arp_table = replicate ARP_TABLE_SIZE \<lparr>e_q = None, e_ipaddr = 0, e_netif = 0, e_ethaddr = ethzero,
     e_state = ETHARP_STATE_EMPTY, e_ctime = 0\<rparr>, etharp_cached_entry = 0, a_st = st, a_sent = []\<rparr>"

lemma arp_init_ok: "arp_ok (arp_init st)"
  by (auto simp: arp_ok_def arp_init_def entry_ok_def used_def stable_def ARP_TABLE_SIZE_def)

section \<open>The entry that is recycled\<close>

definition oldest :: "arp \<Rightarrow> (etharp_entry \<Rightarrow> bool) \<Rightarrow> nat \<Rightarrow> bool" where
  "oldest s P i \<longleftrightarrow> i < ARP_TABLE_SIZE \<and> P (entry s i) \<and>
     (\<forall>j < ARP_TABLE_SIZE. P (entry s j) \<longrightarrow> e_ctime (entry s j) \<le> e_ctime (entry s i))"

definition victim :: "arp \<Rightarrow> nat \<Rightarrow> bool" where
  "victim s i \<longleftrightarrow>
     (if \<exists>j < ARP_TABLE_SIZE. is_stable (entry s j) then oldest s is_stable i
      else if \<exists>j < ARP_TABLE_SIZE. is_pending (entry s j) then oldest s is_pending i
      else oldest s is_queue i)"

lemma kind_ok_oldest: "kind_ok s ARP_TABLE_SIZE P k age \<Longrightarrow>
    if \<exists>j < ARP_TABLE_SIZE. P (entry s j) then k < ARP_TABLE_SIZE \<and> oldest s P k else k = ARP_TABLE_SIZE"
  by (auto simp: kind_ok_def oldest_def split: if_splits)

lemma find_scan_full:
  assumes ok: "arp_ok s" and full: "\<forall>i < ARP_TABLE_SIZE. used (entry s i) \<and> e_ipaddr (entry s i) \<noteq> a"
  shows "\<exists>cd i. find_scan (Some a) (arp_table s) 0 no_cand = Inr cd \<and> c_empty cd = ARP_TABLE_SIZE \<and>
    recyclable cd = Some i \<and> victim s i"
proof -
  have "case find_scan (Some a) (arp_table s) 0 no_cand of Inl k \<Rightarrow> False | Inr cd \<Rightarrow> cand_ok s ARP_TABLE_SIZE cd"
    using find_scan_spec [OF arp_okD(1) [OF ok] cand_ok_start, of a] full by (auto split: sum.splits)
  then obtain cd where cd: "find_scan (Some a) (arp_table s) 0 no_cand = Inr cd" "cand_ok s ARP_TABLE_SIZE cd"
    by (auto split: sum.splits)
  from cd(2) full have e: "c_empty cd = ARP_TABLE_SIZE" by (auto simp: cand_ok_def split: if_splits)
  from cd(2) have k: "kind_ok s ARP_TABLE_SIZE is_stable (old_stable cd) (age_stable cd)"
    "kind_ok s ARP_TABLE_SIZE is_pending (old_pending cd) (age_pending cd)"
    "kind_ok s ARP_TABLE_SIZE is_queue (old_queue cd) (age_queue cd)" by (simp_all add: cand_ok_def)
  have z: "0 < ARP_TABLE_SIZE" by (simp add: ARP_TABLE_SIZE_def)
  with full have "used (entry s 0)" by blast
  then have "is_stable (entry s 0) \<or> is_pending (entry s 0) \<or> is_queue (entry s 0)"
    by (cases "e_state (entry s 0)") (auto simp: used_def stable_def)
  then have "\<exists>i. recyclable cd = Some i \<and> victim s i"
    using kind_ok_oldest [OF k(1)] kind_ok_oldest [OF k(2)] kind_ok_oldest [OF k(3)] z
    unfolding recyclable_def victim_def by (smt (verit) less_irrefl)
  with cd(1) e show ?thesis by blast
qed

section \<open>Age\<close>

fun ticks :: "pbuf_cfg \<Rightarrow> pbuf_env \<Rightarrow> nat \<Rightarrow> arp \<Rightarrow> arp option" where
  "ticks c env 0 s = Some s"
| "ticks c env (Suc k) s = do { s \<leftarrow> etharp_tmr c env s; ticks c env k s }"

definition lifetime :: "etharp_entry \<Rightarrow> nat" where
  "lifetime e = (if e_state e = ETHARP_STATE_EMPTY then 0
     else (if stable (e_state e) then ARP_MAXAGE else ARP_MAXPENDING) - e_ctime e)"

lemma used_lifetime: "entry_ok e \<Longrightarrow> used e \<longleftrightarrow> 0 < lifetime e"
  by (cases "e_state e") (auto simp: used_def lifetime_def entry_ok_def stable_def)

lemma aged_lifetime: "entry_ok e \<Longrightarrow> lifetime (aged e) = lifetime e - 1"
  by (cases "e_state e")
    (auto simp: lifetime_def aged_def entry_ok_def stable_def Let_def ARP_MAXAGE_def ARP_MAXPENDING_def)

lemma ticks_lifetime:
  "arp_ok s \<Longrightarrow> ticks c env k s = Some s' \<Longrightarrow>
    arp_ok s' \<and> map lifetime (arp_table s') = map (\<lambda>e. lifetime e - k) (arp_table s) \<and>
    map e_ethaddr (arp_table s') = map e_ethaddr (arp_table s) \<and> map e_ipaddr (arp_table s') = map e_ipaddr (arp_table s)"
proof (induction k arbitrary: s)
  case (Suc k)
  then obtain s1 where s1: "etharp_tmr c env s = Some s1" "ticks c env k s1 = Some s'" by (auto elim!: bind_SomeE)
  note T = etharp_tmr_spec(1) [OF Suc.prems(1) s1(1)]
  have "\<forall>e \<in> set (arp_table s). entry_ok e" using Suc.prems(1) by (simp add: arp_ok_def)
  with Suc.IH [OF etharp_tmr_ok [OF Suc.prems(1) s1(1)] s1(2)] show ?case
    by (auto simp: T aged_lifetime aged_simps comp_def)
qed simp

text \<open>Without packets on the table the timer always returns.\<close>

definition idle :: "arp \<Rightarrow> bool" where
  "idle s \<longleftrightarrow> (\<forall>e \<in> set (arp_table s). e_q e = None)"

lemma tmr_entry_returns: "i < length (arp_table s) \<Longrightarrow> e_q (entry s i) = None \<Longrightarrow> \<exists>s'. tmr_entry c env i s = Some s'"
  by (auto simp: tmr_entry_def Let_def etharp_free_entry_def)

lemma tmr_loop_returns:
  "idle s \<Longrightarrow> set is \<subseteq> {..<length (arp_table s)} \<Longrightarrow> \<exists>s'. tmr_loop c env is s = Some s' \<and> idle s'"
proof (induction "is" arbitrary: s)
  case (Cons i js)
  then obtain s1 where s1: "tmr_entry c env i s = Some s1"
    using tmr_entry_returns [of i s c env] by (auto simp: idle_def)
  have t: "arp_table s1 = (arp_table s)[i := aged (entry s i)]" using tmr_entry_spec [OF _ s1] Cons.prems(2) by simp
  have "e_q (aged (entry s i)) = None" using Cons.prems by (auto simp: aged_def Let_def idle_def)
  then have "idle s1" using Cons.prems(1) set_update_subset_insert [of "arp_table s" i]
    unfolding idle_def t by blast
  from Cons.IH [OF this] Cons.prems(2) s1 t show ?case by simp
qed simp

lemma ticks_return: "arp_ok s \<Longrightarrow> idle s \<Longrightarrow> \<exists>s'. ticks c env k s = Some s'"
proof (induction k arbitrary: s)
  case (Suc k)
  have "set [0..<ARP_TABLE_SIZE] \<subseteq> {..<length (arp_table s)}" by (simp add: arp_okD(1) [OF Suc.prems(1)] atLeast0LessThan)
  from tmr_loop_returns [OF Suc.prems(2) this, of c env] obtain s1 where "etharp_tmr c env s = Some s1" "idle s1"
    unfolding etharp_tmr_def by blast
  with Suc.IH [of s1] etharp_tmr_ok [OF Suc.prems(1)] show ?case by simp
qed simp

section \<open>Properties\<close>

text \<open>Property C25: in every run of the module from its initial state, whatever frames arrive, packets
  are sent and time passes, no two used entries have the same IP address, packets wait on pending
  entries only, and no entry is older than its limit.\<close>

theorem arp_table_invariant:
  assumes "(arp_step c env lo)\<^sup>*\<^sup>* (arp_init st) s"
  shows "length (arp_table s) = ARP_TABLE_SIZE \<and> etharp_cached_entry s < ARP_TABLE_SIZE \<and>
    distinct (map e_ipaddr (filter used (arp_table s))) \<and> (\<forall>e \<in> set (arp_table s). entry_ok e)"
proof -
  have ok: "arp_ok s"
    using assms by (induction rule: rtranclp_induct) (use arp_init_ok arp_step_ok in blast)+
  note O = arp_okD [OF ok]
  have "distinct (map e_ipaddr (filter used (arp_table s)))"
    by (rule distinct_map_filter_nth) (use O in auto)
  with O ok show ?thesis by (simp add: arp_ok_def)
qed

lemma arp_table_invariant_witness:
  "\<exists>s. etharp_tmr ex_cfg ex_env (arp_init ex_st) = Some s \<and> distinct (map e_ipaddr (filter used (arp_table s)))"
proof -
  have "idle (arp_init ex_st)" by (simp add: idle_def arp_init_def)
  then obtain s where s: "etharp_tmr ex_cfg ex_env (arp_init ex_st) = Some s"
    using ticks_return [OF arp_init_ok, of ex_st ex_cfg ex_env 1] by (auto elim!: bind_SomeE)
  then have "(arp_step ex_cfg ex_env (\<lambda>_. ERR_OK))\<^sup>*\<^sup>* (arp_init ex_st) s" by (blast intro: arp_step.tmr)
  with s arp_table_invariant show ?thesis by blast
qed

definition ex_netif :: "u32 \<Rightarrow> u8 \<Rightarrow> arp_netif" where
  "ex_netif a m = \<lparr>nif_flags = 2, nif_ip_addr = a, nif_netmask = 0x00FFFFFF, nif_gw = 0, nif_hwaddr = [2, 0, 0, 0, 0, m], nif_id = 1\<rparr>"

text \<open>A full table of ten stable entries with ages 1 to 10, for the witnesses.\<close>

definition ex_full :: arp where
  "ex_full = (arp_init ex_st)\<lparr>arp_table := map (\<lambda>i. \<lparr>e_q = None, e_ipaddr = of_nat i, e_netif = 1, e_ethaddr = ethzero,
     e_state = ETHARP_STATE_STABLE, e_ctime = i\<rparr>) [1..<11]\<rparr>"

lemma ex_full_facts:
  "arp_ok ex_full" "idle ex_full" "\<forall>i < ARP_TABLE_SIZE. used (entry ex_full i) \<and> e_ipaddr (entry ex_full i) \<noteq> 77"
  "entry ex_full 9 = \<lparr>e_q = None, e_ipaddr = 10, e_netif = 1, e_ethaddr = ethzero, e_state = ETHARP_STATE_STABLE, e_ctime = 10\<rparr>"
  "i < ARP_TABLE_SIZE \<Longrightarrow> e_ctime (entry ex_full i) = i + 1 \<and> is_stable (entry ex_full i)"
proof -
  have n: "entry ex_full i = \<lparr>e_q = None, e_ipaddr = of_nat (i + 1), e_netif = 1, e_ethaddr = ethzero,
      e_state = ETHARP_STATE_STABLE, e_ctime = i + 1\<rparr>" if "i < ARP_TABLE_SIZE" for i
    using that by (simp add: ex_full_def ARP_TABLE_SIZE_def)
  have inj: "(of_nat (i + 1) :: u32) = of_nat (j + 1) \<longleftrightarrow> i = j" "(of_nat (i + 1) :: u32) \<noteq> 77"
    if "i < ARP_TABLE_SIZE" "j < ARP_TABLE_SIZE" for i j
    using that by (auto simp: ARP_TABLE_SIZE_def word_nat word_unat_eq_iff simp del: of_nat_Suc of_nat_add)
  show "arp_ok ex_full"
    unfolding arp_ok_def using n inj
    by (auto simp: all_set_conv_all_nth entry_ok_def stable_def ex_full_def arp_init_def ARP_TABLE_SIZE_def ARP_MAXAGE_def)
  show "idle ex_full" by (simp add: idle_def ex_full_def)
  show "\<forall>i < ARP_TABLE_SIZE. used (entry ex_full i) \<and> e_ipaddr (entry ex_full i) \<noteq> 77"
    using n inj by (simp add: used_def)
  show "entry ex_full 9 = \<lparr>e_q = None, e_ipaddr = 10, e_netif = 1, e_ethaddr = ethzero, e_state = ETHARP_STATE_STABLE, e_ctime = 10\<rparr>"
    by (simp add: ex_full_def)
  show "i < ARP_TABLE_SIZE \<Longrightarrow> e_ctime (entry ex_full i) = i + 1 \<and> is_stable (entry ex_full i)"
    by (simp add: n stable_def)
qed

text \<open>Property C26: when the table is full and the address is not in it, a search that tries hard frees
  and takes the oldest stable entry; without a stable entry the oldest pending entry on which no packet
  waits; and without one of those the oldest on which a packet waits.\<close>

theorem arp_recycles_oldest:
  assumes "arp_ok s" and "\<forall>i < ARP_TABLE_SIZE. used (entry s i) \<and> e_ipaddr (entry s i) \<noteq> a"
  shows "\<exists>i. victim s i \<and>
    etharp_find_entry c env (Some a) ETHARP_FLAG_TRY_HARD s =
      map_option (\<lambda>s. (Some i, upd_entry i (\<lambda>e. e\<lparr>e_ipaddr := a, e_ctime := 0\<rparr>) s)) (etharp_free_entry c env i s) \<and>
    etharp_find_entry c env (Some a) 0 s = Some (None, s)"
proof -
  from find_scan_full [OF assms] obtain cd i where "find_scan (Some a) (arp_table s) 0 no_cand = Inr cd"
    "c_empty cd = ARP_TABLE_SIZE" "recyclable cd = Some i" "victim s i" by blast
  then show ?thesis
    by (intro exI [of _ i]) (cases "etharp_free_entry c env i s";
      simp add: etharp_find_entry_def ETHARP_FLAG_TRY_HARD_def ETHARP_FLAG_FIND_ONLY_def)
qed

lemma arp_recycles_oldest_witness:
  "\<exists>s'. etharp_find_entry ex_cfg ex_env (Some 77) ETHARP_FLAG_TRY_HARD ex_full = Some (Some 9, s') \<and>
     e_ipaddr (entry s' 9) = 77"
proof -
  from arp_recycles_oldest [OF ex_full_facts(1,3), of ex_cfg ex_env] obtain i where i: "victim ex_full i"
    "etharp_find_entry ex_cfg ex_env (Some 77) ETHARP_FLAG_TRY_HARD ex_full =
      map_option (\<lambda>s. (Some i, upd_entry i (\<lambda>e. e\<lparr>e_ipaddr := 77, e_ctime := 0\<rparr>) s)) (etharp_free_entry ex_cfg ex_env i ex_full)"
    by blast
  have n: "9 < ARP_TABLE_SIZE" by (simp add: ARP_TABLE_SIZE_def)
  then have "\<exists>j < ARP_TABLE_SIZE. is_stable (entry ex_full j)" using ex_full_facts(5) by blast
  with i(1) have o: "oldest ex_full is_stable i" by (simp add: victim_def)
  then have "e_ctime (entry ex_full 9) \<le> e_ctime (entry ex_full i)" "i < ARP_TABLE_SIZE"
    using n ex_full_facts(5) [OF n] unfolding oldest_def by blast+
  with ex_full_facts(5) [of 9] ex_full_facts(5) [of i] n have "i = 9" by (simp add: ARP_TABLE_SIZE_def)
  with i(2) show ?thesis
    using arp_okD(1) [OF ex_full_facts(1)] by (auto simp: etharp_free_entry_def ex_full_facts(4) ARP_TABLE_SIZE_def)
qed

text \<open>The age limits.  If nothing else happens, \<open>k\<close> calls of \<^verbatim>\<open>etharp_tmr\<close> return and leave
  exactly the entries that were younger than their limit by more than \<open>k\<close> calls: 240 for an entry with a
  known Ethernet address, 2 for a pending one.  Their addresses are unchanged.\<close>

lemma arp_entry_lifetime:
  assumes "arp_ok s" and "idle s" and "i < ARP_TABLE_SIZE" and "used (entry s i)"
  shows "\<exists>s'. ticks c env k s = Some s' \<and>
    (used (entry s' i) \<longleftrightarrow> e_ctime (entry s i) + k < (if stable (e_state (entry s i)) then 240 else 2)) \<and>
    e_ipaddr (entry s' i) = e_ipaddr (entry s i) \<and> e_ethaddr (entry s' i) = e_ethaddr (entry s i)"
proof -
  obtain s' where s': "ticks c env k s = Some s'" using ticks_return [OF assms(1,2)] by blast
  note T = ticks_lifetime [OF assms(1) s']
  have l: "i < length (arp_table s)" "i < length (arp_table s')" using assms(3) arp_okD(1) T assms(1) by auto
  have L: "lifetime (entry s' i) = lifetime (entry s i) - k"
    using arg_cong [of _ _ "\<lambda>xs. xs ! i", OF T [THEN conjunct2, THEN conjunct1]] l by simp
  have A: "e_ethaddr (entry s' i) = e_ethaddr (entry s i)" "e_ipaddr (entry s' i) = e_ipaddr (entry s i)"
    using arg_cong [of _ _ "\<lambda>xs. xs ! i", OF T [THEN conjunct2, THEN conjunct2, THEN conjunct1]]
      arg_cong [of _ _ "\<lambda>xs. xs ! i", OF T [THEN conjunct2, THEN conjunct2, THEN conjunct2]] l by simp_all
  have "used (entry s' i) \<longleftrightarrow> 0 < lifetime (entry s i) - k"
    using used_lifetime [OF arp_okD(3) [OF T [THEN conjunct1] assms(3)]] by (simp only: L)
  also have "\<dots> \<longleftrightarrow> e_ctime (entry s i) + k < (if stable (e_state (entry s i)) then 240 else 2)"
    using assms(4) by (simp add: lifetime_def used_def ARP_MAXAGE_def ARP_MAXPENDING_def less_diff_conv add.commute)
  finally show ?thesis using s' A by blast
qed

lemma arp_entry_lifetime_witness:
  "\<exists>s' s''. ticks ex_cfg ex_env 229 ex_full = Some s' \<and> used (entry s' 9) \<and>
     ticks ex_cfg ex_env 230 ex_full = Some s'' \<and> \<not> used (entry s'' 9)"
proof -
  have "9 < ARP_TABLE_SIZE" "used (entry ex_full 9)" by (simp_all add: ARP_TABLE_SIZE_def ex_full_facts(4) used_def)
  from arp_entry_lifetime [OF ex_full_facts(1,2) this, of ex_cfg ex_env 229]
    arp_entry_lifetime [OF ex_full_facts(1,2) this, of ex_cfg ex_env 230]
  show ?thesis by (auto simp: ex_full_facts(4) stable_def)
qed

text \<open>The cached index of \<^verbatim>\<open>etharp_output\<close> changes nothing but the speed: sending to an
  address does what the search through the table does.\<close>

lemma arp_cache_transparent:
  assumes "arp_ok s"
  shows "output_unicast c env lo n q a s =
    (case find_stable a (arp_table s) 0 of
       Some i \<Rightarrow> etharp_output_to_arp_index c env lo n q i (s\<lparr>etharp_cached_entry := i\<rparr>)
     | None \<Rightarrow> etharp_query c env lo n a (Some q) s)"
proof (cases "is_stable (entry s (etharp_cached_entry s)) \<and> a = e_ipaddr (entry s (etharp_cached_entry s))")
  case True
  let ?k = "etharp_cached_entry s"
  note O = arp_okD [OF assms]
  have "find_stable a (arp_table s) 0 = Some ?k"
  proof (cases "find_stable a (arp_table s) 0")
    case None
    with find_stable_spec(2) [OF None] True O(1,2) show ?thesis by auto
  next
    case (Some i)
    with find_stable_spec(1) [OF Some] True O(1,2) O(4) [of i ?k] show ?thesis by (auto simp: used_def stable_def)
  qed
  with True show ?thesis by (simp add: output_unicast_def Let_def)
next
  case False
  then show ?thesis by (simp only: output_unicast_def Let_def if_False)
qed

lemma arp_cache_transparent_witness:
  "output_unicast ex_cfg ex_env (\<lambda>_. ERR_OK) (ex_netif 0x0102A8C0 1) 600 10 ex_full =
     etharp_output_to_arp_index ex_cfg ex_env (\<lambda>_. ERR_OK) (ex_netif 0x0102A8C0 1) 600 9 (ex_full\<lparr>etharp_cached_entry := 9\<rparr>)"
proof -
  have "[1..<11] = [1, 2, 3, 4, 5, 6, 7, 8, 9, 10 :: nat]" by (simp add: upt_rec)
  then have "find_stable 10 (arp_table ex_full) 0 = Some 9" by (simp add: ex_full_def stable_def)
  then show ?thesis
    using arp_cache_transparent [OF ex_full_facts(1), of ex_cfg ex_env "\<lambda>_. ERR_OK" "ex_netif 0x0102A8C0 1" 600 10] by simp
qed

end
