(* ===== verification/Pbuf_Head.thy ===== *)
theory Pbuf_Head
  imports Pbuf_Data
begin

text \<open>
  Headers: moving the payload of a packet over the room in front of it (\<^verbatim>\<open>pbuf_header\<close>) and writing into
  its first pbuf.  \<open>room c st p rest k\<close>: the first pbuf has \<open>k\<close> bytes in front of its payload that belong to no other
  pbuf of the packet.
\<close>

definition room :: "pbuf_cfg \<Rightarrow> pst \<Rightarrow> nat \<Rightarrow> nat list \<Rightarrow> nat \<Rightarrow> bool" where
  "room c st p rest k \<longleftrightarrow> p_type (pbufs st p) \<in> {PBUF_RAM, PBUF_POOL} \<and>
     p + SIZEOF_STRUCT_PBUF c + k \<le> p_payload (pbufs st p) \<and> total st (p # rest) + k < 65536 \<and>
     (\<forall>b \<in> set rest. {p_payload (pbufs st p) - k..<p_payload (pbufs st p) + len_of st p} \<inter> region st b = {})"

lemma room_less:
  assumes "room c st p rest i" "j \<le> i"
  shows "room c st p rest j"
proof -
  have "{p_payload (pbufs st p) - j..<p_payload (pbufs st p) + len_of st p} \<subseteq>
      {p_payload (pbufs st p) - i..<p_payload (pbufs st p) + len_of st p}"
    using assms(2) by auto
  then have "{p_payload (pbufs st p) - j..<p_payload (pbufs st p) + len_of st p} \<inter> region st b = {}" if "b \<in> set rest" for b
    using assms(1) that unfolding room_def by blast
  with assms show ?thesis by (simp add: room_def)
qed

lemma room_sep: "room c st p rest i \<Longrightarrow> \<forall>b \<in> set rest. region st p \<inter> region st b = {}"
  using room_less [of c st p rest i 0] by (simp add: room_def region_def)

text \<open>The state after the payload moved by \<open>k\<close> bytes to the front or to the back.\<close>

definition grow :: "nat \<Rightarrow> nat \<Rightarrow> pst \<Rightarrow> pst" where
  "grow p k st = upd_pbuf p (\<lambda>b. b\<lparr>p_payload := p_payload b - k, p_len := p_len b + k, p_tot_len := p_tot_len b + k\<rparr>) st"

definition shrink :: "nat \<Rightarrow> nat \<Rightarrow> pst \<Rightarrow> pst" where
  "shrink p k st = upd_pbuf p (\<lambda>b. b\<lparr>p_payload := p_payload b + k, p_len := p_len b - k, p_tot_len := p_tot_len b - k\<rparr>) st"

lemma grow_simps [simp]:
  "p_payload (pbufs (grow p k st) p) = p_payload (pbufs st p) - k" "len_of (grow p k st) p = len_of st p + k"
  "p_tot_len (pbufs (grow p k st) p) = p_tot_len (pbufs st p) + k" "p_type (pbufs (grow p k st) b) = p_type (pbufs st b)"
  "p_next (pbufs (grow p k st) b) = p_next (pbufs st b)" "p_ref (pbufs (grow p k st) b) = p_ref (pbufs st b)"
  "p_flags (pbufs (grow p k st) b) = p_flags (pbufs st b)" "b \<noteq> p \<Longrightarrow> pbufs (grow p k st) b = pbufs st b"
  "payload_bytes (grow p k st) = payload_bytes st" "pbuf_pools (grow p k st) = pbuf_pools st"
  "pbuf_heap (grow p k st) = pbuf_heap st"
  by (simp_all add: grow_def)

lemma shrink_simps [simp]:
  "p_payload (pbufs (shrink p k st) p) = p_payload (pbufs st p) + k" "len_of (shrink p k st) p = len_of st p - k"
  "p_tot_len (pbufs (shrink p k st) p) = p_tot_len (pbufs st p) - k" "p_type (pbufs (shrink p k st) b) = p_type (pbufs st b)"
  "p_next (pbufs (shrink p k st) b) = p_next (pbufs st b)" "p_ref (pbufs (shrink p k st) b) = p_ref (pbufs st b)"
  "p_flags (pbufs (shrink p k st) b) = p_flags (pbufs st b)" "b \<noteq> p \<Longrightarrow> pbufs (shrink p k st) b = pbufs st b"
  "payload_bytes (shrink p k st) = payload_bytes st" "pbuf_pools (shrink p k st) = pbuf_pools st"
  "pbuf_heap (shrink p k st) = pbuf_heap st"
  by (simp_all add: shrink_def)

lemma load_split: "load_bytes a (k + n) m = load_bytes a k m @ load_bytes (a + k) n m"
  by (intro nth_equalityI) (auto simp: load_bytes_def nth_append)

lemma header_grow:
  assumes pk: "packet st (Some p) (p # rest)" and r: "room c st p rest k" and k: "0 < k"
  shows "pbuf_header c (Some p) (int k) st = (0, grow p k st)" "packet (grow p k st) (Some p) (p # rest)"
    "contents (grow p k st) (p # rest) = load_bytes (p_payload (pbufs st p) - k) k (payload_bytes st) @ contents st (p # rest)"
    "\<And>j. k + j \<le> i \<Longrightarrow> room c st p rest i \<Longrightarrow> room c (grow p k st) p rest j"
proof -
  from packetD(4) [OF pk] have d: "p \<notin> set rest" by simp
  have same: "pbufs (grow p k st) b = pbufs st b" if "b \<in> set rest" for b
    using that d by (cases "b = p") simp_all
  have tot: "total (grow p k st) rest = total st rest" by (rule total_cong) (simp_all add: same)
  have reg: "region (grow p k st) b = region st b" if "b \<in> set rest" for b
    using that by (simp add: region_def same)
  have t: "p_tot_len (pbufs st p) = total st (p # rest)" using tot_len_packet [OF pk] .
  from r have m: "p_type (pbufs st p) = PBUF_RAM \<or> p_type (pbufs st p) = PBUF_POOL"
    "p + SIZEOF_STRUCT_PBUF c + k \<le> p_payload (pbufs st p)" "len_of st p + k < 65536" "p_tot_len (pbufs st p) + k < 65536"
    by (auto simp: room_def t)
  have md: "nat ((int a + int k) mod 65536) = a + k" if "a + k < 65536" for a
    using that by (simp flip: of_nat_add)
  have b: "nat (int (p_payload (pbufs st p)) - int k) = p_payload (pbufs st p) - k"
    "\<not> int (p_payload (pbufs st p)) - int k < int (p + SIZEOF_STRUCT_PBUF c)"
    using m(2) by linarith+
  show "pbuf_header c (Some p) (int k) st = (0, grow p k st)"
    using m(1) k b(2) unfolding pbuf_header_def grow_def upd_pbuf_def
    by (simp add: Let_def b(1) md [OF m(3)] md [OF m(4)])
  have "chain (links (grow p k st)) (links st p) rest" using packetD(1) [OF pk] by (auto cong: chain_cong)
  moreover have "tots (grow p k st) rest = tots st rest" by (rule tots_cong) (simp_all add: same)
  ultimately show "packet (grow p k st) (Some p) (p # rest)"
    using pk r tot by (auto simp: packet_def room_def)
  have "contents (grow p k st) rest = contents st rest" by (rule contents_cong) (simp_all add: same)
  moreover have "data_of (grow p k st) p = load_bytes (p_payload (pbufs st p) - k) k (payload_bytes st) @ data_of st p"
    using r load_split [of "p_payload (pbufs st p) - k" k "len_of st p" "payload_bytes st"]
    by (simp add: data_of_def room_def add.commute)
  ultimately show "contents (grow p k st) (p # rest) = load_bytes (p_payload (pbufs st p) - k) k (payload_bytes st) @ contents st (p # rest)"
    by simp
  fix j assume j: "k + j \<le> i" and i: "room c st p rest i"
  have sub: "{p_payload (pbufs st p) - k - j..<p_payload (pbufs st p) - k + (len_of st p + k)} \<subseteq>
      {p_payload (pbufs st p) - i..<p_payload (pbufs st p) + len_of st p}"
    using j i by (auto simp: room_def)
  have "{p_payload (pbufs st p) - k - j..<p_payload (pbufs st p) - k + (len_of st p + k)} \<inter> region (grow p k st) b = {}"
    if "b \<in> set rest" for b
  proof -
    have "{p_payload (pbufs st p) - i..<p_payload (pbufs st p) + len_of st p} \<inter> region st b = {}"
      using i that by (simp add: room_def)
    with sub reg [OF that] show ?thesis by blast
  qed
  moreover have "p + SIZEOF_STRUCT_PBUF c + j \<le> p_payload (pbufs st p) - k" "p_type (pbufs st p) \<in> {PBUF_RAM, PBUF_POOL}"
    "total st (p # rest) + k + j < 65536"
    using i j by (auto simp: room_def)
  ultimately show "room c (grow p k st) p rest j" by (simp add: room_def tot)
qed

lemma header_shrink:
  assumes pk: "packet st (Some p) (p # rest)" and k: "k \<le> len_of st p" "0 < k"
    and q: "p + SIZEOF_STRUCT_PBUF c \<le> p_payload (pbufs st p)"
  shows "pbuf_header c (Some p) (- int k) st = (0, shrink p k st)" "packet (shrink p k st) (Some p) (p # rest)"
    "contents (shrink p k st) (p # rest) = drop k (contents st (p # rest))"
proof -
  from packetD(4) [OF pk] have d: "p \<notin> set rest" by simp
  have same: "pbufs (shrink p k st) b = pbufs st b" if "b \<in> set rest" for b
    using that d by (cases "b = p") simp_all
  have tot: "total (shrink p k st) rest = total st rest" by (rule total_cong) (simp_all add: same)
  have t: "p_tot_len (pbufs st p) = total st (p # rest)" using tot_len_packet [OF pk] .
  from packetD(3) [OF pk] have l: "len_of st p + total st rest < 65536" by simp
  have b: "nat ((int (p_len (pbufs st p)) - int k) mod 65536) = p_len (pbufs st p) - k"
    "nat ((int (p_tot_len (pbufs st p)) - int k) mod 65536) = p_tot_len (pbufs st p) - k"
    "\<not> int (p_payload (pbufs st p)) + int k < int (p + SIZEOF_STRUCT_PBUF c)"
    using l k q t by (simp_all add: nat_diff_distrib')
  show "pbuf_header c (Some p) (- int k) st = (0, shrink p k st)"
    using k b(3) unfolding pbuf_header_def shrink_def upd_pbuf_def by (simp add: Let_def b(1,2) nat_int_add)
  have "chain (links (shrink p k st)) (links st p) rest" using packetD(1) [OF pk] by (auto cong: chain_cong)
  moreover have "tots (shrink p k st) rest = tots st rest" by (rule tots_cong) (simp_all add: same)
  ultimately show "packet (shrink p k st) (Some p) (p # rest)"
    using pk l k tot by (auto simp: packet_def)
  have "contents (shrink p k st) rest = contents st rest" by (rule contents_cong) (simp_all add: same)
  moreover have "data_of (shrink p k st) p = drop k (data_of st p)"
    by (intro nth_equalityI) (auto simp: data_of_def load_bytes_def add.assoc)
  ultimately show "contents (shrink p k st) (p # rest) = drop k (contents st (p # rest))" using k by simp
qed

text \<open>Writing into the first pbuf.\<close>

lemma write_first:
  assumes pk: "packet st (Some p) (p # rest)" and sep: "\<forall>b \<in> set rest. region st p \<inter> region st b = {}"
    and l: "k + length bs \<le> len_of st p"
  defines "st' \<equiv> write_bytes (p_payload (pbufs st p) + k) bs st"
  shows "packet st' (Some p) (p # rest)"
    "contents st' (p # rest) = take k (contents st (p # rest)) @ bs @ drop (k + length bs) (contents st (p # rest))"
proof -
  have pb: "pbufs st' = pbufs st" by (simp add: st'_def)
  have "total st' = total st" by (rule ext, rule total_cong) (simp add: pb)
  moreover have "tots st' = tots st" by (rule ext, rule tots_cong) (simp add: pb)
  ultimately show "packet st' (Some p) (p # rest)" using pk by (simp only: packet_def pb)
  have "data_of st' b = data_of st b" if "b \<in> set rest" for b
  proof (rule data_region)
    fix i assume "i \<in> region st b"
    with sep that have "i \<notin> region st p" by blast
    with l show "payload_bytes st i = payload_bytes st' i"
      by (auto simp: st'_def write_bytes_def store_bytes_nth region_def)
  qed (simp add: pb)
  then have "contents st' rest = contents st rest" by (simp add: contents_def cong: map_cong)
  moreover have "data_of st' p = take k (data_of st p) @ bs @ drop (k + length bs) (data_of st p)"
    using l by (intro nth_equalityI) (auto simp: data_of_def load_bytes_def st'_def write_bytes_def store_bytes_nth nth_append)
  ultimately show "contents st' (p # rest) = take k (contents st (p # rest)) @ bs @ drop (k + length bs) (contents st (p # rest))"
    using l by simp
qed

end
