(* ===== verification/Etharp_Msg.thy ===== *)
theory Etharp_Msg
  imports Etharp_Spec Pbuf_Head
begin

text \<open>
  ARP messages on the wire: the 42 bytes \<^verbatim>\<open>etharp_raw\<close> sends, the answer \<^verbatim>\<open>etharp_arp_input\<close> writes
  into a request, and the resolution of both addresses by an exchange of the two.
\<close>

section \<open>Bytes of a packet\<close>

definition byte_at :: "nat \<Rightarrow> nat \<Rightarrow> arp \<Rightarrow> u8" where
  "byte_at p i s = payload_bytes (a_st s) (p_payload (pbufs (a_st s) p) + i)"

lemma byte_at_put: "byte_at p i (put_at p k bs s) = (if k \<le> i \<and> i < k + length bs then bs ! (i - k) else byte_at p i s)"
  by (auto simp: byte_at_def put_at_def write_bytes_def store_bytes_nth)

lemma get_at_bytes: "get_at p k n s = map (\<lambda>i. byte_at p (k + i) s) [0..<n]"
  by (auto simp: get_at_def load_bytes_def byte_at_def add.assoc intro!: nth_equalityI)

definition arp_frame :: "u8 list \<Rightarrow> u8 list \<Rightarrow> u8 \<Rightarrow> u8 list \<Rightarrow> u32 \<Rightarrow> u8 list \<Rightarrow> u32 \<Rightarrow> u8 list" where
  "arp_frame ethdst ethsrc op hwsrc ipsrc hwdst ipdst =
     ethdst @ ethsrc @ [0x08, 0x06, 0, 1, 0x08, 0x00, 6, 4, 0, op] @ hwsrc @ addr_bytes ipsrc @ hwdst @ addr_bytes ipdst"

lemma list6: "length xs = 6 \<longleftrightarrow> (\<exists>a b c d e f. xs = [a, b, c, d, e, f])"
  by (auto simp: numeral_eq_Suc length_Suc_conv)

lemma upto42: "[0..<42] = [0, 1, 2, 3, 4, 5, 6, 7, 8, 9, 10, 11, 12, 13, 14, 15, 16, 17, 18, 19, 20, 21, 22, 23, 24, 25, 26,
    27, 28, 29, 30, 31, 32, 33, 34, 35, 36, 37, 38, 39, 40, 41 :: nat]"
  by (simp add: upt_rec)

lemma ip_of_addr: "ip_of (addr_bytes a) = a"
  by (simp add: ip_of_def addr_bytes_def addr_le32)

lemma length_addr_bytes [simp]: "length (addr_bytes a) = 4"
  by (simp add: addr_bytes_def)

text \<open>The parts of a received message.\<close>

lemma get_at_part: "k + m \<le> j \<Longrightarrow> get_at p k m s = take m (drop k (get_at p 0 j s))"
  by (auto simp: get_at_bytes take_map drop_map intro!: nth_equalityI)

lemma frame_parts:
  assumes "get_at p 0 42 s = arp_frame d e op hws sip hwt tip" "length d = 6" "length e = 6" "length hws = 6" "length hwt = 6"
  shows "get_at p 14 2 s = [0, 1]" "get_at p 18 1 s = [6]" "get_at p 19 1 s = [4]" "get_at p 16 2 s = [0x08, 0x00]"
    "get_at p 28 4 s = addr_bytes sip" "get_at p 38 4 s = addr_bytes tip" "get_at p 22 6 s = hws" "get_at p 20 2 s = [0, op]"
proof -
  note part = get_at_part [of _ _ 42 p s, unfolded assms(1)]
  show "get_at p 14 2 s = [0, 1]" "get_at p 18 1 s = [6]" "get_at p 19 1 s = [4]" "get_at p 16 2 s = [0x08, 0x00]"
    "get_at p 28 4 s = addr_bytes sip" "get_at p 38 4 s = addr_bytes tip" "get_at p 22 6 s = hws" "get_at p 20 2 s = [0, op]"
    using assms(2-5) by (auto simp: part list6 arp_frame_def addr_bytes_def)
qed

section \<open>Sending\<close>

lemma linkoutput_single:
  assumes "chain (links (a_st s)) (Some p) [p]" "p_tot_len (pbufs (a_st s) p) = p_len (pbufs (a_st s) p)"
  shows "linkoutput lo p s = (let f = get_at p 0 (p_len (pbufs (a_st s) p)) s in Some (lo f, s\<lparr>a_sent := a_sent s @ [f]\<rparr>))"
  using copy_partial_spec [OF assms(1)] assms(2)
  by (simp add: linkoutput_def pbuf_copy_partial_def Let_def data_of_def get_at_def)

lemma free_pbuf_returns:
  assumes "chain (links (a_st s)) (Some p) xs" "held (a_st s) xs fl"
  shows "\<exists>s'. free_pbuf c env p s = Some s'"
  using pbuf_free_loop_spec [OF assms(1), of fl 0 c env] assms(2)
  by (auto simp: held_def free_pbuf_def pbuf_free_def)

text \<open>The bytes \<^verbatim>\<open>etharp_raw\<close> puts into its buffer.\<close>

definition fill_frame :: "u8 list \<Rightarrow> u8 list \<Rightarrow> u8 list \<Rightarrow> u32 \<Rightarrow> u8 list \<Rightarrow> u32 \<Rightarrow> nat \<Rightarrow> nat \<Rightarrow> arp \<Rightarrow> arp" where
  "fill_frame ethsrc ethdst hwsrc ipsrc hwdst ipdst opcode p s =
     put_at p 12 [0x08, 0x06] (put_at p 19 [4] (put_at p 18 [6] (put_at p 16 [0x08, 0x00] (put_at p 14 [0, 1]
       (put_at p 38 (addr_bytes ipdst) (put_at p 28 (addr_bytes ipsrc) (put_at p 6 ethsrc (put_at p 0 ethdst
         (put_at p 32 hwdst (put_at p 22 hwsrc (put_at p 20 [of_nat (opcode div 256), of_nat opcode] s)))))))))))"

lemma fill_frame_bytes:
  assumes "length ethsrc = 6" "length ethdst = 6" "length hwsrc = 6" "length hwdst = 6" "opcode < 256"
  shows "get_at p 0 42 (fill_frame ethsrc ethdst hwsrc ipsrc hwdst ipdst opcode p s) =
    arp_frame ethdst ethsrc (of_nat opcode) hwsrc ipsrc hwdst ipdst"
proof -
  from assms(1) obtain a0 a1 a2 a3 a4 a5 where a: "ethsrc = [a0, a1, a2, a3, a4, a5]" unfolding list6 by blast
  from assms(2) obtain b0 b1 b2 b3 b4 b5 where b: "ethdst = [b0, b1, b2, b3, b4, b5]" unfolding list6 by blast
  from assms(3) obtain c0 c1 c2 c3 c4 c5 where c: "hwsrc = [c0, c1, c2, c3, c4, c5]" unfolding list6 by blast
  from assms(4) obtain d0 d1 d2 d3 d4 d5 where d: "hwdst = [d0, d1, d2, d3, d4, d5]" unfolding list6 by blast
  show ?thesis
    using assms(5) by (simp add: get_at_bytes upto42 fill_frame_def byte_at_put a b c d arp_frame_def addr_bytes_def)
qed

lemma fill_frame_frame [simp]:
  "arp_table (fill_frame a b c d e f g p s) = arp_table s" "a_sent (fill_frame a b c d e f g p s) = a_sent s"
  "etharp_cached_entry (fill_frame a b c d e f g p s) = etharp_cached_entry s"
  "pbufs (a_st (fill_frame a b c d e f g p s)) = pbufs (a_st s)"
  "pbuf_pools (a_st (fill_frame a b c d e f g p s)) = pbuf_pools (a_st s)"
  by (simp_all add: fill_frame_def)

lemma alloc_ram_pbuf:
  assumes "pbuf_alloc c env layer len PBUF_RAM st = Some (Some p, st')"
  shows "p_next (pbufs st' p) = None \<and> p_len (pbufs st' p) = len \<and> p_tot_len (pbufs st' p) = len \<and>
    p_ref (pbufs st' p) = 1 \<and> p_flags (pbufs st' p) = 0 \<and> p_type (pbufs st' p) = PBUF_RAM \<and> pbuf_pools st' = pbuf_pools st"
  using assms by (auto simp: pbuf_alloc_def alloc_ram_def Let_def split: option.splits prod.splits)

text \<open>Freeing a heap buffer with one reference and nothing behind it always returns.\<close>

lemma free_ram_returns:
  assumes "p_next (pbufs (a_st s) p) = None" "p_ref (pbufs (a_st s) p) = 1" "p_flags (pbufs (a_st s) p) = 0"
    "p_type (pbufs (a_st s) p) = PBUF_RAM"
  shows "\<exists>s'. free_pbuf c env p s = Some s'"
  using assms
  by (simp add: free_pbuf_def pbuf_free_def)
    (subst pbuf_free_loop.simps, simp add: Let_def release_pbuf_def, subst pbuf_free_loop.simps, simp)

lemma raw_sends:
  fixes ipsrc ipdst :: u32
  assumes len: "length ethsrc = 6" "length ethdst = 6" "length hwsrc = 6" "length hwdst = 6" "opcode < 256"
    and al: "pbuf_alloc c env PBUF_RAW 42 PBUF_RAM (a_st s) = Some (Some p, st)"
  defines "f \<equiv> arp_frame ethdst ethsrc (of_nat opcode) hwsrc ipsrc hwdst ipdst"
  shows "\<exists>s'. etharp_raw c env lo ethsrc ethdst hwsrc ipsrc hwdst ipdst opcode s = Some (lo f, s') \<and>
    a_sent s' = a_sent s @ [f] \<and> arp_table s' = arp_table s \<and> etharp_cached_entry s' = etharp_cached_entry s"
proof -
  define s1 where "s1 = fill_frame ethsrc ethdst hwsrc ipsrc hwdst ipdst opcode p (s\<lparr>a_st := st\<rparr>)"
  note b = alloc_ram_pbuf [OF al]
  have s1: "pbufs (a_st s1) = pbufs st" "get_at p 0 42 s1 = f" "arp_table s1 = arp_table s" "a_sent s1 = a_sent s"
    "etharp_cached_entry s1 = etharp_cached_entry s"
    using fill_frame_bytes [OF len] by (simp_all add: s1_def f_def)
  define s2 where "s2 = s1\<lparr>a_sent := a_sent s @ [f]\<rparr>"
  have lo: "linkoutput lo p s1 = Some (lo f, s2)"
    using linkoutput_single [of s1 p lo] b s1 by (simp add: s2_def)
  obtain s' where s': "free_pbuf c env p s2 = Some s'"
    using free_ram_returns [of s2 p c env] b s1(1) by (auto simp: s2_def)
  have "etharp_raw c env lo ethsrc ethdst hwsrc ipsrc hwdst ipdst opcode s = Some (lo f, s')"
    using al lo s' by (simp add: etharp_raw_def Let_def SIZEOF_ETHARP_PACKET_def s1_def fill_frame_def)
  with free_pbuf_frame [OF s'] s1 show ?thesis by (simp add: s2_def)
qed

section \<open>Sending an IP packet\<close>

lemma region_write [simp]: "region (write_bytes d bs st) = region st"
  by (simp add: region_def fun_eq_iff)

lemma send_ip_frame_bytes:
  assumes pk: "packet (a_st a) (Some p) (p # rest)" and sep: "\<forall>b \<in> set rest. region (a_st a) p \<inter> region (a_st a) b = {}"
    and l: "14 \<le> len_of (a_st a) p" and len: "length dst = 6" "length src = 6"
  shows "\<exists>a'. etharp_send_ip lo p src dst a = Some (lo (dst @ src @ [0x08, 0x00] @ drop 14 (contents (a_st a) (p # rest))), a') \<and>
    a_sent a' = a_sent a @ [dst @ src @ [0x08, 0x00] @ drop 14 (contents (a_st a) (p # rest))] \<and> arp_table a' = arp_table a"
proof -
  let ?d = "p_payload (pbufs (a_st a) p)" and ?C = "contents (a_st a) (p # rest)"
  define st1 where "st1 = write_bytes (?d + 0) dst (a_st a)"
  define st2 where "st2 = write_bytes (?d + 6) src st1"
  define st3 where "st3 = write_bytes (?d + 12) [0x08, 0x00] st2"
  have p1: "pbufs st1 = pbufs (a_st a)" "region st1 = region (a_st a)" by (simp_all add: st1_def)
  have p2: "pbufs st2 = pbufs (a_st a)" "region st2 = region (a_st a)" by (simp_all add: st2_def p1)
  have "0 + length dst \<le> len_of (a_st a) p" using l len by simp
  note w1 = write_first [OF pk sep this, folded st1_def]
  have "6 + length src \<le> len_of st1 p" using l len p1 by simp
  note w2 = write_first [OF w1(1) sep [folded p1(2)] this, unfolded p1(1), folded st2_def]
  have "12 + length [0x08, 0x00 :: u8] \<le> len_of st2 p" using l len p2 by simp
  note w3 = write_first [OF w2(1) sep [folded p2(2)] this, unfolded p2(1), folded st3_def]
  have C: "contents st3 (p # rest) = dst @ src @ [0x08, 0x00] @ drop 14 ?C"
    using len unfolding w3(2) w2(2) w1(2) by (simp del: contents_simps add: drop_take)
  define a3 where "a3 = put_at p 12 [0x08, 0x00] (put_at p 6 src (put_at p 0 dst a))"
  have a3: "a_st a3 = st3" "a_sent a3 = a_sent a" "arp_table a3 = arp_table a"
    by (simp_all add: a3_def put_at_def st3_def st2_def st1_def)
  have p3: "pbufs st3 = pbufs (a_st a)" by (simp add: st3_def p2)
  have "pbuf_copy_partial (Some p) (p_tot_len (pbufs (a_st a) p)) 0 st3 = Some (contents st3 (p # rest))"
    using copy_partial_spec [OF packetD(1) [OF w3(1)], of "p_tot_len (pbufs st3 p)" 0 "[]"] tot_len_packet [OF w3(1)]
    by (simp add: pbuf_copy_partial_def p3 del: contents_simps)
  then show ?thesis using a3 p3 by (simp add: etharp_send_ip_def Let_def linkoutput_def C flip: a3_def del: contents_simps)
qed

section \<open>Receiving\<close>

text \<open>The packet that waits for the address \<open>a\<close> to be resolved.  An entry can be had for \<open>a\<close> without dropping a packet
  that waits for another address: there is one for \<open>a\<close>, or one on which no packet waits.\<close>

definition queued_on :: "u32 \<Rightarrow> arp \<Rightarrow> nat option" where
  "queued_on a s = (case find_scan (Some a) (arp_table s) 0 no_cand of Inl i \<Rightarrow> e_q (entry s i) | Inr _ \<Rightarrow> None)"

definition can_learn :: "u32 \<Rightarrow> arp \<Rightarrow> bool" where
  "can_learn a s \<longleftrightarrow>
     (\<exists>i < ARP_TABLE_SIZE. used (entry s i) \<and> e_ipaddr (entry s i) = a \<or> e_q (entry s i) = None)"

lemma victim_no_queue:
  assumes ok: "arp_ok s" and v: "victim s i"
    and j: "j < ARP_TABLE_SIZE" "used (entry s j)" "e_q (entry s j) = None"
  shows "i < ARP_TABLE_SIZE \<and> e_q (entry s i) = None"
proof -
  have "is_stable (entry s j) \<or> is_pending (entry s j)"
    using j(2,3) by (cases "e_state (entry s j)") (auto simp: used_def stable_def)
  then have i: "i < ARP_TABLE_SIZE" "is_stable (entry s i) \<or> is_pending (entry s i)"
    using v j(1) by (auto simp: victim_def oldest_def split: if_splits)
  with arp_okD(3) [OF ok i(1)] show ?thesis by (auto simp: entry_ok_def stable_def)
qed

lemma find_entry_learns:
  assumes ok: "arp_ok s" and l: "can_learn a s"
  shows "\<exists>i s1. etharp_find_entry c env (Some a) ETHARP_FLAG_TRY_HARD s = Some (Some i, s1) \<and> a_st s1 = a_st s \<and>
    e_q (entry s1 i) = queued_on a s"
proof -
  have fl: "ETHARP_FLAG_TRY_HARD AND ETHARP_FLAG_FIND_ONLY = 0" "ETHARP_FLAG_TRY_HARD AND ETHARP_FLAG_TRY_HARD \<noteq> 0"
    by (simp_all add: ETHARP_FLAG_TRY_HARD_def ETHARP_FLAG_FIND_ONLY_def)
  note len = arp_okD(1) [OF ok]
  show ?thesis
  proof (cases "\<forall>i < ARP_TABLE_SIZE. used (entry s i) \<and> e_ipaddr (entry s i) \<noteq> a")
    case True
    from find_scan_full [OF ok True] obtain cd i where cd: "find_scan (Some a) (arp_table s) 0 no_cand = Inr cd"
      "c_empty cd = ARP_TABLE_SIZE" "recyclable cd = Some i" "victim s i" by blast
    from l True obtain j where "j < ARP_TABLE_SIZE" "used (entry s j)" "e_q (entry s j) = None"
      by (auto simp: can_learn_def)
    from victim_no_queue [OF ok cd(4) this] have i: "i < ARP_TABLE_SIZE" "e_q (entry s i) = None" by auto
    then have "etharp_free_entry c env i s = Some (upd_entry i (\<lambda>e. e\<lparr>e_state := ETHARP_STATE_EMPTY\<rparr>) s)"
      by (simp add: etharp_free_entry_def)
    with cd(1-3) fl i len show ?thesis by (simp add: etharp_find_entry_def queued_on_def)
  next
    case False
    have sc: "case find_scan (Some a) (arp_table s) 0 no_cand of Inl k \<Rightarrow> True
      | Inr cd \<Rightarrow> c_empty cd < ARP_TABLE_SIZE \<and> \<not> used (entry s (c_empty cd))"
      using find_scan_spec [OF len cand_ok_start, of a] False
      by (auto simp: cand_ok_def split: sum.splits if_splits)
    have "e_q (entry s k) = None" if "k < ARP_TABLE_SIZE" "\<not> used (entry s k)" for k
      using arp_okD(3) [OF ok that(1)] that(2) by (auto simp: entry_ok_def used_def)
    with sc fl len show ?thesis by (auto simp: etharp_find_entry_def queued_on_def split: sum.splits)
  qed
qed

definition resolves :: "arp \<Rightarrow> u32 \<Rightarrow> u8 list \<Rightarrow> bool" where
  "resolves s a h \<longleftrightarrow> (\<exists>i. find_stable a (arp_table s) 0 = Some i \<and> e_ethaddr (entry s i) = h)"

lemma resolvesI:
  assumes ok: "arp_ok s" and e: "i < ARP_TABLE_SIZE" "is_stable (entry s i)" "e_ipaddr (entry s i) = a" "e_ethaddr (entry s i) = h"
  shows "resolves s a h"
proof (cases "find_stable a (arp_table s) 0")
  case None
  from find_stable_spec(2) [OF this] e arp_okD(1) [OF ok] nth_mem [of i "arp_table s"] show ?thesis by auto
next
  case (Some k)
  from find_stable_spec(1) [OF Some] arp_okD(1) [OF ok] have k: "k < ARP_TABLE_SIZE" "is_stable (entry s k)" "e_ipaddr (entry s k) = a"
    by auto
  then have "k = i" using arp_okD(4) [OF ok, of k i] e by (auto simp: used_def stable_def)
  with Some e show ?thesis by (simp add: resolves_def)
qed

text \<open>The pbufs \<open>qs\<close> of the packet that waits for \<open>a\<close>, if one does: with its room for the Ethernet header in the first
  pbuf, apart from the message in the pbuf \<open>p\<close>.\<close>

definition waiting :: "u32 \<Rightarrow> nat \<Rightarrow> nat list \<Rightarrow> arp \<Rightarrow> (nat \<Rightarrow> nat list) \<Rightarrow> bool" where
  "waiting a p qs s fl \<longleftrightarrow> held (a_st s) (p # qs) fl \<and>
     (case queued_on a s of None \<Rightarrow> qs = []
      | Some q \<Rightarrow> \<exists>rest. qs = q # rest \<and> packet (a_st s) (Some q) qs \<and> 14 \<le> len_of (a_st s) q \<and> p \<notin> set qs \<and>
          (\<forall>b \<in> set (p # rest). region (a_st s) q \<inter> region (a_st s) b = {}))"

text \<open>The frame that packet leaves in.\<close>

definition waiting_frames :: "arp_netif \<Rightarrow> u8 list \<Rightarrow> nat list \<Rightarrow> arp \<Rightarrow> u8 list list" where
  "waiting_frames n h qs s =
     (if qs = [] then [] else [h @ nif_hwaddr n @ [0x08, 0x00] @ drop 14 (contents (a_st s) qs)])"

text \<open>Two states in which the message in \<open>p\<close> is the same.\<close>

definition same_message :: "nat \<Rightarrow> arp \<Rightarrow> arp \<Rightarrow> bool" where
  "same_message p s s' \<longleftrightarrow> pbufs (a_st s') p = pbufs (a_st s) p \<and>
     (\<forall>i \<in> region (a_st s) p. payload_bytes (a_st s') i = payload_bytes (a_st s) i)"

lemma same_message_get:
  "same_message p s s' \<Longrightarrow> k + m \<le> p_len (pbufs (a_st s) p) \<Longrightarrow> get_at p k m s' = get_at p k m s"
  by (auto simp: same_message_def get_at_def load_bytes_def region_def)

lemma send_ip_elsewhere:
  assumes "etharp_send_ip lo q src dst s = Some (r, s')" and "14 \<le> len_of (a_st s) q" and "length dst = 6" and "length src = 6"
    and "region (a_st s) q \<inter> region (a_st s) p = {}"
  shows "same_message p s s' \<and> pbufs (a_st s') = pbufs (a_st s) \<and> pbuf_pools (a_st s') = pbuf_pools (a_st s)"
proof -
  have "payload_bytes (a_st s') i = payload_bytes (a_st s) i" if "i \<notin> region (a_st s) q" for i
    using assms(1-4) that
    by (auto simp: etharp_send_ip_def Let_def linkoutput_def put_at_def write_bytes_def store_bytes_nth region_def
        elim!: bind_SomeE)
  moreover have "pbufs (a_st s') = pbufs (a_st s)" "pbuf_pools (a_st s') = pbuf_pools (a_st s)"
    using assms(1) by (auto simp: etharp_send_ip_def Let_def linkoutput_def elim!: bind_SomeE)
  ultimately show ?thesis using assms(5) by (auto simp: same_message_def)
qed

lemma free_other:
  assumes "chain (links (a_st s)) (Some q) qs" and h: "held (a_st s) (p # qs) fl" and "p \<notin> set qs"
  shows "\<exists>s' fl'. free_pbuf c env q s = Some s' \<and> held (a_st s') [p] fl' \<and> same_message p s s'"
proof -
  from pbuf_free_loop_spec [OF assms(1), of fl 0 c env] h
  obtain st where st: "pbuf_free c env (Some q) (a_st s) = Some (length (sole (a_st s) qs) mod 256, st)"
    "freed c (a_st s) qs st" "pools_ok (pbuf_pools st) (freed_lists (a_st s) qs fl)"
    by (auto simp: held_def pbuf_free_def no_custom_def)
  have p: "pbufs st p = pbufs (a_st s) p"
    using st(2) assms(3) by (auto simp: freed_def freed_pbufs_def dest: sole_subset in_set_takeD in_set_dropD)
  have "set (freed_lists (a_st s) qs fl i) \<subseteq> set qs \<union> set (fl i)" for i
    by (auto simp: freed_lists_def dest: sole_subset)
  with h assms(3) have "\<forall>i. set [p] \<inter> set (freed_lists (a_st s) qs fl i) = {}" by (auto simp: held_def)
  with st(3) h p have "held st [p] (freed_lists (a_st s) qs fl)" by (simp add: held_def no_custom_def)
  with st(1,2) p show ?thesis by (auto simp: free_pbuf_def same_message_def freed_def)
qed

lemma same_message_trans:
  "same_message p s s1 \<Longrightarrow> same_message p s1 s2 \<Longrightarrow> same_message p s s2"
  by (auto simp: same_message_def region_def)

text \<open>The packet that waits leaves in its frame and is freed.\<close>

lemma send_waiting:
  assumes h: "held (a_st s) (p # qs) fl" and qs: "qs = q # rest" and pk: "packet (a_st s) (Some q) qs"
    and l: "14 \<le> len_of (a_st s) q" and p: "p \<notin> set qs"
    and sep: "\<forall>b \<in> set (p # rest). region (a_st s) q \<inter> region (a_st s) b = {}"
    and len: "length h = 6" "length (nif_hwaddr n) = 6"
  shows "\<exists>r s1 s2 fl'. etharp_send_ip lo q (nif_hwaddr n) h s = Some (r, s1) \<and> free_pbuf c env q s1 = Some s2 \<and>
    a_sent s2 = a_sent s @ waiting_frames n h qs s \<and> arp_table s2 = arp_table s \<and>
    held (a_st s2) [p] fl' \<and> same_message p s s2"
proof -
  from pk qs sep have "packet (a_st s) (Some q) (q # rest)" "\<forall>b \<in> set rest. region (a_st s) q \<inter> region (a_st s) b = {}" by auto
  from send_ip_frame_bytes [OF this l len, of lo] obtain r s1 where s1: "etharp_send_ip lo q (nif_hwaddr n) h s = Some (r, s1)"
    "a_sent s1 = a_sent s @ waiting_frames n h qs s" "arp_table s1 = arp_table s"
    unfolding waiting_frames_def qs by (auto simp del: contents_simps)
  from sep have "region (a_st s) q \<inter> region (a_st s) p = {}" by simp
  note e = send_ip_elsewhere [OF s1(1) l len this]
  have "held (a_st s1) (p # qs) fl" using h e by (simp add: held_def no_custom_def)
  moreover have "chain (links (a_st s1)) (Some q) qs" using packetD(1) [OF pk] e by simp
  ultimately obtain s2 fl' where s2: "free_pbuf c env q s1 = Some s2" "held (a_st s2) [p] fl'" "same_message p s1 s2"
    using free_other [OF _ _ p] by blast
  with s1 e same_message_trans [of p s s1 s2] free_pbuf_frame [OF s2(1)] show ?thesis by auto
qed

lemma update_resolves:
  assumes ok: "arp_ok s" and l: "can_learn a s" and w: "waiting a p qs s fl" and u: "unicast a n"
    and len: "length h = 6" "length (nif_hwaddr n) = 6"
  shows "\<exists>s1 fl'. etharp_update_arp_entry c env lo n a h ETHARP_FLAG_TRY_HARD s = Some (ERR_OK, s1) \<and>
    a_sent s1 = a_sent s @ waiting_frames n h qs s \<and> arp_ok s1 \<and> resolves s1 a h \<and>
    held (a_st s1) [p] fl' \<and> same_message p s s1"
proof -
  from find_entry_learns [OF ok l, of c env] obtain i s1
    where f: "etharp_find_entry c env (Some a) ETHARP_FLAG_TRY_HARD s = Some (Some i, s1)" "a_st s1 = a_st s"
      "e_q (entry s1 i) = queued_on a s" by blast
  from find_entry_spec [OF ok f(1)] have s1: "arp_ok s1" "i < ARP_TABLE_SIZE" "e_ipaddr (entry s1 i) = a" "a_sent s1 = a_sent s"
    by auto
  then have l: "i < length (arp_table s1)" using arp_okD(1) by simp
  define s2 where "s2 = upd_entry i (\<lambda>e. e\<lparr>e_state := ETHARP_STATE_STABLE, e_netif := nif_id n, e_ethaddr := h, e_ctime := 0\<rparr>) s1"
  define s3 where "s3 = upd_entry i (\<lambda>e. e\<lparr>e_q := None\<rparr>) s2"
  have st: "a_st s2 = a_st s" "a_st s3 = a_st s" "a_sent s2 = a_sent s" "a_sent s3 = a_sent s" "e_q (entry s2 i) = queued_on a s"
    using f l s1(4) by (simp_all add: s2_def s3_def)
  have fin: "arp_ok t \<and> resolves t a h"
    if r: "etharp_update_arp_entry c env lo n a h ETHARP_FLAG_TRY_HARD s = Some (ERR_OK, t)" and tb: "arp_table t \<in> {arp_table s2, arp_table s3}" for t
  proof -
    have "arp_ok t" by (rule update_ok [OF ok r])
    moreover have "resolves t a h"
      by (rule resolvesI [OF \<open>arp_ok t\<close> s1(2)]) (use tb l s1 in \<open>auto simp: s2_def s3_def stable_def\<close>)
    ultimately show ?thesis by simp
  qed
  show ?thesis
  proof (cases "queued_on a s")
    case None
    then have r: "etharp_update_arp_entry c env lo n a h ETHARP_FLAG_TRY_HARD s = Some (ERR_OK, s2)"
      using u f(1,3) l by (simp add: etharp_update_arp_entry_def Let_def s2_def)
    have "same_message p s s2" "held (a_st s2) [p] fl" "qs = []"
      using w None by (auto simp: waiting_def same_message_def st held_def no_custom_def)
    with r fin [OF r] st(3) show ?thesis by (intro exI [of _ s2] exI [of _ fl]) (simp add: waiting_frames_def)
  next
    case (Some q)
    with w obtain rest where W: "held (a_st s) (p # qs) fl" "qs = q # rest" "packet (a_st s) (Some q) qs" "14 \<le> len_of (a_st s) q"
      "p \<notin> set qs" "\<forall>b \<in> set (p # rest). region (a_st s) q \<inter> region (a_st s) b = {}" by (auto simp: waiting_def)
    from send_waiting [of s3 p qs fl q rest h n lo c env, unfolded st(2), OF W len] obtain r s4 s5 fl' where s5:
      "etharp_send_ip lo q (nif_hwaddr n) h s3 = Some (r, s4)" "free_pbuf c env q s4 = Some s5"
      "a_sent s5 = a_sent s3 @ waiting_frames n h qs s3" "arp_table s5 = arp_table s3" "held (a_st s5) [p] fl'" "same_message p s3 s5"
      by blast
    have r: "etharp_update_arp_entry c env lo n a h ETHARP_FLAG_TRY_HARD s = Some (ERR_OK, s5)"
      using u f(1,3) l Some s5(1,2) by (simp add: etharp_update_arp_entry_def Let_def s2_def s3_def)
    from s5 fin [OF r] r show ?thesis
      by (intro exI [of _ s5] exI [of _ fl']) (simp add: st waiting_frames_def same_message_def)
  qed
qed

lemma get_at_put_other: "k + n \<le> j \<or> j + length bs \<le> k \<Longrightarrow> get_at p k n (put_at p j bs s) = get_at p k n s"
  by (auto simp: get_at_bytes byte_at_put)

text \<open>The answer to a request.\<close>

lemma reply_bytes:
  fixes n :: arp_netif
  assumes f: "get_at p 0 42 s = arp_frame d e op hws sip hwt tip" "length d = 6" "length e = 6" "length hws = 6" "length hwt = 6"
    and h: "length h = 6" and pk: "chain (links (a_st s)) (Some p) [p]" "p_tot_len (pbufs (a_st s) p) = p_len (pbufs (a_st s) p)"
      "42 \<le> p_len (pbufs (a_st s) p)"
  defines "len \<equiv> p_len (pbufs (a_st s) p)"
  defines "reply \<equiv> arp_frame hws h 2 h (nif_ip_addr n) hws sip @ drop 42 (get_at p 0 len s)"
  shows "\<exists>s'. arp_reply lo n h p s = Some s' \<and> a_sent s' = a_sent s @ [reply] \<and> pbufs (a_st s') = pbufs (a_st s) \<and>
    pbuf_pools (a_st s') = pbuf_pools (a_st s)"
proof -
  define s1 where "s1 = put_at p 6 h (put_at p 22 h (put_at p 0 hws (put_at p 32 hws (put_at p 28 (addr_bytes (nif_ip_addr n))
    (put_at p 38 (addr_bytes sip) (put_at p 20 [0, 2] s))))))"
  note F = frame_parts [OF f]
  have "get_at p 12 8 s = take 8 (drop 12 (get_at p 0 42 s))" by (rule get_at_part) simp
  then have g: "get_at p 12 8 s = [8, 6, 0, 1, 8, 0, 6, 4]"
    using f(2-5) unfolding f(1) by (auto simp: list6 arp_frame_def)
  have u8: "[0..<8] = [0, 1, 2, 3, 4, 5, 6, 7 :: nat]" by (simp add: upt_rec)
  from g have b: "byte_at p 12 s = 8" "byte_at p 13 s = 6" "byte_at p 14 s = 0" "byte_at p 15 s = 1" "byte_at p 16 s = 8"
    "byte_at p 17 s = 0" "byte_at p 18 s = 6" "byte_at p 19 s = 4" by (simp_all add: get_at_bytes u8)
  from h obtain h0 h1 h2 h3 h4 h5 where h': "h = [h0, h1, h2, h3, h4, h5]" unfolding list6 by blast
  from f(4) obtain a0 a1 a2 a3 a4 a5 where a: "hws = [a0, a1, a2, a3, a4, a5]" unfolding list6 by blast
  have low: "get_at p 0 42 s1 = arp_frame hws h 2 h (nif_ip_addr n) hws sip"
    by (simp add: get_at_bytes upto42 s1_def byte_at_put h' a b arp_frame_def addr_bytes_def)
  have high: "drop 42 (get_at p 0 len s1) = drop 42 (get_at p 0 len s)"
    by (auto simp: s1_def get_at_bytes byte_at_put h' a drop_map)
  have "get_at p 0 len s1 = get_at p 0 42 s1 @ drop 42 (get_at p 0 len s1)"
    using pk(3) get_at_part [of 0 42 len p s1] by (simp add: len_def)
  then have r: "get_at p 0 len s1 = reply" by (simp add: low high reply_def)
  have "arp_reply lo n h p s = map_option snd (linkoutput lo p s1)"
    using F by (simp add: arp_reply_def Let_def get_at_put_other s1_def) (cases "linkoutput lo p s1"; auto simp: s1_def)
  moreover have "linkoutput lo p s1 = Some (lo reply, s1\<lparr>a_sent := a_sent s @ [reply]\<rparr>)"
    using linkoutput_single [of s1 p lo] pk r by (simp add: s1_def len_def)
  ultimately show ?thesis by (simp add: s1_def)
qed

text \<open>A packet in one pbuf whose first 42 bytes are \<open>f\<close>.\<close>

definition carries :: "nat \<Rightarrow> u8 list \<Rightarrow> arp \<Rightarrow> bool" where
  "carries p f s \<longleftrightarrow> chain (links (a_st s)) (Some p) [p] \<and> p_tot_len (pbufs (a_st s) p) = p_len (pbufs (a_st s) p) \<and>
     42 \<le> p_len (pbufs (a_st s) p) \<and> get_at p 0 42 s = f"

definition ready :: "arp_netif \<Rightarrow> u32 \<Rightarrow> bool" where
  "ready n peer \<longleftrightarrow> length (nif_hwaddr n) = 6 \<and> \<not> ip_addr_isany (nif_ip_addr n) \<and> unicast peer n"

lemma arp_input_resolves:
  assumes ok: "arp_ok s" and l: "can_learn sip s" and w: "waiting sip p qs s fl" and r: "ready n sip"
    and c: "carries p (arp_frame d e op hws sip hwt (nif_ip_addr n)) s"
    and len: "length d = 6" "length e = 6" "length hws = 6" "length hwt = 6"
  shows "\<exists>s'. etharp_arp_input c env lo n (nif_hwaddr n) p s = Some s' \<and> arp_ok s' \<and> resolves s' sip hws \<and>
    (if op = 1 then \<exists>rest. a_sent s' = a_sent s @ waiting_frames n hws qs s @
        [arp_frame hws (nif_hwaddr n) 2 (nif_hwaddr n) (nif_ip_addr n) hws sip @ rest]
     else a_sent s' = a_sent s @ waiting_frames n hws qs s)"
proof -
  from c have f: "get_at p 0 42 s = arp_frame d e op hws sip hwt (nif_ip_addr n)" and "42 \<le> p_len (pbufs (a_st s) p)"
    by (simp_all add: carries_def)
  note F = frame_parts [OF f len]
  from r have u: "unicast sip n" and h: "length (nif_hwaddr n) = 6" and any: "\<not> ip_addr_isany (nif_ip_addr n)" by (auto simp: ready_def)
  from update_resolves [OF ok l w u len(3) h, of c env lo] obtain s1 fl1 where
    s1: "etharp_update_arp_entry c env lo n sip hws ETHARP_FLAG_TRY_HARD s = Some (ERR_OK, s1)"
      "a_sent s1 = a_sent s @ waiting_frames n hws qs s" "arp_ok s1" "resolves s1 sip hws" "held (a_st s1) [p] fl1"
      "same_message p s s1" by blast
  have g: "get_at p k m s1 = get_at p k m s" if "k + m \<le> 42" for k m
    using same_message_get [OF s1(6), of k m] that \<open>42 \<le> p_len (pbufs (a_st s) p)\<close> by simp
  have c1: "carries p (arp_frame d e op hws sip hwt (nif_ip_addr n)) s1"
    using c g [of 0 42] s1(6) by (simp add: carries_def same_message_def)
  have st: "arp_ok s' \<and> resolves s' sip hws" if "arp_table s' = arp_table s1" "etharp_cached_entry s' = etharp_cached_entry s1" for s'
    using that s1(3,4) arp_ok_cong [of s' s1] by (simp add: resolves_def)
  have eq: "etharp_arp_input c env lo n (nif_hwaddr n) p s =
      do { s \<leftarrow> (if op = 1 then arp_reply lo n (nif_hwaddr n) p s1 else Some s1); free_pbuf c env p s }"
    using c F any s1(1) by (simp add: etharp_arp_input_def Let_def carries_def SIZEOF_ETHARP_PACKET_def ip_of_addr g)
  show ?thesis
  proof (cases "op = 1")
    case True
    from c1 have f1: "get_at p 0 42 s1 = arp_frame d e op hws sip hwt (nif_ip_addr n)" by (simp add: carries_def)
    from reply_bytes [OF f1 len h, of lo n] c1 obtain s2 where s2: "arp_reply lo n (nif_hwaddr n) p s1 = Some s2"
      "\<exists>rest. a_sent s2 = a_sent s1 @ [arp_frame hws (nif_hwaddr n) 2 (nif_hwaddr n) (nif_ip_addr n) hws sip @ rest]"
      "pbufs (a_st s2) = pbufs (a_st s1)" "pbuf_pools (a_st s2) = pbuf_pools (a_st s1)" by (auto simp: carries_def)
    have "held (a_st s2) [p] fl1" using s1(5) s2(3,4) by (simp add: held_def no_custom_def)
    moreover have "chain (links (a_st s2)) (Some p) [p]" using c1 s2(3) by (simp add: carries_def)
    ultimately obtain s3 where s3: "free_pbuf c env p s2 = Some s3" using free_pbuf_returns by blast
    from arp_reply_frame [OF s2(1)] free_pbuf_frame [OF s3] st [of s3] eq True s2(1,2) s3 s1(2) show ?thesis by auto
  next
    case False
    have "chain (links (a_st s1)) (Some p) [p]" using c1 by (simp add: carries_def)
    then obtain s3 where s3: "free_pbuf c env p s1 = Some s3" using free_pbuf_returns s1(5) by blast
    from free_pbuf_frame [OF s3] st [of s3] eq False s1(2) s3 show ?thesis by auto
  qed
qed

section \<open>Properties\<close>

text \<open>Property C27: resolution over the wire.  \<^verbatim>\<open>etharp_request\<close>, given a buffer, sends exactly the 42
  bytes of an ARP request.  A host with the requested address that receives them learns the sender's Ethernet
  address, sends the packet that waited for the sender, if there is one, to that address, and then sends the ARP
  reply.  The requesting host that receives the first 42 bytes of this reply learns the other's address, sends the
  packet that waited for it, if there is one, to that address, and nothing else.  Each message is in one
  pbuf of its own, and each table has an entry for the address or one on which no packet waits.\<close>

theorem arp_handshake:
  assumes A: "ready nA (nif_ip_addr nB)" and B: "ready nB (nif_ip_addr nA)"
    and sA: "pbuf_alloc c env PBUF_RAW 42 PBUF_RAM (a_st sA) = Some (Some q, st)"
    and req: "req = arp_frame ethbroadcast (nif_hwaddr nA) 1 (nif_hwaddr nA) (nif_ip_addr nA) ethzero (nif_ip_addr nB)"
    and ans: "ans = arp_frame (nif_hwaddr nA) (nif_hwaddr nB) 2 (nif_hwaddr nB) (nif_ip_addr nB) (nif_hwaddr nA) (nif_ip_addr nA)"
    and sB: "arp_ok sB" "can_learn (nif_ip_addr nA) sB" "waiting (nif_ip_addr nA) pB qsB sB flB" "carries pB req sB"
    and sA': "arp_ok sA'" "can_learn (nif_ip_addr nB) sA'" "waiting (nif_ip_addr nB) pA qsA sA' flA" "carries pA ans sA'"
  shows "\<exists>s1 s2 s3 rest.
    etharp_request c env lo nA (nif_ip_addr nB) sA = Some (lo req, s1) \<and> a_sent s1 = a_sent sA @ [req] \<and>
    etharp_arp_input c env lo nB (nif_hwaddr nB) pB sB = Some s2 \<and>
    a_sent s2 = a_sent sB @ waiting_frames nB (nif_hwaddr nA) qsB sB @ [ans @ rest] \<and>
    resolves s2 (nif_ip_addr nA) (nif_hwaddr nA) \<and>
    etharp_arp_input c env lo nA (nif_hwaddr nA) pA sA' = Some s3 \<and>
    a_sent s3 = a_sent sA' @ waiting_frames nA (nif_hwaddr nB) qsA sA' \<and>
    resolves s3 (nif_ip_addr nB) (nif_hwaddr nB)"
proof -
  have l: "length ethbroadcast = 6" "length ethzero = 6" "length (nif_hwaddr nA) = 6" "length (nif_hwaddr nB) = 6"
    using A B by (simp_all add: ethbroadcast_def ethzero_def ready_def)
  obtain s1 where s1: "etharp_request c env lo nA (nif_ip_addr nB) sA = Some (lo req, s1)" "a_sent s1 = a_sent sA @ [req]"
    using raw_sends [OF l(3,1,3,2) _ sA, of 1 lo "nif_ip_addr nA" "nif_ip_addr nB"]
    by (auto simp: etharp_request_def req)
  obtain s2 rest where s2: "etharp_arp_input c env lo nB (nif_hwaddr nB) pB sB = Some s2"
    "a_sent s2 = a_sent sB @ waiting_frames nB (nif_hwaddr nA) qsB sB @ [ans @ rest]" "resolves s2 (nif_ip_addr nA) (nif_hwaddr nA)"
    using arp_input_resolves [OF sB(1-3) B sB(4) [unfolded req] l(1,3,3,2), of c env lo] by (auto simp: ans)
  obtain s3 where s3: "etharp_arp_input c env lo nA (nif_hwaddr nA) pA sA' = Some s3"
    "a_sent s3 = a_sent sA' @ waiting_frames nA (nif_hwaddr nB) qsA sA'" "resolves s3 (nif_ip_addr nB) (nif_hwaddr nB)"
    using arp_input_resolves [OF sA'(1-3) A sA'(4) [unfolded ans] l(3,4,4,3), of c env lo] by auto
  from s1 s2 s3 show ?thesis by blast
qed

text \<open>A state with the message \<open>f\<close> in the pbuf at 600.\<close>

definition ex_arp :: "u8 list \<Rightarrow> arp" where
  "ex_arp f = arp_init (ex_st\<lparr>pbufs := (pbufs ex_st)(600 := ex_pbuf None 616 42 42),
     payload_bytes := store_bytes 616 f (payload_bytes ex_st), pbuf_heap := mem_init (mcfg ex_cfg) (pbuf_heap ex_st)\<rparr>)"

lemma ex_arp_ok: "arp_ok (ex_arp f)" "can_learn a (ex_arp f)"
  unfolding ex_arp_def by (rule arp_init_ok) (simp add: can_learn_def arp_init_def ARP_TABLE_SIZE_def exI [of _ 0])

lemma ex_table: "arp_table (ex_arp f) = \<lparr>e_q = None, e_ipaddr = 0, e_netif = 0, e_ethaddr = ethzero,
     e_state = ETHARP_STATE_EMPTY, e_ctime = 0\<rparr> # tl (arp_table (ex_arp f))" "length (arp_table (ex_arp f)) = 10"
    "e \<in> set (arp_table (ex_arp f)) \<Longrightarrow> e_state e = ETHARP_STATE_EMPTY"
  by (auto simp: ex_arp_def arp_init_def ARP_TABLE_SIZE_def numeral_eq_Suc)

lemma find_scan_unused:
  "\<forall>e \<in> set es. e_state e = ETHARP_STATE_EMPTY \<Longrightarrow> \<exists>cd. find_scan a es i c = Inr cd"
  by (induction es arbitrary: i c) auto

lemma ex_queued: "queued_on a (ex_arp f) = None"
  using find_scan_unused [of "arp_table (ex_arp f)" "Some a" 0 no_cand] ex_table(3) by (auto simp: queued_on_def)

text \<open>The same with a packet of 20 bytes, in the pbuf at 700, that waits for \<open>a\<close>.\<close>

definition ex_pending :: "u32 \<Rightarrow> etharp_entry" where
  "ex_pending a = \<lparr>e_q = Some 700, e_ipaddr = a, e_netif = 1, e_ethaddr = ethzero, e_state = ETHARP_STATE_PENDING, e_ctime = 0\<rparr>"

definition ex_wait :: "u32 \<Rightarrow> u8 list \<Rightarrow> arp" where
  "ex_wait a f = (ex_arp f)\<lparr>arp_table := ex_pending a # tl (arp_table (ex_arp f)),
     a_st := (a_st (ex_arp f))\<lparr>pbufs := (pbufs (a_st (ex_arp f)))(700 := ex_pbuf None 716 20 20)\<rparr>\<rparr>"

lemma ex_wait_entry:
  "entry (ex_wait a f) 0 = ex_pending a"
  "0 < i \<Longrightarrow> i < ARP_TABLE_SIZE \<Longrightarrow> e_state (entry (ex_wait a f) i) = ETHARP_STATE_EMPTY \<and> e_q (entry (ex_wait a f) i) = None"
  by (cases i; simp add: ex_wait_def ex_arp_def arp_init_def ARP_TABLE_SIZE_def nth_tl)+

lemma ex_wait_ok: "arp_ok (ex_wait a f)" "can_learn a (ex_wait a f)" "queued_on a (ex_wait a f) = Some 700"
proof -
  have tb: "length (arp_table (ex_wait a f)) = ARP_TABLE_SIZE" "etharp_cached_entry (ex_wait a f) < ARP_TABLE_SIZE"
    by (simp_all add: ex_wait_def ex_arp_def arp_init_def ARP_TABLE_SIZE_def)
  have e: "entry_ok e" if "e \<in> set (arp_table (ex_wait a f))" for e
    using that by (auto simp: ex_wait_def ex_arp_def arp_init_def ARP_TABLE_SIZE_def ex_pending_def entry_ok_def stable_def
        ARP_MAXPENDING_def dest: list.set_sel(2) [rotated])
  have u: "used (entry (ex_wait a f) i) \<longleftrightarrow> i = 0" if "i < ARP_TABLE_SIZE" for i
    using that ex_wait_entry(1) [of a f] ex_wait_entry(2) [of i a f] by (cases "i = 0") (auto simp: used_def ex_pending_def)
  then show "arp_ok (ex_wait a f)" using tb e by (auto simp: arp_ok_def)
  show "can_learn a (ex_wait a f)"
    unfolding can_learn_def
    by (rule exI [of _ 0]) (simp add: ex_wait_entry(1), simp add: ex_pending_def used_def ARP_TABLE_SIZE_def)
  show "queued_on a (ex_wait a f) = Some 700"
    by (simp add: queued_on_def ex_wait_def ex_pending_def no_cand_def)
qed

lemma ex_carries:
  assumes "length f = 42"
  shows "carries 600 f (ex_arp f)" "carries 600 f (ex_wait a f)"
proof -
  have "get_at 600 0 (length f) (ex_arp f) = f"
    by (rule nth_equalityI) (simp_all add: ex_arp_def arp_init_def ex_pbuf_def get_at_def load_bytes_def store_bytes_nth)
  then show c: "carries 600 f (ex_arp f)"
    using assms by (simp add: carries_def) (simp add: ex_arp_def arp_init_def ex_pbuf_def)
  then show "carries 600 f (ex_wait a f)"
    by (simp add: carries_def ex_wait_def get_at_def)
qed

lemma ex_waiting: "waiting a 600 [] (ex_arp f) ex_lists" "waiting a 600 [700] (ex_wait a f) ex_lists"
proof -
  have h: "held (a_st (ex_arp f)) [600] ex_lists"
    using ex_facts(5) by (simp add: held_def ex_arp_def arp_init_def no_custom_def ex_pbuf_def ex_st_def)
  then show "waiting a 600 [] (ex_arp f) ex_lists" by (simp add: waiting_def ex_queued)
  have p: "pbufs (a_st (ex_wait a f)) 700 = ex_pbuf None 716 20 20" "pbufs (a_st (ex_wait a f)) 600 = ex_pbuf None 616 42 42"
    "pbuf_pools (a_st (ex_wait a f)) = pbuf_pools (a_st (ex_arp f))" "pbufs (a_st (ex_arp f)) 600 = ex_pbuf None 616 42 42"
    by (simp_all add: ex_wait_def ex_arp_def arp_init_def)
  have "700 \<notin> set (ex_lists i)" for i by (simp add: ex_lists_def)
  with h have "held (a_st (ex_wait a f)) [600, 700] ex_lists"
    by (simp add: held_def no_custom_def p) (simp add: ex_pbuf_def)
  moreover have "packet (a_st (ex_wait a f)) (Some 700) [700]" by (simp add: packet_def p) (simp add: ex_pbuf_def)
  ultimately show "waiting a 600 [700] (ex_wait a f) ex_lists"
    by (simp add: waiting_def ex_wait_ok(3) region_def p) (simp add: ex_pbuf_def)
qed

lemma ex_heap: "cfg_ok (mcfg ex_cfg)" "heap_ok (mcfg ex_cfg) (mem_init (mcfg ex_cfg) h) [(1592, False)]"
  "request (mcfg ex_cfg) 60 = 60"
proof -
  let ?c = "mcfg ex_cfg"
  have v: "MEM_SIZE_ALIGNED ?c = 1600" "SIZEOF_STRUCT_MEM ?c = 8" "MIN_SIZE_ALIGNED ?c = 12"
    by (simp_all add: MEM_SIZE_ALIGNED_def SIZEOF_STRUCT_MEM_def MIN_SIZE_ALIGNED_def LWIP_MEM_ALIGN_SIZE_def ex_cfg_def)
  show ok: "cfg_ok ?c" by (simp add: cfg_ok_def v) (simp add: ex_cfg_def)
  show "heap_ok ?c (mem_init ?c h) [(1592, False)]" using mem_init_ok [OF ok, of h] by (simp add: v)
  show "request ?c 60 = 60" by (simp add: request_def v) (simp add: mem_size_t_def LWIP_MEM_ALIGN_SIZE_def ex_cfg_def)
qed

lemma ex_alloc: "\<exists>q st. pbuf_alloc ex_cfg ex_env PBUF_RAW 42 PBUF_RAM (a_st (ex_arp f)) = Some (Some q, st)"
proof -
  have "mem_size_t (align ex_cfg (SIZEOF_STRUCT_PBUF ex_cfg + header_offset ex_cfg PBUF_RAW) + align ex_cfg 42) = 60"
    by (simp add: mem_size_t_def align_def header_offset_def SIZEOF_STRUCT_PBUF_def LWIP_MEM_ALIGN_SIZE_def ex_cfg_def)
  moreover obtain o' h where "mem_malloc (mcfg ex_cfg) 60 (mem_init (mcfg ex_cfg) (pbuf_heap ex_st)) = Some (Some o', h)"
    using mem_malloc_fit [OF ex_heap(1), of "mem_init (mcfg ex_cfg) (pbuf_heap ex_st)" "[]" 1592 "[]" 60] ex_heap(2,3) by auto
  ultimately show ?thesis by (simp add: pbuf_alloc_def alloc_ram_def ex_arp_def arp_init_def Let_def)
qed

lemma arp_handshake_witness:
  "\<exists>s1 req ans. etharp_request ex_cfg ex_env (\<lambda>_. ERR_OK) (ex_netif 0x0102A8C0 1) 0x0202A8C0 (ex_arp ans) = Some (ERR_OK, s1) \<and>
     length req = 42 \<and> a_sent s1 = [req] \<and>
     (\<exists>s2. etharp_arp_input ex_cfg ex_env (\<lambda>_. ERR_OK) (ex_netif 0x0202A8C0 2) [2, 0, 0, 0, 0, 2] 600 (ex_arp req) = Some s2 \<and>
       resolves s2 0x0102A8C0 [2, 0, 0, 0, 0, 1]) \<and>
     (\<exists>s3 ip. etharp_arp_input ex_cfg ex_env (\<lambda>_. ERR_OK) (ex_netif 0x0102A8C0 1) [2, 0, 0, 0, 0, 1] 600 (ex_wait 0x0202A8C0 ans) = Some s3 \<and>
       a_sent s3 = [[2, 0, 0, 0, 0, 2, 2, 0, 0, 0, 0, 1, 8, 0] @ ip])"
proof -
  let ?A = "ex_netif 0x0102A8C0 1" and ?B = "ex_netif 0x0202A8C0 2"
  have r: "ready ?A (nif_ip_addr ?B)" "ready ?B (nif_ip_addr ?A)"
    by (simp_all add: ready_def ex_netif_def unicast_def ip_addr_isany_def ip_addr_ismulticast_def ip4_addr_isbroadcast_def
        netif.defs ip_addr_netcmp_def Let_def)
  define req where "req = arp_frame ethbroadcast (nif_hwaddr ?A) 1 (nif_hwaddr ?A) (nif_ip_addr ?A) ethzero (nif_ip_addr ?B)"
  define ans where "ans = arp_frame (nif_hwaddr ?A) (nif_hwaddr ?B) 2 (nif_hwaddr ?B) (nif_ip_addr ?B) (nif_hwaddr ?A) (nif_ip_addr ?A)"
  have l: "length req = 42" "length ans = 42"
    by (simp_all add: req_def ans_def arp_frame_def ethbroadcast_def ethzero_def ex_netif_def)
  obtain q st where al: "pbuf_alloc ex_cfg ex_env PBUF_RAW 42 PBUF_RAM (a_st (ex_arp ans)) = Some (Some q, st)"
    using ex_alloc by blast
  have s: "a_sent (ex_arp f) = []" "a_sent (ex_wait a f) = []" for a f by (simp_all add: ex_wait_def ex_arp_def arp_init_def)
  have n: "nif_ip_addr ?A = 0x0102A8C0" "nif_ip_addr ?B = 0x0202A8C0" "nif_hwaddr ?A = [2, 0, 0, 0, 0, 1]" "nif_hwaddr ?B = [2, 0, 0, 0, 0, 2]"
    by (simp_all add: ex_netif_def)
  have w: "waiting_frames ?A [2, 0, 0, 0, 0, 2] [700] t = [[2, 0, 0, 0, 0, 2, 2, 0, 0, 0, 0, 1, 8, 0] @ drop 14 (contents (a_st t) [700])]" for t
    by (simp add: waiting_frames_def n)
  from arp_handshake [OF r al req_def ans_def ex_arp_ok ex_waiting(1) ex_carries(1) [OF l(1)]
      ex_wait_ok(1,2) ex_waiting(2) ex_carries(2) [OF l(2)], of "\<lambda>_. ERR_OK"]
  show ?thesis unfolding n s w using l(1) by (fastforce simp del: contents_simps)
qed

end
