(* ===== verification/Netif.thy ===== *)
theory Netif
  imports Etharp_Msg
begin

text \<open>
  \<^verbatim>\<open>lwip/src/core/netif.c\<close>: the list of network interfaces, their addresses and flags, in the default
  configuration (no status, link and remove callbacks, no loopback, no SNMP).

  A \<^verbatim>\<open>struct netif\<close> is a record at its address, the list runs through the field \<^verbatim>\<open>next\<close>, and the state
  carries the ARP module's state, which an interface that goes up or down uses.  Arguments are \<open>lo\<close>,
  \<^verbatim>\<open>netif->linkoutput\<close> of each interface, \<open>init\<close>, the driver's function given to \<^verbatim>\<open>netif_add\<close>, and
  \<open>tcp_moved old new\<close>, the loops of \<^verbatim>\<open>netif_set_ipaddr\<close> over the TCP connections.
\<close>

section \<open>State\<close>

record nif = arp_netif +
  nif_mtu :: nat
  nif_name :: "u8 \<times> u8"
  nif_num :: u8
  nif_next :: "nat option"

record net =
  net_arp :: arp
  nifs :: "nat \<Rightarrow> nif"
  netif_list :: "nat option"
  netif_default :: "nat option"
  netif_num :: u8

definition NETIF_FLAG_UP :: u8 where "NETIF_FLAG_UP = 1"

definition NETIF_FLAG_LINK_UP :: u8 where "NETIF_FLAG_LINK_UP = 0x10"

definition netif_is_up :: "'a netif_scheme \<Rightarrow> bool" where
  "netif_is_up n \<longleftrightarrow> nif_flags n AND NETIF_FLAG_UP \<noteq> 0"

definition upd_nif :: "nat \<Rightarrow> (nif \<Rightarrow> nif) \<Rightarrow> 'a net_scheme \<Rightarrow> 'a net_scheme" where
  "upd_nif n f s = s\<lparr>nifs := (nifs s)(n := f (nifs s n))\<rparr>"

text \<open>What \<^verbatim>\<open>etharp.c\<close> sees of an interface, and a call into it.\<close>

definition arp_nif :: "'a net_scheme \<Rightarrow> nat \<Rightarrow> arp_netif" where
  "arp_nif s n = (arp_netif.truncate (nifs s n))\<lparr>nif_id := n\<rparr>"

definition on_arp :: "(arp \<Rightarrow> ('r \<times> arp) option) \<Rightarrow> 'a net_scheme \<Rightarrow> ('r \<times> 'a net_scheme) option" where
  "on_arp f s = do { (r, a) \<leftarrow> f (net_arp s); Some (r, s\<lparr>net_arp := a\<rparr>) }"

section \<open>Operations\<close>

text \<open>\<^verbatim>\<open>ip_addr_set\<close>: a null pointer stands for the address 0.\<close>

definition ip_addr_set :: "u32 option \<Rightarrow> u32" where
  "ip_addr_set a = (case a of None \<Rightarrow> 0 | Some x \<Rightarrow> x)"

definition netif_set_ipaddr ::
    "(u32 \<Rightarrow> u32 \<Rightarrow> 'a net_scheme \<Rightarrow> 'a net_scheme option) \<Rightarrow> nat \<Rightarrow> u32 option \<Rightarrow> 'a net_scheme \<Rightarrow> 'a net_scheme option" where
  "netif_set_ipaddr tcp_moved n ipaddr s = do {
     s \<leftarrow> (case ipaddr of
            Some a \<Rightarrow> if a \<noteq> nif_ip_addr (nifs s n) then tcp_moved (nif_ip_addr (nifs s n)) a s else Some s
          | None \<Rightarrow> Some s);
     Some (upd_nif n (\<lambda>x. x\<lparr>nif_ip_addr := ip_addr_set ipaddr\<rparr>) s) }"

definition netif_set_netmask :: "nat \<Rightarrow> u32 option \<Rightarrow> 'a net_scheme \<Rightarrow> 'a net_scheme" where
  "netif_set_netmask n netmask s = upd_nif n (\<lambda>x. x\<lparr>nif_netmask := ip_addr_set netmask\<rparr>) s"

definition netif_set_gw :: "nat \<Rightarrow> u32 option \<Rightarrow> 'a net_scheme \<Rightarrow> 'a net_scheme" where
  "netif_set_gw n gw s = upd_nif n (\<lambda>x. x\<lparr>nif_gw := ip_addr_set gw\<rparr>) s"

definition netif_set_addr ::
    "(u32 \<Rightarrow> u32 \<Rightarrow> 'a net_scheme \<Rightarrow> 'a net_scheme option) \<Rightarrow> nat \<Rightarrow> u32 option \<Rightarrow> u32 option \<Rightarrow> u32 option \<Rightarrow>
      'a net_scheme \<Rightarrow> 'a net_scheme option" where
  "netif_set_addr tcp_moved n ipaddr netmask gw s = do {
     s \<leftarrow> netif_set_ipaddr tcp_moved n ipaddr s;
     Some (netif_set_gw n gw (netif_set_netmask n netmask s)) }"

definition netif_set_default :: "nat option \<Rightarrow> 'a net_scheme \<Rightarrow> 'a net_scheme" where
  "netif_set_default n s = s\<lparr>netif_default := n\<rparr>"

text \<open>The announcement of an interface that is up and has its link: \<^verbatim>\<open>etharp_gratuitous\<close>.\<close>

definition announce ::
    "pbuf_cfg \<Rightarrow> pbuf_env \<Rightarrow> (nat \<Rightarrow> u8 list \<Rightarrow> err_t) \<Rightarrow> nat \<Rightarrow> 'a net_scheme \<Rightarrow> 'a net_scheme option" where
  "announce c env lo n s =
     (if nif_flags (nifs s n) AND NETIF_FLAG_ETHARP \<noteq> 0
      then map_option snd (on_arp (etharp_request c env (lo n) (arp_nif s n) (nif_ip_addr (nifs s n))) s)
      else Some s)"

definition netif_set_up ::
    "pbuf_cfg \<Rightarrow> pbuf_env \<Rightarrow> (nat \<Rightarrow> u8 list \<Rightarrow> err_t) \<Rightarrow> nat \<Rightarrow> 'a net_scheme \<Rightarrow> 'a net_scheme option" where
  "netif_set_up c env lo n s =
     (if nif_flags (nifs s n) AND NETIF_FLAG_UP = 0 then
        let s = upd_nif n (\<lambda>x. x\<lparr>nif_flags := nif_flags x OR NETIF_FLAG_UP\<rparr>) s
        in if nif_flags (nifs s n) AND NETIF_FLAG_LINK_UP \<noteq> 0 then announce c env lo n s else Some s
      else Some s)"

definition netif_set_down :: "pbuf_cfg \<Rightarrow> pbuf_env \<Rightarrow> nat \<Rightarrow> 'a net_scheme \<Rightarrow> 'a net_scheme option" where
  "netif_set_down c env n s =
     (if nif_flags (nifs s n) AND NETIF_FLAG_UP \<noteq> 0 then
        let s = upd_nif n (\<lambda>x. x\<lparr>nif_flags := nif_flags x AND NOT NETIF_FLAG_UP\<rparr>) s
        in if nif_flags (nifs s n) AND NETIF_FLAG_ETHARP \<noteq> 0
           then map_option (\<lambda>a. s\<lparr>net_arp := a\<rparr>) (etharp_cleanup_netif c env n (net_arp s)) else Some s
      else Some s)"

definition netif_set_link_up ::
    "pbuf_cfg \<Rightarrow> pbuf_env \<Rightarrow> (nat \<Rightarrow> u8 list \<Rightarrow> err_t) \<Rightarrow> nat \<Rightarrow> 'a net_scheme \<Rightarrow> 'a net_scheme option" where
  "netif_set_link_up c env lo n s =
     (if nif_flags (nifs s n) AND NETIF_FLAG_LINK_UP = 0 then
        let s = upd_nif n (\<lambda>x. x\<lparr>nif_flags := nif_flags x OR NETIF_FLAG_LINK_UP\<rparr>) s
        in if nif_flags (nifs s n) AND NETIF_FLAG_UP \<noteq> 0 then announce c env lo n s else Some s
      else Some s)"

definition netif_set_link_down :: "nat \<Rightarrow> 'a net_scheme \<Rightarrow> 'a net_scheme" where
  "netif_set_link_down n s =
     (if nif_flags (nifs s n) AND NETIF_FLAG_LINK_UP \<noteq> 0
      then upd_nif n (\<lambda>x. x\<lparr>nif_flags := nif_flags x AND NOT NETIF_FLAG_LINK_UP\<rparr>) s else s)"

text \<open>The result is false when the driver's function fails (\<^verbatim>\<open>NULL\<close>).\<close>

definition netif_add ::
    "(u32 \<Rightarrow> u32 \<Rightarrow> 'a net_scheme \<Rightarrow> 'a net_scheme option) \<Rightarrow> (nat \<Rightarrow> 'a net_scheme \<Rightarrow> err_t \<times> 'a net_scheme) \<Rightarrow>
      nat \<Rightarrow> u32 option \<Rightarrow> u32 option \<Rightarrow> u32 option \<Rightarrow> 'a net_scheme \<Rightarrow> (bool \<times> 'a net_scheme) option" where
  "netif_add tcp_moved init n ipaddr netmask gw s = do {
     let s = upd_nif n (\<lambda>x. x\<lparr>nif_ip_addr := 0, nif_netmask := 0, nif_gw := 0, nif_flags := 0, nif_num := netif_num s\<rparr>) s;
     let s = s\<lparr>netif_num := netif_num s + 1\<rparr>;
     s \<leftarrow> netif_set_addr tcp_moved n ipaddr netmask gw s;
     let (r, s) = init n s;
     if r \<noteq> ERR_OK then Some (False, s)
     else let s = upd_nif n (\<lambda>x. x\<lparr>nif_next := netif_list s\<rparr>) s
          in Some (True, s\<lparr>netif_list := Some n\<rparr>) }"

text \<open>The loop of \<^verbatim>\<open>netif_remove\<close>: the interface whose \<^verbatim>\<open>next\<close> is \<open>n\<close>.\<close>

partial_function (option) find_prev :: "(nat \<Rightarrow> nif) \<Rightarrow> nat \<Rightarrow> nat option \<Rightarrow> nat option option" where
  "find_prev nf n t =
     (case t of
        None \<Rightarrow> Some None
      | Some a \<Rightarrow> if nif_next (nf a) = Some n then Some (Some a) else find_prev nf n (nif_next (nf a)))"

definition unlink_nif :: "nat \<Rightarrow> 'a net_scheme \<Rightarrow> (bool \<times> 'a net_scheme) option" where
  "unlink_nif n s =
     (if netif_list s = Some n then Some (True, s\<lparr>netif_list := nif_next (nifs s n)\<rparr>)
      else do {
        t \<leftarrow> find_prev (nifs s) n (netif_list s);
        case t of
          None \<Rightarrow> Some (False, s)
        | Some a \<Rightarrow> Some (True, upd_nif a (\<lambda>x. x\<lparr>nif_next := nif_next (nifs s n)\<rparr>) s) })"

definition netif_remove :: "pbuf_cfg \<Rightarrow> pbuf_env \<Rightarrow> nat option \<Rightarrow> 'a net_scheme \<Rightarrow> 'a net_scheme option" where
  "netif_remove c env netif s =
     (case netif of
        None \<Rightarrow> Some s
      | Some n \<Rightarrow> do {
          s \<leftarrow> (if netif_is_up (nifs s n) then netif_set_down c env n s else Some s);
          (found, s) \<leftarrow> unlink_nif n s;
          Some (if found \<and> netif_default s = Some n then netif_set_default None s else s) })"

text \<open>\<^verbatim>\<open>netif_find\<close>: a name of two letters and a digit.\<close>

partial_function (option) find_loop :: "(nat \<Rightarrow> nif) \<Rightarrow> u8 \<Rightarrow> u8 \<Rightarrow> u8 \<Rightarrow> nat option \<Rightarrow> nat option option" where
  "find_loop nf c0 c1 num t =
     (case t of
        None \<Rightarrow> Some None
      | Some a \<Rightarrow> if num = nif_num (nf a) \<and> c0 = fst (nif_name (nf a)) \<and> c1 = snd (nif_name (nf a)) then Some (Some a)
                else find_loop nf c0 c1 num (nif_next (nf a)))"

definition netif_find :: "(u8 \<times> u8 \<times> u8) option \<Rightarrow> 'a net_scheme \<Rightarrow> nat option option" where
  "netif_find name s =
     (case name of None \<Rightarrow> Some None | Some (a, b, d) \<Rightarrow> find_loop (nifs s) a b (d - 48) (netif_list s))"

end
