(* ===== verification/Ip.thy ===== *)
theory Ip
  imports Netif
begin

text \<open>
  \<^verbatim>\<open>lwip/src/core/ipv4/ip.c\<close>: routing, output and input of IPv4 packets in the default configuration
  (fragmentation and reassembly on, forwarding, options, multicast groups and DHCP off, checksums in
  software).

  The headers are the bytes at a packet's payload.  Arguments are \<open>out\<close>, the function \<^verbatim>\<open>netif->output\<close>,
  \<open>frag\<close>, the function \<^verbatim>\<open>ip_frag\<close>, and the record \<open>upper\<close> of the functions \<^verbatim>\<open>ip_input\<close> calls, which may
  change the whole state.
\<close>

section \<open>State\<close>

record ip = net +
  ip_id :: u16
  current_netif :: "nat option"
  current_header :: "nat option"
  current_iphdr_src :: u32
  current_iphdr_dest :: u32

type_synonym output_fn = "arp_netif \<Rightarrow> nat \<Rightarrow> u32 \<Rightarrow> arp \<Rightarrow> (err_t \<times> arp) option"

record 's upper =
  raw_input_fn :: "nat \<Rightarrow> nat \<Rightarrow> 's \<Rightarrow> (bool \<times> 's) option"
  udp_input_fn :: "nat \<Rightarrow> nat \<Rightarrow> 's \<Rightarrow> 's option"
  tcp_input_fn :: "nat \<Rightarrow> nat \<Rightarrow> 's \<Rightarrow> 's option"
  icmp_input_fn :: "nat \<Rightarrow> nat \<Rightarrow> 's \<Rightarrow> 's option"
  dest_unreach_fn :: "nat \<Rightarrow> 's \<Rightarrow> 's option"
  ip_reass_fn :: "nat \<Rightarrow> 's \<Rightarrow> (nat option \<times> 's) option"

definition IP_HLEN :: nat where "IP_HLEN = 20"

definition IP_PROTO_ICMP :: u8 where "IP_PROTO_ICMP = 1"

definition IP_PROTO_UDP :: u8 where "IP_PROTO_UDP = 17"

definition IP_PROTO_TCP :: u8 where "IP_PROTO_TCP = 6"

text \<open>A halfword as the processor stores it, and one read from a header field.\<close>

definition u16_bytes :: "u16 \<Rightarrow> u8 list" where
  "u16_bytes w = [ucast w, ucast (drop_bit 8 w)]"

definition u16_of :: "u8 list \<Rightarrow> u16" where
  "u16_of bs = le16 (bs ! 0) (bs ! 1)"

definition LWIP_MAKE_U16 :: "u8 \<Rightarrow> u8 \<Rightarrow> u16" where
  "LWIP_MAKE_U16 a b = push_bit 8 (ucast a) OR ucast b"

abbreviation pst_of :: "'a net_scheme \<Rightarrow> pst" where
  "pst_of s \<equiv> a_st (net_arp s)"

definition set_pst :: "pst \<Rightarrow> 'a net_scheme \<Rightarrow> 'a net_scheme" where
  "set_pst st s = s\<lparr>net_arp := (net_arp s)\<lparr>a_st := st\<rparr>\<rparr>"

definition ip_free :: "pbuf_cfg \<Rightarrow> pbuf_env \<Rightarrow> nat \<Rightarrow> 'a net_scheme \<Rightarrow> 'a net_scheme option" where
  "ip_free c env p s = map_option (\<lambda>a. s\<lparr>net_arp := a\<rparr>) (free_pbuf c env p (net_arp s))"

definition put_hdr :: "nat \<Rightarrow> nat \<Rightarrow> u8 list \<Rightarrow> 'a net_scheme \<Rightarrow> 'a net_scheme" where
  "put_hdr p k bs s = s\<lparr>net_arp := put_at p k bs (net_arp s)\<rparr>"

definition get_hdr :: "nat \<Rightarrow> nat \<Rightarrow> nat \<Rightarrow> 'a net_scheme \<Rightarrow> u8 list" where
  "get_hdr p k n s = get_at p k n (net_arp s)"

section \<open>Routing\<close>

partial_function (option) route_loop :: "(nat \<Rightarrow> nif) \<Rightarrow> u32 \<Rightarrow> nat option \<Rightarrow> nat option option" where
  "route_loop nf dest t =
     (case t of
        None \<Rightarrow> Some None
      | Some n \<Rightarrow>
          if netif_is_up (nf n) \<and> ip_addr_netcmp dest (nif_ip_addr (nf n)) (nif_netmask (nf n)) then Some (Some n)
          else route_loop nf dest (nif_next (nf n)))"

definition ip_route :: "u32 \<Rightarrow> 'a net_scheme \<Rightarrow> nat option option" where
  "ip_route dest s = do {
     t \<leftarrow> route_loop (nifs s) dest (netif_list s);
     case t of
       Some n \<Rightarrow> Some (Some n)
     | None \<Rightarrow> (case netif_default s of
                 None \<Rightarrow> Some None
               | Some n \<Rightarrow> if \<not> netif_is_up (nifs s n) then Some None else Some (Some n)) }"

section \<open>Output\<close>

text \<open>The header and its checksum, computed from the values written.\<close>

definition ip_hdr_chksum :: "u8 \<Rightarrow> u8 \<Rightarrow> u32 \<Rightarrow> u8 \<Rightarrow> u8 \<Rightarrow> u16 \<Rightarrow> u16 \<Rightarrow> u32 \<Rightarrow> u16" where
  "ip_hdr_chksum proto ttl dest tos vhl len id' src =
     (let chk_sum = 0 + ucast (LWIP_MAKE_U16 proto ttl) :: u32;
          chk_sum = chk_sum + (dest AND 0xFFFF);
          chk_sum = chk_sum + drop_bit 16 dest;
          chk_sum = chk_sum + ucast (LWIP_MAKE_U16 tos vhl);
          chk_sum = chk_sum + ucast len;
          chk_sum = chk_sum + ucast id';
          chk_sum = chk_sum + (src AND 0xFFFF);
          chk_sum = chk_sum + drop_bit 16 src;
          chk_sum = drop_bit 16 chk_sum + (chk_sum AND 0xFFFF);
          chk_sum = drop_bit 16 chk_sum + chk_sum;
          chk_sum = NOT chk_sum
      in ucast chk_sum)"

definition write_ip_hdr :: "nat \<Rightarrow> u32 \<Rightarrow> u32 \<Rightarrow> u8 \<Rightarrow> u8 \<Rightarrow> u8 \<Rightarrow> nif \<Rightarrow> 'a ip_scheme \<Rightarrow> 'a ip_scheme" where
  "write_ip_hdr p src dest ttl tos proto n s =
     (let s = put_hdr p 8 [ttl] s;
          s = put_hdr p 9 [proto] s;
          s = put_hdr p 16 (addr_bytes dest) s;
          s = put_hdr p 0 [0x45] s;
          s = put_hdr p 1 [tos] s;
          len = lwip_htons (of_nat (p_tot_len (pbufs (pst_of s) p)));
          s = put_hdr p 2 (u16_bytes len) s;
          s = put_hdr p 6 [0, 0] s;
          id' = lwip_htons (ip_id s);
          s = put_hdr p 4 (u16_bytes id') s;
          s = s\<lparr>ip_id := ip_id s + 1\<rparr>;
          src = (if ip_addr_isany src then nif_ip_addr n else src);
          s = put_hdr p 12 (addr_bytes src) s
      in put_hdr p 10 (u16_bytes (ip_hdr_chksum proto ttl dest tos 0x45 len id' src)) s)"

text \<open>The end of \<^verbatim>\<open>ip_output_if\<close>: the packet is complete.\<close>

definition ip_send :: "output_fn \<Rightarrow> output_fn \<Rightarrow> nat \<Rightarrow> u32 \<Rightarrow> nat \<Rightarrow> 'a ip_scheme \<Rightarrow> (err_t \<times> 'a ip_scheme) option" where
  "ip_send out frag p dest n s =
     (if nif_mtu (nifs s n) \<noteq> 0 \<and> p_tot_len (pbufs (pst_of s) p) > nif_mtu (nifs s n)
      then on_arp (frag (arp_nif s n) p dest) s
      else on_arp (out (arp_nif s n) p dest) s)"

text \<open>The destination \<open>None\<close> is \<^verbatim>\<open>IP_HDRINCL\<close>: the packet has its header already.\<close>

definition ip_output_if ::
    "pbuf_cfg \<Rightarrow> output_fn \<Rightarrow> output_fn \<Rightarrow> nat \<Rightarrow> u32 \<Rightarrow> u32 option \<Rightarrow> u8 \<Rightarrow> u8 \<Rightarrow> u8 \<Rightarrow> nat \<Rightarrow> 'a ip_scheme \<Rightarrow>
      (err_t \<times> 'a ip_scheme) option" where
  "ip_output_if c out frag p src dest ttl tos proto n s =
     (case dest of
        Some d \<Rightarrow>
          (let (r, st) = pbuf_header c (Some p) (int IP_HLEN) (pst_of s); s = set_pst st s
           in if r \<noteq> 0 then Some (ERR_BUF, s)
              else ip_send out frag p d n (write_ip_hdr p src d ttl tos proto (nifs s n) s))
      | None \<Rightarrow> ip_send out frag p (ip_of (get_hdr p 16 4 s)) n s)"

definition ip_output ::
    "pbuf_cfg \<Rightarrow> output_fn \<Rightarrow> output_fn \<Rightarrow> nat \<Rightarrow> u32 \<Rightarrow> u32 \<Rightarrow> u8 \<Rightarrow> u8 \<Rightarrow> u8 \<Rightarrow> 'a ip_scheme \<Rightarrow>
      (err_t \<times> 'a ip_scheme) option" where
  "ip_output c out frag p src dest ttl tos proto s = do {
     netif \<leftarrow> ip_route dest s;
     case netif of
       None \<Rightarrow> Some (ERR_RTE, s)
     | Some n \<Rightarrow> ip_output_if c out frag p src (Some dest) ttl tos proto n s }"

section \<open>Input\<close>

text \<open>An interface accepts its own address and broadcasts, when it is up and configured.\<close>

definition accepts :: "u32 \<Rightarrow> nif \<Rightarrow> bool" where
  "accepts dest n \<longleftrightarrow> netif_is_up n \<and> \<not> ip_addr_isany (nif_ip_addr n) \<and>
     (dest = nif_ip_addr n \<or> ip4_addr_isbroadcast dest (netif.truncate n))"

partial_function (option) input_loop ::
    "(nat \<Rightarrow> nif) \<Rightarrow> nat option \<Rightarrow> u32 \<Rightarrow> nat \<Rightarrow> bool \<Rightarrow> nat \<Rightarrow> nat option option" where
  "input_loop nf lst dest inp first n =
     (if accepts dest (nf n) then Some (Some n)
      else let m = (if first then lst else nif_next (nf n));
               m = (if m = Some inp then nif_next (nf inp) else m)
           in case m of None \<Rightarrow> Some None | Some n \<Rightarrow> input_loop nf lst dest inp False n)"

text \<open>The switch on the protocol; \<open>hdr\<close> is the address of the header.\<close>

definition ip_deliver ::
    "pbuf_cfg \<Rightarrow> pbuf_env \<Rightarrow> 'a ip_scheme upper \<Rightarrow> nat \<Rightarrow> nat \<Rightarrow> 'a ip_scheme \<Rightarrow> 'a ip_scheme option" where
  "ip_deliver c env up p inp s = do {
     let hdr = p_payload (pbufs (pst_of s) p);
     let s = s\<lparr>current_netif := Some inp, current_header := Some hdr\<rparr>;
     (eaten, s) \<leftarrow> raw_input_fn up p inp s;
     s \<leftarrow> (if eaten then Some s
           else let proto = payload_bytes (pst_of s) (hdr + 9)
                in if proto = IP_PROTO_UDP then udp_input_fn up p inp s
                   else if proto = IP_PROTO_TCP then tcp_input_fn up p inp s
                   else if proto = IP_PROTO_ICMP then icmp_input_fn up p inp s
                   else do {
                     s \<leftarrow> (if \<not> ip4_addr_isbroadcast (current_iphdr_dest s) (netif.truncate (nifs s inp)) \<and>
                             \<not> ip_addr_ismulticast (current_iphdr_dest s)
                           then dest_unreach_fn up p (set_pst (upd_pbuf p (\<lambda>b. b\<lparr>p_payload := hdr\<rparr>) (pst_of s)) s)
                           else Some s);
                     ip_free c env p s });
     Some (s\<lparr>current_netif := None, current_header := None, current_iphdr_src := 0, current_iphdr_dest := 0\<rparr>) }"

text \<open>\<^verbatim>\<open>ip_input\<close> after the checks of the header.\<close>

definition ip_accept ::
    "pbuf_cfg \<Rightarrow> pbuf_env \<Rightarrow> 'a ip_scheme upper \<Rightarrow> nat \<Rightarrow> nat \<Rightarrow> 'a ip_scheme \<Rightarrow> 'a ip_scheme option" where
  "ip_accept c env up p inp s = do {
     let s = s\<lparr>current_iphdr_dest := ip_of (get_hdr p 16 4 s), current_iphdr_src := ip_of (get_hdr p 12 4 s)\<rparr>;
     n \<leftarrow> input_loop (nifs s) (netif_list s) (current_iphdr_dest s) inp True inp;
     if ip4_addr_isbroadcast (current_iphdr_src s) (netif.truncate (nifs s inp)) \<or> ip_addr_ismulticast (current_iphdr_src s)
     then ip_free c env p s
     else if n = None then ip_free c env p s
     else if u16_of (get_hdr p 6 2 s) AND lwip_htons 0x3fff \<noteq> 0 then do {
       (q, s) \<leftarrow> ip_reass_fn up p s;
       case q of None \<Rightarrow> Some s | Some p \<Rightarrow> ip_deliver c env up p inp s }
     else ip_deliver c env up p inp s }"

definition ip_input ::
    "pbuf_cfg \<Rightarrow> pbuf_env \<Rightarrow> 'a ip_scheme upper \<Rightarrow> nat \<Rightarrow> nat \<Rightarrow> 'a ip_scheme \<Rightarrow> 'a ip_scheme option" where
  "ip_input c env up p inp s =
     (let vhl = get_hdr p 0 1 s ! 0
      in if drop_bit 4 vhl \<noteq> 4 then ip_free c env p s
         else let iphdr_hlen = 4 * unat (vhl AND 0x0f);
                  iphdr_len = unat (lwip_ntohs (u16_of (get_hdr p 2 2 s)))
              in if iphdr_hlen > p_len (pbufs (pst_of s) p) \<or> iphdr_len > p_tot_len (pbufs (pst_of s) p) then ip_free c env p s
                 else if inet_chksum lwip_standard_chksum2 (p_payload (pbufs (pst_of s) p)) (get_hdr p 0 iphdr_hlen s) \<noteq> 0
                 then ip_free c env p s
                 else do {
                   st \<leftarrow> pbuf_realloc c env p iphdr_len (pst_of s);
                   ip_accept c env up p inp (set_pst st s) })"

end
