(* ===== verification/Ip_Spec.thy ===== *)
theory Ip_Spec
  imports Ip Pbuf_Head
begin

text \<open>
  What \<^verbatim>\<open>ip.c\<close> promises: the route chosen, the packet written, and what becomes of a received packet.
\<close>

section \<open>The header\<close>

definition ip_hdr0 :: "u8 \<Rightarrow> u16 \<Rightarrow> u16 \<Rightarrow> u8 \<Rightarrow> u8 \<Rightarrow> u16 \<Rightarrow> u32 \<Rightarrow> u32 \<Rightarrow> u8 list" where
  "ip_hdr0 tos len id' ttl proto ck src dest =
     [0x45, tos] @ u16_bytes (lwip_htons len) @ u16_bytes (lwip_htons id') @ [0, 0, ttl, proto] @ u16_bytes ck @
     addr_bytes src @ addr_bytes dest"

definition ip_hdr :: "u8 \<Rightarrow> u16 \<Rightarrow> u16 \<Rightarrow> u8 \<Rightarrow> u8 \<Rightarrow> u32 \<Rightarrow> u32 \<Rightarrow> u8 list" where
  "ip_hdr tos len id' ttl proto src dest =
     ip_hdr0 tos len id' ttl proto (NOT (oc_sum (ip_hdr0 tos len id' ttl proto 0 src dest))) src dest"

lemma length_u16_bytes [simp]: "length (u16_bytes w) = 2"
  by (simp add: u16_bytes_def)

lemma length_ip_hdr [simp]: "length (ip_hdr0 tos len id' ttl proto ck src dest) = 20" "length (ip_hdr tos len id' ttl proto src dest) = 20"
  by (simp_all add: ip_hdr_def ip_hdr0_def)

lemma wsum_u16: "wsum (u16_bytes w @ xs) = unat w + wsum xs"
  using two_bytes [of "unat w"] by (simp add: u16_bytes_def unat_ucast_16_8 unat_drop_bit_word)

lemma wsum_addr: "wsum (addr_bytes w @ xs) = unat (w AND 0xffff) + unat (drop_bit 16 w) + wsum xs"
proof -
  have "drop_bit 16 w AND 0xffff = drop_bit 16 w"
    using u32_halves(1) [of w] by (simp add: word_unat_eq_iff unat_and_ffff_u32 unat_drop_bit_word)
  moreover have "addr_bytes w = u32_bytes w" by (simp add: addr_bytes_def u32_bytes_def)
  ultimately show ?thesis using u32_bytes_sum [of w xs] by simp
qed

lemma le16_u16_bytes: "le16 (ucast w) (ucast (drop_bit 8 w)) = w"
  using two_bytes [of "unat w"] by (simp add: word_unat_eq_iff unat_le16 unat_ucast_16_8 unat_drop_bit_word)

lemma u16_of_bytes [simp]: "u16_of (u16_bytes w) = w"
  by (simp add: u16_of_def u16_bytes_def le16_u16_bytes)

lemma ip_hdr_sum:
  "wsum (ip_hdr0 tos len id' ttl proto ck src dest) =
     (256 * unat tos + 0x45) + unat (lwip_htons len) + unat (lwip_htons id') + (256 * unat proto + unat ttl) + unat ck +
     unat (src AND 0xffff) + unat (drop_bit 16 src) + unat (dest AND 0xffff) + unat (drop_bit 16 dest)"
  using wsum_addr [of dest "[]"]
  by (simp add: ip_hdr0_def wsum_u16 wsum_addr)

text \<open>The checksum \<^verbatim>\<open>ip_output_if\<close> computes on the fly is that of the header.\<close>

lemma not_fold2:
  assumes "rep (unat (acc :: u32)) n"
  shows "ucast (NOT (drop_bit 16 (drop_bit 16 acc + (acc AND 0xFFFF)) + (drop_bit 16 acc + (acc AND 0xFFFF)))) =
    (NOT (of_nat (oc n)) :: u16)"
proof -
  define x where "x = FOLD_U32T acc"
  have x: "drop_bit 16 acc + (acc AND 0xFFFF) = x" by (simp add: x_def FOLD_U32T_def)
  have "unat x \<le> 131070" unfolding x_def by (rule fold_le1)
  then have "unat (drop_bit 16 x + x) = unat x div 65536 + unat x"
    by (simp add: unat_add_u32 unat_drop_bit_word)
  moreover have "unat (FOLD_U32T x) = unat x div 65536 + unat x mod 65536" by (rule unat_fold)
  ultimately have e: "(ucast (drop_bit 16 x + x) :: u16) = ucast (FOLD_U32T x)"
    by (simp add: word_unat_eq_iff unat_ucast_32_16 mod_simps)
  have r: "rep (unat (FOLD_U32T x)) n"
    unfolding x_def by (rule rep_trans [OF rep_fold2 assms])
  have l: "unat (FOLD_U32T x) \<le> 65535" unfolding x_def by (rule fold2_le)
  then have a: "FOLD_U32T x AND 0xffff = FOLD_U32T x"
    by (simp add: word_unat_eq_iff unat_and_ffff_u32)
  have n: "ucast (NOT w) = (NOT (ucast (w :: u32)) :: u16)" for w
    by (rule bit_word_eqI) (simp add: bit_simps)
  show ?thesis using not_acc [OF r l] by (simp add: x a n e)
qed

lemma ip_hdr_chksum_eq:
  "ip_hdr_chksum proto ttl dest tos 0x45 (lwip_htons len) (lwip_htons id') src = NOT (oc_sum (ip_hdr0 tos len id' ttl proto 0 src dest))"
proof -
  define acc where "acc = ucast (LWIP_MAKE_U16 proto ttl) + (dest AND 0xFFFF) + drop_bit 16 dest +
    ucast (LWIP_MAKE_U16 tos 0x45) + ucast (lwip_htons len) + ucast (lwip_htons id') + (src AND 0xFFFF) + (drop_bit 16 src :: u32)"
  have m: "unat (LWIP_MAKE_U16 a b) = 256 * unat a + unat b" for a b
    unfolding LWIP_MAKE_U16_def by (rule unat_be16)
  have b: "unat (w AND 0xffff) < 65536" "unat (drop_bit 16 (w :: u32)) < 65536" for w
    using u32_halves(1) [of w] by (simp_all add: unat_and_ffff_u32 unat_drop_bit_word)
  let ?s = "unat (LWIP_MAKE_U16 proto ttl) + unat (dest AND 0xFFFF) + unat (drop_bit 16 dest) +
    unat (LWIP_MAKE_U16 tos 0x45) + unat (lwip_htons len) + unat (lwip_htons id') + unat (src AND 0xFFFF) + unat (drop_bit 16 src)"
  have "?s < 4294967296"
    using b [of dest] b [of src] u16_lt [of "lwip_htons id'"] u16_lt [of "lwip_htons len"] u16_lt [of "LWIP_MAKE_U16 proto ttl"]
      u16_lt [of "LWIP_MAKE_U16 tos 0x45"] by linarith
  then have "unat acc = ?s" unfolding acc_def by (simp add: unat_add_u32 unat_ucast_16_32 mod_simps add.assoc)
  also have "\<dots> = wsum (ip_hdr0 tos len id' ttl proto 0 src dest)"
    by (simp add: ip_hdr_sum m)
  finally have "rep (unat acc) (wsum (ip_hdr0 tos len id' ttl proto 0 src dest))" by simp
  from not_fold2 [OF this] show ?thesis
    by (simp add: ip_hdr_chksum_def Let_def oc_sum_def acc_def)
qed

lemma ip_hdr_verifies: "inet_chksum lwip_standard_chksum2 a (ip_hdr tos len id' ttl proto src dest) = 0"
proof -
  define ck where "ck = NOT (oc_sum (ip_hdr0 tos len id' ttl proto 0 src dest))"
  let ?pre = "[0x45, tos] @ u16_bytes (lwip_htons len) @ u16_bytes (lwip_htons id') @ [0, 0, ttl, proto]"
  let ?post = "addr_bytes src @ addr_bytes dest"
  have h: "ip_hdr0 tos len id' ttl proto c src dest = ?pre @ ucast c # ucast (drop_bit 8 c) # ?post" for c
    by (simp add: ip_hdr0_def u16_bytes_def)
  have "inet_chksum lwip_standard_chksum2 a (?pre @ ucast ck # ucast (drop_bit 8 ck) # ?post) = 0"
  proof (rule alg2.inet_chksum_verify)
    have "inet_chksum lwip_standard_chksum2 0 (?pre @ 0 # 0 # ?post) = ck"
      unfolding ck_def using h [of 0] by (subst alg2.inet_chksum_spec) simp_all
    then show "le16 (ucast ck) (ucast (drop_bit 8 ck)) = inet_chksum lwip_standard_chksum2 0 (?pre @ 0 # 0 # ?post)"
      by (simp only: le16_u16_bytes)
  qed simp_all
  then show ?thesis by (simp add: ip_hdr_def h ck_def)
qed

section \<open>Output\<close>

lemma put_hdr_simps [simp]:
  "pst_of (put_hdr p k bs s) = write_bytes (p_payload (pbufs (pst_of s) p) + k) bs (pst_of s)"
  "nifs (put_hdr p k bs s) = nifs s" "netif_list (put_hdr p k bs s) = netif_list s" "netif_default (put_hdr p k bs s) = netif_default s"
  "netif_num (put_hdr p k bs s) = netif_num s" "arp_table (net_arp (put_hdr p k bs s)) = arp_table (net_arp s)"
  "etharp_cached_entry (net_arp (put_hdr p k bs s)) = etharp_cached_entry (net_arp s)"
  "a_sent (net_arp (put_hdr p k bs s)) = a_sent (net_arp s)" "net.more (put_hdr p k bs s) = net.more s"
  by (simp_all add: put_hdr_def put_at_def)

lemma ip_put_hdr [simp]: "ip_id (put_hdr p k bs s) = ip_id s"
  by (simp add: put_hdr_def)

lemma writes_cover:
  assumes "\<And>j. j < length bs \<Longrightarrow> payload_bytes st' (d + j) = bs ! j"
    and "\<And>i. i < d \<or> d + length bs \<le> i \<Longrightarrow> payload_bytes st' i = payload_bytes st i"
  shows "payload_bytes st' = payload_bytes (write_bytes d bs st)"
proof
  fix i
  show "payload_bytes st' i = payload_bytes (write_bytes d bs st) i"
    using assms(1) [of "i - d"] assms(2) [of i] by (auto simp: write_bytes_def store_bytes_nth)
qed

lemma write_other: "i < d \<or> d + length bs \<le> i \<Longrightarrow> payload_bytes (write_bytes d bs st) i = payload_bytes st i"
  by (auto simp: write_bytes_def store_bytes_nth)

lemma upto20: "[0..<20] = [0, 1, 2, 3, 4, 5, 6, 7, 8, 9, 10, 11, 12, 13, 14, 15, 16, 17, 18, 19 :: nat]"
  by (simp add: upt_rec)

text \<open>The source address \<^verbatim>\<open>ip_output_if\<close> writes.\<close>

definition src_of :: "u32 \<Rightarrow> nif \<Rightarrow> u32" where
  "src_of src n = (if ip_addr_isany src then nif_ip_addr n else src)"

lemma write_ip_hdr_pst:
  "pst_of (write_ip_hdr p src dest ttl tos proto n s) =
     write_bytes (p_payload (pbufs (pst_of s) p))
       (ip_hdr tos (of_nat (p_tot_len (pbufs (pst_of s) p))) (ip_id s) ttl proto (src_of src n) dest) (pst_of s)"
  (is "?st = write_bytes ?d ?h _")
proof -
  let ?tot = "of_nat (p_tot_len (pbufs (pst_of s) p)) :: u16"
  define ck where "ck = ip_hdr_chksum proto ttl dest tos 0x45 (lwip_htons ?tot) (lwip_htons (ip_id s)) (src_of src n)"
  have h: "?h = ip_hdr0 tos ?tot (ip_id s) ttl proto ck (src_of src n) dest"
    by (simp add: ip_hdr_def ck_def ip_hdr_chksum_eq)
  have w: "?st = write_bytes (?d + 10) (u16_bytes ck) (write_bytes (?d + 12) (addr_bytes (src_of src n))
    (write_bytes (?d + 4) (u16_bytes (lwip_htons (ip_id s))) (write_bytes (?d + 6) [0, 0] (write_bytes (?d + 2) (u16_bytes (lwip_htons ?tot))
      (write_bytes (?d + 1) [tos] (write_bytes ?d [0x45] (write_bytes (?d + 16) (addr_bytes dest)
        (write_bytes (?d + 9) [proto] (write_bytes (?d + 8) [ttl] (pst_of s))))))))))"
    by (simp add: write_ip_hdr_def Let_def ck_def src_of_def)
  have "map (\<lambda>j. payload_bytes ?st (?d + j)) [0..<20] = ?h"
    unfolding upto20 h w
    by (simp add: write_bytes_def store_bytes_nth ip_hdr0_def u16_bytes_def addr_bytes_def)
  then have "payload_bytes ?st (?d + j) = ?h ! j" if "j < length ?h" for j
    using that nth_map [of j "[0..<20]" "\<lambda>j. payload_bytes ?st (?d + j)"] by simp
  moreover have "payload_bytes ?st i = payload_bytes (pst_of s) i" if "i < ?d \<or> ?d + length ?h \<le> i" for i
    using that unfolding w by (elim disjE) (simp_all add: write_other addr_bytes_def)
  ultimately have "payload_bytes ?st = payload_bytes (write_bytes ?d ?h (pst_of s))" by (rule writes_cover)
  then show ?thesis unfolding w by (simp add: write_bytes_def)
qed

lemma write_ip_hdr_frame [simp]:
  "nifs (write_ip_hdr p src dest ttl tos proto n s) = nifs s" "ip_id (write_ip_hdr p src dest ttl tos proto n s) = ip_id s + 1"
  "arp_table (net_arp (write_ip_hdr p src dest ttl tos proto n s)) = arp_table (net_arp s)"
  "etharp_cached_entry (net_arp (write_ip_hdr p src dest ttl tos proto n s)) = etharp_cached_entry (net_arp s)"
  "a_sent (net_arp (write_ip_hdr p src dest ttl tos proto n s)) = a_sent (net_arp s)"
  "netif_list (write_ip_hdr p src dest ttl tos proto n s) = netif_list s"
  "netif_default (write_ip_hdr p src dest ttl tos proto n s) = netif_default s"
  by (simp_all add: write_ip_hdr_def Let_def)

lemma set_pst_simps [simp]:
  "pst_of (set_pst st s) = st" "nifs (set_pst st s) = nifs s" "netif_list (set_pst st s) = netif_list s"
  "netif_default (set_pst st s) = netif_default s" "netif_num (set_pst st s) = netif_num s"
  "arp_table (net_arp (set_pst st s)) = arp_table (net_arp s)" "a_sent (net_arp (set_pst st s)) = a_sent (net_arp s)"
  "etharp_cached_entry (net_arp (set_pst st s)) = etharp_cached_entry (net_arp s)" "set_pst (pst_of s) s = s"
  by (simp_all add: set_pst_def)

lemma ip_set_pst [simp]:
  "ip_id (set_pst st s) = ip_id s" "current_iphdr_src (set_pst st s) = current_iphdr_src s"
  "current_iphdr_dest (set_pst st s) = current_iphdr_dest s" "current_netif (set_pst st s) = current_netif s"
  "current_header (set_pst st s) = current_header s"
  by (simp_all add: set_pst_def)

text \<open>The state \<^verbatim>\<open>ip_output_if\<close> hands to the link: the header written in front of the packet.\<close>

definition ip_out_state :: "nat \<Rightarrow> u32 \<Rightarrow> u32 \<Rightarrow> u8 \<Rightarrow> u8 \<Rightarrow> u8 \<Rightarrow> nat \<Rightarrow> 'a ip_scheme \<Rightarrow> 'a ip_scheme" where
  "ip_out_state p src d ttl tos proto n s = write_ip_hdr p src d ttl tos proto (nifs s n) (set_pst (grow p IP_HLEN (pst_of s)) s)"

definition ip_hdr_of :: "u32 \<Rightarrow> u32 \<Rightarrow> u8 \<Rightarrow> u8 \<Rightarrow> u8 \<Rightarrow> nat \<Rightarrow> nat \<Rightarrow> 'a ip_scheme \<Rightarrow> u8 list" where
  "ip_hdr_of src d ttl tos proto n len s = ip_hdr tos (of_nat (len + IP_HLEN)) (ip_id s) ttl proto (src_of src (nifs s n)) d"

lemma ip_out_packet:
  assumes pk: "packet (pst_of s) (Some p) (p # rest)" and r: "room c (pst_of s) p rest (IP_HLEN + k)"
  shows "ip_output_if c out frag p src (Some d) ttl tos proto n s = ip_send out frag p d n (ip_out_state p src d ttl tos proto n s)"
    "packet (pst_of (ip_out_state p src d ttl tos proto n s)) (Some p) (p # rest)"
    "contents (pst_of (ip_out_state p src d ttl tos proto n s)) (p # rest) =
       ip_hdr_of src d ttl tos proto n (total (pst_of s) (p # rest)) s @ contents (pst_of s) (p # rest)"
    "room c (pst_of (ip_out_state p src d ttl tos proto n s)) p rest k"
    "pbufs (pst_of (ip_out_state p src d ttl tos proto n s)) = pbufs (grow p IP_HLEN (pst_of s))"
proof -
  define st where "st = grow p IP_HLEN (pst_of s)"
  define h where "h = ip_hdr_of src d ttl tos proto n (total (pst_of s) (p # rest)) s"
  have r20: "room c (pst_of s) p rest IP_HLEN" by (rule room_less [OF r]) simp
  note g = header_grow [OF pk r20, folded st_def]
  have h20: "0 < IP_HLEN" "length h = IP_HLEN" by (simp_all add: IP_HLEN_def h_def ip_hdr_of_def)
  have t: "p_tot_len (pbufs st p) = total (pst_of s) (p # rest) + IP_HLEN"
    using tot_len_packet [OF pk] by (simp add: st_def)
  have o: "pst_of (ip_out_state p src d ttl tos proto n s) = write_bytes (p_payload (pbufs st p)) h st"
    by (simp add: ip_out_state_def write_ip_hdr_pst h_def ip_hdr_of_def t flip: st_def)
  show "ip_output_if c out frag p src (Some d) ttl tos proto n s = ip_send out frag p d n (ip_out_state p src d ttl tos proto n s)"
    using g(1) h20(1) by (simp add: ip_output_if_def ip_out_state_def st_def)
  have "room c st p rest k" by (rule g(4) [OF h20(1) _ r]) simp
  note sep = room_sep [OF this]
  have l: "0 + length h \<le> len_of st p" by (simp add: st_def h20)
  note w = write_first [OF g(2) [OF h20(1)] sep l]
  show "packet (pst_of (ip_out_state p src d ttl tos proto n s)) (Some p) (p # rest)" using w(1) by (simp add: o)
  have "drop (length h) (contents st (p # rest)) = contents (pst_of s) (p # rest)"
    unfolding g(3) [OF h20(1)] using h20(2) by (simp del: contents_simps)
  with w(2) show "contents (pst_of (ip_out_state p src d ttl tos proto n s)) (p # rest) = h @ contents (pst_of s) (p # rest)"
    unfolding o by (simp del: contents_simps)
  show "pbufs (pst_of (ip_out_state p src d ttl tos proto n s)) = pbufs (grow p IP_HLEN (pst_of s))" by (simp add: o st_def)
  with \<open>room c st p rest k\<close> show "room c (pst_of (ip_out_state p src d ttl tos proto n s)) p rest k"
    by (simp add: room_def region_def total_def st_def)
qed

section \<open>The interfaces\<close>

text \<open>The list of interfaces as a list of addresses.\<close>

abbreviation nlinks :: "'a net_scheme \<Rightarrow> nat \<Rightarrow> nat option" where
  "nlinks s \<equiv> \<lambda>n. nif_next (nifs s n)"

definition nif_chain :: "'a net_scheme \<Rightarrow> nat list \<Rightarrow> bool" where
  "nif_chain s xs \<longleftrightarrow> chain (nlinks s) (netif_list s) xs"

lemma route_loop_spec:
  "chain (\<lambda>n. nif_next (nf n)) t xs \<Longrightarrow>
    route_loop nf dest t = Some (find (\<lambda>n. netif_is_up (nf n) \<and> ip_addr_netcmp dest (nif_ip_addr (nf n)) (nif_netmask (nf n))) xs)"
proof (induction xs arbitrary: t)
  case Nil
  then show ?case by (subst route_loop.simps) simp
next
  case (Cons n xs)
  then show ?case by (subst route_loop.simps) auto
qed

lemma input_loop_rest:
  "chain (\<lambda>n. nif_next (nf n)) (Some n) (n # ys) \<Longrightarrow> n \<noteq> inp \<Longrightarrow>
    input_loop nf lst dest inp False n = Some (find (\<lambda>n. accepts dest (nf n)) (n # filter (\<lambda>m. m \<noteq> inp) ys))"
proof (induction "length ys" arbitrary: n ys rule: less_induct)
  case less
  let ?nx = "\<lambda>n. nif_next (nf n)"
  from less.prems have c: "chain ?nx (?nx n) ys" by simp
  show ?case
  proof (cases ys)
    case Nil
    with c show ?thesis by (subst input_loop.simps) simp
  next
    case (Cons m zs)
    with c have m: "?nx n = Some m" "chain ?nx (?nx m) zs" by auto
    show ?thesis
    proof (cases "m = inp")
      case False
      with m less.hyps [of zs m] Cons show ?thesis by (subst input_loop.simps) auto
    next
      case True
      show ?thesis
      proof (cases zs)
        case Nil
        with m True Cons show ?thesis by (subst input_loop.simps) auto
      next
        case (Cons k ws)
        from chain_distinct [OF less.prems(1)] \<open>ys = m # zs\<close> Cons True have "k \<noteq> inp" by auto
        with m True Cons \<open>ys = m # zs\<close> less.hyps [of ws k] show ?thesis by (subst input_loop.simps) auto
      qed
    qed
  qed
qed

text \<open>The receiving interface first, then the others in the order of the list.\<close>

lemma input_loop_spec:
  assumes "chain (\<lambda>n. nif_next (nf n)) lst xs"
  shows "input_loop nf lst dest inp True inp = Some (find (\<lambda>n. accepts dest (nf n)) (inp # filter (\<lambda>m. m \<noteq> inp) xs))"
proof (cases xs)
  case Nil
  with assms show ?thesis by (subst input_loop.simps) simp
next
  case (Cons m zs)
  let ?nx = "\<lambda>n. nif_next (nf n)"
  from assms Cons have m: "lst = Some m" "chain ?nx (?nx m) zs" by auto
  show ?thesis
  proof (cases "m = inp")
    case False
    with m Cons input_loop_rest [of nf m zs inp] show ?thesis by (subst input_loop.simps) auto
  next
    case True
    show ?thesis
    proof (cases zs)
      case Nil
      with m True Cons show ?thesis by (subst input_loop.simps) auto
    next
      case (Cons k ws)
      from chain_distinct [OF assms] \<open>xs = m # zs\<close> Cons True have "k \<noteq> inp" by auto
      with m True Cons \<open>xs = m # zs\<close> input_loop_rest [of nf k ws inp] show ?thesis by (subst input_loop.simps) auto
    qed
  qed
qed

section \<open>Input\<close>

text \<open>The header of a received packet as a function of its bytes; \<open>l\<close> is the length of the first pbuf.\<close>

definition hdr_len :: "u8 list \<Rightarrow> nat" where
  "hdr_len bs = 4 * unat (bs ! 0 AND 0x0f)"

definition ip_len :: "u8 list \<Rightarrow> nat" where
  "ip_len bs = unat (lwip_ntohs (le16 (bs ! 2) (bs ! 3)))"

definition hdr_src :: "u8 list \<Rightarrow> u32" where
  "hdr_src bs = ip_of (take 4 (drop 12 bs))"

definition hdr_dest :: "u8 list \<Rightarrow> u32" where
  "hdr_dest bs = ip_of (take 4 (drop 16 bs))"

definition fragment :: "u8 list \<Rightarrow> bool" where
  "fragment bs \<longleftrightarrow> le16 (bs ! 6) (bs ! 7) AND lwip_htons 0x3fff \<noteq> 0"

definition ip_ok :: "nat \<Rightarrow> u8 list \<Rightarrow> bool" where
  "ip_ok l bs \<longleftrightarrow> drop_bit 4 (bs ! 0) = 4 \<and> hdr_len bs \<le> l \<and> ip_len bs \<le> length bs \<and> NOT (oc_sum (take (hdr_len bs) bs)) = 0"

text \<open>Which packets are for this host, and come from a sender.\<close>

definition for_us :: "u32 \<Rightarrow> nat \<Rightarrow> nat list \<Rightarrow> 'a net_scheme \<Rightarrow> bool" where
  "for_us dest inp xs s \<longleftrightarrow> (\<exists>n \<in> insert inp (set xs). accepts dest (nifs s n))"

definition bad_source :: "u32 \<Rightarrow> nif \<Rightarrow> bool" where
  "bad_source src n \<longleftrightarrow> ip4_addr_isbroadcast src (netif.truncate n) \<or> ip_addr_ismulticast src"

lemma find_None_filter: "find P (a # filter (\<lambda>m. m \<noteq> a) xs) = None \<longleftrightarrow> \<not> (\<exists>n \<in> insert a (set xs). P n)"
  by (auto simp: find_None_iff)

lemma get_hdr_bytes:
  assumes "packet (pst_of s) (Some p) (p # rest)" and "k + n \<le> len_of (pst_of s) p"
  shows "get_hdr p k n s = take n (drop k (contents (pst_of s) (p # rest)))"
  using assms(2)
  by (intro nth_equalityI) (auto simp: get_hdr_def get_at_def data_of_def load_bytes_def nth_append add.assoc)

lemma get_hdr_cong:
  "payload_bytes (pst_of s') = payload_bytes (pst_of s) \<Longrightarrow> p_payload (pbufs (pst_of s') p) = p_payload (pbufs (pst_of s) p) \<Longrightarrow>
    get_hdr p k n s' = get_hdr p k n s"
  by (simp add: get_hdr_def get_at_def)

text \<open>\<^verbatim>\<open>pbuf_realloc\<close> to any length up to that of the packet.\<close>

lemma trim_packet:
  assumes pk: "packet st (Some p) xs" and h: "held st xs fl"
    and ty: "\<forall>a \<in> set xs. p_type (pbufs st a) \<noteq> PBUF_RAM" and n: "n \<le> total st xs"
  shows "\<exists>ys fl' st'. pbuf_realloc c env p n st = Some st' \<and> packet st' (Some p) ys \<and> contents st' ys = take n (contents st xs) \<and>
    held st' ys fl' \<and> payload_bytes st' = payload_bytes st \<and> set ys \<subseteq> set xs \<and>
    (\<forall>b \<in> set ys. p_type (pbufs st' b) = p_type (pbufs st b) \<and> p_payload (pbufs st' b) = p_payload (pbufs st b) \<and>
      p_ref (pbufs st' b) = p_ref (pbufs st b))"
proof (cases "n < total st xs")
  case True
  from realloc_packet [OF pk h ty True, of c env] obtain us a vs st' where r: "xs = us @ a # vs"
    "pbuf_realloc c env p n st = Some st'" "packet st' (Some p) (us @ [a])" "contents st' (us @ [a]) = take n (contents st xs)"
    "pools_ok (pbuf_pools st') (freed_lists st vs fl)" "payload_bytes st' = payload_bytes st"
    and k: "\<forall>b \<in> set (us @ [a]). p_type (pbufs st' b) = p_type (pbufs st b) \<and> p_flags (pbufs st' b) = p_flags (pbufs st b) \<and>
      p_ref (pbufs st' b) = p_ref (pbufs st b) \<and> p_payload (pbufs st' b) = p_payload (pbufs st b)" by blast
  have "set (us @ [a]) \<inter> set vs = {}" using packetD(4) [OF pk] by (auto simp: r(1))
  then have "\<forall>i. set (us @ [a]) \<inter> set (freed_lists st vs fl i) = {}"
    using h r(1) sole_subset [of _ st vs] unfolding held_def freed_lists_def by fastforce
  moreover have "no_custom st' (set (us @ [a]))" using h k r(1) by (auto simp: held_def no_custom_def)
  moreover have "\<forall>b \<in> set (us @ [a]). 0 < p_ref (pbufs st' b) \<and> p_ref (pbufs st' b) < 65536"
    using h k r(1) by (auto simp: held_def)
  ultimately have "held st' (us @ [a]) (freed_lists st vs fl)" using r(5) unfolding held_def by blast
  with r k show ?thesis
    by (intro exI [of _ "us @ [a]"] exI [of _ "freed_lists st vs fl"] exI [of _ st']) auto
next
  case False
  with n tot_len_packet [OF pk] have "n = total st xs" "pbuf_realloc c env p n st = Some st" by (auto simp: pbuf_realloc_def)
  with pk h show ?thesis by (intro exI [of _ xs] exI [of _ fl] exI [of _ st]) simp
qed

text \<open>What \<^verbatim>\<open>ip_input\<close> does with a packet whose header is in order, given the trimmed packet.\<close>

definition ip_dispose ::
    "pbuf_cfg \<Rightarrow> pbuf_env \<Rightarrow> 'a ip_scheme upper \<Rightarrow> nat \<Rightarrow> nat \<Rightarrow> nat list \<Rightarrow> u8 list \<Rightarrow> 'a ip_scheme \<Rightarrow> 'a ip_scheme option" where
  "ip_dispose c env up p inp xs bs s =
     (if bad_source (hdr_src bs) (nifs s inp) \<or> \<not> for_us (hdr_dest bs) inp xs s then ip_free c env p s
      else if fragment bs then do {
        (q, s) \<leftarrow> ip_reass_fn up p s;
        case q of None \<Rightarrow> Some s | Some p \<Rightarrow> ip_deliver c env up p inp s }
      else ip_deliver c env up p inp s)"

lemma ip_accept_spec:
  assumes nc: "nif_chain s xs" and h: "get_hdr p 12 4 s = take 4 (drop 12 bs)" "get_hdr p 16 4 s = take 4 (drop 16 bs)"
    "get_hdr p 6 2 s = take 2 (drop 6 bs)" and l: "20 \<le> length bs"
  shows "ip_accept c env up p inp s =
    ip_dispose c env up p inp xs bs (s\<lparr>current_iphdr_dest := hdr_dest bs, current_iphdr_src := hdr_src bs\<rparr>)"
proof -
  define s1 where "s1 = s\<lparr>current_iphdr_dest := hdr_dest bs, current_iphdr_src := hdr_src bs\<rparr>"
  have g: "get_hdr p 6 2 s1 = take 2 (drop 6 bs)" using h by (simp add: s1_def get_hdr_def)
  have f: "u16_of (take 2 (drop 6 bs)) = le16 (bs ! 6) (bs ! 7)" using l by (simp add: u16_of_def)
  define r where "r = find (\<lambda>n. accepts (hdr_dest bs) (nifs s n)) (inp # filter (\<lambda>m. m \<noteq> inp) xs)"
  have s1: "current_iphdr_dest s1 = hdr_dest bs" "current_iphdr_src s1 = hdr_src bs" "nifs s1 = nifs s" "netif_list s1 = netif_list s"
    by (simp_all add: s1_def)
  have i: "input_loop (nifs s) (netif_list s) (hdr_dest bs) inp True inp = Some r"
    using nc unfolding r_def by (intro input_loop_spec) (simp add: nif_chain_def)
  have n: "r = None \<longleftrightarrow> \<not> for_us (hdr_dest bs) inp xs s1"
    unfolding r_def for_us_def s1 by (rule find_None_filter)
  have "ip_accept c env up p inp s = ip_dispose c env up p inp xs bs s1"
    unfolding ip_accept_def ip_dispose_def
    using h by (simp add: s1_def [symmetric] hdr_src_def [symmetric] hdr_dest_def [symmetric] Let_def i s1 g f n
        bad_source_def fragment_def)
  then show ?thesis by (simp add: s1_def)
qed

lemma nth_take_drop: "k < n \<Longrightarrow> m + k < length bs \<Longrightarrow> take n (drop m bs) ! k = bs ! (m + k)"
  by simp

lemma ip_input_cases:
  assumes pk: "packet (pst_of s) (Some p) (p # rest)" and l: "20 \<le> len_of (pst_of s) p"
    and h: "held (pst_of s) (p # rest) fl" and ty: "\<forall>a \<in> set (p # rest). p_type (pbufs (pst_of s) a) \<noteq> PBUF_RAM"
    and nc: "nif_chain s xs"
  defines "bs \<equiv> contents (pst_of s) (p # rest)"
  shows "\<not> ip_ok (len_of (pst_of s) p) bs \<Longrightarrow> ip_input c env up p inp s = ip_free c env p s"
    and "ip_ok (len_of (pst_of s) p) bs \<Longrightarrow> \<exists>ys fl' s'. ip_input c env up p inp s = ip_dispose c env up p inp xs bs s' \<and>
      packet (pst_of s') (Some p) ys \<and> contents (pst_of s') ys = take (ip_len bs) bs \<and> held (pst_of s') ys fl' \<and>
      set ys \<subseteq> set (p # rest) \<and> (\<forall>b \<in> set ys. p_type (pbufs (pst_of s') b) = p_type (pbufs (pst_of s) b) \<and>
        p_payload (pbufs (pst_of s') b) = p_payload (pbufs (pst_of s) b)) \<and>
      payload_bytes (pst_of s') = payload_bytes (pst_of s) \<and> nifs s' = nifs s \<and> netif_list s' = netif_list s \<and>
      current_iphdr_src s' = hdr_src bs \<and> current_iphdr_dest s' = hdr_dest bs \<and> ip_id s' = ip_id s \<and> ip.more s' = ip.more s"
proof -
  let ?l = "len_of (pst_of s) p"
  have b20: "20 \<le> length bs" "?l \<le> length bs" using l by (simp_all add: bs_def)
  have g: "get_hdr p k n s = take n (drop k bs)" if "k + n \<le> ?l" for k n
    using get_hdr_bytes [OF pk that] by (simp add: bs_def)
  have v: "get_hdr p 0 1 s ! 0 = bs ! 0" using g [of 0 1] l b20(1) by simp
  have iplen: "unat (lwip_ntohs (u16_of (get_hdr p 2 2 s))) = ip_len bs"
    using g [of 2 2] l b20(1) by (simp add: ip_len_def u16_of_def)
  have t: "p_tot_len (pbufs (pst_of s) p) = length bs" using tot_len_packet [OF pk] by (simp add: bs_def)
  have ck: "inet_chksum lwip_standard_chksum2 a (get_hdr p 0 (hdr_len bs) s) = NOT (oc_sum (take (hdr_len bs) bs))"
    if "hdr_len bs \<le> ?l" for a
  proof -
    have "length (get_hdr p 0 (hdr_len bs) s) \<le> 65535"
      using that packetD(3) [OF pk] by (simp add: g)
    with that show ?thesis by (simp add: alg2.inet_chksum_spec g)
  qed
  have in_eq: "ip_input c env up p inp s = (if ip_ok ?l bs then do {
      st \<leftarrow> pbuf_realloc c env p (ip_len bs) (pst_of s); ip_accept c env up p inp (set_pst st s) } else ip_free c env p s)"
    using ck unfolding ip_input_def Let_def v iplen t hdr_len_def [symmetric] by (auto simp: ip_ok_def)
  then show "\<not> ip_ok ?l bs \<Longrightarrow> ip_input c env up p inp s = ip_free c env p s" by simp
  assume ok: "ip_ok ?l bs"
  then have n: "ip_len bs \<le> total (pst_of s) (p # rest)" unfolding ip_ok_def bs_def by simp
  from trim_packet [OF pk h ty n, of c env] obtain ys fl' st' where tr: "pbuf_realloc c env p (ip_len bs) (pst_of s) = Some st'"
    "packet st' (Some p) ys" "contents st' ys = take (ip_len bs) bs" "held st' ys fl'" "payload_bytes st' = payload_bytes (pst_of s)"
    "set ys \<subseteq> set (p # rest)" "\<forall>b \<in> set ys. p_type (pbufs st' b) = p_type (pbufs (pst_of s) b) \<and>
      p_payload (pbufs st' b) = p_payload (pbufs (pst_of s) b) \<and> p_ref (pbufs st' b) = p_ref (pbufs (pst_of s) b)"
    unfolding bs_def by blast
  from tr(2) have "p \<in> set ys" by (auto simp: packet_Cons)
  with tr have same: "get_hdr p k n (set_pst st' s) = get_hdr p k n s" for k n by (intro get_hdr_cong) simp_all
  define s' where "s' = (set_pst st' s)\<lparr>current_iphdr_dest := hdr_dest bs, current_iphdr_src := hdr_src bs\<rparr>"
  have "ip_accept c env up p inp (set_pst st' s) = ip_dispose c env up p inp xs bs s'"
    unfolding s'_def using nc l b20(1)
    by (intro ip_accept_spec) (simp_all add: same g nif_chain_def)
  with ok in_eq tr(1) have "ip_input c env up p inp s = ip_dispose c env up p inp xs bs s'" by simp
  then show "\<exists>ys fl' s'. ip_input c env up p inp s = ip_dispose c env up p inp xs bs s' \<and>
      packet (pst_of s') (Some p) ys \<and> contents (pst_of s') ys = take (ip_len bs) bs \<and> held (pst_of s') ys fl' \<and>
      set ys \<subseteq> set (p # rest) \<and> (\<forall>b \<in> set ys. p_type (pbufs (pst_of s') b) = p_type (pbufs (pst_of s) b) \<and>
        p_payload (pbufs (pst_of s') b) = p_payload (pbufs (pst_of s) b)) \<and>
      payload_bytes (pst_of s') = payload_bytes (pst_of s) \<and> nifs s' = nifs s \<and> netif_list s' = netif_list s \<and>
      current_iphdr_src s' = hdr_src bs \<and> current_iphdr_dest s' = hdr_dest bs \<and> ip_id s' = ip_id s \<and> ip.more s' = ip.more s"
    using tr by (intro exI [of _ ys] exI [of _ fl'] exI [of _ s']) (simp add: s'_def set_pst_def)
qed

lemma ntohs_htons [simp]: "lwip_ntohs (lwip_htons w) = w"
proof -
  have "unat w div 256 < 256" using div_le_mono [OF u16_le, of w 256] by simp
  then have "(256 * (unat w mod 256) + unat w div 256) mod 256 = unat w div 256"
    "(256 * (unat w mod 256) + unat w div 256) div 256 = unat w mod 256" by simp_all
  then have "unat (lwip_htons (lwip_htons w)) = unat w" by (simp add: unat_htons)
  then show ?thesis by (simp add: lwip_ntohs_def word_unat_eq_iff)
qed

text \<open>The fields of a header that \<^verbatim>\<open>ip_output_if\<close> wrote.\<close>

lemma ip_hdr_fields:
  fixes tos ttl proto :: u8 and len id' :: u16 and src dest :: u32 and xs :: "u8 list"
  defines "bs \<equiv> ip_hdr tos len id' ttl proto src dest @ xs"
  shows "hdr_len bs = 20" "drop_bit 4 (bs ! 0) = 4" "ip_len bs = unat len" "hdr_src bs = src" "hdr_dest bs = dest" "\<not> fragment bs"
    "bs ! 9 = proto" "NOT (oc_sum (take 20 bs)) = 0"
proof -
  obtain ck where bs: "bs = ip_hdr0 tos len id' ttl proto ck src dest @ xs" by (simp add: bs_def ip_hdr_def)
  show "hdr_len bs = 20" "drop_bit 4 (bs ! 0) = 4" "bs ! 9 = proto"
    by (simp_all add: bs ip_hdr0_def hdr_len_def u16_bytes_def)
  show "ip_len bs = unat len" by (simp add: bs ip_len_def ip_hdr0_def u16_bytes_def le16_u16_bytes)
  show "hdr_src bs = src" "hdr_dest bs = dest"
    by (simp_all add: bs hdr_src_def hdr_dest_def ip_hdr0_def u16_bytes_def ip_of_addr)
  show "\<not> fragment bs" by (simp add: bs fragment_def ip_hdr0_def u16_bytes_def le16_def)
  have "take 20 bs = ip_hdr tos len id' ttl proto src dest" by (simp add: bs_def)
  moreover have "NOT (oc_sum (ip_hdr tos len id' ttl proto src dest)) = 0"
    using ip_hdr_verifies [of 0 tos len id' ttl proto src dest] by (simp add: alg2.inet_chksum_spec)
  ultimately show "NOT (oc_sum (take 20 bs)) = 0" by simp
qed

section \<open>Properties\<close>

text \<open>A host for the witnesses: one interface with the address 192.168.2.1, a packet of 4 bytes with room in front.\<close>

definition ex_nif :: "u32 \<Rightarrow> u8 \<Rightarrow> nat option \<Rightarrow> nif" where
  "ex_nif a k nx = \<lparr>nif_flags = 0x33, nif_ip_addr = a, nif_netmask = 0x00FFFFFF, nif_gw = 0, nif_hwaddr = [2, 0, 0, 0, 0, k],
     nif_id = 1, nif_mtu = 1500, nif_name = (101, 48), nif_num = 0, nif_next = nx\<rparr>"

definition ex_ip :: "pst \<Rightarrow> ip" where
  "ex_ip st = \<lparr>net_arp = (arp_init st)\<lparr>arp_table := \<lparr>e_q = None, e_ipaddr = 0x0202A8C0, e_netif = 1, e_ethaddr = [2, 0, 0, 0, 0, 2],
       e_state = ETHARP_STATE_STABLE, e_ctime = 0\<rparr> # tl (arp_table (arp_init st))\<rparr>,
     nifs = (\<lambda>_. ex_nif 0x0102A8C0 1 None), netif_list = Some 1, netif_default = Some 1, netif_num = 1,
     ip_id = 7, current_netif = None, current_header = None, current_iphdr_src = 0, current_iphdr_dest = 0\<rparr>"

definition ex_tx :: pst where
  "ex_tx = ex_st\<lparr>pbufs := (pbufs ex_st)(600 := ex_pbuf None 700 4 4)\<rparr>"

lemma ex_tx_facts: "packet ex_tx (Some 600) [600]" "room ex_cfg ex_tx 600 [] 54" "pst_of (ex_ip st) = st" "total ex_tx [600] = 4"
  "nif_chain (ex_ip st') [1]"
  by (simp_all add: packet_def ex_tx_def ex_pbuf_def room_def SIZEOF_STRUCT_PBUF_def ex_facts(7) ex_ip_def arp_init_def
      nif_chain_def ex_nif_def)

text \<open>Property C29: \<^verbatim>\<open>ip_output_if\<close> puts a header of 20 bytes in front of the packet: version 4, the total length, the next
  identification, no fragment bits, the protocol, the addresses and a checksum that verifies; the data behind
  it is unchanged, and the result goes to \<^verbatim>\<open>ip_frag\<close> when it is longer than the MTU of the interface and to
  \<^verbatim>\<open>netif->output\<close> otherwise.  Without room for the header nothing is sent and the error is \<^verbatim>\<open>ERR_BUF\<close>.\<close>

theorem ip_output_if_packet:
  assumes "packet (pst_of s) (Some p) (p # rest)" and "p_type (pbufs (pst_of s) p) \<in> {PBUF_RAM, PBUF_POOL}"
    and "len = total (pst_of s) (p # rest)"
  shows "(room c (pst_of s) p rest IP_HLEN \<longrightarrow> (\<exists>s1. ip_output_if c out frag p src (Some d) ttl tos proto n s =
      on_arp ((if nif_mtu (nifs s n) \<noteq> 0 \<and> len + 20 > nif_mtu (nifs s n) then frag else out) (arp_nif s n) p d) s1 \<and>
      packet (pst_of s1) (Some p) (p # rest) \<and> ip_id s1 = ip_id s + 1 \<and> arp_table (net_arp s1) = arp_table (net_arp s) \<and>
      contents (pst_of s1) (p # rest) =
        ip_hdr tos (of_nat (len + 20)) (ip_id s) ttl proto (if src = 0 then nif_ip_addr (nifs s n) else src) d @ contents (pst_of s) (p # rest))) \<and>
    inet_chksum lwip_standard_chksum2 a (ip_hdr tos (of_nat (len + 20)) (ip_id s) ttl proto (if src = 0 then nif_ip_addr (nifs s n) else src) d) = 0 \<and>
    (p_payload (pbufs (pst_of s) p) < p + SIZEOF_STRUCT_PBUF c + 20 \<longrightarrow>
      ip_output_if c out frag p src (Some d) ttl tos proto n s = Some (ERR_BUF, s))"
proof (intro conjI impI)
  assume r: "room c (pst_of s) p rest IP_HLEN"
  define s1 where "s1 = ip_out_state p src d ttl tos proto n s"
  have r': "room c (pst_of s) p rest (IP_HLEN + 0)" using r by simp
  note o1 = ip_out_packet(1) [OF assms(1) r', of out frag src d ttl tos proto n, folded s1_def]
  note o = ip_out_packet(2-5) [OF assms(1) r', of src d ttl tos proto n, folded s1_def]
  have fr: "nifs s1 = nifs s" "ip_id s1 = ip_id s + 1" "arp_table (net_arp s1) = arp_table (net_arp s)"
    by (simp_all add: s1_def ip_out_state_def)
  have t: "p_tot_len (pbufs (pst_of s1) p) = len + 20"
    using o(4) tot_len_packet [OF assms(1)] assms(3) by (simp add: IP_HLEN_def)
  have "arp_nif s1 n = arp_nif s n" by (simp add: arp_nif_def fr)
  with o1 have "ip_output_if c out frag p src (Some d) ttl tos proto n s =
      on_arp ((if nif_mtu (nifs s n) \<noteq> 0 \<and> len + 20 > nif_mtu (nifs s n) then frag else out) (arp_nif s n) p d) s1"
    unfolding ip_send_def fr(1) t by simp
  moreover have "contents (pst_of s1) (p # rest) = ip_hdr tos (of_nat (len + 20)) (ip_id s) ttl proto
      (if src = 0 then nif_ip_addr (nifs s n) else src) d @ contents (pst_of s) (p # rest)"
    unfolding o(2) assms(3) by (simp only: ip_hdr_of_def IP_HLEN_def src_of_def ip_addr_isany_def)
  ultimately show "\<exists>s1. ip_output_if c out frag p src (Some d) ttl tos proto n s =
      on_arp ((if nif_mtu (nifs s n) \<noteq> 0 \<and> len + 20 > nif_mtu (nifs s n) then frag else out) (arp_nif s n) p d) s1 \<and>
      packet (pst_of s1) (Some p) (p # rest) \<and> ip_id s1 = ip_id s + 1 \<and> arp_table (net_arp s1) = arp_table (net_arp s) \<and>
      contents (pst_of s1) (p # rest) =
        ip_hdr tos (of_nat (len + 20)) (ip_id s) ttl proto (if src = 0 then nif_ip_addr (nifs s n) else src) d @ contents (pst_of s) (p # rest)"
    using o(1) fr by blast
next
  assume "p_payload (pbufs (pst_of s) p) < p + SIZEOF_STRUCT_PBUF c + 20"
  then have "pbuf_header c (Some p) (int IP_HLEN) (pst_of s) = (1, pst_of s)"
    using assms(2) by (auto simp: pbuf_header_def Let_def IP_HLEN_def)
  then show "ip_output_if c out frag p src (Some d) ttl tos proto n s = Some (ERR_BUF, s)"
    by (simp add: ip_output_if_def)
qed (rule ip_hdr_verifies)

lemma ip_output_if_packet_witness:
  "\<exists>s1. ip_output_if ex_cfg (\<lambda>_ _ _ a. Some (ERR_OK, a)) (\<lambda>_ _ _ a. None) 600 0 (Some 0x0202A8C0) 255 0 17 1 (ex_ip ex_tx) =
      on_arp (\<lambda>a. Some (ERR_OK, a)) s1 \<and> take 2 (contents (pst_of s1) [600]) = [0x45, 0]"
proof -
  have "room ex_cfg ex_tx 600 [] IP_HLEN" by (rule room_less [OF ex_tx_facts(2)]) (simp add: IP_HLEN_def)
  moreover have "nif_mtu (nifs (ex_ip ex_tx) 1) = 1500" "p_type (pbufs ex_tx 600) = PBUF_POOL" "len_of ex_tx 600 = 4"
    by (simp_all add: ex_ip_def ex_nif_def ex_tx_def ex_pbuf_def)
  moreover have "take 2 (ip_hdr 0 l i t q a b @ xs) = [0x45, 0]" for l i t q a b xs by (simp add: ip_hdr_def ip_hdr0_def)
  ultimately show ?thesis
    using ip_output_if_packet [of "ex_ip ex_tx" 600 "[]" 4 ex_cfg "\<lambda>_ _ _ a. Some (ERR_OK, a)" "\<lambda>_ _ _ a. None" 0 "0x0202A8C0" 255 0 17 1 0]
    by (auto simp: ex_tx_facts simp del: contents_simps length_contents)
qed

lemma ip_free_returns:
  assumes "packet (pst_of s) (Some p) xs" "held (pst_of s) xs fl"
  shows "\<exists>s'. ip_free c env p s = Some s'"
  using free_pbuf_returns [OF packetD(1) [OF assms(1)] assms(2)] by (auto simp: ip_free_def)

lemma ip_input_short:
  assumes pk: "packet (pst_of s) (Some p) (p # rest)" and l: "0 < len_of (pst_of s) p"
    and h: "len_of (pst_of s) p < hdr_len (contents (pst_of s) (p # rest))"
  shows "ip_input c env up p inp s = ip_free c env p s"
proof -
  have "get_hdr p 0 1 s = take 1 (contents (pst_of s) (p # rest))"
    using get_hdr_bytes [OF pk, of 0 1] l by simp
  moreover have "0 < length (contents (pst_of s) (p # rest))" using l by simp
  ultimately have "get_hdr p 0 1 s ! 0 = contents (pst_of s) (p # rest) ! 0" by (simp del: contents_simps)
  with h show ?thesis by (simp add: ip_input_def hdr_len_def Let_def del: contents_simps)
qed

lemma ip_input_outcome:
  assumes "packet (pst_of s) (Some p) (p # rest)" and "held (pst_of s) (p # rest) fl"
    and "set (p # rest) \<inter> {a. p_type (pbufs (pst_of s) a) = PBUF_RAM} = {}" and "nif_chain s xs"
    and "bs = contents (pst_of s) (p # rest)" and "l = len_of (pst_of s) p" and "0 < l" and "hdr_len bs \<le> l \<longrightarrow> 20 \<le> l"
  shows "\<exists>ys s' f1 f2. packet (pst_of s') (Some p) ys \<and> contents (pst_of s') ys = take (ip_len bs) bs \<and>
    current_iphdr_src s' = hdr_src bs \<and> current_iphdr_dest s' = hdr_dest bs \<and> nifs s' = nifs s \<and>
    ip_free c env p s = Some f1 \<and> ip_free c env p s' = Some f2 \<and>
    ip_input c env up p inp s =
      (if \<not> ip_ok l bs then Some f1
       else if bad_source (hdr_src bs) (nifs s inp) \<or> \<not> for_us (hdr_dest bs) inp xs s then Some f2
       else if fragment bs then do {
         (q, s) \<leftarrow> ip_reass_fn up p s';
         case q of None \<Rightarrow> Some s | Some p \<Rightarrow> ip_deliver c env up p inp s }
       else ip_deliver c env up p inp s')"
proof -
  have ty: "\<forall>a \<in> set (p # rest). p_type (pbufs (pst_of s) a) \<noteq> PBUF_RAM" using assms(3) by auto
  have I: "\<not> ip_ok l bs \<Longrightarrow> ip_input c env up p inp s = ip_free c env p s"
    using ip_input_short [OF assms(1)] ip_input_cases(1) [OF assms(1) _ assms(2) ty assms(4)] assms(7,8)
    unfolding assms(5,6) by (cases "20 \<le> len_of (pst_of s) p") (auto simp: not_le simp del: contents_simps)
  from ip_free_returns [OF assms(1,2)] obtain f1 where f1: "ip_free c env p s = Some f1" by blast
  show ?thesis
  proof (cases "ip_ok l bs")
    case False
    from trim_packet [OF assms(1,2) ty, of "min (ip_len bs) (total (pst_of s) (p # rest))" c env] obtain ys fl' st' where
      t: "packet st' (Some p) ys" "contents st' ys = take (min (ip_len bs) (total (pst_of s) (p # rest))) bs" "held st' ys fl'"
      unfolding assms(5) by auto
    define s' where "s' = (set_pst st' s)\<lparr>current_iphdr_dest := hdr_dest bs, current_iphdr_src := hdr_src bs\<rparr>"
    have "contents st' ys = take (ip_len bs) bs"
      unfolding t(2) using assms(5) by (metis length_contents min_def take_all_iff linorder_le_cases order_refl)
    moreover from ip_free_returns [of s' p ys fl' c env] t obtain f2 where "ip_free c env p s' = Some f2" by (auto simp: s'_def)
    ultimately show ?thesis using False t f1 I
      by (intro exI [of _ ys] exI [of _ s'] exI [of _ f1] exI [of _ f2]) (simp add: s'_def)
  next
    case True
    then have l: "20 \<le> len_of (pst_of s) p" using assms(6,8) by (simp add: ip_ok_def)
    from ip_input_cases(2) [OF assms(1) l assms(2) ty assms(4), folded assms(5,6), OF True, of c env up inp]
    obtain ys fl' s' where s': "ip_input c env up p inp s = ip_dispose c env up p inp xs bs s'"
      "packet (pst_of s') (Some p) ys" "contents (pst_of s') ys = take (ip_len bs) bs" "held (pst_of s') ys fl'" "nifs s' = nifs s"
      "current_iphdr_src s' = hdr_src bs" "current_iphdr_dest s' = hdr_dest bs" by blast
    from ip_free_returns [OF s'(2,4)] obtain f2 where f2: "ip_free c env p s' = Some f2" by blast
    have "for_us d inp xs s' = for_us d inp xs s" for d by (simp add: for_us_def s'(5))
    with s' f1 f2 True show ?thesis
      by (intro exI [of _ ys] exI [of _ s'] exI [of _ f1] exI [of _ f2]) (simp add: ip_dispose_def)
  qed
qed

text \<open>Property C30: \<^verbatim>\<open>ip_input\<close> throws away, and only frees, a packet that is not version 4, whose header length
  (the IHL) is more than the first pbuf holds, whose total length is more than the packet, or whose header checksum is
  wrong.  These are all its tests of the form: it does not test that the header length is at least 20 nor that the total
  length is at least the header length.  Every other packet it trims to the total length of its header; then it frees
  those that come from a broadcast or multicast address or are not for one of the interfaces that are up, gives fragments
  to the reassembly and all others to the protocols, with the addresses of the header in
  \<^verbatim>\<open>current_iphdr_src\<close> and \<^verbatim>\<open>current_iphdr_dest\<close>.  The packet is in pool or
  reference pbufs, the first is not empty, and it holds 20 bytes if it holds the header.\<close>

theorem ip_input_spec:
  assumes "packet (pst_of s) (Some p) (p # rest)" and "held (pst_of s) (p # rest) fl"
    and "set (p # rest) \<inter> {a. p_type (pbufs (pst_of s) a) = PBUF_RAM} = {}" and "nif_chain s xs"
    and "bs = contents (pst_of s) (p # rest)" and "l = len_of (pst_of s) p" and "0 < l" and "hdr_len bs \<le> l \<longrightarrow> 20 \<le> l"
  shows "\<exists>ys s' f1 f2. packet (pst_of s') (Some p) ys \<and> contents (pst_of s') ys = take (ip_len bs) bs \<and>
    current_iphdr_src s' = hdr_src bs \<and> current_iphdr_dest s' = hdr_dest bs \<and> nifs s' = nifs s \<and>
    ip_free c env p s = Some f1 \<and> ip_free c env p s' = Some f2 \<and>
    ip_input c env up p inp s =
      (if drop_bit 4 (bs ! 0) \<noteq> 4 \<or> l < hdr_len bs \<or> length bs < ip_len bs \<or> NOT (oc_sum (take (hdr_len bs) bs)) \<noteq> 0
       then Some f1
       else if bad_source (hdr_src bs) (nifs s inp) \<or> \<not> for_us (hdr_dest bs) inp xs s then Some f2
       else if fragment bs then do {
         (q, s) \<leftarrow> ip_reass_fn up p s';
         case q of None \<Rightarrow> Some s | Some p \<Rightarrow> ip_deliver c env up p inp s }
       else ip_deliver c env up p inp s')"
proof -
  have bad: "drop_bit 4 (bs ! 0) \<noteq> 4 \<or> l < hdr_len bs \<or> length bs < ip_len bs \<or> NOT (oc_sum (take (hdr_len bs) bs)) \<noteq> 0 \<longleftrightarrow>
      \<not> ip_ok l bs" by (auto simp: ip_ok_def)
  show ?thesis unfolding bad by (rule ip_input_outcome [OF assms])
qed

text \<open>A host that has received the bytes \<open>f\<close>.\<close>

definition ex_rx :: "u8 list \<Rightarrow> pst" where
  "ex_rx f = ex_st\<lparr>pbufs := (pbufs ex_st)(600 := ex_pbuf None 640 (length f) (length f)),
     payload_bytes := store_bytes 640 f (payload_bytes ex_st)\<rparr>"

lemma ex_rx_facts:
  assumes "length f < 65536"
  shows "packet (ex_rx f) (Some 600) [600]" "contents (ex_rx f) [600] = f" "held (ex_rx f) [600] ex_lists"
    "len_of (ex_rx f) 600 = length f" "p_type (pbufs (ex_rx f) 600) = PBUF_POOL" "p_payload (pbufs (ex_rx f) 600) = 640"
proof -
  show "packet (ex_rx f) (Some 600) [600]" "len_of (ex_rx f) 600 = length f" "p_type (pbufs (ex_rx f) 600) = PBUF_POOL"
    "p_payload (pbufs (ex_rx f) 600) = 640"
    using assms by (simp_all add: packet_def ex_rx_def ex_pbuf_def)
  show "contents (ex_rx f) [600] = f"
    by (intro nth_equalityI) (auto simp: ex_rx_def ex_pbuf_def data_of_def load_bytes_def store_bytes_nth)
  show "held (ex_rx f) [600] ex_lists"
    using ex_facts(5) by (simp add: held_def ex_rx_def no_custom_def ex_pbuf_def)
qed

definition ex_up :: "ip upper" where
  "ex_up = \<lparr>raw_input_fn = \<lambda>_ _ s. Some (True, s), udp_input_fn = \<lambda>_ _. Some, tcp_input_fn = \<lambda>_ _. Some,
     icmp_input_fn = \<lambda>_ _. Some, dest_unreach_fn = \<lambda>_. Some, ip_reass_fn = \<lambda>_ s. Some (None, s)\<rparr>"

lemma ex_ip_accepts: "for_us 0x0102A8C0 1 [1] (ex_ip st)" "\<not> bad_source 0x0202A8C0 (nifs (ex_ip st) 1)"
  by (simp_all add: for_us_def accepts_def ex_ip_def ex_nif_def netif_is_up_def NETIF_FLAG_UP_def ip_addr_isany_def
      bad_source_def ip4_addr_isbroadcast_def ip_addr_ismulticast_def netif.truncate_def ip_addr_netcmp_def)

lemma ip_input_spec_witness:
  "\<exists>s' ys. ip_input ex_cfg ex_env ex_up 600 1 (ex_ip (ex_rx (ip_hdr 0 24 7 255 17 0x0202A8C0 0x0102A8C0 @ [1, 2, 3, 4] @ [0, 0]))) =
     ip_deliver ex_cfg ex_env ex_up 600 1 s' \<and>
     contents (pst_of s') ys = ip_hdr 0 24 7 255 17 0x0202A8C0 0x0102A8C0 @ [1, 2, 3, 4]"
proof -
  let ?f = "ip_hdr 0 24 7 255 17 0x0202A8C0 0x0102A8C0 @ [1, 2, 3, 4] @ [0, 0]"
  let ?s = "ex_ip (ex_rx ?f)"
  have l: "length ?f = 26" by simp
  then have "length ?f < 65536" by simp
  note F = ex_rx_facts [OF this]
  note H = ip_hdr_fields [of 0 24 7 255 17 "0x0202A8C0" "0x0102A8C0" "[1, 2, 3, 4] @ [0, 0]"]
  have ok: "ip_ok (length ?f) ?f" unfolding ip_ok_def H using l by (simp add: H(8) [simplified])
  have p: "pst_of ?s = ex_rx ?f" by (rule ex_tx_facts(3))
  have "packet (pst_of ?s) (Some 600) [600]" "held (pst_of ?s) [600] ex_lists"
    "set [600] \<inter> {a. p_type (pbufs (pst_of ?s) a) = PBUF_RAM} = {}" "?f = contents (pst_of ?s) [600]"
    and l26: "0 < len_of (pst_of ?s) 600" "hdr_len ?f \<le> len_of (pst_of ?s) 600 \<longrightarrow> 20 \<le> len_of (pst_of ?s) 600"
    unfolding p using F l by (simp_all del: contents_simps)
  from ip_input_spec [OF this(1-3) ex_tx_facts(5) this(4) refl l26, of ex_cfg ex_env ex_up 1] obtain ys s' f1 f2 where
    s': "contents (pst_of s') ys = take (ip_len ?f) ?f" and
    e: "ip_input ex_cfg ex_env ex_up 600 1 ?s =
      (if drop_bit 4 (?f ! 0) \<noteq> 4 \<or> len_of (pst_of ?s) 600 < hdr_len ?f \<or> length ?f < ip_len ?f \<or>
          NOT (oc_sum (take (hdr_len ?f) ?f)) \<noteq> 0 then Some f1
       else if bad_source (hdr_src ?f) (nifs ?s 1) \<or> \<not> for_us (hdr_dest ?f) 1 [1] ?s then Some f2
       else if fragment ?f then do {
         (q, s) \<leftarrow> ip_reass_fn ex_up 600 s';
         case q of None \<Rightarrow> Some s | Some p \<Rightarrow> ip_deliver ex_cfg ex_env ex_up p 1 s }
       else ip_deliver ex_cfg ex_env ex_up 600 1 s')" by blast
  have "ip_input ex_cfg ex_env ex_up 600 1 ?s = ip_deliver ex_cfg ex_env ex_up 600 1 s'"
    unfolding e p F(4) H using ok ex_ip_accepts H(6) by simp
  moreover have "contents (pst_of s') ys = ip_hdr 0 24 7 255 17 0x0202A8C0 0x0102A8C0 @ [1, 2, 3, 4]"
    unfolding s' H by simp
  ultimately show ?thesis by blast
qed

end
