(* ===== verification/Ip_Link.thy ===== *)
theory Ip_Link
  imports Ip_Spec
begin

text \<open>
  IP packets over a link.  The locale \<open>ip_link\<close> is what \<^verbatim>\<open>ip_output_if\<close> relies on of \<^verbatim>\<open>netif->output\<close>: on a link that is
  ready for the destination the packet leaves as one frame, a link header and the packet.  The function
  \<^verbatim>\<open>etharp_output\<close> has this contract, and a packet sent over Ethernet is what the receiver's \<^verbatim>\<open>ip_input\<close> delivers.
\<close>

section \<open>The contract\<close>

locale ip_link =
  fixes c :: pbuf_cfg and out :: output_fn and hlen :: nat
    and ready :: "arp_netif \<Rightarrow> u32 \<Rightarrow> arp \<Rightarrow> bool" and frame_hdr :: "arp_netif \<Rightarrow> u32 \<Rightarrow> arp \<Rightarrow> u8 list"
    and lo :: "u8 list \<Rightarrow> err_t"
  assumes table_only: "arp_table a' = arp_table a \<Longrightarrow> etharp_cached_entry a' = etharp_cached_entry a \<Longrightarrow>
      ready m d a' = ready m d a \<and> frame_hdr m d a' = frame_hdr m d a"
    and sends: "ready m d a \<Longrightarrow> packet (a_st a) (Some p) (p # rest) \<Longrightarrow> room c (a_st a) p rest hlen \<Longrightarrow>
      \<exists>a'. out m p d a = Some (lo (frame_hdr m d a @ contents (a_st a) (p # rest)), a') \<and>
        a_sent a' = a_sent a @ [frame_hdr m d a @ contents (a_st a) (p # rest)] \<and> arp_table a' = arp_table a"
begin

lemma ip_output_if_sends:
  fixes src :: u32 and ttl tos proto :: u8
  assumes pk: "packet (pst_of s) (Some p) (p # rest)" and r: "room c (pst_of s) p rest (IP_HLEN + hlen)"
    and rd: "ready (arp_nif s n) d (net_arp s)"
    and mtu: "nif_mtu (nifs s n) = 0 \<or> total (pst_of s) (p # rest) + IP_HLEN \<le> nif_mtu (nifs s n)"
  defines "f \<equiv> frame_hdr (arp_nif s n) d (net_arp s) @
    ip_hdr_of src d ttl tos proto n (total (pst_of s) (p # rest)) s @ contents (pst_of s) (p # rest)"
  shows "\<exists>s'. ip_output_if c out frag p src (Some d) ttl tos proto n s = Some (lo f, s') \<and>
    a_sent (net_arp s') = a_sent (net_arp s) @ [f] \<and> arp_table (net_arp s') = arp_table (net_arp s) \<and>
    nifs s' = nifs s \<and> netif_list s' = netif_list s \<and> ip_id s' = ip_id s + 1"
proof -
  define s1 where "s1 = ip_out_state p src d ttl tos proto n s"
  note o1 = ip_out_packet(1) [OF pk r, of out frag src d ttl tos proto n, folded s1_def]
  note o = ip_out_packet(2-5) [OF pk r, of src d ttl tos proto n, folded s1_def]
  have fr: "nifs s1 = nifs s" "netif_list s1 = netif_list s" "ip_id s1 = ip_id s + 1" "a_sent (net_arp s1) = a_sent (net_arp s)"
    "arp_table (net_arp s1) = arp_table (net_arp s)" "etharp_cached_entry (net_arp s1) = etharp_cached_entry (net_arp s)"
    by (simp_all add: s1_def ip_out_state_def)
  then have an: "arp_nif s1 n = arp_nif s n" by (simp add: arp_nif_def)
  note tb = table_only [OF fr(5,6), of "arp_nif s n" d]
  have "p_tot_len (pbufs (pst_of s1) p) = total (pst_of s) (p # rest) + IP_HLEN"
    using o(4) tot_len_packet [OF pk] by simp
  then have "\<not> (nif_mtu (nifs s1 n) \<noteq> 0 \<and> p_tot_len (pbufs (pst_of s1) p) > nif_mtu (nifs s1 n))"
    using mtu fr(1) by auto
  then have snd: "ip_send out frag p d n s1 = on_arp (out (arp_nif s n) p d) s1" by (simp only: ip_send_def if_False an)
  have f: "frame_hdr (arp_nif s n) d (net_arp s1) @ contents (a_st (net_arp s1)) (p # rest) = f"
    using o(2) tb by (simp add: f_def)
  from sends [of "arp_nif s n" d "net_arp s1" p rest] tb rd o(1,3) obtain a' where
    "out (arp_nif s n) p d (net_arp s1) = Some (lo f, a')" "a_sent a' = a_sent (net_arp s1) @ [f]" "arp_table a' = arp_table (net_arp s1)"
    unfolding f by blast
  then show ?thesis using o1 snd fr by (simp add: on_arp_def)
qed

text \<open>The same through the routing table.\<close>

lemma ip_output_sends:
  assumes pk: "packet (pst_of s) (Some p) (p # rest)" and r: "room c (pst_of s) p rest (IP_HLEN + hlen)"
    and rt: "ip_route d s = Some (Some n)" and rd: "ready (arp_nif s n) d (net_arp s)"
    and mtu: "nif_mtu (nifs s n) = 0 \<or> total (pst_of s) (p # rest) + IP_HLEN \<le> nif_mtu (nifs s n)"
  shows "\<exists>r s'. ip_output c out frag p src d ttl tos proto s = Some (r, s') \<and>
    a_sent (net_arp s') = a_sent (net_arp s) @ [frame_hdr (arp_nif s n) d (net_arp s) @
      ip_hdr_of src d ttl tos proto n (total (pst_of s) (p # rest)) s @ contents (pst_of s) (p # rest)]"
  using ip_output_if_sends [OF pk r rd mtu, of frag src ttl tos proto] rt by (auto simp: ip_output_def)

end

section \<open>Ethernet\<close>

text \<open>The table entry the unicast branch uses, and the Ethernet address a packet for \<open>d\<close> goes to when no request has to be
  sent for it.\<close>

definition arp_entry_for :: "u32 \<Rightarrow> arp \<Rightarrow> nat option" where
  "arp_entry_for d a =
     (let e = arp_table a ! etharp_cached_entry a
      in if stable (e_state e) \<and> d = e_ipaddr e then Some (etharp_cached_entry a) else find_stable d (arp_table a) 0)"

definition next_hop :: "arp_netif \<Rightarrow> u32 \<Rightarrow> u32 option" where
  "next_hop m d =
     (if \<not> ip_addr_netcmp d (nif_ip_addr m) (nif_netmask m) \<and> \<not> ip_addr_islinklocal d then
        if ip_addr_isany (nif_gw m) then None else Some (nif_gw m)
      else Some d)"

definition link_dest :: "arp_netif \<Rightarrow> u32 \<Rightarrow> arp \<Rightarrow> u8 list option" where
  "link_dest m d a =
     (if ip4_addr_isbroadcast d (netif.truncate m) then Some ethbroadcast
      else if ip_addr_ismulticast d then Some (multicast_addr d)
      else do {
        h \<leftarrow> next_hop m d; i \<leftarrow> arp_entry_for h a;
        let e = arp_table a ! i;
        if e_state e = ETHARP_STATE_STABLE \<and> e_ctime e \<ge> ARP_AGE_REREQUEST_USED then None else Some (e_ethaddr e) })"

definition eth_ready :: "arp_netif \<Rightarrow> u32 \<Rightarrow> arp \<Rightarrow> bool" where
  "eth_ready m d a \<longleftrightarrow> (\<exists>h. link_dest m d a = Some h \<and> length h = 6) \<and> length (nif_hwaddr m) = 6"

definition eth_hdr :: "arp_netif \<Rightarrow> u32 \<Rightarrow> arp \<Rightarrow> u8 list" where
  "eth_hdr m d a = the (link_dest m d a) @ nif_hwaddr m @ [0x08, 0x00]"

lemma link_dest_cong:
  "arp_table a' = arp_table a \<Longrightarrow> etharp_cached_entry a' = etharp_cached_entry a \<Longrightarrow> link_dest m d a' = link_dest m d a"
  by (simp add: link_dest_def arp_entry_for_def Let_def cong: if_cong)

lemma output_unicast_known:
  assumes i: "arp_entry_for h a = Some i"
    and e: "\<not> (e_state (arp_table a ! i) = ETHARP_STATE_STABLE \<and> e_ctime (arp_table a ! i) \<ge> ARP_AGE_REREQUEST_USED)"
  shows "output_unicast c env lo m q h a =
    etharp_send_ip lo q (nif_hwaddr m) (e_ethaddr (arp_table a ! i)) (a\<lparr>etharp_cached_entry := i\<rparr>)"
proof -
  have "etharp_output_to_arp_index c env lo m q i (a\<lparr>etharp_cached_entry := i\<rparr>) =
      etharp_send_ip lo q (nif_hwaddr m) (e_ethaddr (arp_table a ! i)) (a\<lparr>etharp_cached_entry := i\<rparr>)"
    using e by (auto simp: etharp_output_to_arp_index_def Let_def)
  moreover have "a\<lparr>etharp_cached_entry := i\<rparr> = a" if "i = etharp_cached_entry a" using that by simp
  ultimately show ?thesis using i
    by (auto simp: output_unicast_def arp_entry_for_def Let_def split: if_splits)
qed

lemma eth_sends:
  assumes rd: "eth_ready m d a" and pk: "packet (a_st a) (Some p) (p # rest)" and r: "room c (a_st a) p rest 14"
  shows "\<exists>a'. etharp_output c env lo m p d a = Some (lo (eth_hdr m d a @ contents (a_st a) (p # rest)), a') \<and>
    a_sent a' = a_sent a @ [eth_hdr m d a @ contents (a_st a) (p # rest)] \<and> arp_table a' = arp_table a"
proof -
  from rd obtain h where h: "link_dest m d a = Some h" "length h = 6" "length (nif_hwaddr m) = 6" by (auto simp: eth_ready_def)
  define a1 where "a1 = a\<lparr>a_st := grow p 14 (a_st a)\<rparr>"
  note g = header_grow [OF pk r]
  have l: "14 \<le> len_of (a_st a1) p" by (simp add: a1_def)
  have pk1: "packet (a_st a1) (Some p) (p # rest)" using g(2) by (simp add: a1_def)
  have "room c (a_st a1) p rest 0" using g(4) [of 0 14] r by (simp add: a1_def)
  note sep = room_sep [OF this]
  have C: "drop 14 (contents (a_st a1) (p # rest)) = contents (a_st a) (p # rest)"
    using g(3) by (simp add: a1_def del: contents_simps)
  have snd: "\<exists>a'. etharp_send_ip lo p (nif_hwaddr m) h a2 = Some (lo (eth_hdr m d a @ contents (a_st a) (p # rest)), a') \<and>
      a_sent a' = a_sent a @ [eth_hdr m d a @ contents (a_st a) (p # rest)] \<and> arp_table a' = arp_table a"
    if "a_st a2 = a_st a1" "a_sent a2 = a_sent a" "arp_table a2 = arp_table a" for a2
    using send_ip_frame_bytes [of a2 p rest h "nif_hwaddr m" lo] that pk1 sep l h C
    by (simp add: eth_hdr_def del: contents_simps)
  have hd: "pbuf_header c (Some p) 14 (a_st a) = (0, grow p 14 (a_st a))" using g(1) by simp
  have eo: "etharp_output c env lo m p d a =
      (if ip4_addr_isbroadcast d (netif.truncate m) then etharp_send_ip lo p (nif_hwaddr m) ethbroadcast a1
       else if ip_addr_ismulticast d then etharp_send_ip lo p (nif_hwaddr m) (multicast_addr d) a1
       else case next_hop m d of None \<Rightarrow> Some (ERR_RTE, a1) | Some k \<Rightarrow> output_unicast c env lo m p k a1)"
    by (simp add: etharp_output_def hd a1_def next_hop_def)
  show ?thesis
  proof (cases "ip4_addr_isbroadcast d (netif.truncate m) \<or> ip_addr_ismulticast d")
    case True
    with h(1) eo have "etharp_output c env lo m p d a = etharp_send_ip lo p (nif_hwaddr m) h a1"
      by (auto simp: link_dest_def)
    with snd [of a1] show ?thesis by (simp add: a1_def)
  next
    case False
    with h(1) obtain k i where k: "next_hop m d = Some k" "arp_entry_for k a = Some i"
      "\<not> (e_state (arp_table a ! i) = ETHARP_STATE_STABLE \<and> e_ctime (arp_table a ! i) \<ge> ARP_AGE_REREQUEST_USED)"
      "e_ethaddr (arp_table a ! i) = h"
      by (auto simp: link_dest_def Let_def elim!: bind_SomeE split: if_splits)
    have "arp_entry_for k a1 = Some i" using k(2) by (auto simp: arp_entry_for_def a1_def Let_def split: if_splits)
    from output_unicast_known [OF this] k False eo
    have "etharp_output c env lo m p d a = etharp_send_ip lo p (nif_hwaddr m) h (a1\<lparr>etharp_cached_entry := i\<rparr>)"
      by (simp add: a1_def)
    with snd [of "a1\<lparr>etharp_cached_entry := i\<rparr>"] show ?thesis by (simp add: a1_def)
  qed
qed

interpretation eth: ip_link c "etharp_output c env lo" 14 eth_ready eth_hdr lo for c env lo
proof
  show "eth_ready m d a' = eth_ready m d a \<and> eth_hdr m d a' = eth_hdr m d a"
    if "arp_table a' = arp_table a" "etharp_cached_entry a' = etharp_cached_entry a" for a a' m d
    using link_dest_cong [OF that] by (simp add: eth_ready_def eth_hdr_def)
qed (rule eth_sends)

section \<open>Receiving\<close>

text \<open>The Ethernet layer passes the packet behind its header on.\<close>

lemma mark_multicast_pst:
  "\<exists>fl. a_st (mark_multicast p a) = upd_pbuf p (\<lambda>b. b\<lparr>p_flags := fl\<rparr>) (a_st a) \<and>
    (p_flags (pbufs (a_st a) p) AND PBUF_FLAG_IS_CUSTOM = 0 \<longrightarrow> fl AND PBUF_FLAG_IS_CUSTOM = 0)"
proof -
  let ?fl = "p_flags (pbufs (a_st a) p)"
  let ?P = "\<lambda>st. \<exists>fl. st = upd_pbuf p (\<lambda>b. b\<lparr>p_flags := fl\<rparr>) (a_st a) \<and>
    (?fl AND PBUF_FLAG_IS_CUSTOM = 0 \<longrightarrow> fl AND PBUF_FLAG_IS_CUSTOM = 0)"
  have "?P (a_st a)" by (intro exI [of _ ?fl]) (simp add: upd_pbuf_def)
  moreover have "?P (upd_pbuf p (\<lambda>b. b\<lparr>p_flags := p_flags b OR x\<rparr>) (a_st a))" if "x AND 2 = 0" for x
    using that by (intro exI [of _ "?fl OR x"])
      (simp add: upd_pbuf_def PBUF_FLAG_IS_CUSTOM_def and.commute [of _ 2] bit.conj_disj_distrib)
  from this [of PBUF_FLAG_LLMCAST] this [of PBUF_FLAG_LLBCAST]
  have "?P (upd_pbuf p (\<lambda>b. b\<lparr>p_flags := p_flags b OR PBUF_FLAG_LLMCAST\<rparr>) (a_st a))"
    "?P (upd_pbuf p (\<lambda>b. b\<lparr>p_flags := p_flags b OR PBUF_FLAG_LLBCAST\<rparr>) (a_st a))"
    by (simp_all add: PBUF_FLAG_LLMCAST_def PBUF_FLAG_LLBCAST_def)
  ultimately show ?thesis by (simp add: mark_multicast_def Let_def)
qed

lemma get_at_contents:
  assumes "k + n \<le> len_of (a_st a) p"
  shows "get_at p k n a = take n (drop k (contents (a_st a) (p # rest)))"
  using assms by (intro nth_equalityI) (auto simp: get_at_def data_of_def load_bytes_def nth_append add.assoc)

lemma packet_flags:
  fixes fl :: u8 and p :: nat
  defines "st' st \<equiv> upd_pbuf p (\<lambda>b. b\<lparr>p_flags := fl\<rparr>) st"
  shows "packet (st' st) = packet st" "contents (st' st) = contents st" "total (st' st) = total st"
proof -
  have l: "len_of (st' st) = len_of st" "links (st' st) = links st"
    "p_payload (pbufs (st' st) a) = p_payload (pbufs st a)" "p_tot_len (pbufs (st' st) a) = p_tot_len (pbufs st a)"
    "payload_bytes (st' st) = payload_bytes st" for a
    by (auto simp: st'_def)
  show t: "total (st' st) = total st" by (rule ext, rule total_cong) (simp add: st'_def)
  have "tots (st' st) = tots st" by (rule ext, rule tots_cong) (simp add: st'_def)
  then show "packet (st' st) = packet st" by (simp add: packet_def l t fun_eq_iff)
  show "contents (st' st) = contents st" by (rule ext, rule contents_cong) (simp_all add: st'_def)
qed

lemma eth_input_ip:
  assumes pk: "packet (a_st a) (Some p) (p # rest)" and l: "14 < len_of (a_st a) p"
    and q: "p + SIZEOF_STRUCT_PBUF c \<le> p_payload (pbufs (a_st a) p)" and h: "held (a_st a) (p # rest) fl"
    and ty: "take 2 (drop 12 (contents (a_st a) (p # rest))) = [0x08, 0x00]" and fl: "nif_flags m AND NETIF_FLAG_ETHARP \<noteq> 0"
  shows "\<exists>a'. ethernet_input c env lo back ip_in m p a = ip_in p a' \<and> packet (a_st a') (Some p) (p # rest) \<and>
    contents (a_st a') (p # rest) = drop 14 (contents (a_st a) (p # rest)) \<and> held (a_st a') (p # rest) fl \<and>
    len_of (a_st a') p = len_of (a_st a) p - 14 \<and> (\<forall>b. p_type (pbufs (a_st a') b) = p_type (pbufs (a_st a) b)) \<and>
    p_payload (pbufs (a_st a') p) = p_payload (pbufs (a_st a) p) + 14"
proof -
  define a1 where "a1 = mark_multicast p a"
  from mark_multicast_pst [of p a] obtain f where f: "a_st a1 = upd_pbuf p (\<lambda>b. b\<lparr>p_flags := f\<rparr>) (a_st a)"
    "p_flags (pbufs (a_st a) p) AND PBUF_FLAG_IS_CUSTOM = 0 \<longrightarrow> f AND PBUF_FLAG_IS_CUSTOM = 0"
    by (auto simp: a1_def)
  note fr = packet_flags [of p f "a_st a", folded f(1)]
  have h1: "held (a_st a1) (p # rest) fl"
    using h f(2) unfolding f(1) by (auto simp: held_def no_custom_def)
  have "14 \<le> len_of (a_st a1) p" "p + SIZEOF_STRUCT_PBUF c \<le> p_payload (pbufs (a_st a1) p)"
    using l q by (simp_all add: f(1))
  note sh = header_shrink [of "a_st a1" p rest 14 c, unfolded fr(1), OF pk this(1) _ this(2)]
  define a2 where "a2 = a1\<lparr>a_st := shrink p 14 (a_st a1)\<rparr>"
  have "get_at p 12 2 a1 = [0x08, 0x00]"
    using get_at_contents [of 12 2 a1 p rest] l ty unfolding fr(2) by (simp add: f(1))
  then have "ethernet_input c env lo back ip_in m p a = ip_in p a2"
    using l fl sh(1) by (simp add: ethernet_input_def Let_def a2_def flip: a1_def)
  moreover have "held (shrink p 14 (a_st a1)) (p # rest) fl"
    using h1 by (simp add: held_def no_custom_def)
  ultimately show ?thesis using sh(2,3) unfolding fr(2)
    by (intro exI [of _ a2]) (simp add: a2_def f(1) del: contents_simps)
qed

text \<open>\<^verbatim>\<open>netif->input\<close> of an Ethernet interface: \<^verbatim>\<open>ethernet_input\<close>, which calls \<^verbatim>\<open>ip_input\<close>.\<close>

definition netif_input ::
    "pbuf_cfg \<Rightarrow> pbuf_env \<Rightarrow> (u8 list \<Rightarrow> err_t) \<Rightarrow> 'a ip_scheme upper \<Rightarrow> nat \<Rightarrow> nat \<Rightarrow> 'a ip_scheme \<Rightarrow> 'a ip_scheme option" where
  "netif_input c env lo up n p s =
     ethernet_input c env lo (\<lambda>a. s\<lparr>net_arp := a\<rparr>) (\<lambda>p a. ip_input c env up p n (s\<lparr>net_arp := a\<rparr>)) (arp_nif s n) p (net_arp s)"

lemma netif_input_delivers:
  fixes src d :: u32 and t :: "'a ip_scheme"
  assumes pk: "packet (pst_of t) (Some q) (q # rest)" and l: "34 \<le> len_of (pst_of t) q"
    and py: "q + SIZEOF_STRUCT_PBUF c \<le> p_payload (pbufs (pst_of t) q)" and h: "held (pst_of t) (q # rest) fl"
    and ty: "\<forall>b \<in> set (q # rest). p_type (pbufs (pst_of t) b) \<noteq> PBUF_RAM" and nc: "nif_chain t ys"
    and fl: "nif_flags (nifs t inp) AND NETIF_FLAG_ETHARP \<noteq> 0"
    and C: "contents (pst_of t) (q # rest) = hd14 @ ip_hdr tos len id' ttl proto src d @ data @ pad"
      "take 2 (drop 12 hd14) = [0x08, 0x00]" "length hd14 = 14" "length data + 20 = unat len"
    and us: "for_us d inp ys t" "\<not> bad_source src (nifs t inp)"
  shows "\<exists>zs t'. netif_input c env lo up inp q t = ip_deliver c env up q inp t' \<and> packet (pst_of t') (Some q) zs \<and>
    contents (pst_of t') zs = ip_hdr tos len id' ttl proto src d @ data \<and> (\<exists>fl'. held (pst_of t') zs fl') \<and> set zs \<subseteq> set (q # rest) \<and>
    (\<forall>b \<in> set zs. p_type (pbufs (pst_of t') b) \<noteq> PBUF_RAM) \<and>
    p_payload (pbufs (pst_of t') q) = p_payload (pbufs (pst_of t) q) + 14 \<and>
    current_iphdr_src t' = src \<and> current_iphdr_dest t' = d \<and> nifs t' = nifs t \<and> ip.more t' = ip.more t"
proof -
  let ?h = "ip_hdr tos len id' ttl proto src d" and ?bs = "ip_hdr tos len id' ttl proto src d @ data @ pad"
  define ip_in where "ip_in = (\<lambda>p a. ip_input c env up p inp (t\<lparr>net_arp := a\<rparr>))"
  have two: "take 2 (drop 12 (contents (pst_of t) (q # rest))) = [0x08, 0x00]"
    using C(1-3) by (simp del: contents_simps)
  have "14 < len_of (pst_of t) q" "nif_flags (arp_nif t inp) AND NETIF_FLAG_ETHARP \<noteq> 0"
    using l fl by (simp_all add: arp_nif_def arp_netif.truncate_def)
  from eth_input_ip [OF pk this(1) py h two this(2), of env lo "\<lambda>a. t\<lparr>net_arp := a\<rparr>" ip_in]
  obtain a where a: "netif_input c env lo up inp q t = ip_in q a" "packet (a_st a) (Some q) (q # rest)"
    "contents (a_st a) (q # rest) = ?bs" "held (a_st a) (q # rest) fl" "len_of (a_st a) q = len_of (pst_of t) q - 14"
    "\<forall>b. p_type (pbufs (a_st a) b) = p_type (pbufs (pst_of t) b)" "p_payload (pbufs (a_st a) q) = p_payload (pbufs (pst_of t) q) + 14"
    unfolding netif_input_def ip_in_def [symmetric] using C(1,3) by (auto simp del: contents_simps)
  define t1 where "t1 = t\<lparr>net_arp := a\<rparr>"
  note F = ip_hdr_fields [of tos len id' ttl proto src d "data @ pad"]
  have pk1: "packet (pst_of t1) (Some q) (q # rest)" and c1: "contents (pst_of t1) (q # rest) = ?bs"
    and l1: "20 \<le> len_of (pst_of t1) q" and h1: "held (pst_of t1) (q # rest) fl"
    and ty1: "\<forall>b \<in> set (q # rest). p_type (pbufs (pst_of t1) b) \<noteq> PBUF_RAM" and nc1: "nif_chain t1 ys"
    using a l ty nc by (simp_all add: t1_def nif_chain_def del: contents_simps)
  have ok: "ip_ok (len_of (pst_of t1) q) ?bs" using F C(4) l1 by (simp add: ip_ok_def)
  have tk: "take (ip_len ?bs) ?bs = ?h @ data" using F(3) C(4) by simp
  from ip_input_cases(2) [OF pk1 l1 h1 ty1 nc1, unfolded c1, OF ok, of c env up inp] obtain zs fl' t' where
    t': "ip_input c env up q inp t1 = ip_dispose c env up q inp ys ?bs t'" "packet (pst_of t') (Some q) zs"
      "contents (pst_of t') zs = take (ip_len ?bs) ?bs" "held (pst_of t') zs fl'" "set zs \<subseteq> set (q # rest)"
      "\<forall>b \<in> set zs. p_type (pbufs (pst_of t') b) = p_type (pbufs (pst_of t1) b) \<and> p_payload (pbufs (pst_of t') b) = p_payload (pbufs (pst_of t1) b)"
      "nifs t' = nifs t1" "current_iphdr_src t' = hdr_src ?bs" "current_iphdr_dest t' = hdr_dest ?bs" "ip.more t' = ip.more t1" by blast
  have "q \<in> set zs" using t'(2) by (auto simp: packet_Cons)
  have "for_us d inp ys t'" "\<not> bad_source src (nifs t' inp)" using us t'(7) by (simp_all add: for_us_def t1_def)
  then have "ip_dispose c env up q inp ys ?bs t' = ip_deliver c env up q inp t'"
    using F(4-6) by (simp add: ip_dispose_def)
  with t' a(1) have "netif_input c env lo up inp q t = ip_deliver c env up q inp t'" by (simp add: ip_in_def t1_def)
  with t' tk F(4,5) ty1 a(7) \<open>q \<in> set zs\<close> show ?thesis
    by (intro exI [of _ zs] exI [of _ t']) (auto simp: t1_def)
qed

section \<open>Property\<close>

text \<open>Property C31: a packet given to \<^verbatim>\<open>ip_output\<close> for an address that \<^verbatim>\<open>ip_route\<close> gives an Ethernet
  interface for leaves as one frame if its link address is known without asking (\<open>eth_ready\<close>: broadcast, multicast, or
  a stable ARP entry for the next hop that is not so old that it is asked for again), the IP packet is not
  longer than the MTU, and there is room for 34 bytes of headers in front of it.  This frame, with any padding behind
  it, makes \<^verbatim>\<open>ethernet_input\<close> and \<^verbatim>\<open>ip_input\<close> of a host with that address deliver the same data: the
  padding is cut off, and the protocol, the source and the destination address are those of the sender.  The receiver has
  the frame in pool or reference pbufs, all headers in the first.\<close>

theorem ip_over_ethernet:
  assumes "packet (pst_of s) (Some p) (p # rest)" and "room c (pst_of s) p rest 34" and "eth_ready (arp_nif s n) d (net_arp s)"
    and rt: "ip_route d s = Some (Some n)"
    and "nif_mtu (nifs s n) = 0 \<or> total (pst_of s) (p # rest) + 20 \<le> nif_mtu (nifs s n)"
    and "src' = (if src = 0 then nif_ip_addr (nifs s n) else src)"
    and "h = ip_hdr tos (of_nat (total (pst_of s) (p # rest) + 20)) (ip_id s) ttl proto src' d"
    and "f = eth_hdr (arp_nif s n) d (net_arp s) @ h @ contents (pst_of s) (p # rest)"
    and "packet (pst_of t) (Some q) (q # qs)" and "34 \<le> len_of (pst_of t) q"
    and "q + SIZEOF_STRUCT_PBUF c' \<le> p_payload (pbufs (pst_of t) q)" and "held (pst_of t) (q # qs) fl"
    and "set (q # qs) \<inter> {b. p_type (pbufs (pst_of t) b) = PBUF_RAM} = {}"
    and "contents (pst_of t) (q # qs) = f @ pad"
    and "nif_chain t ys" and "nif_flags (nifs t inp) AND NETIF_FLAG_ETHARP \<noteq> 0"
    and "for_us d inp ys t" and "\<not> bad_source src' (nifs t inp)"
  shows "\<exists>s'. ip_output c (etharp_output c env lo) frag p src d ttl tos proto s = Some (lo f, s') \<and>
      a_sent (net_arp s') = a_sent (net_arp s) @ [f] \<and>
    (\<exists>zs t'. netif_input c' env' lo' up inp q t = ip_deliver c' env' up q inp t' \<and> packet (pst_of t') (Some q) zs \<and>
      contents (pst_of t') zs = h @ contents (pst_of s) (p # rest) \<and> contents (pst_of t') zs ! 9 = proto \<and>
      current_iphdr_src t' = src' \<and> current_iphdr_dest t' = d)"
proof -
  let ?n = "total (pst_of s) (p # rest)"
  have h: "h = ip_hdr_of src d ttl tos proto n ?n s"
    unfolding assms(6,7) by (simp only: ip_hdr_of_def src_of_def IP_HLEN_def ip_addr_isany_def)
  have r: "room c (pst_of s) p rest (IP_HLEN + 14)" using assms(2) by (simp add: IP_HLEN_def)
  have mtu: "nif_mtu (nifs s n) = 0 \<or> ?n + IP_HLEN \<le> nif_mtu (nifs s n)" using assms(5) by (simp add: IP_HLEN_def)
  have "\<exists>s'. ip_output c (etharp_output c env lo) frag p src d ttl tos proto s = Some (lo f, s') \<and>
      a_sent (net_arp s') = a_sent (net_arp s) @ [f]"
    using eth.ip_output_if_sends [OF assms(1) r assms(3) mtu, of env lo frag src ttl tos proto] rt
    unfolding assms(8) h by (simp only: ip_output_def bind.bind_lunit option.case) blast
  moreover
  have "?n + 20 < 65536" using assms(2) by (simp add: room_def)
  then have len: "length (contents (pst_of s) (p # rest)) + 20 = unat (of_nat (?n + 20) :: u16)"
    unfolding length_contents by (subst unat_of_nat_u16) simp
  have ty: "\<forall>b \<in> set (q # qs). p_type (pbufs (pst_of t) b) \<noteq> PBUF_RAM" using assms(13) by auto
  have e: "take 2 (drop 12 (eth_hdr (arp_nif s n) d (net_arp s))) = [0x08, 0x00]" "length (eth_hdr (arp_nif s n) d (net_arp s)) = 14"
    using assms(3) by (auto simp: eth_ready_def eth_hdr_def)
  have C: "contents (pst_of t) (q # qs) = eth_hdr (arp_nif s n) d (net_arp s) @
      ip_hdr tos (of_nat (?n + 20)) (ip_id s) ttl proto src' d @ contents (pst_of s) (p # rest) @ pad"
    unfolding assms(14) assms(8) assms(7) by simp
  from netif_input_delivers [OF assms(9-12) ty assms(15,16) C e len assms(17,18), of env' lo' up] obtain zs t' where
    "netif_input c' env' lo' up inp q t = ip_deliver c' env' up q inp t'" "packet (pst_of t') (Some q) zs"
    "contents (pst_of t') zs = h @ contents (pst_of s) (p # rest)" "current_iphdr_src t' = src'" "current_iphdr_dest t' = d"
    unfolding assms(7) by blast
  moreover from calculation(4) have "contents (pst_of t') zs ! 9 = proto"
    unfolding assms(7) by (simp only: ip_hdr_fields(7))
  ultimately show ?thesis by blast
qed

lemma ip_over_ethernet_witness:
  "\<exists>h s' zs t'. ip_output ex_cfg (etharp_output ex_cfg ex_env (\<lambda>_. ERR_OK)) (\<lambda>_ _ _ a. None) 600 0 0x0202A8C0 255 0 17 (ex_ip ex_tx) =
      Some (ERR_OK, s') \<and>
    netif_input ex_cfg ex_env (\<lambda>_. ERR_OK) ex_up 1 600 ((ex_ip (ex_rx (last (a_sent (net_arp s')) @ replicate 22 0)))
        \<lparr>nifs := \<lambda>_. ex_nif 0x0202A8C0 2 None\<rparr>) = ip_deliver ex_cfg ex_env ex_up 600 1 t' \<and>
    contents (pst_of t') zs = h @ contents ex_tx [600]"
proof -
  let ?s = "ex_ip ex_tx"
  define h where "h = ip_hdr 0 (of_nat (total (pst_of ?s) [600] + 20)) (ip_id ?s) 255 17 0x0102A8C0 0x0202A8C0"
  define f where "f = eth_hdr (arp_nif ?s 1) 0x0202A8C0 (net_arp ?s) @ h @ contents (pst_of ?s) [600]"
  define t where "t = (ex_ip (ex_rx (f @ replicate 22 0)))\<lparr>nifs := \<lambda>_. ex_nif 0x0202A8C0 2 None\<rparr>"
  have ps: "pst_of ?s = ex_tx" "nifs ?s 1 = ex_nif 0x0102A8C0 1 None" by (simp_all add: ex_ip_def arp_init_def)
  have ld: "link_dest (arp_nif ?s 1) 0x0202A8C0 (net_arp ?s) = Some [2, 0, 0, 0, 0, 2]"
    by (simp add: link_dest_def arp_nif_def ps(2) ex_nif_def ip4_addr_isbroadcast_def netif.truncate_def arp_netif.truncate_def
        ip_addr_ismulticast_def ip_addr_netcmp_def next_hop_def arp_entry_for_def ex_ip_def arp_init_def stable_def Let_def
        ARP_AGE_REREQUEST_USED_def ARP_MAXAGE_def)
  have rd: "eth_ready (arp_nif ?s 1) 0x0202A8C0 (net_arp ?s)"
    using ld unfolding eth_ready_def by (simp add: arp_nif_def ex_ip_def ex_nif_def arp_netif.truncate_def)
  have route: "ip_route 0x0202A8C0 ?s = Some (Some 1)"
    by (simp add: ip_route_def ex_ip_def, subst route_loop.simps,
        simp add: ex_nif_def netif_is_up_def NETIF_FLAG_UP_def ip_addr_netcmp_def)
  from rd ld have "length (eth_hdr (arp_nif ?s 1) 0x0202A8C0 (net_arp ?s)) = 14" by (auto simp: eth_ready_def eth_hdr_def)
  then have lf: "length f = 38"
    unfolding f_def ps(1) by (simp add: h_def ex_tx_facts(4) del: contents_simps total_simps)
  then have "length (f @ replicate 22 0) < 65536" by simp
  note F = ex_rx_facts [OF this]
  have pt: "pst_of t = ex_rx (f @ replicate 22 0)" by (simp add: t_def ex_tx_facts(3))
  have nt: "nif_chain t [1]" "nif_flags (nifs t 1) AND NETIF_FLAG_ETHARP \<noteq> 0" "for_us 0x0202A8C0 1 [1] t"
    "\<not> bad_source 0x0102A8C0 (nifs t 1)"
    by (simp_all add: t_def nif_chain_def ex_ip_def ex_nif_def NETIF_FLAG_ETHARP_def for_us_def accepts_def netif_is_up_def
        NETIF_FLAG_UP_def ip_addr_isany_def bad_source_def ip4_addr_isbroadcast_def ip_addr_ismulticast_def netif.truncate_def
        ip_addr_netcmp_def)
  have "\<exists>s'. ip_output ex_cfg (etharp_output ex_cfg ex_env (\<lambda>_. ERR_OK)) (\<lambda>_ _ _ a. None) 600 0 0x0202A8C0 255 0 17 ?s =
      Some (ERR_OK, s') \<and> a_sent (net_arp s') = a_sent (net_arp ?s) @ [f] \<and>
    (\<exists>zs t'. netif_input ex_cfg ex_env (\<lambda>_. ERR_OK) ex_up 1 600 t = ip_deliver ex_cfg ex_env ex_up 600 1 t' \<and>
      packet (pst_of t') (Some 600) zs \<and> contents (pst_of t') zs = h @ contents (pst_of ?s) [600] \<and>
      contents (pst_of t') zs ! 9 = 17 \<and> current_iphdr_src t' = 0x0102A8C0 \<and> current_iphdr_dest t' = 0x0202A8C0)"
  proof (rule ip_over_ethernet [where pad = "replicate 22 0" and fl = ex_lists and ys = "[1]" and qs = "[]"])
    show "room ex_cfg (pst_of ?s) 600 [] 34" unfolding ps by (rule room_less [OF ex_tx_facts(2)]) simp
    show "nif_mtu (nifs ?s 1) = 0 \<or> total (pst_of ?s) [600] + 20 \<le> nif_mtu (nifs ?s 1)"
      unfolding ps ex_tx_facts(4) by (simp add: ex_nif_def)
    show "0x0102A8C0 = (if (0 :: u32) = 0 then nif_ip_addr (nifs ?s 1) else 0)" unfolding ps by (simp add: ex_nif_def)
    show "600 + SIZEOF_STRUCT_PBUF ex_cfg \<le> p_payload (pbufs (pst_of t) 600)"
      unfolding pt F by (simp add: SIZEOF_STRUCT_PBUF_def ex_facts(7))
    show "set [600] \<inter> {b. p_type (pbufs (pst_of t) b) = PBUF_RAM} = {}" unfolding pt using F by simp
    show "packet (pst_of ?s) (Some 600) [600]" unfolding ps by (rule ex_tx_facts(1))
    show "34 \<le> len_of (pst_of t) 600" unfolding pt F using lf by simp
  qed (rule rd route h_def f_def nt F(1-3) [folded pt])+
  then obtain s' zs t' where r: "ip_output ex_cfg (etharp_output ex_cfg ex_env (\<lambda>_. ERR_OK)) (\<lambda>_ _ _ a. None) 600 0
      0x0202A8C0 255 0 17 ?s = Some (ERR_OK, s')" "a_sent (net_arp s') = a_sent (net_arp ?s) @ [f]"
    "netif_input ex_cfg ex_env (\<lambda>_. ERR_OK) ex_up 1 600 t = ip_deliver ex_cfg ex_env ex_up 600 1 t'"
    "contents (pst_of t') zs = h @ contents ex_tx [600]" unfolding ps by blast
  then have "last (a_sent (net_arp s')) = f" by simp
  with r show ?thesis unfolding t_def by blast
qed

end
