(* ===== verification/Icmp.thy ===== *)
theory Icmp
  imports Ip_Link
begin

text \<open>
  \<^verbatim>\<open>lwip/src/core/ipv4/icmp.c\<close>: answering echo requests and reporting errors.  The arguments \<open>out\<close> and \<open>frag\<close> are those
  of \<^verbatim>\<open>ip_output_if\<close>.
\<close>

definition ICMP_ER :: u8 where "ICMP_ER = 0"

definition ICMP_DUR :: u8 where "ICMP_DUR = 3"

definition ICMP_ECHO :: u8 where "ICMP_ECHO = 8"

definition ICMP_TE :: u8 where "ICMP_TE = 11"

definition ICMP_TTL :: u8 where "ICMP_TTL = 255"

datatype icmp_dur_type = ICMP_DUR_NET | ICMP_DUR_HOST | ICMP_DUR_PROTO | ICMP_DUR_PORT | ICMP_DUR_FRAG | ICMP_DUR_SR

fun dur_code :: "icmp_dur_type \<Rightarrow> u8" where
  "dur_code ICMP_DUR_NET = 0"
| "dur_code ICMP_DUR_HOST = 1"
| "dur_code ICMP_DUR_PROTO = 2"
| "dur_code ICMP_DUR_PORT = 3"
| "dur_code ICMP_DUR_FRAG = 4"
| "dur_code ICMP_DUR_SR = 5"

datatype icmp_te_type = ICMP_TE_TTL | ICMP_TE_FRAG

fun te_code :: "icmp_te_type \<Rightarrow> u8" where
  "te_code ICMP_TE_TTL = 0"
| "te_code ICMP_TE_FRAG = 1"

text \<open>Writing and reading at an address, for the pointers \<^verbatim>\<open>iphdr\<close> and \<^verbatim>\<open>iecho\<close>.\<close>

definition poke :: "nat \<Rightarrow> u8 list \<Rightarrow> 'a net_scheme \<Rightarrow> 'a net_scheme" where
  "poke a bs s = set_pst (write_bytes a bs (pst_of s)) s"

definition peek :: "nat \<Rightarrow> nat \<Rightarrow> 'a net_scheme \<Rightarrow> u8 list" where
  "peek a n s = load_bytes a n (payload_bytes (pst_of s))"

section \<open>Error messages\<close>

definition icmp_send_response ::
    "pbuf_cfg \<Rightarrow> pbuf_env \<Rightarrow> output_fn \<Rightarrow> output_fn \<Rightarrow> nat \<Rightarrow> u8 \<Rightarrow> u8 \<Rightarrow> 'a ip_scheme \<Rightarrow> 'a ip_scheme option" where
  "icmp_send_response c env out frag p type code s = do {
     (q, st) \<leftarrow> pbuf_alloc c env PBUF_IP (8 + IP_HLEN + 8) PBUF_RAM (pst_of s);
     let s = set_pst st s;
     case q of
       None \<Rightarrow> Some s
     | Some q \<Rightarrow> do {
         let s = put_hdr q 0 [type] s;
         let s = put_hdr q 1 [code] s;
         let s = put_hdr q 4 [0, 0] s;
         let s = put_hdr q 6 [0, 0] s;
         let s = put_hdr q 8 (get_hdr p 0 (IP_HLEN + 8) s) s;
         let s = put_hdr q 2 [0, 0] s;
         let ck = inet_chksum lwip_standard_chksum2 (p_payload (pbufs (pst_of s) q)) (get_hdr q 0 (p_len (pbufs (pst_of s) q)) s);
         let s = put_hdr q 2 (u16_bytes ck) s;
         let iphdr_src = ip_of (get_hdr p 12 4 s);
         (_, s) \<leftarrow> ip_output c out frag q 0 iphdr_src ICMP_TTL 0 IP_PROTO_ICMP s;
         ip_free c env q s } }"

definition icmp_dest_unreach ::
    "pbuf_cfg \<Rightarrow> pbuf_env \<Rightarrow> output_fn \<Rightarrow> output_fn \<Rightarrow> nat \<Rightarrow> icmp_dur_type \<Rightarrow> 'a ip_scheme \<Rightarrow> 'a ip_scheme option" where
  "icmp_dest_unreach c env out frag p t s = icmp_send_response c env out frag p ICMP_DUR (dur_code t) s"

definition icmp_time_exceeded ::
    "pbuf_cfg \<Rightarrow> pbuf_env \<Rightarrow> output_fn \<Rightarrow> output_fn \<Rightarrow> nat \<Rightarrow> icmp_te_type \<Rightarrow> 'a ip_scheme \<Rightarrow> 'a ip_scheme option" where
  "icmp_time_exceeded c env out frag p t s = icmp_send_response c env out frag p ICMP_TE (te_code t) s"

section \<open>Echo\<close>

text \<open>Room for the headers in front of the request, in a copy if need be: the packet and the address of its IP header,
  or \<open>None\<close> (\<^verbatim>\<open>goto memerr\<close>).\<close>

definition copy_request ::
    "pbuf_cfg \<Rightarrow> pbuf_env \<Rightarrow> nat \<Rightarrow> int \<Rightarrow> 'a ip_scheme \<Rightarrow> ((nat \<times> nat) option \<times> 'a ip_scheme) option" where
  "copy_request c env p hlen s =
     (let (r, st) = pbuf_header c (Some p) hlen (pst_of s)
      in if r \<noteq> 0 then Some (None, set_pst st s)
         else do {
           (q, st) \<leftarrow> pbuf_alloc c env PBUF_LINK (p_tot_len (pbufs st p)) PBUF_RAM st;
           case q of
             None \<Rightarrow> Some (None, set_pst st s)
           | Some q \<Rightarrow> do {
               (e, st) \<leftarrow> pbuf_copy (Some q) (Some p) st;
               if e \<noteq> ERR_OK then Some (None, set_pst st s)
               else let iphdr = p_payload (pbufs st q); (r, st) = pbuf_header c (Some q) (- hlen) st
                    in if r \<noteq> 0 then Some (None, set_pst st s)
                       else do { s \<leftarrow> ip_free c env p (set_pst st s); Some (Some (q, iphdr), s) } } })"

definition make_room ::
    "pbuf_cfg \<Rightarrow> pbuf_env \<Rightarrow> nat \<Rightarrow> int \<Rightarrow> nat \<Rightarrow> 'a ip_scheme \<Rightarrow> ((nat \<times> nat) option \<times> 'a ip_scheme) option" where
  "make_room c env p hlen iphdr s =
     (let hdrs = int (IP_HLEN + PBUF_LINK_HLEN c); (r, st) = pbuf_header c (Some p) hdrs (pst_of s)
      in if r \<noteq> 0 then copy_request c env p hlen (set_pst st s)
         else let (r, st) = pbuf_header c (Some p) (- hdrs) st
              in Some (if r \<noteq> 0 then None else Some (p, iphdr), set_pst st s))"

text \<open>The checksum of the message after its type changed from 8 to 0.\<close>

definition echo_chksum :: "u16 \<Rightarrow> u16" where
  "echo_chksum ck =
     (if ck \<ge> lwip_htons (0xffff - push_bit 8 (ucast ICMP_ECHO)) then ck + (lwip_htons (push_bit 8 (ucast ICMP_ECHO)) + 1)
      else ck + lwip_htons (push_bit 8 (ucast ICMP_ECHO)))"

text \<open>The request is turned into the reply in place.\<close>

definition write_reply :: "nat \<Rightarrow> nat \<Rightarrow> 'a ip_scheme \<Rightarrow> 'a ip_scheme" where
  "write_reply p iphdr s =
     (let s = poke (iphdr + 12) (addr_bytes (current_iphdr_dest s)) s;
          s = poke (iphdr + 16) (addr_bytes (current_iphdr_src s)) s;
          s = put_hdr p 0 [ICMP_ER] s;
          s = put_hdr p 2 (u16_bytes (echo_chksum (u16_of (get_hdr p 2 2 s)))) s;
          s = poke (iphdr + 8) [ICMP_TTL] s;
          s = poke (iphdr + 10) [0, 0] s
      in poke (iphdr + 10) (u16_bytes (inet_chksum lwip_standard_chksum2 iphdr (peek iphdr IP_HLEN s))) s)"

definition icmp_echo ::
    "pbuf_cfg \<Rightarrow> pbuf_env \<Rightarrow> output_fn \<Rightarrow> output_fn \<Rightarrow> nat \<Rightarrow> nat \<Rightarrow> int \<Rightarrow> nat \<Rightarrow> 'a ip_scheme \<Rightarrow> 'a ip_scheme option" where
  "icmp_echo c env out frag p inp hlen iphdr s = do {
     (r, s) \<leftarrow> make_room c env p hlen iphdr s;
     case r of
       None \<Rightarrow> ip_free c env p s
     | Some (p, iphdr) \<Rightarrow> do {
         let s = write_reply p iphdr s;
         let (e, st) = pbuf_header c (Some p) hlen (pst_of s);
         let s = set_pst st s;
         s \<leftarrow> (if e \<noteq> 0 then Some s
               else map_option snd (ip_output_if c out frag p (current_iphdr_dest s) None ICMP_TTL 0 IP_PROTO_ICMP inp s));
         ip_free c env p s } }"

text \<open>The chain of pbufs of a packet as \<^verbatim>\<open>inet_chksum_pbuf\<close> reads it.\<close>

partial_function (option) chain_of :: "nat option \<Rightarrow> pst \<Rightarrow> chain option" where
  "chain_of p st =
     (case p of
        None \<Rightarrow> Some []
      | Some a \<Rightarrow> do {
          qs \<leftarrow> chain_of (p_next (pbufs st a)) st;
          Some ((p_payload (pbufs st a), load_bytes (p_payload (pbufs st a)) (p_len (pbufs st a)) (payload_bytes st)) # qs) })"

definition icmp_input ::
    "pbuf_cfg \<Rightarrow> pbuf_env \<Rightarrow> output_fn \<Rightarrow> output_fn \<Rightarrow> nat \<Rightarrow> nat \<Rightarrow> 'a ip_scheme \<Rightarrow> 'a ip_scheme option" where
  "icmp_input c env out frag p inp s =
     (let iphdr = p_payload (pbufs (pst_of s) p);
          hlen = 4 * uint (get_hdr p 0 1 s ! 0 AND 0x0f);
          (r, st) = pbuf_header c (Some p) (- hlen) (pst_of s);
          s = set_pst st s
      in if r \<noteq> 0 \<or> p_tot_len (pbufs (pst_of s) p) < 4 then ip_free c env p s
         else let type = get_hdr p 0 1 s ! 0
              in if type = ICMP_ECHO then
                   if ip_addr_ismulticast (current_iphdr_dest s) \<or>
                      ip4_addr_isbroadcast (current_iphdr_dest s) (netif.truncate (nifs s inp))
                   then ip_free c env p s
                   else if p_tot_len (pbufs (pst_of s) p) < 8 then ip_free c env p s
                   else do {
                     qs \<leftarrow> chain_of (Some p) (pst_of s);
                     if inet_chksum_pbuf lwip_standard_chksum2 qs \<noteq> 0 then ip_free c env p s
                     else icmp_echo c env out frag p inp hlen iphdr s }
                 else ip_free c env p s)"

end
