(* ===== verification/Icmp_Spec.thy ===== *)
theory Icmp_Spec
  imports Icmp
begin

text \<open>
  What \<^verbatim>\<open>icmp.c\<close> answers: the bytes of an echo reply, and when its checksum is right.
\<close>

section \<open>The checksum of a message\<close>

lemma chain_of_spec:
  "chain (links st) p xs \<Longrightarrow> \<exists>qs. chain_of p st = Some qs \<and> chain_bytes qs = contents st xs \<and> map snd qs = map (data_of st) xs"
proof (induction xs arbitrary: p)
  case Nil
  then show ?case by (subst chain_of.simps) simp
next
  case (Cons a xs)
  then have "chain (links st) (links st a) xs" by simp
  from Cons.IH [OF this] obtain qs where
    "chain_of (links st a) st = Some qs" "chain_bytes qs = contents st xs" "map snd qs = map (data_of st) xs" by blast
  with Cons.prems show ?case by (subst chain_of.simps) (simp add: data_of_def)
qed

lemma packet_chain:
  assumes pk: "packet st p xs"
  shows "\<exists>qs. chain_of p st = Some qs \<and> chain_bytes qs = contents st xs \<and> (\<forall>q \<in> set qs. length (snd q) \<le> 65535)"
proof -
  from chain_of_spec [OF packetD(1) [OF pk]] obtain qs where qs: "chain_of p st = Some qs" "chain_bytes qs = contents st xs"
    "map snd qs = map (data_of st) xs" by blast
  have "length (snd q) \<le> 65535" if "q \<in> set qs" for q
  proof -
    from that qs(3) have "snd q \<in> set (map (data_of st) xs)" by (metis image_eqI list.set_map)
    then obtain a where "a \<in> set xs" "snd q = data_of st a" by auto
    moreover have "len_of st a \<le> total st xs" if "a \<in> set xs" for a
      using that member_le_sum_list [of "len_of st a" "map (len_of st) xs"] by (simp add: total_def)
    ultimately show ?thesis using packetD(3) [OF pk] by fastforce
  qed
  with qs show ?thesis by blast
qed

lemma packet_chksum:
  assumes "packet st p xs"
  shows "\<exists>qs. chain_of p st = Some qs \<and> inet_chksum_pbuf lwip_standard_chksum2 qs = NOT (oc_sum (contents st xs))"
  using packet_chain [OF assms] alg2.inet_chksum_pbuf_spec by auto

lemma packet_pseudo:
  assumes "packet st p xs"
  shows "\<exists>qs. chain_of p st = Some qs \<and> inet_chksum_pseudo lwip_standard_chksum2 qs src dst proto len =
    NOT (oc_sum (pseudo_header src dst proto len @ contents st xs))"
  using packet_chain [OF assms] alg2.inet_chksum_pseudo_spec by auto

text \<open>The sum of a message that verifies is a positive multiple of 65535.\<close>

lemma verifies_iff: "NOT (oc_sum bs) = 0 \<longleftrightarrow> 0 < wsum bs \<and> wsum bs mod 65535 = 0"
proof -
  have "NOT (oc_sum bs) = 0 \<longleftrightarrow> unat (NOT (oc_sum bs)) = 0" by (simp add: unat_eq_0)
  also have "\<dots> \<longleftrightarrow> unat (oc_sum bs) = 65535" unfolding unat_not_u16 using u16_le [of "oc_sum bs"] by linarith
  also have "unat (oc_sum bs) = oc (wsum bs)" using oc_le [of "wsum bs"] by (simp add: oc_sum_def word_nat)
  also have "oc (wsum bs) = 65535 \<longleftrightarrow> rep 65535 (wsum bs)" using rep_oc [of "wsum bs"] oc_unique [of 65535 "wsum bs"] by auto
  also have "\<dots> \<longleftrightarrow> 0 < wsum bs \<and> wsum bs mod 65535 = 0" by (auto simp: rep_def)
  finally show ?thesis .
qed

text \<open>The adjusted checksum of the reply is right unless the whole message is zero.\<close>

lemma echo_chksum_val:
  "unat (echo_chksum ck) = (if unat ck \<ge> 65527 then unat ck + 9 - 65536 else unat ck + 8)"
proof -
  have c: "lwip_htons (0xffff - push_bit 8 (ucast ICMP_ECHO)) = 0xfff7" "lwip_htons (push_bit 8 (ucast ICMP_ECHO)) = 8"
    by (simp_all add: ICMP_ECHO_def lwip_htons_def)
  show ?thesis
  proof (cases "unat ck \<ge> 65527")
    case True
    have "unat ck + 9 - 65536 < 65536" using u16_le [of ck] by linarith
    moreover have "(unat ck + 9) mod 65536 = (unat ck + 9 - 65536) mod 65536" using True by (intro le_mod_geq) simp
    ultimately have "(unat ck + 9) mod 65536 = unat ck + 9 - 65536" by (simp only: mod_less)
    with True show ?thesis by (simp add: echo_chksum_def c word_le_nat_alt unat_add_u16)
  next
    case False
    then show ?thesis by (simp add: echo_chksum_def c word_le_nat_alt unat_add_u16)
  qed
qed

lemma echo_sum:
  assumes bs: "bs = 8 # code # lo # hi # rest" and v: "NOT (oc_sum bs) = 0"
  shows "NOT (oc_sum (0 # code # u16_bytes (echo_chksum (le16 lo hi)) @ rest)) = 0 \<longleftrightarrow>
    \<not> (code = 0 \<and> le16 lo hi = 0xfff7 \<and> wsum rest = 0)"
proof -
  define ck where "ck = unat (le16 lo hi)"
  have w: "wsum bs = 8 + 256 * unat code + ck + wsum rest"
    by (simp add: bs ck_def unat_le16)
  have w': "wsum (0 # code # u16_bytes (echo_chksum (le16 lo hi)) @ rest) = 256 * unat code + unat (echo_chksum (le16 lo hi)) + wsum rest"
    by (simp add: wsum_u16)
  have e: "unat (echo_chksum (le16 lo hi)) = (if ck \<ge> 65527 then ck + 9 - 65536 else ck + 8)"
    unfolding ck_def by (rule echo_chksum_val)
  have l: "ck \<le> 65535" by (simp add: ck_def)
  from v have v': "0 < wsum bs" "wsum bs mod 65535 = 0" unfolding verifies_iff by auto
  have eq: "le16 lo hi = 0xfff7 \<longleftrightarrow> ck = 65527" by (simp add: ck_def word_unat_eq_iff)
  have c0: "code = 0 \<longleftrightarrow> unat code = 0" by (simp add: unat_eq_0)
  show ?thesis
  proof (cases "ck \<ge> 65527")
    case False
    then have "wsum (0 # code # u16_bytes (echo_chksum (le16 lo hi)) @ rest) = wsum bs" unfolding w w' e by simp
    with False show ?thesis unfolding verifies_iff eq using v' by auto
  next
    case True
    then have n: "wsum bs = wsum (0 # code # u16_bytes (echo_chksum (le16 lo hi)) @ rest) + 65535"
      unfolding w w' e by simp
    with v' have "wsum (0 # code # u16_bytes (echo_chksum (le16 lo hi)) @ rest) mod 65535 = 0" by simp
    moreover have "wsum (0 # code # u16_bytes (echo_chksum (le16 lo hi)) @ rest) = 0 \<longleftrightarrow> code = 0 \<and> ck = 65527 \<and> wsum rest = 0"
      unfolding w' e c0 using True l by auto
    ultimately show ?thesis unfolding verifies_iff eq by auto
  qed
qed

section \<open>The reply\<close>

text \<open>The bytes of the reply to the request \<open>bs\<close>, with source and destination exchanged.\<close>

definition reply_hdr0 :: "u8 list \<Rightarrow> u16 \<Rightarrow> u8 list" where
  "reply_hdr0 bs ck = take 8 bs @ [255, bs ! 9] @ u16_bytes ck @ addr_bytes (hdr_dest bs) @ addr_bytes (hdr_src bs)"

definition reply_hdr :: "u8 list \<Rightarrow> u8 list" where
  "reply_hdr bs = reply_hdr0 bs (NOT (oc_sum (reply_hdr0 bs 0)))"

definition reply_msg :: "u8 list \<Rightarrow> u8 list" where
  "reply_msg ms = 0 # ms ! 1 # u16_bytes (echo_chksum (le16 (ms ! 2) (ms ! 3))) @ drop 4 ms"

lemma length_reply_hdr [simp]: "8 \<le> length bs \<Longrightarrow> length (reply_hdr0 bs ck) = 20" "8 \<le> length bs \<Longrightarrow> length (reply_hdr bs) = 20"
  by (simp_all add: reply_hdr_def reply_hdr0_def)

lemma reply_hdr_verifies:
  assumes "8 \<le> length bs"
  shows "NOT (oc_sum (reply_hdr bs)) = 0"
proof -
  define ck where "ck = NOT (oc_sum (reply_hdr0 bs 0))"
  let ?pre = "take 8 bs @ [255, bs ! 9]" and ?post = "addr_bytes (hdr_dest bs) @ addr_bytes (hdr_src bs)"
  have h: "reply_hdr0 bs c = ?pre @ ucast c # ucast (drop_bit 8 c) # ?post" for c by (simp add: reply_hdr0_def u16_bytes_def)
  have l: "length (?pre @ x # y # ?post) = 20" for x y using assms by simp
  have "inet_chksum lwip_standard_chksum2 0 (?pre @ ucast ck # ucast (drop_bit 8 ck) # ?post) = 0"
  proof (rule alg2.inet_chksum_verify)
    have "inet_chksum lwip_standard_chksum2 0 (?pre @ 0 # 0 # ?post) = ck"
      unfolding ck_def h by (subst alg2.inet_chksum_spec) (simp_all add: l)
    then show "le16 (ucast ck) (ucast (drop_bit 8 ck)) = inet_chksum lwip_standard_chksum2 0 (?pre @ 0 # 0 # ?post)"
      by (simp only: le16_u16_bytes)
  qed (use assms in \<open>simp_all add: l\<close>)
  then have "NOT (oc_sum (?pre @ ucast ck # ucast (drop_bit 8 ck) # ?post)) = 0"
    by (simp only: alg2.inet_chksum_spec l)
  then show ?thesis by (simp only: reply_hdr_def h [symmetric] ck_def [symmetric])
qed

lemma upto24: "[0..<24] = [0, 1, 2, 3, 4, 5, 6, 7, 8, 9, 10, 11, 12, 13, 14, 15, 16, 17, 18, 19, 20, 21, 22, 23 :: nat]"
  by (simp add: upt_rec)

lemma poke_simps [simp]: "pst_of (poke a bs s) = write_bytes a bs (pst_of s)" "nifs (poke a bs s) = nifs s"
  "netif_list (poke a bs s) = netif_list s"
  by (simp_all add: poke_def)

lemma poke_ip [simp]: "current_iphdr_src (poke a bs s) = current_iphdr_src s" "current_iphdr_dest (poke a bs s) = current_iphdr_dest s"
  by (simp_all add: poke_def)

lemma put_hdr_cur [simp]: "current_iphdr_src (put_hdr p k bs s) = current_iphdr_src s"
  "current_iphdr_dest (put_hdr p k bs s) = current_iphdr_dest s"
  by (simp_all add: put_hdr_def)

text \<open>The bytes \<^verbatim>\<open>icmp_input\<close> changes: the header and the first four bytes of the message behind it.\<close>

lemma write_reply_pst:
  assumes py: "p_payload (pbufs (pst_of s) p) = a + 20" and o: "load_bytes a 24 (payload_bytes (pst_of s)) = take 24 bs"
    and l: "24 \<le> length bs" and cur: "current_iphdr_src s = hdr_src bs" "current_iphdr_dest s = hdr_dest bs"
  shows "pst_of (write_reply p a s) = write_bytes a (reply_hdr bs @ take 4 (reply_msg (drop 20 bs))) (pst_of s)"
proof -
  let ?st = "pst_of s"
  have old: "payload_bytes ?st (a + j) = bs ! j" if "j < 24" for j
  proof -
    have "load_bytes a 24 (payload_bytes ?st) ! j = payload_bytes ?st (a + j)" using that by (simp add: load_bytes_def)
    then show ?thesis using that l by (simp add: o)
  qed
  have b: "payload_bytes ?st a = bs ! 0" "payload_bytes ?st (Suc a) = bs ! 1" "payload_bytes ?st (Suc (Suc a)) = bs ! 2"
    using old [of 0] old [of 1] old [of 2] by simp_all
  have ms: "get_hdr p 2 2 s' = [bs ! 22, bs ! 23]" if "payload_bytes (pst_of s') (a + 22) = bs ! 22"
    "payload_bytes (pst_of s') (a + 23) = bs ! 23" "p_payload (pbufs (pst_of s') p) = a + 20" for s' :: "'a ip_scheme"
    using that by (simp add: get_hdr_def get_at_def load_bytes_def upt_rec add.commute)
  define ec where "ec = echo_chksum (le16 (bs ! 22) (bs ! 23))"
  define s1 where "s1 = put_hdr p 0 [ICMP_ER] (poke (a + 16) (addr_bytes (hdr_src bs)) (poke (a + 12) (addr_bytes (hdr_dest bs)) s))"
  define s2 where "s2 = poke (a + 10) [0, 0] (poke (a + 8) [ICMP_TTL] (put_hdr p 2 (u16_bytes ec) s1))"
  have g: "get_hdr p 2 2 s1 = [bs ! 22, bs ! 23]"
    by (rule ms) (simp_all add: s1_def py write_bytes_def store_bytes_nth old)
  have wr: "write_reply p a s = poke (a + 10) (u16_bytes (inet_chksum lwip_standard_chksum2 a (peek a 20 s2))) s2"
    using g by (simp add: write_reply_def Let_def cur u16_of_def IP_HLEN_def s2_def ec_def flip: s1_def)
  have t8: "take 8 bs = [bs ! 0, bs ! 1, bs ! 2, bs ! 3, bs ! 4, bs ! 5, bs ! 6, bs ! 7]"
    using l by (intro nth_equalityI) (auto simp: less_Suc_eq numeral_eq_Suc)
  have pk: "peek a 20 s2 = reply_hdr0 bs 0"
  proof -
    have "peek a 20 s2 = map (\<lambda>j. payload_bytes (pst_of s2) (a + j)) [0..<20]"
      by (intro nth_equalityI) (auto simp: peek_def load_bytes_def)
    also have "\<dots> = reply_hdr0 bs 0"
      unfolding upto20 reply_hdr0_def t8
      by (simp add: s2_def s1_def py write_bytes_def store_bytes_nth old b u16_bytes_def addr_bytes_def ICMP_TTL_def)
    finally show ?thesis .
  qed
  define ck where "ck = NOT (oc_sum (reply_hdr0 bs 0))"
  have "inet_chksum lwip_standard_chksum2 a (peek a 20 s2) = ck"
    unfolding pk ck_def using l by (subst alg2.inet_chksum_spec) simp_all
  then have w: "pst_of (write_reply p a s) = write_bytes (a + 10) (u16_bytes ck) (pst_of s2)" by (simp add: wr)
  let ?h = "reply_hdr bs @ take 4 (reply_msg (drop 20 bs))"
  have h: "?h = reply_hdr0 bs ck @ [0, bs ! 21] @ u16_bytes ec"
    using l by (simp add: reply_hdr_def ck_def reply_msg_def ec_def)
  have lh: "length ?h = 24" using l by (simp add: h)
  have "map (\<lambda>j. payload_bytes (pst_of (write_reply p a s)) (a + j)) [0..<24] = ?h"
    unfolding upto24 h w reply_hdr0_def t8
    by (simp add: s2_def s1_def py write_bytes_def store_bytes_nth old b u16_bytes_def addr_bytes_def ICMP_TTL_def ICMP_ER_def)
  then have "payload_bytes (pst_of (write_reply p a s)) (a + j) = ?h ! j" if "j < length ?h" for j
    using that lh nth_map [of j "[0..<24]" "\<lambda>j. payload_bytes (pst_of (write_reply p a s)) (a + j)"] by simp
  moreover have "payload_bytes (pst_of (write_reply p a s)) i = payload_bytes ?st i" if "i < a \<or> a + length ?h \<le> i" for i
    using that unfolding lh w by (elim disjE) (simp_all add: write_other addr_bytes_def s2_def s1_def py)
  ultimately have "payload_bytes (pst_of (write_reply p a s)) = payload_bytes (write_bytes a ?h ?st)" by (rule writes_cover)
  then show ?thesis unfolding w by (simp add: write_bytes_def s2_def s1_def)
qed

lemma grow_shrink: "k \<le> len_of st p \<Longrightarrow> k \<le> p_tot_len (pbufs st p) \<Longrightarrow> grow p k (shrink p k st) = st"
  by (simp add: grow_def shrink_def upd_pbuf_def)

lemma shrink_grow: "k \<le> p_payload (pbufs st p) \<Longrightarrow> shrink p k (grow p k st) = st"
  by (simp add: grow_def shrink_def upd_pbuf_def)

lemma grow_write: "grow p k (write_bytes a bs st) = write_bytes a bs (grow p k st)"
  by (simp add: grow_def upd_pbuf_def write_bytes_def)

lemma take_one: "0 < length xs \<Longrightarrow> take (Suc 0) xs = [xs ! 0]"
  by (cases xs) auto

lemma header_write:
  "pbuf_header c (Some p) k (write_bytes a bs st) = (let (r, st') = pbuf_header c (Some p) k st in (r, write_bytes a bs st'))"
  by (simp add: pbuf_header_def Let_def write_bytes_def upd_pbuf_def)

lemma set_pst_twice [simp]: "set_pst st (set_pst st' s) = set_pst st s"
  by (simp add: set_pst_def)

lemma write_reply_set: "write_reply p a s = set_pst (pst_of (write_reply p a s)) s"
  by (simp add: write_reply_def Let_def put_hdr_def put_at_def poke_def set_pst_def)

lemma room_shrunk:
  assumes r: "room c st p rest k" and p: "p \<notin> set rest" "20 \<le> len_of st p"
  shows "room c (shrink p 20 st) p rest (20 + k)"
proof -
  have same: "pbufs (shrink p 20 st) b = pbufs st b" if "b \<in> set rest" for b
    using that p by (cases "b = p") simp_all
  then have "total (shrink p 20 st) rest = total st rest" "\<forall>b \<in> set rest. region (shrink p 20 st) b = region st b"
    by (auto simp: region_def intro: total_cong)
  with r p show ?thesis by (simp add: room_def)
qed

lemma make_room_in_place:
  assumes pk: "packet st (Some p) (p # rest)" and r: "room c st p rest (IP_HLEN + PBUF_LINK_HLEN c)"
  shows "make_room c env p hlen a (set_pst st s) = Some (Some (p, a), set_pst st s)"
proof -
  let ?k = "IP_HLEN + PBUF_LINK_HLEN c"
  have k: "0 < ?k" by (simp add: IP_HLEN_def)
  note g = header_grow(1,2) [OF pk r k]
  have "?k \<le> p_payload (pbufs st p)" using r by (simp add: room_def)
  note id = shrink_grow [OF this]
  have q: "p + SIZEOF_STRUCT_PBUF c \<le> p_payload (pbufs (grow p ?k st) p)" using r by (auto simp: room_def)
  have "pbuf_header c (Some p) (- int ?k) (grow p ?k st) = (0, shrink p ?k (grow p ?k st))"
    by (rule header_shrink(1) [OF g(2) _ k q]) simp
  then show ?thesis using g(1) unfolding id make_room_def by (simp add: Let_def)
qed

lemma icmp_echo_state:
  assumes pk: "packet (pst_of s) (Some p) (p # rest)" and l: "28 \<le> len_of (pst_of s) p"
    and r: "room c (pst_of s) p rest (PBUF_LINK_HLEN c)" and h: "hdr_len bs = 20" "bs ! 20 = ICMP_ECHO"
    and cur: "current_iphdr_src s = hdr_src bs" "current_iphdr_dest s = hdr_dest bs"
    and d: "\<not> ip_addr_ismulticast (hdr_dest bs)" "\<not> ip4_addr_isbroadcast (hdr_dest bs) (netif.truncate (nifs s inp))"
    and v: "NOT (oc_sum (drop 20 bs)) = 0" and bs: "bs = contents (pst_of s) (p # rest)"
  shows "\<exists>s1. icmp_input c env out frag p inp s = do { (_, s2) \<leftarrow> ip_send out frag p (hdr_src bs) inp s1; ip_free c env p s2 } \<and>
    packet (pst_of s1) (Some p) (p # rest) \<and> contents (pst_of s1) (p # rest) = reply_hdr bs @ reply_msg (drop 20 bs) \<and>
    pbufs (pst_of s1) = pbufs (pst_of s) \<and> nifs s1 = nifs s \<and> net_arp s1 = (net_arp s)\<lparr>a_st := pst_of s1\<rparr>"
proof -
  let ?st = "pst_of s" and ?h = "reply_hdr bs @ take 4 (reply_msg (drop 20 bs))"
  define a where "a = p_payload (pbufs ?st p)"
  have lb: "28 \<le> length bs" "len_of ?st p \<le> length bs" using l by (simp_all add: bs)
  have t: "p_tot_len (pbufs ?st p) = length bs" using tot_len_packet [OF pk] by (simp add: bs)
  have q: "p + SIZEOF_STRUCT_PBUF c \<le> p_payload (pbufs ?st p)" using r by (simp add: room_def)
  have l20: "20 \<le> len_of ?st p" using l by simp
  define st1 where "st1 = shrink p 20 ?st"
  note sh = header_shrink [OF pk l20 _ q, simplified, folded st1_def]
  have g: "get_hdr p k n s' = take n (drop k (contents (pst_of s') (p # rest)))"
    if "packet (pst_of s') (Some p) (p # rest)" "k + n \<le> len_of (pst_of s') p" for k n and s' :: "'a ip_scheme"
    by (rule get_hdr_bytes [OF that])
  have "bs \<noteq> []" using lb(1) by auto
  then have h0: "get_hdr p 0 1 s = [bs ! 0]" using g [OF pk, of 0 1] l take_one [of bs] lb by (simp add: bs [symmetric] del: contents_simps)
  have hl: "4 * uint (bs ! 0 AND 0x0f) = 20" using h(1) of_nat_unat [of "bs ! 0 AND 0x0f", where 'a = int]
    by (simp add: hdr_len_def del: of_nat_unat)
  define s1 where "s1 = set_pst st1 s"
  have p1: "packet (pst_of s1) (Some p) (p # rest)" "contents (pst_of s1) (p # rest) = drop 20 bs" "len_of (pst_of s1) p = len_of ?st p - 20"
    "p_payload (pbufs (pst_of s1) p) = a + 20" "p_tot_len (pbufs (pst_of s1) p) = length bs - 20"
    using sh(2,3) by (simp_all add: s1_def bs a_def st1_def t [unfolded bs])
  have s1_frame: "pst_of s1 = st1" "nifs s1 = nifs s" "current_iphdr_dest s1 = current_iphdr_dest s" by (simp_all add: s1_def)
  have ty: "get_hdr p 0 1 s1 = [ICMP_ECHO]"
    using g [OF p1(1), of 0 1] l lb h(2) by (simp add: p1(2,3) take_one del: contents_simps)
  from packet_chksum [OF p1(1)] v p1(2) obtain qs where qs: "chain_of (Some p) (pst_of s1) = Some qs"
    "inet_chksum_pbuf lwip_standard_chksum2 qs = 0" by auto
  have "\<not> length bs - 20 < 8" using lb by simp
  then have inp: "icmp_input c env out frag p inp s = icmp_echo c env out frag p inp 20 a s1"
    using sh(1) d qs p1(5) \<open>\<not> length bs - 20 < 8\<close> unfolding icmp_input_def h0
    by (simp add: Let_def hl ty [simplified] s1_frame cur flip: a_def s1_def)
  have "room c st1 p rest (IP_HLEN + PBUF_LINK_HLEN c)"
    unfolding st1_def IP_HLEN_def using packetD(4) [OF pk] l by (intro room_shrunk [OF r]) simp_all
  then have mr: "make_room c env p 20 a s1 = Some (Some (p, a), s1)"
    unfolding s1_def using p1(1) by (intro make_room_in_place) (simp_all add: s1_def)
  have ld: "load_bytes a 24 (payload_bytes (pst_of s1)) = take 24 bs"
    using get_at_contents [of 0 24 "net_arp s" p rest] l by (simp add: s1_def st1_def a_def bs get_at_def del: contents_simps)
  have wp: "pst_of (write_reply p a s1) = write_bytes a ?h st1"
    using write_reply_pst [OF p1(4) ld] lb cur by (simp add: s1_def)
  have "room c st1 p rest 20"
    by (rule room_less [OF \<open>room c st1 p rest (IP_HLEN + PBUF_LINK_HLEN c)\<close>]) (simp add: IP_HLEN_def)
  from header_grow(1) [OF _ this] p1(1) have "pbuf_header c (Some p) 20 st1 = (0, grow p 20 st1)" by (simp add: s1_def)
  moreover have "grow p 20 st1 = ?st" unfolding st1_def using l20 lb t by (intro grow_shrink) simp_all
  ultimately have gr: "pbuf_header c (Some p) 20 (write_bytes a ?h st1) = (0, write_bytes a ?h ?st)"
    by (simp add: header_write)
  define s2 where "s2 = set_pst (write_bytes a ?h ?st) s"
  have lh: "length ?h = 24" using lb by (simp add: reply_msg_def)
  have "0 + length ?h \<le> len_of ?st p" using lh l by simp
  note w = write_first [OF pk room_sep [OF r] this, folded a_def]
  have s2: "packet (pst_of s2) (Some p) (p # rest)" "pbufs (pst_of s2) = pbufs ?st" "nifs s2 = nifs s"
    "net_arp s2 = (net_arp s)\<lparr>a_st := pst_of s2\<rparr>"
    using w(1) by (simp_all add: s2_def set_pst_def)
  have "reply_msg (drop 20 bs) = take 4 (reply_msg (drop 20 bs)) @ drop 24 bs" using lb by (simp add: reply_msg_def)
  then have C: "contents (pst_of s2) (p # rest) = reply_hdr bs @ reply_msg (drop 20 bs)"
    using w(2) lh unfolding bs [symmetric] by (simp add: s2_def del: contents_simps)
  have "set_pst (write_bytes a ?h ?st) (write_reply p a s1) = s2"
    by (subst write_reply_set) (simp add: s2_def s1_def)
  moreover have "current_iphdr_dest (write_reply p a s1) = hdr_dest bs" by (subst write_reply_set) (simp add: s1_def cur)
  moreover have "ip_of (get_hdr p 16 4 s2) = hdr_src bs"
  proof -
    have "get_hdr p 16 4 s2 = take 4 (drop 16 (reply_hdr bs @ reply_msg (drop 20 bs)))"
      using g [OF s2(1), of 16 4] l C by (simp add: s2(2) del: contents_simps)
    then show ?thesis using lb by (simp add: reply_hdr_def reply_hdr0_def ip_of_addr)
  qed
  ultimately have "icmp_echo c env out frag p inp 20 a s1 = do { (_, s3) \<leftarrow> ip_send out frag p (hdr_src bs) inp s2; ip_free c env p s3 }"
    by (cases "ip_send out frag p (hdr_src bs) inp s2") (simp_all add: icmp_echo_def mr Let_def wp gr ip_output_if_def split_def)
  with inp s2 C show ?thesis by (intro exI [of _ s2]) simp
qed

lemma wsum_0: "wsum bs = 0 \<longleftrightarrow> set bs \<subseteq> {0}"
  by (induction bs rule: wsum.induct) (auto simp: unat_eq_0)

lemma reply_msg_verifies:
  assumes ms: "8 \<le> length ms" "ms ! 0 = 8" and v: "NOT (oc_sum ms) = 0"
  shows "NOT (oc_sum (reply_msg ms)) = 0 \<longleftrightarrow> \<not> (ms ! 1 = 0 \<and> set (drop 4 ms) \<subseteq> {0})"
proof -
  obtain code lo hi rest where m: "ms = 8 # code # lo # hi # rest"
    using ms by (cases ms; cases "tl ms"; cases "tl (tl ms)"; cases "tl (tl (tl ms))") auto
  have "le16 lo hi = 0xfff7" if "code = 0" "wsum rest = 0"
  proof -
    define k where "k = unat (le16 lo hi)"
    have "wsum ms = 8 + k" using that by (simp add: m k_def unat_le16)
    with v have z: "(8 + k) mod 65535 = 0" unfolding verifies_iff by simp
    have l: "k \<le> 65535" by (simp add: k_def)
    have "k = 65527"
    proof (cases "8 + k < 65535")
      case True
      with z show ?thesis by (simp only: mod_less)
    next
      case False
      with z have "(8 + k - 65535) mod 65535 = 0" using le_mod_geq [of 65535 "8 + k"] by simp
      moreover have "8 + k - 65535 < 65535" using l by simp
      ultimately have "8 + k - 65535 = 0" by (simp only: mod_less)
      with False show ?thesis by simp
    qed
    then show ?thesis by (simp add: k_def word_unat_eq_iff)
  qed
  then have "code = 0 \<and> le16 lo hi = 0xfff7 \<and> wsum rest = 0 \<longleftrightarrow> code = 0 \<and> set rest \<subseteq> {0}" by (auto simp: wsum_0)
  with echo_sum [OF m v] show ?thesis by (simp add: reply_msg_def m)
qed

section \<open>Property\<close>

text \<open>Property C32: an echo request without IP options whose checksum is right and that is for this host alone, with
  both headers in the first pbuf and room for a link header in front of it, is answered with the same data
  and identification: \<^verbatim>\<open>icmp_input\<close> exchanges the addresses, changes the type and both checksums and sends the
  packet.  The header checksum verifies, and that of the message verifies too, unless code, identifier,
  sequence number and data of the request are all zero.  (With options the code sums only the first 20 bytes of the
  header.)\<close>

theorem icmp_echo_reply:
  assumes "packet (pst_of s) (Some p) (p # rest)" and "28 \<le> len_of (pst_of s) p"
    and "room c (pst_of s) p rest (PBUF_LINK_HLEN c)" and "hdr_len bs = 20" and "bs ! 20 = 8"
    and "current_iphdr_src s = hdr_src bs" and "current_iphdr_dest s = hdr_dest bs"
    and "\<not> ip_addr_ismulticast (hdr_dest bs)" and "\<not> ip4_addr_isbroadcast (hdr_dest bs) (netif.truncate (nifs s inp))"
    and "NOT (oc_sum (drop 20 bs)) = 0" and "bs = contents (pst_of s) (p # rest)"
  shows "\<exists>s1 rs. icmp_input c env out frag p inp s = do { (_, s2) \<leftarrow> ip_send out frag p (hdr_src bs) inp s1; ip_free c env p s2 } \<and>
    packet (pst_of s1) (Some p) (p # rest) \<and> contents (pst_of s1) (p # rest) = rs \<and> length rs = length bs \<and>
    take 8 rs = take 8 bs \<and> rs ! 9 = bs ! 9 \<and> hdr_src rs = hdr_dest bs \<and> hdr_dest rs = hdr_src bs \<and>
    rs ! 20 = 0 \<and> rs ! 21 = bs ! 21 \<and> drop 24 rs = drop 24 bs \<and> NOT (oc_sum (take 20 rs)) = 0 \<and>
    (NOT (oc_sum (drop 20 rs)) = 0 \<longleftrightarrow> \<not> (bs ! 21 = 0 \<and> set (drop 24 bs) \<subseteq> {0}))"
proof -
  have "bs ! 20 = ICMP_ECHO" using assms(5) by (simp add: ICMP_ECHO_def)
  from icmp_echo_state [OF assms(1-4) this assms(6-11), of env out frag] obtain s1 where
    s1: "icmp_input c env out frag p inp s = do { (_, s2) \<leftarrow> ip_send out frag p (hdr_src bs) inp s1; ip_free c env p s2 }"
      "packet (pst_of s1) (Some p) (p # rest)" "contents (pst_of s1) (p # rest) = reply_hdr bs @ reply_msg (drop 20 bs)" by blast
  have lb: "28 \<le> length bs" using assms(2) unfolding assms(11) by simp
  let ?rs = "reply_hdr bs @ reply_msg (drop 20 bs)"
  have h: "reply_hdr bs = take 8 bs @ [255, bs ! 9] @ u16_bytes (NOT (oc_sum (reply_hdr0 bs 0))) @ addr_bytes (hdr_dest bs) @ addr_bytes (hdr_src bs)"
    by (simp add: reply_hdr_def reply_hdr0_def)
  have len: "length (reply_hdr bs) = 20" "length ?rs = length bs" using lb by (simp_all add: reply_msg_def)
  moreover have "take 8 ?rs = take 8 bs" "?rs ! 9 = bs ! 9" using lb by (simp_all add: h nth_append)
  moreover have "?rs ! 20 = 0" "?rs ! 21 = bs ! 21" "drop 24 ?rs = drop 24 bs"
    using lb by (simp_all add: nth_append len(1) reply_msg_def)
  moreover have "hdr_src ?rs = hdr_dest bs" "hdr_dest ?rs = hdr_src bs"
    using lb by (simp_all add: hdr_src_def hdr_dest_def h ip_of_addr)
  moreover have "NOT (oc_sum (take 20 ?rs)) = 0" using reply_hdr_verifies [of bs] lb by simp
  moreover have "NOT (oc_sum (drop 20 ?rs)) = 0 \<longleftrightarrow> \<not> (bs ! 21 = 0 \<and> set (drop 24 bs) \<subseteq> {0})"
    using reply_msg_verifies [of "drop 20 bs"] lb assms(5,10) by simp
  ultimately show ?thesis using s1 by (intro exI [of _ s1] exI [of _ ?rs]) blast
qed

text \<open>A request with identifier and sequence number 256, received by the host of the other witnesses.\<close>

definition ex_ping :: "u8 list" where
  "ex_ping = ip_hdr 0 28 7 64 1 0x0202A8C0 0x0102A8C0 @ [8, 0, 0xf7, 0xfd, 0, 1, 0, 1]"

lemma icmp_echo_reply_witness:
  "\<exists>s1 rs. icmp_input ex_cfg ex_env (\<lambda>_ _ _ a. Some (ERR_OK, a)) (\<lambda>_ _ _ a. None) 600 1
      ((ex_ip (ex_rx ex_ping))\<lparr>current_iphdr_src := 0x0202A8C0, current_iphdr_dest := 0x0102A8C0\<rparr>) =
      do { (_, s2) \<leftarrow> ip_send (\<lambda>_ _ _ a. Some (ERR_OK, a)) (\<lambda>_ _ _ a. None) 600 0x0202A8C0 1 s1; ip_free ex_cfg ex_env 600 s2 } \<and>
    contents (pst_of s1) [600] = rs \<and> drop 24 rs = [0, 1, 0, 1] \<and> NOT (oc_sum (drop 20 rs)) = 0"
proof -
  let ?s = "(ex_ip (ex_rx ex_ping))\<lparr>current_iphdr_src := 0x0202A8C0, current_iphdr_dest := 0x0102A8C0\<rparr>"
  have l: "length ex_ping = 28" by (simp add: ex_ping_def)
  then have "length ex_ping < 65536" by simp
  note F = ex_rx_facts [OF this]
  note H = ip_hdr_fields [of 0 28 7 64 1 "0x0202A8C0" "0x0102A8C0" "[8, 0, 0xf7, 0xfd, 0, 1, 0, 1]", folded ex_ping_def]
  have p: "pst_of ?s = ex_rx ex_ping" by (simp add: ex_tx_facts(3))
  have d: "drop 20 ex_ping = [8, 0, 0xf7, 0xfd, 0, 1, 0, 1]" by (simp add: ex_ping_def)
  have v: "NOT (oc_sum (drop 20 ex_ping)) = 0" unfolding d by (simp add: verifies_iff)
  have b: "ex_ping ! 20 = 8" "ex_ping ! 21 = 0" "drop 24 ex_ping = [0, 1, 0, 1]" by (simp_all add: ex_ping_def nth_append)
  have "packet (pst_of ?s) (Some 600) [600]" "28 \<le> len_of (pst_of ?s) 600" "ex_ping = contents (pst_of ?s) [600]"
    unfolding p using F l by (simp_all del: contents_simps)
  moreover have "room ex_cfg (pst_of ?s) 600 [] (PBUF_LINK_HLEN ex_cfg)"
    unfolding p using F l by (simp add: room_def SIZEOF_STRUCT_PBUF_def ex_facts(7)) (simp add: ex_cfg_def)
  moreover have "current_iphdr_src ?s = hdr_src ex_ping" "current_iphdr_dest ?s = hdr_dest ex_ping" unfolding H by simp_all
  moreover have "\<not> ip_addr_ismulticast (hdr_dest ex_ping)" "\<not> ip4_addr_isbroadcast (hdr_dest ex_ping) (netif.truncate (nifs ?s 1))"
    unfolding H by (simp_all add: ip_addr_ismulticast_def ip4_addr_isbroadcast_def ex_ip_def ex_nif_def netif.truncate_def ip_addr_netcmp_def)
  ultimately obtain s1 rs where
    "icmp_input ex_cfg ex_env (\<lambda>_ _ _ a. Some (ERR_OK, a)) (\<lambda>_ _ _ a. None) 600 1 ?s =
      do { (_, s2) \<leftarrow> ip_send (\<lambda>_ _ _ a. Some (ERR_OK, a)) (\<lambda>_ _ _ a. None) 600 (hdr_src ex_ping) 1 s1; ip_free ex_cfg ex_env 600 s2 }"
    "contents (pst_of s1) [600] = rs" "drop 24 rs = drop 24 ex_ping"
    "NOT (oc_sum (drop 20 rs)) = 0 \<longleftrightarrow> \<not> (ex_ping ! 21 = 0 \<and> set (drop 24 ex_ping) \<subseteq> {0})"
    using icmp_echo_reply [of ?s 600 "[]" ex_cfg ex_ping 1 ex_env "\<lambda>_ _ _ a. Some (ERR_OK, a)" "\<lambda>_ _ _ a. None"] H(1) b(1) v by blast
  then show ?thesis unfolding H b by auto
qed

end
