(* ===== verification/Netif_Spec.thy ===== *)
theory Netif_Spec
  imports Ip_Spec
begin

text \<open>
  The list of interfaces as a sequence of addresses: what adding and removing do to it, and that every
  operation keeps it well formed, so that the searches of \<^verbatim>\<open>ip.c\<close> along it end.
\<close>

section \<open>Frames\<close>

lemma upd_nif_simps [simp]: "nifs (upd_nif n f s) k = (if k = n then f (nifs s n) else nifs s k)"
  "netif_list (upd_nif n f s) = netif_list s" "netif_default (upd_nif n f s) = netif_default s"
  "netif_num (upd_nif n f s) = netif_num s" "net_arp (upd_nif n f s) = net_arp s"
  by (simp_all add: upd_nif_def)

text \<open>The parts of the state the list consists of.\<close>

definition same_list :: "'a net_scheme \<Rightarrow> 'a net_scheme \<Rightarrow> bool" where
  "same_list s s' \<longleftrightarrow> netif_list s' = netif_list s \<and> netif_default s' = netif_default s \<and>
     (\<forall>k. nif_next (nifs s' k) = nif_next (nifs s k))"

lemma same_list_refl [simp, intro]: "same_list s s"
  by (simp add: same_list_def)

lemma same_list_trans: "same_list s s' \<Longrightarrow> same_list s' s'' \<Longrightarrow> same_list s s''"
  by (simp add: same_list_def)

lemma same_list_upd [intro]: "(\<And>x. nif_next (f x) = nif_next x) \<Longrightarrow> same_list s s' \<Longrightarrow> same_list s (upd_nif n f s')"
  by (simp add: same_list_def)

lemma same_list_from [simp]: "(\<And>x. nif_next (f x) = nif_next x) \<Longrightarrow> same_list (upd_nif n f s) s' = same_list s s'"
  by (auto simp: same_list_def)

lemma same_list_arp [intro]: "same_list s s' \<Longrightarrow> same_list s (s'\<lparr>net_arp := a\<rparr>)"
  by (simp add: same_list_def)

lemma on_arp_list: "on_arp f s = Some (r, s') \<Longrightarrow> same_list s s'"
  by (auto simp: on_arp_def bind_eq_Some_conv)

lemma announce_list: "announce c env lo n s = Some s' \<Longrightarrow> same_list s s'"
  by (auto simp: announce_def dest!: on_arp_list split: if_splits)

lemma netif_set_up_list: "netif_set_up c env lo n s = Some s' \<Longrightarrow> same_list s s'"
  by (auto simp: netif_set_up_def Let_def same_list_upd dest!: announce_list split: if_splits)

lemma netif_set_link_up_list: "netif_set_link_up c env lo n s = Some s' \<Longrightarrow> same_list s s'"
  by (auto simp: netif_set_link_up_def Let_def same_list_upd dest!: announce_list split: if_splits)

lemma netif_set_down_list: "netif_set_down c env n s = Some s' \<Longrightarrow> same_list s s'"
  by (auto simp: netif_set_down_def Let_def same_list_upd split: if_splits)

lemma netif_set_link_down_list: "same_list s (netif_set_link_down n s)"
  by (simp add: netif_set_link_down_def same_list_upd)

lemma netif_set_masks_list: "same_list s (netif_set_netmask n m s)" "same_list s (netif_set_gw n m s)"
  by (simp_all add: netif_set_netmask_def netif_set_gw_def same_list_upd)

lemma netif_set_addr_list:
  assumes "netif_set_addr moved n ip nm gw s = Some s'" and "\<And>a b t t'. moved a b t = Some t' \<Longrightarrow> same_list t t'"
  shows "same_list s s'"
proof -
  from assms(1) obtain s1 where s1: "netif_set_ipaddr moved n ip s = Some s1"
    and s': "s' = netif_set_gw n gw (netif_set_netmask n nm s1)"
    by (auto simp: netif_set_addr_def bind_eq_Some_conv)
  have "same_list s s1" using s1 assms(2)
    by (auto simp: netif_set_ipaddr_def bind_eq_Some_conv intro!: same_list_upd split: option.splits if_splits)
  then show ?thesis unfolding s' by (meson same_list_trans netif_set_masks_list)
qed

section \<open>Adding and removing\<close>

lemma nif_chain_same: "same_list s s' \<Longrightarrow> nif_chain s' xs = nif_chain s xs"
  unfolding nif_chain_def same_list_def by (elim conjE) (simp add: fun_eq_iff)

lemma nif_chain_default [simp]: "nif_chain (s\<lparr>netif_default := d\<rparr>) xs = nif_chain s xs"
  by (simp add: nif_chain_def)

lemma nif_chain_distinct: "nif_chain s xs \<Longrightarrow> distinct xs"
  unfolding nif_chain_def by (rule chain_distinct)

lemma find_prev_spec:
  "chain (\<lambda>n. nif_next (nf n)) t xs \<Longrightarrow> find_prev nf n t = Some (find (\<lambda>a. nif_next (nf a) = Some n) xs)"
proof (induction xs arbitrary: t)
  case Nil
  then show ?case by (subst find_prev.simps) simp
next
  case (Cons a xs)
  then show ?case by (subst find_prev.simps) auto
qed

text \<open>Unlinking behind the predecessor; without one the element is not in the list.\<close>

lemma unlink_chain:
  "chain nx p (x # xs) \<Longrightarrow> n \<noteq> x \<Longrightarrow>
    (case find (\<lambda>b. nx b = Some n) (x # xs) of
       None \<Rightarrow> n \<notin> set xs
     | Some b \<Rightarrow> n \<in> set xs \<and> b \<in> set (x # xs) \<and> chain (nx(b := nx n)) p (x # remove1 n xs))"
proof (induction xs arbitrary: p x)
  case Nil
  then show ?case by simp
next
  case (Cons y ys)
  from chain_distinct [OF Cons.prems(1)] have d: "x \<noteq> y" "x \<notin> set ys" by auto
  show ?case
  proof (cases "y = n")
    case True
    with Cons.prems d show ?thesis by (auto simp: chain_upd)
  next
    case False
    with Cons.prems have y: "chain nx (Some y) (y # ys)" "nx x = Some y" "p = Some x" by auto
    have f: "find (\<lambda>b. nx b = Some n) (x # y # ys) = find (\<lambda>b. nx b = Some n) (y # ys)" using y(2) False by simp
    note IH = Cons.IH [OF y(1) False [symmetric]]
    show ?thesis
    proof (cases "find (\<lambda>b. nx b = Some n) (y # ys)")
      case None
      with IH False show ?thesis unfolding f by simp
    next
      case (Some b)
      with IH have b: "n \<in> set ys" "b \<in> set (y # ys)" "chain (nx(b := nx n)) (Some y) (y # remove1 n ys)" by simp_all
      with d have "x \<noteq> b" by auto
      with b y False show ?thesis unfolding f Some by simp
    qed
  qed
qed

lemma unlink_nif_spec:
  assumes nc: "nif_chain s xs"
  shows "\<exists>s'. unlink_nif n s = Some (n \<in> set xs, s') \<and> nif_chain s' (remove1 n xs) \<and> netif_default s' = netif_default s \<and>
    (\<forall>k. nifs s' k = (nifs s k)\<lparr>nif_next := nif_next (nifs s' k)\<rparr>)"
proof (cases xs)
  case Nil
  with nc show ?thesis by (simp add: unlink_nif_def nif_chain_def find_prev.simps)
next
  case (Cons x ys)
  with nc have c: "chain (nlinks s) (Some x) (x # ys)" and l: "netif_list s = Some x" by (auto simp: nif_chain_def)
  show ?thesis
  proof (cases "x = n")
    case True
    with Cons l c show ?thesis by (simp add: unlink_nif_def nif_chain_def)
  next
    case False
    note u = unlink_chain [OF c False [symmetric]]
    have f: "find_prev (nifs s) n (netif_list s) = Some (find (\<lambda>a. nif_next (nifs s a) = Some n) (x # ys))"
      using c unfolding l by (rule find_prev_spec)
    show ?thesis
    proof (cases "find (\<lambda>a. nif_next (nifs s a) = Some n) (x # ys)")
      case None
      with u f l False Cons nc show ?thesis by (simp add: unlink_nif_def remove1_idem)
    next
      case (Some b)
      let ?s = "upd_nif b (\<lambda>x. x\<lparr>nif_next := nif_next (nifs s n)\<rparr>) s"
      have "nlinks ?s = (nlinks s)(b := nif_next (nifs s n))" by auto
      then show ?thesis using Some u f l False Cons by (auto simp: unlink_nif_def nif_chain_def)
    qed
  qed
qed


lemma netif_add_chain:
  assumes nc: "nif_chain s xs" and n: "n \<notin> set xs" and a: "netif_add moved init n ip nm gw s = Some (ok, s')"
    and moved: "\<And>a b t t'. moved a b t = Some t' \<Longrightarrow> same_list t t'" and init: "\<And>t. same_list t (snd (init n t))"
  shows "nif_chain s' (if ok then n # xs else xs) \<and> netif_default s' = netif_default s"
proof -
  define s1 where "s1 = (upd_nif n (\<lambda>x. x\<lparr>nif_ip_addr := 0, nif_netmask := 0, nif_gw := 0, nif_flags := 0,
    nif_num := netif_num s\<rparr>) s)\<lparr>netif_num := netif_num s + 1\<rparr>"
  have 1: "same_list s s1" by (auto simp: s1_def same_list_def)
  from a obtain s2 where s2: "netif_set_addr moved n ip nm gw s1 = Some s2"
    and r: "(let (r, s) = init n s2 in if r \<noteq> ERR_OK then Some (False, s)
       else let s = upd_nif n (\<lambda>x. x\<lparr>nif_next := netif_list s\<rparr>) s in Some (True, s\<lparr>netif_list := Some n\<rparr>)) = Some (ok, s')"
    by (auto simp: netif_add_def Let_def s1_def bind_eq_Some_conv)
  obtain e s3 where e: "init n s2 = (e, s3)" by (cases "init n s2")
  have "same_list s s3"
    using same_list_trans [OF same_list_trans [OF 1 netif_set_addr_list [OF s2 moved]] init [of s2]] by (simp add: e)
  then have nc3: "nif_chain s3 xs" "netif_default s3 = netif_default s" using nc by (simp_all add: nif_chain_same) (simp add: same_list_def)
  show ?thesis
  proof (cases "e = ERR_OK")
    case True
    let ?s = "upd_nif n (\<lambda>x. x\<lparr>nif_next := netif_list s3\<rparr>) s3"
    have "nlinks ?s = (nlinks s3)(n := netif_list s3)" by auto
    with True e r n nc3 show ?thesis by (auto simp: Let_def nif_chain_def chain_upd)
  next
    case False
    with e r nc3 show ?thesis by auto
  qed
qed

lemma netif_remove_chain:
  assumes nc: "nif_chain s xs" and dn: "(if netif_is_up (nifs s n) then netif_set_down c env n s else Some s) = Some s1"
  shows "\<exists>s'. netif_remove c env (Some n) s = Some s' \<and> nif_chain s' (remove1 n xs) \<and>
    netif_default s' = (if n \<in> set xs \<and> netif_default s = Some n then None else netif_default s) \<and>
    (\<forall>k. nifs s' k = (nifs s1 k)\<lparr>nif_next := nif_next (nifs s' k)\<rparr>)"
proof -
  from dn have "same_list s s1" by (auto dest: netif_set_down_list split: if_splits)
  then have s1: "nif_chain s1 xs" "netif_default s1 = netif_default s" using nc by (simp_all add: nif_chain_same) (simp add: same_list_def)
  from unlink_nif_spec [OF s1(1), of n] obtain s2 where s2: "unlink_nif n s1 = Some (n \<in> set xs, s2)" "nif_chain s2 (remove1 n xs)"
    "netif_default s2 = netif_default s" "\<forall>k. nifs s2 k = (nifs s1 k)\<lparr>nif_next := nif_next (nifs s2 k)\<rparr>" using s1(2) by auto
  show ?thesis using s2 unfolding netif_remove_def by (simp add: dn netif_set_default_def)
qed

section \<open>Runs\<close>

text \<open>A well-formed list: it ends, and the default interface is on it.\<close>

definition net_wf :: "'a net_scheme \<Rightarrow> bool" where
  "net_wf s \<longleftrightarrow> (\<exists>xs. nif_chain s xs \<and> (\<forall>d. netif_default s = Some d \<longrightarrow> d \<in> set xs))"

inductive net_step ::
    "pbuf_cfg \<Rightarrow> pbuf_env \<Rightarrow> (nat \<Rightarrow> u8 list \<Rightarrow> err_t) \<Rightarrow> (u32 \<Rightarrow> u32 \<Rightarrow> 'a net_scheme \<Rightarrow> 'a net_scheme option) \<Rightarrow>
      (nat \<Rightarrow> 'a net_scheme \<Rightarrow> err_t \<times> 'a net_scheme) \<Rightarrow> 'a net_scheme \<Rightarrow> 'a net_scheme \<Rightarrow> bool" for c env lo moved init where
  add: "nif_chain s xs \<Longrightarrow> n \<notin> set xs \<Longrightarrow> netif_add moved init n ip nm gw s = Some (ok, s') \<Longrightarrow> net_step c env lo moved init s s'"
| remove: "netif_remove c env netif s = Some s' \<Longrightarrow> net_step c env lo moved init s s'"
| no_default: "net_step c env lo moved init s (netif_set_default None s)"
| default: "nif_chain s xs \<Longrightarrow> n \<in> set xs \<Longrightarrow> net_step c env lo moved init s (netif_set_default (Some n) s)"
| addr: "netif_set_addr moved n ip nm gw s = Some s' \<Longrightarrow> net_step c env lo moved init s s'"
| up: "netif_set_up c env lo n s = Some s' \<Longrightarrow> net_step c env lo moved init s s'"
| down: "netif_set_down c env n s = Some s' \<Longrightarrow> net_step c env lo moved init s s'"
| link_up: "netif_set_link_up c env lo n s = Some s' \<Longrightarrow> net_step c env lo moved init s s'"
| link_down: "net_step c env lo moved init s (netif_set_link_down n s)"

lemma net_wf_same: "net_wf s \<Longrightarrow> same_list s s' \<Longrightarrow> net_wf s'"
  unfolding net_wf_def by (metis nif_chain_same same_list_def)

lemma net_wf_remove:
  assumes wf: "net_wf s" and r: "netif_remove c env netif s = Some s'"
  shows "net_wf s'"
proof (cases netif)
  case None
  with wf r show ?thesis by (simp add: netif_remove_def)
next
  case (Some n)
  from wf obtain xs where xs: "nif_chain s xs" "\<forall>d. netif_default s = Some d \<longrightarrow> d \<in> set xs" by (auto simp: net_wf_def)
  from r Some obtain s1 where "(if netif_is_up (nifs s n) then netif_set_down c env n s else Some s) = Some s1"
    by (simp add: netif_remove_def bind_eq_Some_conv) blast
  from netif_remove_chain [OF xs(1) this] r Some have "nif_chain s' (remove1 n xs)"
    "netif_default s' = (if n \<in> set xs \<and> netif_default s = Some n then None else netif_default s)" by auto
  with xs(2) nif_chain_distinct [OF xs(1)] show ?thesis unfolding net_wf_def
    by (intro exI [of _ "remove1 n xs"]) (auto simp: set_remove1_eq split: if_splits)
qed

lemma net_step_wf:
  assumes "net_step c env lo moved init s s'" and "net_wf s"
    and moved: "\<And>a b t t'. moved a b t = Some t' \<Longrightarrow> same_list t t'" and init: "\<And>n t. same_list t (snd (init n t))"
  shows "net_wf s'"
  using assms(1,2)
proof cases
  case (add xs n ip nm gw ok)
  from netif_add_chain [OF add moved init] have "nif_chain s' (if ok then n # xs else xs)" "netif_default s' = netif_default s" by auto
  moreover have "\<forall>d. netif_default s = Some d \<longrightarrow> d \<in> set xs"
    using assms(2) add(1) chain_unique unfolding net_wf_def nif_chain_def by fast
  ultimately show ?thesis by (auto simp: net_wf_def split: if_splits)
next
  case (remove netif)
  with assms(2) show ?thesis by (rule net_wf_remove)
next
  case no_default
  with assms(2) show ?thesis by (auto simp: net_wf_def netif_set_default_def)
next
  case (default xs n)
  then show ?thesis by (auto simp: net_wf_def netif_set_default_def)
next
  case (addr n ip nm gw)
  show ?thesis by (rule net_wf_same [OF assms(2) netif_set_addr_list [OF addr moved]])
qed (use assms(2) in \<open>auto intro: net_wf_same netif_set_up_list netif_set_down_list netif_set_link_up_list netif_set_link_down_list\<close>)

lemma ip_route_spec:
  assumes "nif_chain s xs"
  shows "ip_route dest s = Some (case find (\<lambda>n. netif_is_up (nifs s n) \<and> ip_addr_netcmp dest (nif_ip_addr (nifs s n)) (nif_netmask (nifs s n))) xs of
      Some n \<Rightarrow> Some n
    | None \<Rightarrow> (case netif_default s of None \<Rightarrow> None | Some d \<Rightarrow> if netif_is_up (nifs s d) then Some d else None))"
  using assms route_loop_spec [of "nifs s" "netif_list s" xs dest]
  by (auto simp: nif_chain_def ip_route_def split: option.splits)


lemma removed_down:
  assumes "(if netif_is_up (nifs s n) then netif_set_down c env n s else Some s) = Some s1"
  shows "\<not> netif_is_up (nifs s1 n)"
proof -
  have "(w AND NOT NETIF_FLAG_UP) AND NETIF_FLAG_UP = 0" for w :: u8
    by (simp add: bit_eq_iff bit_and_iff bit_not_iff)
  with assms show ?thesis by (auto simp: netif_set_down_def netif_is_up_def Let_def split: if_splits)
qed

section \<open>Properties\<close>

text \<open>Property C33: in every run of adding, removing, configuring and switching interfaces, in which no interface is
  added while it is on the list and the default is one on the list, the list stays well formed: it ends, all its
  interfaces differ and the default one is among them.  So \<^verbatim>\<open>ip_route\<close> returns, and what it returns is up and
  on the list.\<close>

theorem netif_list_wf:
  assumes "(net_step c env lo moved init)\<^sup>*\<^sup>* s s'" and "net_wf s"
    and "\<And>a b t t'. moved a b t = Some t' \<Longrightarrow> same_list t t'" and "\<And>n t. same_list t (snd (init n t))"
  shows "\<exists>xs r. nif_chain s' xs \<and> distinct xs \<and> (\<forall>d. netif_default s' = Some d \<longrightarrow> d \<in> set xs) \<and>
    ip_route dest s' = Some r \<and> (\<forall>n. r = Some n \<longrightarrow> n \<in> set xs \<and> netif_is_up (nifs s' n))"
proof -
  from assms(1,2) have "net_wf s'" by (induction rule: rtranclp_induct) (use net_step_wf assms(3,4) in \<open>blast+\<close>)
  then obtain xs where xs: "nif_chain s' xs" "\<forall>d. netif_default s' = Some d \<longrightarrow> d \<in> set xs" by (auto simp: net_wf_def)
  show ?thesis using xs nif_chain_distinct [OF xs(1)] ip_route_spec [OF xs(1), of dest]
    by (intro exI [of _ xs]) (auto simp: find_Some_iff split: option.splits)
qed

text \<open>Property C34: \<^verbatim>\<open>netif_remove\<close> takes the interface off the list and keeps the order of the others; no packet is routed
  to it any more, also when it was the default or not on the list.\<close>

theorem netif_remove_unroutes:
  assumes "nif_chain s xs" and "(if netif_is_up (nifs s n) then netif_set_down c env n s else Some s) = Some s1"
  shows "\<exists>s' r. netif_remove c env (Some n) s = Some s' \<and> nif_chain s' (remove1 n xs) \<and>
    netif_default s' = (if n \<in> set xs \<and> netif_default s = Some n then None else netif_default s) \<and>
    ip_route dest s' = Some r \<and> r \<noteq> Some n"
proof -
  from netif_remove_chain [OF assms] obtain s' where s': "netif_remove c env (Some n) s = Some s'" "nif_chain s' (remove1 n xs)"
    "netif_default s' = (if n \<in> set xs \<and> netif_default s = Some n then None else netif_default s)"
    "\<forall>k. nifs s' k = (nifs s1 k)\<lparr>nif_next := nif_next (nifs s' k)\<rparr>" by blast
  have "netif_is_up (nifs s' n) = netif_is_up (nifs s1 n)" by (subst s'(4) [rule_format]) (simp add: netif_is_up_def)
  then have "\<not> netif_is_up (nifs s' n)" using removed_down [OF assms(2)] by simp
  then show ?thesis using s'(1-3) ip_route_spec [OF s'(2), of dest]
    by (auto simp: find_Some_iff split: option.splits)
qed

text \<open>A host without interfaces gets one, which becomes the default; the host of the other witnesses loses its only one.\<close>

definition ex_net :: net where
  "ex_net = \<lparr>net_arp = arp_init ex_st, nifs = (\<lambda>_. ex_nif 0 1 None), netif_list = None, netif_default = None, netif_num = 0\<rparr>"

lemma netif_list_wf_witness:
  "\<exists>s1 xs r. netif_add (\<lambda>_ _. Some) (\<lambda>_ t. (ERR_OK, t)) 5 (Some 0x0102A8C0) (Some 0x00FFFFFF) None ex_net = Some (True, s1) \<and>
    nif_chain (netif_set_default (Some 5) s1) xs \<and> ip_route 0x0202A8C0 (netif_set_default (Some 5) s1) = Some r"
proof -
  let ?mv = "\<lambda>_ _. Some" and ?init = "\<lambda>_ t. (ERR_OK, t)"
  obtain s1 where s1: "netif_add ?mv ?init 5 (Some 0x0102A8C0) (Some 0x00FFFFFF) None ex_net = Some (True, s1)"
    by (simp add: netif_add_def netif_set_addr_def netif_set_ipaddr_def Let_def)
  have nc: "nif_chain ex_net []" by (simp add: nif_chain_def ex_net_def)
  have same: "\<And>a b t t'. Some t = Some t' \<Longrightarrow> same_list t t'" "\<And>n t. same_list t (snd (ERR_OK, t))" for a b :: u32
    by simp_all
  have "nif_chain s1 [5]" using netif_add_chain [OF nc _ s1] by auto
  then have "net_step ex_cfg ex_env (\<lambda>_ _. ERR_OK) ?mv ?init s1 (netif_set_default (Some 5) s1)" by (rule net_step.default) simp
  moreover have "net_step ex_cfg ex_env (\<lambda>_ _. ERR_OK) ?mv ?init ex_net s1" by (rule net_step.add [OF nc _ s1]) simp
  ultimately have "(net_step ex_cfg ex_env (\<lambda>_ _. ERR_OK) ?mv ?init)\<^sup>*\<^sup>* ex_net (netif_set_default (Some 5) s1)" by auto
  from netif_list_wf [OF this, of "0x0202A8C0"] nc show ?thesis using s1
    by (auto simp: net_wf_def ex_net_def)
qed

lemma netif_remove_unroutes_witness:
  "\<exists>s' r. netif_remove ex_cfg ex_env (Some 1) ((ex_ip ex_st)\<lparr>nifs := \<lambda>_. (ex_nif 0x0102A8C0 1 None)\<lparr>nif_flags := 0x10\<rparr>\<rparr>) = Some s' \<and>
    nif_chain s' [] \<and> ip_route 0x0202A8C0 s' = Some r \<and> r \<noteq> Some 1"
proof -
  let ?s = "(ex_ip ex_st)\<lparr>nifs := \<lambda>_. (ex_nif 0x0102A8C0 1 None)\<lparr>nif_flags := 0x10\<rparr>\<rparr>"
  have "nif_chain ?s [1]" by (simp add: nif_chain_def ex_ip_def ex_nif_def)
  moreover have "(if netif_is_up (nifs ?s 1) then netif_set_down ex_cfg ex_env 1 ?s else Some ?s) = Some ?s"
    by (simp add: netif_is_up_def NETIF_FLAG_UP_def)
  ultimately show ?thesis using netif_remove_unroutes [of ?s "[1]" 1 ex_cfg ex_env ?s "0x0202A8C0"] by auto
qed

end
