(* ===== verification/Pcb.thy ===== *)
theory Pcb
  imports Icmp_Spec Netif_Spec
begin

text \<open>
  What the lists of protocol control blocks of \<^verbatim>\<open>udp.c\<close> and \<^verbatim>\<open>raw.c\<close> have in common: the fields of \<^verbatim>\<open>IP_PCB\<close>
  and the operations on lists along \<^verbatim>\<open>next\<close>.  A list is the map of the \<^verbatim>\<open>next\<close> fields and the first element.
\<close>

record ip_pcb =
  local_ip :: u32
  remote_ip :: u32
  so_options :: u8
  tos :: u8
  ttl :: u8
  pcb_next :: "nat option"

type_synonym links = "(nat \<Rightarrow> nat option) \<times> nat option"

definition add_first :: "nat \<Rightarrow> links \<Rightarrow> links" where
  "add_first a l = (let (nx, h) = l in (nx(a := h), Some a))"

text \<open>The element \<open>a\<close> behind \<open>prev\<close> becomes the first.\<close>

definition to_front :: "nat \<Rightarrow> nat \<Rightarrow> links \<Rightarrow> links" where
  "to_front prev a l = (let (nx, h) = l; nx = nx(prev := nx a) in add_first a (nx, h))"

text \<open>The loop of \<^verbatim>\<open>udp_remove\<close> and \<^verbatim>\<open>raw_remove\<close>, which goes on behind the element it unlinks.\<close>

partial_function (option) remove_loop :: "nat \<Rightarrow> nat option \<Rightarrow> (nat \<Rightarrow> nat option) \<Rightarrow> (nat \<Rightarrow> nat option) option" where
  "remove_loop a t nx =
     (case t of
        None \<Rightarrow> Some nx
      | Some b \<Rightarrow> let nx = (if nx b = Some a then nx(b := nx a) else nx) in remove_loop a (nx b) nx)"

definition remove_pcb :: "nat \<Rightarrow> links \<Rightarrow> links option" where
  "remove_pcb a l =
     (let (nx, h) = l
      in if h = Some a then Some (nx, nx a) else do { nx \<leftarrow> remove_loop a h nx; Some (nx, h) })"

partial_function (option) in_list :: "(nat \<Rightarrow> nat option) \<Rightarrow> nat \<Rightarrow> nat option \<Rightarrow> bool option" where
  "in_list nx a t =
     (case t of None \<Rightarrow> Some False | Some b \<Rightarrow> if a = b then Some True else in_list nx a (nx b))"

section \<open>The lists they are\<close>

definition is_list :: "links \<Rightarrow> nat list \<Rightarrow> bool" where
  "is_list l xs \<longleftrightarrow> chain (fst l) (snd l) xs"

lemma is_list_distinct: "is_list l xs \<Longrightarrow> distinct xs"
  unfolding is_list_def by (rule chain_distinct)

lemma is_list_unique: "is_list l xs \<Longrightarrow> is_list l ys \<Longrightarrow> xs = ys"
  unfolding is_list_def by (rule chain_unique)

lemma add_first_list: "is_list l xs \<Longrightarrow> a \<notin> set xs \<Longrightarrow> is_list (add_first a l) (a # xs)"
  by (cases l) (simp add: is_list_def add_first_def chain_upd)

lemma chain_skip: "chain nx p (us @ b # a # vs) \<Longrightarrow> chain (nx(b := nx a)) p (us @ b # vs)"
proof (induction us arbitrary: p)
  case Nil
  then have "chain nx (nx a) vs" "b \<notin> set vs" using chain_distinct [OF Nil.prems] by auto
  then have "chain (nx(b := nx a)) (nx a) vs" by (intro chain_upd [THEN iffD2])
  with Nil show ?case by (simp add: fun_upd_def)
next
  case (Cons u us)
  from chain_distinct [OF Cons.prems] have "u \<noteq> b" by auto
  with Cons show ?case by simp
qed

lemma to_front_list:
  assumes "is_list l (us @ b # a # vs)"
  shows "is_list (to_front b a l) (a # us @ b # vs)"
proof -
  obtain nx h where l: "l = (nx, h)" by (cases l)
  with assms have c: "chain nx h (us @ b # a # vs)" by (simp add: is_list_def)
  from chain_distinct [OF c] have "a \<notin> set (us @ b # vs)" by auto
  then have "is_list (add_first a (nx(b := nx a), h)) (a # us @ b # vs)"
    using chain_skip [OF c] by (intro add_first_list) (simp_all add: is_list_def)
  then show ?thesis by (simp add: to_front_def l)
qed

lemma remove_loop_out: "chain nx t xs \<Longrightarrow> a \<notin> set xs \<Longrightarrow> remove_loop a t nx = Some nx"
proof (induction xs arbitrary: t)
  case Nil
  then show ?case by (subst remove_loop.simps) simp
next
  case (Cons b xs)
  then have "chain nx (nx b) xs" "nx b \<noteq> Some a" by (cases xs; auto)+
  with Cons show ?case by (subst remove_loop.simps) simp
qed

lemma remove_loop_spec:
  "chain nx t (b # xs) \<Longrightarrow> a \<in> set xs \<Longrightarrow> \<exists>nx'. remove_loop a t nx = Some nx' \<and> chain nx' t (b # remove1 a xs) \<and>
    (\<forall>k. k \<notin> set (b # xs) \<longrightarrow> nx' k = nx k)"
proof (induction xs arbitrary: t b nx)
  case Nil
  then show ?case by simp
next
  case (Cons c xs)
  then have t: "t = Some b" "nx b = Some c" and c: "chain nx (Some c) (c # xs)" by auto
  from chain_distinct [OF Cons.prems(1)] have d: "b \<noteq> c" "b \<notin> set xs" "c \<notin> set xs" by auto
  show ?case
  proof (cases "c = a")
    case True
    let ?nx = "nx(b := nx a)"
    have "chain ?nx (nx a) xs" using c True d by (simp add: chain_upd)
    with remove_loop_out [OF this] d True have "remove_loop a t nx = Some ?nx"
      using t by (subst remove_loop.simps) simp
    with \<open>chain ?nx (nx a) xs\<close> True t show ?thesis by auto
  next
    case False
    with Cons.prems have "a \<in> set xs" by simp
    from Cons.IH [OF c this] obtain nx' where nx': "remove_loop a (Some c) nx = Some nx'" "chain nx' (Some c) (c # remove1 a xs)"
      "\<forall>k. k \<notin> set (c # xs) \<longrightarrow> nx' k = nx k" by blast
    have "nx' b = nx b" using nx'(3) d by auto
    with nx' t False show ?thesis by (subst remove_loop.simps) auto
  qed
qed

lemma remove_pcb_list:
  assumes l: "is_list l xs"
  shows "\<exists>l'. remove_pcb a l = Some l' \<and> is_list l' (remove1 a xs)"
proof -
  obtain nx h where lh: "l = (nx, h)" by (cases l)
  with l have c: "chain nx h xs" by (simp add: is_list_def)
  show ?thesis
  proof (cases xs)
    case Nil
    with c lh show ?thesis by (simp add: remove_pcb_def is_list_def remove_loop.simps)
  next
    case (Cons x ys)
    with c have h: "h = Some x" by simp
    show ?thesis
    proof (cases "x = a")
      case True
      with c lh Cons h show ?thesis by (simp add: remove_pcb_def is_list_def)
    next
      case False
      show ?thesis
      proof (cases "a \<in> set ys")
        case True
        with remove_loop_spec [OF c [unfolded Cons] True] False h lh Cons show ?thesis
          by (auto simp: remove_pcb_def is_list_def)
      next
        case False
        with \<open>x \<noteq> a\<close> remove_loop_out [OF c, of a] h lh Cons c show ?thesis
          by (simp add: remove_pcb_def is_list_def remove1_idem)
      qed
    qed
  qed
qed

lemma in_list_spec: "chain nx t xs \<Longrightarrow> in_list nx a t = Some (a \<in> set xs)"
proof (induction xs arbitrary: t)
  case Nil
  then show ?case by (subst in_list.simps) simp
next
  case (Cons b xs)
  then show ?case by (subst in_list.simps) auto
qed

end
