(* ===== verification/Udp.thy ===== *)
theory Udp
  imports Pcb
begin

text \<open>
  \<^verbatim>\<open>lwip/src/core/udp.c\<close> in the default configuration (no UDP-Lite, no multicast groups, no \<^verbatim>\<open>SO_REUSE\<close>, no
  broadcast filters, checksums in software).

  A control block is a record at its address; \<open>pcb_links\<close> are its list and \<^verbatim>\<open>udp_pcbs\<close>.  Arguments are \<open>out\<close>
  and \<open>frag\<close> of \<^verbatim>\<open>ip_output_if\<close> and \<open>cb f arg pcb p addr port\<close>, the call of the callback at \<open>f\<close>.  A pointer to an
  address that may be null is the address, since \<^verbatim>\<open>ip_addr_set\<close> and \<^verbatim>\<open>ip_addr_isany\<close> treat null as 0.
\<close>

section \<open>State\<close>

record udp_pcb = ip_pcb +
  udp_flags :: u8
  local_port :: u16
  remote_port :: u16
  recv :: "nat option"
  recv_arg :: nat

record udp = ip +
  udp_at :: "nat \<Rightarrow> udp_pcb"
  udp_pcbs :: "nat option"
  udp_port :: u16

type_synonym 's recv_fn = "nat \<Rightarrow> nat \<Rightarrow> nat \<Rightarrow> nat \<Rightarrow> u32 \<Rightarrow> u16 \<Rightarrow> 's \<Rightarrow> 's option"

definition MEMP_UDP_PCB :: nat where "MEMP_UDP_PCB = 1"

definition UDP_HLEN :: nat where "UDP_HLEN = 8"

definition UDP_TTL :: u8 where "UDP_TTL = 255"

definition UDP_FLAGS_NOCHKSUM :: u8 where "UDP_FLAGS_NOCHKSUM = 1"

definition UDP_FLAGS_CONNECTED :: u8 where "UDP_FLAGS_CONNECTED = 4"

definition UDP_LOCAL_PORT_RANGE_START :: u16 where "UDP_LOCAL_PORT_RANGE_START = 0xc000"

definition UDP_LOCAL_PORT_RANGE_END :: u16 where "UDP_LOCAL_PORT_RANGE_END = 0xffff"

definition upd_udp :: "nat \<Rightarrow> (udp_pcb \<Rightarrow> udp_pcb) \<Rightarrow> 'a udp_scheme \<Rightarrow> 'a udp_scheme" where
  "upd_udp a f s = s\<lparr>udp_at := (udp_at s)(a := f (udp_at s a))\<rparr>"

definition pcb_links :: "'a udp_scheme \<Rightarrow> links" where
  "pcb_links s = (\<lambda>a. pcb_next (udp_at s a), udp_pcbs s)"

definition set_links :: "links \<Rightarrow> 'a udp_scheme \<Rightarrow> 'a udp_scheme" where
  "set_links l s = s\<lparr>udp_at := (\<lambda>a. (udp_at s a)\<lparr>pcb_next := fst l a\<rparr>), udp_pcbs := snd l\<rparr>"

section \<open>Ports\<close>

partial_function (option) port_used :: "(nat \<Rightarrow> udp_pcb) \<Rightarrow> u16 \<Rightarrow> nat option \<Rightarrow> bool option" where
  "port_used u port t =
     (case t of
        None \<Rightarrow> Some False
      | Some a \<Rightarrow> if local_port (u a) = port then Some True else port_used u port (pcb_next (u a)))"

definition next_port :: "u16 \<Rightarrow> u16" where
  "next_port port = (if port = UDP_LOCAL_PORT_RANGE_END then UDP_LOCAL_PORT_RANGE_START else port + 1)"

partial_function (option) new_port_loop ::
    "(nat \<Rightarrow> udp_pcb) \<Rightarrow> nat option \<Rightarrow> u16 \<Rightarrow> u16 \<Rightarrow> (u16 \<times> u16) option" where
  "new_port_loop u pcbs n port = do {
     let port = next_port port;
     used \<leftarrow> port_used u port pcbs;
     if used then (if n + 1 > UDP_LOCAL_PORT_RANGE_END - UDP_LOCAL_PORT_RANGE_START then Some (0, port)
                   else new_port_loop u pcbs (n + 1) port)
     else Some (port, port) }"

definition udp_new_port :: "'a udp_scheme \<Rightarrow> (u16 \<times> 'a udp_scheme) option" where
  "udp_new_port s = do {
     (r, port) \<leftarrow> new_port_loop (udp_at s) (udp_pcbs s) 0 (udp_port s);
     Some (r, s\<lparr>udp_port := port\<rparr>) }"

section \<open>Control blocks\<close>

definition conflict :: "u32 \<Rightarrow> u16 \<Rightarrow> udp_pcb \<Rightarrow> bool" where
  "conflict ipaddr port u \<longleftrightarrow>
     local_port u = port \<and> (ip_addr_isany (local_ip u) \<or> ip_addr_isany ipaddr \<or> local_ip u = ipaddr)"

text \<open>The loop of \<^verbatim>\<open>udp_bind\<close>: \<open>None\<close> inside when the address is taken, else \<^verbatim>\<open>rebind\<close>.\<close>

partial_function (option) bind_scan ::
    "(nat \<Rightarrow> udp_pcb) \<Rightarrow> nat \<Rightarrow> u32 \<Rightarrow> u16 \<Rightarrow> bool \<Rightarrow> nat option \<Rightarrow> bool option option" where
  "bind_scan u pcb ipaddr port rebind t =
     (case t of
        None \<Rightarrow> Some (Some rebind)
      | Some a \<Rightarrow>
          if pcb = a then bind_scan u pcb ipaddr port True (pcb_next (u a))
          else if conflict ipaddr port (u a) then Some None
          else bind_scan u pcb ipaddr port rebind (pcb_next (u a)))"

definition udp_bind :: "nat \<Rightarrow> u32 \<Rightarrow> u16 \<Rightarrow> 'a udp_scheme \<Rightarrow> (err_t \<times> 'a udp_scheme) option" where
  "udp_bind pcb ipaddr port s = do {
     r \<leftarrow> bind_scan (udp_at s) pcb ipaddr port False (udp_pcbs s);
     case r of
       None \<Rightarrow> Some (ERR_USE, s)
     | Some rebind \<Rightarrow> do {
         let s = upd_udp pcb (\<lambda>u. u\<lparr>local_ip := ipaddr\<rparr>) s;
         (port, s) \<leftarrow> (if port = 0 then udp_new_port s else Some (port, s));
         if port = 0 then Some (ERR_USE, s)
         else let s = upd_udp pcb (\<lambda>u. u\<lparr>local_port := port\<rparr>) s
              in Some (ERR_OK, if rebind then s else set_links (add_first pcb (pcb_links s)) s) } }"

text \<open>Sending and connecting bind a block that has no port yet.\<close>

definition bind_unbound :: "nat \<Rightarrow> 'a udp_scheme \<Rightarrow> (err_t \<times> 'a udp_scheme) option" where
  "bind_unbound pcb s =
     (if local_port (udp_at s pcb) = 0 then udp_bind pcb (local_ip (udp_at s pcb)) (local_port (udp_at s pcb)) s
      else Some (ERR_OK, s))"

definition udp_connect :: "nat \<Rightarrow> u32 \<Rightarrow> u16 \<Rightarrow> 'a udp_scheme \<Rightarrow> (err_t \<times> 'a udp_scheme) option" where
  "udp_connect pcb ipaddr port s = do {
     (e, s) \<leftarrow> bind_unbound pcb s;
     if e \<noteq> ERR_OK then Some (e, s)
     else do {
       let s = upd_udp pcb (\<lambda>u. u\<lparr>remote_ip := ipaddr, remote_port := port, udp_flags := udp_flags u OR UDP_FLAGS_CONNECTED\<rparr>) s;
       listed \<leftarrow> in_list (fst (pcb_links s)) pcb (udp_pcbs s);
       Some (ERR_OK, if listed then s else set_links (add_first pcb (pcb_links s)) s) } }"

definition udp_disconnect :: "nat \<Rightarrow> 'a udp_scheme \<Rightarrow> 'a udp_scheme" where
  "udp_disconnect pcb s =
     upd_udp pcb (\<lambda>u. u\<lparr>remote_ip := 0, remote_port := 0, udp_flags := udp_flags u AND NOT UDP_FLAGS_CONNECTED\<rparr>) s"

definition udp_recv :: "nat \<Rightarrow> nat option \<Rightarrow> nat \<Rightarrow> 'a udp_scheme \<Rightarrow> 'a udp_scheme" where
  "udp_recv pcb f arg s = upd_udp pcb (\<lambda>u. u\<lparr>recv := f, recv_arg := arg\<rparr>) s"

definition udp_remove :: "nat \<Rightarrow> 'a udp_scheme \<Rightarrow> 'a udp_scheme option" where
  "udp_remove pcb s = do {
     l \<leftarrow> remove_pcb pcb (pcb_links s);
     let s = set_links l s;
     Some (set_pst ((pst_of s)\<lparr>pbuf_pools := memp_free MEMP_UDP_PCB (Some pcb) (pbuf_pools (pst_of s))\<rparr>) s) }"

definition udp_new :: "'a udp_scheme \<Rightarrow> nat option \<times> 'a udp_scheme" where
  "udp_new s =
     (let (pcb, pools) = memp_malloc MEMP_UDP_PCB (pbuf_pools (pst_of s));
          s = set_pst ((pst_of s)\<lparr>pbuf_pools := pools\<rparr>) s
      in (pcb, case pcb of
                 None \<Rightarrow> s
               | Some a \<Rightarrow> upd_udp a (\<lambda>_. \<lparr>local_ip = 0, remote_ip = 0, so_options = 0, tos = 0, ttl = UDP_TTL, pcb_next = None,
                   udp_flags = 0, local_port = 0, remote_port = 0, recv = None, recv_arg = 0\<rparr>) s))"

section \<open>Input\<close>

text \<open>The block's local address and port match; \<open>nm\<close> is the netmask of the interface.\<close>

definition local_match :: "bool \<Rightarrow> u32 \<Rightarrow> u32 \<Rightarrow> u16 \<Rightarrow> udp_pcb \<Rightarrow> bool" where
  "local_match broadcast nm daddr dest u \<longleftrightarrow> local_port u = dest \<and>
     (\<not> broadcast \<and> ip_addr_isany (local_ip u) \<or> local_ip u = daddr \<or>
      broadcast \<and> (ip_addr_isany (local_ip u) \<or> ip_addr_netcmp (local_ip u) daddr nm))"

definition remote_match :: "u32 \<Rightarrow> u16 \<Rightarrow> udp_pcb \<Rightarrow> bool" where
  "remote_match saddr src u \<longleftrightarrow> remote_port u = src \<and> (ip_addr_isany (remote_ip u) \<or> remote_ip u = saddr)"

text \<open>The search of \<^verbatim>\<open>udp_input\<close>, for local match \<open>lm\<close> and remote match \<open>rm\<close>: the block found and the list.\<close>

partial_function (option) demux_loop ::
    "(udp_pcb \<Rightarrow> bool) \<Rightarrow> (udp_pcb \<Rightarrow> bool) \<Rightarrow> nat option \<Rightarrow> nat option \<Rightarrow> nat option \<Rightarrow> 'a udp_scheme \<Rightarrow>
      (nat option \<times> 'a udp_scheme) option" where
  "demux_loop lm rm prev uncon t s =
     (case t of
        None \<Rightarrow> Some (uncon, s)
      | Some a \<Rightarrow>
          let u = udp_at s a;
              uncon = (if lm u \<and> uncon = None \<and> udp_flags u AND UDP_FLAGS_CONNECTED = 0 then Some a else uncon)
          in if lm u \<and> rm u
             then Some (Some a, case prev of Some b \<Rightarrow> set_links (to_front b a (pcb_links s)) s | None \<Rightarrow> s)
             else demux_loop lm rm (Some a) uncon (pcb_next u) s)"

text \<open>The checksum of a received datagram is right or absent.\<close>

definition udp_chksum_ok :: "nat \<Rightarrow> 'a ip_scheme \<Rightarrow> bool option" where
  "udp_chksum_ok p s =
     (if u16_of (get_hdr p 6 2 s) \<noteq> 0 then do {
        qs \<leftarrow> chain_of (Some p) (pst_of s);
        Some (inet_chksum_pseudo lwip_standard_chksum2 qs (current_iphdr_src s) (current_iphdr_dest s) IP_PROTO_UDP
                (of_nat (p_tot_len (pbufs (pst_of s) p))) = 0) }
      else Some True)"

text \<open>The end of \<^verbatim>\<open>udp_input\<close>, behind the UDP header.\<close>

definition udp_deliver ::
    "pbuf_cfg \<Rightarrow> pbuf_env \<Rightarrow> output_fn \<Rightarrow> output_fn \<Rightarrow> 'a udp_scheme recv_fn \<Rightarrow> nat option \<Rightarrow> bool \<Rightarrow> int \<Rightarrow> u16 \<Rightarrow> nat \<Rightarrow>
      'a udp_scheme \<Rightarrow> 'a udp_scheme option" where
  "udp_deliver c env out frag cb pcb broadcast hlen src p s =
     (case pcb of
        Some a \<Rightarrow> (case recv (udp_at s a) of
                     Some f \<Rightarrow> cb f (recv_arg (udp_at s a)) a p (current_iphdr_src s) src s
                   | None \<Rightarrow> ip_free c env p s)
      | None \<Rightarrow> do {
          s \<leftarrow> (if \<not> broadcast \<and> \<not> ip_addr_ismulticast (current_iphdr_dest s) then
                 let (_, st) = pbuf_header c (Some p) (hlen + int UDP_HLEN) (pst_of s)
                 in icmp_dest_unreach c env out frag p ICMP_DUR_PORT (set_pst st s)
               else Some s);
          ip_free c env p s })"

definition udp_input ::
    "pbuf_cfg \<Rightarrow> pbuf_env \<Rightarrow> output_fn \<Rightarrow> output_fn \<Rightarrow> 'a udp_scheme recv_fn \<Rightarrow> nat \<Rightarrow> nat \<Rightarrow> 'a udp_scheme \<Rightarrow>
      'a udp_scheme option" where
  "udp_input c env out frag cb p inp s =
     (let hlen = 4 * uint (get_hdr p 0 1 s ! 0 AND 0x0f);
          (r, st) = (if int (p_tot_len (pbufs (pst_of s) p)) < hlen + int UDP_HLEN then (1, pst_of s)
                     else pbuf_header c (Some p) (- hlen) (pst_of s));
          s = set_pst st s
      in if r \<noteq> 0 then ip_free c env p s
         else do {
           let broadcast = ip4_addr_isbroadcast (current_iphdr_dest s) (netif.truncate (nifs s inp));
           let src = lwip_ntohs (u16_of (get_hdr p 0 2 s));
           let dest = lwip_ntohs (u16_of (get_hdr p 2 2 s));
           (pcb, s) \<leftarrow> demux_loop (local_match broadcast (nif_netmask (nifs s inp)) (current_iphdr_dest s) dest)
                        (remote_match (current_iphdr_src s) src) None None (udp_pcbs s) s;
           if pcb \<noteq> None \<or> nif_ip_addr (nifs s inp) = current_iphdr_dest s then do {
             ok \<leftarrow> udp_chksum_ok p s;
             if \<not> ok then ip_free c env p s
             else let (r, st) = pbuf_header c (Some p) (- int UDP_HLEN) (pst_of s); s = set_pst st s
                  in if r \<noteq> 0 then ip_free c env p s else udp_deliver c env out frag cb pcb broadcast hlen src p s }
           else ip_free c env p s })"

section \<open>Output\<close>

text \<open>The packet with room for the header in its first pbuf, which is \<open>p\<close> or a new one; \<open>None\<close> inside: out of memory.\<close>

definition add_header :: "pbuf_cfg \<Rightarrow> pbuf_env \<Rightarrow> nat \<Rightarrow> 'a net_scheme \<Rightarrow> (nat option \<times> 'a net_scheme) option" where
  "add_header c env p s =
     (let (r, st) = pbuf_header c (Some p) (int UDP_HLEN) (pst_of s)
      in if r = 0 then Some (Some p, set_pst st s)
         else do {
           (q, st) \<leftarrow> pbuf_alloc c env PBUF_IP UDP_HLEN PBUF_RAM st;
           case q of
             None \<Rightarrow> Some (None, set_pst st s)
           | Some q \<Rightarrow> do {
               st \<leftarrow> (if p_tot_len (pbufs st p) \<noteq> 0 then pbuf_chain q p st else Some st);
               Some (Some q, set_pst st s) } })"

text \<open>The checksum that is sent: 0 stands for none.\<close>

definition udp_chksum :: "nat \<Rightarrow> u32 \<Rightarrow> u32 \<Rightarrow> 'a net_scheme \<Rightarrow> u16 option" where
  "udp_chksum q src dst s = do {
     qs \<leftarrow> chain_of (Some q) (pst_of s);
     let ck = inet_chksum_pseudo lwip_standard_chksum2 qs src dst IP_PROTO_UDP (of_nat (p_tot_len (pbufs (pst_of s) q)));
     Some (if ck = 0 then 0xffff else ck) }"

definition udp_sendto_if ::
    "pbuf_cfg \<Rightarrow> pbuf_env \<Rightarrow> output_fn \<Rightarrow> output_fn \<Rightarrow> nat \<Rightarrow> nat \<Rightarrow> u32 \<Rightarrow> u16 \<Rightarrow> nat \<Rightarrow> 'a udp_scheme \<Rightarrow>
      (err_t \<times> 'a udp_scheme) option" where
  "udp_sendto_if c env out frag pcb p dst_ip dst_port n s = do {
     (e, s) \<leftarrow> bind_unbound pcb s;
     if e \<noteq> ERR_OK then Some (e, s)
     else do {
       (q, s) \<leftarrow> add_header c env p s;
       case q of
         None \<Rightarrow> Some (ERR_MEM, s)
       | Some q \<Rightarrow> do {
           let u = udp_at s pcb;
           let s = put_hdr q 0 (u16_bytes (lwip_htons (local_port u))) s;
           let s = put_hdr q 2 (u16_bytes (lwip_htons dst_port)) s;
           let s = put_hdr q 6 [0, 0] s;
           if \<not> ip_addr_isany (local_ip u) \<and> local_ip u \<noteq> nif_ip_addr (nifs s n)
           then do { s \<leftarrow> (if q \<noteq> p then ip_free c env q s else Some s); Some (ERR_VAL, s) }
           else do {
             let src_ip = (if ip_addr_isany (local_ip u) then nif_ip_addr (nifs s n) else local_ip u);
             let s = put_hdr q 4 (u16_bytes (lwip_htons (of_nat (p_tot_len (pbufs (pst_of s) q))))) s;
             s \<leftarrow> (if udp_flags u AND UDP_FLAGS_NOCHKSUM = 0
                   then do { ck \<leftarrow> udp_chksum q src_ip dst_ip s; Some (put_hdr q 6 (u16_bytes ck) s) }
                   else Some s);
             (e, s) \<leftarrow> ip_output_if c out frag q src_ip (Some dst_ip) (ttl u) (tos u) IP_PROTO_UDP n s;
             s \<leftarrow> (if q \<noteq> p then ip_free c env q s else Some s);
             Some (e, s) } } } }"

definition udp_sendto ::
    "pbuf_cfg \<Rightarrow> pbuf_env \<Rightarrow> output_fn \<Rightarrow> output_fn \<Rightarrow> nat \<Rightarrow> nat \<Rightarrow> u32 \<Rightarrow> u16 \<Rightarrow> 'a udp_scheme \<Rightarrow>
      (err_t \<times> 'a udp_scheme) option" where
  "udp_sendto c env out frag pcb p dst_ip dst_port s = do {
     netif \<leftarrow> ip_route dst_ip s;
     case netif of
       None \<Rightarrow> Some (ERR_RTE, s)
     | Some n \<Rightarrow> udp_sendto_if c env out frag pcb p dst_ip dst_port n s }"

definition udp_send ::
    "pbuf_cfg \<Rightarrow> pbuf_env \<Rightarrow> output_fn \<Rightarrow> output_fn \<Rightarrow> nat \<Rightarrow> nat \<Rightarrow> 'a udp_scheme \<Rightarrow> (err_t \<times> 'a udp_scheme) option" where
  "udp_send c env out frag pcb p s =
     udp_sendto c env out frag pcb p (remote_ip (udp_at s pcb)) (remote_port (udp_at s pcb)) s"

end
