(* ===== verification/Udp_Spec.thy ===== *)
theory Udp_Spec
  imports Udp
begin

text \<open>
  The control blocks of \<^verbatim>\<open>udp.c\<close>: which port \<^verbatim>\<open>udp_new_port\<close> finds, that no two bound blocks are in conflict, and
  which block receives a datagram.
\<close>

section \<open>Frames\<close>

lemma upd_udp_simps [simp]: "udp_at (upd_udp a f s) b = (if b = a then f (udp_at s a) else udp_at s b)"
  "udp_pcbs (upd_udp a f s) = udp_pcbs s" "udp_port (upd_udp a f s) = udp_port s" "net_arp (upd_udp a f s) = net_arp s"
  "nifs (upd_udp a f s) = nifs s" "netif_list (upd_udp a f s) = netif_list s"
  by (simp_all add: upd_udp_def)

lemma set_links_simps [simp]: "pcb_links (set_links l s) = l" "udp_port (set_links l s) = udp_port s"
  "udp_at (set_links l s) a = (udp_at s a)\<lparr>pcb_next := fst l a\<rparr>" "net_arp (set_links l s) = net_arp s"
  "nifs (set_links l s) = nifs s"
  by (simp_all add: set_links_def pcb_links_def)

lemma pcb_links_upd: "(\<And>u. pcb_next (f u) = pcb_next u) \<Longrightarrow> pcb_links (upd_udp a f s) = pcb_links s"
  by (auto simp: pcb_links_def upd_udp_def)

lemma pcb_links_upd_next: "pcb_links (upd_udp a f s) = ((fst (pcb_links s))(a := pcb_next (f (udp_at s a))), snd (pcb_links s))"
  by (auto simp: pcb_links_def)

lemma pcb_links_frame [simp]: "pcb_links (set_pst st s) = pcb_links s" "pcb_links (s\<lparr>udp_port := p\<rparr>) = pcb_links s"
  by (simp_all add: pcb_links_def set_pst_def)

lemma udp_frame [simp]: "udp_at (set_pst st s) = udp_at s" "udp_port (set_pst st s) = udp_port s"
  "udp_pcbs (set_pst st s) = udp_pcbs s"
  by (simp_all add: set_pst_def)

abbreviation udp_list :: "'a udp_scheme \<Rightarrow> nat list \<Rightarrow> bool" where
  "udp_list s xs \<equiv> is_list (pcb_links s) xs"

lemma udp_listD: "udp_list s xs \<Longrightarrow> chain (\<lambda>a. pcb_next (udp_at s a)) (udp_pcbs s) xs"
  by (simp add: is_list_def pcb_links_def)

section \<open>Ports\<close>

definition used_port :: "(nat \<Rightarrow> udp_pcb) \<Rightarrow> nat list \<Rightarrow> u16 \<Rightarrow> bool" where
  "used_port u xs q \<longleftrightarrow> (\<exists>a \<in> set xs. local_port (u a) = q)"

lemma port_used_spec: "chain (\<lambda>a. pcb_next (u a)) t xs \<Longrightarrow> port_used u port t = Some (used_port u xs port)"
proof (induction xs arbitrary: t)
  case Nil
  then show ?case by (subst port_used.simps) (simp add: used_port_def)
next
  case (Cons a xs)
  then show ?case by (subst port_used.simps) (auto simp: used_port_def)
qed

text \<open>The ports are tried in turn, at most 16384 of them.\<close>

lemma new_port_loop_spec:
  assumes c: "chain (\<lambda>a. pcb_next (u a)) t xs"
  shows "unat n + k = 0x4000 \<Longrightarrow> 0 < k \<Longrightarrow>
    new_port_loop u t n p = Some (case find (\<lambda>q. \<not> used_port u xs q) (map (\<lambda>i. (next_port ^^ Suc i) p) [0..<k]) of
        Some q \<Rightarrow> (q, q)
      | None \<Rightarrow> (0, (next_port ^^ k) p))"
proof (induction k arbitrary: n p)
  case 0
  then show ?case by simp
next
  case (Suc k)
  let ?P = "\<lambda>q. \<not> used_port u xs q"
  have split: "map (\<lambda>i. (next_port ^^ Suc i) p) [0..<Suc k] = next_port p # map (\<lambda>i. (next_port ^^ Suc i) (next_port p)) [0..<k]"
    by (simp add: upt_conv_Cons map_Suc_upt [symmetric] funpow_swap1 del: upt_Suc)
  have n1: "unat (n + 1) = unat n + 1" using Suc.prems by (subst unat_add_u16) simp
  have lim: "n + 1 > UDP_LOCAL_PORT_RANGE_END - UDP_LOCAL_PORT_RANGE_START \<longleftrightarrow> k = 0"
    using Suc.prems by (simp add: UDP_LOCAL_PORT_RANGE_END_def UDP_LOCAL_PORT_RANGE_START_def word_less_nat_alt n1) linarith
  have step: "new_port_loop u t n p = (if used_port u xs (next_port p) then
      (if k = 0 then Some (0, next_port p) else new_port_loop u t (n + 1) (next_port p)) else Some (next_port p, next_port p))"
    by (subst new_port_loop.simps) (simp only: port_used_spec [OF c] lim Let_def bind.bind_lunit)
  show ?case
  proof (cases "used_port u xs (next_port p) \<and> 0 < k")
    case True
    with Suc.prems have "unat (n + 1) + k = 0x4000" "0 < k" by (simp_all add: n1)
    note IH = Suc.IH [OF this, of "next_port p"]
    have f: "(next_port ^^ Suc k) p = (next_port ^^ k) (next_port p)" by (simp add: funpow_swap1)
    show ?thesis using True IH unfolding split step f by simp
  next
    case False
    then show ?thesis unfolding split step by auto
  qed
qed

lemma next_port_val:
  assumes "0xc000 \<le> unat p"
  shows "unat (next_port p) = 0xc000 + (unat p - 0xc000 + 1) mod 0x4000"
proof (cases "unat p = 0xffff")
  case True
  then have "p = UDP_LOCAL_PORT_RANGE_END" by (simp add: UDP_LOCAL_PORT_RANGE_END_def word_unat_eq_iff)
  then show ?thesis by (simp add: next_port_def UDP_LOCAL_PORT_RANGE_END_def UDP_LOCAL_PORT_RANGE_START_def)
next
  case False
  then have l: "unat p < 0xffff" using u16_le [of p] by linarith
  then have "p \<noteq> UDP_LOCAL_PORT_RANGE_END" by (auto simp: UDP_LOCAL_PORT_RANGE_END_def)
  moreover have "unat (p + 1) = unat p + 1" using l by (subst unat_add_u16) simp
  moreover have "unat p - 0xc000 + 1 < 0x4000" using l assms by linarith
  ultimately show ?thesis using assms by (simp add: next_port_def)
qed

lemma next_port_iter:
  assumes "0xc000 \<le> unat p"
  shows "unat ((next_port ^^ i) p) = 0xc000 + (unat p - 0xc000 + i) mod 0x4000"
proof (induction i)
  case 0
  have "unat p - 0xc000 < 0x4000" using u16_le [of p] assms by linarith
  with assms show ?case by simp
next
  case (Suc i)
  have "unat ((next_port ^^ Suc i) p) = 0xc000 + (unat ((next_port ^^ i) p) - 0xc000 + 1) mod 0x4000"
    using Suc.IH by (simp add: next_port_val)
  also have "unat ((next_port ^^ i) p) - 0xc000 + 1 = (unat p - 0xc000 + i) mod 0x4000 + 1" by (simp add: Suc.IH)
  finally show ?case by (simp add: mod_Suc_eq)
qed

text \<open>They are all ports of the range.\<close>

lemma ports_tried:
  assumes "0xc000 \<le> unat p" and k: "k = 0x4000"
  shows "set (map (\<lambda>i. (next_port ^^ Suc i) p) [0..<k]) = {q. 0xc000 \<le> unat q}"
proof (intro equalityI subsetI)
  fix q assume "q \<in> set (map (\<lambda>i. (next_port ^^ Suc i) p) [0..<k])"
  then obtain i where "q = (next_port ^^ Suc i) p" by auto
  then have "unat q = 0xc000 + (unat p - 0xc000 + Suc i) mod 0x4000" by (simp only: next_port_iter [OF assms(1)])
  then show "q \<in> {q. 0xc000 \<le> unat q}" by simp
next
  fix q :: u16 assume "q \<in> {q. 0xc000 \<le> unat q}"
  then have q: "0xc000 \<le> unat q" by simp
  define i where "i = (unat q + 0x4000 - 1 - (unat p - 0xc000)) mod 0x4000"
  have l: "unat p \<le> 65535" "unat q \<le> 65535" by simp_all
  have "unat p - 0xc000 + Suc i = unat p - 0xc000 + 1 + i" by simp
  then have "(unat p - 0xc000 + Suc i) mod 0x4000 = (unat p - 0xc000 + 1 + (unat q + 0x4000 - 1 - (unat p - 0xc000))) mod 0x4000"
    unfolding i_def by (simp only: mod_add_right_eq)
  also have "unat p - 0xc000 + 1 + (unat q + 0x4000 - 1 - (unat p - 0xc000)) = unat q - 0xc000 + 4 * 0x4000"
    using l q assms(1) by linarith
  also have "(unat q - 0xc000 + 4 * 0x4000) mod 0x4000 = (unat q - 0xc000) mod 0x4000" by (simp only: mod_mult_self1)
  also have "\<dots> = unat q - 0xc000" using l q by (intro mod_less) linarith
  finally have "unat ((next_port ^^ Suc i) p) = unat q" using q by (simp only: next_port_iter [OF assms(1)])
  then have q': "q = (next_port ^^ Suc i) p" by (simp only: word_unat_eq_iff)
  have "i < k" unfolding i_def k by (rule mod_less_divisor) simp
  then have "i \<in> {0..<k}" by simp
  with q' show "q \<in> set (map (\<lambda>i. (next_port ^^ Suc i) p) [0..<k])"
    unfolding set_map set_upt by (rule image_eqI)
qed


lemma find_SomeD: "find P xs = Some x \<Longrightarrow> P x \<and> x \<in> set xs"
  by (induction xs) (auto split: if_splits)

lemma find_in: "find P xs = Some x \<Longrightarrow> x \<in> set xs"
  by (simp add: find_SomeD)

lemma find_NoneD: "find P xs = None \<Longrightarrow> x \<in> set xs \<Longrightarrow> \<not> P x"
  by (induction xs) (auto split: if_splits)

lemma udp_new_port_run:
  assumes l: "udp_list s xs" and p: "0xc000 \<le> unat (udp_port s)"
  shows "\<exists>r q. udp_new_port s = Some (r, s\<lparr>udp_port := q\<rparr>) \<and> 0xc000 \<le> unat q \<and>
    (if \<exists>q. 0xc000 \<le> unat q \<and> \<not> used_port (udp_at s) xs q
     then r = q \<and> \<not> used_port (udp_at s) xs q else r = 0)"
proof -
  obtain k :: nat where k: "k = 0x4000" by simp
  let ?qs = "map (\<lambda>i. (next_port ^^ Suc i) (udp_port s)) [0..<k]" and ?P = "\<lambda>q. \<not> used_port (udp_at s) xs q"
  have run: "new_port_loop (udp_at s) (udp_pcbs s) 0 (udp_port s) = Some (case find ?P ?qs of
      Some q \<Rightarrow> (q, q) | None \<Rightarrow> (0, (next_port ^^ k) (udp_port s)))"
    by (rule new_port_loop_spec [OF udp_listD [OF l]]) (simp_all add: k)
  note ports = ports_tried [OF p k]
  have last: "0xc000 \<le> unat ((next_port ^^ k) (udp_port s))" by (simp only: next_port_iter [OF p])
  show ?thesis
  proof (cases "find ?P ?qs")
    case None
    have none: "\<not> (\<exists>q. 0xc000 \<le> unat q \<and> \<not> used_port (udp_at s) xs q)"
    proof (rule notI, elim exE conjE)
      fix q :: u16 assume "0xc000 \<le> unat q" and q: "\<not> used_port (udp_at s) xs q"
      then have "q \<in> set ?qs" unfolding ports by simp
      from find_NoneD [OF None this] q show False by contradiction
    qed
    have "udp_new_port s = Some (0, s\<lparr>udp_port := (next_port ^^ k) (udp_port s)\<rparr>)"
      by (simp only: udp_new_port_def run None bind.bind_lunit option.case prod.case)
    with last none show ?thesis by (simp only: if_False) blast
  next
    case (Some q)
    from find_SomeD [OF Some] have q: "?P q" "q \<in> set ?qs" by auto
    from q(2) have "0xc000 \<le> unat q" unfolding ports by simp
    moreover have "udp_new_port s = Some (q, s\<lparr>udp_port := q\<rparr>)"
      by (simp only: udp_new_port_def run Some bind.bind_lunit option.case prod.case)
    ultimately show ?thesis using q(1) by (intro exI [of _ q]) auto
  qed
qed

text \<open>With fewer than 16384 blocks there is a port that is free.\<close>

lemma free_port:
  assumes "length xs < 0x4000"
  shows "\<exists>q. 0xc000 \<le> unat q \<and> \<not> used_port u xs q"
proof (rule ccontr)
  assume "\<not> ?thesis"
  then have "{q. 0xc000 \<le> unat (q :: u16)} \<subseteq> (\<lambda>a. local_port (u a)) ` set xs" by (auto simp: used_port_def)
  then have "card {q. 0xc000 \<le> unat (q :: u16)} \<le> card (set xs)" by (meson List.finite_set card_image_le card_mono finite_imageI le_trans)
  moreover have "card {q. 0xc000 \<le> unat (q :: u16)} = 0x4000"
  proof -
    have "{q :: u16. 0xc000 \<le> unat q} = of_nat ` {0xc000..<0x10000}"
    proof (intro equalityI subsetI)
      fix q :: u16 assume "q \<in> {q. 0xc000 \<le> unat q}"
      moreover have "unat q < 0x10000" using u16_le [of q] by linarith
      ultimately show "q \<in> of_nat ` {0xc000..<0x10000}" by (intro image_eqI [of _ _ "unat q"]) simp_all
    qed (auto simp: unat_of_nat)
    moreover have "inj_on (of_nat :: nat \<Rightarrow> u16) {0xc000..<0x10000}"
      by (rule inj_onI) (simp add: word_of_nat_eq_iff take_bit_eq_mod)
    ultimately show ?thesis by (simp add: card_image)
  qed
  ultimately show False using assms card_length [of xs] by linarith
qed

section \<open>The search for the receiver\<close>

lemma set_links_id [simp]: "set_links (pcb_links s) s = s"
  by (simp add: set_links_def pcb_links_def)

text \<open>The blocks \<open>us\<close> have been searched, the last of them is \<open>prev\<close>.\<close>

lemma demux_loop_spec:
  assumes "udp_list s (us @ xs)" and "chain (\<lambda>a. pcb_next (udp_at s a)) t xs" and "prev = (if us = [] then None else Some (last us))"
  shows "\<exists>l. demux_loop lm rm prev uncon t s =
      Some (case find (\<lambda>a. lm (udp_at s a) \<and> rm (udp_at s a)) xs of
              Some a \<Rightarrow> Some a
            | None \<Rightarrow> (case uncon of Some a \<Rightarrow> Some a
                       | None \<Rightarrow> find (\<lambda>a. lm (udp_at s a) \<and> udp_flags (udp_at s a) AND UDP_FLAGS_CONNECTED = 0) xs), set_links l s) \<and>
    is_list l (case find (\<lambda>a. lm (udp_at s a) \<and> rm (udp_at s a)) xs of Some a \<Rightarrow> a # remove1 a (us @ xs) | None \<Rightarrow> us @ xs)"
  using assms
proof (induction xs arbitrary: us t prev uncon)
  case Nil
  then show ?case by (intro exI [of _ "pcb_links s"]) (subst demux_loop.simps, auto split: option.splits)
next
  case (Cons a xs)
  from Cons.prems have t: "t = Some a" "chain (\<lambda>a. pcb_next (udp_at s a)) (pcb_next (udp_at s a)) xs" by auto
  show ?case
  proof (cases "lm (udp_at s a) \<and> rm (udp_at s a)")
    case False
    have "udp_list s ((us @ [a]) @ xs)" "Some a = (if us @ [a] = [] then None else Some (last (us @ [a])))"
      using Cons.prems(1) by simp_all
    note IH = Cons.IH [OF this(1) t(2) this(2)]
    define u1 where "u1 = (if lm (udp_at s a) \<and> uncon = None \<and> udp_flags (udp_at s a) AND UDP_FLAGS_CONNECTED = 0 then Some a else uncon)"
    have step: "demux_loop lm rm prev uncon t s = demux_loop lm rm (Some a) u1 (pcb_next (udp_at s a)) s"
      using False t(1) by (subst demux_loop.simps) (auto simp: Let_def u1_def)
    have f: "find (\<lambda>a. lm (udp_at s a) \<and> rm (udp_at s a)) (a # xs) = find (\<lambda>a. lm (udp_at s a) \<and> rm (udp_at s a)) xs"
      using False by auto
    have g: "(case uncon of Some b \<Rightarrow> Some b
        | None \<Rightarrow> find (\<lambda>a. lm (udp_at s a) \<and> udp_flags (udp_at s a) AND UDP_FLAGS_CONNECTED = 0) (a # xs)) =
      (case u1 of Some b \<Rightarrow> Some b
        | None \<Rightarrow> find (\<lambda>a. lm (udp_at s a) \<and> udp_flags (udp_at s a) AND UDP_FLAGS_CONNECTED = 0) xs)"
      by (auto simp: u1_def split: option.splits)
    have app: "(us @ [a]) @ xs = us @ a # xs" by simp
    show ?thesis using IH [of u1] unfolding step f g app .
  next
    case True
    show ?thesis
    proof (cases us rule: rev_cases)
      case Nil
      with True t Cons.prems show ?thesis
        by (intro exI [of _ "pcb_links s"]) (subst demux_loop.simps, simp add: Let_def)
    next
      case (snoc vs b)
      with Cons.prems(1) have l: "udp_list s (vs @ b # a # xs)" by simp
      from is_list_distinct [OF l] have "a \<notin> set (vs @ [b])" by auto
      then have "a # remove1 a (us @ a # xs) = a # vs @ b # xs" by (simp add: snoc remove1_append)
      with to_front_list [OF l] True t snoc Cons.prems(3) show ?thesis
        by (intro exI [of _ "to_front b a (pcb_links s)"]) (subst demux_loop.simps, simp add: Let_def)
    qed
  qed
qed

lemma demux_start:
  assumes "udp_list s xs"
  shows "\<exists>l r. demux_loop lm rm None None (udp_pcbs s) s = Some (r, set_links l s) \<and>
    (case find (\<lambda>a. lm (udp_at s a) \<and> rm (udp_at s a)) xs of
       Some a \<Rightarrow> r = Some a \<and> is_list l (a # remove1 a xs)
     | None \<Rightarrow> r = find (\<lambda>a. lm (udp_at s a) \<and> udp_flags (udp_at s a) AND UDP_FLAGS_CONNECTED = 0) xs \<and> is_list l xs)"
proof -
  from demux_loop_spec [of s "[]" xs "udp_pcbs s" None lm rm None, unfolded append_Nil, OF assms udp_listD [OF assms]]
  show ?thesis by (cases "find (\<lambda>a. lm (udp_at s a) \<and> rm (udp_at s a)) xs") auto
qed

section \<open>No two blocks in conflict\<close>

text \<open>The listed blocks are bound, to addresses of which no two overlap.  The number of blocks is that of the pool,
  which is far below that of the ports.\<close>

definition udp_ok :: "'a udp_scheme \<Rightarrow> nat list \<Rightarrow> bool" where
  "udp_ok s xs \<longleftrightarrow> udp_list s xs \<and> 0xc000 \<le> unat (udp_port s) \<and> (\<forall>a \<in> set xs. local_port (udp_at s a) \<noteq> 0) \<and>
     (\<forall>a \<in> set xs. \<forall>b \<in> set xs. a \<noteq> b \<longrightarrow> \<not> conflict (local_ip (udp_at s a)) (local_port (udp_at s a)) (udp_at s b))"

lemma bind_scan_spec:
  "chain (\<lambda>a. pcb_next (u a)) t xs \<Longrightarrow> bind_scan u pcb ip port rebind t =
    Some (if \<exists>a \<in> set xs. a \<noteq> pcb \<and> conflict ip port (u a) then None else Some (rebind \<or> pcb \<in> set xs))"
proof (induction xs arbitrary: t rebind)
  case Nil
  then show ?case by (subst bind_scan.simps) simp
next
  case (Cons a xs)
  then show ?case by (subst bind_scan.simps) auto
qed

lemma conflict_sym: "conflict (local_ip u) (local_port u) v \<longleftrightarrow> conflict (local_ip v) (local_port v) u"
  by (auto simp: conflict_def)

lemma udp_ok_cong:
  assumes "udp_ok s xs" and "udp_list s' ys" and "set ys \<subseteq> set xs" and "udp_port s' = udp_port s"
    and "\<And>a. a \<in> set ys \<Longrightarrow> local_ip (udp_at s' a) = local_ip (udp_at s a) \<and> local_port (udp_at s' a) = local_port (udp_at s a)"
  shows "udp_ok s' ys"
proof -
  have "conflict ip p (udp_at s' b) = conflict ip p (udp_at s b)" if "b \<in> set ys" for ip p b
    using assms(5) [OF that] by (simp add: conflict_def)
  moreover have "a \<in> set xs" if "a \<in> set ys" for a using that assms(3) by blast
  ultimately show ?thesis using assms(1,2,4,5) unfolding udp_ok_def by metis
qed

text \<open>A block that is bound to an address free of conflicts joins the list.\<close>

lemma udp_ok_bind:
  assumes ok: "udp_ok s xs" and p: "port \<noteq> 0" and free: "\<forall>a \<in> set xs. a \<noteq> pcb \<longrightarrow> \<not> conflict ip port (udp_at s a)"
    and q: "0xc000 \<le> unat q" and s1: "s1 = upd_udp pcb (\<lambda>u. u\<lparr>local_ip := ip, local_port := port\<rparr>) (s\<lparr>udp_port := q\<rparr>)"
  shows "udp_ok (if pcb \<in> set xs then s1 else set_links (add_first pcb (pcb_links s1)) s1) (if pcb \<in> set xs then xs else pcb # xs)"
proof -
  define ys where "ys = (if pcb \<in> set xs then xs else pcb # xs)"
  define s2 where "s2 = (if pcb \<in> set xs then s1 else set_links (add_first pcb (pcb_links s1)) s1)"
  have old: "udp_list s xs" "\<And>a. a \<in> set xs \<Longrightarrow> local_port (udp_at s a) \<noteq> 0"
    "\<And>a b. a \<in> set xs \<Longrightarrow> b \<in> set xs \<Longrightarrow> a \<noteq> b \<Longrightarrow> \<not> conflict (local_ip (udp_at s a)) (local_port (udp_at s a)) (udp_at s b)"
    using ok by (simp_all add: udp_ok_def)
  have "pcb_links s1 = pcb_links s" unfolding s1 by (subst pcb_links_upd) simp_all
  with old(1) have l: "udp_list s2 ys" by (simp add: s2_def ys_def add_first_list)
  have v: "local_ip (udp_at s2 a) = (if a = pcb then ip else local_ip (udp_at s a))"
    "local_port (udp_at s2 a) = (if a = pcb then port else local_port (udp_at s a))" for a
    by (simp_all add: s1 s2_def)
  have cf: "conflict i o' (udp_at s2 b) = (if b = pcb then o' = port \<and> (ip_addr_isany ip \<or> ip_addr_isany i \<or> ip = i)
      else conflict i o' (udp_at s b))" for i o' b
    by (auto simp: conflict_def v)
  have ys: "a \<in> set xs" if "a \<in> set ys" "a \<noteq> pcb" for a using that by (simp add: ys_def split: if_splits)
  have "\<not> conflict (local_ip (udp_at s2 a)) (local_port (udp_at s2 a)) (udp_at s2 b)" if ab: "a \<in> set ys" "b \<in> set ys" "a \<noteq> b" for a b
  proof -
    consider "a = pcb" "b \<noteq> pcb" | "b = pcb" "a \<noteq> pcb" | "a \<noteq> pcb" "b \<noteq> pcb" using ab by blast
    then show ?thesis
    proof cases
      case 1
      then show ?thesis using free ys ab by (simp add: cf v)
    next
      case 2
      then have "\<not> conflict ip port (udp_at s a)" using free ys ab by simp
      then show ?thesis using 2 by (simp add: cf v) (auto simp: conflict_def)
    next
      case 3
      then show ?thesis using old(3) ys ab by (simp add: cf v)
    qed
  qed
  moreover have "local_port (udp_at s2 a) \<noteq> 0" if "a \<in> set ys" for a using old(2) ys that p by (simp add: v)
  moreover have "0xc000 \<le> unat (udp_port s2)" using q by (simp add: s1 s2_def)
  ultimately show ?thesis unfolding udp_ok_def s2_def [symmetric] ys_def [symmetric] using l by blast
qed


lemma udp_bind_spec:
  assumes ok: "udp_ok s xs" and l: "length xs < 0x4000"
  shows "\<exists>e s' ys. udp_bind pcb ip port s = Some (e, s') \<and> udp_ok s' ys \<and> set ys \<subseteq> insert pcb (set xs) \<and>
    (e \<noteq> ERR_OK \<longrightarrow> e = ERR_USE \<and> s' = s \<and> (\<exists>a \<in> set xs. a \<noteq> pcb \<and> conflict ip port (udp_at s a))) \<and>
    (e = ERR_OK \<longrightarrow> pcb \<in> set ys \<and> local_ip (udp_at s' pcb) = ip \<and> (port \<noteq> 0 \<longrightarrow> local_port (udp_at s' pcb) = port))"
proof -
  have ch: "chain (\<lambda>a. pcb_next (udp_at s a)) (udp_pcbs s) xs" using ok by (intro udp_listD) (simp add: udp_ok_def)
  note scan = bind_scan_spec [OF ch, of pcb ip port False]
  show ?thesis
  proof (cases "\<exists>a \<in> set xs. a \<noteq> pcb \<and> conflict ip port (udp_at s a)")
    case True
    then have "udp_bind pcb ip port s = Some (ERR_USE, s)" unfolding udp_bind_def scan by simp
    with True ok show ?thesis by (intro exI [of _ ERR_USE] exI [of _ s] exI [of _ xs]) auto
  next
    case False
    have L: "udp_list s xs" "0xc000 \<le> unat (udp_port s)" using ok by (simp_all add: udp_ok_def)
    let ?sa = "upd_udp pcb (\<lambda>u. u\<lparr>local_ip := ip\<rparr>) s"
    have used: "used_port (udp_at ?sa) xs = used_port (udp_at s) xs" by (rule ext) (auto simp: used_port_def)
    have "udp_list ?sa xs" using L(1) by (subst pcb_links_upd) simp_all
    from udp_new_port_run [OF this] L(2) free_port [OF l, of "udp_at s"] obtain q where
      q: "udp_new_port ?sa = Some (q, ?sa\<lparr>udp_port := q\<rparr>)" "0xc000 \<le> unat q" "\<not> used_port (udp_at s) xs q"
      unfolding used by auto
    from q(2) have "q \<noteq> 0" by auto
    define port' where "port' = (if port = 0 then q else port)"
    define q' where "q' = (if port = 0 then q else udp_port s)"
    define s1 where "s1 = upd_udp pcb (\<lambda>u. u\<lparr>local_ip := ip, local_port := port'\<rparr>) (s\<lparr>udp_port := q'\<rparr>)"
    define s2 where "s2 = (if pcb \<in> set xs then s1 else set_links (add_first pcb (pcb_links s1)) s1)"
    have "port' \<noteq> 0" "0xc000 \<le> unat q'" using \<open>q \<noteq> 0\<close> q(2) L(2) by (simp_all add: port'_def q'_def)
    moreover have "\<forall>a \<in> set xs. a \<noteq> pcb \<longrightarrow> \<not> conflict ip port' (udp_at s a)"
      using False q(3) by (auto simp: port'_def used_port_def conflict_def)
    ultimately have "udp_ok s2 (if pcb \<in> set xs then xs else pcb # xs)"
      unfolding s2_def using ok by (intro udp_ok_bind [OF _ _ _ _ s1_def])
    moreover have "udp_bind pcb ip port s = Some (ERR_OK, s2)"
    proof -
      have "(if port = 0 then udp_new_port ?sa else Some (port, ?sa)) = Some (port', ?sa\<lparr>udp_port := q'\<rparr>)"
        using q(1) by (simp add: port'_def q'_def upd_udp_def)
      moreover have "upd_udp pcb (\<lambda>u. u\<lparr>local_port := port'\<rparr>) (?sa\<lparr>udp_port := q'\<rparr>) = s1"
        by (simp add: s1_def upd_udp_def)
      ultimately show ?thesis using \<open>port' \<noteq> 0\<close> False unfolding udp_bind_def scan s2_def by (simp add: Let_def)
    qed
    moreover have "local_ip (udp_at s2 pcb) = ip" "local_port (udp_at s2 pcb) = port'" by (simp_all add: s2_def s1_def)
    ultimately show ?thesis
      by (intro exI [of _ ERR_OK] exI [of _ s2] exI [of _ "if pcb \<in> set xs then xs else pcb # xs"]) (auto simp: port'_def)
  qed
qed

lemma bind_unbound_spec:
  assumes ok: "udp_ok s xs" and l: "length xs < 0x4000" and r: "bind_unbound pcb s = Some (e, s')"
  shows "\<exists>ys. udp_ok s' ys \<and> set ys \<subseteq> insert pcb (set xs) \<and> (pcb \<in> set xs \<longrightarrow> pcb \<in> set ys) \<and>
    (e = ERR_OK \<longrightarrow> pcb \<in> set ys \<or> local_port (udp_at s pcb) \<noteq> 0 \<and> s' = s \<and> ys = xs)"
proof (cases "local_port (udp_at s pcb) = 0")
  case True
  with r have b: "udp_bind pcb (local_ip (udp_at s pcb)) 0 s = Some (e, s')" by (simp add: bind_unbound_def)
  have "pcb \<notin> set xs" using ok True by (auto simp: udp_ok_def)
  with udp_bind_spec [OF ok l, of pcb "local_ip (udp_at s pcb)" 0] b show ?thesis by auto
next
  case False
  with r ok show ?thesis by (auto simp: bind_unbound_def)
qed

section \<open>Runs\<close>

text \<open>The operations on control blocks and the search for a receiver.  The pool (see \<open>Memp\<close>) gives out blocks of \<open>P\<close>
  that are not in use, and a block that was removed is not connected.\<close>

inductive udp_step :: "nat set \<Rightarrow> 'a udp_scheme \<Rightarrow> 'a udp_scheme \<Rightarrow> bool" for P where
  bind: "pcb \<in> P \<Longrightarrow> udp_bind pcb ip port s = Some (e, s') \<Longrightarrow> udp_step P s s'"
| connect: "pcb \<in> P \<Longrightarrow> udp_list s xs \<Longrightarrow> pcb \<in> set xs \<or> local_port (udp_at s pcb) = 0 \<Longrightarrow> udp_connect pcb ip port s = Some (e, s') \<Longrightarrow> udp_step P s s'"
| disconnect: "udp_step P s (udp_disconnect pcb s)"
| callback: "udp_step P s (udp_recv pcb f arg s)"
| remove: "udp_remove pcb s = Some s' \<Longrightarrow> udp_step P s s'"
| new: "udp_list s xs \<Longrightarrow> udp_new s = (r, s') \<Longrightarrow> (\<And>a. r = Some a \<Longrightarrow> a \<notin> set xs) \<Longrightarrow> udp_step P s s'"
| search: "demux_loop lm rm None None (udp_pcbs s) s = Some (r, s') \<Longrightarrow> udp_step P s s'"

lemma udp_ok_upd:
  assumes "udp_ok s xs" and "\<And>u. pcb_next (f u) = pcb_next u" "\<And>u. local_ip (f u) = local_ip u" "\<And>u. local_port (f u) = local_port u"
  shows "udp_ok (upd_udp pcb f s) xs"
  using assms(1) by (rule udp_ok_cong) (use assms in \<open>simp_all add: pcb_links_upd udp_ok_def\<close>)

lemma udp_ok_links: "udp_ok s xs \<Longrightarrow> is_list l ys \<Longrightarrow> set ys \<subseteq> set xs \<Longrightarrow> udp_ok (set_links l s) ys"
  by (erule udp_ok_cong) simp_all

lemma udp_ok_pst [simp]: "udp_ok (set_pst st s) xs = udp_ok s xs"
  by (simp add: udp_ok_def)

lemma udp_connect_ok:
  assumes ok: "udp_ok s xs" and l: "length xs < 0x4000" and r: "udp_connect pcb ip port s = Some (e, s')"
    and new: "pcb \<in> set xs \<or> local_port (udp_at s pcb) = 0"
  shows "\<exists>ys. udp_ok s' ys \<and> set ys \<subseteq> insert pcb (set xs)"
proof -
  obtain e1 s1 where b: "bind_unbound pcb s = Some (e1, s1)" using r by (auto simp: udp_connect_def bind_eq_Some_conv)
  from bind_unbound_spec [OF ok l b] obtain ys where ys: "udp_ok s1 ys" "set ys \<subseteq> insert pcb (set xs)"
    "e1 = ERR_OK \<longrightarrow> pcb \<in> set ys" using new by blast
  show ?thesis
  proof (cases "e1 = ERR_OK")
    case False
    with b r ys show ?thesis by (auto simp: udp_connect_def)
  next
    case True
    let ?s = "upd_udp pcb (\<lambda>u. u\<lparr>remote_ip := ip, remote_port := port, udp_flags := udp_flags u OR UDP_FLAGS_CONNECTED\<rparr>) s1"
    have ok1: "udp_ok ?s ys" using ys(1) by (rule udp_ok_upd) simp_all
    then have lst: "udp_list ?s ys" by (simp add: udp_ok_def)
    have inl: "in_list (fst (pcb_links ?s)) pcb (udp_pcbs ?s) = Some (pcb \<in> set ys)"
      using udp_listD [OF lst] by (simp add: pcb_links_def in_list_spec)
    then have "s' = ?s" using b r True ys(3) by (simp add: udp_connect_def Let_def)
    with ok1 ys(2) show ?thesis by blast
  qed
qed

lemma udp_step_ok:
  assumes st: "udp_step P s s'" and ok: "udp_ok s xs" and P: "set xs \<subseteq> P" "finite P" "card P < 0x4000"
  shows "\<exists>ys. udp_ok s' ys \<and> set ys \<subseteq> P"
proof -
  have lst: "udp_list s xs" using ok by (simp add: udp_ok_def)
  have "length xs = card (set xs)" using is_list_distinct [OF lst] by (simp add: distinct_card)
  also have "\<dots> \<le> card P" using P by (intro card_mono)
  finally have l: "length xs < 0x4000" using P(3) by linarith
  from st show ?thesis
  proof cases
    case (bind pcb ip port e)
    with udp_bind_spec [OF ok l, of pcb ip port] obtain ys where "udp_ok s' ys" "set ys \<subseteq> insert pcb (set xs)" by auto
    with bind(1) P(1) show ?thesis by blast
  next
    case (connect pcb zs ip port e)
    with is_list_unique [OF lst connect(2)] udp_connect_ok [OF ok l connect(4)] P(1) show ?thesis by auto
  next
    case (disconnect pcb)
    have "udp_ok s' xs" unfolding disconnect udp_disconnect_def using ok by (rule udp_ok_upd) simp_all
    with P(1) show ?thesis by blast
  next
    case (callback pcb f arg)
    have "udp_ok s' xs" unfolding callback udp_recv_def using ok by (rule udp_ok_upd) simp_all
    with P(1) show ?thesis by blast
  next
    case (remove pcb)
    from remove_pcb_list [OF lst, of pcb] obtain k where k: "remove_pcb pcb (pcb_links s) = Some k" "is_list k (remove1 pcb xs)" by blast
    have sub: "set (remove1 pcb xs) \<subseteq> set xs" by (rule set_remove1_subset)
    have "udp_ok s' (remove1 pcb xs)" using remove k(1) udp_ok_links [OF ok k(2) sub] by (auto simp: udp_remove_def Let_def)
    with sub P(1) show ?thesis by blast
  next
    case (new zs r)
    obtain e pools where m: "memp_malloc MEMP_UDP_PCB (pbuf_pools (pst_of s)) = (e, pools)" by fastforce
    show ?thesis
    proof (cases e)
      case None
      with m new ok P(1) show ?thesis by (auto simp: udp_new_def)
    next
      case (Some a)
      with m new is_list_unique [OF lst new(1)] have a: "a \<notin> set xs" by (auto simp: udp_new_def)
      have "udp_ok s' xs" using ok
      proof (rule udp_ok_cong)
        have "s' = upd_udp a (\<lambda>_. \<lparr>local_ip = 0, remote_ip = 0, so_options = 0, tos = 0, ttl = UDP_TTL, pcb_next = None,
            udp_flags = 0, local_port = 0, remote_port = 0, recv = None, recv_arg = 0\<rparr>) (set_pst ((pst_of s)\<lparr>pbuf_pools := pools\<rparr>) s)"
          using m Some new(2) by (simp add: udp_new_def)
        then show "udp_list s' xs" using lst a by (simp add: pcb_links_upd_next is_list_def chain_upd)
      qed (use m Some new(2) a in \<open>auto simp: udp_new_def\<close>)
      with P(1) show ?thesis by blast
    qed
  next
    case (search lm rm r)
    obtain k r' where d: "demux_loop lm rm None None (udp_pcbs s) s = Some (r', set_links k s)"
      "case find (\<lambda>a. lm (udp_at s a) \<and> rm (udp_at s a)) xs of
         Some a \<Rightarrow> r' = Some a \<and> is_list k (a # remove1 a xs)
       | None \<Rightarrow> r' = find (\<lambda>a. lm (udp_at s a) \<and> udp_flags (udp_at s a) AND UDP_FLAGS_CONNECTED = 0) xs \<and> is_list k xs"
      using demux_start [OF lst, of lm rm] by blast
    define ys where "ys = (case find (\<lambda>a. lm (udp_at s a) \<and> rm (udp_at s a)) xs of Some a \<Rightarrow> a # remove1 a xs | None \<Rightarrow> xs)"
    have "is_list k ys" "set ys \<subseteq> set xs"
      using d(2) by (auto simp: ys_def split: option.splits dest: find_in set_remove1_subset [THEN subsetD])
    with udp_ok_links [OF ok this] d(1) search P(1) show ?thesis by auto
  qed
qed

section \<open>Properties\<close>

text \<open>Property C35: \<^verbatim>\<open>udp_new_port\<close> returns after at most 16384 rounds: with a port of the range 49152 to 65535 that no
  block uses, if there is one, and with 0 if there is none.\<close>

theorem udp_new_port_free:
  assumes "udp_list s xs" and "0xc000 \<le> udp_port s"
  shows "\<exists>r q. udp_new_port s = Some (r, s\<lparr>udp_port := q\<rparr>) \<and> 0xc000 \<le> q \<and>
    (if \<exists>q \<ge> 0xc000. \<forall>a \<in> set xs. local_port (udp_at s a) \<noteq> q
     then 0xc000 \<le> r \<and> (\<forall>a \<in> set xs. local_port (udp_at s a) \<noteq> r) else r = 0)"
proof -
  have c: "0xc000 \<le> q \<longleftrightarrow> 0xc000 \<le> unat q" for q :: u16 by (simp add: word_le_nat_alt)
  have u: "\<not> used_port (udp_at s) xs q \<longleftrightarrow> (\<forall>a \<in> set xs. local_port (udp_at s a) \<noteq> q)" for q by (auto simp: used_port_def)
  from udp_new_port_run [OF assms(1) assms(2) [unfolded c]] obtain r q where
    rq: "udp_new_port s = Some (r, s\<lparr>udp_port := q\<rparr>)" "0xc000 \<le> unat q"
      "if \<exists>q. 0xc000 \<le> unat q \<and> (\<forall>a \<in> set xs. local_port (udp_at s a) \<noteq> q)
       then r = q \<and> (\<forall>a \<in> set xs. local_port (udp_at s a) \<noteq> q) else r = 0" unfolding u by blast
  show ?thesis unfolding c
  proof (intro exI conjI)
    show "if \<exists>q. 0xc000 \<le> unat q \<and> (\<forall>a \<in> set xs. local_port (udp_at s a) \<noteq> q)
      then 0xc000 \<le> unat r \<and> (\<forall>a \<in> set xs. local_port (udp_at s a) \<noteq> r) else r = 0"
      using rq(2,3) by (simp split: if_splits)
  qed (rule rq(1,2))+
qed

text \<open>Property C36: with fewer blocks than ports, in every run from the start no two listed blocks are bound to overlapping
  addresses, every listed block has a port, and a unicast datagram matches the local address of at most one block.\<close>

theorem udp_no_conflict:
  assumes "(udp_step P)\<^sup>*\<^sup>* s s'" and "udp_pcbs s = None" and "udp_port s = 0xc000" and "finite P" and "card P < 0x4000"
  shows "\<exists>xs. udp_list s' xs \<and> set xs \<subseteq> P \<and> (\<forall>a \<in> set xs. local_port (udp_at s' a) \<noteq> 0) \<and>
    (\<forall>a \<in> set xs. \<forall>b \<in> set xs. a \<noteq> b \<and> local_port (udp_at s' a) = local_port (udp_at s' b) \<longrightarrow>
       local_ip (udp_at s' a) \<noteq> 0 \<and> local_ip (udp_at s' b) \<noteq> 0 \<and> local_ip (udp_at s' a) \<noteq> local_ip (udp_at s' b)) \<and>
    (\<forall>a \<in> set xs. \<forall>b \<in> set xs. local_match False nm ip port (udp_at s' a) \<and> local_match False nm ip port (udp_at s' b) \<longrightarrow> a = b)"
proof -
  have "\<exists>xs. udp_ok s' xs \<and> set xs \<subseteq> P"
    using assms(1)
  proof (induction rule: rtranclp_induct)
    case base
    have "udp_ok s []" using assms(2,3) by (simp add: udp_ok_def is_list_def pcb_links_def)
    then show ?case by (intro exI [of _ "[]"]) simp
  next
    case (step s1 s2)
    then show ?case using udp_step_ok assms(4,5) by blast
  qed
  then obtain xs where xs: "udp_ok s' xs" "set xs \<subseteq> P" by blast
  then have ok: "\<not> conflict (local_ip (udp_at s' a)) (local_port (udp_at s' a)) (udp_at s' b)"
    if "a \<in> set xs" "b \<in> set xs" "a \<noteq> b" for a b using that by (simp add: udp_ok_def)
  have "a = b" if "a \<in> set xs" "b \<in> set xs" "local_match False nm ip port (udp_at s' a) \<and> local_match False nm ip port (udp_at s' b)" for a b
  proof (rule ccontr)
    assume "a \<noteq> b"
    from ok [OF that(1,2) this] that(3) show False by (auto simp: local_match_def conflict_def)
  qed
  moreover have "local_ip (udp_at s' a) \<noteq> 0 \<and> local_ip (udp_at s' b) \<noteq> 0 \<and> local_ip (udp_at s' a) \<noteq> local_ip (udp_at s' b)"
    if "a \<in> set xs" "b \<in> set xs" "a \<noteq> b \<and> local_port (udp_at s' a) = local_port (udp_at s' b)" for a b
    using ok [of a b] that by (auto simp: conflict_def ip_addr_isany_def)
  moreover have "udp_list s' xs" "\<forall>a \<in> set xs. local_port (udp_at s' a) \<noteq> 0" using xs(1) by (simp_all add: udp_ok_def)
  ultimately show ?thesis using xs(2) by (intro exI [of _ xs] conjI ballI impI) blast+
qed

text \<open>A host whose block 5 is on the list, or not yet.\<close>

definition ex_pcb :: "u16 \<Rightarrow> udp_pcb" where
  "ex_pcb port = \<lparr>local_ip = 0, remote_ip = 0, so_options = 0, tos = 0, ttl = 255, pcb_next = None, udp_flags = 0,
     local_port = port, remote_port = 0, recv = Some 3, recv_arg = 9\<rparr>"

definition ex_udp :: "u16 \<Rightarrow> nat option \<Rightarrow> pst \<Rightarrow> udp" where
  "ex_udp port h st = ip.extend (ex_ip st) (udp.fields (\<lambda>_. ex_pcb port) h 0xc000)"

lemma ex_udp_facts [simp]: "udp_at (ex_udp port h st) a = ex_pcb port" "udp_pcbs (ex_udp port h st) = h"
  "udp_port (ex_udp port h st) = 0xc000" "pst_of (ex_udp port h st) = st" "nifs (ex_udp port h st) = nifs (ex_ip st)"
  by (simp_all add: ex_udp_def ip.defs udp.defs ex_ip_def arp_init_def)

lemma ex_udp_list: "udp_list (ex_udp port (Some a) st) [a]" "udp_list (ex_udp port None st) []"
  by (simp_all add: is_list_def pcb_links_def ex_pcb_def)

lemma udp_new_port_free_witness:
  "\<exists>r q. udp_new_port (ex_udp 0xc001 (Some 5) ex_st) = Some (r, (ex_udp 0xc001 (Some 5) ex_st)\<lparr>udp_port := q\<rparr>) \<and>
    0xc000 \<le> r \<and> r \<noteq> 0xc001"
proof -
  have "\<exists>q \<ge> 0xc000. \<forall>a \<in> set [5 :: nat]. local_port (udp_at (ex_udp 0xc001 (Some 5) ex_st) a) \<noteq> q"
    by (intro exI [of _ "0xc000"]) (simp add: ex_pcb_def)
  with udp_new_port_free [OF ex_udp_list(1) [where port = "0xc001" and a = 5 and st = ex_st]] show ?thesis by (auto simp: ex_pcb_def)
qed

lemma udp_no_conflict_witness:
  "\<exists>s1. udp_bind 5 0 53 (ex_udp 0 None ex_st) = Some (ERR_OK, s1) \<and> (\<exists>xs. udp_list s1 xs \<and> set xs \<subseteq> {5, 6} \<and>
    (\<forall>a \<in> set xs. local_port (udp_at s1 a) \<noteq> 0))"
proof -
  have "\<exists>s1. udp_bind 5 0 53 (ex_udp 0 None ex_st) = Some (ERR_OK, s1)"
    by (simp add: udp_bind_def bind_scan.simps Let_def)
  then obtain s1 where s1: "udp_bind 5 0 53 (ex_udp 0 None ex_st) = Some (ERR_OK, s1)" by blast
  have "(5 :: nat) \<in> {5, 6}" by simp
  from udp_step.bind [OF this s1] have "udp_step {5, 6} (ex_udp 0 None ex_st) s1" .
  then have run: "(udp_step {5, 6})\<^sup>*\<^sup>* (ex_udp 0 None ex_st) s1" by (rule r_into_rtranclp)
  have pre: "udp_pcbs (ex_udp 0 None ex_st) = None" "udp_port (ex_udp 0 None ex_st) = 0xc000" "finite {5, 6 :: nat}"
    "card {5, 6 :: nat} < 0x4000" by simp_all
  note udp_no_conflict [OF run pre, where nm = 0 and ip = 0 and port = 0]
  then obtain xs where "udp_list s1 xs" "set xs \<subseteq> {5, 6}" "\<forall>a \<in> set xs. local_port (udp_at s1 a) \<noteq> 0" by (elim exE conjE)
  with s1 show ?thesis by blast
qed

end
