(* ===== verification/Udp_Data.thy ===== *)
theory Udp_Data
  imports Udp_Spec
begin

text \<open>
  UDP datagrams: the bytes \<^verbatim>\<open>udp_sendto_if\<close> hands to IP and what \<^verbatim>\<open>udp_input\<close> makes of a datagram.
\<close>

section \<open>Frames\<close>

lemma put_hdr_udp [simp]: "udp_at (put_hdr p k bs s) = udp_at s" "udp_pcbs (put_hdr p k bs s) = udp_pcbs s"
  "udp_port (put_hdr p k bs s) = udp_port s"
  by (simp_all add: put_hdr_def)

lemma set_links_ip [simp]: "current_iphdr_src (set_links l s) = current_iphdr_src s"
  "current_iphdr_dest (set_links l s) = current_iphdr_dest s" "ip_id (set_links l s) = ip_id s"
  by (simp_all add: set_links_def)

lemma set_pst_links: "set_pst st (set_links l s) = set_links l (set_pst st s)"
  by (simp add: set_pst_def set_links_def)

lemma set_pst_self [simp]: "set_pst (pst_of s) s = s"
  by (simp add: set_pst_def)

section \<open>Input\<close>

text \<open>A datagram whose checksum field is zero or right, for the addresses of its IP header.\<close>

definition datagram_ok :: "u32 \<Rightarrow> u32 \<Rightarrow> u8 list \<Rightarrow> bool" where
  "datagram_ok src dst us \<longleftrightarrow> le16 (us ! 6) (us ! 7) = 0 \<or>
     NOT (oc_sum (pseudo_header src dst IP_PROTO_UDP (of_nat (length us)) @ us)) = 0"

definition src_port :: "u8 list \<Rightarrow> u16" where
  "src_port us = lwip_ntohs (le16 (us ! 0) (us ! 1))"

definition dst_port :: "u8 list \<Rightarrow> u16" where
  "dst_port us = lwip_ntohs (le16 (us ! 2) (us ! 3))"

lemma get_u16:
  assumes "packet (pst_of s) (Some p) (p # rest)" and "k + 2 \<le> len_of (pst_of s) p" and "us = contents (pst_of s) (p # rest)"
  shows "u16_of (get_hdr p k 2 s) = le16 (us ! k) (us ! Suc k)"
proof -
  have "k + 2 \<le> length us" using assms(2) unfolding assms(3) by simp
  then have "drop k us = us ! k # us ! Suc k # drop (Suc (Suc k)) us" by (simp add: Cons_nth_drop_Suc)
  then have "take 2 (drop k us) = [us ! k, us ! Suc k]" by simp
  then show ?thesis using get_hdr_bytes [OF assms(1,2)] unfolding assms(3) [symmetric] by (simp add: u16_of_def)
qed

lemma udp_chksum_ok_spec:
  assumes pk: "packet (pst_of s) (Some p) (p # rest)" and l: "8 \<le> len_of (pst_of s) p" and us: "us = contents (pst_of s) (p # rest)"
  shows "udp_chksum_ok p s = Some (datagram_ok (current_iphdr_src s) (current_iphdr_dest s) us)"
proof -
  have g: "u16_of (get_hdr p 6 2 s) = le16 (us ! 6) (us ! 7)" using get_u16 [OF pk _ us, of 6] l by simp
  have t: "p_tot_len (pbufs (pst_of s) p) = length us" using tot_len_packet [OF pk] by (simp add: us)
  from packet_pseudo [OF pk, of "current_iphdr_src s" "current_iphdr_dest s" IP_PROTO_UDP "of_nat (length us)"] obtain qs where
    qs: "chain_of (Some p) (pst_of s) = Some qs" "inet_chksum_pseudo lwip_standard_chksum2 qs (current_iphdr_src s) (current_iphdr_dest s)
      IP_PROTO_UDP (of_nat (length us)) = NOT (oc_sum (pseudo_header (current_iphdr_src s) (current_iphdr_dest s) IP_PROTO_UDP
      (of_nat (length us)) @ us))" unfolding us by blast
  show ?thesis unfolding udp_chksum_ok_def g datagram_ok_def t using qs by simp
qed

text \<open>The receiver and the list after the search.\<close>

definition receives :: "(udp_pcb \<Rightarrow> bool) \<Rightarrow> (udp_pcb \<Rightarrow> bool) \<Rightarrow> 'a udp_scheme \<Rightarrow> nat list \<Rightarrow> nat option \<Rightarrow> links \<Rightarrow> bool" where
  "receives lm rm s xs r l \<longleftrightarrow>
     (case find (\<lambda>a. lm (udp_at s a) \<and> rm (udp_at s a)) xs of
        Some a \<Rightarrow> r = Some a \<and> is_list l (a # remove1 a xs)
      | None \<Rightarrow> r = find (\<lambda>a. lm (udp_at s a) \<and> udp_flags (udp_at s a) AND UDP_FLAGS_CONNECTED = 0) xs \<and> is_list l xs)"

lemma udp_input_run:
  fixes inp :: nat
  assumes pk: "packet (pst_of s) (Some p) (p # rest)" and q: "p + SIZEOF_STRUCT_PBUF c \<le> p_payload (pbufs (pst_of s) p)"
    and h: "h = hdr_len bs" "0 < h" "h + 8 \<le> len_of (pst_of s) p" and bs: "bs = contents (pst_of s) (p # rest)"
    and lst: "udp_list s xs"
  defines "us \<equiv> drop h bs" and "bc \<equiv> ip4_addr_isbroadcast (current_iphdr_dest s) (netif.truncate (nifs s inp))"
  shows "\<exists>l r. receives (local_match bc (nif_netmask (nifs s inp)) (current_iphdr_dest s) (dst_port us))
      (remote_match (current_iphdr_src s) (src_port us)) s xs r l \<and>
    udp_input c env out frag cb p inp s =
      (if \<not> (r \<noteq> None \<or> nif_ip_addr (nifs s inp) = current_iphdr_dest s) \<or> \<not> datagram_ok (current_iphdr_src s) (current_iphdr_dest s) us
       then ip_free c env p (set_links l (set_pst (shrink p h (pst_of s)) s))
       else udp_deliver c env out frag cb r bc (int h) (src_port us) p (set_links l (set_pst (shrink p 8 (shrink p h (pst_of s))) s)))"
proof -
  let ?st = "pst_of s"
  have lb: "len_of ?st p \<le> length bs" by (simp add: bs)
  have t: "p_tot_len (pbufs ?st p) = length bs" using tot_len_packet [OF pk] by (simp add: bs)
  have "1 \<le> len_of ?st p" using h by simp
  moreover from this lb have "bs \<noteq> []" by auto
  ultimately have h0: "get_hdr p 0 1 s = [bs ! 0]"
    using get_hdr_bytes [OF pk, of 0 1] take_one [of bs] lb by (simp add: bs [symmetric] del: contents_simps)
  have hl: "4 * uint (bs ! 0 AND 0x0f) = int h" by (simp add: h(1) hdr_len_def)
  have hle: "h \<le> len_of ?st p" using h(3) by simp
  note sh = header_shrink [OF pk hle h(2) q]
  define s1 where "s1 = set_pst (shrink p h ?st) s"
  have p1: "packet (pst_of s1) (Some p) (p # rest)" "contents (pst_of s1) (p # rest) = us" "len_of (pst_of s1) p = len_of ?st p - h"
    using sh(2,3) by (simp_all add: s1_def us_def bs)
  have l8: "8 \<le> len_of (pst_of s1) p" using h(3) by (simp add: p1(3))
  have ports: "u16_of (get_hdr p 0 2 s1) = le16 (us ! 0) (us ! 1)" "u16_of (get_hdr p 2 2 s1) = le16 (us ! 2) (us ! 3)"
    using get_u16 [OF p1(1) _ p1(2) [symmetric], of 0] get_u16 [OF p1(1) _ p1(2) [symmetric], of 2] l8
    by (simp_all add: eval_nat_numeral)
  have sp: "lwip_ntohs (u16_of (get_hdr p 0 2 s1)) = src_port us" "lwip_ntohs (u16_of (get_hdr p 2 2 s1)) = dst_port us"
    by (simp_all only: ports src_port_def dst_port_def)
  have fr: "current_iphdr_src s1 = current_iphdr_src s" "current_iphdr_dest s1 = current_iphdr_dest s" "nifs s1 = nifs s"
    "udp_pcbs s1 = udp_pcbs s" "udp_at s1 = udp_at s" by (simp_all add: s1_def)
  have "udp_list s1 xs" using lst by (simp add: s1_def)
  from demux_start [OF this, of "local_match bc (nif_netmask (nifs s inp)) (current_iphdr_dest s) (dst_port us)"
      "remote_match (current_iphdr_src s) (src_port us)"] obtain l r where
    d: "demux_loop (local_match bc (nif_netmask (nifs s inp)) (current_iphdr_dest s) (dst_port us))
      (remote_match (current_iphdr_src s) (src_port us)) None None (udp_pcbs s1) s1 = Some (r, set_links l s1)"
    and r: "receives (local_match bc (nif_netmask (nifs s inp)) (current_iphdr_dest s) (dst_port us))
      (remote_match (current_iphdr_src s) (src_port us)) s xs r l"
    unfolding receives_def fr by blast
  define s2 where "s2 = set_links l s1"
  have p2: "packet (pst_of s2) (Some p) (p # rest)" "us = contents (pst_of s2) (p # rest)" "8 \<le> len_of (pst_of s2) p"
    using p1(1,2) l8 by (simp_all add: s2_def)
  have ck: "udp_chksum_ok p s2 = Some (datagram_ok (current_iphdr_src s) (current_iphdr_dest s) us)"
    using udp_chksum_ok_spec [OF p2(1,3,2)] by (simp add: s2_def fr)
  have "p + SIZEOF_STRUCT_PBUF c \<le> p_payload (pbufs (pst_of s2) p)" using q by (simp add: s2_def s1_def)
  note sh2 = header_shrink(1) [OF p2(1,3) _ this, simplified]
  have fr2: "nifs s2 = nifs s" "current_iphdr_dest s2 = current_iphdr_dest s" by (simp_all add: s2_def fr)
  have run: "udp_input c env out frag cb p inp s =
      (if r \<noteq> None \<or> nif_ip_addr (nifs s inp) = current_iphdr_dest s then
         if datagram_ok (current_iphdr_src s) (current_iphdr_dest s) us
         then udp_deliver c env out frag cb r bc (int h) (src_port us) p (set_pst (shrink p 8 (pst_of s2)) s2) else ip_free c env p s2
       else ip_free c env p s2)"
    unfolding udp_input_def h0
    using sh(1) h(3) lb t d ck sh2
    by (simp add: Let_def hl UDP_HLEN_def fr fr2 sp flip: s1_def bc_def s2_def)
  have s2: "s2 = set_links l (set_pst (shrink p h ?st) s)"
    "set_pst (shrink p 8 (pst_of s2)) s2 = set_links l (set_pst (shrink p 8 (shrink p h ?st)) s)"
    by (simp_all add: s2_def s1_def set_pst_links)
  show ?thesis
    by (intro exI [of _ l] exI [of _ r] conjI r) (unfold run s2(2), simp add: s2(1))
qed

section \<open>Output\<close>

text \<open>The header with its checksum, for the data \<open>ds\<close>; without checksums the field is zero.\<close>

definition udp_hdr :: "u16 \<Rightarrow> u16 \<Rightarrow> u16 \<Rightarrow> u16 \<Rightarrow> u8 list" where
  "udp_hdr sport dport len ck =
     u16_bytes (lwip_htons sport) @ u16_bytes (lwip_htons dport) @ u16_bytes (lwip_htons len) @ u16_bytes ck"

lemma length_udp_hdr [simp]: "length (udp_hdr sport dport len ck) = 8"
  by (simp add: udp_hdr_def)

lemma length_u16_bytes' [simp]: "length (u16_bytes w) = 2"
  by (simp add: u16_bytes_def)

lemma udp_hdr_fields:
  "src_port (udp_hdr sport dport len ck @ ds) = sport" "dst_port (udp_hdr sport dport len ck @ ds) = dport"
  "le16 ((udp_hdr sport dport len ck @ ds) ! 4) ((udp_hdr sport dport len ck @ ds) ! 5) = lwip_htons len"
  "le16 ((udp_hdr sport dport len ck @ ds) ! 6) ((udp_hdr sport dport len ck @ ds) ! 7) = ck"
  by (simp_all add: src_port_def dst_port_def udp_hdr_def u16_bytes_def le16_u16_bytes)

definition sent_chksum :: "u32 \<Rightarrow> u32 \<Rightarrow> u8 list \<Rightarrow> u16" where
  "sent_chksum src dst us = (let ck = NOT (oc_sum (pseudo_header src dst IP_PROTO_UDP (of_nat (length us)) @ us)) in if ck = 0 then 0xffff else ck)"

text \<open>The checksum that is sent is right: with the field zero the sum is its complement.\<close>

lemma sent_chksum_ok:
  assumes "ck = sent_chksum src dst (udp_hdr sport dport len 0 @ ds)"
  shows "NOT (oc_sum (pseudo_header src dst IP_PROTO_UDP (of_nat (length (udp_hdr sport dport len ck @ ds))) @ udp_hdr sport dport len ck @ ds)) = 0"
    and "ck \<noteq> 0"
proof -
  show "ck \<noteq> 0" by (simp add: assms sent_chksum_def Let_def)
  let ?ps = "pseudo_header src dst IP_PROTO_UDP (of_nat (length (udp_hdr sport dport len 0 @ ds)))"
  let ?m = "\<lambda>c. ?ps @ udp_hdr sport dport len c @ ds"
  have e: "?m c = (?ps @ take 6 (udp_hdr sport dport len 0)) @ u16_bytes c @ ds" for c by (simp add: udp_hdr_def u16_bytes_def)
  have ev: "even (length (?ps @ take 6 (udp_hdr sport dport len 0)))" by (simp add: pseudo_header_def u32_bytes_def)
  have w: "wsum (?m c) = wsum (?m 0) + unat c" for c
    unfolding e [of c] e [of 0] by (simp only: wsum_append_even [OF ev] wsum_u16) simp
  define N where "N = wsum (?m 0)"
  have r: "oc N mod 65535 = N mod 65535" "oc N \<le> 65535" using rep_oc [of N] oc_le [of N] by (simp_all add: rep_def)
  have un: "unat (NOT (oc_sum (?m 0))) = 65535 - oc N" unfolding unat_not_u16 using oc_le [of N] by (simp add: oc_sum_def N_def word_nat)
  have ck: "unat ck = (if oc N = 65535 then 65535 else 65535 - oc N)"
    using un r(2) unfolding assms sent_chksum_def Let_def by (auto simp: unat_eq_0 [symmetric])
  have "(N + unat ck) mod 65535 = (oc N + unat ck) mod 65535" using r(1) by (intro mod_add_cong) simp_all
  also have "oc N + unat ck = (if oc N = 65535 then 65535 + 65535 else 65535)" using ck r(2) by simp
  also have "\<dots> mod 65535 = 0" by simp
  finally have "(N + unat ck) mod 65535 = 0" .
  moreover have "0 < N + unat ck" using \<open>ck \<noteq> 0\<close> by (simp add: unat_gt_0)
  ultimately have "NOT (oc_sum (?m ck)) = 0" unfolding verifies_iff w [of ck] N_def [symmetric] by blast
  then show "NOT (oc_sum (pseudo_header src dst IP_PROTO_UDP (of_nat (length (udp_hdr sport dport len ck @ ds))) @ udp_hdr sport dport len ck @ ds)) = 0"
    by simp
qed


text \<open>Writing into the header of a packet with \<open>j\<close> bytes of room in front.\<close>

definition holds :: "pbuf_cfg \<Rightarrow> nat \<Rightarrow> nat list \<Rightarrow> nat \<Rightarrow> 'a net_scheme \<Rightarrow> u8 list \<Rightarrow> bool" where
  "holds c p rest j s bs \<longleftrightarrow> packet (pst_of s) (Some p) (p # rest) \<and> room c (pst_of s) p rest j \<and>
     8 \<le> len_of (pst_of s) p \<and> contents (pst_of s) (p # rest) = bs"

lemma put_hdr_holds:
  assumes h: "holds c p rest j s (xs @ ys @ zs)" and l: "k = length xs" "length ys = length bs" "k + length bs \<le> 8"
  shows "holds c p rest j (put_hdr p k bs s) (xs @ bs @ zs)"
proof -
  have pb: "pbufs (pst_of (put_hdr p k bs s)) = pbufs (pst_of s)" by simp
  have "k + length bs \<le> len_of (pst_of s) p" using h l by (simp add: holds_def)
  note w = write_first [OF _ room_sep this, of rest c j]
  have "pst_of (put_hdr p k bs s) = write_bytes (p_payload (pbufs (pst_of s) p) + k) bs (pst_of s)" by simp
  moreover have "room c (pst_of (put_hdr p k bs s)) p rest j = room c (pst_of s) p rest j"
    by (simp add: room_def region_def total_def)
  ultimately show ?thesis using h w l unfolding holds_def by (simp del: contents_simps)
qed

lemma udp_send_run:
  assumes pk: "packet (pst_of s) (Some p) (p # rest)" and r: "room c (pst_of s) p rest (8 + j)"
    and ds: "ds = contents (pst_of s) (p # rest)" and u: "u = udp_at s pcb" and b: "local_port u \<noteq> 0"
    and ip: "ip_addr_isany (local_ip u) \<or> local_ip u = nif_ip_addr (nifs s n)"
  defines "src \<equiv> nif_ip_addr (nifs s n)" and "len \<equiv> of_nat (length ds + 8) :: u16"
  shows "\<exists>s1. udp_sendto_if c env out frag pcb p dst port n s =
      ip_output_if c out frag p src (Some dst) (ttl u) (tos u) IP_PROTO_UDP n s1 \<and>
    holds c p rest j s1 (udp_hdr (local_port u) port len
      (if udp_flags u AND UDP_FLAGS_NOCHKSUM = 0 then sent_chksum src dst (udp_hdr (local_port u) port len 0 @ ds) else 0) @ ds) \<and>
    s1 = set_pst (pst_of s1) s"
proof -
  have r8: "room c (pst_of s) p rest 8" by (rule room_less [OF r]) simp
  note g = header_grow [OF pk r8]
  define s1 where "s1 = set_pst (grow p 8 (pst_of s)) s"
  define xs where "xs = load_bytes (p_payload (pbufs (pst_of s) p) - 8) 8 (payload_bytes (pst_of s))"
  have add: "add_header c env p s = Some (Some p, s1)"
    using g(1) by (simp add: add_header_def UDP_HLEN_def s1_def)
  have "length xs = 8" by (simp add: xs_def load_bytes_def)
  then obtain x0 x1 x2 x3 x4 x5 x6 x7 where xs: "xs = [x0, x1] @ [x2, x3] @ [x4, x5] @ [x6, x7]"
    by (auto simp: length_Suc_conv numeral_eq_Suc)
  have "room c (pst_of s1) p rest j" using header_grow(4) [OF pk r8 _ _ r] by (simp add: s1_def)
  then have h1: "holds c p rest j s1 (([] @ [x0, x1] @ [x2, x3] @ [x4, x5] @ [x6, x7]) @ ds)"
    using g(2,3) xs unfolding xs_def by (simp add: holds_def s1_def ds del: contents_simps)
  let ?sp = "u16_bytes (lwip_htons (local_port u))" and ?dp = "u16_bytes (lwip_htons port)" and ?ln = "u16_bytes (lwip_htons len)"
  define s2 where "s2 = put_hdr p 0 ?sp s1"
  define s3 where "s3 = put_hdr p 2 ?dp s2"
  define s4 where "s4 = put_hdr p 6 [0, 0] s3"
  define s5 where "s5 = put_hdr p 4 ?ln s4"
  have "holds c p rest j s2 ([] @ ?sp @ [x2, x3] @ [x4, x5] @ [x6, x7] @ ds)"
    unfolding s2_def by (rule put_hdr_holds [where ys = "[x0, x1]"]) (use h1 in simp_all)
  then have "holds c p rest j s3 (?sp @ ?dp @ [x4, x5] @ [x6, x7] @ ds)"
    unfolding s3_def by (intro put_hdr_holds [where ys = "[x2, x3]"]) simp_all
  then have "holds c p rest j s4 ((?sp @ ?dp @ [x4, x5]) @ [0, 0] @ ds)"
    unfolding s4_def by (intro put_hdr_holds [where ys = "[x6, x7]"]) simp_all
  then have "holds c p rest j s5 ((?sp @ ?dp) @ ?ln @ [0, 0] @ ds)"
    unfolding s5_def by (intro put_hdr_holds [where ys = "[x4, x5]"]) simp_all
  then have h5: "holds c p rest j s5 (udp_hdr (local_port u) port len 0 @ ds)" by (simp add: udp_hdr_def u16_bytes_def [of 0])
  define s6 where "s6 = (if udp_flags u AND UDP_FLAGS_NOCHKSUM = 0
    then put_hdr p 6 (u16_bytes (sent_chksum src dst (udp_hdr (local_port u) port len 0 @ ds))) s5 else s5)"
  from h5 have p5: "packet (pst_of s5) (Some p) (p # rest)"
    "contents (pst_of s5) (p # rest) = udp_hdr (local_port u) port len 0 @ ds" by (simp_all add: holds_def)
  have t5: "p_tot_len (pbufs (pst_of s5) p) = length ds + 8"
  proof -
    have "p_tot_len (pbufs (pst_of s5) p) = length (contents (pst_of s5) (p # rest))"
      unfolding tot_len_packet [OF p5(1)] by (rule length_contents [symmetric])
    then show ?thesis unfolding p5(2) by simp
  qed
  then have t4: "of_nat (p_tot_len (pbufs (pst_of s4) p)) = len" by (simp add: s5_def len_def)
  have ck: "udp_chksum p src dst s5 = Some (sent_chksum src dst (udp_hdr (local_port u) port len 0 @ ds))"
  proof -
    from packet_pseudo [OF p5(1), of src dst IP_PROTO_UDP len] obtain qs where
      "chain_of (Some p) (pst_of s5) = Some qs" "inet_chksum_pseudo lwip_standard_chksum2 qs src dst IP_PROTO_UDP len =
        NOT (oc_sum (pseudo_header src dst IP_PROTO_UDP len @ udp_hdr (local_port u) port len 0 @ ds))" unfolding p5(2) by blast
    then show ?thesis using t5 by (simp add: udp_chksum_def Let_def sent_chksum_def len_def add.commute)
  qed
  have "holds c p rest j s6 (udp_hdr (local_port u) port len
      (if udp_flags u AND UDP_FLAGS_NOCHKSUM = 0 then sent_chksum src dst (udp_hdr (local_port u) port len 0 @ ds) else 0) @ ds)"
  proof (cases "udp_flags u AND UDP_FLAGS_NOCHKSUM = 0")
    case True
    then have s6: "s6 = put_hdr p 6 (u16_bytes (sent_chksum src dst (udp_hdr (local_port u) port len 0 @ ds))) s5" by (simp add: s6_def)
    have "holds c p rest j s5 ((?sp @ ?dp @ ?ln) @ [0, 0] @ ds)" using h5 by (simp add: udp_hdr_def u16_bytes_def [of 0])
    then have "holds c p rest j s6 ((?sp @ ?dp @ ?ln) @ u16_bytes (sent_chksum src dst (udp_hdr (local_port u) port len 0 @ ds)) @ ds)"
      unfolding s6 by (intro put_hdr_holds [where ys = "[0, 0]"]) simp_all
    with True show ?thesis by (simp add: udp_hdr_def)
  next
    case False
    with h5 show ?thesis by (simp add: s6_def)
  qed
  moreover have "udp_sendto_if c env out frag pcb p dst port n s =
      ip_output_if c out frag p src (Some dst) (ttl u) (tos u) IP_PROTO_UDP n s6"
  proof -
    have fr: "udp_at s1 = udp_at s" "nifs s1 = nifs s" by (simp_all add: s1_def)
    have fr4: "nifs s4 = nifs s" by (simp add: s4_def s3_def s2_def s1_def)
    have bu: "bind_unbound pcb s = Some (ERR_OK, s)" using b u by (simp add: bind_unbound_def)
    have src: "nif_ip_addr (nifs s n) = src" by (simp add: src_def)
    show ?thesis
    proof (cases "ip_addr_isany (local_ip u)")
      case True
      then show ?thesis unfolding udp_sendto_if_def bu
        using ck by (simp add: add fr u [symmetric] Let_def fr4 src t4 flip: s2_def s3_def s4_def s5_def) (simp add: s6_def)
    next
      case False
      with ip src have "local_ip u = src" by simp
      with False show ?thesis unfolding udp_sendto_if_def bu
        using ck by (simp add: add fr u [symmetric] Let_def fr4 src t4 flip: s2_def s3_def s4_def s5_def) (simp add: s6_def)
    qed
  qed
  moreover have "s6 = set_pst (pst_of s6) s" by (simp add: s6_def s5_def s4_def s3_def s2_def s1_def put_hdr_def put_at_def set_pst_def)
  ultimately show ?thesis by blast
qed

section \<open>Properties\<close>

text \<open>Property C38: \<^verbatim>\<open>udp_sendto_if\<close> hands the data of a bound block to IP with a header in front whose ports, as the receiver
  reads them, are those of the block and of the destination, whose length is that of the datagram and whose checksum the
  receiver accepts; with checksums on it is not zero.  The data behind the header is unchanged.\<close>

theorem udp_sendto_packet:
  assumes "packet (pst_of s) (Some p) (p # rest)" and "room c (pst_of s) p rest (8 + j)"
    and "local_port (udp_at s pcb) \<noteq> 0" and "local_ip (udp_at s pcb) = 0 \<or> local_ip (udp_at s pcb) = nif_ip_addr (nifs s n)"
    and "src = nif_ip_addr (nifs s n)"
  shows "\<exists>s1 us. udp_sendto_if c env out frag pcb p dst port n s =
      ip_output_if c out frag p src (Some dst) (ttl (udp_at s pcb)) (tos (udp_at s pcb)) IP_PROTO_UDP n s1 \<and>
    packet (pst_of s1) (Some p) (p # rest) \<and> room c (pst_of s1) p rest j \<and> contents (pst_of s1) (p # rest) = us \<and>
    length us = length (contents (pst_of s) (p # rest)) + 8 \<and> drop 8 us = contents (pst_of s) (p # rest) \<and>
    src_port us = local_port (udp_at s pcb) \<and> dst_port us = port \<and> lwip_ntohs (le16 (us ! 4) (us ! 5)) = of_nat (length us) \<and>
    datagram_ok src dst us \<and> (udp_flags (udp_at s pcb) AND UDP_FLAGS_NOCHKSUM = 0 \<longrightarrow> le16 (us ! 6) (us ! 7) \<noteq> 0) \<and>
    udp_at s1 = udp_at s \<and> nifs s1 = nifs s"
proof -
  define u where "u = udp_at s pcb"
  define ds where "ds = contents (pst_of s) (p # rest)"
  define len where "len = (of_nat (length ds + 8) :: u16)"
  define ck where "ck = (if udp_flags u AND UDP_FLAGS_NOCHKSUM = 0 then sent_chksum src dst (udp_hdr (local_port u) port len 0 @ ds) else 0)"
  let ?us = "udp_hdr (local_port u) port len ck @ ds"
  have ip: "ip_addr_isany (local_ip u) \<or> local_ip u = nif_ip_addr (nifs s n)" using assms(4) by (simp add: u_def ip_addr_isany_def)
  from udp_send_run [OF assms(1,2) ds_def u_def assms(3) [folded u_def] ip, of env out frag dst port] obtain s1 where s1:
    "udp_sendto_if c env out frag pcb p dst port n s = ip_output_if c out frag p src (Some dst) (ttl u) (tos u) IP_PROTO_UDP n s1"
    "holds c p rest j s1 ?us" "s1 = set_pst (pst_of s1) s"
    unfolding ck_def len_def assms(5) by blast
  have "datagram_ok src dst ?us"
  proof (cases "udp_flags u AND UDP_FLAGS_NOCHKSUM = 0")
    case True
    then have "ck = sent_chksum src dst (udp_hdr (local_port u) port len 0 @ ds)" by (simp add: ck_def)
    from sent_chksum_ok(1) [OF this] show ?thesis by (simp add: datagram_ok_def)
  next
    case False
    then show ?thesis using udp_hdr_fields(4) [of "local_port u" port len ck ds] by (simp add: datagram_ok_def ck_def)
  qed
  moreover have "ck \<noteq> 0" if "udp_flags u AND UDP_FLAGS_NOCHKSUM = 0"
    using that sent_chksum_ok(2) [of ck src dst "local_port u" port len ds] by (simp add: ck_def)
  moreover have "udp_at s1 = udp_at s" "nifs s1 = nifs s" by (subst s1(3), simp)+
  ultimately show ?thesis using s1(1,2) unfolding holds_def
    by (intro exI [of _ s1] exI [of _ ?us]) (simp add: udp_hdr_fields u_def [symmetric] ds_def [symmetric] len_def add.commute del: contents_simps)
qed

text \<open>Property C37: \<^verbatim>\<open>udp_input\<close> gives a datagram whose checksum is right or absent to the first block on the list that matches it
  on both sides, which moves to the front, and without one to the first unconnected block that matches its destination.
  What the block's callback gets is the data behind the header and the sender's port.  Without a receiver a datagram to
  the address of the interface goes to the last part of the function, which reports the port unreachable, and every
  other datagram is freed.\<close>

theorem udp_input_delivers:
  assumes "packet (pst_of s) (Some p) (p # rest)" and "p + SIZEOF_STRUCT_PBUF c \<le> p_payload (pbufs (pst_of s) p)"
    and "h = hdr_len bs" and "0 < h" and "h + 8 \<le> len_of (pst_of s) p" and "bs = contents (pst_of s) (p # rest)"
    and "udp_list s xs" and "us = drop h bs" and "bc = ip4_addr_isbroadcast (current_iphdr_dest s) (netif.truncate (nifs s inp))"
    and "lm = local_match bc (nif_netmask (nifs s inp)) (current_iphdr_dest s) (dst_port us)"
    and "rm = remote_match (current_iphdr_src s) (src_port us)"
  shows "\<exists>l r s1. packet (pst_of s1) (Some p) (p # rest) \<and> pcb_links s1 = l \<and> nifs s1 = nifs s \<and>
    (case find (\<lambda>a. lm (udp_at s a) \<and> rm (udp_at s a)) xs of
       Some a \<Rightarrow> r = Some a \<and> is_list l (a # remove1 a xs)
     | None \<Rightarrow> r = find (\<lambda>a. lm (udp_at s a) \<and> udp_flags (udp_at s a) AND UDP_FLAGS_CONNECTED = 0) xs \<and> is_list l xs) \<and>
    (if (r = None \<and> nif_ip_addr (nifs s inp) \<noteq> current_iphdr_dest s) \<or> \<not> datagram_ok (current_iphdr_src s) (current_iphdr_dest s) us
     then udp_input c env out frag cb p inp s = ip_free c env p s1
     else contents (pst_of s1) (p # rest) = drop 8 us \<and>
       udp_input c env out frag cb p inp s =
         (case r of
            None \<Rightarrow> udp_deliver c env out frag cb None bc (int h) (src_port us) p s1
          | Some a \<Rightarrow> (case recv (udp_at s a) of
                        Some f \<Rightarrow> cb f (recv_arg (udp_at s a)) a p (current_iphdr_src s) (src_port us) s1
                      | None \<Rightarrow> ip_free c env p s1)))"
proof -
  let ?st = "pst_of s"
  from udp_input_run [OF assms(1-7), of inp env out frag cb, folded assms(8) assms(9), folded assms(10,11)] obtain l r where
    lr: "receives lm rm s xs r l" "udp_input c env out frag cb p inp s =
      (if \<not> (r \<noteq> None \<or> nif_ip_addr (nifs s inp) = current_iphdr_dest s) \<or> \<not> datagram_ok (current_iphdr_src s) (current_iphdr_dest s) us
       then ip_free c env p (set_links l (set_pst (shrink p h ?st) s))
       else udp_deliver c env out frag cb r bc (int h) (src_port us) p (set_links l (set_pst (shrink p 8 (shrink p h ?st)) s)))"
    by blast
  have "h \<le> len_of ?st p" using assms(5) by simp
  note sh = header_shrink(2,3) [OF assms(1) this assms(4,2)]
  have "8 \<le> len_of (shrink p h ?st) p" "p + SIZEOF_STRUCT_PBUF c \<le> p_payload (pbufs (shrink p h ?st) p)" using assms(2,5) by simp_all
  note sh2 = header_shrink(2,3) [OF sh(1) this(1) _ this(2)]
  have us: "contents (shrink p 8 (shrink p h ?st)) (p # rest) = drop 8 us"
    using sh2(2) sh(2) by (simp add: assms(8) assms(6) del: contents_simps)
  show ?thesis
  proof (cases "(r = None \<and> nif_ip_addr (nifs s inp) \<noteq> current_iphdr_dest s) \<or> \<not> datagram_ok (current_iphdr_src s) (current_iphdr_dest s) us")
    case True
    then show ?thesis using lr sh(1) unfolding receives_def
      by (intro exI [of _ l] exI [of _ r] exI [of _ "set_links l (set_pst (shrink p h ?st) s)"]) auto
  next
    case False
    then show ?thesis using lr sh2(1) us unfolding receives_def
      by (intro exI [of _ l] exI [of _ r] exI [of _ "set_links l (set_pst (shrink p 8 (shrink p h ?st)) s)"])
        (auto simp: udp_deliver_def split: option.splits)
  qed
qed

lemma udp_sendto_packet_witness:
  "\<exists>s1 us. udp_sendto_if ex_cfg ex_env (\<lambda>_ _ _ a. Some (ERR_OK, a)) (\<lambda>_ _ _ a. None) 5 600 0x0202A8C0 53 1 (ex_udp 7 (Some 5) ex_tx) =
      ip_output_if ex_cfg (\<lambda>_ _ _ a. Some (ERR_OK, a)) (\<lambda>_ _ _ a. None) 600 0x0102A8C0 (Some 0x0202A8C0) 255 0 17 1 s1 \<and>
    contents (pst_of s1) [600] = us \<and> length us = 12 \<and> src_port us = 7 \<and> dst_port us = 53 \<and> datagram_ok 0x0102A8C0 0x0202A8C0 us"
proof -
  let ?s = "ex_udp 7 (Some 5) ex_tx"
  have a: "packet (pst_of ?s) (Some 600) [600]" "room ex_cfg (pst_of ?s) 600 [] (8 + 46)" "0x0102A8C0 = nif_ip_addr (nifs ?s 1)"
    using ex_tx_facts by (simp_all add: ex_ip_def ex_nif_def)
  have b: "local_port (udp_at ?s 5) \<noteq> 0" "local_ip (udp_at ?s 5) = 0 \<or> local_ip (udp_at ?s 5) = nif_ip_addr (nifs ?s 1)"
    by (simp_all add: ex_pcb_def)
  have l: "length (contents (pst_of ?s) [600]) + 8 = 12" using ex_tx_facts(4) by (simp only: length_contents ex_udp_facts)
  have v: "ttl (udp_at ?s 5) = 255" "tos (udp_at ?s 5) = 0" "local_port (udp_at ?s 5) = 7" by (simp_all add: ex_pcb_def)
  note udp_sendto_packet [OF a(1,2) b a(3), of ex_env "\<lambda>_ _ _ a. Some (ERR_OK, a)" "\<lambda>_ _ _ a. None" "0x0202A8C0" 53,
    unfolded IP_PROTO_UDP_def v l]
  then show ?thesis by (elim exE conjE) (intro exI conjI)
qed

lemma udp_input_delivers_witness:
  "\<exists>s1. udp_input ex_cfg ex_env (\<lambda>_ _ _ a. Some (ERR_OK, a)) (\<lambda>_ _ _ a. None) (\<lambda>_ _ _ _ _ _ t. Some t) 600 1
      ((ex_udp 7 (Some 5) (ex_rx (ip_hdr 0 30 7 255 17 0x0202A8C0 0x0102A8C0 @ udp_hdr 9 7 10 0 @ [1, 2])))
        \<lparr>current_iphdr_src := 0x0202A8C0, current_iphdr_dest := 0x0102A8C0\<rparr>) = Some s1 \<and>
    contents (pst_of s1) [600] = [1, 2]"
proof -
  let ?us = "udp_hdr 9 7 10 0 @ [1, 2]"
  let ?f = "ip_hdr 0 30 7 255 17 0x0202A8C0 0x0102A8C0 @ ?us"
  let ?s = "(ex_udp 7 (Some 5) (ex_rx ?f))\<lparr>current_iphdr_src := 0x0202A8C0, current_iphdr_dest := 0x0102A8C0\<rparr>"
  have l: "length ?f = 30" by simp
  then have "length ?f < 65536" by simp
  note F = ex_rx_facts [OF this]
  note H = ip_hdr_fields [of 0 30 7 255 17 "0x0202A8C0" "0x0102A8C0" ?us]
  have S: "pst_of ?s = ex_rx ?f" "udp_at ?s a = ex_pcb 7" "nifs ?s = nifs (ex_ip ex_st)" "udp_list ?s [5]" for a
    using ex_udp_list(1) [of 7 5 "ex_rx ?f"] by (simp_all add: ex_ip_def pcb_links_def)
  have us: "drop 20 ?f = ?us" by simp
  have bc: "\<not> ip4_addr_isbroadcast 0x0102A8C0 (netif.truncate (nifs ?s 1))"
    unfolding S by (simp add: ip4_addr_isbroadcast_def ex_ip_def ex_nif_def netif.truncate_def ip_addr_netcmp_def)
  have "packet (pst_of ?s) (Some 600) [600]" "600 + SIZEOF_STRUCT_PBUF ex_cfg \<le> p_payload (pbufs (pst_of ?s) 600)"
    "20 + 8 \<le> len_of (pst_of ?s) 600" "?f = contents (pst_of ?s) [600]"
    unfolding S using F l by (simp_all add: SIZEOF_STRUCT_PBUF_def ex_facts(7) del: contents_simps)
  from udp_input_delivers [OF this(1,2) H(1) [symmetric] _ this(3,4) S(4) us [symmetric] refl refl refl,
      where env = ex_env and out = "\<lambda>_ _ _ a. Some (ERR_OK, a)" and frag = "\<lambda>_ _ _ a. None" and cb = "\<lambda>_ _ _ _ _ _ t. Some t" and inp = 1]
  show ?thesis using bc
    by (auto simp: S local_match_def remote_match_def udp_hdr_fields datagram_ok_def ex_pcb_def ip_addr_isany_def simp del: contents_simps)
qed

end
