(* ===== verification/Raw.thy ===== *)
theory Raw
  imports Udp_Data
begin

text \<open>
  \<^verbatim>\<open>lwip/src/core/raw.c\<close> in the default configuration: control blocks for IP protocols, which see a packet before
  the transport layer does.  The state extends that of \<^verbatim>\<open>udp.c\<close>.  \<open>cb f arg pcb p addr\<close> is the call of the callback
  at \<open>f\<close>; its result says whether it ate the packet.
\<close>

record raw_pcb = ip_pcb +
  protocol :: u8
  raw_cb :: "nat option"
  raw_arg :: nat

record raw = udp +
  raw_at :: "nat \<Rightarrow> raw_pcb"
  raw_pcbs :: "nat option"

type_synonym 's raw_recv_fn = "nat \<Rightarrow> nat \<Rightarrow> nat \<Rightarrow> nat \<Rightarrow> u32 \<Rightarrow> 's \<Rightarrow> (bool \<times> 's) option"

definition MEMP_RAW_PCB :: nat where "MEMP_RAW_PCB = 0"

definition RAW_TTL :: u8 where "RAW_TTL = 255"

definition upd_raw :: "nat \<Rightarrow> (raw_pcb \<Rightarrow> raw_pcb) \<Rightarrow> 'a raw_scheme \<Rightarrow> 'a raw_scheme" where
  "upd_raw a f s = s\<lparr>raw_at := (raw_at s)(a := f (raw_at s a))\<rparr>"

definition raw_links :: "'a raw_scheme \<Rightarrow> links" where
  "raw_links s = (\<lambda>a. pcb_next (raw_at s a), raw_pcbs s)"

definition set_raw_links :: "links \<Rightarrow> 'a raw_scheme \<Rightarrow> 'a raw_scheme" where
  "set_raw_links l s = s\<lparr>raw_at := (\<lambda>a. (raw_at s a)\<lparr>pcb_next := fst l a\<rparr>), raw_pcbs := snd l\<rparr>"

section \<open>Input\<close>

definition raw_match :: "u8 \<Rightarrow> u32 \<Rightarrow> raw_pcb \<Rightarrow> bool" where
  "raw_match proto dest u \<longleftrightarrow> protocol u = proto \<and> (ip_addr_isany (local_ip u) \<or> local_ip u = dest)"

text \<open>The loop; the \<^verbatim>\<open>next\<close> field is read after the callback ran.\<close>

partial_function (option) raw_loop ::
    "'a raw_scheme raw_recv_fn \<Rightarrow> u8 \<Rightarrow> nat \<Rightarrow> nat option \<Rightarrow> nat option \<Rightarrow> 'a raw_scheme \<Rightarrow> (bool \<times> 'a raw_scheme) option" where
  "raw_loop cb proto p prev t s =
     (case t of
        None \<Rightarrow> Some (False, s)
      | Some a \<Rightarrow> do {
          (eaten, s) \<leftarrow>
            (if raw_match proto (current_iphdr_dest s) (raw_at s a) then
               (case raw_cb (raw_at s a) of
                  Some f \<Rightarrow> cb f (raw_arg (raw_at s a)) a p (current_iphdr_src s) s
                | None \<Rightarrow> Some (False, s))
             else Some (False, s));
          if eaten then Some (True, case prev of Some b \<Rightarrow> set_raw_links (to_front b a (raw_links s)) s | None \<Rightarrow> s)
          else raw_loop cb proto p (Some a) (pcb_next (raw_at s a)) s })"

definition raw_input :: "'a raw_scheme raw_recv_fn \<Rightarrow> nat \<Rightarrow> nat \<Rightarrow> 'a raw_scheme \<Rightarrow> (bool \<times> 'a raw_scheme) option" where
  "raw_input cb p inp s = raw_loop cb (get_hdr p 9 1 s ! 0) p None (raw_pcbs s) s"

section \<open>Control blocks\<close>

definition raw_bind :: "nat \<Rightarrow> u32 \<Rightarrow> 'a raw_scheme \<Rightarrow> err_t \<times> 'a raw_scheme" where
  "raw_bind pcb ipaddr s = (ERR_OK, upd_raw pcb (\<lambda>u. u\<lparr>local_ip := ipaddr\<rparr>) s)"

definition raw_connect :: "nat \<Rightarrow> u32 \<Rightarrow> 'a raw_scheme \<Rightarrow> err_t \<times> 'a raw_scheme" where
  "raw_connect pcb ipaddr s = (ERR_OK, upd_raw pcb (\<lambda>u. u\<lparr>remote_ip := ipaddr\<rparr>) s)"

definition raw_recv :: "nat \<Rightarrow> nat option \<Rightarrow> nat \<Rightarrow> 'a raw_scheme \<Rightarrow> 'a raw_scheme" where
  "raw_recv pcb f arg s = upd_raw pcb (\<lambda>u. u\<lparr>raw_cb := f, raw_arg := arg\<rparr>) s"

definition raw_remove :: "nat \<Rightarrow> 'a raw_scheme \<Rightarrow> 'a raw_scheme option" where
  "raw_remove pcb s = do {
     l \<leftarrow> remove_pcb pcb (raw_links s);
     let s = set_raw_links l s;
     Some (set_pst ((pst_of s)\<lparr>pbuf_pools := memp_free MEMP_RAW_PCB (Some pcb) (pbuf_pools (pst_of s))\<rparr>) s) }"

definition raw_new :: "u8 \<Rightarrow> 'a raw_scheme \<Rightarrow> nat option \<times> 'a raw_scheme" where
  "raw_new proto s =
     (let (pcb, pools) = memp_malloc MEMP_RAW_PCB (pbuf_pools (pst_of s));
          s = set_pst ((pst_of s)\<lparr>pbuf_pools := pools\<rparr>) s
      in (pcb, case pcb of
                 None \<Rightarrow> s
               | Some a \<Rightarrow>
                   let s = upd_raw a (\<lambda>_. \<lparr>local_ip = 0, remote_ip = 0, so_options = 0, tos = 0, ttl = RAW_TTL, pcb_next = None,
                             protocol = proto, raw_cb = None, raw_arg = 0\<rparr>) s
                   in set_raw_links (add_first a (raw_links s)) s))"

section \<open>Output\<close>

text \<open>The packet, behind a new empty pbuf when its first one has no room for the IP header; \<open>None\<close> inside: \<^verbatim>\<open>ERR_MEM\<close>.\<close>

definition raw_header :: "pbuf_cfg \<Rightarrow> pbuf_env \<Rightarrow> nat \<Rightarrow> 'a net_scheme \<Rightarrow> (nat option \<times> 'a net_scheme) option" where
  "raw_header c env p s =
     (let (r, st) = pbuf_header c (Some p) (int IP_HLEN) (pst_of s)
      in if r \<noteq> 0 then do {
           (q, st) \<leftarrow> pbuf_alloc c env PBUF_IP 0 PBUF_RAM st;
           case q of
             None \<Rightarrow> Some (None, set_pst st s)
           | Some q \<Rightarrow> do {
               st \<leftarrow> (if p_tot_len (pbufs st p) \<noteq> 0 then pbuf_chain q p st else Some st);
               Some (Some q, set_pst st s) } }
         else let (r, st) = pbuf_header c (Some p) (- int IP_HLEN) st
              in Some (if r \<noteq> 0 then None else Some p, set_pst st s))"

definition raw_sendto ::
    "pbuf_cfg \<Rightarrow> pbuf_env \<Rightarrow> output_fn \<Rightarrow> output_fn \<Rightarrow> nat \<Rightarrow> nat \<Rightarrow> u32 \<Rightarrow> 'a raw_scheme \<Rightarrow> (err_t \<times> 'a raw_scheme) option" where
  "raw_sendto c env out frag pcb p ipaddr s = do {
     (q, s) \<leftarrow> raw_header c env p s;
     case q of
       None \<Rightarrow> Some (ERR_MEM, s)
     | Some q \<Rightarrow> do {
         netif \<leftarrow> ip_route ipaddr s;
         case netif of
           None \<Rightarrow> do { s \<leftarrow> (if q \<noteq> p then ip_free c env q s else Some s); Some (ERR_RTE, s) }
         | Some n \<Rightarrow> do {
             let u = raw_at s pcb;
             let src_ip = (if ip_addr_isany (local_ip u) then nif_ip_addr (nifs s n) else local_ip u);
             (e, s) \<leftarrow> ip_output_if c out frag q src_ip (Some ipaddr) (ttl u) (tos u) (protocol u) n s;
             s \<leftarrow> (if q \<noteq> p then ip_free c env q s else Some s);
             Some (e, s) } } }"

definition raw_send ::
    "pbuf_cfg \<Rightarrow> pbuf_env \<Rightarrow> output_fn \<Rightarrow> output_fn \<Rightarrow> nat \<Rightarrow> nat \<Rightarrow> 'a raw_scheme \<Rightarrow> (err_t \<times> 'a raw_scheme) option" where
  "raw_send c env out frag pcb p s = raw_sendto c env out frag pcb p (remote_ip (raw_at s pcb)) s"

end
