(* ===== verification/Ip_Frag.thy ===== *)
theory Ip_Frag
  imports Raw "HOL-Library.Signed_Division"
begin

text \<open>
  \<^verbatim>\<open>lwip/src/core/ipv4/ip_frag.c\<close> in the default configuration: reassembly with the test for overlaps, and
  fragmentation with pbufs that refer to the data of the packet (\<^verbatim>\<open>IP_FRAG_USES_STATIC_BUF\<close> is 0).

  A queued fragment has \<^verbatim>\<open>struct ip_reass_helper\<close> in place of its IP header: the bytes of a pointer and of two
  halfwords.  A \<^verbatim>\<open>struct pbuf_custom_ref\<close> is a pbuf whose field \<^verbatim>\<open>original\<close> is 20 bytes behind its start.
  The arguments \<open>out\<close> and \<open>frag\<close> are those of \<^verbatim>\<open>ip_output_if\<close>.  A function's result is \<open>None\<close> when a
  loop or a packet buffer function does not return, and when one of the assertions on the queue fails.
\<close>

section \<open>State\<close>

record reassdata =
  rd_next :: "nat option"
  rd_p :: "nat option"
  rd_iphdr :: "u8 list"
  rd_datagram_len :: u16
  rd_flags :: u8
  rd_timer :: nat

record frag = raw +
  reass_at :: "nat \<Rightarrow> reassdata"
  reassdatagrams :: "nat option"
  ip_reass_pbufcount :: nat

definition MEMP_REASSDATA :: nat where "MEMP_REASSDATA = 5"

definition MEMP_FRAG_PBUF :: nat where "MEMP_FRAG_PBUF = 6"

definition IP_REASS_MAXAGE :: nat where "IP_REASS_MAXAGE = 3"

definition IP_REASS_MAX_PBUFS :: nat where "IP_REASS_MAX_PBUFS = 10"

definition IP_REASS_FLAG_LASTFRAG :: u8 where "IP_REASS_FLAG_LASTFRAG = 1"

definition IP_MF :: u16 where "IP_MF = 0x2000"

definition IP_OFFMASK :: u16 where "IP_OFFMASK = 0x1fff"

definition upd_reass :: "nat \<Rightarrow> (reassdata \<Rightarrow> reassdata) \<Rightarrow> 'a frag_scheme \<Rightarrow> 'a frag_scheme" where
  "upd_reass r f s = s\<lparr>reass_at := (reass_at s)(r := f (reass_at s r))\<rparr>"

text \<open>A pointer in memory.\<close>

definition ptr_bytes :: "nat option \<Rightarrow> u8 list" where
  "ptr_bytes p = addr_bytes (case p of None \<Rightarrow> 0 | Some a \<Rightarrow> of_nat a)"

definition ptr_of :: "u8 list \<Rightarrow> nat option" where
  "ptr_of bs = (let a = ip_of bs in if a = 0 then None else Some (unat a))"

text \<open>The fields of the helper in front of a queued fragment.\<close>

definition next_pbuf :: "nat \<Rightarrow> 'a net_scheme \<Rightarrow> nat option" where
  "next_pbuf p s = ptr_of (get_hdr p 0 4 s)"

definition start :: "nat \<Rightarrow> 'a net_scheme \<Rightarrow> u16" where
  "start p s = u16_of (get_hdr p 4 2 s)"

definition end_of :: "nat \<Rightarrow> 'a net_scheme \<Rightarrow> u16" where
  "end_of p s = u16_of (get_hdr p 6 2 s)"

definition set_next :: "nat \<Rightarrow> nat option \<Rightarrow> 'a net_scheme \<Rightarrow> 'a net_scheme" where
  "set_next p q s = put_hdr p 0 (ptr_bytes q) s"

text \<open>The halfword at offset \<open>k\<close> of a header, in host byte order, and what a fragment covers.\<close>

definition iph_field :: "nat \<Rightarrow> u8 list \<Rightarrow> u16" where
  "iph_field k h = lwip_ntohs (le16 (h ! k) (h ! Suc k))"

definition frag_offset :: "u8 list \<Rightarrow> u16" where
  "frag_offset h = (iph_field 6 h AND IP_OFFMASK) * 8"

definition frag_len :: "u8 list \<Rightarrow> u16" where
  "frag_len h = iph_field 2 h - ucast (h ! 0 AND 0x0f) * 4"

definition IP_ADDRESSES_AND_ID_MATCH :: "u8 list \<Rightarrow> u8 list \<Rightarrow> bool" where
  "IP_ADDRESSES_AND_ID_MATCH a b \<longleftrightarrow> take 4 (drop 12 a) = take 4 (drop 12 b) \<and> take 4 (drop 16 a) = take 4 (drop 16 b) \<and>
     take 2 (drop 4 a) = take 2 (drop 4 b)"

section \<open>Freeing datagrams\<close>

definition ip_reass_dequeue_datagram :: "nat \<Rightarrow> nat option \<Rightarrow> 'a frag_scheme \<Rightarrow> 'a frag_scheme option" where
  "ip_reass_dequeue_datagram ipr prev s = do {
     s \<leftarrow> (if reassdatagrams s = Some ipr then Some (s\<lparr>reassdatagrams := rd_next (reass_at s ipr)\<rparr>)
           else case prev of
                  None \<Rightarrow> None
                | Some q \<Rightarrow> Some (upd_reass q (\<lambda>d. d\<lparr>rd_next := rd_next (reass_at s ipr)\<rparr>) s));
     Some (set_pst ((pst_of s)\<lparr>pbuf_pools := memp_free MEMP_REASSDATA (Some ipr) (pbuf_pools (pst_of s))\<rparr>) s) }"

text \<open>All queued fragments from \<open>p\<close> on are gone; the result counts their pbufs.\<close>

partial_function (option) free_fragments ::
    "pbuf_cfg \<Rightarrow> pbuf_env \<Rightarrow> nat option \<Rightarrow> nat \<Rightarrow> 'a frag_scheme \<Rightarrow> (nat \<times> 'a frag_scheme) option" where
  "free_fragments c env p gone s =
     (case p of
        None \<Rightarrow> Some (gone, s)
      | Some pcur \<Rightarrow> do {
          let p = next_pbuf pcur s;
          clen \<leftarrow> pbuf_clen (Some pcur) (pst_of s);
          s \<leftarrow> ip_free c env pcur s;
          free_fragments c env p (u16 (gone + clen)) s })"

definition ip_reass_free_complete_datagram ::
    "pbuf_cfg \<Rightarrow> pbuf_env \<Rightarrow> output_fn \<Rightarrow> output_fn \<Rightarrow> nat \<Rightarrow> nat option \<Rightarrow> 'a frag_scheme \<Rightarrow> (nat \<times> 'a frag_scheme) option" where
  "ip_reass_free_complete_datagram c env out frag ipr prev s = do {
     p \<leftarrow> rd_p (reass_at s ipr);
     (gone, s) \<leftarrow>
       (if start p s = 0 then do {
          let s = upd_reass ipr (\<lambda>d. d\<lparr>rd_p := next_pbuf p s\<rparr>) s;
          let s = put_hdr p 0 (rd_iphdr (reass_at s ipr)) s;
          s \<leftarrow> icmp_time_exceeded c env out frag p ICMP_TE_FRAG s;
          clen \<leftarrow> pbuf_clen (Some p) (pst_of s);
          s \<leftarrow> ip_free c env p s;
          Some (clen, s) }
        else Some (0, s));
     (gone, s) \<leftarrow> free_fragments c env (rd_p (reass_at s ipr)) gone s;
     s \<leftarrow> ip_reass_dequeue_datagram ipr prev s;
     Some (gone, s\<lparr>ip_reass_pbufcount := (ip_reass_pbufcount s + 65536 - gone) mod 65536\<rparr>) }"

partial_function (option) reass_tmr_loop ::
    "pbuf_cfg \<Rightarrow> pbuf_env \<Rightarrow> output_fn \<Rightarrow> output_fn \<Rightarrow> nat option \<Rightarrow> nat option \<Rightarrow> 'a frag_scheme \<Rightarrow> 'a frag_scheme option" where
  "reass_tmr_loop c env out frag r prev s =
     (case r of
        None \<Rightarrow> Some s
      | Some a \<Rightarrow>
          if rd_timer (reass_at s a) > 0 then
            let s = upd_reass a (\<lambda>d. d\<lparr>rd_timer := rd_timer d - 1\<rparr>) s
            in reass_tmr_loop c env out frag (rd_next (reass_at s a)) (Some a) s
          else do {
            let r = rd_next (reass_at s a);
            (_, s) \<leftarrow> ip_reass_free_complete_datagram c env out frag a prev s;
            reass_tmr_loop c env out frag r prev s })"

definition ip_reass_tmr :: "pbuf_cfg \<Rightarrow> pbuf_env \<Rightarrow> output_fn \<Rightarrow> output_fn \<Rightarrow> 'a frag_scheme \<Rightarrow> 'a frag_scheme option" where
  "ip_reass_tmr c env out frag s = reass_tmr_loop c env out frag (reassdatagrams s) None s"

text \<open>The search of \<^verbatim>\<open>ip_reass_remove_oldest_datagram\<close>: \<^verbatim>\<open>oldest\<close>, \<^verbatim>\<open>prev\<close> and \<^verbatim>\<open>other_datagrams\<close>.\<close>

partial_function (option) find_oldest ::
    "(nat \<Rightarrow> reassdata) \<Rightarrow> u8 list \<Rightarrow> nat option \<Rightarrow> nat option \<Rightarrow> nat option \<Rightarrow> nat \<Rightarrow> (nat option \<times> nat option \<times> nat) option" where
  "find_oldest rd fraghdr r eldest prev n =
     (case r of
        None \<Rightarrow> Some (eldest, prev, n)
      | Some a \<Rightarrow>
          let other = \<not> IP_ADDRESSES_AND_ID_MATCH (rd_iphdr (rd a)) fraghdr;
              older = (case eldest of None \<Rightarrow> True | Some b \<Rightarrow> rd_timer (rd a) \<le> rd_timer (rd b))
          in find_oldest rd fraghdr (rd_next (rd a)) (if other \<and> older then Some a else eldest)
               (if rd_next (rd a) \<noteq> None then Some a else prev) (if other then n + 1 else n))"

partial_function (option) remove_oldest_loop ::
    "pbuf_cfg \<Rightarrow> pbuf_env \<Rightarrow> output_fn \<Rightarrow> output_fn \<Rightarrow> u8 list \<Rightarrow> nat \<Rightarrow> nat \<Rightarrow> 'a frag_scheme \<Rightarrow> (nat \<times> 'a frag_scheme) option" where
  "remove_oldest_loop c env out frag fraghdr needed gone s = do {
     (eldest, prev, others) \<leftarrow> find_oldest (reass_at s) fraghdr (reassdatagrams s) None None 0;
     (gone, s) \<leftarrow>
       (case eldest of
          None \<Rightarrow> Some (gone, s)
        | Some r \<Rightarrow> do {
            (k, s) \<leftarrow> ip_reass_free_complete_datagram c env out frag r prev s;
            Some (gone + k, s) });
     if gone < needed \<and> others > 1 then remove_oldest_loop c env out frag fraghdr needed gone s else Some (gone, s) }"

definition ip_reass_remove_oldest_datagram ::
    "pbuf_cfg \<Rightarrow> pbuf_env \<Rightarrow> output_fn \<Rightarrow> output_fn \<Rightarrow> u8 list \<Rightarrow> nat \<Rightarrow> 'a frag_scheme \<Rightarrow> (nat \<times> 'a frag_scheme) option" where
  "ip_reass_remove_oldest_datagram c env out frag fraghdr needed s = remove_oldest_loop c env out frag fraghdr needed 0 s"

section \<open>Queueing a fragment\<close>

definition reass_malloc :: "'a frag_scheme \<Rightarrow> nat option \<times> 'a frag_scheme" where
  "reass_malloc s = (let (r, pools) = memp_malloc MEMP_REASSDATA (pbuf_pools (pst_of s)) in (r, set_pst ((pst_of s)\<lparr>pbuf_pools := pools\<rparr>) s))"

definition ip_reass_enqueue_new_datagram ::
    "pbuf_cfg \<Rightarrow> pbuf_env \<Rightarrow> output_fn \<Rightarrow> output_fn \<Rightarrow> u8 list \<Rightarrow> nat \<Rightarrow> 'a frag_scheme \<Rightarrow> (nat option \<times> 'a frag_scheme) option" where
  "ip_reass_enqueue_new_datagram c env out frag fraghdr clen s = do {
     let (ipr, s) = reass_malloc s;
     (ipr, s) \<leftarrow>
       (if ipr = None then do {
          (k, s) \<leftarrow> ip_reass_remove_oldest_datagram c env out frag fraghdr clen s;
          Some (if k \<ge> clen then reass_malloc s else (None, s)) }
        else Some (ipr, s));
     Some (ipr, case ipr of
                  None \<Rightarrow> s
                | Some r \<Rightarrow>
                    (upd_reass r (\<lambda>_. \<lparr>rd_next = reassdatagrams s, rd_p = None, rd_iphdr = take IP_HLEN fraghdr,
                        rd_datagram_len = 0, rd_flags = 0, rd_timer = IP_REASS_MAXAGE\<rparr>) s)\<lparr>reassdatagrams := Some r\<rparr>) }"

text \<open>The place of the new fragment: \<open>None\<close> inside when it is thrown away, else whether no gap was seen.\<close>

partial_function (option) insert_frag ::
    "nat \<Rightarrow> nat \<Rightarrow> nat option \<Rightarrow> bool \<Rightarrow> nat option \<Rightarrow> 'a frag_scheme \<Rightarrow> (bool option \<times> 'a frag_scheme) option" where
  "insert_frag ipr new_p prev valid q s =
     (case q of
        None \<Rightarrow>
          (case prev of
             Some b \<Rightarrow> let s = set_next b (Some new_p) s in Some (Some (valid \<and> end_of b s = start new_p s), s)
           | None \<Rightarrow> Some (Some valid, upd_reass ipr (\<lambda>d. d\<lparr>rd_p := Some new_p\<rparr>) s))
      | Some a \<Rightarrow>
          if start new_p s < start a s then
            let s = set_next new_p (Some a) s
            in (case prev of
                  Some b \<Rightarrow> if start new_p s < end_of b s \<or> end_of new_p s > start a s then Some (None, s)
                            else Some (Some valid, set_next b (Some new_p) s)
                | None \<Rightarrow> Some (Some valid, upd_reass ipr (\<lambda>d. d\<lparr>rd_p := Some new_p\<rparr>) s))
          else if start new_p s = start a s then Some (None, s)
          else if start new_p s < end_of a s then Some (None, s)
          else insert_frag ipr new_p (Some a)
                 (valid \<and> (case prev of Some b \<Rightarrow> end_of b s = start a s | None \<Rightarrow> True)) (next_pbuf a s) s)"

text \<open>The loop behind the new fragment: the last fragment of the queue, or \<open>None\<close> inside when there is a gap.\<close>

partial_function (option) no_gap :: "nat \<Rightarrow> 'a frag_scheme \<Rightarrow> nat option option" where
  "no_gap p s =
     (case next_pbuf p s of
        None \<Rightarrow> Some (Some p)
      | Some q \<Rightarrow> if end_of p s \<noteq> start q s then Some None else no_gap q s)"

text \<open>The assertions at the end of the validation are on (\<^verbatim>\<open>LWIP_NOASSERT\<close> is not defined): the last fragment is
  not the first, none is behind it, and it ends where the datagram ends.  The result is \<open>None\<close> when one fails and the
  port's \<^verbatim>\<open>LWIP_PLATFORM_ASSERT\<close> stops the program.\<close>

definition validate_asserts :: "nat \<Rightarrow> nat \<Rightarrow> nat \<Rightarrow> 'a frag_scheme \<Rightarrow> bool" where
  "validate_asserts ipr p q s \<longleftrightarrow>
     p_payload (pbufs (pst_of s) p) \<noteq> p_payload (pbufs (pst_of s) q) \<and> next_pbuf q s = None \<and>
     end_of q s = rd_datagram_len (reass_at s ipr)"

definition ip_reass_chain_frag_into_datagram_and_validate ::
    "pbuf_cfg \<Rightarrow> pbuf_env \<Rightarrow> nat \<Rightarrow> nat \<Rightarrow> 'a frag_scheme \<Rightarrow> (bool \<times> 'a frag_scheme) option" where
  "ip_reass_chain_frag_into_datagram_and_validate c env ipr new_p s = do {
     let len = frag_len (get_hdr new_p 0 IP_HLEN s);
     let offset = frag_offset (get_hdr new_p 0 IP_HLEN s);
     let s = set_next new_p None s;
     let s = put_hdr new_p 4 (u16_bytes offset) s;
     let s = put_hdr new_p 6 (u16_bytes (offset + len)) s;
     (valid, s) \<leftarrow> insert_frag ipr new_p None True (rd_p (reass_at s ipr)) s;
     case valid of
       None \<Rightarrow> do {
         clen \<leftarrow> pbuf_clen (Some new_p) (pst_of s);
         let s = s\<lparr>ip_reass_pbufcount := (ip_reass_pbufcount s + 65536 - clen) mod 65536\<rparr>;
         s \<leftarrow> ip_free c env new_p s;
         Some (False, s) }
     | Some valid \<Rightarrow>
         if rd_flags (reass_at s ipr) AND IP_REASS_FLAG_LASTFRAG \<noteq> 0 then
           if valid then do {
             p \<leftarrow> rd_p (reass_at s ipr);
             if start p s \<noteq> 0 then Some (False, s)
             else do {
               iprh \<leftarrow> no_gap new_p s;
               case iprh of
                 None \<Rightarrow> Some (False, s)
               | Some q \<Rightarrow> if validate_asserts ipr p q s then Some (True, s) else None } }
           else Some (False, s)
         else Some (False, s) }"

section \<open>Reassembly\<close>

partial_function (option) find_datagram ::
    "(nat \<Rightarrow> reassdata) \<Rightarrow> u8 list \<Rightarrow> nat option \<Rightarrow> nat option \<Rightarrow> (nat option \<times> nat option) option" where
  "find_datagram rd fraghdr ipr prev =
     (case ipr of
        None \<Rightarrow> Some (None, prev)
      | Some a \<Rightarrow> if IP_ADDRESSES_AND_ID_MATCH (rd_iphdr (rd a)) fraghdr then Some (Some a, prev)
                else find_datagram rd fraghdr (rd_next (rd a)) (Some a))"

text \<open>Hiding the headers of the fragments behind the first and chaining them.\<close>

partial_function (option) chain_fragments :: "pbuf_cfg \<Rightarrow> nat \<Rightarrow> nat option \<Rightarrow> 'a frag_scheme \<Rightarrow> 'a frag_scheme option" where
  "chain_fragments c p r s =
     (case r of
        None \<Rightarrow> Some s
      | Some q \<Rightarrow> do {
          let r = next_pbuf q s;
          let (_, st) = pbuf_header c (Some q) (- int IP_HLEN) (pst_of s);
          st \<leftarrow> pbuf_cat p q st;
          chain_fragments c p r (set_pst st s) })"

text \<open>The last part: the datagram is complete.\<close>

definition deliver_datagram ::
    "pbuf_cfg \<Rightarrow> nat \<Rightarrow> nat option \<Rightarrow> 'a frag_scheme \<Rightarrow> (nat option \<times> 'a frag_scheme) option" where
  "deliver_datagram c ipr prev s = do {
     let s = upd_reass ipr (\<lambda>d. d\<lparr>rd_datagram_len := rd_datagram_len d + of_nat IP_HLEN\<rparr>) s;
     p \<leftarrow> rd_p (reass_at s ipr);
     let r = next_pbuf p s;
     let s = put_hdr p 0 (rd_iphdr (reass_at s ipr)) s;
     let s = put_hdr p 2 (u16_bytes (lwip_htons (rd_datagram_len (reass_at s ipr)))) s;
     let s = put_hdr p 6 [0, 0] s;
     let s = put_hdr p 10 [0, 0] s;
     let ck = inet_chksum lwip_standard_chksum2 (p_payload (pbufs (pst_of s) p)) (get_hdr p 0 IP_HLEN s);
     let s = put_hdr p 10 (u16_bytes ck) s;
     s \<leftarrow> chain_fragments c p r s;
     s \<leftarrow> ip_reass_dequeue_datagram ipr prev s;
     clen \<leftarrow> pbuf_clen (Some p) (pst_of s);
     Some (Some p, s\<lparr>ip_reass_pbufcount := (ip_reass_pbufcount s + 65536 - clen) mod 65536\<rparr>) }"

text \<open>The fragment is queued on its datagram, a new or a known one; \<open>None\<close>: there is no memory.\<close>

definition find_or_enqueue ::
    "pbuf_cfg \<Rightarrow> pbuf_env \<Rightarrow> output_fn \<Rightarrow> output_fn \<Rightarrow> u8 list \<Rightarrow> nat \<Rightarrow> 'a frag_scheme \<Rightarrow>
      ((nat option \<times> nat option) \<times> 'a frag_scheme) option" where
  "find_or_enqueue c env out frag fraghdr clen s = do {
     (ipr, prev) \<leftarrow> find_datagram (reass_at s) fraghdr (reassdatagrams s) None;
     case ipr of
       None \<Rightarrow> do {
         (ipr, s) \<leftarrow> ip_reass_enqueue_new_datagram c env out frag fraghdr clen s;
         Some ((ipr, prev), s) }
     | Some r \<Rightarrow>
         Some ((Some r, prev),
           if iph_field 6 fraghdr AND IP_OFFMASK = 0 \<and> iph_field 6 (rd_iphdr (reass_at s r)) AND IP_OFFMASK \<noteq> 0
           then upd_reass r (\<lambda>d. d\<lparr>rd_iphdr := take IP_HLEN fraghdr\<rparr>) s else s) }"

definition drop_fragment :: "pbuf_cfg \<Rightarrow> pbuf_env \<Rightarrow> nat \<Rightarrow> 'a frag_scheme \<Rightarrow> (nat option \<times> 'a frag_scheme) option" where
  "drop_fragment c env p s = do { s \<leftarrow> ip_free c env p s; Some (None, s) }"

definition ip_reass ::
    "pbuf_cfg \<Rightarrow> pbuf_env \<Rightarrow> output_fn \<Rightarrow> output_fn \<Rightarrow> nat \<Rightarrow> 'a frag_scheme \<Rightarrow> (nat option \<times> 'a frag_scheme) option" where
  "ip_reass c env out frag p s =
     (let fraghdr = get_hdr p 0 IP_HLEN s
      in if unat (fraghdr ! 0 AND 0x0f) * 4 \<noteq> IP_HLEN then drop_fragment c env p s
         else do {
           clen \<leftarrow> pbuf_clen (Some p) (pst_of s);
           (full, s) \<leftarrow>
             (if ip_reass_pbufcount s + clen > IP_REASS_MAX_PBUFS then do {
                (k, s) \<leftarrow> ip_reass_remove_oldest_datagram c env out frag fraghdr clen s;
                Some (k = 0 \<or> ip_reass_pbufcount s + clen > IP_REASS_MAX_PBUFS, s) }
              else Some (False, s));
           if full then drop_fragment c env p s
           else do {
             ((ipr, prev), s) \<leftarrow> find_or_enqueue c env out frag fraghdr clen s;
             case ipr of
               None \<Rightarrow> drop_fragment c env p s
             | Some r \<Rightarrow> do {
                 let s = s\<lparr>ip_reass_pbufcount := u16 (ip_reass_pbufcount s + clen)\<rparr>;
                 let s = (if iph_field 6 fraghdr AND IP_MF = 0
                          then upd_reass r (\<lambda>d. d\<lparr>rd_flags := rd_flags d OR IP_REASS_FLAG_LASTFRAG,
                                 rd_datagram_len := frag_offset fraghdr + frag_len fraghdr\<rparr>) s
                          else s);
                 (complete, s) \<leftarrow> ip_reass_chain_frag_into_datagram_and_validate c env r p s;
                 if complete then deliver_datagram c r prev s else Some (None, s) } } })"

section \<open>Fragmentation\<close>

definition original :: "nat \<Rightarrow> pst \<Rightarrow> nat option" where
  "original p st = ptr_of (load_bytes (p + 20) 4 (payload_bytes st))"

definition ipfrag_free_pbuf_custom :: "pbuf_cfg \<Rightarrow> pbuf_env \<Rightarrow> nat \<Rightarrow> pst \<Rightarrow> pst option" where
  "ipfrag_free_pbuf_custom c env p st = do {
     st \<leftarrow> (case original p st of None \<Rightarrow> Some st | Some a \<Rightarrow> map_option snd (pbuf_free c env (Some a) st));
     Some (st\<lparr>pbuf_pools := memp_free MEMP_FRAG_PBUF (Some p) (pbuf_pools st)\<rparr>) }"

text \<open>The environment in which the custom pbufs are those of this file.\<close>

definition frag_env :: "pbuf_cfg \<Rightarrow> pbuf_env \<Rightarrow> pbuf_env" where
  "frag_env c env = env\<lparr>custom_free_function := \<lambda>p st. case ipfrag_free_pbuf_custom c env p st of None \<Rightarrow> st | Some st \<Rightarrow> st\<rparr>"

text \<open>The loop that refers to the next \<open>left\<close> bytes behind \<open>p\<close>: the pbuf reached and \<^verbatim>\<open>newpbuflen\<close>, or \<open>None\<close> inside
  when the memory runs out.\<close>

partial_function (option) mirror_loop ::
    "pbuf_cfg \<Rightarrow> pbuf_env \<Rightarrow> nat \<Rightarrow> nat \<Rightarrow> nat \<Rightarrow> nat \<Rightarrow> pst \<Rightarrow> ((nat \<times> nat) option \<times> pst) option" where
  "mirror_loop c env rambuf p left newlen st =
     (if left = 0 then Some (Some (p, newlen), st)
      else let newlen = min left (p_len (pbufs st p))
           in if newlen = 0 then do { p \<leftarrow> p_next (pbufs st p); mirror_loop c env rambuf p left newlen st }
              else (case memp_malloc MEMP_FRAG_PBUF (pbuf_pools st) of
                      (None, pools) \<Rightarrow> do {
                        (_, st) \<leftarrow> pbuf_free c (frag_env c env) (Some rambuf) (st\<lparr>pbuf_pools := pools\<rparr>);
                        Some (None, st) }
                    | (Some pcr, pools) \<Rightarrow>
                        (case pbuf_alloced_custom c PBUF_RAW newlen PBUF_REF pcr (Some (p_payload (pbufs st p))) newlen
                                (st\<lparr>pbuf_pools := pools\<rparr>) of
                           (None, st) \<Rightarrow> do {
                             (_, st) \<leftarrow> pbuf_free c (frag_env c env) (Some rambuf)
                                          (st\<lparr>pbuf_pools := memp_free MEMP_FRAG_PBUF (Some pcr) (pbuf_pools st)\<rparr>);
                             Some (None, st) }
                         | (Some newpbuf, st) \<Rightarrow> do {
                             let st = write_bytes (pcr + 20) (ptr_bytes (Some p)) (pbuf_ref (Some p) st);
                             st \<leftarrow> pbuf_cat rambuf newpbuf st;
                             let left = left - newlen;
                             p \<leftarrow> (if left \<noteq> 0 then p_next (pbufs st p) else Some p);
                             mirror_loop c env rambuf p left newlen st })))"

text \<open>The header of one fragment.\<close>

definition write_frag_hdr :: "nat \<Rightarrow> u16 \<Rightarrow> u16 \<Rightarrow> arp \<Rightarrow> arp" where
  "write_frag_hdr rambuf off cop a =
     (let a = put_at rambuf 6 (u16_bytes (lwip_htons off)) a;
          a = put_at rambuf 2 (u16_bytes (lwip_htons (cop + of_nat IP_HLEN))) a;
          a = put_at rambuf 10 [0, 0] a;
          ck = inet_chksum lwip_standard_chksum2 (p_payload (pbufs (a_st a) rambuf)) (get_at rambuf 0 IP_HLEN a)
      in put_at rambuf 10 (u16_bytes ck) a)"

partial_function (option) frag_loop ::
    "pbuf_cfg \<Rightarrow> pbuf_env \<Rightarrow> output_fn \<Rightarrow> arp_netif \<Rightarrow> u32 \<Rightarrow> nat \<Rightarrow> nat \<Rightarrow> u16 \<Rightarrow> u16 \<Rightarrow> nat \<Rightarrow> nat \<Rightarrow> u16 \<Rightarrow> u16 \<Rightarrow> arp \<Rightarrow>
      (err_t \<times> arp) option" where
  "frag_loop c env out n dest mtu original_iphdr nfb omf p poff left ofo a =
     (if left = 0 then Some (ERR_OK, a)
      else do {
        let last = int (unat left) \<le> int mtu - int IP_HLEN;
        let tmp = omf OR (IP_OFFMASK AND ofo);
        let tmp = (if \<not> last then tmp OR IP_MF else tmp);
        let cop = (if last then left else nfb * 8);
        (rambuf, st) \<leftarrow> pbuf_alloc c env PBUF_LINK IP_HLEN PBUF_RAM (a_st a);
        let a = a\<lparr>a_st := st\<rparr>;
        case rambuf of
          None \<Rightarrow> Some (ERR_MEM, a)
        | Some rambuf \<Rightarrow> do {
            let a = put_at rambuf 0 (load_bytes original_iphdr IP_HLEN (payload_bytes (a_st a))) a;
            let st = upd_pbuf p (\<lambda>b. b\<lparr>p_payload := p_payload b + poff, p_len := (p_len b + 65536 - poff) mod 65536\<rparr>) (a_st a);
            (r, st) \<leftarrow> mirror_loop c env rambuf p (unat cop) 0 st;
            let a = a\<lparr>a_st := st\<rparr>;
            case r of
              None \<Rightarrow> Some (ERR_MEM, a)
            | Some (p, poff) \<Rightarrow> do {
                let a = write_frag_hdr rambuf tmp cop a;
                (_, a) \<leftarrow> out n rambuf dest a;
                (_, st) \<leftarrow> pbuf_free c (frag_env c env) (Some rambuf) (a_st a);
                frag_loop c env out n dest mtu original_iphdr nfb omf p poff (left - cop) (ofo + nfb) (a\<lparr>a_st := st\<rparr>) } } })"

definition ip_frag :: "pbuf_cfg \<Rightarrow> pbuf_env \<Rightarrow> nat \<Rightarrow> output_fn \<Rightarrow> output_fn" where
  "ip_frag c env mtu out n p dest a =
     (let original_iphdr = p_payload (pbufs (a_st a) p);
          tmp = lwip_ntohs (u16_of (get_at p 6 2 a));
          ofo = tmp AND IP_OFFMASK;
          omf = tmp AND IP_MF;
          left = of_nat (p_tot_len (pbufs (a_st a) p)) - of_nat IP_HLEN;
          nfb = of_int ((int mtu - int IP_HLEN) sdiv 8)
      in frag_loop c env out n dest mtu original_iphdr nfb omf p IP_HLEN left ofo a)"

end
