(* ===== verification/Ip_Reass.thy ===== *)
theory Ip_Reass
  imports Ip_Frag "HOL-Library.Multiset"
begin

text \<open>
  Reassembly.  The queue of a datagram is a list of fragments \<open>(p, rest)\<close>, each a packet with pbufs \<open>p # rest\<close>, sorted
  by the offsets in their helpers.
\<close>

section \<open>The fields of the helpers\<close>

definition ptr_ok :: "nat option \<Rightarrow> bool" where
  "ptr_ok x \<longleftrightarrow> (case x of None \<Rightarrow> True | Some a \<Rightarrow> 0 < a \<and> a < 4294967296)"

lemma ptr_round [simp]: "ptr_ok x \<Longrightarrow> ptr_of (ptr_bytes x) = x"
  by (cases x) (simp_all add: ptr_ok_def ptr_of_def ptr_bytes_def ip_of_addr Let_def word_nat word_unat_eq_iff)

lemma length_ptr_bytes [simp]: "length (ptr_bytes x) = 4"
  by (simp add: ptr_bytes_def)

definition hdr_region :: "pst \<Rightarrow> nat \<Rightarrow> nat set" where
  "hdr_region st p = {p_payload (pbufs st p)..<p_payload (pbufs st p) + 20}"

definition apart :: "pst \<Rightarrow> nat set \<Rightarrow> bool" where
  "apart st P \<longleftrightarrow> (\<forall>p \<in> P. \<forall>q \<in> P. p \<noteq> q \<longrightarrow> hdr_region st p \<inter> hdr_region st q = {})"

lemma get_hdr_load: "get_hdr p k n s = load_bytes (p_payload (pbufs (pst_of s) p) + k) n (payload_bytes (pst_of s))"
  by (simp add: get_hdr_def get_at_def)

lemma load_store_other:
  "a + n \<le> d \<or> d + length bs \<le> a \<Longrightarrow> load_bytes a n (store_bytes d bs m) = load_bytes a n m"
  by (auto simp: load_bytes_def store_bytes_nth)

lemma load_store_same: "length bs = n \<Longrightarrow> load_bytes a n (store_bytes a bs m) = bs"
  by (intro nth_equalityI) (auto simp: load_bytes_def store_bytes_nth)

lemma get_put_same [simp]: "length bs = n \<Longrightarrow> get_hdr p k n (put_hdr p k bs s) = bs"
  by (simp add: get_hdr_load write_bytes_def load_store_same)

lemma get_put_other: "k + n \<le> j \<or> j + length bs \<le> k \<Longrightarrow> get_hdr p k n (put_hdr p j bs s) = get_hdr p k n s"
  by (auto simp: get_hdr_load write_bytes_def load_store_other)

lemma get_put_apart:
  assumes "apart (pst_of s) P" "p \<in> P" "q \<in> P" "p \<noteq> q" "k + n \<le> 20" "j + length bs \<le> 20"
  shows "get_hdr q k n (put_hdr p j bs s) = get_hdr q k n s"
proof -
  from assms(1-4) have d: "hdr_region (pst_of s) p \<inter> hdr_region (pst_of s) q = {}" by (simp add: apart_def)
  have "payload_bytes (write_bytes (p_payload (pbufs (pst_of s) p) + j) bs (pst_of s)) i = payload_bytes (pst_of s) i"
    if "i \<in> hdr_region (pst_of s) q" for i
  proof -
    from d that have "i \<notin> hdr_region (pst_of s) p" by blast
    with assms(6) show ?thesis by (intro write_other) (auto simp: hdr_region_def)
  qed
  with assms(5) show ?thesis by (auto simp: get_hdr_load load_bytes_def hdr_region_def)
qed

lemma helper_put:
  assumes a: "apart (pst_of s) P" "p \<in> P" "q \<in> P"
  shows "ptr_ok x \<Longrightarrow> next_pbuf q (set_next p x s) = (if q = p then x else next_pbuf q s)"
    "start q (set_next p x s) = start q s" "end_of q (set_next p x s) = end_of q s"
    "next_pbuf q (put_hdr p 4 (u16_bytes w) s) = next_pbuf q s"
    "start q (put_hdr p 4 (u16_bytes w) s) = (if q = p then w else start q s)"
    "end_of q (put_hdr p 4 (u16_bytes w) s) = end_of q s"
    "next_pbuf q (put_hdr p 6 (u16_bytes w) s) = next_pbuf q s"
    "start q (put_hdr p 6 (u16_bytes w) s) = start q s"
    "end_of q (put_hdr p 6 (u16_bytes w) s) = (if q = p then w else end_of q s)"
  by (cases "q = p", simp_all add: next_pbuf_def start_def end_of_def set_next_def get_put_other get_put_apart [OF a])+

section \<open>Fragments\<close>

definition frag_ok :: "pbuf_cfg \<Rightarrow> pst \<Rightarrow> nat \<times> nat list \<Rightarrow> bool" where
  "frag_ok c st = (\<lambda>(p, rest). packet st (Some p) (p # rest) \<and> 20 < total st (p # rest) \<and> 20 \<le> len_of st p \<and>
     p + SIZEOF_STRUCT_PBUF c \<le> p_payload (pbufs st p) \<and> ptr_ok (Some p))"

definition pbufs_of :: "(nat \<times> nat list) list \<Rightarrow> nat list" where
  "pbufs_of fs = concat (map (\<lambda>(p, rest). p # rest) fs)"

definition bytes_of :: "pst \<Rightarrow> nat \<times> nat list \<Rightarrow> u8 list" where
  "bytes_of st = (\<lambda>(p, rest). drop 20 (contents st (p # rest)))"

definition frags_ok :: "pbuf_cfg \<Rightarrow> pst \<Rightarrow> (nat \<times> nat list) list \<Rightarrow> bool" where
  "frags_ok c st fs \<longleftrightarrow> (\<forall>f \<in> set fs. frag_ok c st f) \<and> distinct (pbufs_of fs) \<and> separate st (pbufs_of fs)"

lemma pbufs_of_simps [simp]: "pbufs_of [] = []" "pbufs_of ((p, rest) # fs) = p # rest @ pbufs_of fs"
  "pbufs_of (fs @ gs) = pbufs_of fs @ pbufs_of gs"
  by (simp_all add: pbufs_of_def)

lemma first_in: "f \<in> set fs \<Longrightarrow> fst f \<in> set (pbufs_of fs)"
  by (cases f) (force simp: pbufs_of_def)

lemma pbufs_mem: "f \<in> set fs \<Longrightarrow> a \<in> set (fst f # snd f) \<Longrightarrow> a \<in> set (pbufs_of fs)"
  by (induction fs) (auto simp: pbufs_of_def)

lemma frags_ok_mset: "mset fs = mset gs \<Longrightarrow> frags_ok c st fs = frags_ok c st gs"
proof -
  assume m: "mset fs = mset gs"
  then have s: "set fs = set gs" by (metis set_mset_mset)
  have "mset (pbufs_of fs) = mset (pbufs_of gs)"
    unfolding pbufs_of_def mset_concat using m by (metis (no_types) mset_map sum_mset_sum_list)
  then have "distinct (pbufs_of fs) = distinct (pbufs_of gs)" "set (pbufs_of fs) = set (pbufs_of gs)"
    by (metis mset_eq_imp_distinct_iff, metis set_mset_mset)
  with s show ?thesis by (simp add: frags_ok_def separate_def)
qed

lemma frags_okD:
  assumes "frags_ok c st fs"
  shows "f \<in> set fs \<Longrightarrow> frag_ok c st f" "apart st (fst ` set fs)" "distinct (map fst fs)"
proof -
  show "frag_ok c st f" if "f \<in> set fs" using assms that by (simp add: frags_ok_def)
  have sub: "hdr_region st (fst f) \<subseteq> region st (fst f)" if "f \<in> set fs" for f
  proof (cases f)
    case (Pair p rest)
    with assms that have "20 \<le> len_of st p" by (auto simp: frags_ok_def frag_ok_def)
    with Pair show ?thesis by (auto simp: hdr_region_def region_def)
  qed
  have sep: "region st (fst f) \<inter> region st (fst g) = {}" if "f \<in> set fs" "g \<in> set fs" "fst f \<noteq> fst g" for f g
    using assms that first_in [of f fs] first_in [of g fs] by (simp add: frags_ok_def separate_def)
  show "apart st (fst ` set fs)"
    unfolding apart_def
  proof (intro ballI impI)
    fix p q assume pq: "p \<in> fst ` set fs" "q \<in> fst ` set fs" "p \<noteq> q"
    then obtain f g where "p = fst f" "q = fst g" "f \<in> set fs" "g \<in> set fs" by blast
    with sub [of f] sub [of g] sep [of f g] pq(3) show "hdr_region st p \<inter> hdr_region st q = {}" by blast
  qed
  have "distinct (pbufs_of fs) \<Longrightarrow> distinct (map fst fs)"
  proof (induction fs)
    case (Cons f fs)
    obtain p rest where f: "f = (p, rest)" by (cases f)
    with Cons.prems have "p \<notin> set (pbufs_of fs)" by simp
    with first_in have "p \<notin> fst ` set fs" by force
    with Cons f show ?case by simp
  qed simp
  with assms show "distinct (map fst fs)" by (simp add: frags_ok_def)
qed

text \<open>States that differ in the helpers of \<open>P\<close> only.\<close>

definition only_helpers :: "nat set \<Rightarrow> 'a frag_scheme \<Rightarrow> 'a frag_scheme \<Rightarrow> bool" where
  "only_helpers P s s' \<longleftrightarrow> pbufs (pst_of s') = pbufs (pst_of s) \<and> pbuf_pools (pst_of s') = pbuf_pools (pst_of s) \<and>
     (\<forall>i. (\<forall>q \<in> P. i \<notin> hdr_region (pst_of s) q) \<longrightarrow> payload_bytes (pst_of s') i = payload_bytes (pst_of s) i) \<and>
     reassdatagrams s' = reassdatagrams s \<and> ip_reass_pbufcount s' = ip_reass_pbufcount s"

lemma only_helpers_refl [simp]: "only_helpers P s s"
  by (simp add: only_helpers_def)

lemma only_helpers_trans: "only_helpers P s s' \<Longrightarrow> only_helpers P s' s'' \<Longrightarrow> only_helpers P s s''"
  by (simp add: only_helpers_def hdr_region_def)

lemma put_hdr_frag [simp]: "reass_at (put_hdr p k bs s) = reass_at s" "reassdatagrams (put_hdr p k bs s) = reassdatagrams s"
  "ip_reass_pbufcount (put_hdr p k bs s) = ip_reass_pbufcount s"
  by (simp_all add: put_hdr_def)

lemma only_helpers_put:
  assumes "only_helpers P s s'" "p \<in> P" "k + length bs \<le> 20"
  shows "only_helpers P s (put_hdr p k bs s')"
proof -
  have "payload_bytes (pst_of (put_hdr p k bs s')) i = payload_bytes (pst_of s) i" if "\<forall>q \<in> P. i \<notin> hdr_region (pst_of s) q" for i
  proof -
    have "payload_bytes (pst_of s') i = payload_bytes (pst_of s) i" "pbufs (pst_of s') = pbufs (pst_of s)"
      using assms(1) that by (simp_all add: only_helpers_def)
    moreover from that assms(2) have "i \<notin> hdr_region (pst_of s) p" by blast
    ultimately show ?thesis using assms(3) by (auto simp: hdr_region_def intro: write_other [THEN trans])
  qed
  with assms(1) show ?thesis by (simp add: only_helpers_def)
qed

lemma only_helpers_frags:
  assumes o: "only_helpers (fst ` set fs) s s'" and ok: "frags_ok c (pst_of s) fs"
  shows "frags_ok c (pst_of s') gs = frags_ok c (pst_of s) gs" "f \<in> set fs \<Longrightarrow> bytes_of (pst_of s') f = bytes_of (pst_of s) f"
proof -
  from o have pb: "pbufs (pst_of s') = pbufs (pst_of s)" by (simp add: only_helpers_def)
  have tot: "total (pst_of s') = total (pst_of s)" by (rule ext, rule total_cong) (simp add: pb)
  have "tots (pst_of s') = tots (pst_of s)" by (rule ext, rule tots_cong) (simp add: pb)
  then show "frags_ok c (pst_of s') gs = frags_ok c (pst_of s) gs"
    by (simp add: frags_ok_def frag_ok_def packet_def pb tot separate_def region_def)
  assume f: "f \<in> set fs"
  obtain p rest where p: "f = (p, rest)" by (cases f)
  from ok f p have pk: "packet (pst_of s) (Some p) (p # rest)" "20 \<le> len_of (pst_of s) p" by (auto simp: frags_ok_def frag_ok_def)
  from ok have sep: "region (pst_of s) a \<inter> region (pst_of s) b = {}" if "a \<in> set (pbufs_of fs)" "b \<in> set (pbufs_of fs)" "a \<noteq> b" for a b
    using that by (simp add: frags_ok_def separate_def)
  have pin: "p \<in> set (pbufs_of fs)" using first_in [OF f] p by simp
  have rin: "a \<in> set (pbufs_of fs)" if "a \<in> set rest" for a using f p that by (force simp: pbufs_of_def)
  have hr: "hdr_region (pst_of s) (fst g) \<subseteq> region (pst_of s) (fst g)" if "g \<in> set fs" for g
    using ok that by (cases g) (auto simp: frags_ok_def frag_ok_def hdr_region_def region_def)
  have keep: "payload_bytes (pst_of s') i = payload_bytes (pst_of s) i"
    if "i \<in> region (pst_of s) a" "a \<in> set (pbufs_of fs)" "a \<in> fst ` set fs \<longrightarrow> i \<notin> hdr_region (pst_of s) a" for i a
  proof -
    have "i \<notin> hdr_region (pst_of s) (fst g)" if "g \<in> set fs" for g
      using hr [OF that] sep [of a "fst g"] \<open>i \<in> region (pst_of s) a\<close> \<open>a \<in> set (pbufs_of fs)\<close> first_in [OF that] that
        \<open>a \<in> fst ` set fs \<longrightarrow> i \<notin> hdr_region (pst_of s) a\<close> by (cases "a = fst g") auto
    with o show ?thesis by (auto simp: only_helpers_def)
  qed
  have nofirst: "a \<notin> fst ` set fs" if "a \<in> set rest" for a
  proof
    assume "a \<in> fst ` set fs"
    then obtain g where g: "g \<in> set fs" "fst g = a" by blast
    have d: "distinct (pbufs_of fs)" using ok by (simp add: frags_ok_def)
    from f obtain us vs where "fs = us @ (p, rest) # vs" by (auto simp: in_set_conv_decomp p)
    with d that g pk(1) show False
      by (cases g) (force dest: first_in packetD(4))
  qed
  have "data_of (pst_of s') a = data_of (pst_of s) a" if "a \<in> set rest" for a
    by (rule data_region) (use keep rin nofirst that pb in auto)
  then have "contents (pst_of s') rest = contents (pst_of s) rest" by (simp add: contents_def cong: map_cong)
  moreover have "drop 20 (data_of (pst_of s') p) = drop 20 (data_of (pst_of s) p)"
    using pk(2) by (intro nth_equalityI) (auto simp: data_of_def load_bytes_def pb hdr_region_def region_def intro!: keep [OF _ pin])
  ultimately show "bytes_of (pst_of s') f = bytes_of (pst_of s) f" using pk(2) by (simp add: bytes_of_def p pb)
qed

section \<open>Queueing\<close>

text \<open>No gap in the list, nor between its first element and the one in front.\<close>

fun joined :: "'a net_scheme \<Rightarrow> nat option \<Rightarrow> nat list \<Rightarrow> bool" where
  "joined s prev [] = True"
| "joined s prev (a # as) \<longleftrightarrow> (case prev of None \<Rightarrow> True | Some b \<Rightarrow> end_of b s = start a s) \<and> joined s (Some a) as"

abbreviation nexts :: "'a net_scheme \<Rightarrow> nat \<Rightarrow> nat option" where
  "nexts s \<equiv> \<lambda>a. next_pbuf a s"

definition last_of :: "nat option \<Rightarrow> nat list \<Rightarrow> nat option" where
  "last_of prev us = (if us = [] then prev else Some (last us))"

lemma last_of_simps [simp]: "last_of prev [] = prev" "last_of prev (a # us) = last_of (Some a) us"
  by (simp_all add: last_of_def)

lemma joined_append: "joined s prev (us @ vs) \<longleftrightarrow> joined s prev us \<and> joined s (last_of prev us) vs"
  by (induction us arbitrary: prev) auto

lemma insert_scan:
  "chain (nexts s) q (us @ vs) \<Longrightarrow> \<forall>u \<in> set us. start u s < start p s \<and> end_of u s \<le> start p s \<Longrightarrow>
    \<exists>t. insert_frag r p prev valid q s = insert_frag r p (last_of prev us) (valid \<and> joined s prev us) t s \<and> chain (nexts s) t vs"
proof (induction us arbitrary: prev valid q)
  case (Cons u us)
  then have q: "q = Some u" and c: "chain (nexts s) (next_pbuf u s) (us @ vs)" by auto
  have u: "start u s < start p s" "end_of u s \<le> start p s" using Cons.prems(2) by auto
  then have n: "\<not> start p s < start u s" "start p s \<noteq> start u s" "\<not> start p s < end_of u s" by auto
  define v where "v = (valid \<and> (case prev of Some b \<Rightarrow> end_of b s = start u s | None \<Rightarrow> True))"
  have "insert_frag r p prev valid q s = insert_frag r p (Some u) v (next_pbuf u s) s"
    using n by (subst insert_frag.simps) (simp add: q v_def)
  moreover obtain t where "insert_frag r p (Some u) v (next_pbuf u s) s =
      insert_frag r p (last_of (Some u) us) (v \<and> joined s (Some u) us) t s" "chain (nexts s) t vs"
    using Cons.IH [OF c, of "Some u" v] Cons.prems(2) by auto
  moreover have "(v \<and> joined s (Some u) us) = (valid \<and> joined s prev (u # us))" by (auto simp: v_def split: option.splits)
  ultimately show ?case by (intro exI [of _ t] conjI) simp_all
qed auto

lemma chain_insert:
  "chain nx h (us @ vs) \<Longrightarrow> nx' p = (case vs of [] \<Rightarrow> None | v # _ \<Rightarrow> Some v) \<Longrightarrow>
    (us \<noteq> [] \<Longrightarrow> nx' (last us) = Some p) \<Longrightarrow> (\<And>a. a \<in> set (butlast us @ vs) \<Longrightarrow> nx' a = nx a) \<Longrightarrow>
    chain nx' (if us = [] then Some p else h) (us @ p # vs)"
proof (induction us arbitrary: h)
  case Nil
  then have "chain nx' h vs" using chain_cong [of vs nx' nx h] by simp
  moreover have "h = nx' p" using Nil by (cases vs) auto
  ultimately show ?case by simp
next
  case (Cons u us)
  show ?case
  proof (cases "us = []")
    case True
    have v: "chain nx (nx u) vs" using Cons.prems(1) True by simp
    have "chain nx' (nx u) vs" using v Cons.prems(4) True by (subst chain_cong [of _ _ nx]) auto
    moreover have "nx u = nx' p" using v Cons.prems(2) by (cases vs) auto
    ultimately show ?thesis using Cons.prems True by simp
  next
    case False
    have "chain nx' (if us = [] then Some p else nx u) (us @ p # vs)"
      by (rule Cons.IH) (use Cons.prems False in auto)
    then show ?thesis using Cons.prems False by simp
  qed
qed

lemma insert_frag_spec:
  assumes c: "chain (nexts s) (rd_p (reass_at s r)) (us @ vs)" and p: "p \<notin> set (us @ vs)" "next_pbuf p s = None"
    and P: "P = insert p (set (us @ vs))" "apart (pst_of s) P" "\<forall>a \<in> P. ptr_ok (Some a)"
    and us: "\<forall>u \<in> set us. start u s < start p s \<and> end_of u s \<le> start p s"
    and vs: "\<forall>v \<in> set vs. start p s < start v s \<and> end_of p s \<le> start v s"
  shows "\<exists>s'. insert_frag r p None True (rd_p (reass_at s r)) s =
      Some (Some (joined s None us \<and> (vs = [] \<longrightarrow> joined s (last_of None us) [p])), s') \<and>
    only_helpers P s s' \<and> (\<forall>q \<in> P. start q s' = start q s \<and> end_of q s' = end_of q s) \<and>
    chain (nexts s') (rd_p (reass_at s' r)) (us @ p # vs) \<and>
    reass_at s' = (reass_at s)(r := (reass_at s r)\<lparr>rd_p := rd_p (reass_at s' r)\<rparr>) \<and> s' = set_pst (pst_of s') s\<lparr>reass_at := reass_at s'\<rparr>"
proof -
  let ?h = "rd_p (reass_at s r)"
  obtain t where t: "insert_frag r p None True ?h s = insert_frag r p (last_of None us) (joined s None us) t s"
    "chain (nexts s) t vs" using insert_scan [OF c us, of r None True] by auto
  note pin = P(1) [THEN equalityD2, THEN subsetD]
  have pP: "p \<in> P" and okp: "ptr_ok (Some p)" using P by auto
  note hp = helper_put [OF P(2)]
  have d: "distinct (us @ vs)" using chain_distinct [OF c] .
  define s1 where "s1 = (case vs of [] \<Rightarrow> s | v # _ \<Rightarrow> set_next p (Some v) s)"
  define s2 where "s2 = (if us = [] then upd_reass r (\<lambda>d. d\<lparr>rd_p := Some p\<rparr>) s1 else set_next (last us) (Some p) s1)"
  have ap1: "apart (pst_of s1) P" using P(2) by (simp add: s1_def apart_def hdr_region_def set_next_def split: list.splits)
  have lastP: "us \<noteq> [] \<Longrightarrow> last us \<in> P" using P(1) by simp
  have f1: "start q s1 = start q s" "end_of q s1 = end_of q s" if "q \<in> P" for q
    using hp [OF pP that] by (simp_all add: s1_def split: list.splits)
  have n1: "next_pbuf q s1 = (if q = p then (case vs of [] \<Rightarrow> None | v # _ \<Rightarrow> Some v) else next_pbuf q s)" if "q \<in> P" for q
  proof (cases vs)
    case (Cons v ws)
    with P have "ptr_ok (Some v)" by simp
    from hp(1) [OF pP that this] Cons show ?thesis by (simp add: s1_def)
  qed (use p(2) in \<open>simp add: s1_def\<close>)
  have f2: "start q s2 = start q s" "end_of q s2 = end_of q s" if "q \<in> P" for q
    using helper_put(2,3) [OF ap1 lastP that] f1 [OF that]
    by (simp_all add: s2_def) (simp_all add: start_def end_of_def upd_reass_def get_hdr_def)
  have n2: "next_pbuf q s2 = (if us \<noteq> [] \<and> q = last us then Some p else next_pbuf q s1)" if "q \<in> P" for q
    using helper_put(1) [OF ap1 lastP that okp]
    by (cases "us = []") (simp_all add: s2_def, simp add: next_pbuf_def upd_reass_def get_hdr_def)
  have r1: "reass_at s1 = reass_at s" by (simp add: s1_def set_next_def split: list.splits)
  have oh1: "only_helpers P s s1" using pP by (simp add: s1_def set_next_def only_helpers_put split: list.splits)
  have oh2: "only_helpers P s s2"
  proof (cases "us = []")
    case True
    with oh1 show ?thesis by (simp add: s2_def only_helpers_def upd_reass_def)
  next
    case False
    with oh1 lastP show ?thesis by (simp add: s2_def set_next_def only_helpers_put)
  qed
  have rd: "rd_p (reass_at s2 r) = (if us = [] then Some p else ?h)"
    by (simp add: s2_def r1 upd_reass_def set_next_def)
  have "chain (nexts s2) (if us = [] then Some p else ?h) (us @ p # vs)"
  proof (rule chain_insert [OF c])
    show "next_pbuf p s2 = (case vs of [] \<Rightarrow> None | v # _ \<Rightarrow> Some v)"
      using n2 [OF pP] n1 [OF pP] p(1) by (auto dest: last_in_set)
    show "next_pbuf (last us) s2 = Some p" if "us \<noteq> []" using n2 [OF lastP [OF that]] that by simp
    fix a assume a: "a \<in> set (butlast us @ vs)"
    then have "a \<in> P" "a \<noteq> p" using P(1) p(1) by (auto dest: in_set_butlastD)
    moreover have "us \<noteq> [] \<longrightarrow> a \<noteq> last us"
    proof
      assume "us \<noteq> []"
      then have "us = butlast us @ [last us]" by simp
      with d have "distinct (butlast us @ last us # vs)" by (metis append.assoc append_Cons append_Nil)
      with a show "a \<noteq> last us" by auto
    qed
    ultimately show "next_pbuf a s2 = next_pbuf a s" using n2 n1 by auto
  qed
  moreover have "insert_frag r p (last_of None us) (joined s None us) t s =
      Some (Some (joined s None us \<and> (vs = [] \<longrightarrow> joined s (last_of None us) [p])), s2)"
  proof (cases vs)
    case Nil
    with t(2) have "t = None" by simp
    with Nil f1 [OF lastP] f2 [OF lastP] f2 [OF pP] show ?thesis
      by (subst insert_frag.simps) (auto simp: s2_def s1_def last_of_def Let_def upd_reass_def)
  next
    case (Cons v ws)
    with t(2) have tv: "t = Some v" by simp
    have v: "start p s < start v s" "end_of p s \<le> start v s" using vs Cons by auto
    have vP: "v \<in> P" using P(1) Cons by simp
    have s1: "set_next p (Some v) s = s1" by (simp add: s1_def Cons)
    show ?thesis
    proof (cases "us = []")
      case True
      with v tv Cons show ?thesis by (subst insert_frag.simps) (simp add: s1 s2_def)
    next
      case False
      have "\<not> start p s1 < end_of (last us) s1" "\<not> end_of p s1 > start v s1"
        using f1 [OF lastP [OF False]] f1 [OF pP] f1 [OF vP] us [rule_format, OF last_in_set [OF False]] v by auto
      with v tv Cons False show ?thesis by (subst insert_frag.simps) (simp add: s1 s2_def last_of_def)
    qed
  qed
  moreover have "reass_at s2 = (reass_at s)(r := (reass_at s r)\<lparr>rd_p := rd_p (reass_at s2 r)\<rparr>)"
    by (auto simp: s2_def r1 upd_reass_def set_next_def)
  moreover have "s2 = set_pst (pst_of s2) s\<lparr>reass_at := reass_at s2\<rparr>"
    by (simp add: s2_def s1_def upd_reass_def set_next_def put_hdr_def put_at_def set_pst_def split: list.splits)
  ultimately show ?thesis using oh2 f2 t(1) rd by (intro exI [of _ s2]) simp
qed

lemma no_gap_spec: "chain (nexts s) (next_pbuf p s) vs \<Longrightarrow>
    no_gap p s = Some (if joined s (Some p) vs then Some (List.last (p # vs)) else None) \<and> next_pbuf (List.last (p # vs)) s = None"
proof (induction vs arbitrary: p)
  case Nil
  then show ?case by (subst no_gap.simps) simp
next
  case (Cons v vs)
  then show ?case by (subst no_gap.simps) auto
qed

text \<open>A queue whose helpers fit the packets.\<close>

definition helpers_ok :: "'a frag_scheme \<Rightarrow> (nat \<times> nat list) list \<Rightarrow> bool" where
  "helpers_ok s fs \<longleftrightarrow>
     (\<forall>f \<in> set fs. unat (start (fst f) s) + length (bytes_of (pst_of s) f) = unat (end_of (fst f) s)) \<and>
     sorted_wrt (\<lambda>f g. end_of (fst f) s \<le> start (fst g) s) fs"

definition queued :: "pbuf_cfg \<Rightarrow> 'a frag_scheme \<Rightarrow> nat \<Rightarrow> (nat \<times> nat list) list \<Rightarrow> bool" where
  "queued c s r fs \<longleftrightarrow> frags_ok c (pst_of s) fs \<and> chain (nexts s) (rd_p (reass_at s r)) (map fst fs) \<and> helpers_ok s fs"

text \<open>What the code takes for a complete datagram once the last fragment is known.\<close>

definition seems_complete :: "'a net_scheme \<Rightarrow> nat list \<Rightarrow> nat \<Rightarrow> nat list \<Rightarrow> bool" where
  "seems_complete s us p vs \<longleftrightarrow> joined s None us \<and> (vs = [] \<longrightarrow> joined s (last_of None us) [p]) \<and>
     start (hd (us @ [p])) s = 0 \<and> joined s (Some p) vs"

lemma bytes_pos: "frag_ok c st f \<Longrightarrow> 0 < length (bytes_of st f)"
  by (cases f) (simp add: frag_ok_def bytes_of_def)

lemma joined_cong:
  "(\<And>a. a \<in> set us \<Longrightarrow> start a s = start a s' \<and> end_of a s = end_of a s') \<Longrightarrow>
   (\<And>b. prev = Some b \<Longrightarrow> end_of b s = end_of b s') \<Longrightarrow> joined s prev us = joined s' prev us"
  by (induction us arbitrary: prev) (auto split: option.splits)

lemma reass_set_next: "reass_at (set_next p x s) = reass_at s"
  by (simp add: set_next_def)

lemma validate_spec:
  assumes q: "queued c s r (us @ vs)" and ok: "frags_ok c (pst_of s) (us @ (p, rest) # vs)"
    and h: "h = get_hdr p 0 IP_HLEN s" and n: "n = length (bytes_of (pst_of s) (p, rest))"
    and l: "frag_len h = of_nat n" "unat (frag_offset h) + n < 65536"
    and us: "\<forall>g \<in> set us. end_of (fst g) s \<le> frag_offset h"
    and vs: "\<forall>g \<in> set vs. unat (frag_offset h) + n \<le> unat (start (fst g) s)"
  shows "\<exists>s'. ip_reass_chain_frag_into_datagram_and_validate c env r p s =
      (if rd_flags (reass_at s r) AND IP_REASS_FLAG_LASTFRAG \<noteq> 0 \<and> seems_complete s' (map fst us) p (map fst vs)
       then if us @ vs \<noteq> [] \<and> end_of (List.last (p # map fst vs)) s' = rd_datagram_len (reass_at s r) then Some (True, s') else None
       else Some (False, s')) \<and>
    queued c s' r (us @ (p, rest) # vs) \<and> only_helpers (fst ` set (us @ (p, rest) # vs)) s s' \<and>
    start p s' = frag_offset h \<and> end_of p s' = frag_offset h + frag_len h \<and>
    (\<forall>g \<in> set (us @ vs). start (fst g) s' = start (fst g) s \<and> end_of (fst g) s' = end_of (fst g) s) \<and>
    reass_at s' = (reass_at s)(r := (reass_at s r)\<lparr>rd_p := rd_p (reass_at s' r)\<rparr>) \<and> s' = set_pst (pst_of s') s\<lparr>reass_at := reass_at s'\<rparr>"
proof -
  define off where "off = frag_offset h"
  define len where "len = frag_len h"
  define fs where "fs = us @ (p, rest) # vs"
  define P where "P = fst ` set fs"
  define s1 where "s1 = put_hdr p 6 (u16_bytes (off + len)) (put_hdr p 4 (u16_bytes off) (set_next p None s))"
  have n0: "0 < n" using bytes_pos frags_okD(1) [OF ok, of "(p, rest)"] n by simp
  have e: "unat (off + len) = unat off + n" using l by (simp add: off_def len_def word_nat)
  have pP: "p \<in> P" by (force simp: P_def fs_def)
  have ap: "apart (pst_of s) P" unfolding P_def using frags_okD(2) [OF ok] by (simp only: fs_def)
  then have ap': "apart (pst_of (set_next p None s)) P" "apart (pst_of (put_hdr p 4 (u16_bytes off) (set_next p None s))) P"
    "apart (pst_of s1) P"
    by (simp_all add: apart_def hdr_region_def set_next_def s1_def)
  have f1: "next_pbuf g s1 = (if g = p then None else next_pbuf g s)" "start g s1 = (if g = p then off else start g s)"
    "end_of g s1 = (if g = p then off + len else end_of g s)" if "g \<in> P" for g
    using helper_put(1) [OF ap pP that, of None] helper_put(2,3) [OF ap pP that] helper_put [OF ap'(1) pP that] helper_put [OF ap'(2) pP that]
    by (simp_all add: s1_def ptr_ok_def)
  have dis: "distinct (map fst us @ p # map fst vs)" using frags_okD(3) [OF ok] by simp
  have r1: "reass_at s1 = reass_at s" "only_helpers P s s1" "s1 = set_pst (pst_of s1) s"
    using pP by (simp_all add: s1_def set_next_def only_helpers_put) (simp add: put_hdr_def put_at_def set_pst_def)
  have inP: "fst g \<in> P" "fst g \<noteq> p" if "g \<in> set (us @ vs)" for g using that dis by (auto simp: P_def fs_def)
  have oth: "start (fst g) s1 = start (fst g) s" "end_of (fst g) s1 = end_of (fst g) s" if "g \<in> set (us @ vs)" for g
    using f1 [OF inP(1) [OF that]] inP(2) [OF that] by simp_all
  have P1: "start p s1 = off" "end_of p s1 = off + len" "next_pbuf p s1 = None" using f1 [OF pP] by simp_all
  have lt: "start (fst g) s < end_of (fst g) s" if "g \<in> set (us @ vs)" for g
  proof -
    from q that have "unat (start (fst g) s) + length (bytes_of (pst_of s) g) = unat (end_of (fst g) s)" "frag_ok c (pst_of s) g"
      by (simp_all add: queued_def helpers_ok_def frags_ok_def)
    with bytes_pos [of c "pst_of s" g] show ?thesis unfolding word_less_nat_alt by linarith
  qed
  have ends: "off + len \<le> start (fst g) s" "off < start (fst g) s" if "g \<in> set vs" for g
    using vs [rule_format, OF that] n0 e by (simp_all add: word_less_nat_alt word_le_nat_alt off_def)
  have c1: "chain (nexts s1) (rd_p (reass_at s1 r)) (map fst us @ map fst vs)"
  proof -
    have "chain (nexts s) (rd_p (reass_at s r)) (map fst us @ map fst vs)" using q by (simp add: queued_def)
    moreover have "next_pbuf a s1 = next_pbuf a s" if "a \<in> set (map fst us @ map fst vs)" for a
    proof -
      from that obtain g where "g \<in> set (us @ vs)" "a = fst g" by (metis (no_types) in_set_conv_nth length_map map_append nth_map nth_mem)
      then show ?thesis using f1(1) inP by simp
    qed
    ultimately show ?thesis unfolding r1(1) using chain_cong [of "map fst us @ map fst vs" "nexts s1" "nexts s"] by blast
  qed
  have "\<exists>s'. insert_frag r p None True (rd_p (reass_at s1 r)) s1 =
      Some (Some (joined s1 None (map fst us) \<and> (map fst vs = [] \<longrightarrow> joined s1 (last_of None (map fst us)) [p])), s') \<and>
    only_helpers P s1 s' \<and> (\<forall>q \<in> P. start q s' = start q s1 \<and> end_of q s' = end_of q s1) \<and>
    chain (nexts s') (rd_p (reass_at s' r)) (map fst us @ p # map fst vs) \<and>
    reass_at s' = (reass_at s1)(r := (reass_at s1 r)\<lparr>rd_p := rd_p (reass_at s' r)\<rparr>) \<and> s' = set_pst (pst_of s') s1\<lparr>reass_at := reass_at s'\<rparr>"
  proof (rule insert_frag_spec [OF c1 _ P1(3) _ ap'(3)])
    show "p \<notin> set (map fst us @ map fst vs)" using dis by auto
    show "P = insert p (set (map fst us @ map fst vs))" by (auto simp: P_def fs_def)
    show "\<forall>a \<in> P. ptr_ok (Some a)" using ok by (auto simp: P_def fs_def frags_ok_def frag_ok_def)
    show "\<forall>u \<in> set (map fst us). start u s1 < start p s1 \<and> end_of u s1 \<le> start p s1"
    proof
      fix u assume "u \<in> set (map fst us)"
      then obtain g where g: "g \<in> set us" "u = fst g" by auto
      then have "g \<in> set (us @ vs)" by simp
      from us [rule_format, OF g(1)] lt [OF this] oth [OF this] show "start u s1 < start p s1 \<and> end_of u s1 \<le> start p s1"
        by (simp add: P1 off_def g(2))
    qed
    show "\<forall>v \<in> set (map fst vs). start p s1 < start v s1 \<and> end_of p s1 \<le> start v s1"
    proof
      fix v assume "v \<in> set (map fst vs)"
      then obtain g where g: "g \<in> set vs" "v = fst g" by auto
      then have "g \<in> set (us @ vs)" by simp
      from ends [OF g(1)] oth [OF this] show "start p s1 < start v s1 \<and> end_of p s1 \<le> start v s1" by (simp add: P1 g(2))
    qed
  qed
  then obtain s' where s': "insert_frag r p None True (rd_p (reass_at s1 r)) s1 =
      Some (Some (joined s1 None (map fst us) \<and> (map fst vs = [] \<longrightarrow> joined s1 (last_of None (map fst us)) [p])), s')"
    "only_helpers P s1 s'" "\<forall>q \<in> P. start q s' = start q s1 \<and> end_of q s' = end_of q s1"
    "chain (nexts s') (rd_p (reass_at s' r)) (map fst us @ p # map fst vs)"
    "reass_at s' = (reass_at s1)(r := (reass_at s1 r)\<lparr>rd_p := rd_p (reass_at s' r)\<rparr>)" "s' = set_pst (pst_of s') s1\<lparr>reass_at := reass_at s'\<rparr>"
    by blast
  have oh: "only_helpers P s s'" by (rule only_helpers_trans [OF r1(2) s'(2)])
  note fr = only_helpers_frags [OF oh [unfolded P_def] ok [folded fs_def]]
  have sp: "start p s' = off" "end_of p s' = off + len" using s'(3) pP P1 by simp_all
  have so: "start (fst g) s' = start (fst g) s" "end_of (fst g) s' = end_of (fst g) s" if "g \<in> set (us @ vs)" for g
    using s'(3) inP(1) [OF that] oth [OF that] by simp_all
  have hs: "helpers_ok s (us @ vs)" using q by (simp add: queued_def)
  have "helpers_ok s' fs"
    unfolding helpers_ok_def
  proof
    show "\<forall>f \<in> set fs. unat (start (fst f) s') + length (bytes_of (pst_of s') f) = unat (end_of (fst f) s')"
    proof
      fix f assume f: "f \<in> set fs"
      then consider "f = (p, rest)" | "f \<in> set (us @ vs)" by (auto simp: fs_def)
      then show "unat (start (fst f) s') + length (bytes_of (pst_of s') f) = unat (end_of (fst f) s')"
        using fr(2) [OF f] sp e n so hs by cases (auto simp: helpers_ok_def)
    qed
    have "sorted_wrt (\<lambda>f g. end_of (fst f) s \<le> start (fst g) s) (us @ vs)" using hs by (simp add: helpers_ok_def)
    then have "sorted_wrt (\<lambda>f g. end_of (fst f) s' \<le> start (fst g) s') (us @ vs)"
      by (rule sorted_wrt_mono_rel [rotated]) (simp add: so)
    moreover have "end_of (fst g) s' \<le> start p s'" if "g \<in> set us" for g using us that so [of g] by (simp add: sp off_def)
    moreover have "end_of p s' \<le> start (fst g) s'" if "g \<in> set vs" for g using ends [OF that] that so [of g] by (simp add: sp)
    ultimately show "sorted_wrt (\<lambda>f g. end_of (fst f) s' \<le> start (fst g) s') fs"
      by (simp add: fs_def sorted_wrt_append)
  qed
  then have "queued c s' r fs" using fr(1) ok s'(4) by (simp add: queued_def fs_def)
  moreover have inU: "a \<in> P" if "a \<in> set (map fst us)" for a using that by (auto simp: P_def fs_def)
  have j: "joined s1 None (map fst us) = joined s' None (map fst us)"
    "joined s1 (last_of None (map fst us)) [p] = joined s' (last_of None (map fst us)) [p]"
    using s'(3) inU inU [OF last_in_set] pP by (auto intro!: joined_cong simp: last_of_def split: if_splits simp del: set_map)
  moreover have "chain (nexts s') (next_pbuf p s') (map fst vs)" using s'(4) chain_suffix by fastforce
  note ng = no_gap_spec [OF this]
  have hd: "rd_p (reass_at s' r) = Some (hd (map fst us @ [p]))" using s'(4) by (cases us) auto
  have as: "validate_asserts r (hd (map fst us @ [p])) (List.last (p # map fst vs)) s' \<longleftrightarrow>
      us @ vs \<noteq> [] \<and> end_of (List.last (p # map fst vs)) s' = rd_datagram_len (reass_at s r)"
  proof -
    let ?a = "hd (map fst us @ [p])" and ?b = "List.last (p # map fst vs)"
    have "?a = ?b \<longleftrightarrow> us @ vs = []" using dis by (cases us; cases vs rule: rev_cases) auto
    moreover have "?a \<in> P" "?b \<in> P" by (cases us; simp add: P_def fs_def) (cases vs rule: rev_cases; simp add: P_def fs_def)
    moreover have "apart (pst_of s') P" using ap oh by (simp add: apart_def hdr_region_def only_helpers_def)
    ultimately have "p_payload (pbufs (pst_of s') ?a) = p_payload (pbufs (pst_of s') ?b) \<longleftrightarrow> us @ vs = []"
      unfolding apart_def hdr_region_def by (metis Int_absorb atLeastLessThan_empty_iff add_is_0 less_add_same_cancel1 zero_less_numeral)
    moreover have "rd_datagram_len (reass_at s' r) = rd_datagram_len (reass_at s r)" by (subst s'(5)) (simp add: r1(1))
    ultimately show ?thesis using ng by (simp add: validate_asserts_def)
  qed
  from hd have "ip_reass_chain_frag_into_datagram_and_validate c env r p s =
      (if rd_flags (reass_at s r) AND IP_REASS_FLAG_LASTFRAG \<noteq> 0 \<and> seems_complete s' (map fst us) p (map fst vs)
       then if us @ vs \<noteq> [] \<and> end_of (List.last (p # map fst vs)) s' = rd_datagram_len (reass_at s r) then Some (True, s') else None
       else Some (False, s'))"
    unfolding ip_reass_chain_frag_into_datagram_and_validate_def seems_complete_def h [symmetric] off_def [symmetric] len_def [symmetric]
    using s'(1) [unfolded j r1(1)] arg_cong [OF s'(5), of "\<lambda>f. rd_flags (f r)"] r1(1) ng as
    by (simp add: reass_set_next del: joined.simps List.last.simps flip: s1_def)
  moreover have "reass_at s' = (reass_at s)(r := (reass_at s r)\<lparr>rd_p := rd_p (reass_at s' r)\<rparr>)" using s'(5) r1(1) by simp
  moreover have "s' = set_pst (pst_of s') s\<lparr>reass_at := reass_at s'\<rparr>"
    by (subst s'(6), subst r1(3)) (simp add: set_pst_def)
  ultimately show ?thesis using oh sp so unfolding off_def len_def fs_def P_def by blast
qed

section \<open>Delivery\<close>

lemma clen_loop_spec: "chain (links st) p xs \<Longrightarrow> n < 256 \<Longrightarrow> pbuf_clen_loop n p st = Some ((n + length xs) mod 256)"
proof (induction xs arbitrary: p n)
  case Nil
  then show ?case by (subst pbuf_clen_loop.simps) simp
next
  case (Cons a xs)
  then show ?case by (subst pbuf_clen_loop.simps) (simp add: mod_simps)
qed

lemma pbuf_clen_spec: "packet st p xs \<Longrightarrow> pbuf_clen p st = Some (length xs mod 256)"
  using clen_loop_spec [of st p xs 0] by (simp add: packet_def pbuf_clen_def)

lemma frag_ok_cong:
  "(\<And>a. a \<in> set (fst f # snd f) \<Longrightarrow> pbufs st' a = pbufs st a) \<Longrightarrow> frag_ok c st' f = frag_ok c st f"
proof (cases f)
  fix p rest
  assume e: "\<And>a. a \<in> set (fst f # snd f) \<Longrightarrow> pbufs st' a = pbufs st a" and f: "f = (p, rest)"
  have "total st' rest = total st rest" "tots st' rest = tots st rest"
    using e f by (simp_all add: total_cong [of rest st' st] tots_cong [of rest st' st])
  moreover have "chain (links st') x rest = chain (links st) x rest" for x using e f by (intro chain_cong) simp
  ultimately show ?thesis using e f by (simp add: frag_ok_def packet_def)
qed

lemma bytes_of_cong:
  "(\<And>a. a \<in> set (fst f # snd f) \<Longrightarrow> pbufs st' a = pbufs st a) \<Longrightarrow> payload_bytes st' = payload_bytes st \<Longrightarrow> bytes_of st' f = bytes_of st f"
  by (cases f) (auto simp: bytes_of_def intro!: arg_cong [of _ _ "drop 20"] contents_cong simp del: contents_simps)

lemma chain_fragments_spec:
  "packet (pst_of s) (Some h) xs \<Longrightarrow> \<forall>f \<in> set fs. frag_ok c (pst_of s) f \<Longrightarrow> distinct (pbufs_of fs) \<Longrightarrow>
    set xs \<inter> set (pbufs_of fs) = {} \<Longrightarrow> chain (nexts s) r (map fst fs) \<Longrightarrow>
    total (pst_of s) xs + sum_list (map (\<lambda>f. length (bytes_of (pst_of s) f)) fs) < 65536 \<Longrightarrow>
    \<exists>st. chain_fragments c h r s = Some (set_pst st s) \<and> packet st (Some h) (xs @ pbufs_of fs) \<and>
      contents st (xs @ pbufs_of fs) = contents (pst_of s) xs @ concat (map (bytes_of (pst_of s)) fs) \<and>
      pbuf_pools st = pbuf_pools (pst_of s) \<and> payload_bytes st = payload_bytes (pst_of s)"
proof (induction fs arbitrary: s xs r)
  case Nil
  then show ?case by (subst chain_fragments.simps) (auto intro!: exI [of _ "pst_of s"])
next
  case (Cons f fs)
  obtain q rest where f: "f = (q, rest)" by (cases f)
  let ?st = "pst_of s"
  have fq: "packet ?st (Some q) (q # rest)" "20 \<le> len_of ?st q" "q + SIZEOF_STRUCT_PBUF c \<le> p_payload (pbufs ?st q)"
    using Cons.prems(2) f by (simp_all add: frag_ok_def)
  note sh = header_shrink [OF fq(1,2) zero_less_numeral fq(3)]
  define st1 where "st1 = shrink q 20 ?st"
  have p1: "pbufs st1 a = pbufs ?st a" if "a \<noteq> q" for a using that by (simp add: st1_def)
  have qx: "q \<notin> set xs" using Cons.prems(4) f by auto
  have pkx: "packet st1 (Some h) xs" "total st1 xs = total ?st xs" "contents st1 xs = contents ?st xs"
  proof -
    have e: "pbufs st1 a = pbufs ?st a" if "a \<in> set xs" for a using that qx p1 by metis
    then have "chain (links st1) (Some h) xs = chain (links ?st) (Some h) xs" "tots st1 xs = tots ?st xs"
      by (simp_all add: chain_cong [of xs "links st1" "links ?st"] tots_cong [of xs st1 ?st])
    moreover show t: "total st1 xs = total ?st xs" using e by (intro total_cong) simp
    ultimately show "packet st1 (Some h) xs" using Cons.prems(1) by (simp add: packet_def)
    show "contents st1 xs = contents ?st xs" using e by (intro contents_cong) (auto simp: st1_def)
  qed
  have b: "contents st1 (q # rest) = bytes_of ?st f" using sh(3) by (simp add: st1_def bytes_of_def f del: contents_simps)
  then have tq: "total st1 (q # rest) = length (bytes_of ?st f)" by (metis length_contents)
  have "packet st1 (Some q) (q # rest)" using sh(2) by (simp add: st1_def)
  moreover have "set xs \<inter> set (q # rest) = {}" "total st1 xs + total st1 (q # rest) < 65536"
    using Cons.prems(4,6) f tq pkx(2) by auto
  ultimately obtain st2 where st2: "pbuf_cat h q st1 = Some st2" "packet st2 (Some h) (xs @ q # rest)"
    "contents st2 (xs @ q # rest) = contents st1 xs @ contents st1 (q # rest)"
    "st2 = cat_state xs q (total st1 (q # rest)) st1"
    using packet_cat [OF pkx(1)] by blast
  have pb2: "payload_bytes st2 = payload_bytes ?st" "pbuf_pools st2 = pbuf_pools ?st" by (simp_all add: st2(4) cat_state_def st1_def)
  have same: "pbufs st2 a = pbufs ?st a" if "a \<in> set (pbufs_of fs)" for a
  proof -
    have "a \<notin> set xs" "a \<noteq> q" using that Cons.prems(3,4) f by auto
    then show ?thesis using p1 by (simp add: st2(4) cat_state_def)
  qed
  have mem: "a \<in> set (pbufs_of fs)" if "g \<in> set fs" "a \<in> set (fst g # snd g)" for g a
    using that by (rule pbufs_mem)
  let ?s = "set_pst st2 s"
  have "chain (nexts ?s) (next_pbuf q s) (map fst fs) = chain (nexts s) (next_pbuf q s) (map fst fs)"
  proof (rule chain_cong)
    fix a assume "a \<in> set (map fst fs)"
    then obtain g where "g \<in> set fs" "a = fst g" by auto
    with mem [of g a] same show "nexts ?s a = nexts s a" by (simp add: next_pbuf_def get_hdr_load pb2)
  qed
  then have ch: "chain (nexts ?s) (next_pbuf q s) (map fst fs)" using Cons.prems(5) f by simp
  have fo: "\<forall>g \<in> set fs. frag_ok c (pst_of ?s) g"
  proof
    fix g assume g: "g \<in> set fs"
    have "frag_ok c st2 g = frag_ok c ?st g" by (rule frag_ok_cong, rule same, rule mem [OF g])
    with g Cons.prems(2) show "frag_ok c (pst_of ?s) g" by simp
  qed
  have bo: "bytes_of st2 g = bytes_of ?st g" if "g \<in> set fs" for g
    by (rule bytes_of_cong) (use same mem [OF that] pb2 in auto)
  then have bm: "map (bytes_of st2) fs = map (bytes_of ?st) fs" "map (\<lambda>f. length (bytes_of st2 f)) fs = map (\<lambda>f. length (bytes_of ?st f)) fs"
    by simp_all
  have "total st2 (xs @ q # rest) = total ?st xs + length (bytes_of ?st f)"
    using arg_cong [OF st2(3), of length] pkx(2) tq by simp
  then have t2: "total (pst_of ?s) (xs @ q # rest) + sum_list (map (\<lambda>f. length (bytes_of (pst_of ?s) f)) fs) < 65536"
    using Cons.prems(6) by (simp add: bm del: total_simps)
  have d2: "distinct (pbufs_of fs)" "set (xs @ q # rest) \<inter> set (pbufs_of fs) = {}" using Cons.prems(3,4) f by auto
  have "packet (pst_of ?s) (Some h) (xs @ q # rest)" using st2(2) by simp
  from Cons.IH [OF this fo d2 ch t2] obtain st where st: "chain_fragments c h (next_pbuf q s) ?s = Some (set_pst st ?s)"
    "packet st (Some h) ((xs @ q # rest) @ pbufs_of fs)"
    "contents st ((xs @ q # rest) @ pbufs_of fs) = contents (pst_of ?s) (xs @ q # rest) @ concat (map (bytes_of (pst_of ?s)) fs)"
    "pbuf_pools st = pbuf_pools (pst_of ?s)" "payload_bytes st = payload_bytes (pst_of ?s)" by blast
  have "chain_fragments c h r s = Some (set_pst st s)"
    using Cons.prems(5) f sh(1) st2(1) st(1) by (subst chain_fragments.simps) (simp add: IP_HLEN_def set_pst_def st1_def Let_def)
  with st show ?case
    by (intro exI [of _ st]) (simp add: f st2(3) b pkx(3) bm pb2 del: contents_simps)
qed

text \<open>The list of datagrams.\<close>

abbreviation rd_links :: "'a frag_scheme \<Rightarrow> nat \<Rightarrow> nat option" where
  "rd_links s \<equiv> \<lambda>a. rd_next (reass_at s a)"

lemma find_datagram_spec:
  "chain (\<lambda>a. rd_next (rd a)) t (us @ r # vs) \<Longrightarrow> \<forall>u \<in> set us. \<not> IP_ADDRESSES_AND_ID_MATCH (rd_iphdr (rd u)) h \<Longrightarrow>
    IP_ADDRESSES_AND_ID_MATCH (rd_iphdr (rd r)) h \<Longrightarrow> find_datagram rd h t prev = Some (Some r, last_of prev us)"
proof (induction us arbitrary: t prev)
  case Nil
  then show ?case by (subst find_datagram.simps) simp
next
  case (Cons u us)
  then show ?case by (subst find_datagram.simps) auto
qed

lemma find_datagram_none:
  "chain (\<lambda>a. rd_next (rd a)) t us \<Longrightarrow> \<forall>u \<in> set us. \<not> IP_ADDRESSES_AND_ID_MATCH (rd_iphdr (rd u)) h \<Longrightarrow>
    find_datagram rd h t prev = Some (None, last_of prev us)"
proof (induction us arbitrary: t prev)
  case Nil
  then show ?case by (subst find_datagram.simps) simp
next
  case (Cons u us)
  then show ?case by (subst find_datagram.simps) auto
qed

lemma dequeue_spec:
  assumes c: "chain (rd_links s) (reassdatagrams s) (us @ r # vs)"
  shows "\<exists>s'. ip_reass_dequeue_datagram r (last_of None us) s = Some s' \<and> chain (rd_links s') (reassdatagrams s') (us @ vs) \<and>
    pst_of s' = (pst_of s)\<lparr>pbuf_pools := memp_free MEMP_REASSDATA (Some r) (pbuf_pools (pst_of s))\<rparr> \<and>
    ip_reass_pbufcount s' = ip_reass_pbufcount s"
proof (cases "us = []")
  case True
  with c have "reassdatagrams s = Some r" "chain (rd_links s) (rd_next (reass_at s r)) vs" by auto
  with True show ?thesis by (simp add: ip_reass_dequeue_datagram_def set_pst_def)
next
  case False
  then obtain ws b where us: "us = ws @ [b]" by (metis append_butlast_last_id)
  have d: "distinct (ws @ b # r # vs)" using chain_distinct [OF c] by (simp add: us)
  have "reassdatagrams s \<noteq> Some r"
  proof
    assume "reassdatagrams s = Some r"
    with c d show False by (cases ws) (auto simp: us)
  qed
  moreover have "chain ((rd_links s)(b := rd_next (reass_at s r))) (reassdatagrams s) (ws @ b # vs)"
    using c by (intro chain_skip) (simp add: us)
  moreover have "(rd_links s)(b := rd_next (reass_at s r)) = rd_links (upd_reass b (\<lambda>d. d\<lparr>rd_next := rd_next (reass_at s r)\<rparr>) s)"
    by (auto simp: upd_reass_def)
  ultimately show ?thesis using us
    by (simp add: ip_reass_dequeue_datagram_def last_of_def set_pst_def) (simp add: upd_reass_def)
qed

text \<open>The header of the whole datagram.\<close>

definition reass_hdr0 :: "u8 list \<Rightarrow> u16 \<Rightarrow> u8 list" where
  "reass_hdr0 ih len = take 2 ih @ u16_bytes (lwip_htons len) @ take 2 (drop 4 ih) @ [0, 0] @ take 2 (drop 8 ih) @ [0, 0] @ drop 12 ih"

definition reass_hdr :: "u8 list \<Rightarrow> u16 \<Rightarrow> u8 list" where
  "reass_hdr ih len = take 10 (reass_hdr0 ih len) @ u16_bytes (NOT (oc_sum (reass_hdr0 ih len))) @ drop 12 ih"

lemma get_put_all:
  assumes "k + length bs \<le> n"
  shows "get_hdr p 0 n (put_hdr p k bs s) = take k (get_hdr p 0 n s) @ bs @ drop (k + length bs) (get_hdr p 0 n s)"
  using assms
  by (intro nth_equalityI) (auto simp: get_hdr_load load_bytes_def write_bytes_def store_bytes_nth nth_append)

lemma length_reass_hdr [simp]: "length ih = 20 \<Longrightarrow> length (reass_hdr ih len) = 20" "length ih = 20 \<Longrightarrow> length (reass_hdr0 ih len) = 20"
  by (simp_all add: reass_hdr_def reass_hdr0_def)

lemma reass_hdr_verifies:
  assumes "length ih = 20"
  shows "inet_chksum lwip_standard_chksum2 a (reass_hdr ih len) = 0"
proof -
  define ck where "ck = NOT (oc_sum (reass_hdr0 ih len))"
  let ?pre = "take 2 ih @ u16_bytes (lwip_htons len) @ take 2 (drop 4 ih) @ [0, 0] @ take 2 (drop 8 ih)"
  have h0: "reass_hdr0 ih len = ?pre @ 0 # 0 # drop 12 ih" by (simp add: reass_hdr0_def)
  moreover have "length ?pre = 10" using assms by simp
  ultimately have h: "reass_hdr ih len = ?pre @ ucast ck # ucast (drop_bit 8 ck) # drop 12 ih"
    by (simp add: reass_hdr_def ck_def u16_bytes_def)
  have "inet_chksum lwip_standard_chksum2 a (?pre @ ucast ck # ucast (drop_bit 8 ck) # drop 12 ih) = 0"
  proof (rule alg2.inet_chksum_verify)
    have "inet_chksum lwip_standard_chksum2 0 (?pre @ 0 # 0 # drop 12 ih) = ck"
      unfolding ck_def using h0 assms by (subst alg2.inet_chksum_spec) simp_all
    then show "le16 (ucast ck) (ucast (drop_bit 8 ck)) = inet_chksum lwip_standard_chksum2 0 (?pre @ 0 # 0 # drop 12 ih)"
      by (simp only: le16_u16_bytes)
  qed (use assms in simp_all)
  then show ?thesis by (simp add: h)
qed

lemma first_hdr: "packet (pst_of s) (Some p) (p # rest) \<Longrightarrow> 20 \<le> len_of (pst_of s) p \<Longrightarrow>
    contents (pst_of s) (p # rest) = get_hdr p 0 20 s @ bytes_of (pst_of s) (p, rest)"
  by (simp add: get_hdr_bytes bytes_of_def del: contents_simps)

lemma deliver_spec:
  assumes q: "queued c s r ((p, rest) # gs)" and ih: "length (rd_iphdr (reass_at s r)) = 20"
    and ds: "chain (rd_links s) (reassdatagrams s) (us @ r # vs)"
    and sum: "20 + sum_list (map (\<lambda>f. length (bytes_of (pst_of s) f)) ((p, rest) # gs)) < 65536"
  shows "\<exists>s'. deliver_datagram c r (last_of None us) s = Some (Some p, s') \<and>
    packet (pst_of s') (Some p) (pbufs_of ((p, rest) # gs)) \<and>
    contents (pst_of s') (pbufs_of ((p, rest) # gs)) =
      reass_hdr (rd_iphdr (reass_at s r)) (rd_datagram_len (reass_at s r) + 20) @ concat (map (bytes_of (pst_of s)) ((p, rest) # gs)) \<and>
    chain (rd_links s') (reassdatagrams s') (us @ vs)"
proof -
  define ih where "ih = rd_iphdr (reass_at s r)"
  define fs where "fs = (p, rest) # gs"
  define s1 where "s1 = upd_reass r (\<lambda>d. d\<lparr>rd_datagram_len := rd_datagram_len d + of_nat IP_HLEN\<rparr>) s"
  define len where "len = rd_datagram_len (reass_at s1 r)"
  define s2 where "s2 = put_hdr p 0 ih s1"
  define s3 where "s3 = put_hdr p 2 (u16_bytes (lwip_htons len)) s2"
  define s4 where "s4 = put_hdr p 6 [0, 0] s3"
  define s5 where "s5 = put_hdr p 10 [0, 0] s4"
  define ck where "ck = inet_chksum lwip_standard_chksum2 (p_payload (pbufs (pst_of s5) p)) (get_hdr p 0 IP_HLEN s5)"
  define s6 where "s6 = put_hdr p 10 (u16_bytes ck) s5"
  have pst1: "pst_of s1 = pst_of s" by (simp add: s1_def upd_reass_def)
  have len: "len = rd_datagram_len (reass_at s r) + 20" by (simp add: len_def s1_def upd_reass_def IP_HLEN_def)
  have l: "length ih = 20" using assms(2) by (simp add: ih_def)
  note f = frags_okD [OF q [unfolded queued_def, THEN conjunct1]]
  have pP: "p \<in> fst ` set fs" by (simp add: fs_def)
  have oh: "only_helpers (fst ` set fs) s1 s6"
    using pP l by (simp add: s6_def s5_def s4_def s3_def s2_def only_helpers_put)
  note fr = only_helpers_frags [OF oh, of c, unfolded pst1]
  have okf: "frags_ok c (pst_of s) fs" using q by (simp add: queued_def fs_def)
  have ok6: "frags_ok c (pst_of s6) fs" using fr(1) [OF okf] okf by simp
  have b6: "bytes_of (pst_of s6) g = bytes_of (pst_of s) g" if "g \<in> set fs" for g using fr(2) [OF okf that] by simp
  have g2: "get_hdr p 0 20 s2 = ih" using l by (simp add: s2_def)
  have g5: "get_hdr p 0 20 s5 = reass_hdr0 ih len"
    using l by (simp add: s5_def s4_def s3_def get_put_all g2 reass_hdr0_def)
  have "ck = NOT (oc_sum (reass_hdr0 ih len))"
    unfolding ck_def IP_HLEN_def g5 using l by (subst alg2.inet_chksum_spec) simp_all
  then have g6: "get_hdr p 0 20 s6 = reass_hdr ih len"
    using l by (simp add: s6_def get_put_all g5 reass_hdr_def) (simp add: reass_hdr0_def)
  have pk: "packet (pst_of s6) (Some p) (p # rest)" "20 \<le> len_of (pst_of s6) p"
    using ok6 by (simp_all add: frags_ok_def frag_ok_def fs_def)
  have c6: "contents (pst_of s6) (p # rest) = reass_hdr ih len @ bytes_of (pst_of s) (p, rest)"
    using first_hdr [OF pk] g6 b6 [of "(p, rest)"] by (simp add: fs_def del: contents_simps)
  define t where "t = next_pbuf p s1"
  have "chain (nexts s1) t (map fst gs)" using q by (simp add: queued_def t_def next_pbuf_def get_hdr_load pst1)
  moreover have "next_pbuf a s6 = next_pbuf a s1" if a: "a \<in> set (map fst gs)" for a
  proof -
    have ap: "apart (pst_of s1) (fst ` set fs)" using f(2) by (simp add: fs_def pst1)
    have "a \<in> fst ` set fs" "p \<noteq> a" using a f(3) by (auto simp: fs_def)
    then have "get_hdr a 0 4 (put_hdr p j bs w) = get_hdr a 0 4 w" if "pbufs (pst_of w) = pbufs (pst_of s1)" "j + length bs \<le> 20" for j bs and w :: "'a frag_scheme"
      using get_put_apart [of w "fst ` set fs" p a 0 4 j bs] ap pP that by (simp add: apart_def hdr_region_def)
    then show ?thesis using l by (simp add: next_pbuf_def s6_def s5_def s4_def s3_def s2_def)
  qed
  ultimately have ch: "chain (nexts s6) t (map fst gs)" using chain_cong [of "map fst gs" "nexts s6" "nexts s1"] by blast
  have fo: "\<forall>g \<in> set gs. frag_ok c (pst_of s6) g" "distinct (pbufs_of gs)" "set (p # rest) \<inter> set (pbufs_of gs) = {}"
    using ok6 by (auto simp: frags_ok_def fs_def)
  have bm: "map (bytes_of (pst_of s6)) gs = map (bytes_of (pst_of s)) gs"
    "map (\<lambda>f. length (bytes_of (pst_of s6) f)) gs = map (\<lambda>f. length (bytes_of (pst_of s) f)) gs"
    using b6 by (simp_all add: fs_def)
  have "total (pst_of s6) (p # rest) = 20 + length (bytes_of (pst_of s) (p, rest))"
    using arg_cong [OF c6, of length] l by simp
  then have "total (pst_of s6) (p # rest) + sum_list (map (\<lambda>f. length (bytes_of (pst_of s6) f)) gs) < 65536"
    using sum by (simp only: bm) simp
  from chain_fragments_spec [OF pk(1) fo ch this] obtain st where st:
    "chain_fragments c p t s6 = Some (set_pst st s6)" "packet st (Some p) ((p # rest) @ pbufs_of gs)"
    "contents st ((p # rest) @ pbufs_of gs) = contents (pst_of s6) (p # rest) @ concat (map (bytes_of (pst_of s6)) gs)"
    "pbuf_pools st = pbuf_pools (pst_of s6)" by blast
  let ?s = "set_pst st s6"
  have r6: "reass_at s6 = reass_at s1" "reassdatagrams s6 = reassdatagrams s" by (simp_all add: s6_def s5_def s4_def s3_def s2_def s1_def upd_reass_def)
  have "chain (rd_links ?s) (reassdatagrams ?s) (us @ r # vs)"
  proof -
    have "rd_links ?s = rd_links s" by (auto simp: set_pst_def r6 s1_def upd_reass_def)
    then show ?thesis using ds by (simp add: set_pst_def r6)
  qed
  from dequeue_spec [OF this] obtain s' where s': "ip_reass_dequeue_datagram r (last_of None us) ?s = Some s'"
    "chain (rd_links s') (reassdatagrams s') (us @ vs)"
    "pst_of s' = (pst_of ?s)\<lparr>pbuf_pools := memp_free MEMP_REASSDATA (Some r) (pbuf_pools (pst_of ?s))\<rparr>" by blast
  have pb: "pbufs (pst_of s') = pbufs st" "payload_bytes (pst_of s') = payload_bytes st" by (simp_all add: s'(3))
  have tt: "total (pst_of s') xs = total st xs" "tots (pst_of s') xs = tots st xs" "contents (pst_of s') xs = contents st xs" for xs
    by (rule total_cong tots_cong contents_cong; simp add: pb)+
  have pk': "packet (pst_of s') (Some p) (pbufs_of fs)" using st(2) by (simp add: packet_def tt pb fs_def)
  have "rd_p (reass_at s1 r) = Some p" "rd_iphdr (reass_at s1 r) = ih" using q by (simp_all add: s1_def upd_reass_def queued_def ih_def)
  then have "deliver_datagram c r (last_of None us) s = do {
      clen \<leftarrow> pbuf_clen (Some p) (pst_of s');
      Some (Some p, s'\<lparr>ip_reass_pbufcount := (ip_reass_pbufcount s' + 65536 - clen) mod 65536\<rparr>) }"
    unfolding deliver_datagram_def using st(1) s'(1)
    by (simp add: Let_def t_def flip: s1_def s2_def len_def s3_def s4_def s5_def ck_def s6_def) (simp add: s6_def s5_def s4_def s3_def s2_def t_def len_def ck_def)
  moreover have "contents (pst_of s') (pbufs_of fs) = reass_hdr ih len @ concat (map (bytes_of (pst_of s)) fs)"
    using st(3) by (simp add: tt fs_def c6 bm del: contents_simps)
  ultimately show ?thesis using pk' s'(2) pbuf_clen_spec [OF pk']
    by (simp add: fs_def ih_def len del: contents_simps)
qed

section \<open>One fragment\<close>

text \<open>The ranges of a list of fragments, and when each one ends where the next one starts.\<close>

definition span :: "'a net_scheme \<Rightarrow> nat \<times> nat list \<Rightarrow> u16 \<times> u16" where
  "span s f = (start (fst f) s, end_of (fst f) s)"

fun touching :: "(u16 \<times> u16) list \<Rightarrow> bool" where
  "touching (x # y # zs) \<longleftrightarrow> snd x = fst y \<and> touching (y # zs)"
| "touching _ = True"

definition taken_complete :: "(u16 \<times> u16) list \<Rightarrow> u16 \<times> u16 \<Rightarrow> (u16 \<times> u16) list \<Rightarrow> bool" where
  "taken_complete us x vs \<longleftrightarrow> touching us \<and> (vs = [] \<longrightarrow> touching (us @ [x])) \<and> fst (hd (us @ [x])) = 0 \<and> touching (x # vs)"

lemma joined_touching: "joined s (Some (fst f)) (map fst fs) = touching (span s f # map (span s) fs)"
  by (induction fs arbitrary: f) (auto simp: span_def)

lemma joined_None: "joined s None (map fst fs) = touching (map (span s) fs)"
  by (cases fs) (auto simp: joined_touching)

lemma seems_taken: "seems_complete s (map fst us) (fst f) (map fst vs) = taken_complete (map (span s) us) (span s f) (map (span s) vs)"
proof -
  have "touching (map (span s) us @ [span s f]) = (touching (map (span s) us) \<and> joined s (last_of None (map fst us)) [fst f])"
    using joined_append [of s None "map fst us" "[fst f]"] joined_None [of s "us @ [f]"] joined_None [of s us]
    by (simp del: joined.simps)
  moreover have "start (hd (map fst us @ [fst f])) s = fst (hd (map (span s) us @ [span s f]))"
    by (cases us) (auto simp: span_def)
  ultimately show ?thesis by (auto simp: seems_complete_def taken_complete_def joined_None joined_touching)
qed

text \<open>The end of \<^verbatim>\<open>ip_reass\<close>, when the datagram \<open>r\<close> of the fragment is known.\<close>

definition reass_tail ::
    "pbuf_cfg \<Rightarrow> pbuf_env \<Rightarrow> u8 list \<Rightarrow> nat \<Rightarrow> nat \<Rightarrow> nat \<Rightarrow> nat option \<Rightarrow> 'a frag_scheme \<Rightarrow> (nat option \<times> 'a frag_scheme) option" where
  "reass_tail c env fraghdr clen p r prev s = do {
     let s = s\<lparr>ip_reass_pbufcount := u16 (ip_reass_pbufcount s + clen)\<rparr>;
     let s = (if iph_field 6 fraghdr AND IP_MF = 0
              then upd_reass r (\<lambda>d. d\<lparr>rd_flags := rd_flags d OR IP_REASS_FLAG_LASTFRAG,
                     rd_datagram_len := frag_offset fraghdr + frag_len fraghdr\<rparr>) s
              else s);
     (complete, s) \<leftarrow> ip_reass_chain_frag_into_datagram_and_validate c env r p s;
     if complete then deliver_datagram c r prev s else Some (None, s) }"

lemma ip_reass_tail:
  assumes "packet (pst_of s) (Some p) (p # rest)" "h = get_hdr p 0 IP_HLEN s" "h ! 0 AND 0x0f = 5"
    and "ip_reass_pbufcount s + length (p # rest) \<le> IP_REASS_MAX_PBUFS"
    and "find_or_enqueue c env out frag h (length (p # rest)) s = Some ((Some r, prev), s1)"
  shows "ip_reass c env out frag p s = reass_tail c env h (length (p # rest)) p r prev s1"
proof -
  have "length (p # rest) < 256" using assms(4) by (simp add: IP_REASS_MAX_PBUFS_def)
  then show ?thesis
    using assms(3,4,5) pbuf_clen_spec [OF assms(1)]
    unfolding ip_reass_def reass_tail_def assms(2) [symmetric] by (simp add: Let_def IP_HLEN_def)
qed

lemma queued_cong:
  assumes "pst_of s' = pst_of s" "rd_p (reass_at s' r) = rd_p (reass_at s r)"
  shows "queued c s' r fs = queued c s r fs" "start p s' = start p s" "end_of p s' = end_of p s" "get_hdr p k n s' = get_hdr p k n s"
    "span s' f = span s f"
  using assms
  by (simp_all add: queued_def helpers_ok_def start_def end_of_def next_pbuf_def get_hdr_load span_def)

lemma tail_spec:
  assumes q: "queued c s r (us @ vs)" and ok: "frags_ok c (pst_of s) (us @ (p, rest) # vs)"
    and h: "h = get_hdr p 0 IP_HLEN s" and n: "n = length (bytes_of (pst_of s) (p, rest))"
    and l: "frag_len h = of_nat n" "unat (frag_offset h) + n < 65536"
    and us: "\<forall>g \<in> set us. end_of (fst g) s \<le> frag_offset h"
    and vs: "\<forall>g \<in> set vs. unat (frag_offset h) + n \<le> unat (start (fst g) s)"
    and ih: "length (rd_iphdr (reass_at s r)) = 20" and cnt: "ip_reass_pbufcount s + clen < 65536"
    and sum: "20 + sum_list (map (\<lambda>f. length (bytes_of (pst_of s) f)) (us @ (p, rest) # vs)) < 65536"
  defines "fs \<equiv> us @ (p, rest) # vs" and "fin \<equiv> iph_field 6 h AND IP_MF = 0"
  defines "fl \<equiv> (if fin then rd_flags (reass_at s r) OR IP_REASS_FLAG_LASTFRAG else rd_flags (reass_at s r))"
    and "dl \<equiv> (if fin then frag_offset h + frag_len h else rd_datagram_len (reass_at s r))"
    and "x \<equiv> (frag_offset h, frag_offset h + frag_len h)"
  shows "if fl AND IP_REASS_FLAG_LASTFRAG \<noteq> 0 \<and> taken_complete (map (span s) us) x (map (span s) vs)
    then if us @ vs \<noteq> [] \<and> snd (List.last (x # map (span s) vs)) = dl
      then chain (rd_links s) (reassdatagrams s) (ds1 @ r # ds2) \<longrightarrow> prev = last_of None ds1 \<longrightarrow>
      (\<exists>s'. reass_tail c env h clen p r prev s = Some (Some (fst (hd fs)), s') \<and>
        packet (pst_of s') (Some (fst (hd fs))) (pbufs_of fs) \<and>
        contents (pst_of s') (pbufs_of fs) = reass_hdr (rd_iphdr (reass_at s r)) (dl + 20) @ concat (map (bytes_of (pst_of s)) fs) \<and>
        chain (rd_links s') (reassdatagrams s') (ds1 @ ds2))
      else reass_tail c env h clen p r prev s = None
    else (\<exists>s'. reass_tail c env h clen p r prev s = Some (None, s') \<and> queued c s' r fs \<and>
        only_helpers (fst ` set fs) (s\<lparr>ip_reass_pbufcount := ip_reass_pbufcount s + clen\<rparr>) s' \<and>
        map (span s') fs = map (span s) us @ x # map (span s) vs \<and>
        reass_at s' = (reass_at s)(r := (reass_at s r)\<lparr>rd_flags := fl, rd_datagram_len := dl, rd_p := rd_p (reass_at s' r)\<rparr>))"
proof -
  define s1 where "s1 = s\<lparr>ip_reass_pbufcount := ip_reass_pbufcount s + clen\<rparr>"
  define s2 where "s2 = (if fin then upd_reass r (\<lambda>d. d\<lparr>rd_flags := rd_flags d OR IP_REASS_FLAG_LASTFRAG,
      rd_datagram_len := frag_offset h + frag_len h\<rparr>) s1 else s1)"
  have st: "pst_of s2 = pst_of s" by (simp add: s2_def s1_def upd_reass_def)
  have rp: "rd_p (reass_at s2 r) = rd_p (reass_at s r)" by (simp add: s2_def s1_def upd_reass_def)
  have r2: "reass_at s2 = (reass_at s)(r := (reass_at s r)\<lparr>rd_flags := fl, rd_datagram_len := dl\<rparr>)"
    by (simp add: s2_def s1_def upd_reass_def fl_def dl_def)
  note cg = queued_cong [OF st rp]
  have "\<exists>s'. ip_reass_chain_frag_into_datagram_and_validate c env r p s2 =
      (if rd_flags (reass_at s2 r) AND IP_REASS_FLAG_LASTFRAG \<noteq> 0 \<and> seems_complete s' (map fst us) p (map fst vs)
       then if us @ vs \<noteq> [] \<and> end_of (List.last (p # map fst vs)) s' = rd_datagram_len (reass_at s2 r) then Some (True, s') else None
       else Some (False, s')) \<and>
    queued c s' r (us @ (p, rest) # vs) \<and> only_helpers (fst ` set (us @ (p, rest) # vs)) s2 s' \<and>
    start p s' = frag_offset h \<and> end_of p s' = frag_offset h + frag_len h \<and>
    (\<forall>g \<in> set (us @ vs). start (fst g) s' = start (fst g) s2 \<and> end_of (fst g) s' = end_of (fst g) s2) \<and>
    reass_at s' = (reass_at s2)(r := (reass_at s2 r)\<lparr>rd_p := rd_p (reass_at s' r)\<rparr>) \<and> s' = set_pst (pst_of s') s2\<lparr>reass_at := reass_at s'\<rparr>"
    by (rule validate_spec [where n = n]) (use q ok h n l us vs in \<open>simp_all add: cg st\<close>)
  then obtain s' where s': "ip_reass_chain_frag_into_datagram_and_validate c env r p s2 =
      (if rd_flags (reass_at s2 r) AND IP_REASS_FLAG_LASTFRAG \<noteq> 0 \<and> seems_complete s' (map fst us) p (map fst vs)
       then if us @ vs \<noteq> [] \<and> end_of (List.last (p # map fst vs)) s' = rd_datagram_len (reass_at s2 r) then Some (True, s') else None
       else Some (False, s'))"
    "queued c s' r fs" "only_helpers (fst ` set fs) s2 s'" "start p s' = frag_offset h" "end_of p s' = frag_offset h + frag_len h"
    "\<And>g. g \<in> set (us @ vs) \<Longrightarrow> start (fst g) s' = start (fst g) s2 \<and> end_of (fst g) s' = end_of (fst g) s2"
    "reass_at s' = (reass_at s2)(r := (reass_at s2 r)\<lparr>rd_p := rd_p (reass_at s' r)\<rparr>)" "s' = set_pst (pst_of s') s2\<lparr>reass_at := reass_at s'\<rparr>"
    unfolding fs_def by blast
  have sp: "span s' (p, rest) = x" "map (span s') us = map (span s) us" "map (span s') vs = map (span s) vs"
    using s'(4,5,6) by (auto simp: span_def x_def cg)
  have fl2: "rd_flags (reass_at s2 r) = fl" by (simp add: r2)
  have "reass_tail c env h clen p r prev s = do {
      (complete, s) \<leftarrow> ip_reass_chain_frag_into_datagram_and_validate c env r p s2;
      if complete then deliver_datagram c r prev s else Some (None, s) }"
    using cnt unfolding reass_tail_def s2_def s1_def fin_def Let_def by (simp add: u16_def)
  moreover have "end_of (List.last (p # map fst vs)) s' = snd (List.last (x # map (span s) vs))"
  proof -
    have "(p # map fst vs) = map fst ((p, rest) # vs)" "x # map (span s) vs = map (span s') ((p, rest) # vs)" by (simp_all add: sp)
    then show ?thesis by (simp only: last_map list.distinct) (simp add: span_def last_map)
  qed
  moreover have "rd_datagram_len (reass_at s2 r) = dl" by (simp add: r2)
  ultimately have tl: "reass_tail c env h clen p r prev s =
      (if fl AND IP_REASS_FLAG_LASTFRAG \<noteq> 0 \<and> taken_complete (map (span s) us) x (map (span s) vs)
       then if us @ vs \<noteq> [] \<and> snd (List.last (x # map (span s) vs)) = dl then deliver_datagram c r prev s' else None
       else Some (None, s'))"
    using s'(1) seems_taken [of s' us "(p, rest)" vs] by (simp add: fl2 sp del: List.last.simps)
  have oh: "only_helpers (fst ` set fs) s1 s'"
    using s'(3) by (simp add: only_helpers_def s2_def upd_reass_def hdr_region_def split: if_splits)
  have ra: "reass_at s' = (reass_at s)(r := (reass_at s r)\<lparr>rd_flags := fl, rd_datagram_len := dl, rd_p := rd_p (reass_at s' r)\<rparr>)"
    by (subst s'(7)) (simp add: r2)
  show ?thesis
  proof (cases "fl AND IP_REASS_FLAG_LASTFRAG \<noteq> 0 \<and> taken_complete (map (span s) us) x (map (span s) vs)")
    case False
    have "map (span s') fs = map (span s) us @ x # map (span s) vs" using sp by (simp add: fs_def)
    then show ?thesis unfolding if_not_P [OF False] using tl [unfolded if_not_P [OF False]] s'(2) oh [unfolded s1_def] ra by blast
  next
    case True
    obtain q qs gs where fs: "fs = (q, qs) # gs" unfolding fs_def by (cases us) auto
    have b: "bytes_of (pst_of s') g = bytes_of (pst_of s) g" if "g \<in> set fs" for g
      using only_helpers_frags(2) [OF s'(3) _ that, of c] ok by (simp add: fs_def st)
    then have bm: "map (bytes_of (pst_of s')) ((q, qs) # gs) = map (bytes_of (pst_of s)) fs"
      "map (\<lambda>f. length (bytes_of (pst_of s') f)) ((q, qs) # gs) = map (\<lambda>f. length (bytes_of (pst_of s) f)) fs"
      by (simp_all add: fs)
    have dv: "(us @ vs \<noteq> [] \<and> snd (List.last (x # map (span s) vs)) = dl) \<or>
        reass_tail c env h clen p r prev s = None" using tl True by auto
    show ?thesis
      unfolding if_P [OF True]
    proof (split if_split, intro conjI impI)
      assume whole: "us @ vs \<noteq> [] \<and> snd (List.last (x # map (span s) vs)) = dl"
      assume ds: "chain (rd_links s) (reassdatagrams s) (ds1 @ r # ds2)" and prev: "prev = last_of None ds1"
      have "rd_links s' = rd_links s" by (subst ra) auto
      moreover have "reassdatagrams s' = reassdatagrams s" using oh by (simp add: only_helpers_def s1_def)
      ultimately have ds': "chain (rd_links s') (reassdatagrams s') (ds1 @ r # ds2)" using ds by simp
      have ih': "rd_iphdr (reass_at s' r) = rd_iphdr (reass_at s r)" "rd_datagram_len (reass_at s' r) = dl"
        by (subst ra, simp)+
      have "20 + sum_list (map (\<lambda>f. length (bytes_of (pst_of s') f)) ((q, qs) # gs)) < 65536"
        using sum by (simp only: bm fs_def)
      from deliver_spec [OF s'(2) [unfolded fs] _ ds' this] ih obtain s'' where
        "deliver_datagram c r (last_of None ds1) s' = Some (Some q, s'')" "packet (pst_of s'') (Some q) (pbufs_of fs)"
        "contents (pst_of s'') (pbufs_of fs) = reass_hdr (rd_iphdr (reass_at s r)) (dl + 20) @ concat (map (bytes_of (pst_of s)) fs)"
        "chain (rd_links s'') (reassdatagrams s'') (ds1 @ ds2)" unfolding ih' bm(1) fs by auto
      with tl [unfolded if_P [OF True] if_P [OF whole]] prev fs show "\<exists>s'. reass_tail c env h clen p r prev s = Some (Some (fst (hd fs)), s') \<and>
        packet (pst_of s') (Some (fst (hd fs))) (pbufs_of fs) \<and>
        contents (pst_of s') (pbufs_of fs) = reass_hdr (rd_iphdr (reass_at s r)) (dl + 20) @ concat (map (bytes_of (pst_of s)) fs) \<and>
        chain (rd_links s') (reassdatagrams s') (ds1 @ ds2)" by auto
    qed (use dv in blast)
  qed
qed

section \<open>All fragments in order\<close>

text \<open>The fragments that arrive one after the other, and what the calls return.\<close>

fun reass_all ::
    "pbuf_cfg \<Rightarrow> pbuf_env \<Rightarrow> output_fn \<Rightarrow> output_fn \<Rightarrow> nat list \<Rightarrow> 'a frag_scheme \<Rightarrow> (nat option list \<times> 'a frag_scheme) option" where
  "reass_all c env out frag [] s = Some ([], s)"
| "reass_all c env out frag (p # ps) s = do {
     (r, s) \<leftarrow> ip_reass c env out frag p s;
     (rs, s) \<leftarrow> reass_all c env out frag ps s;
     Some (r # rs, s) }"

text \<open>Packets with the headers of the fragments of one datagram with addresses and identification as in \<open>h0\<close>, from
  offset \<open>off\<close> to the last one.\<close>

fun in_order :: "'a net_scheme \<Rightarrow> u8 list \<Rightarrow> nat \<Rightarrow> (nat \<times> nat list) list \<Rightarrow> bool" where
  "in_order s h0 off [] = True"
| "in_order s h0 off (f # fs) \<longleftrightarrow>
     (let h = get_hdr (fst f) 0 20 s; n = length (bytes_of (pst_of s) f)
      in h ! 0 AND 0x0f = 5 \<and> IP_ADDRESSES_AND_ID_MATCH h0 h \<and> frag_len h = of_nat n \<and> unat (frag_offset h) = off \<and>
         (iph_field 6 h AND IP_MF = 0 \<longleftrightarrow> fs = []) \<and> in_order s h0 (off + n) fs)"

lemma frags_ok_pbufs: "pbufs st' = pbufs st \<Longrightarrow> frags_ok c st' fs = frags_ok c st fs"
  using frag_ok_cong [of _ st' st c] by (simp add: frags_ok_def separate_def region_def)

lemma in_order_cong:
  "(\<And>f. f \<in> set fs \<Longrightarrow> get_hdr (fst f) 0 20 s' = get_hdr (fst f) 0 20 s \<and> bytes_of (pst_of s') f = bytes_of (pst_of s) f) \<Longrightarrow>
    in_order s' h0 off fs = in_order s h0 off fs"
  by (induction fs arbitrary: off) (simp_all add: Let_def)

lemma only_helpers_hdr:
  assumes "only_helpers P s s'" "apart (pst_of s) (insert q P)" "q \<notin> P"
  shows "get_hdr q 0 20 s' = get_hdr q 0 20 s"
proof -
  have "payload_bytes (pst_of s') i = payload_bytes (pst_of s) i" if "i \<in> hdr_region (pst_of s) q" for i
  proof -
    have "i \<notin> hdr_region (pst_of s) p" if "p \<in> P" for p
      using assms(2,3) that \<open>i \<in> hdr_region (pst_of s) q\<close> by (auto simp: apart_def)
    with assms(1) show ?thesis by (simp add: only_helpers_def)
  qed
  moreover have "pbufs (pst_of s') = pbufs (pst_of s)" using assms(1) by (simp add: only_helpers_def)
  ultimately show ?thesis by (simp add: get_hdr_load load_bytes_def hdr_region_def)
qed

lemma only_helpers_mono: "only_helpers P s s' \<Longrightarrow> P \<subseteq> Q \<Longrightarrow> only_helpers Q s s'"
  unfolding only_helpers_def by blast

lemma frags_ok_append: "frags_ok c st (us @ vs) \<Longrightarrow> frags_ok c st us"
  by (simp add: frags_ok_def separate_def)

text \<open>What a queued fragment leaves of the others.\<close>

lemma others_kept:
  assumes oh: "only_helpers (fst ` set us) s s'" and ok: "frags_ok c (pst_of s) (us @ vs)"
  shows "frags_ok c (pst_of s') (us @ vs)" "in_order s' h0 off vs = in_order s h0 off vs"
    "f \<in> set (us @ vs) \<Longrightarrow> bytes_of (pst_of s') f = bytes_of (pst_of s) f"
proof -
  have "fst ` set us \<subseteq> fst ` set (us @ vs)" by auto
  note o = only_helpers_frags [OF only_helpers_mono [OF oh this] ok]
  show "frags_ok c (pst_of s') (us @ vs)" using o(1) ok by simp
  show "f \<in> set (us @ vs) \<Longrightarrow> bytes_of (pst_of s') f = bytes_of (pst_of s) f" by (rule o(2))
  show "in_order s' h0 off vs = in_order s h0 off vs"
  proof (rule in_order_cong)
    fix g assume g: "g \<in> set vs"
    have "fst g \<notin> fst ` set us" using frags_okD(3) [OF ok] g by auto
    moreover have "apart (pst_of s) (insert (fst g) (fst ` set us))"
      using frags_okD(2) [OF ok] g by (auto simp: apart_def)
    ultimately have "get_hdr (fst g) 0 20 s' = get_hdr (fst g) 0 20 s" by (intro only_helpers_hdr [OF oh])
    with o(2) [of g] g show "get_hdr (fst g) 0 20 s' = get_hdr (fst g) 0 20 s \<and> bytes_of (pst_of s') g = bytes_of (pst_of s) g"
      by simp
  qed
qed

lemma touching_snoc: "xs \<noteq> [] \<Longrightarrow> touching (xs @ [y]) \<longleftrightarrow> touching xs \<and> snd (List.last xs) = fst y"
  by (induction xs rule: touching.induct) auto

definition datagram_bytes :: "pst \<Rightarrow> (nat \<times> nat list) list \<Rightarrow> u8 list" where
  "datagram_bytes st fs = concat (map (bytes_of st) fs)"

lemma length_datagram_bytes: "length (datagram_bytes st fs) = sum_list (map (\<lambda>f. length (bytes_of st f)) fs)"
  by (simp add: datagram_bytes_def length_concat comp_def)

lemma known_datagram:
  assumes "chain (rd_links s) (reassdatagrams s) (r # ds)" "IP_ADDRESSES_AND_ID_MATCH (rd_iphdr (reass_at s r)) h" "frag_offset h \<noteq> 0"
  shows "find_or_enqueue c env out frag h clen s = Some ((Some r, None), s)"
proof -
  have "iph_field 6 h AND IP_OFFMASK \<noteq> 0" using assms(3) by (auto simp: frag_offset_def)
  with assms find_datagram_spec [of "reass_at s" "reassdatagrams s" "[]" r ds h None] show ?thesis
    by (simp add: find_or_enqueue_def)
qed

lemma reass_rest:
  "todo \<noteq> [] \<Longrightarrow> done \<noteq> [] \<Longrightarrow> queued c s r done \<Longrightarrow> frags_ok c (pst_of s) (done @ todo) \<Longrightarrow>
    touching (map (span s) done) \<Longrightarrow> fst (span s (hd done)) = 0 \<Longrightarrow>
    off = length (datagram_bytes (pst_of s) done) \<Longrightarrow> unat (snd (span s (List.last done))) = off \<Longrightarrow>
    in_order s h0 off todo \<Longrightarrow> chain (rd_links s) (reassdatagrams s) (r # ds) \<Longrightarrow>
    rd_iphdr (reass_at s r) = h0 \<Longrightarrow> length h0 = 20 \<Longrightarrow> rd_flags (reass_at s r) AND IP_REASS_FLAG_LASTFRAG = 0 \<Longrightarrow>
    ip_reass_pbufcount s + length (pbufs_of todo) \<le> IP_REASS_MAX_PBUFS \<Longrightarrow>
    20 + length (datagram_bytes (pst_of s) (done @ todo)) < 65536 \<Longrightarrow>
    \<exists>s'. reass_all c env out frag (map fst todo) s = Some (replicate (length todo - 1) None @ [Some (fst (hd done))], s') \<and>
      packet (pst_of s') (Some (fst (hd done))) (pbufs_of (done @ todo)) \<and>
      contents (pst_of s') (pbufs_of (done @ todo)) =
        reass_hdr h0 (of_nat (20 + length (datagram_bytes (pst_of s) (done @ todo)))) @ datagram_bytes (pst_of s) (done @ todo) \<and>
      chain (rd_links s') (reassdatagrams s') ds"
proof (induction todo arbitrary: "done" s off)
  case Nil
  then show ?case by simp
next
  case (Cons f todo)
  obtain p rest where f: "f = (p, rest)" by (cases f)
  define h where "h = get_hdr p 0 20 s"
  define n where "n = length (bytes_of (pst_of s) (p, rest))"
  define fs where "fs = done @ [(p, rest)]"
  have io: "h ! 0 AND 0x0f = 5" "IP_ADDRESSES_AND_ID_MATCH h0 h" "frag_len h = of_nat n" "unat (frag_offset h) = off"
    "iph_field 6 h AND IP_MF = 0 \<longleftrightarrow> todo = []" "in_order s h0 (off + n) todo"
    using Cons.prems(9) by (simp_all add: f h_def n_def Let_def)
  have okf: "frags_ok c (pst_of s) (done @ (p, rest) # [])"
    using frags_ok_append [of c "pst_of s" "done @ [(p, rest)]" todo] Cons.prems(4) by (simp add: f)
  have fp: "frag_ok c (pst_of s) (p, rest)" using frags_okD(1) [OF okf] by simp
  have pk: "packet (pst_of s) (Some p) (p # rest)" using fp by (simp add: frag_ok_def)
  have tot: "length (datagram_bytes (pst_of s) (done @ f # todo)) = off + n + length (datagram_bytes (pst_of s) todo)"
    using Cons.prems(7) by (simp add: datagram_bytes_def n_def f)
  have off0: "0 < off"
  proof -
    obtain g gs where g: "done = g # gs" using Cons.prems(2) by (cases "done") auto
    have "frag_ok c (pst_of s) g" using frags_okD(1) [OF Cons.prems(4)] g by simp
    from bytes_pos [OF this] show ?thesis using Cons.prems(7) g by (simp add: datagram_bytes_def)
  qed
  have off: "unat (frag_offset h) + n < 65536" using Cons.prems(15) tot io(4) by simp
  have cnt: "ip_reass_pbufcount s + length (p # rest) \<le> IP_REASS_MAX_PBUFS" using Cons.prems(14) by (simp add: f)
  have "find_or_enqueue c env out frag h (length (p # rest)) s = Some ((Some r, None), s)"
    by (rule known_datagram [OF Cons.prems(10)]) (use Cons.prems(11) io(2,4) off0 in auto)
  from ip_reass_tail [OF pk _ io(1) cnt this] have tl: "ip_reass c env out frag p s = reass_tail c env h (length (p # rest)) p r None s"
    by (simp add: h_def IP_HLEN_def)
  have us: "\<forall>g \<in> set done. end_of (fst g) s \<le> frag_offset h"
  proof
    fix g assume g: "g \<in> set done"
    have so: "sorted_wrt (\<lambda>f g. end_of (fst f) s \<le> start (fst g) s) done" and he: "\<forall>f \<in> set done. unat (start (fst f) s) \<le> unat (end_of (fst f) s)"
      using Cons.prems(3) unfolding queued_def helpers_ok_def by (blast, metis le_add1)
    have le: "end_of (fst (List.last done)) s \<le> frag_offset h"
      using Cons.prems(8) io(4) by (simp add: span_def word_le_nat_alt)
    have "done = butlast done @ [List.last done]" using Cons.prems(2) by simp
    with g have "g \<in> set (butlast done @ [List.last done])" by simp
    then consider "g = List.last done" | "g \<in> set (butlast done)" by auto
    then show "end_of (fst g) s \<le> frag_offset h"
    proof cases
      case 2
      from so have "sorted_wrt (\<lambda>f g. end_of (fst f) s \<le> start (fst g) s) (butlast done @ [List.last done])" using Cons.prems(2) by simp
      with 2 have "end_of (fst g) s \<le> start (fst (List.last done)) s" unfolding sorted_wrt_append by simp
      also have "\<dots> \<le> end_of (fst (List.last done)) s" using he Cons.prems(2) by (simp add: word_le_nat_alt)
      finally show ?thesis using le by simp
    qed (use le in simp)
  qed
  have "ip_reass_pbufcount s + length (p # rest) < 65536" using cnt by (simp add: IP_REASS_MAX_PBUFS_def)
  then have cnt': "ip_reass_pbufcount s + length (p # rest) < 65536" .
  have sum1: "20 + sum_list (map (\<lambda>f. length (bytes_of (pst_of s) f)) (done @ (p, rest) # [])) < 65536"
    using Cons.prems(15) by (simp add: length_datagram_bytes f)
  define fin where "fin \<longleftrightarrow> iph_field 6 h AND IP_MF = 0"
  define fl where "fl = (if fin then rd_flags (reass_at s r) OR IP_REASS_FLAG_LASTFRAG else rd_flags (reass_at s r))"
  define dl where "dl = (if fin then frag_offset h + frag_len h else rd_datagram_len (reass_at s r))"
  define x where "x = (frag_offset h, frag_offset h + frag_len h)"
  have last_x: "snd (span s (List.last done)) = fst x" using Cons.prems(8) io(4) by (simp add: x_def word_unat_eq_iff)
  have tc: "taken_complete (map (span s) done) x []"
    using Cons.prems(2,5,6) last_x by (simp add: taken_complete_def touching_snoc last_map hd_append hd_map)
  have q': "queued c s r (done @ [])" and vs: "\<forall>g \<in> set []. unat (frag_offset h) + n \<le> unat (start (fst g) s)"
    and hh: "h = get_hdr p 0 IP_HLEN s" and ihl: "length (rd_iphdr (reass_at s r)) = 20"
    using Cons.prems(3,11,12) by (simp_all add: h_def IP_HLEN_def)
  note ts = tail_spec [OF q' okf hh n_def io(3) off us vs ihl cnt' sum1, where env = env and prev = None and ?ds1.0 = "[]" and ?ds2.0 = ds,
    folded fin_def, folded fl_def dl_def x_def]
  show ?case
  proof (cases "todo = []")
    case True
    then have fin: "fin" using io(5) by (simp add: fin_def)
    then have "fl AND IP_REASS_FLAG_LASTFRAG \<noteq> 0" using Cons.prems(13) by (simp add: fl_def bit.conj_disj_distrib2 IP_REASS_FLAG_LASTFRAG_def)
    moreover have "done @ [] \<noteq> [] \<and> snd (List.last (x # map (span s) [])) = dl"
      using Cons.prems(2) fin by (simp add: x_def dl_def)
    ultimately have "\<exists>s'. reass_tail c env h (length (p # rest)) p r None s = Some (Some (fst (hd (done @ [(p, rest)]))), s') \<and>
        packet (pst_of s') (Some (fst (hd (done @ [(p, rest)])))) (pbufs_of (done @ [(p, rest)])) \<and>
        contents (pst_of s') (pbufs_of (done @ [(p, rest)])) =
          reass_hdr (rd_iphdr (reass_at s r)) (dl + 20) @ concat (map (bytes_of (pst_of s)) (done @ [(p, rest)])) \<and>
        chain (rd_links s') (reassdatagrams s') ([] @ ds)"
      using ts tc Cons.prems(10) by (simp del: contents_simps)
    with Cons.prems(11) tl obtain s' where s': "ip_reass c env out frag p s = Some (Some (fst (hd (done @ [(p, rest)]))), s')"
      "packet (pst_of s') (Some (fst (hd (done @ [(p, rest)])))) (pbufs_of (done @ [(p, rest)]))"
      "contents (pst_of s') (pbufs_of (done @ [(p, rest)])) = reass_hdr h0 (dl + 20) @ concat (map (bytes_of (pst_of s)) (done @ [(p, rest)]))"
      "chain (rd_links s') (reassdatagrams s') ds" by auto
    have "frag_offset h = of_nat off" by (simp flip: io(4))
    moreover have "length (datagram_bytes (pst_of s) (done @ f # todo)) = off + n" using tot by (simp add: True datagram_bytes_def)
    ultimately have "dl + 20 = of_nat (20 + length (datagram_bytes (pst_of s) (done @ f # todo)))"
      using fin io(3) by (simp only: dl_def) simp
    with s' True Cons.prems(2) show ?thesis by (simp add: f datagram_bytes_def)
  next
    case False
    then have fin: "\<not> fin" using io(5) by (simp add: fin_def)
    then have fl: "fl AND IP_REASS_FLAG_LASTFRAG = 0" "fl = rd_flags (reass_at s r)" using Cons.prems(13) by (simp_all add: fl_def)
    define s0 where "s0 = s\<lparr>ip_reass_pbufcount := ip_reass_pbufcount s + length (p # rest)\<rparr>"
    from ts fl(1) tl obtain s' where s': "ip_reass c env out frag p s = Some (None, s')" "queued c s' r fs"
      "only_helpers (fst ` set fs) s0 s'" "map (span s') fs = map (span s) done @ [x]"
      "reass_at s' = (reass_at s)(r := (reass_at s r)\<lparr>rd_flags := fl, rd_datagram_len := dl, rd_p := rd_p (reass_at s' r)\<rparr>)"
      unfolding fs_def s0_def by auto
    have "frags_ok c (pst_of s0) (fs @ todo)" using Cons.prems(4) by (simp add: s0_def fs_def f)
    note ok = others_kept [OF s'(3) this]
    have bm: "map (bytes_of (pst_of s')) (fs @ todo) = map (bytes_of (pst_of s)) (fs @ todo)"
      using ok(3) by (simp add: s0_def cong: map_cong)
    then have db: "datagram_bytes (pst_of s') (fs @ todo) = datagram_bytes (pst_of s) (done @ f # todo)"
      by (simp only: datagram_bytes_def) (simp add: fs_def f)
    have dfs: "datagram_bytes (pst_of s') fs = datagram_bytes (pst_of s) fs" using bm by (simp add: datagram_bytes_def cong: map_cong)
    have lenfs: "length (datagram_bytes (pst_of s) fs) = off + n" using Cons.prems(7) by (simp add: fs_def datagram_bytes_def n_def)
    have ne: "fs \<noteq> []" by (simp add: fs_def)
    have "\<exists>s''. reass_all c env out frag (map fst todo) s' = Some (replicate (length todo - 1) None @ [Some (fst (hd fs))], s'') \<and>
      packet (pst_of s'') (Some (fst (hd fs))) (pbufs_of (fs @ todo)) \<and>
      contents (pst_of s'') (pbufs_of (fs @ todo)) =
        reass_hdr h0 (of_nat (20 + length (datagram_bytes (pst_of s') (fs @ todo)))) @ datagram_bytes (pst_of s') (fs @ todo) \<and>
      chain (rd_links s'') (reassdatagrams s'') ds"
    proof (rule Cons.IH [OF False ne s'(2) ok(1)])
      have "map (span s') fs \<noteq> []" by (simp add: fs_def)
      show "touching (map (span s') fs)" using tc Cons.prems(2) by (simp add: s'(4) taken_complete_def)
      have "fst (hd (map (span s') fs)) = 0" using Cons.prems(2,6) by (simp add: s'(4) hd_append hd_map)
      then show "fst (span s' (hd fs)) = 0" using ne by (simp add: hd_map)
      show "off + n = length (datagram_bytes (pst_of s') fs)" by (simp add: dfs lenfs)
      have "snd (List.last (map (span s') fs)) = frag_offset h + frag_len h" by (simp add: s'(4) x_def)
      then have "snd (span s' (List.last fs)) = frag_offset h + frag_len h" using ne by (simp add: last_map)
      then show "unat (snd (span s' (List.last fs))) = off + n" using io(3,4) off by (simp add: word_nat)
      show "in_order s' h0 (off + n) todo"
        using ok(2) io(6) in_order_cong [of todo s0 s h0 "off + n"] by (simp add: s0_def get_hdr_load)
      have "rd_links s' = rd_links s" by (subst s'(5)) auto
      moreover have "reassdatagrams s' = reassdatagrams s" using s'(3) by (simp add: only_helpers_def s0_def)
      ultimately show "chain (rd_links s') (reassdatagrams s') (r # ds)" using Cons.prems(10) by simp
      show "rd_iphdr (reass_at s' r) = h0" "rd_flags (reass_at s' r) AND IP_REASS_FLAG_LASTFRAG = 0"
        using Cons.prems(11) fl(1) by (subst s'(5), simp)+
      show "length h0 = 20" by (rule Cons.prems(12))
      have "ip_reass_pbufcount s' = ip_reass_pbufcount s + length (p # rest)" using s'(3) by (simp add: only_helpers_def s0_def)
      then show "ip_reass_pbufcount s' + length (pbufs_of todo) \<le> IP_REASS_MAX_PBUFS" using Cons.prems(14) by (simp add: f)
      show "20 + length (datagram_bytes (pst_of s') (fs @ todo)) < 65536" using Cons.prems(15) by (simp only: db)
    qed
    then obtain s'' where s'': "reass_all c env out frag (map fst todo) s' = Some (replicate (length todo - 1) None @ [Some (fst (hd fs))], s'')"
      "packet (pst_of s'') (Some (fst (hd fs))) (pbufs_of (fs @ todo))"
      "contents (pst_of s'') (pbufs_of (fs @ todo)) =
        reass_hdr h0 (of_nat (20 + length (datagram_bytes (pst_of s) (done @ f # todo)))) @ datagram_bytes (pst_of s) (done @ f # todo)"
      "chain (rd_links s'') (reassdatagrams s'') ds" unfolding db by blast
    have e: "fs @ todo = done @ f # todo" "fst (hd fs) = fst (hd done)" using Cons.prems(2) by (simp_all add: fs_def f)
    have "reass_all c env out frag (map fst (f # todo)) s = Some (None # replicate (length todo - 1) None @ [Some (fst (hd fs))], s'')"
      using s'(1) s''(1) by (simp add: f)
    moreover have "None # replicate (length todo - 1) None = replicate (length (f # todo) - 1) None" using False by (cases todo) auto
    ultimately show ?thesis using s''(2-4) unfolding e by (intro exI [of _ s'']) simp
  qed
qed

text \<open>The header that is kept: that of the first fragment, once it is there.\<close>

definition kept_hdr :: "u8 list \<Rightarrow> u8 list \<Rightarrow> u8 list" where
  "kept_hdr ih h = (if frag_offset h = 0 \<and> frag_offset ih \<noteq> 0 then h else ih)"

lemma offset_0: "frag_offset h = 0 \<longleftrightarrow> iph_field 6 h AND IP_OFFMASK = 0"
proof
  assume "frag_offset h = 0"
  then have "unat ((iph_field 6 h AND IP_OFFMASK) * 8) = 0" by (simp add: frag_offset_def)
  moreover have "unat (iph_field 6 h AND IP_OFFMASK) < 8192"
    using word_and_le1 [of "iph_field 6 h" IP_OFFMASK] by (simp add: IP_OFFMASK_def word_le_nat_alt)
  ultimately have "unat (iph_field 6 h AND IP_OFFMASK) = 0" by (simp add: unat_mult_lem [THEN iffD1])
  then show "iph_field 6 h AND IP_OFFMASK = 0" by (simp add: unat_eq_0)
qed (simp add: frag_offset_def)

section \<open>Properties\<close>

text \<open>Property C39: what \<^verbatim>\<open>ip_reass\<close> does with a fragment of a known datagram that overlaps none of the queued
  ones, when the pbufs in use stay below the limit.  While the last fragment is not known or the test of the code
  (\<open>taken_complete\<close>) finds a gap, the fragment is put in its place in the queue and stays there.  When the last fragment is known and the test
  finds no gap, the datagram is delivered if it has at least two fragments and the queue ends where the last fragment
  (the one without \<^verbatim>\<open>IP_MF\<close>) said: a packet with the header of the first fragment, with the length of the
  datagram, no fragment bits and a new checksum, and with the data of all fragments in order.  If the queue does not
  end there, because fragments lie behind the one without \<^verbatim>\<open>IP_MF\<close>, an assertion fails and there is no result.  The
  test does not look at the gap in front of a fragment that is put between two others, so the delivered datagram
  may lack the bytes of that gap.\<close>

theorem ip_reass_fragment:
  assumes "queued c s r (us @ vs)" and "frags_ok c (pst_of s) (us @ (p, rest) # vs)"
    and "h = get_hdr p 0 20 s" and "h ! 0 AND 0x0f = 5" and "n = length (bytes_of (pst_of s) (p, rest))"
    and "frag_len h = of_nat n" and "unat (frag_offset h) + n < 65536"
    and "\<forall>g \<in> set us. end_of (fst g) s \<le> frag_offset h" and "\<forall>g \<in> set vs. unat (frag_offset h) + n \<le> unat (start (fst g) s)"
    and "chain (rd_links s) (reassdatagrams s) (ds1 @ r # ds2)"
    and "\<forall>d \<in> set ds1. \<not> IP_ADDRESSES_AND_ID_MATCH (rd_iphdr (reass_at s d)) h"
    and "IP_ADDRESSES_AND_ID_MATCH (rd_iphdr (reass_at s r)) h" and "length (rd_iphdr (reass_at s r)) = 20"
    and "ip_reass_pbufcount s + length (p # rest) \<le> 10" and "fs = us @ (p, rest) # vs"
    and "20 + length (datagram_bytes (pst_of s) fs) < 65536" and "x = (frag_offset h, frag_offset h + frag_len h)"
    and "dl = (if iph_field 6 h AND IP_MF = 0 then snd x else rd_datagram_len (reass_at s r))"
  shows "if (iph_field 6 h AND IP_MF = 0 \<or> rd_flags (reass_at s r) AND IP_REASS_FLAG_LASTFRAG \<noteq> 0) \<and>
      taken_complete (map (span s) us) x (map (span s) vs)
    then if us @ vs \<noteq> [] \<and> snd (List.last (x # map (span s) vs)) = dl
      then \<exists>s'. ip_reass c env out frag p s = Some (Some (fst (hd fs)), s') \<and>
        packet (pst_of s') (Some (fst (hd fs))) (pbufs_of fs) \<and>
        contents (pst_of s') (pbufs_of fs) =
          reass_hdr (kept_hdr (rd_iphdr (reass_at s r)) h) (dl + 20) @ datagram_bytes (pst_of s) fs \<and>
        chain (rd_links s') (reassdatagrams s') (ds1 @ ds2)
      else ip_reass c env out frag p s = None
    else \<exists>s'. ip_reass c env out frag p s = Some (None, s') \<and> queued c s' r fs \<and>
      map (span s') fs = map (span s) us @ x # map (span s) vs"
proof -
  define ih where "ih = kept_hdr (rd_iphdr (reass_at s r)) h"
  define s1 where "s1 = upd_reass r (\<lambda>d. d\<lparr>rd_iphdr := ih\<rparr>) s"
  have lh: "length h = 20" by (simp add: assms(3) get_hdr_load)
  have pk: "packet (pst_of s) (Some p) (p # rest)" using frags_okD(1) [OF assms(2), of "(p, rest)"] by (simp add: frag_ok_def)
  have "upd_reass r (\<lambda>d. d\<lparr>rd_iphdr := rd_iphdr (reass_at s r)\<rparr>) s = s" by (simp add: upd_reass_def)
  then have fe: "find_or_enqueue c env out frag h (length (p # rest)) s = Some ((Some r, last_of None ds1), s1)"
    using find_datagram_spec [OF assms(10-12), of None] lh
    by (simp add: find_or_enqueue_def s1_def ih_def kept_hdr_def offset_0 IP_HLEN_def)
  have cnt: "ip_reass_pbufcount s + length (p # rest) \<le> IP_REASS_MAX_PBUFS" using assms(14) by (simp add: IP_REASS_MAX_PBUFS_def)
  have tl: "ip_reass c env out frag p s = reass_tail c env h (length (p # rest)) p r (last_of None ds1) s1"
    using ip_reass_tail [OF pk _ assms(4) cnt fe] assms(3) by (simp add: IP_HLEN_def)
  have st: "pst_of s1 = pst_of s" "rd_p (reass_at s1 r) = rd_p (reass_at s r)" by (simp_all add: s1_def upd_reass_def)
  note cg = queued_cong [OF st]
  have s1: "rd_iphdr (reass_at s1 r) = ih" "rd_flags (reass_at s1 r) = rd_flags (reass_at s r)" "reassdatagrams s1 = reassdatagrams s"
    "rd_datagram_len (reass_at s1 r) = rd_datagram_len (reass_at s r)" "rd_links s1 = rd_links s" "ip_reass_pbufcount s1 = ip_reass_pbufcount s"
    by (auto simp: s1_def upd_reass_def)
  have q1: "queued c s1 r (us @ vs)" "frags_ok c (pst_of s1) (us @ (p, rest) # vs)" "h = get_hdr p 0 IP_HLEN s1"
    "n = length (bytes_of (pst_of s1) (p, rest))" "\<forall>g \<in> set us. end_of (fst g) s1 \<le> frag_offset h"
    "\<forall>g \<in> set vs. unat (frag_offset h) + n \<le> unat (start (fst g) s1)" "length (rd_iphdr (reass_at s1 r)) = 20"
    "ip_reass_pbufcount s1 + length (p # rest) < 65536"
    "20 + sum_list (map (\<lambda>f. length (bytes_of (pst_of s1) f)) (us @ (p, rest) # vs)) < 65536"
    using assms lh by (simp_all add: cg st(1) IP_HLEN_def s1 ih_def kept_hdr_def length_datagram_bytes)
  define fl where "fl = (if iph_field 6 h AND IP_MF = 0 then rd_flags (reass_at s r) OR IP_REASS_FLAG_LASTFRAG else rd_flags (reass_at s r))"
  have fl: "fl AND IP_REASS_FLAG_LASTFRAG \<noteq> 0 \<longleftrightarrow> iph_field 6 h AND IP_MF = 0 \<or> rd_flags (reass_at s r) AND IP_REASS_FLAG_LASTFRAG \<noteq> 0"
    by (auto simp: fl_def bit.conj_disj_distrib2 IP_REASS_FLAG_LASTFRAG_def or_eq_0_iff)
  note ts = tail_spec [OF q1(1-4) assms(6,7) q1(5-9), where env = env and prev = "last_of None ds1" and ?ds1.0 = ds1 and ?ds2.0 = ds2,
    unfolded s1, folded fl_def, folded assms(17), folded assms(15)]
  have sp: "map (span s1) us = map (span s) us" "map (span s1) vs = map (span s) vs" by (simp_all add: cg)
  have dl: "(if iph_field 6 h AND IP_MF = 0 then frag_offset h + frag_len h else rd_datagram_len (reass_at s r)) = dl"
    by (simp only: assms(17,18) snd_conv)
  show ?thesis
    using ts [unfolded fl sp dl] assms(10) unfolding tl st datagram_bytes_def ih_def by (auto split: if_splits simp del: contents_simps List.last.simps)
qed

text \<open>Property C40: fragments of one datagram that arrive in order, while no datagram with its addresses and identification is
  pending and there is memory, are queued by the first calls; the last one returns the datagram, with the header of the
  first fragment, the total length and a checksum that verifies, and exactly the data of all fragments.\<close>

theorem ip_reass_in_order:
  assumes "frags_ok c (pst_of s) fs" and "2 \<le> length fs" and "in_order s (get_hdr (fst (hd fs)) 0 20 s) 0 fs"
    and "chain (rd_links s) (reassdatagrams s) ds"
    and "\<forall>d \<in> set ds. \<not> IP_ADDRESSES_AND_ID_MATCH (rd_iphdr (reass_at s d)) (get_hdr (fst (hd fs)) 0 20 s)"
    and "memp_malloc MEMP_REASSDATA (pbuf_pools (pst_of s)) = (Some r, pools)" and "r \<notin> set ds"
    and "ip_reass_pbufcount s + length (pbufs_of fs) \<le> 10" and "20 + length (datagram_bytes (pst_of s) fs) < 65536"
  shows "\<exists>s' hdr. reass_all c env out frag (map fst fs) s = Some (replicate (length fs - 1) None @ [Some (fst (hd fs))], s') \<and>
    packet (pst_of s') (Some (fst (hd fs))) (pbufs_of fs) \<and> contents (pst_of s') (pbufs_of fs) = hdr @ datagram_bytes (pst_of s) fs \<and>
    hdr = reass_hdr (get_hdr (fst (hd fs)) 0 20 s) (of_nat (20 + length (datagram_bytes (pst_of s) fs))) \<and>
    inet_chksum lwip_standard_chksum2 a hdr = 0 \<and> chain (rd_links s') (reassdatagrams s') ds"
proof -
  obtain p rest f2 todo where fs: "fs = (p, rest) # f2 # todo" using assms(2) by (cases fs; cases "tl fs") auto
  define h where "h = get_hdr p 0 20 s"
  define n where "n = length (bytes_of (pst_of s) (p, rest))"
  have lh: "length h = 20" by (simp add: h_def get_hdr_load)
  have io: "h ! 0 AND 0x0f = 5" "frag_len h = of_nat n" "unat (frag_offset h) = 0" "iph_field 6 h AND IP_MF \<noteq> 0"
    "in_order s h n (f2 # todo)"
    using assms(3) by (simp_all add: fs h_def n_def Let_def)
  have ok1: "frags_ok c (pst_of s) ([] @ (p, rest) # [])" using frags_ok_append [of c "pst_of s" "[(p, rest)]" "f2 # todo"] assms(1) by (simp add: fs)
  have pk: "packet (pst_of s) (Some p) (p # rest)" using frags_okD(1) [OF ok1, of "(p, rest)"] by (simp add: frag_ok_def)
  have cnt: "ip_reass_pbufcount s + length (p # rest) \<le> IP_REASS_MAX_PBUFS" using assms(8) by (simp add: IP_REASS_MAX_PBUFS_def fs)
  define d0 where "d0 = \<lparr>rd_next = reassdatagrams s, rd_p = None, rd_iphdr = h, rd_datagram_len = 0, rd_flags = 0, rd_timer = IP_REASS_MAXAGE\<rparr>"
  define s0 where "s0 = set_pst ((pst_of s)\<lparr>pbuf_pools := pools\<rparr>) s"
  define s1 where "s1 = (upd_reass r (\<lambda>_. d0) s0)\<lparr>reassdatagrams := Some r\<rparr>"
  have nomatch: "\<forall>d \<in> set ds. \<not> IP_ADDRESSES_AND_ID_MATCH (rd_iphdr (reass_at s d)) h" using assms(5) by (simp add: fs h_def)
  have "ip_reass_enqueue_new_datagram c env out frag h (length (p # rest)) s = Some (Some r, s1)"
    using lh by (simp add: ip_reass_enqueue_new_datagram_def reass_malloc_def assms(6) Let_def IP_HLEN_def s1_def s0_def d0_def) (simp add: set_pst_def)
  then have fe: "find_or_enqueue c env out frag h (length (p # rest)) s = Some ((Some r, last_of None ds), s1)"
    using find_datagram_none [OF assms(4) nomatch, of None] by (simp add: find_or_enqueue_def)
  have tl: "ip_reass c env out frag p s = reass_tail c env h (length (p # rest)) p r (last_of None ds) s1"
    using ip_reass_tail [OF pk _ io(1) cnt fe] by (simp add: h_def IP_HLEN_def)
  have st: "pbufs (pst_of s1) = pbufs (pst_of s)" "payload_bytes (pst_of s1) = payload_bytes (pst_of s)" "ip_reass_pbufcount s1 = ip_reass_pbufcount s"
    "reass_at s1 r = d0" "reassdatagrams s1 = Some r"
    by (simp_all add: s1_def s0_def upd_reass_def set_pst_def)
  have rdl: "chain (rd_links s1) (reassdatagrams s1) (r # ds)"
  proof -
    have "chain (rd_links s1) (reassdatagrams s) ds = chain (rd_links s) (reassdatagrams s) ds"
      using assms(7) by (intro chain_cong) (auto simp: s1_def s0_def upd_reass_def set_pst_def)
    then show ?thesis using assms(4) by (simp add: st d0_def)
  qed
  have by1: "bytes_of (pst_of s1) g = bytes_of (pst_of s) g" for g by (rule bytes_of_cong) (simp_all add: st)
  have gh: "get_hdr q k m s1 = get_hdr q k m s" for q k m by (simp add: get_hdr_load st)
  have q1: "queued c s1 r ([] @ [])" by (simp add: queued_def frags_ok_def helpers_ok_def st d0_def separate_def)
  have ok1': "frags_ok c (pst_of s1) ([] @ (p, rest) # [])" "h = get_hdr p 0 IP_HLEN s1" "n = length (bytes_of (pst_of s1) (p, rest))"
    "unat (frag_offset h) + n < 65536" "\<forall>g \<in> set []. end_of (fst g) s1 \<le> frag_offset h"
    "\<forall>g \<in> set []. unat (frag_offset h) + n \<le> unat (start (fst g) s1)" "length (rd_iphdr (reass_at s1 r)) = 20"
    "ip_reass_pbufcount s1 + length (p # rest) < 65536"
    "20 + sum_list (map (\<lambda>f. length (bytes_of (pst_of s1) f)) ([] @ (p, rest) # [])) < 65536"
    using ok1 frags_ok_pbufs [OF st(1)] cnt assms(9) io(3) lh
    by (simp_all add: gh by1 h_def [symmetric] n_def IP_HLEN_def st d0_def IP_REASS_MAX_PBUFS_def fs length_datagram_bytes)
  from tail_spec [OF q1 ok1'(1-3) io(2) ok1'(4-9), where env = env and prev = "last_of None ds" and ?ds1.0 = "[]" and ?ds2.0 = ds] io(4) tl obtain s2 where
    s2: "ip_reass c env out frag p s = Some (None, s2)" "queued c s2 r [(p, rest)]"
      "only_helpers (fst ` set [(p, rest)]) (s1\<lparr>ip_reass_pbufcount := ip_reass_pbufcount s1 + length (p # rest)\<rparr>) s2"
      "map (span s2) [(p, rest)] = [(frag_offset h, frag_offset h + frag_len h)]"
      "reass_at s2 = (reass_at s1)(r := (reass_at s1 r)\<lparr>rd_flags := 0, rd_datagram_len := 0, rd_p := rd_p (reass_at s2 r)\<rparr>)"
    by (auto simp: st d0_def)
  define s1' where "s1' = s1\<lparr>ip_reass_pbufcount := ip_reass_pbufcount s1 + length (p # rest)\<rparr>"
  have st': "pst_of s1' = pst_of s1" by (simp add: s1'_def)
  have oka: "frags_ok c (pst_of s1') ([(p, rest)] @ f2 # todo)" using assms(1) frags_ok_pbufs [OF st(1)] by (simp add: st' fs)
  note ok2 = others_kept [OF s2(3) [folded s1'_def] oka]
  have "datagram_bytes (pst_of s2) ([(p, rest)] @ f2 # todo) = datagram_bytes (pst_of s) fs"
    using ok2(3) by (simp add: datagram_bytes_def fs st' by1 cong: map_cong)
  note db = this
  have len1: "length (datagram_bytes (pst_of s2) [(p, rest)]) = n" using ok2(3) [of "(p, rest)"] by (simp add: datagram_bytes_def st' by1 n_def)
  have "\<exists>s'. reass_all c env out frag (map fst (f2 # todo)) s2 = Some (replicate (length (f2 # todo) - 1) None @ [Some (fst (hd [(p, rest)]))], s') \<and>
      packet (pst_of s') (Some (fst (hd [(p, rest)]))) (pbufs_of ([(p, rest)] @ f2 # todo)) \<and>
      contents (pst_of s') (pbufs_of ([(p, rest)] @ f2 # todo)) =
        reass_hdr h (of_nat (20 + length (datagram_bytes (pst_of s2) ([(p, rest)] @ f2 # todo)))) @ datagram_bytes (pst_of s2) ([(p, rest)] @ f2 # todo) \<and>
      chain (rd_links s') (reassdatagrams s') ds"
  proof (rule reass_rest [where off = n])
    show "queued c s2 r [(p, rest)]" by (rule s2(2))
    show "frags_ok c (pst_of s2) ([(p, rest)] @ f2 # todo)" by (rule ok2(1))
    show "fst (span s2 (hd [(p, rest)])) = 0" "unat (snd (span s2 (List.last [(p, rest)]))) = n"
      using s2(4) io(2,3) ok1'(4) by (simp_all add: word_nat unat_eq_0)
    show "n = length (datagram_bytes (pst_of s2) [(p, rest)])" by (rule len1 [symmetric])
    have "in_order s1' h n (f2 # todo) = in_order s h n (f2 # todo)" by (rule in_order_cong) (simp add: st' by1, simp add: s1'_def get_hdr_load st)
    then show "in_order s2 h n (f2 # todo)" using ok2(2) io(5) by simp
    have "rd_links s2 = rd_links s1" by (subst s2(5)) auto
    moreover have "reassdatagrams s2 = reassdatagrams s1" using s2(3) by (simp add: only_helpers_def)
    ultimately show "chain (rd_links s2) (reassdatagrams s2) (r # ds)" using rdl by simp
    show "rd_iphdr (reass_at s2 r) = h" "rd_flags (reass_at s2 r) AND IP_REASS_FLAG_LASTFRAG = 0"
      by (subst s2(5), simp add: st d0_def)+
    have "ip_reass_pbufcount s2 = ip_reass_pbufcount s + length (p # rest)" using s2(3) by (simp add: only_helpers_def st)
    then show "ip_reass_pbufcount s2 + length (pbufs_of (f2 # todo)) \<le> IP_REASS_MAX_PBUFS" using assms(8) by (simp add: fs IP_REASS_MAX_PBUFS_def)
    show "20 + length (datagram_bytes (pst_of s2) ([(p, rest)] @ f2 # todo)) < 65536" unfolding db by (rule assms(9))
  qed (use lh in simp_all)
  then obtain s' where s': "reass_all c env out frag (map fst (f2 # todo)) s2 = Some (replicate (length (f2 # todo) - 1) None @ [Some p], s')"
    "packet (pst_of s') (Some p) (pbufs_of fs)"
    "contents (pst_of s') (pbufs_of fs) = reass_hdr h (of_nat (20 + length (datagram_bytes (pst_of s) fs))) @ datagram_bytes (pst_of s) fs"
    "chain (rd_links s') (reassdatagrams s') ds" unfolding db by (auto simp: fs)
  have "reass_all c env out frag (map fst fs) s = Some (replicate (length fs - 1) None @ [Some p], s')"
  proof -
    have "reass_all c env out frag (map fst fs) s = do { (rs, s) \<leftarrow> reass_all c env out frag (map fst (f2 # todo)) s2; Some (None # rs, s) }"
      unfolding fs list.map fst_conv reass_all.simps(2) [of c env out frag p] s2(1) by simp
    then show ?thesis unfolding s'(1) by (simp add: fs)
  qed
  then show ?thesis using s'(2-4) reass_hdr_verifies [OF lh] unfolding h_def by (simp add: fs)
qed

text \<open>Two fragments of a datagram with 11 bytes of data, and the state when the first one is queued.\<close>

definition ex_frag_hdr :: "u8 \<Rightarrow> u8 \<Rightarrow> u8 \<Rightarrow> u8 list" where
  "ex_frag_hdr len fl off = [0x45, 0, 0, len, 0, 7, fl, off, 255, 17, 0, 0, 192, 168, 2, 2, 192, 168, 2, 1]"

definition ex_frag_st :: "u8 list \<Rightarrow> pst" where
  "ex_frag_st f = ex_st\<lparr>pbufs := (pbufs ex_st)(600 := ex_pbuf None 640 28 28, 800 := ex_pbuf None 840 23 23),
     payload_bytes := store_bytes 640 (f @ [1, 2, 3, 4, 5, 6, 7, 8])
       (store_bytes 840 (ex_frag_hdr 23 0 1 @ [9, 10, 11]) (payload_bytes ex_st)),
     pbuf_pools := \<lparr>memp_tab = [MEMP_REASSDATA \<mapsto> 300], memp_next = Map.empty\<rparr>\<rparr>"

definition ex_reass :: "u8 list \<Rightarrow> nat option \<Rightarrow> nat \<Rightarrow> frag" where
  "ex_reass f h k = raw.extend (udp.extend (ex_udp 7 None (ex_frag_st f))
       (raw.fields (\<lambda>_. \<lparr>local_ip = 0, remote_ip = 0, so_options = 0, tos = 0, ttl = 255, pcb_next = None, protocol = 0, raw_cb = None, raw_arg = 0\<rparr>) None))
     (frag.fields (\<lambda>_. \<lparr>rd_next = None, rd_p = Some 600, rd_iphdr = ex_frag_hdr 28 0x20 0, rd_datagram_len = 0, rd_flags = 0, rd_timer = 3\<rparr>) h k)"

lemma ex_reass_facts [simp]: "pst_of (ex_reass f h k) = ex_frag_st f" "reassdatagrams (ex_reass f h k) = h" "ip_reass_pbufcount (ex_reass f h k) = k"
  "reass_at (ex_reass f h k) r = \<lparr>rd_next = None, rd_p = Some 600, rd_iphdr = ex_frag_hdr 28 0x20 0, rd_datagram_len = 0, rd_flags = 0, rd_timer = 3\<rparr>"
  by (simp_all add: ex_reass_def raw.defs udp.defs frag.defs ex_udp_def ip.defs ex_ip_def arp_init_def)

lemma ex_frag_bytes:
  assumes "length f = 20"
  shows "get_hdr 600 0 20 (ex_reass f h k) = f" "bytes_of (ex_frag_st f) (600, []) = [1, 2, 3, 4, 5, 6, 7, 8]"
    "get_hdr 800 0 20 (ex_reass f h k) = ex_frag_hdr 23 0 1" "bytes_of (ex_frag_st f) (800, []) = [9, 10, 11]"
proof -
  have l: "length (ex_frag_hdr a b c) = 20" for a b c by (simp add: ex_frag_hdr_def)
  have d: "data_of (ex_frag_st f) 600 = f @ [1, 2, 3, 4, 5, 6, 7, 8]" "data_of (ex_frag_st f) 800 = ex_frag_hdr 23 0 1 @ [9, 10, 11]"
    using assms by (simp_all add: data_of_def ex_frag_st_def ex_pbuf_def load_store_same load_store_other l)
  have g: "get_hdr p 0 20 (ex_reass f h k) = take 20 (data_of (ex_frag_st f) p)" if "p \<in> {600, 800}" for p
    using that by (auto simp: get_hdr_load load_bytes_def data_of_def ex_frag_st_def ex_pbuf_def take_map)
  show "get_hdr 600 0 20 (ex_reass f h k) = f" "get_hdr 800 0 20 (ex_reass f h k) = ex_frag_hdr 23 0 1"
    using assms l by (simp_all add: g d)
  show "bytes_of (ex_frag_st f) (600, []) = [1, 2, 3, 4, 5, 6, 7, 8]" "bytes_of (ex_frag_st f) (800, []) = [9, 10, 11]"
    using assms l by (simp_all add: bytes_of_def d)
qed

lemma ex_frags_ok: "frags_ok ex_cfg (ex_frag_st f) [(600, []), (800, [])]"
  by (auto simp: frags_ok_def frag_ok_def packet_def ex_frag_st_def ex_pbuf_def separate_def region_def ptr_ok_def SIZEOF_STRUCT_PBUF_def ex_facts(7))

lemma ex_hdr_fields: "frag_len (ex_frag_hdr 28 0x20 0) = 8" "frag_offset (ex_frag_hdr 28 0x20 0) = 0" "iph_field 6 (ex_frag_hdr 28 0x20 0) AND IP_MF \<noteq> 0"
  "frag_len (ex_frag_hdr 23 0 1) = 3" "frag_offset (ex_frag_hdr 23 0 1) = 8" "iph_field 6 (ex_frag_hdr 23 0 1) AND IP_MF = 0"
  "IP_ADDRESSES_AND_ID_MATCH (ex_frag_hdr 28 0x20 0) (ex_frag_hdr 23 0 1)" "IP_ADDRESSES_AND_ID_MATCH (ex_frag_hdr 28 0x20 0) (ex_frag_hdr 28 0x20 0)"
  by (simp_all add: frag_len_def frag_offset_def iph_field_def ex_frag_hdr_def le16_def lwip_ntohs_def lwip_htons_def IP_MF_def IP_OFFMASK_def IP_ADDRESSES_AND_ID_MATCH_def)

lemma ip_reass_in_order_witness:
  "\<exists>s' hdr. reass_all ex_cfg ex_env (\<lambda>_ _ _ a. Some (ERR_OK, a)) (\<lambda>_ _ _ a. None) [600, 800] (ex_reass (ex_frag_hdr 28 0x20 0) None 0) =
      Some ([None, Some 600], s') \<and> contents (pst_of s') [600, 800] = hdr @ [1, 2, 3, 4, 5, 6, 7, 8, 9, 10, 11] \<and>
      inet_chksum lwip_standard_chksum2 0 hdr = 0"
proof -
  let ?h = "ex_frag_hdr 28 0x20 0" and ?fs = "[(600, []), (800, [])] :: (nat \<times> nat list) list"
  let ?s = "ex_reass ?h None 0"
  have l: "length ?h = 20" by (simp add: ex_frag_hdr_def)
  note B = ex_frag_bytes [OF l]
  have db: "datagram_bytes (ex_frag_st ?h) ?fs = [1, 2, 3, 4, 5, 6, 7, 8, 9, 10, 11]" by (simp add: datagram_bytes_def B)
  have h0: "?h ! 0 AND 15 = 5" "ex_frag_hdr 23 0 1 ! 0 AND 15 = 5" by (simp_all add: ex_frag_hdr_def)
  have io: "in_order ?s (get_hdr (fst (hd ?fs)) 0 20 ?s) 0 ?fs" by (simp add: B ex_hdr_fields h0)
  have "frags_ok ex_cfg (pst_of ?s) ?fs" "2 \<le> length ?fs" "chain (rd_links ?s) (reassdatagrams ?s) []"
    "\<forall>d \<in> set []. \<not> IP_ADDRESSES_AND_ID_MATCH (rd_iphdr (reass_at ?s d)) (get_hdr (fst (hd ?fs)) 0 20 ?s)"
    "memp_malloc MEMP_REASSDATA (pbuf_pools (pst_of ?s)) = (Some 300, \<lparr>memp_tab = (\<lambda>_. None), memp_next = Map.empty\<rparr>)"
    "(300 :: nat) \<notin> set []" "ip_reass_pbufcount ?s + length (pbufs_of ?fs) \<le> 10" "20 + length (datagram_bytes (pst_of ?s) ?fs) < 65536"
    using ex_frags_ok by (simp_all add: db) (simp add: ex_frag_st_def memp_malloc_def fun_eq_iff)
  from ip_reass_in_order [OF this(1,2) io this(3-8), where env = ex_env and out = "\<lambda>_ _ _ a. Some (ERR_OK, a)" and frag = "\<lambda>_ _ _ a. None" and a = 0] obtain s' hdr where
    "reass_all ex_cfg ex_env (\<lambda>_ _ _ a. Some (ERR_OK, a)) (\<lambda>_ _ _ a. None) (map fst ?fs) ?s =
      Some (replicate (length ?fs - 1) None @ [Some (fst (hd ?fs))], s')"
    "contents (pst_of s') (pbufs_of ?fs) = hdr @ datagram_bytes (pst_of ?s) ?fs" "inet_chksum lwip_standard_chksum2 0 hdr = 0"
    by (elim exE conjE)
  then show ?thesis by (intro exI [of _ s'] exI [of _ hdr]) (simp add: db del: contents_simps)
qed

lemma ip_reass_fragment_witness:
  "\<exists>s' hdr. ip_reass ex_cfg ex_env (\<lambda>_ _ _ a. Some (ERR_OK, a)) (\<lambda>_ _ _ a. None) 800
      (ex_reass ([0, 0, 0, 0, 0, 0, 8, 0] @ drop 8 (ex_frag_hdr 28 0x20 0)) (Some 300) 2) = Some (Some 600, s') \<and>
    contents (pst_of s') [600, 800] = hdr @ [1, 2, 3, 4, 5, 6, 7, 8, 9, 10, 11]"
proof -
  define f :: "u8 list" where "f = [0, 0, 0, 0, 0, 0, 8, 0] @ drop 8 (ex_frag_hdr 28 0x20 0)"
  let ?fs = "[(600, []), (800, [])] :: (nat \<times> nat list) list"
  let ?s = "ex_reass f (Some 300) 2" and ?h = "ex_frag_hdr 23 0 1"
  have l: "length f = 20" by (simp add: f_def ex_frag_hdr_def)
  note B = ex_frag_bytes [OF l]
  have part: "get_hdr 600 j m ?s = take m (drop j f)" if "j + m \<le> 20" for j m
    using get_at_part [OF that, of 600 "net_arp ?s"] B(1) by (simp add: get_hdr_def)
  have hp: "next_pbuf 600 ?s = None" "start 600 ?s = 0" "end_of 600 ?s = 8"
    unfolding next_pbuf_def start_def end_of_def by (subst part, simp, simp add: f_def ptr_of_def ip_of_def u16_of_def le16_def le32_def Let_def)+
  have db: "datagram_bytes (ex_frag_st f) ?fs = [1, 2, 3, 4, 5, 6, 7, 8, 9, 10, 11]" by (simp add: datagram_bytes_def B)
  have "frags_ok ex_cfg (pst_of ?s) [(600, [])]" using frags_ok_append [of ex_cfg "ex_frag_st f" "[(600, [])]" "[(800, [])]"] ex_frags_ok by simp
  then have q: "queued ex_cfg ?s 300 ([(600, [])] @ [])" by (simp add: queued_def helpers_ok_def hp B)
  have p: "frags_ok ex_cfg (pst_of ?s) ([(600, [])] @ (800, []) # [])" "?h = get_hdr 800 0 20 ?s" "?h ! 0 AND 0x0f = 5"
    "3 = length (bytes_of (pst_of ?s) (800, []))" "frag_len ?h = of_nat 3" "unat (frag_offset ?h) + 3 < 65536"
    "\<forall>g \<in> set [(600, [])]. end_of (fst g) ?s \<le> frag_offset ?h" "\<forall>g \<in> set []. unat (frag_offset ?h) + 3 \<le> unat (start (fst g) ?s)"
    "chain (rd_links ?s) (reassdatagrams ?s) ([] @ 300 # [])"
    "\<forall>d \<in> set []. \<not> IP_ADDRESSES_AND_ID_MATCH (rd_iphdr (reass_at ?s d)) ?h" "IP_ADDRESSES_AND_ID_MATCH (rd_iphdr (reass_at ?s 300)) ?h"
    "length (rd_iphdr (reass_at ?s 300)) = 20" "ip_reass_pbufcount ?s + length [800 :: nat] \<le> 10" "?fs = [(600, [])] @ (800, []) # []"
    "20 + length (datagram_bytes (pst_of ?s) ?fs) < 65536"
    using ex_frags_ok by (simp_all add: B hp ex_hdr_fields db) (simp_all add: ex_frag_hdr_def)
  have tc: "taken_complete (map (span ?s) [(600, [])]) (frag_offset ?h, frag_offset ?h + frag_len ?h) (map (span ?s) [])"
    by (simp add: taken_complete_def span_def hp ex_hdr_fields)
  from ip_reass_fragment [OF q p(1-15) refl, where env = ex_env and out = "\<lambda>_ _ _ a. Some (ERR_OK, a)" and frag = "\<lambda>_ _ _ a. None"] tc ex_hdr_fields(6)
  show ?thesis unfolding f_def [symmetric] by (auto simp: db simp del: contents_simps)
qed

end
