(* ===== verification/Gpio.thy ===== *)
theory Gpio
  imports Prelude
begin

text \<open>
  \<^verbatim>\<open>STM32F4xx_StdPeriph_Driver/src/stm32f4xx_gpio.c\<close>: ports and the configuration of their pins.

  A port is the record of its registers.  Two of them are not memory: a write to \<^verbatim>\<open>BSRRL\<close> sets and
  a write to \<^verbatim>\<open>BSRRH\<close> clears the bits of \<^verbatim>\<open>ODR\<close> that are ones in the value (\<open>write_BSRRL\<close>,
  \<open>write_BSRRH\<close>).  \<open>field w k r\<close> is field number \<open>k\<close> of width \<open>w\<close> of the register \<open>r\<close>.
\<close>

section \<open>Fields of registers\<close>

definition field :: "nat \<Rightarrow> nat \<Rightarrow> u32 \<Rightarrow> u32" where
  "field w k r = take_bit w (drop_bit (k * w) r)"

text \<open>The pattern \<^verbatim>\<open>r &= ~(m << p); r |= v << p\<close>.\<close>

definition put_bits :: "u32 \<Rightarrow> nat \<Rightarrow> u32 \<Rightarrow> u32 \<Rightarrow> u32" where
  "put_bits m p v r = (r AND NOT (push_bit p m)) OR push_bit p v"

lemma field_put_same:
  assumes "take_bit w v = v" "Suc k * w \<le> 32"
  shows "field w k (put_bits (mask w) (k * w) v r) = v"
proof (rule bit_word_eqI)
  fix i assume "i < LENGTH(32)"
  have "\<not> bit v i" if "w \<le> i" using arg_cong [OF assms(1), of "\<lambda>x. bit x i"] that by (simp add: bit_simps)
  with assms(2) show "bit (field w k (put_bits (mask w) (k * w) v r)) i = bit v i"
    by (auto simp: field_def put_bits_def bit_simps)
qed

lemma field_put_other:
  assumes "take_bit w v = v" "j \<noteq> k"
  shows "field w j (put_bits (mask w) (k * w) v r) = field w j r"
proof (rule bit_word_eqI)
  fix i
  have "\<not> bit v b" if "w \<le> b" for b using arg_cong [OF assms(1), of "\<lambda>x. bit x b"] that by (simp add: bit_simps)
  moreover have "Suc j * w \<le> k * w \<or> Suc k * w \<le> j * w"
    using assms(2) by (cases "j < k") (auto intro: mult_le_mono1 simp del: mult_Suc)
  ultimately show "bit (field w j (put_bits (mask w) (k * w) v r)) i = bit (field w j r) i"
    by (auto simp: field_def put_bits_def bit_simps dest: bit_imp_le_length)
qed

lemmas field_put = field_put_same field_put_other

section \<open>Ports\<close>

record gpio =
  MODER :: u32
  OTYPER :: u32
  OSPEEDR :: u32
  PUPDR :: u32
  IDR :: u32
  ODR :: u32
  LCKR :: u32
  AFR :: "nat \<Rightarrow> u32"

definition write_BSRRL :: "u16 \<Rightarrow> gpio \<Rightarrow> gpio" where
  "write_BSRRL v p = p\<lparr>ODR := ODR p OR ucast v\<rparr>"

definition write_BSRRH :: "u16 \<Rightarrow> gpio \<Rightarrow> gpio" where
  "write_BSRRH v p = p\<lparr>ODR := ODR p AND NOT (ucast v)\<rparr>"

datatype GPIOMode = GPIO_Mode_IN | GPIO_Mode_OUT | GPIO_Mode_AF | GPIO_Mode_AN

datatype GPIOOType = GPIO_OType_PP | GPIO_OType_OD

datatype GPIOSpeed = GPIO_Low_Speed | GPIO_Medium_Speed | GPIO_Fast_Speed | GPIO_High_Speed

datatype GPIOPuPd = GPIO_PuPd_NOPULL | GPIO_PuPd_UP | GPIO_PuPd_DOWN

fun mode_code :: "GPIOMode \<Rightarrow> u32" where
  "mode_code GPIO_Mode_IN = 0"
| "mode_code GPIO_Mode_OUT = 1"
| "mode_code GPIO_Mode_AF = 2"
| "mode_code GPIO_Mode_AN = 3"

fun otype_code :: "GPIOOType \<Rightarrow> u16" where
  "otype_code GPIO_OType_PP = 0"
| "otype_code GPIO_OType_OD = 1"

fun speed_code :: "GPIOSpeed \<Rightarrow> u32" where
  "speed_code GPIO_Low_Speed = 0"
| "speed_code GPIO_Medium_Speed = 1"
| "speed_code GPIO_Fast_Speed = 2"
| "speed_code GPIO_High_Speed = 3"

fun pupd_code :: "GPIOPuPd \<Rightarrow> u32" where
  "pupd_code GPIO_PuPd_NOPULL = 0"
| "pupd_code GPIO_PuPd_UP = 1"
| "pupd_code GPIO_PuPd_DOWN = 2"

record gpio_init =
  GPIO_Pin :: u32
  GPIO_Mode :: GPIOMode
  GPIO_Speed :: GPIOSpeed
  GPIO_OType :: GPIOOType
  GPIO_PuPd :: GPIOPuPd

definition GPIO_StructInit :: gpio_init where
  "GPIO_StructInit = \<lparr>GPIO_Pin = 0xFFFF, GPIO_Mode = GPIO_Mode_IN, GPIO_Speed = GPIO_Low_Speed,
     GPIO_OType = GPIO_OType_PP, GPIO_PuPd = GPIO_PuPd_NOPULL\<rparr>"

definition init_pin :: "gpio_init \<Rightarrow> nat \<Rightarrow> gpio \<Rightarrow> gpio" where
  "init_pin ini pinpos p =
     (let pos = push_bit pinpos 1; currentpin = GPIO_Pin ini AND pos
      in if currentpin = pos then
           (let p = p\<lparr>MODER := put_bits 3 (pinpos * 2) (mode_code (GPIO_Mode ini)) (MODER p)\<rparr>;
                p = (if GPIO_Mode ini = GPIO_Mode_OUT \<or> GPIO_Mode ini = GPIO_Mode_AF then
                       p\<lparr>OSPEEDR := put_bits 3 (pinpos * 2) (speed_code (GPIO_Speed ini)) (OSPEEDR p),
                         OTYPER := (OTYPER p AND NOT (push_bit pinpos 1)) OR
                           ucast (push_bit pinpos (otype_code (GPIO_OType ini)))\<rparr>
                     else p)
            in p\<lparr>PUPDR := put_bits 3 (pinpos * 2) (pupd_code (GPIO_PuPd ini)) (PUPDR p)\<rparr>)
         else p)"

fun init_pins :: "gpio_init \<Rightarrow> nat list \<Rightarrow> gpio \<Rightarrow> gpio" where
  "init_pins ini [] p = p"
| "init_pins ini (k # ks) p = init_pins ini ks (init_pin ini k p)"

definition GPIO_Init :: "gpio_init \<Rightarrow> gpio \<Rightarrow> gpio" where
  "GPIO_Init ini p = init_pins ini [0..<16] p"

text \<open>The lock sequence; the two reads at its end have no other effect.\<close>

definition GPIO_PinLockConfig :: "u16 \<Rightarrow> gpio \<Rightarrow> gpio" where
  "GPIO_PinLockConfig pin p =
     (let tmp = 0x00010000 OR ucast pin in p\<lparr>LCKR := tmp\<rparr>\<lparr>LCKR := ucast pin\<rparr>\<lparr>LCKR := tmp\<rparr>)"

definition GPIO_ReadInputDataBit :: "u16 \<Rightarrow> gpio \<Rightarrow> bool" where
  "GPIO_ReadInputDataBit pin p = (IDR p AND ucast pin \<noteq> 0)"

definition GPIO_ReadInputData :: "gpio \<Rightarrow> u16" where
  "GPIO_ReadInputData p = ucast (IDR p)"

definition GPIO_ReadOutputDataBit :: "u16 \<Rightarrow> gpio \<Rightarrow> bool" where
  "GPIO_ReadOutputDataBit pin p = (ODR p AND ucast pin \<noteq> 0)"

definition GPIO_ReadOutputData :: "gpio \<Rightarrow> u16" where
  "GPIO_ReadOutputData p = ucast (ODR p)"

definition GPIO_SetBits :: "u16 \<Rightarrow> gpio \<Rightarrow> gpio" where
  "GPIO_SetBits pin p = write_BSRRL pin p"

definition GPIO_ResetBits :: "u16 \<Rightarrow> gpio \<Rightarrow> gpio" where
  "GPIO_ResetBits pin p = write_BSRRH pin p"

definition GPIO_WriteBit :: "u16 \<Rightarrow> bool \<Rightarrow> gpio \<Rightarrow> gpio" where
  "GPIO_WriteBit pin on p = (if on then write_BSRRL pin p else write_BSRRH pin p)"

definition GPIO_Write :: "u16 \<Rightarrow> gpio \<Rightarrow> gpio" where
  "GPIO_Write v p = p\<lparr>ODR := ucast v\<rparr>"

definition GPIO_ToggleBits :: "u16 \<Rightarrow> gpio \<Rightarrow> gpio" where
  "GPIO_ToggleBits pin p = p\<lparr>ODR := ODR p XOR ucast pin\<rparr>"

definition GPIO_PinAFConfig :: "nat \<Rightarrow> u8 \<Rightarrow> gpio \<Rightarrow> gpio" where
  "GPIO_PinAFConfig src af p =
     (let sh = (src mod 8) * 4; i = src div 8; p = p\<lparr>AFR := (AFR p)(i := AFR p i AND NOT (push_bit sh 0xF))\<rparr>
      in p\<lparr>AFR := (AFR p)(i := AFR p i OR push_bit sh (ucast af))\<rparr>)"

section \<open>What is configured\<close>

lemma codes_fit [simp]:
  "take_bit 2 (mode_code m) = mode_code m" "take_bit 2 (speed_code s) = speed_code s"
  "take_bit 2 (pupd_code u) = pupd_code u"
  by (cases m, simp_all) (cases s, simp_all, cases u, simp_all)

lemma selected:
  assumes "k < 32"
  shows "GPIO_Pin ini AND push_bit k 1 = (push_bit k 1 :: u32) \<longleftrightarrow> bit (GPIO_Pin ini) k"
proof
  assume "GPIO_Pin ini AND push_bit k 1 = (push_bit k 1 :: u32)"
  from arg_cong [OF this, of "\<lambda>w. bit w k"] show "bit (GPIO_Pin ini) k" using assms by (simp add: bit_simps)
next
  assume "bit (GPIO_Pin ini) k"
  then show "GPIO_Pin ini AND push_bit k 1 = (push_bit k 1 :: u32)"
    by (intro bit_word_eqI) (auto simp: bit_simps)
qed

text \<open>The configuration of pin \<open>k\<close>: mode, output type, speed and pull-up or pull-down.\<close>

definition pin_config :: "nat \<Rightarrow> gpio \<Rightarrow> u32 \<times> u32 \<times> u32 \<times> u32" where
  "pin_config k p = (field 2 k (MODER p), field 1 k (OTYPER p), field 2 k (OSPEEDR p), field 2 k (PUPDR p))"

text \<open>What \<^verbatim>\<open>GPIO_Init\<close> makes of it; speed and type are set for outputs and alternate functions only.\<close>

definition configured :: "gpio_init \<Rightarrow> nat \<Rightarrow> gpio \<Rightarrow> u32 \<times> u32 \<times> u32 \<times> u32" where
  "configured ini k p =
     (if bit (GPIO_Pin ini) k then
        (mode_code (GPIO_Mode ini),
         if GPIO_Mode ini \<in> {GPIO_Mode_OUT, GPIO_Mode_AF} then ucast (otype_code (GPIO_OType ini)) else field 1 k (OTYPER p),
         if GPIO_Mode ini \<in> {GPIO_Mode_OUT, GPIO_Mode_AF} then speed_code (GPIO_Speed ini) else field 2 k (OSPEEDR p),
         pupd_code (GPIO_PuPd ini))
      else pin_config k p)"

lemma mask_2: "(3 :: u32) = mask 2"
  by (simp add: mask_eq_decr_exp)

lemma otype_field:
  assumes "k < 16" "j < 16"
  shows "field (Suc 0) j ((r AND NOT (2 ^ k)) OR ucast (push_bit k (otype_code t))) =
    (if j = k then ucast (otype_code t) else field (Suc 0) j r)"
proof -
  have "ucast (push_bit k (otype_code t)) = (push_bit k (ucast (otype_code t)) :: u32)"
    using assms by (cases t) (auto intro!: bit_word_eqI simp: bit_simps)
  then have "(r AND NOT (2 ^ k)) OR ucast (push_bit k (otype_code t)) =
      put_bits (mask (Suc 0)) (k * Suc 0) (ucast (otype_code t)) r" by (simp add: put_bits_def)
  moreover have "take_bit (Suc 0) (ucast (otype_code t) :: u32) = ucast (otype_code t)"
    by (cases t) simp_all
  ultimately show ?thesis using assms field_put [where w = "Suc 0"] by auto
qed

lemma init_pin_config:
  assumes "k < 16" "j < 16"
  shows "pin_config j (init_pin ini k p) = (if j = k then configured ini k p else pin_config j p)"
  using assms selected [of k ini]
  by (auto simp: init_pin_def pin_config_def configured_def Let_def mask_2 otype_field field_put [where w = 2])

lemma configured_cong:
  "pin_config k p' = pin_config k p \<Longrightarrow> configured ini k p' = configured ini k p"
  by (simp add: configured_def pin_config_def)

lemma init_pins_config:
  "distinct ks \<Longrightarrow> set ks \<subseteq> {..<16} \<Longrightarrow> j < 16 \<Longrightarrow>
    pin_config j (init_pins ini ks p) = (if j \<in> set ks then configured ini j p else pin_config j p)"
proof (induction ks arbitrary: p)
  case (Cons k ks)
  then show ?case using init_pin_config [of k j ini p]
    by (auto intro: configured_cong)
qed simp

lemma init_pins_others [frame]:
  "ODR (init_pins ini ks p) = ODR p" "AFR (init_pins ini ks p) = AFR p" "LCKR (init_pins ini ks p) = LCKR p"
  by (induction ks arbitrary: p; simp add: init_pin_def Let_def)+

text \<open>\<open>af_of k p\<close> is the alternate function of pin \<open>k\<close>.\<close>

definition af_of :: "nat \<Rightarrow> gpio \<Rightarrow> u32" where
  "af_of k p = field 4 (k mod 8) (AFR p (k div 8))"

lemma pin_af_config:
  assumes "unat af < 16"
  shows "af_of j (GPIO_PinAFConfig k af p) = (if j = k then ucast af else af_of j p)"
proof -
  have fit: "take_bit 4 (ucast af) = (ucast af :: u32)"
    using assms by (simp add: word_unat_eq_iff unsigned_take_bit_eq unsigned_ucast_eq) (simp add: take_bit_eq_mod)
  have "(0xF :: u32) = mask 4" by (simp add: mask_eq_decr_exp)
  then have afr: "AFR (GPIO_PinAFConfig k af p) =
      (AFR p)(k div 8 := put_bits (mask 4) (k mod 8 * 4) (ucast af) (AFR p (k div 8)))"
    by (simp add: GPIO_PinAFConfig_def Let_def put_bits_def)
  show ?thesis
  proof (cases "j div 8 = k div 8")
    case True
    then have "j = k \<longleftrightarrow> j mod 8 = k mod 8" by (metis div_mult_mod_eq)
    moreover have "Suc (k mod 8) * 4 \<le> 32"
      using mod_less_divisor [of 8 k] by (simp add: less_Suc_eq_le)
    ultimately show ?thesis using True fit field_put [where w = 4] by (auto simp: af_of_def afr)
  qed (auto simp: af_of_def afr)
qed

text \<open>\<^verbatim>\<open>GPIO_Init\<close> gives each of the 16 pins that the mask selects the mode, type, speed and
  pull resistor of the structure, where type and speed are left alone for inputs and analog pins;
  the other pins keep their configuration, and no output changes.\<close>

lemma gpio_init_configures:
  assumes "k < 16"
  shows "pin_config k (GPIO_Init ini p) = configured ini k p \<and> ODR (GPIO_Init ini p) = ODR p \<and>
    AFR (GPIO_Init ini p) = AFR p"
  using assms init_pins_config [of "[0..<16]" k ini p] by (simp add: GPIO_Init_def frame lessThan_atLeast0)

lemma gpio_init_configures_witness:
  "pin_config 9 (GPIO_Init (GPIO_StructInit\<lparr>GPIO_Pin := 0x200, GPIO_Mode := GPIO_Mode_OUT, GPIO_PuPd := GPIO_PuPd_UP\<rparr>) p) =
     (1, 0, 0, 1)"
proof -
  have "bit (0x200 :: u32) 9" by simp
  then show ?thesis
    using gpio_init_configures [of 9 "GPIO_StructInit\<lparr>GPIO_Pin := 0x200, GPIO_Mode := GPIO_Mode_OUT, GPIO_PuPd := GPIO_PuPd_UP\<rparr>" p]
    by (simp add: configured_def GPIO_StructInit_def)
qed

lemma gpio_output_bit:
  assumes "bit pin k"
  shows "bit (ODR (GPIO_SetBits pin p)) k" "\<not> bit (ODR (GPIO_ResetBits pin p)) k"
  using assms by (auto simp: GPIO_SetBits_def GPIO_ResetBits_def write_BSRRL_def write_BSRRH_def bit_simps
      dest: bit_imp_le_length)

end
