(* ===== verification/Board.thy ===== *)
theory Board
  imports Gpio
begin

text \<open>
  The firmware of the board: start-up (\<^verbatim>\<open>CMSIS/system_stm32f4xx.c\<close>, \<^verbatim>\<open>sys_init.c\<close>, \<^verbatim>\<open>fun.c\<close>), the
  time base (\<^verbatim>\<open>asyn.c\<close>), the LED (\<^verbatim>\<open>led.c\<close>) and the main loop (\<^verbatim>\<open>user/main.c\<close>), with the functions of
  the standard peripheral library and of CMSIS they call (\<^verbatim>\<open>misc.c\<close>, \<^verbatim>\<open>stm32f4xx_rcc.c\<close>,
  \<^verbatim>\<open>stm32f4xx_iwdg.c\<close>, \<^verbatim>\<open>core_cm4.h\<close>), for the build of the project file: \<^verbatim>\<open>STM32F40_41xxx\<close>, HSE 25 MHz.

  The hardware that start-up waits for is a parameter: \<open>hse n\<close>, \<open>pll n\<close> and \<open>sw n\<close> tell whether the
  \<open>n\<close>-th read of the register sees the oscillator ready, the PLL ready and the switch done.  The
  read-only status field \<^verbatim>\<open>SWS\<close> of \<^verbatim>\<open>CFGR\<close> is kept in \<open>SWS\<close>.
\<close>

section \<open>State\<close>

record iwdg =
  KR :: u32
  PR :: u32
  RLR :: u32
  SR :: u32
  counter :: nat
  running :: bool
  reset :: bool

record board =
  CR :: u32
  PLLCFGR :: u32
  CFGR :: u32
  SWS :: u32
  CIR :: u32
  AHB1ENR :: u32
  APB1ENR :: u32
  PWR_CR :: u32
  FLASH_ACR :: u32
  VTOR :: u32
  AIRCR :: u32
  CPACR :: u32
  SCR :: u32
  SHP :: "nat \<Rightarrow> u8"
  IP :: "nat \<Rightarrow> u8"
  ISER :: "nat \<Rightarrow> u32"
  SysTick_LOAD :: u32
  SysTick_VAL :: u32
  SysTick_CTRL :: u32
  PRIMASK :: bool
  GPIOF :: gpio
  IWDG :: iwdg
  jiffies :: u32
  led_run_time :: u32

section \<open>Watchdog\<close>

text \<open>The effect of a key: \<open>0xAAAA\<close> loads the counter, \<open>0xCCCC\<close> starts it; \<^verbatim>\<open>PR\<close> and \<^verbatim>\<open>RLR\<close> can be
  written while the last key was \<open>0x5555\<close>.\<close>

definition write_KR :: "u16 \<Rightarrow> iwdg \<Rightarrow> iwdg" where
  "write_KR k w =
     (let w = w\<lparr>KR := ucast k\<rparr>
      in if k = 0xAAAA then w\<lparr>counter := unat (RLR w)\<rparr>
         else if k = 0xCCCC then w\<lparr>running := True\<rparr> else w)"

definition IWDG_WriteAccessCmd :: "u16 \<Rightarrow> iwdg \<Rightarrow> iwdg" where
  "IWDG_WriteAccessCmd a w = write_KR a w"

definition IWDG_SetPrescaler :: "u8 \<Rightarrow> iwdg \<Rightarrow> iwdg" where
  "IWDG_SetPrescaler p w = (if KR w = 0x5555 then w\<lparr>PR := ucast p\<rparr> else w)"

definition IWDG_SetReload :: "u16 \<Rightarrow> iwdg \<Rightarrow> iwdg" where
  "IWDG_SetReload r w = (if KR w = 0x5555 then w\<lparr>RLR := ucast r\<rparr> else w)"

definition IWDG_ReloadCounter :: "iwdg \<Rightarrow> iwdg" where
  "IWDG_ReloadCounter w = write_KR 0xAAAA w"

definition IWDG_Enable :: "iwdg \<Rightarrow> iwdg" where
  "IWDG_Enable w = write_KR 0xCCCC w"

definition IWDG_GetFlagStatus :: "u16 \<Rightarrow> iwdg \<Rightarrow> bool" where
  "IWDG_GetFlagStatus f w = (SR w AND ucast f \<noteq> 0)"

definition IWDG_config :: "board \<Rightarrow> board" where
  "IWDG_config b =
     (let w = IWDG_WriteAccessCmd 0x5555 (IWDG b); w = IWDG_SetPrescaler 3 w; w = IWDG_SetReload 2000 w
      in b\<lparr>IWDG := w\<rparr>)"

definition watchdog_enable :: "board \<Rightarrow> board" where
  "watchdog_enable b = b\<lparr>IWDG := IWDG_Enable (IWDG b)\<rparr>"

definition watchdog_feed :: "board \<Rightarrow> board" where
  "watchdog_feed b = b\<lparr>IWDG := IWDG_ReloadCounter (IWDG b)\<rparr>"

section \<open>Clocks\<close>

definition HSE_VALUE :: u32 where "HSE_VALUE = 25000000"

definition HSI_VALUE :: u32 where "HSI_VALUE = 16000000"

text \<open>The \<open>do\<close> loop that waits for the oscillator: \<open>n\<close> reads so far; the result is the number of reads.\<close>

partial_function (option) hse_wait :: "(nat \<Rightarrow> bool) \<Rightarrow> nat \<Rightarrow> nat option" where
  "hse_wait hse n = (if \<not> hse n \<and> Suc n \<noteq> 0x5000 then hse_wait hse (Suc n) else Some (Suc n))"

text \<open>A loop \<^verbatim>\<open>while (flag is not set) {}\<close>.\<close>

partial_function (option) wait_flag :: "(nat \<Rightarrow> bool) \<Rightarrow> nat \<Rightarrow> unit option" where
  "wait_flag flag n = (if flag n then Some () else wait_flag flag (Suc n))"

definition SetSysClock :: "(nat \<Rightarrow> bool) \<Rightarrow> (nat \<Rightarrow> bool) \<Rightarrow> (nat \<Rightarrow> bool) \<Rightarrow> board \<Rightarrow> board option" where
  "SetSysClock hse pll sw b =
     (let b = b\<lparr>CR := CR b OR 0x00010000\<rparr>
      in case hse_wait hse 0 of
           None \<Rightarrow> None
         | Some n \<Rightarrow>
             if hse n then
               (let b = b\<lparr>APB1ENR := APB1ENR b OR 0x10000000\<rparr>;
                    b = b\<lparr>PWR_CR := PWR_CR b OR 0xC000\<rparr>;
                    b = b\<lparr>CFGR := CFGR b OR 0\<rparr>;
                    b = b\<lparr>CFGR := CFGR b OR 0x8000\<rparr>;
                    b = b\<lparr>CFGR := CFGR b OR 0x1400\<rparr>;
                    b = b\<lparr>PLLCFGR := 25 OR push_bit 6 336 OR push_bit 16 (drop_bit 1 2 - 1) OR 0x00400000 OR push_bit 24 7\<rparr>;
                    b = b\<lparr>CR := CR b OR 0x01000000\<rparr>
                in case wait_flag pll 0 of
                     None \<Rightarrow> None
                   | Some _ \<Rightarrow>
                       (let b = b\<lparr>FLASH_ACR := 0x100 OR 0x200 OR 0x400 OR 5\<rparr>;
                            b = b\<lparr>CFGR := CFGR b AND NOT 3\<rparr>;
                            b = b\<lparr>CFGR := CFGR b OR 2\<rparr>
                        in case wait_flag sw 0 of None \<Rightarrow> None | Some _ \<Rightarrow> Some (b\<lparr>SWS := 8\<rparr>)))
             else Some b)"

text \<open>The floating-point unit of the project file is switched on first.  \<^verbatim>\<open>CFGR := 0\<close> selects the
  internal oscillator, which is on by then, as system clock: the hardware shows it in \<^verbatim>\<open>SWS\<close>.\<close>

definition SystemInit :: "(nat \<Rightarrow> bool) \<Rightarrow> (nat \<Rightarrow> bool) \<Rightarrow> (nat \<Rightarrow> bool) \<Rightarrow> board \<Rightarrow> board option" where
  "SystemInit hse pll sw b =
     (let b = b\<lparr>CPACR := CPACR b OR (push_bit 20 3 OR push_bit 22 3)\<rparr>;
          b = b\<lparr>CR := CR b OR 1\<rparr>;
          b = b\<lparr>CFGR := 0, SWS := 0\<rparr>;
          b = b\<lparr>CR := CR b AND 0xFEF6FFFF\<rparr>;
          b = b\<lparr>PLLCFGR := 0x24003010\<rparr>;
          b = b\<lparr>CR := CR b AND 0xFFFBFFFF\<rparr>;
          b = b\<lparr>CIR := 0\<rparr>
      in case SetSysClock hse pll sw b of None \<Rightarrow> None | Some b \<Rightarrow> Some (b\<lparr>VTOR := 0x08000000\<rparr>))"

record rcc_clocks =
  SYSCLK_Frequency :: u32
  HCLK_Frequency :: u32
  PCLK1_Frequency :: u32
  PCLK2_Frequency :: u32

definition APBAHBPrescTable :: "nat list" where
  "APBAHBPrescTable = [0, 0, 0, 0, 1, 2, 3, 4, 1, 2, 3, 4, 6, 7, 8, 9]"

definition presc :: "u32 \<Rightarrow> nat \<Rightarrow> board \<Rightarrow> nat" where
  "presc m p b = APBAHBPrescTable ! unat (drop_bit p (CFGR b AND m))"

definition sysclk :: "board \<Rightarrow> u32" where
  "sysclk b =
     (let tmp = SWS b AND 0xC
      in if tmp = 0 then HSI_VALUE
         else if tmp = 4 then HSE_VALUE
         else if tmp = 8 then
           (let pllsource = drop_bit 22 (PLLCFGR b AND 0x00400000);
                pllm = PLLCFGR b AND 0x3F;
                pllvco = (if pllsource \<noteq> 0 then HSE_VALUE else HSI_VALUE) div pllm * drop_bit 6 (PLLCFGR b AND 0x7FC0);
                pllp = (drop_bit 16 (PLLCFGR b AND 0x00030000) + 1) * 2
            in pllvco div pllp)
         else HSI_VALUE)"

definition RCC_GetClocksFreq :: "board \<Rightarrow> rcc_clocks" where
  "RCC_GetClocksFreq b =
     (let h = drop_bit (presc 0xF0 4 b) (sysclk b)
      in \<lparr>SYSCLK_Frequency = sysclk b, HCLK_Frequency = h,
          PCLK1_Frequency = drop_bit (presc 0x1C00 10 b) h, PCLK2_Frequency = drop_bit (presc 0xE000 13 b) h\<rparr>)"

definition RCC_AHB1PeriphClockCmd :: "u32 \<Rightarrow> bool \<Rightarrow> board \<Rightarrow> board" where
  "RCC_AHB1PeriphClockCmd p enable b =
     b\<lparr>AHB1ENR := (if enable then AHB1ENR b OR p else AHB1ENR b AND NOT p)\<rparr>"

section \<open>Interrupts and the system timer\<close>

definition NVIC_PriorityGroupConfig :: "u32 \<Rightarrow> board \<Rightarrow> board" where
  "NVIC_PriorityGroupConfig g b = b\<lparr>AIRCR := 0x05FA0000 OR g\<rparr>"

text \<open>System exceptions have negative numbers; four priority bits.\<close>

definition NVIC_SetPriority :: "int \<Rightarrow> u32 \<Rightarrow> board \<Rightarrow> board" where
  "NVIC_SetPriority irq prio b =
     (let v = ucast (push_bit 4 prio AND 0xFF)
      in if irq < 0 then b\<lparr>SHP := (SHP b)(unat ((of_int irq :: u32) AND 0xF) - 4 := v)\<rparr>
         else b\<lparr>IP := (IP b)(nat irq := v)\<rparr>)"

text \<open>Unselected bits of \<^verbatim>\<open>ISER\<close> keep their value; \<^verbatim>\<open>ICER\<close> clears them.  The computation is in \<^verbatim>\<open>uint8_t\<close>.\<close>

record nvic_init =
  NVIC_IRQChannel :: u8
  NVIC_IRQChannelPreemptionPriority :: u8
  NVIC_IRQChannelSubPriority :: u8
  NVIC_IRQChannelCmd :: bool

definition NVIC_Init :: "nvic_init \<Rightarrow> board \<Rightarrow> board" where
  "NVIC_Init ini b =
     (let i = unat (drop_bit 5 (NVIC_IRQChannel ini)); m = push_bit (unat (NVIC_IRQChannel ini AND 0x1F)) 1
      in if NVIC_IRQChannelCmd ini then
           (let tmppriority = ucast (drop_bit 8 (0x700 - (AIRCR b AND 0x700))) :: u8;
                tmppre = 4 - tmppriority;
                tmpsub = drop_bit (unat tmppriority) (0xF :: u8);
                tmppriority = push_bit (unat tmppre) (NVIC_IRQChannelPreemptionPriority ini);
                tmppriority = tmppriority OR (NVIC_IRQChannelSubPriority ini AND tmpsub);
                tmppriority = push_bit 4 tmppriority
            in b\<lparr>IP := (IP b)(unat (NVIC_IRQChannel ini) := tmppriority), ISER := (ISER b)(i := ISER b i OR m)\<rparr>)
         else b\<lparr>ISER := (ISER b)(i := ISER b i AND NOT m)\<rparr>)"

definition NVIC_SetVectorTable :: "u32 \<Rightarrow> u32 \<Rightarrow> board \<Rightarrow> board" where
  "NVIC_SetVectorTable tab offset b = b\<lparr>VTOR := tab OR (offset AND 0x1FFFFF80)\<rparr>"

definition NVIC_SystemLPConfig :: "u8 \<Rightarrow> bool \<Rightarrow> board \<Rightarrow> board" where
  "NVIC_SystemLPConfig m enable b =
     b\<lparr>SCR := (if enable then SCR b OR ucast m else SCR b AND NOT (ucast m))\<rparr>"

definition SysTick_CLKSourceConfig :: "u32 \<Rightarrow> board \<Rightarrow> board" where
  "SysTick_CLKSourceConfig src b =
     b\<lparr>SysTick_CTRL := (if src = 4 then SysTick_CTRL b OR 4 else SysTick_CTRL b AND 0xFFFFFFFB)\<rparr>"

text \<open>\<open>True\<close> is the return value 0.\<close>

definition SysTick_Config :: "u32 \<Rightarrow> board \<Rightarrow> bool \<times> board" where
  "SysTick_Config ticks b =
     (if ticks - 1 > 0xFFFFFF then (False, b)
      else let b = b\<lparr>SysTick_LOAD := ticks - 1\<rparr>;
               b = NVIC_SetPriority (-1) (push_bit 4 1 - 1) b;
               b = b\<lparr>SysTick_VAL := 0\<rparr>
           in (True, b\<lparr>SysTick_CTRL := 4 OR 2 OR 1\<rparr>))"

section \<open>Time base\<close>

definition SysTick_Handler :: "board \<Rightarrow> board" where
  "SysTick_Handler b = b\<lparr>jiffies := jiffies b + 1\<rparr>"

definition SysTick_init :: "board \<Rightarrow> board" where
  "SysTick_init b =
     (let b = b\<lparr>jiffies := 0\<rparr>; c = RCC_GetClocksFreq b in snd (SysTick_Config (HCLK_Frequency c div 100) b))"

text \<open>The interrupt may come between two reads of \<^verbatim>\<open>jiffies\<close>: \<open>j0\<close> and \<open>j1\<close> are what they see.\<close>

definition jiffies_before :: "u32 \<Rightarrow> u32 \<Rightarrow> u32 \<Rightarrow> u32" where
  "jiffies_before j0 j1 bef = (if j0 \<ge> bef then j0 - bef else j1 + NOT bef)"

definition jiffies_get :: "board \<Rightarrow> u32" where
  "jiffies_get b = jiffies b"

section \<open>LED\<close>

definition LED_ON :: "board \<Rightarrow> board" where
  "LED_ON b = b\<lparr>GPIOF := GPIO_ResetBits 0x200 (GPIOF b)\<rparr>"

definition LED_OFF :: "board \<Rightarrow> board" where
  "LED_OFF b = b\<lparr>GPIOF := GPIO_SetBits 0x200 (GPIOF b)\<rparr>"

text \<open>\<open>rd k\<close> is what read number \<open>k\<close> of \<^verbatim>\<open>jiffies\<close> in this call sees.\<close>

definition led_run_proc :: "(nat \<Rightarrow> u32) \<Rightarrow> board \<Rightarrow> board" where
  "led_run_proc rd b =
     (if jiffies_before (rd 0) (rd 1) (led_run_time b) \<ge> 100 then (LED_OFF b)\<lparr>led_run_time := rd 2\<rparr>
      else if jiffies_before (rd 2) (rd 3) (led_run_time b) \<ge> 50 then LED_ON b
      else b)"

text \<open>Type and pull resistor are fields of the structure that are never assigned.\<close>

definition led_init :: "GPIOOType \<Rightarrow> GPIOPuPd \<Rightarrow> board \<Rightarrow> board" where
  "led_init otype pupd b =
     b\<lparr>GPIOF := GPIO_Init \<lparr>GPIO_Pin = 0x200, GPIO_Mode = GPIO_Mode_OUT, GPIO_Speed = GPIO_Fast_Speed,
        GPIO_OType = otype, GPIO_PuPd = pupd\<rparr> (GPIOF b)\<rparr>"

section \<open>Start-up and main loop\<close>

definition disable_irq :: "board \<Rightarrow> board" where
  "disable_irq b = b\<lparr>PRIMASK := True\<rparr>"

definition enable_irq :: "board \<Rightarrow> board" where
  "enable_irq b = b\<lparr>PRIMASK := False\<rparr>"

definition NVIC_config :: "board \<Rightarrow> board" where
  "NVIC_config b = NVIC_PriorityGroupConfig 0x700 b"

definition RCC_config :: "(nat \<Rightarrow> bool) \<Rightarrow> (nat \<Rightarrow> bool) \<Rightarrow> (nat \<Rightarrow> bool) \<Rightarrow> board \<Rightarrow> board option" where
  "RCC_config hse pll sw b =
     (case SystemInit hse pll sw b of None \<Rightarrow> None | Some b \<Rightarrow> Some (RCC_AHB1PeriphClockCmd 0x20 True b))"

definition system_init ::
    "(nat \<Rightarrow> bool) \<Rightarrow> (nat \<Rightarrow> bool) \<Rightarrow> (nat \<Rightarrow> bool) \<Rightarrow> GPIOOType \<Rightarrow> GPIOPuPd \<Rightarrow> board \<Rightarrow> board option" where
  "system_init hse pll sw otype pupd b =
     (case RCC_config hse pll sw b of
        None \<Rightarrow> None
      | Some b \<Rightarrow>
          (let b = NVIC_config b;
               b = disable_irq b;
               b = IWDG_config b;
               b = SysTick_init b;
               b = led_init otype pupd b;
               b = enable_irq b;
               b = watchdog_enable b
           in Some (watchdog_feed b)))"

text \<open>One turn of the loop in \<^verbatim>\<open>main\<close>.\<close>

definition main_loop :: "(nat \<Rightarrow> u32) \<Rightarrow> board \<Rightarrow> board" where
  "main_loop rd b = led_run_proc rd (watchdog_feed b)"

section \<open>Elapsed time\<close>

text \<open>\<^verbatim>\<open>Jiffies_before\<close> returns the ticks since \<open>bef\<close>, up to \<open>2 ^ 32 - 1\<close> of them, but one too few
  when the counter has wrapped in between.\<close>

lemma jiffies_before_exact:
  "jiffies_before (bef + d) (bef + d) bef = (if bef \<le> bef + d then d else d - 1)"
  by (simp add: jiffies_before_def not_eq_complement)

section \<open>Waiting for the hardware\<close>

lemma hse_wait_never: "n < 0x5000 \<Longrightarrow> (\<And>i. i \<le> 0x5000 \<Longrightarrow> \<not> hse i) \<Longrightarrow> hse_wait hse n = Some 0x5000"
proof (induction "0x5000 - n" arbitrary: n)
  case (Suc k)
  show ?case
  proof (cases "Suc n = 0x5000")
    case True
    with Suc.prems show ?thesis by (subst hse_wait.simps) simp
  next
    case False
    with Suc show ?thesis by (subst hse_wait.simps) simp
  qed
qed simp

lemma hse_wait_ready:
  "n \<le> k \<Longrightarrow> k < 0x5000 \<Longrightarrow> (\<And>i. hse i \<longleftrightarrow> k \<le> i) \<Longrightarrow> hse_wait hse n = Some (Suc k)"
proof (induction "k - n" arbitrary: n)
  case (Suc m)
  from Suc.hyps(2) Suc.prems show ?case by (subst hse_wait.simps) (simp add: Suc.hyps(1))
next
  case 0
  then show ?case by (subst hse_wait.simps) simp
qed

lemma wait_flag_ends: "n \<le> k \<Longrightarrow> flag k \<Longrightarrow> wait_flag flag n = Some ()"
proof (induction "k - n" arbitrary: n)
  case (Suc m)
  then show ?case by (subst wait_flag.simps) simp
next
  case 0
  then show ?case by (subst wait_flag.simps) simp
qed

text \<open>The oscillator is ready from read \<open>k\<close> on, before the time-out.\<close>

lemma SetSysClock_pll:
  assumes "\<And>i. hse i \<longleftrightarrow> k \<le> i" "k < 0x5000" "pll i" "sw j"
  shows "\<exists>b'. SetSysClock hse pll sw b = Some b' \<and> PLLCFGR b' = 0x07405419 \<and> SWS b' = 8 \<and>
    CFGR b' = ((CFGR b OR 0x9400) AND NOT 3) OR 2"
  using hse_wait_ready [of 0 k hse] wait_flag_ends [of 0 i pll] wait_flag_ends [of 0 j sw] assms
  by (simp add: SetSysClock_def Let_def or.assoc)

lemma SetSysClock_hsi:
  assumes "\<And>i. i \<le> 0x5000 \<Longrightarrow> \<not> hse i"
  shows "SetSysClock hse pll sw b = Some (b\<lparr>CR := CR b OR 0x00010000\<rparr>)"
  using hse_wait_never [of 0 hse] assms by (simp add: SetSysClock_def Let_def)

lemma clocks_cong:
  "CFGR b' = CFGR b \<Longrightarrow> SWS b' = SWS b \<Longrightarrow> PLLCFGR b' = PLLCFGR b \<Longrightarrow> RCC_GetClocksFreq b' = RCC_GetClocksFreq b"
  by (simp only: RCC_GetClocksFreq_def sysclk_def presc_def)

lemma SysTick_init_clocks [simp]: "RCC_GetClocksFreq (SysTick_init b) = RCC_GetClocksFreq b"
  by (rule clocks_cong) (simp_all add: SysTick_init_def SysTick_Config_def NVIC_SetPriority_def Let_def)

text \<open>The timer interrupts a hundred times a second.\<close>

definition ticks_100Hz :: "board \<Rightarrow> bool" where
  "ticks_100Hz b \<longleftrightarrow> (SysTick_LOAD b + 1) * 100 = HCLK_Frequency (RCC_GetClocksFreq b) \<and> SysTick_CTRL b = 7"

lemma SysTick_init_ticks:
  assumes "HCLK_Frequency (RCC_GetClocksFreq b) = 168000000 \<or> HCLK_Frequency (RCC_GetClocksFreq b) = 16000000"
  shows "ticks_100Hz (SysTick_init b)"
proof -
  have "RCC_GetClocksFreq (b\<lparr>jiffies := 0\<rparr>) = RCC_GetClocksFreq b" by (rule clocks_cong) simp_all
  with assms show ?thesis
    unfolding ticks_100Hz_def SysTick_init_clocks
    by (auto simp: SysTick_init_def SysTick_Config_def NVIC_SetPriority_def Let_def)
qed

lemma clocks_pll:
  assumes "PLLCFGR b = 0x07405419" "SWS b = 8" "CFGR b = 0x9402"
  shows "RCC_GetClocksFreq b = \<lparr>SYSCLK_Frequency = 168000000, HCLK_Frequency = 168000000,
    PCLK1_Frequency = 42000000, PCLK2_Frequency = 84000000\<rparr>"
  using assms by (simp add: RCC_GetClocksFreq_def sysclk_def presc_def APBAHBPrescTable_def HSE_VALUE_def)

lemma clocks_hsi:
  assumes "SWS b = 0" "CFGR b = 0"
  shows "RCC_GetClocksFreq b = \<lparr>SYSCLK_Frequency = 16000000, HCLK_Frequency = 16000000,
    PCLK1_Frequency = 16000000, PCLK2_Frequency = 16000000\<rparr>"
  using assms by (simp add: RCC_GetClocksFreq_def sysclk_def presc_def APBAHBPrescTable_def HSI_VALUE_def)

lemma init_frames [frame]:
  "RCC_GetClocksFreq (led_init t u b) = RCC_GetClocksFreq b" "RCC_GetClocksFreq (IWDG_config b) = RCC_GetClocksFreq b"
  "RCC_GetClocksFreq (watchdog_feed b) = RCC_GetClocksFreq b" "RCC_GetClocksFreq (watchdog_enable b) = RCC_GetClocksFreq b"
  "RCC_GetClocksFreq (enable_irq b) = RCC_GetClocksFreq b" "RCC_GetClocksFreq (disable_irq b) = RCC_GetClocksFreq b"
  "RCC_GetClocksFreq (NVIC_config b) = RCC_GetClocksFreq b"
  by (rule clocks_cong; simp add: led_init_def IWDG_config_def watchdog_feed_def watchdog_enable_def enable_irq_def
      disable_irq_def NVIC_config_def NVIC_PriorityGroupConfig_def Let_def)+

lemma ticks_frames [frame]:
  "ticks_100Hz (led_init t u b) = ticks_100Hz b" "ticks_100Hz (watchdog_feed b) = ticks_100Hz b"
  "ticks_100Hz (watchdog_enable b) = ticks_100Hz b" "ticks_100Hz (enable_irq b) = ticks_100Hz b"
  unfolding ticks_100Hz_def frame
  by (simp_all add: led_init_def watchdog_feed_def watchdog_enable_def enable_irq_def)

lemma system_init_ticks:
  assumes "RCC_config hse pll sw b = Some b1"
    and "HCLK_Frequency (RCC_GetClocksFreq b1) = 168000000 \<or> HCLK_Frequency (RCC_GetClocksFreq b1) = 16000000"
  shows "\<exists>b'. system_init hse pll sw t u b = Some b' \<and> ticks_100Hz b' \<and> RCC_GetClocksFreq b' = RCC_GetClocksFreq b1"
  using assms SysTick_init_ticks [of "IWDG_config (disable_irq (NVIC_config b1))"]
  by (simp add: system_init_def Let_def frame)

text \<open>The clocks of the two outcomes.\<close>

lemma RCC_config_pll:
  assumes "\<And>i. hse i \<longleftrightarrow> k \<le> i" "k < 0x5000" "pll i" "sw j"
  shows "\<exists>b'. RCC_config hse pll sw b = Some b' \<and> HCLK_Frequency (RCC_GetClocksFreq b') = 168000000"
proof -
  let ?b = "b\<lparr>CPACR := CPACR b OR (push_bit 20 3 OR push_bit 22 3), CFGR := 0, SWS := 0, PLLCFGR := 0x24003010, CR := ((CR b OR 1) AND 0xFEF6FFFF) AND 0xFFFBFFFF, CIR := 0\<rparr>"
  from SetSysClock_pll [of hse k pll i sw j ?b, OF assms] obtain b1 where
    "SetSysClock hse pll sw ?b = Some b1" and b1: "PLLCFGR b1 = 0x07405419" "SWS b1 = 8" "CFGR b1 = 0x9402" by auto
  then have "RCC_config hse pll sw b = Some (RCC_AHB1PeriphClockCmd 0x20 True (b1\<lparr>VTOR := 0x08000000\<rparr>))"
    by (simp add: RCC_config_def SystemInit_def Let_def)
  moreover have "RCC_GetClocksFreq (RCC_AHB1PeriphClockCmd 0x20 True (b1\<lparr>VTOR := 0x08000000\<rparr>)) = RCC_GetClocksFreq b1"
    by (rule clocks_cong) (simp_all add: RCC_AHB1PeriphClockCmd_def)
  ultimately show ?thesis by (simp add: clocks_pll [OF b1])
qed

lemma RCC_config_hsi:
  assumes "\<And>i. i \<le> 0x5000 \<Longrightarrow> \<not> hse i"
  shows "\<exists>b'. RCC_config hse pll sw b = Some b' \<and> HCLK_Frequency (RCC_GetClocksFreq b') = 16000000"
proof -
  let ?b = "b\<lparr>CPACR := CPACR b OR (push_bit 20 3 OR push_bit 22 3), CFGR := 0, SWS := 0,
    PLLCFGR := 0x24003010, CIR := 0,
    CR := ((CR b OR 1) AND 0xFEF6FFFF) AND 0xFFFBFFFF OR 0x00010000, VTOR := 0x08000000\<rparr>"
  from SetSysClock_hsi [of hse, OF assms]
  have "RCC_config hse pll sw b = Some (RCC_AHB1PeriphClockCmd 0x20 True ?b)"
    by (simp add: RCC_config_def SystemInit_def Let_def)
  moreover have "RCC_GetClocksFreq (RCC_AHB1PeriphClockCmd 0x20 True ?b) = RCC_GetClocksFreq ?b"
    by (rule clocks_cong) (simp_all add: RCC_AHB1PeriphClockCmd_def)
  ultimately show ?thesis by (simp add: clocks_hsi)
qed

text \<open>The external oscillator starts before the time-out and then the PLL locks and the switch is done, or it
  does not start before the time-out.\<close>

definition oscillator :: "(nat \<Rightarrow> bool) \<Rightarrow> (nat \<Rightarrow> bool) \<Rightarrow> (nat \<Rightarrow> bool) \<Rightarrow> bool" where
  "oscillator hse pll sw \<longleftrightarrow> (\<forall>i \<le> 0x5000. \<not> hse i) \<or>
     (\<exists>k < 0x5000. \<forall>i. hse i \<longleftrightarrow> k \<le> i) \<and> (\<exists>i. pll i) \<and> (\<exists>j. sw j)"

text \<open>For the witnesses: all registers are zero.\<close>

definition ex_board :: board where
  "ex_board = \<lparr>CR = 0, PLLCFGR = 0, CFGR = 0, SWS = 0, CIR = 0, AHB1ENR = 0, APB1ENR = 0, PWR_CR = 0, FLASH_ACR = 0,
     VTOR = 0, AIRCR = 0, CPACR = 0, SCR = 0, SHP = (\<lambda>_. 0), IP = (\<lambda>_. 0), ISER = (\<lambda>_. 0), SysTick_LOAD = 0, SysTick_VAL = 0,
     SysTick_CTRL = 0, PRIMASK = False,
     GPIOF = \<lparr>MODER = 0, OTYPER = 0, OSPEEDR = 0, PUPDR = 0, IDR = 0, ODR = 0, LCKR = 0, AFR = (\<lambda>_. 0)\<rparr>,
     IWDG = \<lparr>KR = 0, PR = 0, RLR = 0xFFF, SR = 0, counter = 0, running = False, reset = False\<rparr>,
     jiffies = 0, led_run_time = 0\<rparr>"

lemma ex_board_simps [simp]:
  "reset (IWDG ex_board) = False" "jiffies ex_board = 0" "led_run_time ex_board = 0"
  by (simp_all add: ex_board_def)

text \<open>Property C22: from any state of the registers, so also when the start-up file has run
  \<^verbatim>\<open>SystemInit\<close> before and the PLL is the system clock already, start-up ends and leaves a timer that
  interrupts a hundred times a second: on the PLL at 168 MHz or, when the external oscillator is not seen
  ready in the 0x5000 reads before the time-out, on the internal one at 16 MHz.  The hardware does its part
  (\<open>oscillator\<close>): an oscillator seen ready stays ready, and then the PLL locks and the switch to it is done.\<close>

theorem system_init_100Hz:
  assumes "oscillator hse pll sw"
  shows "\<exists>b'. system_init hse pll sw t u b = Some b' \<and> SysTick_CTRL b' = 7 \<and>
    HCLK_Frequency (RCC_GetClocksFreq b') = (if hse 0x5000 then 168000000 else 16000000) \<and>
    (SysTick_LOAD b' + 1) * 100 = HCLK_Frequency (RCC_GetClocksFreq b')"
proof -
  have "\<exists>b1. RCC_config hse pll sw b = Some b1 \<and>
      HCLK_Frequency (RCC_GetClocksFreq b1) = (if hse 0x5000 then 168000000 else 16000000)"
  proof (cases "\<forall>i \<le> 0x5000. \<not> hse i")
    case True
    then show ?thesis using RCC_config_hsi [of hse pll sw b] by simp
  next
    case False
    then obtain k i j where "\<And>i. hse i \<longleftrightarrow> k \<le> i" "k < 0x5000" "pll i" "sw j"
      using assms by (auto simp: oscillator_def)
    then show ?thesis using RCC_config_pll [of hse k pll i sw j b] by simp
  qed
  then show ?thesis using system_init_ticks by (fastforce simp: ticks_100Hz_def split: if_splits)
qed

lemma system_init_100Hz_witness:
  "\<exists>b'. system_init (\<lambda>i. 3 \<le> i) (\<lambda>i. i = 7) (\<lambda>i. i = 2) GPIO_OType_PP GPIO_PuPd_UP ex_board = Some b' \<and>
     (SysTick_LOAD b' + 1) * 100 = 168000000"
proof -
  have "\<exists>k < 0x5000. \<forall>i. (3 :: nat) \<le> i \<longleftrightarrow> k \<le> i" by (rule exI [of _ 3]) simp
  then have "oscillator (\<lambda>i. 3 \<le> i) (\<lambda>i. i = 7) (\<lambda>i. i = 2)" by (auto simp: oscillator_def)
  from system_init_100Hz [OF this, of GPIO_OType_PP GPIO_PuPd_UP ex_board]
  obtain b' where b': "system_init (\<lambda>i. 3 \<le> i) (\<lambda>i. i = 7) (\<lambda>i. i = 2) GPIO_OType_PP GPIO_PuPd_UP ex_board = Some b'"
    "(SysTick_LOAD b' + 1) * 100 = 168000000" by auto
  then show ?thesis by blast
qed

section \<open>Runs of the firmware\<close>

text \<open>A clock of the watchdog: at zero it resets the board.\<close>

definition watchdog_clock :: "board \<Rightarrow> board" where
  "watchdog_clock b =
     (let w = IWDG b
      in if running w then b\<lparr>IWDG := w\<lparr>counter := counter w - 1, reset := reset w \<or> counter w \<le> 1\<rparr>\<rparr> else b)"

datatype event = Tick | Watchdog_Clock | Loop

fun step :: "event \<Rightarrow> board \<Rightarrow> board" where
  "step Tick b = SysTick_Handler b"
| "step Watchdog_Clock b = watchdog_clock b"
| "step Loop b = main_loop (\<lambda>_. jiffies b) b"

text \<open>At most \<open>n\<close> watchdog clocks pass between two turns of the loop, \<open>k\<close> since the last.\<close>

fun fed :: "nat \<Rightarrow> nat \<Rightarrow> event list \<Rightarrow> bool" where
  "fed n k [] = True"
| "fed n k (Watchdog_Clock # es) = (k < n \<and> fed n (Suc k) es)"
| "fed n k (Loop # es) = fed n 0 es"
| "fed n k (Tick # es) = fed n k es"

text \<open>Every tick is followed by a turn of the loop before the next one.\<close>

fun polled :: "bool \<Rightarrow> event list \<Rightarrow> bool" where
  "polled seen [] = seen"
| "polled seen (Tick # es) = (seen \<and> polled False es)"
| "polled seen (Loop # es) = polled True es"
| "polled seen (Watchdog_Clock # es) = polled seen es"

fun ticks :: "event list \<Rightarrow> nat" where
  "ticks [] = 0"
| "ticks (Tick # es) = Suc (ticks es)"
| "ticks (_ # es) = ticks es"

text \<open>The watchdog with \<open>k\<close> clocks since it was fed.\<close>

definition wd_inv :: "nat \<Rightarrow> board \<Rightarrow> bool" where
  "wd_inv k b \<longleftrightarrow> running (IWDG b) \<and> RLR (IWDG b) = 2000 \<and> counter (IWDG b) = 2000 - k \<and> \<not> reset (IWDG b) \<and> k < 2000"

lemma wd_frames [frame]:
  "IWDG (SysTick_Handler b) = IWDG b" "IWDG (LED_ON b) = IWDG b" "IWDG (LED_OFF b) = IWDG b"
  "IWDG (led_run_proc rd b) = IWDG b" "IWDG (led_init t u b) = IWDG b" "IWDG (SysTick_init b) = IWDG b"
  "IWDG (enable_irq b) = IWDG b" "IWDG (disable_irq b) = IWDG b" "IWDG (NVIC_config b) = IWDG b"
  by (simp_all add: SysTick_Handler_def LED_ON_def LED_OFF_def led_run_proc_def led_init_def SysTick_init_def
      SysTick_Config_def NVIC_SetPriority_def enable_irq_def disable_irq_def NVIC_config_def NVIC_PriorityGroupConfig_def Let_def)

lemma wd_step:
  "wd_inv k b \<Longrightarrow> wd_inv k (step Tick b)" "wd_inv k b \<Longrightarrow> wd_inv 0 (step Loop b)"
  "wd_inv k b \<Longrightarrow> Suc k < 2000 \<Longrightarrow> wd_inv (Suc k) (step Watchdog_Clock b)"
  "wd_inv 1999 b \<Longrightarrow> reset (IWDG (step Watchdog_Clock b))"
  by (auto simp: wd_inv_def frame main_loop_def watchdog_feed_def IWDG_ReloadCounter_def write_KR_def watchdog_clock_def Let_def)

lemma reset_stays: "reset (IWDG b) \<Longrightarrow> reset (IWDG (fold step es b))"
proof (induction es arbitrary: b)
  case (Cons x xs)
  have "reset (IWDG (step x b))" using Cons.prems
    by (cases x) (auto simp: frame main_loop_def watchdog_feed_def IWDG_ReloadCounter_def write_KR_def watchdog_clock_def Let_def)
  then show ?case using Cons.IH by simp
qed simp

lemma wd_run: "wd_inv k b \<Longrightarrow> reset (IWDG (fold step es b)) \<longleftrightarrow> \<not> fed 1999 k es"
proof (induction "1999 :: nat" k es arbitrary: b rule: fed.induct)
  case (2 k es)
  show ?case
  proof (cases "k < 1999")
    case True
    then show ?thesis using 2 wd_step(3) by simp
  next
    case False
    then have "k = 1999" using "2.prems" by (simp add: wd_inv_def)
    then show ?thesis using "2.prems" wd_step(4) reset_stays by simp
  qed
next
  case (3 k es)
  then show ?case using wd_step(2) by simp
next
  case (4 k es)
  then show ?case using wd_step(1) by simp
qed (simp add: wd_inv_def)

definition led_on :: "board \<Rightarrow> bool" where
  "led_on b \<longleftrightarrow> \<not> bit (ODR (GPIOF b)) 9"

lemma led_frames [simp]:
  "led_on (LED_ON b)" "\<not> led_on (LED_OFF b)" "led_on (b\<lparr>led_run_time := r\<rparr>) = led_on b" "led_on (b\<lparr>IWDG := w\<rparr>) = led_on b"
  "led_on (b\<lparr>jiffies := j\<rparr>) = led_on b"
  "jiffies (LED_ON b) = jiffies b" "jiffies (LED_OFF b) = jiffies b"
  "led_run_time (LED_ON b) = led_run_time b" "led_run_time (LED_OFF b) = led_run_time b"
  by (simp_all add: led_on_def LED_ON_def LED_OFF_def gpio_output_bit)

lemma jiffies_before_nat:
  "r \<le> T \<Longrightarrow> T < 2 ^ 32 \<Longrightarrow> jiffies_before (of_nat T) j (of_nat r) = of_nat (T - r)"
  by (simp add: jiffies_before_def word_le_nat_alt unat_of_nat)

text \<open>\<open>T\<close> ticks have passed; the loop has last run at tick \<open>u\<close>, which is \<open>T\<close> or the tick before.\<close>

definition blink :: "nat \<Rightarrow> nat \<Rightarrow> board \<Rightarrow> bool" where
  "blink T u b \<longleftrightarrow> jiffies b = of_nat T \<and> led_run_time b = of_nat (u - u mod 100) \<and> u \<le> T \<and> T \<le> Suc u \<and>
     (50 \<le> u \<longrightarrow> (led_on b \<longleftrightarrow> 50 \<le> u mod 100))"

lemma blink_loop:
  assumes "blink T u b" "T < 2 ^ 32"
  shows "blink T T (step Loop b)"
proof -
  from assms have u: "u \<le> T" "T \<le> Suc u" and b: "jiffies b = of_nat T" "led_run_time b = of_nat (u - u mod 100)"
    and led: "50 \<le> u \<Longrightarrow> led_on b \<longleftrightarrow> 50 \<le> u mod 100" by (auto simp: blink_def)
  define d where "d = T - (u - u mod 100)"
  have d: "d \<le> 100" "d = u mod 100 + (T - u)" using u mod_less_divisor [of 100 u] by (auto simp: d_def less_Suc_eq_le)
  have el: "jiffies_before (jiffies b) (jiffies b) (led_run_time (watchdog_feed b)) = of_nat d"
    using jiffies_before_nat [of "u - u mod 100" T "of_nat T"] u assms(2) by (simp add: b d_def watchdog_feed_def)
  have cmp: "(of_nat d :: u32) \<ge> 100 \<longleftrightarrow> d = 100" "(of_nat d :: u32) \<ge> 50 \<longleftrightarrow> 50 \<le> d"
    using d(1) by (auto simp: word_le_nat_alt unat_of_nat)
  have run: "step Loop b = (if d = 100 then (LED_OFF (watchdog_feed b))\<lparr>led_run_time := jiffies b\<rparr>
      else if 50 \<le> d then LED_ON (watchdog_feed b) else watchdog_feed b)"
    by (simp add: main_loop_def led_run_proc_def el cmp)
  have fd: "jiffies (watchdog_feed b) = jiffies b" "led_run_time (watchdog_feed b) = led_run_time b"
    "led_on (watchdog_feed b) = led_on b" by (simp_all add: watchdog_feed_def)
  have div: "u = 100 * (u div 100) + u mod 100" "u mod 100 < 100" by simp_all
  have T: "T = 100 * (u div 100) + d" using d(2) u div(1) by linarith
  show ?thesis
  proof (cases "d = 100")
    case True
    then have "T mod 100 = 0" unfolding T by simp
    then show ?thesis using True b unfolding blink_def run by (simp add: fd)
  next
    case False
    then have Td: "T mod 100 = d" using d(1) unfolding T by simp
    have r: "T - d = u - u mod 100" using T div(1) by linarith
    have off: "50 \<le> u \<and> u mod 100 < 50" if "50 \<le> T" "d < 50"
    proof -
      have "u div 100 \<noteq> 0" using that T by (cases "u div 100 = 0") simp_all
      then have "1 \<le> u div 100" by linarith
      then show ?thesis using that d(2) div by linarith
    qed
    show ?thesis
    proof (cases "50 \<le> d")
      case True
      then show ?thesis using False b unfolding blink_def run Td r by (simp add: fd)
    next
      case below: False
      then have "led_on b = (50 \<le> d)" if "50 \<le> T" using that off led by simp
      then show ?thesis using False below b unfolding blink_def run Td r by (simp add: fd)
    qed
  qed
qed

lemma blink_run:
  "blink T u b \<Longrightarrow> polled (u = T) es \<Longrightarrow> T + ticks es < 2 ^ 32 \<Longrightarrow>
    blink (T + ticks es) (T + ticks es) (fold step es b)"
proof (induction es arbitrary: T u b)
  case (Cons x xs)
  show ?case
  proof (cases x)
    case Tick
    with Cons.prems have "u = T" by simp
    with Cons.prems(1) have "blink (Suc T) T (step Tick b)" by (simp add: blink_def SysTick_Handler_def)
    from Cons.IH [OF this] Cons.prems(2,3) Tick show ?thesis by simp
  next
    case Watchdog_Clock
    with Cons.prems(1) have "blink T u (step Watchdog_Clock b)"
      by (simp add: blink_def watchdog_clock_def Let_def)
    from Cons.IH [OF this] Cons.prems(2,3) Watchdog_Clock show ?thesis by simp
  next
    case Loop
    from blink_loop [OF Cons.prems(1)] Cons.prems(3) have "blink T T (step Loop b)" by simp
    from Cons.IH [OF this] Cons.prems(2,3) Loop show ?thesis by simp
  qed
qed (auto simp: blink_def)

lemma init_iwdg:
  assumes "system_init hse pll sw t u b = Some b'" "\<not> reset (IWDG b)"
  shows "wd_inv 0 b'"
proof -
  obtain b1 where "RCC_config hse pll sw b = Some b1" using assms(1) by (auto simp: system_init_def split: option.splits)
  moreover from this have "IWDG b1 = IWDG b"
    by (auto simp: RCC_config_def SystemInit_def SetSysClock_def Let_def RCC_AHB1PeriphClockCmd_def
        split: option.splits if_splits)
  ultimately show ?thesis using assms
    by (auto simp: system_init_def Let_def wd_inv_def frame watchdog_feed_def watchdog_enable_def IWDG_config_def
        IWDG_WriteAccessCmd_def IWDG_SetPrescaler_def IWDG_SetReload_def IWDG_Enable_def IWDG_ReloadCounter_def write_KR_def)
qed

text \<open>Property C23: after start-up the watchdog resets the board exactly when two thousand of its clocks pass without a
  turn of the main loop.\<close>

theorem watchdog_guards_loop:
  assumes "system_init hse pll sw t u b = Some b'" and "\<not> reset (IWDG b)"
  shows "reset (IWDG (fold step es b')) \<longleftrightarrow> \<not> fed 1999 0 es"
  using wd_run [OF init_iwdg [OF assms]] .

lemma watchdog_guards_loop_witness:
  "\<exists>b'. system_init (\<lambda>_. False) (\<lambda>_. False) (\<lambda>_. False) GPIO_OType_PP GPIO_PuPd_UP ex_board = Some b' \<and>
     \<not> reset (IWDG (fold step [Watchdog_Clock, Loop, Tick] b'))"
proof -
  from RCC_config_hsi [of "\<lambda>_. False" "\<lambda>_. False" "\<lambda>_. False" ex_board]
  obtain b' where "system_init (\<lambda>_. False) (\<lambda>_. False) (\<lambda>_. False) GPIO_OType_PP GPIO_PuPd_UP ex_board = Some b'"
    using system_init_ticks by fastforce
  moreover have "fed 1999 0 [Watchdog_Clock, Loop, Tick]" by simp
  ultimately show ?thesis using watchdog_guards_loop [of _ _ _ _ _ ex_board] by fastforce
qed

text \<open>When the loop runs at least once in every tick, the LED is on in the second half of every second (a
  hundred ticks), until the tick counter wraps around.\<close>

lemma led_blinks:
  assumes "jiffies b = 0" and "led_run_time b = 0" and "polled True es"
    and "50 \<le> ticks es" and "ticks es < 2 ^ 32"
  shows "led_on (fold step es b) \<longleftrightarrow> 50 \<le> ticks es mod 100"
proof -
  have "blink 0 0 b" using assms(1,2) by (simp add: blink_def)
  from blink_run [OF this] assms(3-5) show ?thesis by (simp add: blink_def)
qed

lemma led_blinks_witness:
  "led_on (fold step (concat (replicate 50 [Tick, Loop])) ex_board)"
proof -
  have "polled True (concat (replicate n [Tick, Loop])) \<and> ticks (concat (replicate n [Tick, Loop])) = n" for n
    by (induction n) auto
  then show ?thesis
    using led_blinks [of ex_board "concat (replicate 50 [Tick, Loop])"] by simp
qed

end
