(* ===== verification/App.thy ===== *)
theory App
  imports Pbuf_Data
begin

text \<open>
  The applications of the firmware: the UDP receiver of \<^verbatim>\<open>lwip/ports/app_udp.c\<close> and the TCP server of
  \<^verbatim>\<open>lwip/ports/app_tcp.c\<close>.  Both collect the first 256 bytes of what they receive in a \<^verbatim>\<open>struct rcev_buf\<close>.

  The buffers of the TCP connections are a map from addresses; freeing one that is not allocated has the
  result \<open>None\<close>.  The calls a handler makes into the TCP layer are part of its result.
\<close>

section \<open>The buffer\<close>

definition MAX_STRING :: nat where "MAX_STRING = 256"

record rcev_buf =
  rb_length :: nat
  rb_bytes :: "u8 list"

definition empty_buf :: rcev_buf where
  "empty_buf = \<lparr>rb_length = 0, rb_bytes = replicate MAX_STRING 0\<rparr>"

definition store_byte :: "u8 \<Rightarrow> rcev_buf \<Rightarrow> rcev_buf" where
  "store_byte b buf =
     (if rb_length buf < MAX_STRING
      then \<lparr>rb_length = rb_length buf + 1, rb_bytes = (rb_bytes buf)[rb_length buf := b]\<rparr> else buf)"

text \<open>The inner loop takes the bytes of one pbuf in turn, the outer one follows \<^verbatim>\<open>next\<close>.\<close>

partial_function (option) collect :: "nat option \<Rightarrow> pst \<Rightarrow> rcev_buf \<Rightarrow> rcev_buf option" where
  "collect q st buf =
     (case q of
        None \<Rightarrow> Some buf
      | Some a \<Rightarrow> collect (p_next (pbufs st a)) st
          (fold store_byte (load_bytes (p_payload (pbufs st a)) (p_len (pbufs st a)) (payload_bytes st)) buf))"

section \<open>UDP\<close>

definition UDP_Receive :: "pbuf_cfg \<Rightarrow> pbuf_env \<Rightarrow> nat option \<Rightarrow> pst \<Rightarrow> (rcev_buf \<times> pst) option" where
  "UDP_Receive c env p st =
     (case collect p st empty_buf of
        None \<Rightarrow> None
      | Some buf \<Rightarrow> (case pbuf_free c env p st of None \<Rightarrow> None | Some (_, st) \<Rightarrow> Some (buf, st)))"

section \<open>TCP\<close>

datatype tcp_call = Call_tcp_close | Call_tcp_abort

type_synonym bufs = "nat \<Rightarrow> rcev_buf option"

text \<open>\<^verbatim>\<open>mem_free\<close> of a connection's buffer.\<close>

definition free_buf :: "nat option \<Rightarrow> bufs \<Rightarrow> bufs option" where
  "free_buf a bs = (case a of None \<Rightarrow> Some bs | Some a \<Rightarrow> if bs a = None then None else Some (bs(a := None)))"

definition app_tcp_poll :: "bool \<Rightarrow> tcp_call list \<times> err_t" where
  "app_tcp_poll pcb = (if pcb then [Call_tcp_abort] else [], ERR_OK)"

definition app_tcp_conn_err :: "nat option \<Rightarrow> bufs \<Rightarrow> bufs option" where
  "app_tcp_conn_err arg bs = free_buf arg bs"

definition app_tcp_recv ::
    "pbuf_cfg \<Rightarrow> pbuf_env \<Rightarrow> nat option \<Rightarrow> nat option \<Rightarrow> err_t \<Rightarrow> bufs \<Rightarrow> pst \<Rightarrow> (err_t \<times> tcp_call list \<times> bufs \<times> pst) option" where
  "app_tcp_recv c env arg p err bs st =
     (case p of
        Some _ \<Rightarrow>
          (case arg of
             None \<Rightarrow> (case pbuf_free c env p st of None \<Rightarrow> None | Some (_, st) \<Rightarrow> Some (err, [], bs, st))
           | Some a \<Rightarrow>
               (case bs a of
                  None \<Rightarrow> None
                | Some buf \<Rightarrow>
                    (case collect p st buf of
                       None \<Rightarrow> None
                     | Some buf \<Rightarrow>
                         (case pbuf_free c env p st of
                            None \<Rightarrow> None
                          | Some (_, st) \<Rightarrow> Some (ERR_OK, [], bs(a \<mapsto> buf), st)))))
      | None \<Rightarrow>
          (case (if err = ERR_OK then free_buf arg bs else Some bs) of
             None \<Rightarrow> None
           | Some bs \<Rightarrow>
               (case pbuf_free c env None st of
                  None \<Rightarrow> None
                | Some (_, st) \<Rightarrow> Some (ERR_OK, if err = ERR_OK then [Call_tcp_close] else [], bs, st))))"

text \<open>\<open>a\<close> is what \<^verbatim>\<open>mem_calloc\<close> returns; it becomes the argument of all other handlers.\<close>

definition app_tcp_accept :: "nat option \<Rightarrow> err_t \<Rightarrow> bufs \<Rightarrow> nat option \<times> err_t \<times> bufs" where
  "app_tcp_accept a err bs =
     (a, err, case a of None \<Rightarrow> bs | Some a \<Rightarrow> bs(a \<mapsto> empty_buf))"

section \<open>What is stored\<close>

definition buf_ok :: "rcev_buf \<Rightarrow> bool" where
  "buf_ok buf \<longleftrightarrow> length (rb_bytes buf) = MAX_STRING \<and> rb_length buf \<le> MAX_STRING"

definition stored :: "rcev_buf \<Rightarrow> u8 list" where
  "stored buf = take (rb_length buf) (rb_bytes buf)"

lemma empty_buf_ok: "buf_ok empty_buf" "stored empty_buf = []"
  by (simp_all add: buf_ok_def empty_buf_def stored_def)

lemma store_byte_ok:
  assumes "buf_ok buf"
  shows "buf_ok (store_byte b buf)" "stored (store_byte b buf) = take MAX_STRING (stored buf @ [b])"
  using assms by (auto simp: buf_ok_def store_byte_def stored_def take_Suc_conv_app_nth)

lemma take_again: "take n (take n xs @ ys) = take n (xs @ ys)"
  by (cases "length xs \<le> n") simp_all

lemma fold_store:
  "buf_ok buf \<Longrightarrow> buf_ok (fold store_byte bs buf) \<and> stored (fold store_byte bs buf) = take MAX_STRING (stored buf @ bs)"
proof (induction bs arbitrary: buf)
  case Nil
  then show ?case by (simp add: buf_ok_def stored_def)
next
  case (Cons b bs)
  note B = store_byte_ok [OF Cons.prems, of b]
  from Cons.IH [OF B(1)] show ?case by (simp add: B(2) take_again del: take_append)
qed

lemma collect_spec:
  "chain (links st) p xs \<Longrightarrow> buf_ok buf \<Longrightarrow>
    \<exists>buf'. collect p st buf = Some buf' \<and> buf_ok buf' \<and> stored buf' = take MAX_STRING (stored buf @ contents st xs)"
proof (induction xs arbitrary: p buf)
  case Nil
  then show ?case by (simp add: collect.simps buf_ok_def stored_def)
next
  case (Cons a xs)
  from Cons.prems(1) have p: "p = Some a" "chain (links st) (links st a) xs" by auto
  note F = fold_store [OF Cons.prems(2), of "data_of st a"]
  from Cons.IH [OF p(2), of "fold store_byte (data_of st a) buf"] F show ?case
    by (subst collect.simps) (auto simp: p data_of_def [symmetric] take_again simp del: take_append)
qed

text \<open>Property C24: the UDP receiver ends, keeps the first 256 bytes of the packet, never writes behind its buffer, and
  frees the packet.\<close>

theorem udp_receive_stores:
  assumes "chain (links st) p xs" and "held st xs fl"
  shows "\<exists>buf st'. UDP_Receive c env p st = Some (buf, st') \<and> stored buf = take 256 (contents st xs) \<and>
    length (rb_bytes buf) = 256 \<and> rb_length buf \<le> 256 \<and> pools_ok (pbuf_pools st') (freed_lists st xs fl)"
proof -
  obtain n st' where "pbuf_free c env p st = Some (n, st')" "pools_ok (pbuf_pools st') (freed_lists st xs fl)"
    using pbuf_free_loop_spec [OF assms(1), of fl 0 c env] assms(2)
    by (cases p) (auto simp: held_def pbuf_free_def freed_lists_def sole_def)
  with collect_spec [OF assms(1) empty_buf_ok(1)] show ?thesis
    by (auto simp: UDP_Receive_def buf_ok_def empty_buf_ok MAX_STRING_def)
qed

lemma udp_receive_stores_witness:
  "\<exists>buf st'. UDP_Receive ex_cfg ex_env (Some 600) ex_st = Some (buf, st') \<and> stored buf = take 256 (contents ex_st [600, 800])"
  using udp_receive_stores [OF packetD(1) [OF ex_facts(4)] ex_facts(5)] by blast

text \<open>A TCP connection's buffer never overflows: each segment is appended to what is stored and the whole
  cut off at 256 bytes.\<close>

lemma app_tcp_recv_stores:
  assumes "chain (links st) (Some p) xs" and "held st xs fl" and "bs a = Some buf" and "buf_ok buf"
  shows "\<exists>buf' st'. app_tcp_recv c env (Some a) (Some p) err bs st = Some (ERR_OK, [], bs(a \<mapsto> buf'), st') \<and>
    buf_ok buf' \<and> stored buf' = take 256 (stored buf @ contents st xs)"
proof -
  obtain n st' where "pbuf_free c env (Some p) st = Some (n, st')"
    using pbuf_free_loop_spec [OF assms(1), of fl 0 c env] assms(2) by (auto simp: held_def pbuf_free_def)
  with collect_spec [OF assms(1,4)] assms(3) show ?thesis by (auto simp: app_tcp_recv_def MAX_STRING_def)
qed

lemma app_tcp_recv_stores_witness:
  "\<exists>buf' st'. app_tcp_recv ex_cfg ex_env (Some 7) (Some 600) ERR_OK [7 \<mapsto> empty_buf] ex_st =
     Some (ERR_OK, [], [7 \<mapsto> buf'], st') \<and> stored buf' = take 256 (contents ex_st [600, 800])"
  using app_tcp_recv_stores [OF packetD(1) [OF ex_facts(4)] ex_facts(5), of "[7 \<mapsto> empty_buf]" 7]
  by (fastforce simp: empty_buf_ok)

text \<open>When the peer has closed, the buffer is freed but stays the argument of the connection: if the connection is
  aborted afterwards, as \<^verbatim>\<open>app_tcp_poll\<close> does, the error handler frees it again.\<close>

lemma app_tcp_double_free:
  assumes "app_tcp_recv c env (Some a) None ERR_OK bs st = Some (r, calls, bs', st')"
  shows "calls = [Call_tcp_close] \<and> app_tcp_conn_err (Some a) bs' = None"
  using assms by (auto simp: app_tcp_recv_def free_buf_def app_tcp_conn_err_def split: option.splits if_splits)

end
