(* ===== verification/Spec2Isabelle.thy ===== *)
theory Spec2Isabelle
  imports Inet_Chksum Fsm_Spec Md5_Spec Mem_Spec Timers Ip_Addr Asn1 Slip_Spec Eth_Spec Ip_Reass Board App
begin

text \<open>
  Verification of the STM32F407 bare metal firmware and its network stack.

  \<^bold>\<open>The program.\<close>  The repository is firmware for an STM32F407 board: start-up code, a tick counter, a
  watchdog and a blinking LED (\<^verbatim>\<open>src/*.c\<close>, \<^verbatim>\<open>src/user/main.c\<close>) on top of ST's peripheral library, an
  Ethernet driver (\<^verbatim>\<open>STM32F4x7_ETH_Driver\<close>, \<^verbatim>\<open>lwip/ports\<close>) and an edited copy of lwIP 1.4 with two small
  applications.  A frame goes from the DMA descriptors through \<^verbatim>\<open>ETH_IRQHandler\<close> and \<^verbatim>\<open>low_level_input\<close>
  into a chain of pbufs, whose memory comes from the pools and the heap, and from there up the stack;
  the protocols use the timeout list, the Internet checksum and the address functions.

  \<^bold>\<open>The theories.\<close>
  \<^item> \<open>Prelude\<close>: machine types, error codes and the facts on words that all theories share.
  \<^item> \<open>Chksum\<close>, \<open>Inet_Chksum\<close>: \<^verbatim>\<open>core/def.c\<close> and \<^verbatim>\<open>core/ipv4/inet_chksum.c\<close>.  The locale \<open>chksum_alg\<close> is
    what the code relies on of \<^verbatim>\<open>LWIP_CHKSUM\<close>; the three implementations of the file are its
    interpretations, so they agree, and the sums over pbuf chains are proved inside it.
  \<^item> \<open>Mem\<close>, \<open>Mem_Spec\<close>: the heap of \<^verbatim>\<open>core/mem.c\<close> as a list of blocks; allocation is first fit, freeing
    merges neighbours, every operation keeps the heap well formed.
  \<^item> \<open>Memp\<close>: the pools of \<^verbatim>\<open>core/memp.c\<close> as lists of free elements; the locale \<open>elem_pool\<close> is what their
    users rely on.
  \<^item> \<open>Timers\<close>: \<^verbatim>\<open>core/timers.c\<close>; the list of time differences refines a list of deadlines.
  \<^item> \<open>Pbuf\<close>, \<open>Pbuf_Spec\<close>, \<open>Pbuf_Data\<close>: \<^verbatim>\<open>core/pbuf.c\<close>.  A packet is a chain of pbufs with the
    \<^verbatim>\<open>tot_len\<close> invariant and the byte list it holds; the operations are functions of that list, and
    what they allocate and free is described by the free lists of the pools.
  \<^item> \<open>Ip_Addr\<close>: \<^verbatim>\<open>core/ipv4/ip_addr.c\<close>, parsing, printing, netmasks and broadcast addresses.
  \<^item> \<open>Eth\<close>, \<open>Eth_Spec\<close>: the Ethernet driver, \<^verbatim>\<open>lan8720.c\<close> and \<^verbatim>\<open>netif/ethernetif.c\<close>; the receive ring is
    a queue of frames, and the interrupt handler empties it.
  \<^item> \<open>Etharp\<close>, \<open>Etharp_Spec\<close>, \<open>Etharp_Msg\<close>: \<^verbatim>\<open>netif/etharp.c\<close>; the table of addresses with its invariant, which
    every step of a run keeps, its ageing and recycling, and the exchange of request and reply.
  \<^item> \<open>Netif\<close>, \<open>Netif_Spec\<close>: \<^verbatim>\<open>core/netif.c\<close>, the list of interfaces, their addresses and flags; every step keeps the
    list well formed, and routing uses the interfaces on it that are up.
  \<^item> \<open>Ip\<close>, \<open>Ip_Spec\<close>: \<^verbatim>\<open>core/ipv4/ip.c\<close>; the header that is written and the packets that are accepted.
    \<open>Pbuf_Head\<close> holds the facts on headers in front of a packet that the layers share.
  \<^item> \<open>Ip_Link\<close>: the locale \<open>ip_link\<close> states what IP relies on of \<^verbatim>\<open>netif->output\<close>; it is interpreted on
    \<^verbatim>\<open>etharp_output\<close>, and the input functions of both layers are linked.
  \<^item> \<open>Icmp\<close>, \<open>Icmp_Spec\<close>: \<^verbatim>\<open>core/ipv4/icmp.c\<close>; the bytes of an echo reply.
  \<^item> \<open>Pcb\<close>, \<open>Udp\<close>, \<open>Udp_Spec\<close>, \<open>Udp_Data\<close>, \<open>Raw\<close>: \<^verbatim>\<open>core/udp.c\<close> and \<^verbatim>\<open>core/raw.c\<close>.  The control blocks are linked lists;
    ports are given out without conflict, and what is sent is what the receiver's block gets.
  \<^item> \<open>Ip_Frag\<close>, \<open>Ip_Reass\<close>: \<^verbatim>\<open>core/ipv4/ip_frag.c\<close>; the queue of fragments and the datagram it becomes.
  \<^item> \<open>Slip\<close>, \<open>Slip_Spec\<close>: \<^verbatim>\<open>netif/slipif.c\<close>; what is sent is received.
  \<^item> \<open>Fsm\<close>, \<open>Fsm_Spec\<close>: the automaton of \<^verbatim>\<open>netif/ppp/fsm.c\<close> against the table of RFC 1661, its restart timer,
    whose element comes from the pool of timeouts, and its restart counter.
  \<^item> \<open>Md5\<close>, \<open>Md5_Spec\<close>: the digest of \<^verbatim>\<open>netif/ppp/md5.c\<close> against RFC 1321.
  \<^item> \<open>Asn1\<close>: \<^verbatim>\<open>core/snmp/asn1_enc.c\<close> and \<^verbatim>\<open>asn1_dec.c\<close>; round trips over pbuf chains.
  \<^item> \<open>Gpio\<close>, \<open>Board\<close>: the drivers and the code of the board: clocks, tick, watchdog, LED, main loop.
  \<^item> \<open>App\<close>: the UDP receiver and the handlers of the TCP server.

  \<^bold>\<open>Conventions.\<close>  Structures are records, and a structure that is reached through pointers is a map from
  addresses; state is passed explicitly.  Machine words are \<open>u8\<close>, \<open>u16\<close>, \<open>u32\<close> where bits or
  wrap-around matter and natural numbers with the reduction written out elsewhere.  Loops that the C
  code bounds are structural recursions; loops along links or on hardware flags are partial functions
  with result \<open>None\<close> when they do not end, and the theorems state that they return.  What is called
  through function pointers, the contents of registers the hardware sets, and the configuration are
  arguments.  Debug output, statistics and the locks, which are empty in the configuration, are left out.
  So are the assertions, except those on the queue of fragments in \<^verbatim>\<open>ip_frag.c\<close>, where a failed one is the
  result \<open>None\<close>: the handler of a failed assertion belongs to the port, which is not in the repository.

  \<^bold>\<open>Not modelled.\<close>  The rest of lwIP (TCP, DHCP, DNS, the SNMP agent, the sequential and
  socket API, the PPP protocols above the automaton), the drivers of the peripheral library that the
  firmware does not call, the CMSIS headers, the register configuration of \<^verbatim>\<open>ETH_Init\<close> and of the PHY,
  the start-up assembler code and the unit tests.
\<close>

end
